(* ===== verification/Prelude.thy ===== *)
theory Prelude
  imports Main "HOL-Library.While_Combinator" "HOL-Library.Sublist"
begin

text \<open>
  Shared vocabulary of the development.

  \<^item> \<open>result\<close>: the outcome of a run of C++ code, a value or a fault. The faults are the ways
    in which the program stops without returning: an access outside a \<open>std::vector\<close>, an
    overflow of a signed integer, a read of a variable that was never written, a call of
    \<open>exit\<close>, a contract violation reported by CaDiCaL (\<open>abort\<close>), an exception nobody
    catches, a loop or recursion that does not come back, and a fatal error message
    followed by \<open>abort\<close>.
  \<^item> vectors: \<open>vec_at\<close>, \<open>vec_set\<close> and \<open>vec_resize\<close> are \<open>operator[]\<close> (read and
    write) and \<open>resize\<close>.
  \<^item> integers: \<open>uint32_t\<close> values are naturals and \<open>int32_t\<close> values integers; \<open>u32\<close> and
    \<open>i32\<close> are the conversions, modulo 2 to the 32.
  \<^item> \<open>rfold\<close> is a range based \<open>for\<close> loop over a vector with its state.
\<close>

named_theorems wf_simps "unfoldings of the well-formedness predicates"
named_theorems ok_simps "operations that succeed on well-formed data"

section \<open>Outcomes\<close>

datatype fault =
    OutOfBounds
  | SignedOverflow
  | Uninitialised
  | Exit int
  | ContractViolated
  | Uncaught
  | Diverges
  | Aborted

datatype 'a result = Ok 'a | Fault fault

primrec rbind :: "'a result \<Rightarrow> ('a \<Rightarrow> 'b result) \<Rightarrow> 'b result" where
  "rbind (Ok x) f = f x"
| "rbind (Fault e) f = Fault e"

fun rfold :: "('a \<Rightarrow> 's \<Rightarrow> 's result) \<Rightarrow> 'a list \<Rightarrow> 's \<Rightarrow> 's result" where
  "rfold f [] s = Ok s"
| "rfold f (x # xs) s = rbind (f x s) (rfold f xs)"

lemma rbind_cong [fundef_cong]:
  "m = m' \<Longrightarrow> (\<And>x. m' = Ok x \<Longrightarrow> f x = f' x) \<Longrightarrow> rbind m f = rbind m' f'"
  by (cases m') auto

lemma rfold_cong [fundef_cong]:
  "xs = ys \<Longrightarrow> s = t \<Longrightarrow> (\<And>x u. x \<in> set ys \<Longrightarrow> f x u = g x u) \<Longrightarrow> rfold f xs s = rfold g ys t"
proof (induction ys arbitrary: xs s t)
  case Nil
  then show ?case by simp
next
  case (Cons y ys)
  have "rfold f ys u = rfold g ys u" for u
    using Cons.IH [of ys u u] Cons.prems(3) by simp
  then show ?case using Cons.prems by (auto intro: rbind_cong)
qed

lemma rbind_eq_Ok_iff: "rbind m f = Ok y \<longleftrightarrow> (\<exists>x. m = Ok x \<and> f x = Ok y)"
  by (cases m) auto

lemma rbind_assoc: "rbind (rbind m f) g = rbind m (\<lambda>x. rbind (f x) g)"
  by (cases m) auto

lemma rbind_Ok [simp]: "rbind m Ok = m"
  by (cases m) auto

lemma rfold_append: "rfold f (xs @ ys) s = rbind (rfold f xs s) (rfold f ys)"
proof (induction xs arbitrary: s)
  case (Cons x xs)
  then show ?case by (cases "f x s") simp_all
qed simp

text \<open>A loop whose body always succeeds is a \<open>fold\<close>; \<open>I\<close> is the loop invariant.\<close>

lemma rfold_Ok_fold:
  assumes "I s"
    and "\<And>x u. x \<in> set xs \<Longrightarrow> I u \<Longrightarrow> f x u = Ok (g x u) \<and> I (g x u)"
  shows "rfold f xs s = Ok (fold g xs s) \<and> I (fold g xs s)"
  using assms
proof (induction xs arbitrary: s)
  case (Cons x xs)
  then have "f x s = Ok (g x s)" and "I (g x s)" by simp_all
  with Cons show ?case by simp
qed simp

primrec the_ok :: "'a result \<Rightarrow> 'a" where
  "the_ok (Ok x) = x"
| "the_ok (Fault e) = undefined"

fun is_ok :: "'a result \<Rightarrow> bool" where
  "is_ok (Ok x) \<longleftrightarrow> True"
| "is_ok (Fault e) \<longleftrightarrow> False"

lemma is_okD: "is_ok r \<Longrightarrow> r = Ok (the_ok r)"
  by (cases r) simp_all

text \<open>Elements for which the body is \<open>continue\<close> can be left out.\<close>

lemma rfold_filter:
  assumes "\<And>x u. x \<in> set xs \<Longrightarrow> \<not> p x \<Longrightarrow> f x u = Ok u"
  shows "rfold f xs s = rfold f (filter p xs) s"
  using assms by (induction xs arbitrary: s) (auto intro: rbind_cong)

text \<open>A loop that looks for a marked position and stops at the first one.\<close>

fun some_marked :: "bool list \<Rightarrow> nat list \<Rightarrow> bool result" where
  "some_marked bits [] = Ok False"
| "some_marked bits (x # xs) =
     rbind (if x < length bits then Ok (bits ! x) else Fault OutOfBounds) (\<lambda>b.
       if b then Ok True else some_marked bits xs)"

lemma some_marked_Ok:
  "\<forall>x \<in> set xs. x < length bits \<Longrightarrow> some_marked bits xs = Ok (\<exists>x \<in> set xs. bits ! x)"
  by (induction xs) auto

section \<open>While loops\<close>

text \<open>
  \<open>rwhile b c s\<close> runs the body \<open>c\<close> while \<open>b\<close> holds. It stops at the first fault, and a
  loop that never stops is the fault \<open>Diverges\<close>.
\<close>

definition rwhile :: "('s \<Rightarrow> bool) \<Rightarrow> ('s \<Rightarrow> 's result) \<Rightarrow> 's \<Rightarrow> 's result" where
  "rwhile b c s =
     (case while_option (\<lambda>r. case r of Ok t \<Rightarrow> b t | Fault e \<Rightarrow> False) (\<lambda>r. rbind r c) (Ok s) of
        None \<Rightarrow> Fault Diverges
      | Some r \<Rightarrow> r)"

lemma rwhile_unfold [code]: "rwhile b c s = (if b s then rbind (c s) (rwhile b c) else Ok s)"
proof (cases "b s")
  case True
  then have "rwhile b c s = (case while_option (\<lambda>r. case r of Ok t \<Rightarrow> b t | Fault e \<Rightarrow> False)
      (\<lambda>r. rbind r c) (c s) of None \<Rightarrow> Fault Diverges | Some r \<Rightarrow> r)"
    by (simp add: rwhile_def while_option_unfold [of _ _ "Ok s"])
  then show ?thesis
    using True by (cases "c s") (simp_all add: rwhile_def while_option_unfold [of _ _ "Fault _"])
next
  case False
  then show ?thesis by (simp add: rwhile_def while_option_unfold [of _ _ "Ok s"])
qed

lemma rwhile_rule:
  assumes "I s"
    and step: "\<And>u. I u \<Longrightarrow> b u \<Longrightarrow> \<exists>v. c u = Ok v \<and> I v \<and> (v, u) \<in> R"
    and "wf R"
  shows "\<exists>t. rwhile b c s = Ok t \<and> I t \<and> \<not> b t"
  using \<open>wf R\<close> \<open>I s\<close>
proof (induction s rule: wf_induct_rule)
  case (less s)
  show ?case
  proof (cases "b s")
    case True
    then obtain v where "c s = Ok v" "I v" "(v, s) \<in> R" using step less.prems by blast
    then show ?thesis using less.IH [of v] True by (subst rwhile_unfold) simp
  next
    case False
    then show ?thesis using less.prems by (subst rwhile_unfold) simp
  qed
qed

section \<open>Vectors\<close>

definition vec_at :: "'a list \<Rightarrow> nat \<Rightarrow> 'a result" where
  "vec_at xs i = (if i < length xs then Ok (xs ! i) else Fault OutOfBounds)"

definition vec_set :: "'a list \<Rightarrow> nat \<Rightarrow> 'a \<Rightarrow> 'a list result" where
  "vec_set xs i v = (if i < length xs then Ok (xs[i := v]) else Fault OutOfBounds)"

definition vec_resize :: "'a list \<Rightarrow> nat \<Rightarrow> 'a \<Rightarrow> 'a list" where
  "vec_resize xs n d = take n xs @ replicate (n - length xs) d"

lemma vec_at_Ok [simp, ok_simps]: "i < length xs \<Longrightarrow> vec_at xs i = Ok (xs ! i)"
  by (simp add: vec_at_def)

lemma vec_at_fault [simp]: "length xs \<le> i \<Longrightarrow> vec_at xs i = Fault OutOfBounds"
  by (simp add: vec_at_def)

lemma vec_set_Ok [simp, ok_simps]: "i < length xs \<Longrightarrow> vec_set xs i v = Ok (xs[i := v])"
  by (simp add: vec_set_def)

lemma vec_set_fault [simp]: "length xs \<le> i \<Longrightarrow> vec_set xs i v = Fault OutOfBounds"
  by (simp add: vec_set_def)

lemma length_vec_resize [simp]: "length (vec_resize xs n d) = n"
  by (simp add: vec_resize_def)

lemma vec_resize_Nil [simp]: "vec_resize [] n d = replicate n d"
  by (simp add: vec_resize_def)

lemma nth_vec_resize:
  "i < n \<Longrightarrow> vec_resize xs n d ! i = (if i < length xs then xs ! i else d)"
  by (auto simp: vec_resize_def nth_append min_def)

text \<open>Writing the same value at several positions of a vector.\<close>

lemma length_fold_update [simp]:
  "length (fold (\<lambda>t bs. bs[t := v]) ts bs) = length bs"
  by (induction ts arbitrary: bs) auto

lemma nth_fold_update:
  "i < length bs \<Longrightarrow> fold (\<lambda>t bs. bs[t := v]) ts bs ! i = (if i \<in> set ts then v else bs ! i)"
  by (induction ts arbitrary: bs) (auto simp: nth_list_update)

lemma rfold_vec_set:
  assumes "\<forall>t \<in> set ts. t < length bs"
  shows "rfold (\<lambda>t bs. vec_set bs t v) ts bs = Ok (fold (\<lambda>t bs. bs[t := v]) ts bs)"
  using rfold_Ok_fold [of "\<lambda>u. length u = length bs" bs ts "\<lambda>t bs. vec_set bs t v"
      "\<lambda>t bs. bs[t := v]"] assms by simp

section \<open>Fixed width integers\<close>

definition u32 :: "int \<Rightarrow> nat" where
  "u32 i = nat (i mod 2 ^ 32)"

definition i32 :: "int \<Rightarrow> int" where
  "i32 i = (i + 2 ^ 31) mod 2 ^ 32 - 2 ^ 31"

definition INT_MIN :: int where
  "INT_MIN = - (2 ^ 31)"

definition INT_MAX :: int where
  "INT_MAX = 2 ^ 31 - 1"

text \<open>Negation of an \<open>int\<close>: the negation of the least value overflows.\<close>

definition neg_int :: "int \<Rightarrow> int result" where
  "neg_int i = (if i = INT_MIN then Fault SignedOverflow else Ok (- i))"

text \<open>The index of a literal in a table with an entry for each literal of CaDiCaL.\<close>

definition vlit :: "int \<Rightarrow> nat" where
  "vlit lit = (if lit < 0 then 1 else 0) + 2 * nat \<bar>lit\<bar>"

lemma u32_bound: "u32 i < 2 ^ 32"
  by (simp add: u32_def nat_less_iff)

lemma u32_id: "n < 2 ^ 32 \<Longrightarrow> u32 (int n) = n"
  by (simp add: u32_def)

lemma i32_id: "INT_MIN \<le> i \<Longrightarrow> i \<le> INT_MAX \<Longrightarrow> i32 i = i"
  by (simp add: i32_def INT_MIN_def INT_MAX_def)

lemma i32_range: "INT_MIN \<le> i32 i \<and> i32 i \<le> INT_MAX"
proof -
  have "0 \<le> (i + 2 ^ 31) mod 2 ^ 32" and "(i + 2 ^ 31) mod 2 ^ 32 < (2 ^ 32 :: int)"
    by simp_all
  then show ?thesis by (auto simp: i32_def INT_MIN_def INT_MAX_def)
qed

lemma neg_int_Ok: "INT_MIN < i \<Longrightarrow> neg_int i = Ok (- i)"
  by (simp add: neg_int_def)

section \<open>Decimal numerals\<close>

definition digit_char :: "nat \<Rightarrow> char" where
  "digit_char d = char_of (48 + d)"

definition is_digit :: "char \<Rightarrow> bool" where
  "is_digit c \<longleftrightarrow> 48 \<le> (of_char c :: nat) \<and> (of_char c :: nat) \<le> 57"

definition digit_val :: "char \<Rightarrow> nat" where
  "digit_val c = of_char c - 48"

text \<open>The digits \<open>operator<<\<close> writes for an unsigned number.\<close>

fun show_nat :: "nat \<Rightarrow> string" where
  "show_nat n = (if n < 10 then [digit_char n] else show_nat (n div 10) @ [digit_char (n mod 10)])"

declare show_nat.simps [simp del]

definition read_nat :: "string \<Rightarrow> nat" where
  "read_nat = foldl (\<lambda>n c. 10 * n + digit_val c) 0"

lemma digit_char_is_digit [simp]: "d < 10 \<Longrightarrow> is_digit (digit_char d)"
  by (simp add: digit_char_def is_digit_def)

lemma digit_val_char [simp]: "d < 10 \<Longrightarrow> digit_val (digit_char d) = d"
  by (simp add: digit_char_def digit_val_def)

lemma show_nat_digits: "\<forall>c \<in> set (show_nat n). is_digit c"
proof (induction n rule: show_nat.induct)
  case (1 n)
  then show ?case by (subst show_nat.simps) auto
qed

lemma show_nat_nonempty [simp]: "show_nat n \<noteq> []"
  by (subst show_nat.simps) simp

lemma read_show_nat [simp]: "read_nat (show_nat n) = n"
proof (induction n rule: show_nat.induct)
  case (1 n)
  show ?case
  proof (cases "n < 10")
    case True
    then show ?thesis by (subst show_nat.simps) (simp add: read_nat_def)
  next
    case False
    then have "read_nat (show_nat n) = 10 * read_nat (show_nat (n div 10)) + n mod 10"
      by (subst show_nat.simps) (simp add: read_nat_def)
    with "1.IH" False show ?thesis by simp
  qed
qed

lemma show_nat_inj: "show_nat m = show_nat n \<longleftrightarrow> m = n"
  by (metis read_show_nat)

lemma show_nat_not_in: "\<not> is_digit c \<Longrightarrow> c \<notin> set (show_nat n)"
  using show_nat_digits by blast

section \<open>Lists as sets\<close>

text \<open>A text up to the first occurrence of a character determines that text and the rest.\<close>

lemma append_sep_inj:
  "c \<notin> set xs \<Longrightarrow> c \<notin> set ys \<Longrightarrow> xs @ c # us = ys @ c # vs \<longleftrightarrow> xs = ys \<and> us = vs"
proof (induction xs arbitrary: ys)
  case Nil
  then show ?case by (cases ys) auto
next
  case (Cons x xs)
  then show ?case by (cases ys) auto
qed


lemma filter_set_inj:
  assumes "filter p xs = ys" "filter q xs = zs" "set ys = set zs"
  shows "ys = zs"
proof -
  have "p x = q x" if "x \<in> set xs" for x
    using assms that by (metis (mono_tags) mem_Collect_eq set_filter)
  then show ?thesis using assms(1,2) by (metis filter_cong)
qed

lemma concat_map_filter_single:
  "concat (map (\<lambda>x. if p x then [f x] else []) xs) = map f (filter p xs)"
  by (induction xs) auto

lemma concat_map_concat: "concat (map f (concat xss)) = concat (map (\<lambda>xs. concat (map f xs)) xss)"
  by (induction xss) auto

section \<open>Prefix free texts\<close>

text \<open>
  A rendering of values is prefix free if it can be split off the front of any text: what
  follows does not matter.
\<close>

definition prefix_free :: "('a \<Rightarrow> 'b list) \<Rightarrow> ('a \<Rightarrow> bool) \<Rightarrow> bool" where
  "prefix_free f P \<longleftrightarrow> (\<forall>x y s t. P x \<longrightarrow> P y \<longrightarrow> f x @ s = f y @ t \<longrightarrow> x = y \<and> s = t)"

lemma prefix_freeI:
  "(\<And>x y s t. P x \<Longrightarrow> P y \<Longrightarrow> f x @ s = f y @ t \<Longrightarrow> x = y \<and> s = t) \<Longrightarrow> prefix_free f P"
  unfolding prefix_free_def by blast

lemma prefix_freeD:
  "prefix_free f P \<Longrightarrow> P x \<Longrightarrow> P y \<Longrightarrow> f x @ s = f y @ t \<Longrightarrow> x = y \<and> s = t"
  unfolding prefix_free_def by blast

lemma prefix_free_list:
  assumes "prefix_free f P" "\<And>x. P x \<Longrightarrow> \<exists>c cs. f x = c # cs \<and> c \<noteq> z"
  shows "prefix_free (\<lambda>xs. concat (map f xs) @ z # zs) (list_all P)"
proof (rule prefix_freeI)
  fix xs ys s t
  show "list_all P xs \<Longrightarrow> list_all P ys \<Longrightarrow>
      (concat (map f xs) @ z # zs) @ s = (concat (map f ys) @ z # zs) @ t \<Longrightarrow> xs = ys \<and> s = t"
  proof (induction xs arbitrary: ys)
    case Nil
    then show ?case using assms(2) by (cases ys) fastforce+
  next
    case (Cons x xs)
    show ?case
    proof (cases ys)
      case Nil
      then show ?thesis using Cons.prems assms(2) [of x] by auto
    next
      case ys: (Cons y ys')
      have eq: "f x @ concat (map f xs) @ z # zs @ s = f y @ concat (map f ys') @ z # zs @ t"
        using Cons.prems(3) ys by simp
      then have "x = y \<and> concat (map f xs) @ z # zs @ s = concat (map f ys') @ z # zs @ t"
        using prefix_freeD [OF assms(1) _ _ eq] Cons.prems ys by simp
      then show ?thesis using Cons.IH [of ys'] Cons.prems ys by simp
    qed
  qed
qed

lemma prefix_free_concat:
  assumes "prefix_free f P" "\<And>x. f x \<noteq> []" "list_all P xs" "list_all P ys"
    "concat (map f xs) = concat (map f ys)"
  shows "xs = ys"
  using assms(3-5)
proof (induction xs arbitrary: ys)
  case Nil
  then show ?case using assms(2) by (cases ys) auto
next
  case (Cons x xs)
  show ?case
  proof (cases ys)
    case Nil
    then show ?thesis using Cons.prems(3) assms(2) by auto
  next
    case ys: (Cons y ys')
    then have "x = y \<and> concat (map f xs) = concat (map f ys')"
      using prefix_freeD [OF assms(1), of x y] Cons.prems by simp
    then show ?thesis using Cons ys by simp
  qed
qed

lemma prefix_free_pair:
  assumes "prefix_free f P" "prefix_free g Q"
  shows "prefix_free (\<lambda>(x, y). f x @ g y) (\<lambda>(x, y). P x \<and> Q y)"
proof (rule prefix_freeI)
  fix p q :: "'a \<times> 'c" and s t
  assume "case p of (x, y) \<Rightarrow> P x \<and> Q y" "case q of (x, y) \<Rightarrow> P x \<and> Q y"
    "(case p of (x, y) \<Rightarrow> f x @ g y) @ s = (case q of (x, y) \<Rightarrow> f x @ g y) @ t"
  then show "p = q \<and> s = t"
    using prefix_freeD [OF assms(1), of "fst p" "fst q" "g (snd p) @ s" "g (snd q) @ t"]
      prefix_freeD [OF assms(2), of "snd p" "snd q" s t] by (auto simp: case_prod_unfold prod_eq_iff)
qed

end
