(* ===== verification/Argumentation.thy ===== *)
theory Argumentation
  imports Prelude
begin

text \<open>
  The mathematics the solver computes with: abstract argumentation frameworks, their
  semantics and their serialisation. A framework is a set \<open>A\<close> of arguments with an attack
  relation \<open>att\<close>; every notion takes the set, because the solver works on sub-frameworks
  (reducts) of one parsed framework. Nothing here models code: these are the specifications
  the enumerators are proved to meet.

  \<open>adm_in att A P E\<close> is admissibility of \<open>E\<close> in \<open>A\<close> where the arguments of \<open>P\<close> may be used
  to counter attackers although they are not part of the framework. With \<open>P = {}\<close> it is the
  usual notion \<open>adm\<close>; other sets are needed because \<open>get_reduct\<close> can leave an argument marked
  in the bit set that is not in the array (theory \<open>Reduct\<close>).
\<close>

section \<open>Semantics\<close>

definition conflict_free :: "('a \<Rightarrow> 'a \<Rightarrow> bool) \<Rightarrow> 'a set \<Rightarrow> bool" where
  "conflict_free att E \<longleftrightarrow> (\<forall>a \<in> E. \<forall>b \<in> E. \<not> att a b)"

definition adm_in :: "('a \<Rightarrow> 'a \<Rightarrow> bool) \<Rightarrow> 'a set \<Rightarrow> 'a set \<Rightarrow> 'a set \<Rightarrow> bool" where
  "adm_in att A P E \<longleftrightarrow> E \<subseteq> A \<and> conflict_free att E \<and>
     (\<forall>a \<in> E. \<forall>b \<in> A. att b a \<longrightarrow> (\<exists>c \<in> E \<union> P. att c b))"

definition initial_in :: "('a \<Rightarrow> 'a \<Rightarrow> bool) \<Rightarrow> 'a set \<Rightarrow> 'a set \<Rightarrow> 'a set \<Rightarrow> bool" where
  "initial_in att A P E \<longleftrightarrow> E \<noteq> {} \<and> adm_in att A P E \<and>
     (\<forall>D. D \<subset> E \<longrightarrow> D \<noteq> {} \<longrightarrow> \<not> adm_in att A P D)"

abbreviation adm :: "('a \<Rightarrow> 'a \<Rightarrow> bool) \<Rightarrow> 'a set \<Rightarrow> 'a set \<Rightarrow> bool" where
  "adm att A E \<equiv> adm_in att A {} E"

abbreviation initial :: "('a \<Rightarrow> 'a \<Rightarrow> bool) \<Rightarrow> 'a set \<Rightarrow> 'a set \<Rightarrow> bool" where
  "initial att A E \<equiv> initial_in att A {} E"

definition defended :: "('a \<Rightarrow> 'a \<Rightarrow> bool) \<Rightarrow> 'a set \<Rightarrow> 'a set \<Rightarrow> 'a \<Rightarrow> bool" where
  "defended att A E a \<longleftrightarrow> (\<forall>b \<in> A. att b a \<longrightarrow> (\<exists>c \<in> E. att c b))"

definition complete_ext :: "('a \<Rightarrow> 'a \<Rightarrow> bool) \<Rightarrow> 'a set \<Rightarrow> 'a set \<Rightarrow> bool" where
  "complete_ext att A E \<longleftrightarrow> adm att A E \<and> (\<forall>a \<in> A. defended att A E a \<longrightarrow> a \<in> E)"

definition preferred_ext :: "('a \<Rightarrow> 'a \<Rightarrow> bool) \<Rightarrow> 'a set \<Rightarrow> 'a set \<Rightarrow> bool" where
  "preferred_ext att A E \<longleftrightarrow> adm att A E \<and> (\<forall>D. adm att A D \<longrightarrow> E \<subseteq> D \<longrightarrow> D = E)"

definition stable_ext :: "('a \<Rightarrow> 'a \<Rightarrow> bool) \<Rightarrow> 'a set \<Rightarrow> 'a set \<Rightarrow> bool" where
  "stable_ext att A E \<longleftrightarrow> E \<subseteq> A \<and> conflict_free att E \<and> (\<forall>b \<in> A - E. \<exists>a \<in> E. att a b)"

definition grounded_ext :: "('a \<Rightarrow> 'a \<Rightarrow> bool) \<Rightarrow> 'a set \<Rightarrow> 'a set \<Rightarrow> bool" where
  "grounded_ext att A E \<longleftrightarrow> complete_ext att A E \<and> (\<forall>C. complete_ext att A C \<longrightarrow> E \<subseteq> C)"

definition unattacked :: "('a \<Rightarrow> 'a \<Rightarrow> bool) \<Rightarrow> 'a set \<Rightarrow> 'a \<Rightarrow> bool" where
  "unattacked att A a \<longleftrightarrow> a \<in> A \<and> (\<forall>b \<in> A. \<not> att b a)"

text \<open>Strong admissibility: every member is defended by a strongly admissible set of others.\<close>

inductive strong_adm :: "('a \<Rightarrow> 'a \<Rightarrow> bool) \<Rightarrow> 'a set \<Rightarrow> 'a set \<Rightarrow> bool" for att A where
  strong_admI: "E \<subseteq> A \<Longrightarrow>
    \<forall>a \<in> E. \<exists>D. D \<subseteq> E - {a} \<and> strong_adm att A D \<and> defended att A D a \<Longrightarrow>
    strong_adm att A E"

definition reduct :: "('a \<Rightarrow> 'a \<Rightarrow> bool) \<Rightarrow> 'a set \<Rightarrow> 'a set \<Rightarrow> 'a set" where
  "reduct att A E = {a \<in> A. a \<notin> E \<and> (\<forall>e \<in> E. \<not> att e a)}"

section \<open>Serialisation sequences\<close>

fun ser :: "('a \<Rightarrow> 'a \<Rightarrow> bool) \<Rightarrow> 'a set \<Rightarrow> 'a set list \<Rightarrow> bool" where
  "ser att A [] \<longleftrightarrow> True"
| "ser att A (S # Ss) \<longleftrightarrow> initial att A S \<and> ser att (reduct att A S) Ss"

text \<open>Sequences that take unattacked arguments one at a time.\<close>

fun gser :: "('a \<Rightarrow> 'a \<Rightarrow> bool) \<Rightarrow> 'a set \<Rightarrow> 'a list \<Rightarrow> bool" where
  "gser att A [] \<longleftrightarrow> True"
| "gser att A (a # as) \<longleftrightarrow> unattacked att A a \<and> gser att (reduct att A {a}) as"

text \<open>An initial set is challenged when another initial set attacks it.\<close>

definition unchallenged :: "('a \<Rightarrow> 'a \<Rightarrow> bool) \<Rightarrow> 'a set \<Rightarrow> 'a set \<Rightarrow> bool" where
  "unchallenged att A S \<longleftrightarrow> initial att A S \<and>
     \<not> (\<exists>T. initial att A T \<and> (\<exists>t \<in> T. \<exists>s \<in> S. att t s))"

fun ucser :: "('a \<Rightarrow> 'a \<Rightarrow> bool) \<Rightarrow> 'a set \<Rightarrow> 'a set list \<Rightarrow> bool" where
  "ucser att A [] \<longleftrightarrow> True"
| "ucser att A (S # Ss) \<longleftrightarrow> unchallenged att A S \<and> ucser att (reduct att A S) Ss"

section \<open>Reducts and admissible sets\<close>

lemma reduct_subset: "reduct att A E \<subseteq> A"
  by (auto simp: reduct_def)

lemma reduct_empty [simp]: "reduct att A {} = A"
  by (simp add: reduct_def)

lemma reduct_reduct: "reduct att (reduct att A E) S = reduct att A (E \<union> S)"
  by (auto simp: reduct_def)

lemma reduct_psubset: "S \<subseteq> A \<Longrightarrow> S \<noteq> {} \<Longrightarrow> reduct att A S \<subset> A"
  by (auto simp: reduct_def)

lemma adm_empty [simp]: "adm_in att A P {}"
  by (simp add: adm_in_def conflict_free_def)

lemma adm_subset: "adm_in att A P E \<Longrightarrow> E \<subseteq> A"
  by (simp add: adm_in_def)

lemma adm_conflict_free: "adm_in att A P E \<Longrightarrow> conflict_free att E"
  by (simp add: adm_in_def)

lemma adm_attacks_back:
  "adm att A E \<Longrightarrow> a \<in> E \<Longrightarrow> b \<in> A \<Longrightarrow> att b a \<Longrightarrow> \<exists>c \<in> E. att c b"
  by (simp add: adm_in_def)

lemma initial_adm: "initial_in att A P E \<Longrightarrow> adm_in att A P E"
  by (simp add: initial_in_def)

lemma initial_nonempty: "initial_in att A P E \<Longrightarrow> E \<noteq> {}"
  by (simp add: initial_in_def)

lemma initial_subset: "initial_in att A P E \<Longrightarrow> E \<subseteq> A"
  by (simp add: initial_in_def adm_in_def)

lemma adm_Un:
  assumes E: "adm att A E" and S: "adm att (reduct att A E) S"
  shows "adm att A (E \<union> S)"
proof -
  have sub: "E \<subseteq> A" "S \<subseteq> reduct att A E" using E S by (auto dest: adm_subset)
  have no_se: "\<not> att s e" if "s \<in> S" "e \<in> E" for s e
    using adm_attacks_back [OF E \<open>e \<in> E\<close>, of s] sub that by (auto simp: reduct_def)
  have no_es: "\<not> att e s" if "s \<in> S" "e \<in> E" for s e
    using sub that by (auto simp: reduct_def)
  have "conflict_free att (E \<union> S)"
    using no_se no_es E S by (auto simp: conflict_free_def dest!: adm_conflict_free)
  moreover have "\<exists>c \<in> E \<union> S. att c b" if "a \<in> E \<union> S" "b \<in> A" "att b a" for a b
  proof (cases "a \<in> E")
    case True
    then show ?thesis using adm_attacks_back [OF E True] that by blast
  next
    case False
    then have "a \<in> S" using that by simp
    show ?thesis
    proof (cases "b \<in> reduct att A E")
      case True
      then show ?thesis using adm_attacks_back [OF S \<open>a \<in> S\<close> True] that by blast
    next
      case False
      then show ?thesis using no_es [OF \<open>a \<in> S\<close>] that by (auto simp: reduct_def)
    qed
  qed
  ultimately show ?thesis using sub reduct_subset [of att A E] by (auto simp: adm_in_def)
qed

lemma adm_Diff:
  assumes "adm att A E" "D \<subseteq> E"
  shows "adm att (reduct att A D) (E - D)"
proof -
  have "E - D \<subseteq> reduct att A D" and "conflict_free att (E - D)"
    using assms by (auto simp: adm_in_def conflict_free_def reduct_def)
  moreover have "\<exists>c \<in> E - D. att c b" if "a \<in> E - D" "b \<in> reduct att A D" "att b a" for a b
    using adm_attacks_back [OF assms(1), of a b] that by (auto simp: reduct_def)
  ultimately show ?thesis by (simp add: adm_in_def)
qed

lemma adm_Un_iff:
  assumes "adm att A E" "S \<inter> E = {}"
  shows "adm att (reduct att A E) S \<longleftrightarrow> adm att A (E \<union> S)"
proof
  assume "adm att A (E \<union> S)"
  then have "adm att (reduct att A E) ((E \<union> S) - E)" by (rule adm_Diff) simp
  then show "adm att (reduct att A E) S" using assms(2) by (simp add: Un_Diff Diff_triv)
qed (rule adm_Un [OF assms(1)])

lemma initial_exists:
  assumes "finite E" "adm_in att A P E" "E \<noteq> {}"
  shows "\<exists>S \<subseteq> E. initial_in att A P S"
  using assms
proof (induction E rule: finite_psubset_induct)
  case (psubset E)
  show ?case
  proof (cases "initial_in att A P E")
    case False
    then obtain D where "D \<subset> E" "D \<noteq> {}" "adm_in att A P D"
      using psubset.prems by (auto simp: initial_in_def)
    then show ?thesis using psubset.IH [of D] by blast
  qed auto
qed

lemma unattacked_initial: "unattacked att A a \<Longrightarrow> initial att A {a}"
  by (auto simp: unattacked_def initial_in_def adm_in_def conflict_free_def)

section \<open>Serialisability of the admissibility-based semantics\<close>

lemma ser_append: "ser att A (Ss @ Ts) \<longleftrightarrow> ser att A Ss \<and> ser att (reduct att A (\<Union> (set Ss))) Ts"
  by (induction Ss arbitrary: A) (auto simp: reduct_reduct)

lemma ser_adm: "ser att A Ss \<Longrightarrow> adm att A (\<Union> (set Ss))"
proof (induction Ss arbitrary: A)
  case (Cons S Ss)
  then have "adm att (reduct att A S) (\<Union> (set Ss))" and "adm att A S"
    by (auto dest: initial_adm)
  then show ?case by (simp add: adm_Un)
qed simp

lemma adm_ser:
  assumes "finite E" "adm att A E"
  shows "\<exists>Ss. ser att A Ss \<and> \<Union> (set Ss) = E"
  using assms
proof (induction E arbitrary: A rule: finite_psubset_induct)
  case (psubset E)
  show ?case
  proof (cases "E = {}")
    case True
    then show ?thesis by (intro exI [of _ "[]"]) simp
  next
    case False
    then obtain S where S: "S \<subseteq> E" "initial att A S"
      using initial_exists psubset.hyps psubset.prems by metis
    then have "E - S \<subset> E" using initial_nonempty by blast
    moreover have "adm att (reduct att A S) (E - S)"
      using psubset.prems S(1) by (rule adm_Diff)
    ultimately obtain Ss where "ser att (reduct att A S) Ss" "\<Union> (set Ss) = E - S"
      using psubset.IH by blast
    then show ?thesis using S by (intro exI [of _ "S # Ss"]) auto
  qed
qed

lemma preferred_iff_no_initial:
  assumes "finite A" "adm att A E"
  shows "preferred_ext att A E \<longleftrightarrow> \<not> (\<exists>S. initial att (reduct att A E) S)"
proof
  assume pref: "preferred_ext att A E"
  show "\<not> (\<exists>S. initial att (reduct att A E) S)"
  proof
    assume "\<exists>S. initial att (reduct att A E) S"
    then obtain S where S: "initial att (reduct att A E) S" ..
    then have "adm att A (E \<union> S)" using adm_Un assms(2) initial_adm by blast
    then have "E \<union> S = E" using pref by (auto simp: preferred_ext_def)
    moreover have "S \<inter> E = {}" using initial_subset [OF S] by (auto simp: reduct_def)
    ultimately show False using initial_nonempty [OF S] by blast
  qed
next
  assume none: "\<not> (\<exists>S. initial att (reduct att A E) S)"
  have "D = E" if D: "adm att A D" "E \<subseteq> D" for D
  proof (rule ccontr)
    assume "D \<noteq> E"
    then have "D - E \<noteq> {}" using D by blast
    moreover have "adm att (reduct att A E) (D - E)" using D by (rule adm_Diff)
    moreover have "finite (D - E)"
      using assms(1) D(1) adm_subset by (meson finite_Diff finite_subset)
    ultimately show False using initial_exists none by blast
  qed
  then show "preferred_ext att A E" using assms(2) by (simp add: preferred_ext_def)
qed

lemma not_attacked_by_adm:
  assumes "adm att A E" "defended att A E a"
  shows "\<not> (\<exists>e \<in> E. att e a)"
proof
  assume "\<exists>e \<in> E. att e a"
  then obtain e where e: "e \<in> E" "att e a" by blast
  then obtain c where "c \<in> E" "att c e"
    using assms adm_subset by (fastforce simp: defended_def)
  then show False using assms(1) e by (auto simp: conflict_free_def dest!: adm_conflict_free)
qed

lemma complete_iff_no_unattacked:
  assumes "adm att A E"
  shows "complete_ext att A E \<longleftrightarrow> \<not> (\<exists>a. unattacked att (reduct att A E) a)"
proof -
  have "unattacked att (reduct att A E) a \<longleftrightarrow> a \<in> A \<and> defended att A E a \<and> a \<notin> E" for a
    using not_attacked_by_adm [OF assms, of a]
    by (auto simp: unattacked_def reduct_def defended_def)
  then show ?thesis using assms by (auto simp: complete_ext_def)
qed

lemma stable_iff_reduct_empty:
  assumes "adm att A E"
  shows "stable_ext att A E \<longleftrightarrow> reduct att A E = {}"
  using assms by (auto simp: stable_ext_def reduct_def adm_in_def)

lemma stable_adm: "stable_ext att A E \<Longrightarrow> adm att A E"
  unfolding stable_ext_def adm_in_def conflict_free_def by (metis DiffI UnI1)

section \<open>Grounded and strongly admissible sets\<close>

lemma gser_append:
  "gser att A (as @ bs) \<longleftrightarrow> gser att A as \<and> gser att (reduct att A (set as)) bs"
  by (induction as arbitrary: A) (auto simp: reduct_reduct)

lemma gser_ser: "gser att A as \<Longrightarrow> ser att A (map (\<lambda>a. {a}) as)"
  by (induction as arbitrary: A) (auto intro: unattacked_initial)

lemma gser_adm: "gser att A as \<Longrightarrow> adm att A (set as)"
  using ser_adm [OF gser_ser] by simp

lemma gser_distinct: "gser att A as \<Longrightarrow> distinct as \<and> set as \<subseteq> A"
proof (induction as arbitrary: A)
  case (Cons a as)
  then have "distinct as \<and> set as \<subseteq> reduct att A {a}" using Cons.IH by fastforce
  then show ?case using Cons.prems by (auto simp: reduct_def unattacked_def)
qed simp

text \<open>An argument is unattacked in the reduct exactly when the set defends it.\<close>

lemma unattacked_reduct_iff:
  assumes "adm att A E"
  shows "unattacked att (reduct att A E) a \<longleftrightarrow> a \<in> A \<and> a \<notin> E \<and> defended att A E a"
  using not_attacked_by_adm [OF assms, of a]
  by (auto simp: unattacked_def reduct_def defended_def)

lemma strong_adm_defender:
  assumes "strong_adm att A E" "a \<in> E"
  obtains D where "D \<subseteq> E - {a}" "strong_adm att A D" "defended att A D a"
  using assms by (metis strong_adm.cases)

lemma defended_mono: "defended att A D a \<Longrightarrow> D \<subseteq> E \<Longrightarrow> defended att A E a"
  unfolding defended_def by blast

lemma gser_subset_complete:
  assumes "gser att A as" "complete_ext att A C"
  shows "set as \<subseteq> C"
  using assms(1)
proof (induction as rule: rev_induct)
  case (snoc a as)
  then have "set as \<subseteq> C" and a: "unattacked att (reduct att A (set as)) a"
    and "gser att A as" by (auto simp: gser_append)
  then have "a \<in> A" and d: "defended att A (set as) a"
    by (auto simp: unattacked_reduct_iff [OF gser_adm])
  have "defended att A C a" using d \<open>set as \<subseteq> C\<close> by (rule defended_mono)
  then show ?case using assms(2) \<open>a \<in> A\<close> \<open>set as \<subseteq> C\<close> by (auto simp: complete_ext_def)
qed simp

lemma gser_grounded:
  assumes "gser att A as" "\<not> (\<exists>a. unattacked att (reduct att A (set as)) a)"
  shows "grounded_ext att A (set as)"
  using assms gser_subset_complete complete_iff_no_unattacked gser_adm
  unfolding grounded_ext_def by blast

lemma grounded_unique: "grounded_ext att A E \<Longrightarrow> grounded_ext att A D \<Longrightarrow> E = D"
  unfolding grounded_ext_def by blast

lemma gser_strong_adm: "gser att A as \<Longrightarrow> strong_adm att A (set as)"
proof (induction as rule: rev_induct)
  case Nil
  then show ?case by (intro strong_admI) auto
next
  case (snoc a as)
  then have IH: "strong_adm att A (set as)" and g: "gser att A as"
    and a: "unattacked att (reduct att A (set as)) a" by (auto simp: gser_append)
  have a': "a \<in> A" "a \<notin> set as" "defended att A (set as) a"
    using a by (auto simp: unattacked_reduct_iff [OF gser_adm [OF g]])
  show ?case
  proof (rule strong_admI)
    show "set (as @ [a]) \<subseteq> A" using gser_distinct [OF g] a' by simp
    show "\<forall>b \<in> set (as @ [a]). \<exists>D. D \<subseteq> set (as @ [a]) - {b} \<and> strong_adm att A D \<and>
      defended att A D b"
    proof
      fix b assume b: "b \<in> set (as @ [a])"
      show "\<exists>D. D \<subseteq> set (as @ [a]) - {b} \<and> strong_adm att A D \<and> defended att A D b"
      proof (cases "b = a")
        case True
        then show ?thesis using IH a' by auto
      next
        case False
        then have "b \<in> set as" using b by simp
        with IH obtain D where "D \<subseteq> set as - {b}" "strong_adm att A D" "defended att A D b"
          by (rule strong_adm_defender)
        then show ?thesis by (auto intro!: exI [of _ D])
      qed
    qed
  qed
qed

text \<open>
  A strongly admissible set that extends the union of a sequence of unattacked arguments
  contains a next one.
\<close>

lemma strong_adm_next:
  assumes E: "strong_adm att A E" and "finite E" and g: "gser att A as"
    and "\<not> E \<subseteq> set as"
  shows "\<exists>a \<in> E. unattacked att (reduct att A (set as)) a"
  using E \<open>finite E\<close> \<open>\<not> E \<subseteq> set as\<close>
proof (induction rule: strong_adm.induct)
  case (strong_admI E)
  then obtain a where a: "a \<in> E" "a \<notin> set as" by blast
  then obtain D where D: "D \<subseteq> E - {a}" "defended att A D a"
    and IH: "\<not> D \<subseteq> set as \<Longrightarrow> \<exists>a \<in> D. unattacked att (reduct att A (set as)) a"
    using strong_admI.IH strong_admI.prems(1) by (metis Diff_subset finite_subset subset_trans)
  show ?case
  proof (cases "D \<subseteq> set as")
    case True
    with D(2) have "defended att A (set as) a" by (rule defended_mono)
    then have "unattacked att (reduct att A (set as)) a"
      using a strong_admI.hyps by (auto simp: unattacked_reduct_iff [OF gser_adm [OF g]])
    then show ?thesis using a by blast
  next
    case False
    then show ?thesis using IH D by blast
  qed
qed

lemma strong_adm_gser:
  assumes "finite E" "strong_adm att A E"
  shows "\<exists>as. gser att A as \<and> set as = E"
proof -
  have "\<exists>as. gser att A as \<and> set as \<subseteq> E \<and> n \<le> length as" if "n \<le> card E" for n
    using that
  proof (induction n)
    case 0
    then show ?case by (intro exI [of _ "[]"]) simp
  next
    case (Suc n)
    then obtain as where as: "gser att A as" "set as \<subseteq> E" "n \<le> length as" by auto
    show ?case
    proof (cases "Suc n \<le> length as")
      case False
      then have "card (set as) < card E"
        using as Suc.prems gser_distinct [OF as(1)] by (simp add: distinct_card)
      then have "\<not> E \<subseteq> set as" using as(2) by auto
      then obtain a where "a \<in> E" "unattacked att (reduct att A (set as)) a"
        using strong_adm_next assms as(1) by metis
      then show ?thesis using as by (intro exI [of _ "as @ [a]"]) (auto simp: gser_append)
    qed (use as in blast)
  qed
  then obtain as where as: "gser att A as" "set as \<subseteq> E" "card E \<le> length as" by blast
  then have "card E \<le> card (set as)" using gser_distinct [OF as(1)] by (simp add: distinct_card)
  then show ?thesis using as assms(1) card_seteq by blast
qed

lemma gser_maximal_exists:
  assumes "finite A"
  shows "\<exists>as. gser att A as \<and> \<not> (\<exists>a. unattacked att (reduct att A (set as)) a)"
  using assms
proof (induction A rule: finite_psubset_induct)
  case (psubset A)
  show ?case
  proof (cases "\<exists>a. unattacked att A a")
    case False
    then show ?thesis by (intro exI [of _ "[]"]) simp
  next
    case True
    then obtain a where a: "unattacked att A a" ..
    then have "reduct att A {a} \<subset> A" by (auto intro!: reduct_psubset simp: unattacked_def)
    then obtain as where "gser att (reduct att A {a}) as"
      "\<not> (\<exists>b. unattacked att (reduct att (reduct att A {a}) (set as)) b)"
      using psubset.IH by blast
    then show ?thesis using a by (intro exI [of _ "a # as"]) (simp add: reduct_reduct)
  qed
qed

lemma grounded_ex: "finite A \<Longrightarrow> \<exists>E. grounded_ext att A E"
  using gser_maximal_exists gser_grounded by metis

end
