(* ===== verification/AF_Core.thy ===== *)
theory AF_Core
  imports Argumentation
begin

text \<open>
  The data of the solver: the argumentation framework of \<open>include/AF.h\<close> and
  \<open>src/AF.cpp\<close> with its two adjacency vectors, the numbering of the propositional variables,
  the printers of extensions and sequences, and the set representation of
  \<open>include/IterableBitSet.h\<close>.

  \<open>wf_af\<close> is the invariant of a parsed framework, \<open>attacks\<close> its abstraction to a relation.
  \<open>wf_active\<close> is what every \<open>IterableBitSet\<close> of active arguments satisfies;
  \<open>consistent\<close> says in addition that its array and its bit set describe the same set.
  The \<open>uint8_t\<close> cells of a bit set are modelled as \<open>bool\<close>: the code stores only \<open>true\<close>,
  \<open>false\<close> and copies of other cells in them and reads them only as conditions.
\<close>

section \<open>AF\<close>

record AF =
  args :: nat
  attackers :: "nat list list"
  attacked :: "nat list list"

definition new_AF :: AF where
  "new_AF = \<lparr>args = 0, attackers = [], attacked = []\<rparr>"

definition set_arguments :: "nat \<Rightarrow> AF \<Rightarrow> AF" where
  "set_arguments n_args af =
     af\<lparr>args := n_args,
        attackers := vec_resize (attackers af) n_args [],
        attacked := vec_resize (attacked af) n_args []\<rparr>"

definition add_attack :: "nat \<Rightarrow> nat \<Rightarrow> AF \<Rightarrow> AF result" where
  "add_attack source target af =
     rbind (vec_at (attackers af) target) (\<lambda>ats.
     rbind (vec_set (attackers af) target (ats @ [source])) (\<lambda>new_attackers.
     rbind (vec_at (attacked af) source) (\<lambda>tgs.
     rbind (vec_set (attacked af) source (tgs @ [target])) (\<lambda>new_attacked.
       Ok (af\<lparr>attackers := new_attackers, attacked := new_attacked\<rparr>)))))"

definition accepted_var :: "AF \<Rightarrow> nat \<Rightarrow> int" where
  "accepted_var af arg = i32 (int (u32 (int arg + 1)))"

definition rejected_var :: "AF \<Rightarrow> nat \<Rightarrow> int" where
  "rejected_var af arg = i32 (int (u32 (int (args af) + int arg + 1)))"

section \<open>Printing\<close>

definition print_extension :: "nat list \<Rightarrow> string" where
  "print_extension extension =
     ''['' @
     concat (map (\<lambda>i. show_nat (u32 (int (extension ! i) + 1)) @
                      (if i \<noteq> length extension - 1 then '','' else ''''))
       [0..<length extension]) @
     '']''"

definition print_sequence :: "nat list list \<Rightarrow> string" where
  "print_sequence sequence =
     ''('' @
     concat (map (\<lambda>i. print_extension (sequence ! i) @
                      (if i \<noteq> length sequence - 1 then '','' else ''''))
       [0..<length sequence]) @
     '')''"

section \<open>IterableBitSet\<close>

record IterableBitSet =
  bs_array :: "nat list"
  bs_bitset :: "bool list"

definition clear :: "IterableBitSet \<Rightarrow> IterableBitSet" where
  "clear b = b\<lparr>bs_array := [], bs_bitset := []\<rparr>"

section \<open>Well-formedness\<close>

definition attacks :: "AF \<Rightarrow> nat \<Rightarrow> nat \<Rightarrow> bool" where
  "attacks af a b \<longleftrightarrow> a < length (attacked af) \<and> b \<in> set (attacked af ! a)"

definition in_range :: "nat \<Rightarrow> nat list list \<Rightarrow> bool" where
  "in_range n xss \<longleftrightarrow> length xss = n \<and> list_all (list_all (\<lambda>x. x < n)) xss"

text \<open>Every edge of the first adjacency vector is, turned around, in the second.\<close>

definition mirrored :: "nat list list \<Rightarrow> nat list list \<Rightarrow> bool" where
  "mirrored xss yss \<longleftrightarrow> list_all (\<lambda>a. list_all (\<lambda>b. a \<in> set (yss ! b)) (xss ! a)) [0..<length xss]"

definition wf_af :: "AF \<Rightarrow> bool" where
  "wf_af af \<longleftrightarrow> in_range (args af) (attackers af) \<and> in_range (args af) (attacked af) \<and>
     mirrored (attackers af) (attacked af) \<and> mirrored (attacked af) (attackers af)"

text \<open>The variables of all arguments fit into an \<open>int\<close>.\<close>

definition small_af :: "AF \<Rightarrow> bool" where
  "small_af af \<longleftrightarrow> 2 * int (args af) \<le> INT_MAX"

definition wf_active :: "AF \<Rightarrow> IterableBitSet \<Rightarrow> bool" where
  "wf_active af act \<longleftrightarrow> distinct (bs_array act) \<and> length (bs_bitset act) = args af \<and>
     list_all (\<lambda>a. a < args af \<and> bs_bitset act ! a) (bs_array act)"

definition consistent :: "AF \<Rightarrow> IterableBitSet \<Rightarrow> bool" where
  "consistent af act \<longleftrightarrow> wf_active af act \<and>
     list_all (\<lambda>a. bs_bitset act ! a \<longrightarrow> a \<in> set (bs_array act)) [0..<args af]"

text \<open>All arguments of the framework, the set the parser returns.\<close>

definition all_active :: "AF \<Rightarrow> IterableBitSet" where
  "all_active af = \<lparr>bs_array = [0..<args af], bs_bitset = replicate (args af) True\<rparr>"

text \<open>The arguments that are marked in the bit set but missing from the array.\<close>

definition phantoms :: "AF \<Rightarrow> IterableBitSet \<Rightarrow> nat set" where
  "phantoms af act = {a. a < args af \<and> bs_bitset act ! a \<and> a \<notin> set (bs_array act)}"

lemma in_rangeI:
  "length xss = n \<Longrightarrow> (\<And>a x. a < n \<Longrightarrow> x \<in> set (xss ! a) \<Longrightarrow> x < n) \<Longrightarrow> in_range n xss"
  by (auto simp: in_range_def list_all_iff in_set_conv_nth [of _ xss])

lemma in_rangeD: "in_range n xss \<Longrightarrow> a < n \<Longrightarrow> x \<in> set (xss ! a) \<Longrightarrow> x < n"
  by (auto simp: in_range_def list_all_iff dest!: nth_mem)

lemma mirroredI:
  "(\<And>a b. a < length xss \<Longrightarrow> b \<in> set (xss ! a) \<Longrightarrow> a \<in> set (yss ! b)) \<Longrightarrow> mirrored xss yss"
  by (auto simp: mirrored_def list_all_iff)

lemma mirroredD: "mirrored xss yss \<Longrightarrow> a < length xss \<Longrightarrow> b \<in> set (xss ! a) \<Longrightarrow> a \<in> set (yss ! b)"
  by (auto simp: mirrored_def list_all_iff)

lemma wf_af_lengths [wf_simps]:
  "wf_af af \<Longrightarrow> length (attackers af) = args af \<and> length (attacked af) = args af"
  by (simp add: wf_af_def in_range_def)

lemma wf_af_attacker_bound:
  "wf_af af \<Longrightarrow> b < args af \<Longrightarrow> a \<in> set (attackers af ! b) \<Longrightarrow> a < args af"
  unfolding wf_af_def by (blast dest: in_rangeD)

lemma wf_af_attacked_bound:
  "wf_af af \<Longrightarrow> a < args af \<Longrightarrow> b \<in> set (attacked af ! a) \<Longrightarrow> b < args af"
  unfolding wf_af_def by (blast dest: in_rangeD)

lemma attacks_bound: "wf_af af \<Longrightarrow> attacks af a b \<Longrightarrow> a < args af \<and> b < args af"
  using wf_af_attacked_bound by (auto simp: attacks_def wf_af_lengths)

lemma attacked_iff: "wf_af af \<Longrightarrow> a < args af \<Longrightarrow> b \<in> set (attacked af ! a) \<longleftrightarrow> attacks af a b"
  by (auto simp: attacks_def wf_af_lengths)

lemma attackers_iff:
  assumes "wf_af af" "b < args af"
  shows "a \<in> set (attackers af ! b) \<longleftrightarrow> attacks af a b"
proof
  assume "a \<in> set (attackers af ! b)"
  then have "b \<in> set (attacked af ! a)" "a < args af"
    using assms wf_af_attacker_bound wf_af_lengths [OF assms(1)]
    by (auto simp: wf_af_def intro: mirroredD)
  then show "attacks af a b" using assms by (simp add: attacked_iff)
next
  assume "attacks af a b"
  then show "a \<in> set (attackers af ! b)"
    using assms by (auto simp: wf_af_def attacks_def intro: mirroredD)
qed

lemma wf_active_bound: "wf_active af act \<Longrightarrow> a \<in> set (bs_array act) \<Longrightarrow> a < args af"
  by (auto simp: wf_active_def list_all_iff)

lemma wf_active_marked: "wf_active af act \<Longrightarrow> a \<in> set (bs_array act) \<Longrightarrow> bs_bitset act ! a"
  by (auto simp: wf_active_def list_all_iff)

lemma wf_active_length: "wf_active af act \<Longrightarrow> length (bs_bitset act) = args af"
  by (simp add: wf_active_def)

lemma wf_active_distinct: "wf_active af act \<Longrightarrow> distinct (bs_array act)"
  by (simp add: wf_active_def)

lemma marked_iff:
  "wf_active af act \<Longrightarrow> a < args af \<Longrightarrow>
     bs_bitset act ! a \<longleftrightarrow> a \<in> set (bs_array act) \<or> a \<in> phantoms af act"
  using wf_active_marked by (auto simp: phantoms_def)

lemma consistent_iff: "consistent af act \<longleftrightarrow> wf_active af act \<and> phantoms af act = {}"
  by (auto simp: consistent_def phantoms_def list_all_iff)

lemma consistent_all_active: "consistent af (all_active af)"
  by (auto simp: consistent_def wf_active_def all_active_def list_all_iff)

section \<open>Operations on the framework\<close>

lemma wf_af_set_arguments: "wf_af (set_arguments n new_AF)"
  by (auto simp: wf_af_def set_arguments_def new_AF_def in_range_def mirrored_def list_all_iff)

lemma attacks_set_arguments: "\<not> attacks (set_arguments n new_AF) a b"
  by (auto simp: attacks_def set_arguments_def new_AF_def)

lemma in_range_update:
  "in_range n xss \<Longrightarrow> i < n \<Longrightarrow> x < n \<Longrightarrow> in_range n (xss[i := xss ! i @ [x]])"
  by (rule in_rangeI) (auto simp: in_range_def nth_list_update split: if_splits intro: in_rangeD)

lemma mirrored_update:
  assumes "mirrored xss yss" "i < length xss" "x < length yss"
  shows "mirrored (xss[i := xss ! i @ [x]]) (yss[x := yss ! x @ [i]])"
proof (rule mirroredI)
  fix a b assume a: "a < length (xss[i := xss ! i @ [x]])" "b \<in> set (xss[i := xss ! i @ [x]] ! a)"
  then consider "b \<in> set (xss ! a)" | "a = i" "b = x"
    by (cases "a = i") auto
  then show "a \<in> set (yss[x := yss ! x @ [i]] ! b)"
  proof cases
    case 1
    then have "a \<in> set (yss ! b)" using mirroredD [OF assms(1)] a by simp
    then show ?thesis by (cases "b = x") (use assms(3) in auto)
  qed (use assms(3) in simp)
qed

lemma add_attack_Ok:
  assumes "wf_af af" "source < args af" "target < args af"
  obtains af' where "add_attack source target af = Ok af'" "wf_af af'" "args af' = args af"
    "\<And>a b. attacks af' a b \<longleftrightarrow> attacks af a b \<or> (a = source \<and> b = target)"
proof -
  define af' where "af' = af\<lparr>attackers := (attackers af)[target := attackers af ! target @ [source]],
    attacked := (attacked af)[source := attacked af ! source @ [target]]\<rparr>"
  have len: "length (attackers af) = args af" "length (attacked af) = args af"
    using assms(1) by (auto simp: wf_af_lengths)
  have "add_attack source target af = Ok af'"
    using assms(2,3) len by (simp add: add_attack_def af'_def)
  moreover have "wf_af af'"
    using assms len by (simp add: wf_af_def af'_def in_range_update mirrored_update)
  moreover have "attacks af' a b \<longleftrightarrow> attacks af a b \<or> (a = source \<and> b = target)" for a b
    using assms(2) len by (auto simp: attacks_def af'_def nth_list_update)
  moreover have "args af' = args af" by (simp add: af'_def)
  ultimately show ?thesis using that by blast
qed

lemma add_attack_fault:
  assumes "wf_af af" "\<not> (source < args af \<and> target < args af)"
  shows "add_attack source target af = Fault OutOfBounds"
  using assms by (auto simp: add_attack_def vec_at_def wf_af_lengths)

lemma accepted_var_eq: "small_af af \<Longrightarrow> a < args af \<Longrightarrow> accepted_var af a = int a + 1"
  by (simp add: accepted_var_def small_af_def u32_def i32_def INT_MAX_def)

lemma rejected_var_eq:
  "small_af af \<Longrightarrow> a < args af \<Longrightarrow> rejected_var af a = int (args af) + int a + 1"
  by (simp add: rejected_var_def small_af_def u32_def i32_def INT_MAX_def)

section \<open>Two small frameworks\<close>

text \<open>
  A framework without shared targets: 1 and 2 attack each other, 2 attacks 3. It is used to
  show that the hypotheses of the theorems below can hold.
\<close>

definition loop_af :: AF where
  "loop_af = \<lparr>args = 3, attackers = [[1], [0], [1]], attacked = [[1], [0, 2], []]\<rparr>"

text \<open>
  A framework with a shared target: the arguments 1 and 2 attack 3, which attacks 4, which
  attacks 5 (numbered from 0 in the model).
\<close>

definition shared_af :: AF where
  "shared_af = \<lparr>args = 5, attackers = [[], [], [0, 1], [2], [3]], attacked = [[2], [2], [3], [4], []]\<rparr>"

lemma loop_wf: "wf_af loop_af" "small_af loop_af"
  by code_simp+

lemma shared_wf: "wf_af shared_af" "small_af shared_af"
  by code_simp+

section \<open>The numbering of the variables\<close>

lemma shift_image: "(\<lambda>a. c + int a + 1) ` {..<n} = {c + 1..c + int n}"
proof (intro equalityI subsetI)
  fix x assume "x \<in> {c + 1..c + int n}"
  then have "x = c + int (nat (x - c - 1)) + 1" "nat (x - c - 1) \<in> {..<n}" by auto
  then show "x \<in> (\<lambda>a. c + int a + 1) ` {..<n}" by (rule image_eqI)
qed auto

text \<open>
  C19. The variables of the encoding: as long as twice the number of arguments fits into an
  \<open>int\<close>, the accepted variables are \<open>1..args\<close>, the rejected ones \<open>args+1..2*args\<close>, so all are
  different, positive and can be negated.
\<close>

theorem variables_correct:
  assumes "small_af af"
  shows "accepted_var af ` {..<args af} = {1..int (args af)} \<and>
    rejected_var af ` {..<args af} = {int (args af) + 1..2 * int (args af)} \<and>
    inj_on (accepted_var af) {..<args af} \<and> inj_on (rejected_var af) {..<args af} \<and>
    (\<forall>a < args af. neg_int (accepted_var af a) = Ok (- accepted_var af a) \<and>
       neg_int (rejected_var af a) = Ok (- rejected_var af a))"
proof -
  have acc: "accepted_var af a = int a + 1" if "a \<in> {..<args af}" for a
    using accepted_var_eq [OF assms] that by simp
  have rej: "rejected_var af a = int (args af) + int a + 1" if "a \<in> {..<args af}" for a
    using rejected_var_eq [OF assms] that by simp
  have "accepted_var af ` {..<args af} = (\<lambda>a. 0 + int a + 1) ` {..<args af}"
    by (rule image_cong) (simp_all add: acc)
  moreover have "rejected_var af ` {..<args af} = (\<lambda>a. int (args af) + int a + 1) ` {..<args af}"
    by (rule image_cong) (simp_all add: rej)
  moreover have "inj_on (accepted_var af) {..<args af}" "inj_on (rejected_var af) {..<args af}"
    using acc rej by (auto simp: inj_on_def)
  moreover have "\<forall>a < args af. neg_int (accepted_var af a) = Ok (- accepted_var af a) \<and>
      neg_int (rejected_var af a) = Ok (- rejected_var af a)"
    using acc rej by (auto simp: neg_int_def INT_MIN_def)
  ultimately show ?thesis using shift_image [of 0 "args af"] by (simp add: shift_image)
qed

theorem variables_correct_witness:
  "small_af loop_af \<and> accepted_var loop_af ` {..<3} = {1..3} \<and> rejected_var loop_af ` {..<3} = {4..6}"
  using variables_correct [OF loop_wf(2)] loop_wf(2) by (simp add: loop_af_def)

text \<open>
  The bound is sharp: with \<open>2 ^ 30\<close> arguments the rejected variable of the last argument is
  the smallest \<open>int\<close>, whose negation in \<open>admissible_nonempty\<close> overflows.
\<close>

theorem rejected_var_overflow:
  "rejected_var (af\<lparr>args := 2 ^ 30\<rparr>) (2 ^ 30 - 1) = INT_MIN \<and>
   neg_int (rejected_var (af\<lparr>args := 2 ^ 30\<rparr>) (2 ^ 30 - 1)) = Fault SignedOverflow \<and>
   \<not> small_af (af\<lparr>args := 2 ^ 30\<rparr>)"
  by (simp add: rejected_var_def neg_int_def small_af_def u32_def i32_def INT_MIN_def INT_MAX_def)

end
