(* ===== verification/Reduct.thy ===== *)
theory Reduct
  imports AF_Core
begin

text \<open>
  The two set operations of \<open>include/Algorithms.h\<close>: \<open>get_reduct\<close>, which removes a set and
  what it attacks from the active arguments, and \<open>get_cone\<close>, which collects what an argument
  depends on. \<open>get_reduct_Ok\<close> describes exactly what the first one returns. Its array is the
  reduct of the theory \<open>Argumentation\<close>. Its bit set is the array's set only if the removed set
  attacks no argument that was inactive before: such an argument stays marked in the new bit
  set (\<open>phantoms_get_reduct\<close>).
\<close>

section \<open>Definitions\<close>

definition mark_reduct :: "AF \<Rightarrow> nat \<Rightarrow> bool list \<Rightarrow> bool list result" where
  "mark_reduct af arg1 reduct_bitset =
     rbind (vec_set reduct_bitset arg1 True) (\<lambda>bits.
     rbind (vec_at (attacked af) arg1) (\<lambda>targets.
       rfold (\<lambda>arg2 bits. vec_set bits arg2 True) targets bits))"

definition keep_reduct :: "nat \<Rightarrow> nat list \<times> bool list \<Rightarrow> (nat list \<times> bool list) result" where
  "keep_reduct arg st = (case st of (reduct_array, reduct_bitset) \<Rightarrow>
     rbind (vec_at reduct_bitset arg) (\<lambda>marked.
       if \<not> marked
       then rbind (vec_set reduct_bitset arg True) (\<lambda>bits. Ok (reduct_array @ [arg], bits))
       else rbind (vec_set reduct_bitset arg False) (\<lambda>bits. Ok (reduct_array, bits))))"

definition get_reduct :: "AF \<Rightarrow> IterableBitSet \<Rightarrow> nat list \<Rightarrow> IterableBitSet result" where
  "get_reduct af active_arguments arguments =
     rbind (rfold (mark_reduct af) arguments (replicate (args af) False)) (\<lambda>bits.
     rbind (rfold keep_reduct (bs_array active_arguments) ([], bits)) (\<lambda>(reduct_array, reduct_bitset).
       Ok \<lparr>bs_array = reduct_array, bs_bitset = reduct_bitset\<rparr>))"

text \<open>One iteration of the loop of \<open>get_cone\<close>; the top of the stack is the head of the list.\<close>

definition cone_step :: "AF \<Rightarrow> bool list \<Rightarrow> nat list \<times> bool list \<times> nat list \<Rightarrow>
    (nat list \<times> bool list \<times> nat list) result" where
  "cone_step af active_bitset st = (case st of (stack, cone_bitset, cone_array) \<Rightarrow>
     (let arg = hd stack; stack = tl stack in
      rbind (vec_at cone_bitset arg) (\<lambda>seen.
      rbind (if \<not> seen
             then rbind (vec_set cone_bitset arg True) (\<lambda>bits. Ok (bits, cone_array @ [arg]))
             else Ok (cone_bitset, cone_array)) (\<lambda>(cone_bitset, cone_array).
      rbind (vec_at (attackers af) arg) (\<lambda>ats.
      rbind (rfold (\<lambda>att stack.
               rbind (vec_at cone_bitset att) (\<lambda>in_cone.
                 if in_cone then Ok stack
                 else rbind (vec_at active_bitset att) (\<lambda>is_active.
                   Ok (if is_active then att # stack else stack)))) ats stack) (\<lambda>stack.
        Ok (stack, cone_bitset, cone_array)))))))"

definition get_cone :: "AF \<Rightarrow> IterableBitSet \<Rightarrow> nat \<Rightarrow> IterableBitSet result" where
  "get_cone af active_arguments argument =
     rbind (vec_at (bs_bitset active_arguments) argument) (\<lambda>is_active.
       if \<not> is_active then Fault (Exit 1)
       else rbind (rwhile (\<lambda>(stack, _). stack \<noteq> []) (cone_step af (bs_bitset active_arguments))
                    ([argument], replicate (args af) False, [])) (\<lambda>(stack, cone_bitset, cone_array).
              Ok \<lparr>bs_array = cone_array, bs_bitset = cone_bitset\<rparr>))"

section \<open>The reduct\<close>

abbreviation removed :: "AF \<Rightarrow> nat set \<Rightarrow> nat set" where
  "removed af S \<equiv> S \<union> {b. \<exists>a \<in> S. attacks af a b}"

lemma mark_reduct_Ok:
  assumes "wf_af af" "a < args af" "length bits = args af"
  shows "\<exists>bits'. mark_reduct af a bits = Ok bits' \<and> length bits' = args af \<and>
    (\<forall>i < args af. bits' ! i \<longleftrightarrow> bits ! i \<or> i = a \<or> attacks af a i)"
proof -
  let ?bits' = "fold (\<lambda>t bs. bs[t := True]) (attacked af ! a) (bits[a := True])"
  have "\<forall>t \<in> set (attacked af ! a). t < length (bits[a := True])"
    using assms wf_af_attacked_bound by simp
  then have "mark_reduct af a bits = Ok ?bits'"
    using assms by (simp add: mark_reduct_def wf_af_lengths rfold_vec_set)
  moreover have "?bits' ! i \<longleftrightarrow> bits ! i \<or> i = a \<or> attacks af a i" if "i < args af" for i
    using that assms attacked_iff [OF assms(1,2), of i]
    by (auto simp: nth_fold_update nth_list_update)
  ultimately show ?thesis using assms by simp
qed

lemma mark_all_Ok:
  assumes "wf_af af" "\<forall>a \<in> set S. a < args af" "length bits = args af"
  shows "\<exists>bits'. rfold (mark_reduct af) S bits = Ok bits' \<and> length bits' = args af \<and>
    (\<forall>i < args af. bits' ! i \<longleftrightarrow> bits ! i \<or> i \<in> removed af (set S))"
  using assms(2,3)
proof (induction S arbitrary: bits)
  case (Cons a S)
  obtain bits1 where 1: "mark_reduct af a bits = Ok bits1" "length bits1 = args af"
    "\<forall>i < args af. bits1 ! i \<longleftrightarrow> bits ! i \<or> i = a \<or> attacks af a i"
    using mark_reduct_Ok [OF assms(1)] Cons.prems by (metis list.set_intros(1))
  obtain bits2 where 2: "rfold (mark_reduct af) S bits1 = Ok bits2" "length bits2 = args af"
    "\<forall>i < args af. bits2 ! i \<longleftrightarrow> bits1 ! i \<or> i \<in> removed af (set S)"
    using Cons.IH [of bits1] Cons.prems(1) 1(2) by auto
  have "rfold (mark_reduct af) (a # S) bits = Ok bits2" using 1 2 by simp
  moreover have "\<forall>i < args af. bits2 ! i \<longleftrightarrow> bits ! i \<or> i \<in> removed af (set (a # S))"
    using 1(3) 2(3) by auto
  ultimately show ?case using 2(2) by blast
qed simp

lemma keep_all_Ok:
  assumes "distinct xs" "\<forall>a \<in> set xs. a < length bits"
  shows "\<exists>bits'. rfold keep_reduct xs (arr, bits) = Ok (arr @ filter (\<lambda>a. \<not> bits ! a) xs, bits') \<and>
    length bits' = length bits \<and>
    (\<forall>i < length bits. bits' ! i \<longleftrightarrow> (if i \<in> set xs then \<not> bits ! i else bits ! i))"
  using assms
proof (induction xs arbitrary: arr bits)
  case (Cons a xs)
  let ?bits = "bits[a := \<not> bits ! a]"
  let ?arr = "if bits ! a then arr else arr @ [a]"
  have step: "keep_reduct a (arr, bits) = Ok (?arr, ?bits)"
    using Cons.prems by (simp add: keep_reduct_def)
  have keep: "filter (\<lambda>b. \<not> ?bits ! b) xs = filter (\<lambda>b. \<not> bits ! b) xs"
    using Cons.prems(1) by (intro filter_cong refl) (metis distinct.simps(2) nth_list_update_neq)
  obtain bits' where b: "rfold keep_reduct xs (?arr, ?bits)
      = Ok (?arr @ filter (\<lambda>b. \<not> ?bits ! b) xs, bits')" "length bits' = length bits"
    "\<forall>i < length bits. bits' ! i \<longleftrightarrow> (if i \<in> set xs then \<not> ?bits ! i else ?bits ! i)"
    using Cons.IH [of ?bits ?arr] Cons.prems by auto
  have "rfold keep_reduct (a # xs) (arr, bits) = Ok (arr @ filter (\<lambda>b. \<not> bits ! b) (a # xs), bits')"
    using step b(1) keep by simp
  moreover have "\<forall>i < length bits. bits' ! i \<longleftrightarrow> (if i \<in> set (a # xs) then \<not> bits ! i else bits ! i)"
    using b(3) Cons.prems by (auto simp: nth_list_update)
  ultimately show ?case using b(2) by blast
qed simp

lemma get_reduct_Ok:
  assumes "wf_af af" "wf_active af act" "\<forall>a \<in> set S. a < args af"
  obtains act' where "get_reduct af act S = Ok act'" "wf_active af act'"
    "bs_array act' = filter (\<lambda>a. a \<notin> removed af (set S)) (bs_array act)"
    "\<And>i. i < args af \<Longrightarrow> bs_bitset act' ! i \<longleftrightarrow>
       (if i \<in> set (bs_array act) then i \<notin> removed af (set S) else i \<in> removed af (set S))"
proof -
  obtain bits where bits: "rfold (mark_reduct af) S (replicate (args af) False) = Ok bits"
    "length bits = args af" "\<forall>i < args af. bits ! i \<longleftrightarrow> i \<in> removed af (set S)"
    using mark_all_Ok [OF assms(1,3), of "replicate (args af) False"] by auto
  have bound: "\<forall>a \<in> set (bs_array act). a < length bits"
    using wf_active_bound [OF assms(2)] bits(2) by simp
  obtain bits' where bits': "rfold keep_reduct (bs_array act) ([], bits)
      = Ok (filter (\<lambda>a. \<not> bits ! a) (bs_array act), bits')" "length bits' = args af"
    "\<forall>i < args af. bits' ! i \<longleftrightarrow> (if i \<in> set (bs_array act) then \<not> bits ! i else bits ! i)"
    using keep_all_Ok [OF wf_active_distinct [OF assms(2)] bound, of "[]"] bits(2) by auto
  let ?act' = "\<lparr>bs_array = filter (\<lambda>a. \<not> bits ! a) (bs_array act), bs_bitset = bits'\<rparr>"
  have arr: "filter (\<lambda>a. \<not> bits ! a) (bs_array act)
      = filter (\<lambda>a. a \<notin> removed af (set S)) (bs_array act)"
    using bits(2,3) bound by (intro filter_cong) auto
  show ?thesis
  proof (rule that)
    show "get_reduct af act S = Ok ?act'" using bits(1) bits'(1) by (simp add: get_reduct_def)
    show "wf_active af ?act'"
      using wf_active_distinct [OF assms(2)] bits' bits(2) bound
      by (auto simp: wf_active_def list_all_iff)
    show "bs_array ?act' = filter (\<lambda>a. a \<notin> removed af (set S)) (bs_array act)"
      using arr by simp
    show "bs_bitset ?act' ! i \<longleftrightarrow>
       (if i \<in> set (bs_array act) then i \<notin> removed af (set S) else i \<in> removed af (set S))"
      if "i < args af" for i
      using bits'(3) bits(3) that by simp
  qed
qed

lemma set_filter_removed:
  "set (filter (\<lambda>a. a \<notin> removed af S) xs) = reduct (attacks af) (set xs) S"
  by (auto simp: reduct_def)

text \<open>What \<open>get_reduct\<close> returns, abstracted to sets.\<close>

lemma get_reduct_sets:
  assumes "wf_af af" "wf_active af act" "\<forall>a \<in> set S. a < args af"
  obtains act' where "get_reduct af act S = Ok act'" "wf_active af act'"
    "bs_array act' = filter (\<lambda>a. a \<notin> removed af (set S)) (bs_array act)"
    "set (bs_array act') = reduct (attacks af) (set (bs_array act)) (set S)"
    "phantoms af act' = removed af (set S) - set (bs_array act)"
proof -
  obtain act' where r: "get_reduct af act S = Ok act'" "wf_active af act'"
    "bs_array act' = filter (\<lambda>a. a \<notin> removed af (set S)) (bs_array act)"
    "\<And>i. i < args af \<Longrightarrow> bs_bitset act' ! i \<longleftrightarrow>
       (if i \<in> set (bs_array act) then i \<notin> removed af (set S) else i \<in> removed af (set S))"
    using get_reduct_Ok [OF assms] by blast
  have "i \<in> phantoms af act' \<longleftrightarrow> i \<in> removed af (set S) - set (bs_array act)" for i
  proof (cases "i < args af")
    case True
    then show ?thesis using r(3) r(4) [OF True] by (auto simp: phantoms_def)
  next
    case False
    then have "i \<notin> removed af (set S)" using assms attacks_bound by blast
    with False show ?thesis by (simp add: phantoms_def)
  qed
  then have "phantoms af act' = removed af (set S) - set (bs_array act)" by blast
  then show ?thesis using that r set_filter_removed by metis
qed

section \<open>The cone\<close>

definition depends :: "AF \<Rightarrow> bool list \<Rightarrow> (nat \<times> nat) set" where
  "depends af active_bitset = {(a, b). attacks af b a \<and> active_bitset ! b}"

text \<open>The loop invariant of \<open>get_cone\<close>.\<close>

definition cone_inv :: "AF \<Rightarrow> bool list \<Rightarrow> nat \<Rightarrow> nat list \<times> bool list \<times> nat list \<Rightarrow> bool" where
  "cone_inv af act x st = (case st of (stack, bits, arr) \<Rightarrow>
     length bits = args af \<and> distinct arr \<and> (\<forall>i < args af. bits ! i \<longleftrightarrow> i \<in> set arr) \<and>
     set arr \<subseteq> {..<args af} \<and> set stack \<subseteq> {..<args af} \<and>
     set arr \<union> set stack \<subseteq> (depends af act)\<^sup>* `` {x} \<and> x \<in> set arr \<union> set stack \<and>
     depends af act `` set arr \<subseteq> set arr \<union> set stack)"

text \<open>What decreases: unvisited arguments, then the height of a stack with a visited top.\<close>

definition cone_measure :: "AF \<Rightarrow> nat list \<times> bool list \<times> nat list \<Rightarrow> nat \<times> nat" where
  "cone_measure af st = (case st of (stack, bits, arr) \<Rightarrow>
     (args af - length arr, if stack \<noteq> [] \<and> hd stack \<notin> set arr then 0 else Suc (length stack)))"

lemma cone_push_Ok:
  assumes "\<forall>a \<in> set ats. a < length bits \<and> a < length act"
  shows "rfold (\<lambda>att stack. rbind (vec_at bits att) (\<lambda>in_cone.
            if in_cone then Ok stack
            else rbind (vec_at act att) (\<lambda>is_active. Ok (if is_active then att # stack else stack))))
          ats stack
    = Ok (rev (filter (\<lambda>a. \<not> bits ! a \<and> act ! a) ats) @ stack)"
  using assms by (induction ats arbitrary: stack) auto

lemma cone_step_Ok:
  assumes "wf_af af" "length act = args af" and inv: "cone_inv af act x (a # stack, bits, arr)"
  obtains bits' where
    "cone_step af act (a # stack, bits, arr) =
       Ok (rev (filter (\<lambda>b. b \<notin> set (List.insert a arr) \<and> act ! b) (attackers af ! a)) @ stack, bits',
           if a \<in> set arr then arr else arr @ [a])"
    "length bits' = args af" "\<And>i. i < args af \<Longrightarrow> bits' ! i \<longleftrightarrow> i \<in> insert a (set arr)"
proof -
  have a: "a < args af" "length bits = args af" "\<And>i. i < args af \<Longrightarrow> bits ! i \<longleftrightarrow> i \<in> set arr"
    using inv by (auto simp: cone_inv_def)
  let ?bits' = "if a \<in> set arr then bits else bits[a := True]"
  have b': "length ?bits' = args af" "\<And>i. i < args af \<Longrightarrow> ?bits' ! i \<longleftrightarrow> i \<in> insert a (set arr)"
    using a by (auto simp: nth_list_update)
  have ats: "\<forall>b \<in> set (attackers af ! a). b < args af"
    using wf_af_attacker_bound [OF assms(1) a(1)] by blast
  have f: "filter (\<lambda>b. \<not> ?bits' ! b \<and> act ! b) (attackers af ! a)
      = filter (\<lambda>b. b \<notin> set (List.insert a arr) \<and> act ! b) (attackers af ! a)"
    using b'(2) ats by (intro filter_cong) auto
  have step: "cone_step af act (a # stack, bits, arr) =
       Ok (rev (filter (\<lambda>b. \<not> ?bits' ! b \<and> act ! b) (attackers af ! a)) @ stack, ?bits',
           if a \<in> set arr then arr else arr @ [a])"
    using a ats assms(2) b'(1)
    by (simp add: cone_step_def wf_af_lengths [OF assms(1)] cone_push_Ok)
  show ?thesis by (rule that [OF step [unfolded f] b'])
qed

lemma cone_step_inv:
  assumes "wf_af af" "length act = args af" and inv: "cone_inv af act x st" and "fst st \<noteq> []"
  shows "\<exists>st'. cone_step af act st = Ok st' \<and> cone_inv af act x st' \<and>
    (cone_measure af st', cone_measure af st) \<in> less_than <*lex*> less_than"
proof -
  obtain a stack bits arr where st: "st = (a # stack, bits, arr)"
    using assms(4) by (cases st; cases "fst st") auto
  let ?new = "filter (\<lambda>b. b \<notin> set (List.insert a arr) \<and> act ! b) (attackers af ! a)"
  let ?arr' = "if a \<in> set arr then arr else arr @ [a]"
  obtain bits' where step: "cone_step af act st = Ok (rev ?new @ stack, bits', ?arr')"
    and bits': "length bits' = args af" "\<And>i. i < args af \<Longrightarrow> bits' ! i \<longleftrightarrow> i \<in> insert a (set arr)"
    using cone_step_Ok [OF assms(1,2) inv [unfolded st], folded st] by blast
  define new where "new = ?new"
  define arr' where "arr' = ?arr'"
  note step = step [folded new_def arr'_def]
  have a: "a < args af" and bound: "set arr \<subseteq> {..<args af}" and dist: "distinct arr"
    using inv st by (auto simp: cone_inv_def)
  have new_dep: "(a, b) \<in> depends af act" "b < args af" if "b \<in> set new" for b
    using that attackers_iff [OF assms(1) a] wf_af_attacker_bound [OF assms(1) a]
    by (auto simp: new_def depends_def)
  have a_closed: "depends af act `` {a} \<subseteq> insert a (set arr) \<union> set new"
    using attackers_iff [OF assms(1) a] by (auto simp: new_def depends_def)
  have set': "set arr' = insert a (set arr)" "distinct arr'"
    using dist by (auto simp: arr'_def)
  have reach: "(x, a) \<in> (depends af act)\<^sup>*" using inv st by (auto simp: cone_inv_def)
  have "cone_inv af act x (rev new @ stack, bits', arr')"
    using inv st bits' set' new_dep a_closed a reach
    by (auto simp: cone_inv_def intro: rtrancl_into_rtrancl)
  moreover have "(cone_measure af (rev new @ stack, bits', arr'), cone_measure af st)
      \<in> less_than <*lex*> less_than"
  proof (cases "a \<in> set arr")
    case True
    have "hd (rev new @ stack) \<notin> set arr" if "new \<noteq> []"
      using that last_in_set [OF that] True by (auto simp: hd_append hd_rev new_def)
    then show ?thesis
      using True st by (cases "new = []") (auto simp: cone_measure_def arr'_def simp del: hd_append2)
  next
    case False
    have "card (insert a (set arr)) \<le> args af"
      using a bound by (metis card_lessThan card_mono finite_lessThan insert_subset lessThan_iff)
    then have "length arr < args af" using False dist by (simp add: distinct_card)
    then show ?thesis using False st by (auto simp: cone_measure_def arr'_def)
  qed
  ultimately show ?thesis using step by blast
qed

lemma get_cone_Ok:
  assumes "wf_af af" "wf_active af act" "x < args af" "bs_bitset act ! x"
  obtains cone where "get_cone af act x = Ok cone" "consistent af cone"
    "set (bs_array cone) = (depends af (bs_bitset act))\<^sup>* `` {x}"
proof -
  let ?D = "depends af (bs_bitset act)"
  have len: "length (bs_bitset act) = args af" using assms(2) by (rule wf_active_length)
  have wf: "wf (inv_image (less_than <*lex*> less_than) (cone_measure af))" by auto
  have start: "cone_inv af (bs_bitset act) x ([x], replicate (args af) False, [])"
    using assms(3) by (auto simp: cone_inv_def)
  have "\<exists>t. rwhile (\<lambda>(stack, _). stack \<noteq> []) (cone_step af (bs_bitset act))
      ([x], replicate (args af) False, []) = Ok t \<and> cone_inv af (bs_bitset act) x t \<and>
      \<not> (case t of (stack, _) \<Rightarrow> stack \<noteq> [])"
    using cone_step_inv [OF assms(1) len]
    by (intro rwhile_rule [where I = "cone_inv af (bs_bitset act) x", OF start _ wf])
      auto
  then obtain bits arr where run: "rwhile (\<lambda>(stack, _). stack \<noteq> []) (cone_step af (bs_bitset act))
      ([x], replicate (args af) False, []) = Ok ([], bits, arr)"
    and inv: "cone_inv af (bs_bitset act) x ([], bits, arr)" by auto
  let ?cone = "\<lparr>bs_array = arr, bs_bitset = bits\<rparr>"
  have "get_cone af act x = Ok ?cone" using run assms(3,4) len by (simp add: get_cone_def)
  moreover have "consistent af ?cone"
    using inv by (auto simp: cone_inv_def consistent_def wf_active_def list_all_iff)
  moreover have "?D\<^sup>* `` {x} \<subseteq> set arr"
  proof -
    have "?D\<^sup>* `` set arr = set arr"
      using inv by (intro Image_closed_trancl) (auto simp: cone_inv_def)
    moreover have "x \<in> set arr" using inv by (simp add: cone_inv_def)
    ultimately show ?thesis by blast
  qed
  ultimately show ?thesis using that inv by (auto simp: cone_inv_def)
qed

section \<open>Properties\<close>

text \<open>
  C17. \<open>get_reduct\<close> for every set of active arguments: it returns the active arguments that are
  neither in the set nor attacked by it, in their old order, and its bit set marks them; an
  inactive argument is marked exactly if the set contains or attacks it.
\<close>

theorem get_reduct_exact:
  assumes "wf_af af" "wf_active af act" "\<forall>a \<in> set S. a < args af"
  shows "\<exists>act'. get_reduct af act S = Ok act' \<and> wf_active af act' \<and>
    bs_array act' = filter (\<lambda>a. a \<notin> removed af (set S)) (bs_array act) \<and>
    set (bs_array act') = reduct (attacks af) (set (bs_array act)) (set S) \<and>
    phantoms af act' = removed af (set S) - set (bs_array act)"
  by (rule get_reduct_sets [OF assms]) blast

theorem get_reduct_exact_witness:
  "wf_af shared_af \<and> wf_active shared_af \<lparr>bs_array = [1, 3, 4], bs_bitset = [False, True, False, True, True]\<rparr> \<and>
   (\<exists>act'. get_reduct shared_af \<lparr>bs_array = [1, 3, 4], bs_bitset = [False, True, False, True, True]\<rparr> [1] = Ok act' \<and>
    phantoms shared_af act' = removed shared_af {1} - {1, 3, 4})"
proof -
  let ?act = "\<lparr>bs_array = [1, 3, 4], bs_bitset = [False, True, False, True, True]\<rparr>"
  have act: "wf_active shared_af ?act" by code_simp
  have S: "\<forall>a \<in> set [1]. a < args shared_af" by (simp add: shared_af_def)
  obtain act' where "get_reduct shared_af ?act [1] = Ok act'"
    "phantoms shared_af act' = removed shared_af (set [1]) - set (bs_array ?act)"
    using get_reduct_exact [OF shared_wf(1) act S] by blast
  then show ?thesis using act shared_wf(1) by simp
qed

text \<open>
  \<open>get_cone\<close> ends and returns the arguments on which the given one depends through chains of
  active attackers, with an array and a bit set that agree; for an argument that is not active
  the program ends with code 1.
\<close>

theorem get_cone_correct:
  assumes "wf_af af" "wf_active af act" "x < args af"
  shows "if bs_bitset act ! x
    then \<exists>cone. get_cone af act x = Ok cone \<and> consistent af cone \<and>
      set (bs_array cone) = (depends af (bs_bitset act))\<^sup>* `` {x}
    else get_cone af act x = Fault (Exit 1)"
proof (cases "bs_bitset act ! x")
  case True
  show ?thesis unfolding if_P [OF True] by (rule get_cone_Ok [OF assms True]) blast
next
  case False
  then show ?thesis using assms(3) wf_active_length [OF assms(2)] by (simp add: get_cone_def)
qed

theorem get_cone_correct_witness:
  "wf_af loop_af \<and> wf_active loop_af (all_active loop_af) \<and>
   (\<exists>cone. get_cone loop_af (all_active loop_af) 2 = Ok cone \<and> consistent loop_af cone \<and>
      set (bs_array cone) = (depends loop_af (bs_bitset (all_active loop_af)))\<^sup>* `` {2})"
proof -
  have act: "wf_active loop_af (all_active loop_af)" by code_simp
  have "2 < args loop_af" "bs_bitset (all_active loop_af) ! 2" by code_simp+
  then show ?thesis using get_cone_correct [OF loop_wf(1) act, of 2] act loop_wf(1) by simp
qed

end
