(* ===== verification/Cadical_Api.thy ===== *)
theory Cadical_Api
  imports Prelude
begin

text \<open>
  The part of CaDiCaL's library interface the solver talks to
  (\<open>lib/cadical-1.9.5/src/solver.cpp\<close> and the functions of \<open>external.cpp\<close> they call): the API
  states with their contracts, adding clauses, assumptions and constraints, solving and
  reading the model, with CaDiCaL's default options (no checking, no proof, no propagator).

  The search engine behind \<open>Internal::solve\<close> is a parameter: \<open>engine calls\<close> is the status
  code and the extended assignment it produces after the recorded history \<open>calls\<close> of calls to
  \<open>Internal\<close>, so an engine may depend on everything that happened before.
  \<open>engine_ok\<close> states what \<open>cadical.hpp\<close> documents of it: \<open>10\<close> comes with a model of all
  clauses that also satisfies the current assumptions and constraint, and \<open>20\<close> is only
  returned if there is none. \<open>engine_decides\<close> says that no limit or terminator interrupts it.
  \<open>ref_engine\<close>, which tries all assignments, shows that both can be satisfied.

  A violated contract is the fault \<open>ContractViolated\<close> (the macros of \<open>contract.hpp\<close> abort).
\<close>

section \<open>States and calls\<close>

datatype State =
    INITIALIZING | CONFIGURING | STEADY | ADDING | SOLVING | SATISFIED | UNSATISFIED | DELETING

definition READY :: "State \<Rightarrow> bool" where
  "READY s \<longleftrightarrow> s = CONFIGURING \<or> s = STEADY \<or> s = SATISFIED \<or> s = UNSATISFIED"

definition VALID :: "State \<Rightarrow> bool" where
  "VALID s \<longleftrightarrow> READY s \<or> s = ADDING"

datatype call =
    AddOriginalLit int
  | Assume int
  | Constrain int
  | ResetAssumptions
  | ResetConstraint
  | Solve

type_synonym engine = "call list \<Rightarrow> int \<times> bool list"

record External =
  max_var :: int
  extended :: bool
  assumptions :: "int list"
  "constraint" :: "int list"
  vals :: "bool list"

record Solver =
  solver_state :: State
  adding_clause :: bool
  adding_constraint :: bool
  external :: External
  calls :: "call list"
  engine :: engine

section \<open>External\<close>

definition record_call :: "call \<Rightarrow> Solver \<Rightarrow> Solver" where
  "record_call c s = s\<lparr>calls := calls s @ [c]\<rparr>"

definition upd_external :: "(External \<Rightarrow> External) \<Rightarrow> Solver \<Rightarrow> Solver" where
  "upd_external f s = s\<lparr>external := f (external s)\<rparr>"

definition reset_extended :: "Solver \<Rightarrow> Solver" where
  "reset_extended = upd_external (\<lambda>x. x\<lparr>extended := False\<rparr>)"

text \<open>
  Of \<open>External::internalize\<close> the model keeps the declaration of new variables; the table of
  internal variables belongs to the engine.
\<close>

definition declare_var :: "int \<Rightarrow> Solver \<Rightarrow> Solver" where
  "declare_var elit = upd_external (\<lambda>x. if \<bar>elit\<bar> > max_var x then x\<lparr>max_var := \<bar>elit\<bar>\<rparr> else x)"

definition external_reset_assumptions :: "Solver \<Rightarrow> Solver" where
  "external_reset_assumptions s =
     record_call ResetAssumptions (upd_external (\<lambda>x. x\<lparr>assumptions := []\<rparr>) s)"

definition external_reset_constraint :: "Solver \<Rightarrow> Solver" where
  "external_reset_constraint s =
     record_call ResetConstraint (upd_external (\<lambda>x. x\<lparr>constraint := []\<rparr>) s)"

definition external_add :: "int \<Rightarrow> Solver \<Rightarrow> Solver" where
  "external_add elit s = record_call (AddOriginalLit elit) (declare_var elit (reset_extended s))"

definition external_assume :: "int \<Rightarrow> Solver \<Rightarrow> Solver" where
  "external_assume elit s =
     record_call (Assume elit)
       (declare_var elit (upd_external (\<lambda>x. x\<lparr>assumptions := assumptions x @ [elit]\<rparr>)
         (reset_extended s)))"

definition external_constrain :: "int \<Rightarrow> Solver \<Rightarrow> Solver" where
  "external_constrain elit s =
     (let s = (if constraint (external s) \<noteq> [] \<and> last (constraint (external s)) = 0
               then external_reset_constraint s else s)
      in record_call (Constrain elit)
           (upd_external (\<lambda>x. x\<lparr>constraint := constraint x @ [elit]\<rparr>)
             (declare_var elit (reset_extended s))))"

definition external_solve :: "Solver \<Rightarrow> int \<times> Solver" where
  "external_solve s =
     (let s = record_call Solve (reset_extended s) in (fst (engine s (calls s)), s))"

text \<open>\<open>External::extend\<close> fills the table of external values from the engine's assignment.\<close>

definition external_extend :: "Solver \<Rightarrow> Solver" where
  "external_extend s = upd_external (\<lambda>x. x\<lparr>vals := snd (engine s (calls s)), extended := True\<rparr>) s"

definition ival :: "External \<Rightarrow> int \<Rightarrow> int" where
  "ival x elit =
     (let eidx = \<bar>elit\<bar>;
          res = (if eidx > max_var x then - eidx
                 else if nat eidx \<ge> length (vals x) then - eidx
                 else if vals x ! nat eidx then eidx else - eidx)
      in if elit < 0 then - res else res)"

section \<open>Solver\<close>

definition new_Solver :: "engine \<Rightarrow> Solver" where
  "new_Solver eng =
     \<lparr>solver_state = CONFIGURING, adding_clause = False, adding_constraint = False,
      external = \<lparr>max_var = 0, extended = False, assumptions = [], constraint = [], vals = []\<rparr>,
      calls = [], engine = eng\<rparr>"

definition REQUIRE :: "bool \<Rightarrow> 'a result \<Rightarrow> 'a result" where
  "REQUIRE cond k = (if cond then k else Fault ContractViolated)"

definition VALID_LIT :: "int \<Rightarrow> bool" where
  "VALID_LIT lit \<longleftrightarrow> lit \<noteq> 0 \<and> lit \<noteq> INT_MIN"

definition set_state :: "State \<Rightarrow> Solver \<Rightarrow> Solver" where
  "set_state st s = s\<lparr>solver_state := st\<rparr>"

definition transition_to_steady_state :: "Solver \<Rightarrow> Solver" where
  "transition_to_steady_state s =
     set_state STEADY
       (if solver_state s = SATISFIED \<or> solver_state s = UNSATISFIED
        then external_reset_constraint (external_reset_assumptions s) else s)"

definition solver_add :: "int \<Rightarrow> Solver \<Rightarrow> Solver result" where
  "solver_add lit s =
     REQUIRE (VALID (solver_state s)) (
     REQUIRE (lit = 0 \<or> VALID_LIT lit) (
       let s = external_add lit (transition_to_steady_state s);
           s = s\<lparr>adding_clause := (lit \<noteq> 0)\<rparr>
       in Ok (if adding_clause s then set_state ADDING s
              else if \<not> adding_constraint s then set_state STEADY s
              else s)))"

text \<open>The overloads of \<open>Solver::clause\<close> check each literal and add it, then add the zero.\<close>

definition solver_clause :: "int list \<Rightarrow> Solver \<Rightarrow> Solver result" where
  "solver_clause lits s =
     rbind (rfold (\<lambda>lit s. REQUIRE (VALID_LIT lit) (solver_add lit s)) lits s) (solver_add 0)"

definition solver_constrain :: "int \<Rightarrow> Solver \<Rightarrow> Solver result" where
  "solver_constrain lit s =
     REQUIRE (VALID (solver_state s)) (
     REQUIRE (lit = 0 \<or> VALID_LIT lit) (
       let s = external_constrain lit (transition_to_steady_state s);
           s = s\<lparr>adding_constraint := (lit \<noteq> 0)\<rparr>
       in Ok (if adding_constraint s then set_state ADDING s
              else if \<not> adding_clause s then set_state STEADY s
              else s)))"

definition solver_assume :: "int \<Rightarrow> Solver \<Rightarrow> Solver result" where
  "solver_assume lit s =
     REQUIRE (VALID (solver_state s)) (
     REQUIRE (VALID_LIT lit) (
       Ok (external_assume lit (transition_to_steady_state s))))"

definition solver_reset_assumptions :: "Solver \<Rightarrow> Solver result" where
  "solver_reset_assumptions s =
     REQUIRE (VALID (solver_state s)) (
       Ok (external_reset_assumptions (transition_to_steady_state s)))"

definition solver_reset_constraint :: "Solver \<Rightarrow> Solver result" where
  "solver_reset_constraint s =
     REQUIRE (VALID (solver_state s)) (
       Ok (external_reset_constraint (transition_to_steady_state s)))"

definition call_external_solve_and_check_results :: "Solver \<Rightarrow> int \<times> Solver" where
  "call_external_solve_and_check_results s =
     (let s = set_state SOLVING (transition_to_steady_state s);
          (res, s) = external_solve s;
          s = (if res = 10 then set_state SATISFIED s
               else if res = 20 then set_state UNSATISFIED s
               else set_state STEADY s);
          s = (if res = 0 then external_reset_constraint (external_reset_assumptions s) else s)
      in (res, s))"

definition solver_solve :: "Solver \<Rightarrow> (int \<times> Solver) result" where
  "solver_solve s =
     REQUIRE (VALID (solver_state s)) (
     REQUIRE (solver_state s \<noteq> ADDING) (
       Ok (call_external_solve_and_check_results s)))"

definition solver_val :: "int \<Rightarrow> Solver \<Rightarrow> (int \<times> Solver) result" where
  "solver_val lit s =
     REQUIRE (VALID (solver_state s)) (
     REQUIRE (VALID_LIT lit) (
     REQUIRE (solver_state s = SATISFIED) (
       let s = (if \<not> extended (external s) then external_extend s else s)
       in Ok (ival (external s) lit, s))))"

definition solver_vars :: "Solver \<Rightarrow> int result" where
  "solver_vars s =
     REQUIRE (VALID (solver_state s) \<or> solver_state s = SOLVING) (Ok (max_var (external s)))"

definition status :: "Solver \<Rightarrow> int" where
  "status s = (if solver_state s = SATISFIED then 10
               else if solver_state s = UNSATISFIED then 20 else 0)"

section \<open>What the engine promises\<close>

type_synonym assignment = "nat \<Rightarrow> bool"

definition holds :: "assignment \<Rightarrow> int \<Rightarrow> bool" where
  "holds \<sigma> lit \<longleftrightarrow> (if lit < 0 then \<not> \<sigma> (nat (- lit)) else \<sigma> (nat lit))"

definition sat_clause :: "assignment \<Rightarrow> int list \<Rightarrow> bool" where
  "sat_clause \<sigma> c \<longleftrightarrow> list_ex (holds \<sigma>) c"

definition sat_all :: "assignment \<Rightarrow> int list list \<Rightarrow> int list \<Rightarrow> bool" where
  "sat_all \<sigma> cs as \<longleftrightarrow> list_all (sat_clause \<sigma>) cs \<and> list_all (holds \<sigma>) as"

text \<open>
  The formula a history of calls stands for: the finished clauses, the clause being
  added, the current assumptions and constraint, and the largest variable.
\<close>

record formula =
  f_clauses :: "int list list"
  f_open :: "int list"
  f_assumed :: "int list"
  f_constraint :: "int list"
  f_max :: int

definition empty_formula :: formula where
  "empty_formula =
     \<lparr>f_clauses = [], f_open = [], f_assumed = [], f_constraint = [], f_max = 0\<rparr>"

fun formula_step :: "call \<Rightarrow> formula \<Rightarrow> formula" where
  "formula_step (AddOriginalLit l) f =
     (if l = 0 then f\<lparr>f_clauses := f_clauses f @ [f_open f], f_open := []\<rparr>
      else f\<lparr>f_open := f_open f @ [l], f_max := max (f_max f) \<bar>l\<bar>\<rparr>)"
| "formula_step (Assume l) f = f\<lparr>f_assumed := f_assumed f @ [l], f_max := max (f_max f) \<bar>l\<bar>\<rparr>"
| "formula_step (Constrain l) f =
     f\<lparr>f_constraint := f_constraint f @ [l], f_max := max (f_max f) \<bar>l\<bar>\<rparr>"
| "formula_step ResetAssumptions f = f\<lparr>f_assumed := []\<rparr>"
| "formula_step ResetConstraint f = f\<lparr>f_constraint := []\<rparr>"
| "formula_step Solve f = f"

definition formula_of :: "call list \<Rightarrow> formula" where
  "formula_of cs = fold formula_step cs empty_formula"

text \<open>The clauses of a query: the constraint, if there is one, is one more clause.\<close>

definition query_clauses :: "formula \<Rightarrow> int list list" where
  "query_clauses f = f_clauses f @
     (if f_constraint f = [] then [] else [filter (\<lambda>l. l \<noteq> 0) (f_constraint f)])"

definition assignment_of :: "bool list \<Rightarrow> assignment" where
  "assignment_of vs i \<longleftrightarrow> i < length vs \<and> vs ! i"

definition engine_ok :: "engine \<Rightarrow> bool" where
  "engine_ok eng \<longleftrightarrow> (\<forall>cs.
     let f = formula_of cs; (res, vs) = eng cs in
       (res = 10 \<longrightarrow> length vs = Suc (nat (f_max f)) \<and>
          sat_all (assignment_of vs) (query_clauses f) (f_assumed f)) \<and>
       (res = 20 \<longrightarrow> \<not> (\<exists>\<sigma>. sat_all \<sigma> (query_clauses f) (f_assumed f))))"

definition engine_decides :: "engine \<Rightarrow> bool" where
  "engine_decides eng \<longleftrightarrow> (\<forall>cs. fst (eng cs) = 10 \<or> fst (eng cs) = 20)"

section \<open>A reference engine\<close>

fun all_vals :: "nat \<Rightarrow> bool list list" where
  "all_vals 0 = [[]]"
| "all_vals (Suc n) = map (Cons False) (all_vals n) @ map (Cons True) (all_vals n)"

definition ref_engine :: engine where
  "ref_engine cs =
     (let f = formula_of cs in
      case List.find (\<lambda>vs. sat_all (assignment_of vs) (query_clauses f) (f_assumed f))
             (all_vals (Suc (nat (f_max f)))) of
        Some vs \<Rightarrow> (10, vs)
      | None \<Rightarrow> (20, []))"

lemma holds_neg: "l \<noteq> 0 \<Longrightarrow> holds \<sigma> (- l) \<longleftrightarrow> \<not> holds \<sigma> l"
  by (auto simp: holds_def)

lemma set_all_vals: "set (all_vals n) = {vs. length vs = n}"
proof (induction n)
  case (Suc n)
  have "vs \<in> Cons False ` {ws. length ws = n} \<union> Cons True ` {ws. length ws = n} \<longleftrightarrow>
      length vs = Suc n" for vs
    by (cases vs; cases "hd vs") auto
  then show ?case using Suc by auto
qed auto

text \<open>Only the variables up to \<open>f_max\<close> matter.\<close>

definition lits_below :: "int \<Rightarrow> formula \<Rightarrow> bool" where
  "lits_below m f \<longleftrightarrow> 0 \<le> f_max f \<and> (\<forall>c \<in> set (f_clauses f). \<forall>l \<in> set c. \<bar>l\<bar> \<le> m) \<and>
     (\<forall>l \<in> set (f_open f) \<union> set (f_assumed f) \<union> set (f_constraint f). \<bar>l\<bar> \<le> m)"

lemma lits_below_mono: "lits_below m f \<Longrightarrow> m \<le> n \<Longrightarrow> lits_below n f"
  unfolding lits_below_def by (meson order_trans)

lemma formula_step_below:
  assumes "lits_below (f_max f) f"
  shows "lits_below (f_max (formula_step c f)) (formula_step c f)"
proof -
  have "lits_below (f_max (formula_step c f)) f"
    using assms by (rule lits_below_mono) (cases c; simp)
  then show ?thesis by (cases c) (auto simp: lits_below_def)
qed

lemma formula_of_below: "lits_below (f_max (formula_of cs)) (formula_of cs)"
proof -
  have "lits_below (f_max (fold formula_step cs f)) (fold formula_step cs f)"
    if "lits_below (f_max f) f" for f
    using that by (induction cs arbitrary: f) (simp_all add: formula_step_below)
  then show ?thesis
    unfolding formula_of_def by (simp add: lits_below_def empty_formula_def)
qed

lemma holds_agree:
  "\<forall>i \<le> m. \<sigma> i \<longleftrightarrow> \<tau> i \<Longrightarrow> \<bar>l\<bar> \<le> int m \<Longrightarrow> holds \<sigma> l \<longleftrightarrow> holds \<tau> l"
  by (auto simp: holds_def)

lemma sat_all_agree:
  assumes "\<forall>i \<le> m. \<sigma> i \<longleftrightarrow> \<tau> i" "\<forall>c \<in> set cs. \<forall>l \<in> set c. \<bar>l\<bar> \<le> int m" "\<forall>l \<in> set as. \<bar>l\<bar> \<le> int m"
  shows "sat_all \<sigma> cs as \<longleftrightarrow> sat_all \<tau> cs as"
  using holds_agree [OF assms(1)] assms(2,3)
  by (auto simp: sat_all_def sat_clause_def list_all_iff list_ex_iff)

lemma query_below:
  assumes "lits_below m f"
  shows "(\<forall>c \<in> set (query_clauses f). \<forall>l \<in> set c. \<bar>l\<bar> \<le> m) \<and> (\<forall>l \<in> set (f_assumed f). \<bar>l\<bar> \<le> m)"
  using assms by (auto simp: lits_below_def query_clauses_def)

lemma engine_ok_ref: "engine_ok ref_engine"
proof -
  have "(res = 10 \<longrightarrow> length vs = Suc (nat (f_max f)) \<and>
          sat_all (assignment_of vs) (query_clauses f) (f_assumed f)) \<and>
       (res = 20 \<longrightarrow> \<not> (\<exists>\<sigma>. sat_all \<sigma> (query_clauses f) (f_assumed f)))"
    if f: "f = formula_of cs" and run: "ref_engine cs = (res, vs)" for cs f res vs
  proof -
    let ?P = "\<lambda>vs. sat_all (assignment_of vs) (query_clauses f) (f_assumed f)"
    let ?n = "nat (f_max f)"
    have below: "lits_below (int ?n) f"
      using formula_of_below [of cs] f by (auto simp: lits_below_def)
    show ?thesis
    proof (cases "List.find ?P (all_vals (Suc ?n))")
      case None
      have "\<not> sat_all \<sigma> (query_clauses f) (f_assumed f)" for \<sigma>
      proof
        assume sat: "sat_all \<sigma> (query_clauses f) (f_assumed f)"
        let ?vs = "map \<sigma> [0..<Suc ?n]"
        have "\<forall>i \<le> ?n. \<sigma> i \<longleftrightarrow> assignment_of ?vs i"
          by (auto simp: assignment_of_def simp del: upt_Suc)
        then have "?P ?vs" using sat_all_agree query_below [OF below] sat by blast
        moreover have "?vs \<in> set (all_vals (Suc ?n))" unfolding set_all_vals by simp
        ultimately show False using None by (auto simp: find_None_iff)
      qed
      then show ?thesis using None run f by (auto simp: ref_engine_def)
    next
      case (Some ws)
      then have "?P ws" and "ws \<in> set (all_vals (Suc ?n))"
        by (auto simp: find_Some_iff in_set_conv_nth simp del: all_vals.simps)
      then show ?thesis using Some run f unfolding set_all_vals by (auto simp: ref_engine_def)
    qed
  qed
  note this [OF refl]
  then show ?thesis unfolding engine_ok_def Let_def split_beta by (metis prod.collapse)
qed

lemma engine_decides_ref: "engine_decides ref_engine"
  by (simp add: engine_decides_def ref_engine_def Let_def split: option.split)

section \<open>Laws of the interface\<close>

lemma formula_of_Nil [simp]: "formula_of [] = empty_formula"
  by (simp add: formula_of_def)

lemma formula_of_snoc [simp]: "formula_of (cs @ [c]) = formula_step c (formula_of cs)"
  by (simp add: formula_of_def)

abbreviation form :: "Solver \<Rightarrow> formula" where
  "form s \<equiv> formula_of (calls s)"

text \<open>The fields of \<open>External\<close> agree with the history of calls, and nobody uses constraints.\<close>

definition api_inv :: "Solver \<Rightarrow> bool" where
  "api_inv s \<longleftrightarrow> VALID (solver_state s) \<and> max_var (external s) = f_max (form s) \<and>
     \<not> adding_constraint s \<and> constraint (external s) = [] \<and> f_constraint (form s) = [] \<and>
     (solver_state s = SATISFIED \<and> extended (external s) \<longrightarrow>
        vals (external s) = snd (engine s (calls s)))"

text \<open>No clause is under construction.\<close>

definition api_ready :: "Solver \<Rightarrow> bool" where
  "api_ready s \<longleftrightarrow> api_inv s \<and> solver_state s \<noteq> ADDING \<and> f_open (form s) = []"

text \<open>The assumptions of the next query: those of a finished query are already void.\<close>

definition pending :: "Solver \<Rightarrow> int list" where
  "pending s =
     (if solver_state s = SATISFIED \<or> solver_state s = UNSATISFIED then [] else f_assumed (form s))"

lemmas external_defs =
  external_add_def external_assume_def external_reset_assumptions_def external_reset_constraint_def
  external_solve_def external_extend_def reset_extended_def declare_var_def upd_external_def record_call_def
  set_state_def

lemmas api_defs = api_inv_def api_ready_def pending_def VALID_def READY_def REQUIRE_def

lemma new_Solver_ready:
  "api_ready (new_Solver eng) \<and> engine (new_Solver eng) = eng \<and>
   f_clauses (form (new_Solver eng)) = [] \<and> pending (new_Solver eng) = []"
  by (simp add: api_defs new_Solver_def empty_formula_def)

lemma transition_facts:
  assumes "api_inv s"
  shows "api_inv (transition_to_steady_state s) \<and>
    solver_state (transition_to_steady_state s) = STEADY \<and>
    engine (transition_to_steady_state s) = engine s \<and>
    f_clauses (form (transition_to_steady_state s)) = f_clauses (form s) \<and>
    f_open (form (transition_to_steady_state s)) = f_open (form s) \<and>
    f_assumed (form (transition_to_steady_state s)) = pending s"
proof -
  have "formula_of (calls s @ [ResetAssumptions, ResetConstraint])
      = (form s)\<lparr>f_assumed := [], f_constraint := []\<rparr>"
    using formula_of_snoc [of "calls s @ [ResetAssumptions]" ResetConstraint] by simp
  then show ?thesis
    using assms by (auto simp: transition_to_steady_state_def external_defs api_defs)
qed

text \<open>One literal of a clause, and the terminating zero.\<close>

lemma solver_add_lit:
  assumes "api_inv s" "VALID_LIT l"
  obtains s' where "solver_add l s = Ok s'" "api_inv s'" "engine s' = engine s"
    "solver_state s' = ADDING" "f_clauses (form s') = f_clauses (form s)"
    "f_open (form s') = f_open (form s) @ [l]" "pending s' = pending s"
proof -
  define t where "t = transition_to_steady_state s"
  have t: "api_inv t" "solver_state t = STEADY" "engine t = engine s"
    "f_clauses (form t) = f_clauses (form s)" "f_open (form t) = f_open (form s)"
    "f_assumed (form t) = pending s"
    using transition_facts [OF assms(1)] by (simp_all add: t_def)
  define s' where "s' = set_state ADDING ((external_add l t)\<lparr>adding_clause := True\<rparr>)"
  have step: "solver_add l s = Ok s'"
    using assms by (auto simp: solver_add_def s'_def t_def VALID_LIT_def api_defs)
  show ?thesis
    by (rule that [OF step]) (use t assms(2) in \<open>auto simp: s'_def VALID_LIT_def external_defs api_defs\<close>)
qed

lemma solver_add_zero:
  assumes "api_inv s"
  obtains s' where "solver_add 0 s = Ok s'" "api_ready s'" "engine s' = engine s"
    "f_clauses (form s') = f_clauses (form s) @ [f_open (form s)]" "pending s' = pending s"
proof -
  define t where "t = transition_to_steady_state s"
  have t: "api_inv t" "solver_state t = STEADY" "engine t = engine s"
    "f_clauses (form t) = f_clauses (form s)" "f_open (form t) = f_open (form s)"
    "f_assumed (form t) = pending s" "0 \<le> f_max (form t)"
    using transition_facts [OF assms] formula_of_below [of "calls t"]
    by (simp_all add: t_def lits_below_def)
  define s' where "s' = set_state STEADY ((external_add 0 t)\<lparr>adding_clause := False\<rparr>)"
  have step: "solver_add 0 s = Ok s'"
    using assms t(1) by (auto simp: solver_add_def s'_def t_def [symmetric] external_defs api_defs)
  show ?thesis
    by (rule that [OF step]) (use t in \<open>auto simp: s'_def external_defs api_defs\<close>)
qed

lemma solver_add_lits:
  assumes "api_inv s" "\<forall>l \<in> set c. VALID_LIT l"
  obtains s' where "rfold solver_add c s = Ok s'" "api_inv s'" "engine s' = engine s"
    "f_clauses (form s') = f_clauses (form s)"
    "f_open (form s') = f_open (form s) @ c" "pending s' = pending s"
  using assms
proof (induction c arbitrary: s thesis)
  case Nil
  then show ?case by simp
next
  case (Cons l c)
  obtain s1 where 1: "solver_add l s = Ok s1" "api_inv s1" "engine s1 = engine s"
    "f_clauses (form s1) = f_clauses (form s)" "f_open (form s1) = f_open (form s) @ [l]"
    "pending s1 = pending s"
    using solver_add_lit [OF Cons.prems(2)] Cons.prems(3) by (metis list.set_intros(1))
  obtain s2 where "rfold solver_add c s1 = Ok s2" "api_inv s2" "engine s2 = engine s1"
    "f_clauses (form s2) = f_clauses (form s1)"
    "f_open (form s2) = f_open (form s1) @ c" "pending s2 = pending s1"
    using Cons.IH [OF _ 1(2)] Cons.prems(3) by auto
  then show ?case using Cons.prems(1) 1 by simp
qed

lemma solver_assume_ready:
  assumes "api_ready s" "VALID_LIT l"
  obtains s' where "solver_assume l s = Ok s'" "api_ready s'" "engine s' = engine s"
    "f_clauses (form s') = f_clauses (form s)" "pending s' = pending s @ [l]"
proof -
  define t where "t = transition_to_steady_state s"
  have t: "api_inv t" "solver_state t = STEADY" "engine t = engine s"
    "f_clauses (form t) = f_clauses (form s)" "f_open (form t) = f_open (form s)"
    "f_assumed (form t) = pending s"
    using transition_facts [of s] assms(1) by (simp_all add: t_def api_ready_def)
  have step: "solver_assume l s = Ok (external_assume l t)"
    using assms by (auto simp: solver_assume_def t_def api_defs)
  show ?thesis
    by (rule that [OF step]) (use t assms in \<open>auto simp: external_defs api_defs\<close>)
qed

text \<open>
  A query of a sound and uninterrupted engine: the clauses stay, the assumptions are gone,
  and the answer is right for the clauses and the assumptions that were pending.
\<close>

lemma solver_solve_ready:
  assumes "api_ready s" "engine_ok (engine s)" "engine_decides (engine s)"
  obtains res s' where "solver_solve s = Ok (res, s')" "api_ready s'" "engine s' = engine s"
    "f_clauses (form s') = f_clauses (form s)" "pending s' = []"
    "res = 10 \<and> solver_state s' = SATISFIED \<and> \<not> extended (external s') \<and>
       length (snd (engine s' (calls s'))) = Suc (nat (f_max (form s'))) \<and>
       sat_all (assignment_of (snd (engine s' (calls s')))) (f_clauses (form s)) (pending s) \<or>
     res = 20 \<and> \<not> (\<exists>\<sigma>. sat_all \<sigma> (f_clauses (form s)) (pending s))"
proof -
  define t where "t = transition_to_steady_state s"
  have t: "api_inv t" "solver_state t = STEADY" "engine t = engine s"
    "f_clauses (form t) = f_clauses (form s)" "f_open (form t) = []"
    "f_assumed (form t) = pending s"
    using transition_facts [of s] assms(1) by (simp_all add: t_def api_ready_def)
  define u where "u = record_call Solve (reset_extended (set_state SOLVING t))"
  have u: "form u = form t" "engine u = engine s" "max_var (external u) = f_max (form u)"
    "\<not> extended (external u)" "constraint (external u) = []" "\<not> adding_constraint u"
    using t by (simp_all add: u_def external_defs api_defs)
  obtain res vs where rv: "engine s (calls u) = (res, vs)" by fastforce
  have ok: "(res = 10 \<longrightarrow> length vs = Suc (nat (f_max (form u))) \<and>
      sat_all (assignment_of vs) (f_clauses (form s)) (pending s)) \<and>
    (res = 20 \<longrightarrow> \<not> (\<exists>\<sigma>. sat_all \<sigma> (f_clauses (form s)) (pending s)))"
    using assms(2) [unfolded engine_ok_def, rule_format, of "calls u"] rv t u(1)
    by (simp add: query_clauses_def api_defs)
  have res: "res = 10 \<or> res = 20" using assms(3) rv by (metis engine_decides_def fst_conv)
  define s' where "s' = set_state (if res = 10 then SATISFIED else UNSATISFIED) u"
  have s': "form s' = form t" "engine s' = engine s" "calls s' = calls u"
    using u by (simp_all add: s'_def external_defs)
  have step: "solver_solve s = Ok (res, s')"
    using assms(1) res rv u(2)
    by (auto simp: solver_solve_def call_external_solve_and_check_results_def external_solve_def
        Let_def u_def [symmetric] t_def [symmetric] s'_def api_defs)
  have ready: "api_ready s'" "pending s' = []"
    using t u by (simp_all add: s'_def external_defs api_defs)
  show ?thesis
    by (rule that [OF step ready(1) s'(2) _ ready(2)])
      (use t u s' ok res rv in \<open>auto simp: s'_def external_defs\<close>)
qed

lemma ival_pos_iff:
  assumes "0 < i" "length (vals x) = Suc (nat (max_var x))"
  shows "ival x i > 0 \<longleftrightarrow> assignment_of (vals x) (nat i)"
  using assms by (auto simp: ival_def assignment_of_def Let_def)

lemma solver_val_ready:
  assumes "api_ready s" "solver_state s = SATISFIED" "VALID_LIT i" "0 < i"
    "length (snd (engine s (calls s))) = Suc (nat (f_max (form s)))"
  obtains v s' where "solver_val i s = Ok (v, s')" "api_ready s'" "solver_state s' = SATISFIED"
    "engine s' = engine s" "calls s' = calls s"
    "v > 0 \<longleftrightarrow> assignment_of (snd (engine s (calls s))) (nat i)"
proof -
  define s' where "s' = (if \<not> extended (external s) then external_extend s else s)"
  have step: "solver_val i s = Ok (ival (external s') i, s')"
    using assms(1-3) by (auto simp: solver_val_def s'_def Let_def api_defs)
  have vals: "vals (external s') = snd (engine s (calls s))" "max_var (external s') = f_max (form s)"
    using assms(1,2) by (auto simp: s'_def external_defs api_defs)
  show ?thesis
    by (rule that [OF step])
      (use assms vals ival_pos_iff [OF assms(4), of "external s'"] in
        \<open>auto simp: s'_def external_defs api_defs\<close>)
qed

section \<open>The state machine of the interface\<close>

text \<open>The states a client can bring the solver into, calling any functions in any order.\<close>

inductive api_reach :: "engine \<Rightarrow> Solver \<Rightarrow> bool" for eng where
  new: "api_reach eng (new_Solver eng)"
| add: "api_reach eng s \<Longrightarrow> solver_add l s = Ok s' \<Longrightarrow> api_reach eng s'"
| clause: "api_reach eng s \<Longrightarrow> solver_clause c s = Ok s' \<Longrightarrow> api_reach eng s'"
| constrain: "api_reach eng s \<Longrightarrow> solver_constrain l s = Ok s' \<Longrightarrow> api_reach eng s'"
| asm: "api_reach eng s \<Longrightarrow> solver_assume l s = Ok s' \<Longrightarrow> api_reach eng s'"
| reset_assumptions: "api_reach eng s \<Longrightarrow> solver_reset_assumptions s = Ok s' \<Longrightarrow> api_reach eng s'"
| reset_constraint: "api_reach eng s \<Longrightarrow> solver_reset_constraint s = Ok s' \<Longrightarrow> api_reach eng s'"
| solve: "api_reach eng s \<Longrightarrow> solver_solve s = Ok (r, s') \<Longrightarrow> api_reach eng s'"
| val: "api_reach eng s \<Longrightarrow> solver_val l s = Ok (v, s') \<Longrightarrow> api_reach eng s'"

definition reach_inv :: "engine \<Rightarrow> Solver \<Rightarrow> bool" where
  "reach_inv eng s \<longleftrightarrow> engine s = eng \<and> VALID (solver_state s) \<and>
     max_var (external s) = f_max (form s) \<and>
     (solver_state s = ADDING \<longrightarrow> adding_clause s \<or> adding_constraint s) \<and>
     (solver_state s = SATISFIED \<longrightarrow> fst (eng (calls s)) = 10) \<and>
     (solver_state s = UNSATISFIED \<longrightarrow> fst (eng (calls s)) = 20) \<and>
     (solver_state s = SATISFIED \<and> extended (external s) \<longrightarrow> vals (external s) = snd (eng (calls s)))"

lemma f_max_nonneg: "0 \<le> f_max (formula_of cs)"
  using formula_of_below [of cs] by (simp add: lits_below_def)

lemma formula_of_snoc2:
  "formula_of (cs @ [c, d]) = formula_step d (formula_step c (formula_of cs))"
  using formula_of_snoc [of "cs @ [c]" d] by simp

text \<open>The part of the invariant that does not depend on the state.\<close>

definition core_inv :: "engine \<Rightarrow> Solver \<Rightarrow> bool" where
  "core_inv eng s \<longleftrightarrow> engine s = eng \<and> max_var (external s) = f_max (form s)"

lemma core_set [simp]:
  "core_inv eng (set_state st s) = core_inv eng s"
  "core_inv eng (s\<lparr>adding_clause := b\<rparr>) = core_inv eng s"
  "core_inv eng (s\<lparr>adding_constraint := b\<rparr>) = core_inv eng s"
  "core_inv eng (reset_extended s) = core_inv eng s"
  by (simp_all add: core_inv_def external_defs)

lemma core_external [simp]:
  "core_inv eng s \<Longrightarrow> core_inv eng (external_reset_assumptions s)"
  "core_inv eng s \<Longrightarrow> core_inv eng (external_reset_constraint s)"
  "core_inv eng s \<Longrightarrow> core_inv eng (external_add l s)"
  "core_inv eng s \<Longrightarrow> core_inv eng (external_assume l s)"
  "core_inv eng s \<Longrightarrow> core_inv eng (record_call Solve s)"
  using f_max_nonneg [of "calls s"] by (auto simp: core_inv_def external_defs)

lemma core_constrain [simp]:
  assumes "core_inv eng s"
  shows "core_inv eng (external_constrain l s)"
proof -
  have *: "core_inv eng (record_call (Constrain l) (upd_external (\<lambda>x. x\<lparr>constraint := constraint x @ [l]\<rparr>)
      (declare_var l (reset_extended t))))" if "core_inv eng t" for t
    using that by (auto simp: core_inv_def external_defs)
  show ?thesis
    using assms *[of s] *[of "external_reset_constraint s"]
    by (simp add: external_constrain_def Let_def)
qed

lemma core_steady [simp]:
  "core_inv eng s \<Longrightarrow> core_inv eng (transition_to_steady_state s)"
  "solver_state (transition_to_steady_state s) = STEADY"
  by (simp_all add: transition_to_steady_state_def) (simp add: set_state_def)

lemma external_state [simp]:
  "solver_state (external_add l s) = solver_state s" "solver_state (external_assume l s) = solver_state s"
  "solver_state (external_constrain l s) = solver_state s"
  "solver_state (external_reset_assumptions s) = solver_state s"
  "solver_state (external_reset_constraint s) = solver_state s"
  "solver_state (set_state st s) = st" "adding_clause (set_state st s) = adding_clause s"
  "adding_constraint (set_state st s) = adding_constraint s"
  by (simp_all add: external_constrain_def external_defs Let_def)

lemma reach_core: "reach_inv eng s \<Longrightarrow> core_inv eng s"
  by (simp add: reach_inv_def core_inv_def)

lemma reach_open:
  "core_inv eng s \<Longrightarrow> solver_state s = STEADY \<or> solver_state s = ADDING \<and> (adding_clause s \<or> adding_constraint s) \<Longrightarrow>
     reach_inv eng s"
  by (auto simp: reach_inv_def core_inv_def VALID_def READY_def)

lemma reach_add: "reach_inv eng s \<Longrightarrow> solver_add l s = Ok s' \<Longrightarrow> reach_inv eng s'"
  by (rule reach_open) (auto simp: solver_add_def REQUIRE_def Let_def reach_core split: if_splits)

lemma reach_clause:
  assumes "reach_inv eng s" "solver_clause c s = Ok s'"
  shows "reach_inv eng s'"
proof -
  have lits: "reach_inv eng t'"
    if "rfold (\<lambda>lit s. REQUIRE (VALID_LIT lit) (solver_add lit s)) c t = Ok t'" "reach_inv eng t" for t t'
    using that
  proof (induction c arbitrary: t)
    case (Cons l c)
    then obtain u where "solver_add l t = Ok u"
      "rfold (\<lambda>lit s. REQUIRE (VALID_LIT lit) (solver_add lit s)) c u = Ok t'"
      by (auto simp: rbind_eq_Ok_iff REQUIRE_def split: if_splits)
    then show ?case using Cons.IH reach_add Cons.prems(2) by blast
  qed simp
  obtain t where "rfold (\<lambda>lit s. REQUIRE (VALID_LIT lit) (solver_add lit s)) c s = Ok t"
    "solver_add 0 t = Ok s'"
    using assms(2) unfolding solver_clause_def rbind_eq_Ok_iff by blast
  then show ?thesis using lits [OF _ assms(1)] reach_add by blast
qed

lemma reach_constrain: "reach_inv eng s \<Longrightarrow> solver_constrain l s = Ok s' \<Longrightarrow> reach_inv eng s'"
  by (rule reach_open) (auto simp: solver_constrain_def REQUIRE_def Let_def reach_core split: if_splits)

lemma reach_solve:
  assumes "reach_inv eng s" "solver_solve s = Ok (r, s')"
  shows "reach_inv eng s'"
proof -
  define t where "t = record_call Solve (reset_extended (set_state SOLVING (transition_to_steady_state s)))"
  have t: "core_inv eng t" using assms(1) by (simp add: t_def reach_core)
  then have eng: "engine t = eng" by (simp add: core_inv_def)
  have ext: "\<not> extended (external t)" by (simp add: t_def external_defs)
  have rs: "r = fst (eng (calls t))" "s' = (if r = 10 then set_state SATISFIED t
      else if r = 20 then set_state UNSATISFIED t
      else if r = 0 then external_reset_constraint (external_reset_assumptions (set_state STEADY t))
      else set_state STEADY t)"
    using assms(2) eng by (auto simp: solver_solve_def call_external_solve_and_check_results_def
        external_solve_def REQUIRE_def Let_def t_def [symmetric] split: if_splits)
  consider "r = 10" | "r = 20" | "r \<noteq> 10" "r \<noteq> 20" by blast
  then show ?thesis
  proof cases
    case 3
    then show ?thesis using t rs by (intro reach_open) auto
  qed (use rs t ext in \<open>simp_all add: reach_inv_def core_inv_def VALID_def READY_def set_state_def\<close>)
qed

lemma reach_val: "reach_inv eng s \<Longrightarrow> solver_val l s = Ok (v, s') \<Longrightarrow> reach_inv eng s'"
  by (auto simp: solver_val_def reach_inv_def external_extend_def upd_external_def REQUIRE_def Let_def
      split: if_splits)

text \<open>
  Every state a client can reach is one in which calls are allowed (never \<open>SOLVING\<close>,
  \<open>INITIALIZING\<close> or \<open>DELETING\<close>), \<open>ADDING\<close> only while a clause or constraint is being added, and
  \<open>SATISFIED\<close> and \<open>UNSATISFIED\<close> only as long as the last call to the engine answered 10 and 20;
  the model that \<open>val\<close> reads is the one of that answer.
\<close>

theorem api_reachable:
  assumes "api_reach eng s"
  shows "engine s = eng \<and> VALID (solver_state s) \<and> max_var (external s) = f_max (form s) \<and>
     (solver_state s = ADDING \<longrightarrow> adding_clause s \<or> adding_constraint s) \<and>
     (solver_state s = SATISFIED \<longrightarrow> fst (eng (calls s)) = 10) \<and>
     (solver_state s = UNSATISFIED \<longrightarrow> fst (eng (calls s)) = 20) \<and>
     (solver_state s = SATISFIED \<and> extended (external s) \<longrightarrow> vals (external s) = snd (eng (calls s)))"
  unfolding reach_inv_def [symmetric] using assms
proof induction
  case new
  then show ?case
    by (simp add: reach_inv_def new_Solver_def empty_formula_def VALID_def READY_def)
next
  case (asm s l s')
  then show ?case
    by (intro reach_open) (auto simp: solver_assume_def REQUIRE_def reach_core split: if_splits)
next
  case (reset_assumptions s s')
  then show ?case
    by (intro reach_open) (auto simp: solver_reset_assumptions_def REQUIRE_def reach_core split: if_splits)
next
  case (reset_constraint s s')
  then show ?case
    by (intro reach_open) (auto simp: solver_reset_constraint_def REQUIRE_def reach_core split: if_splits)
qed (blast intro: reach_add reach_clause reach_constrain reach_solve reach_val)+

theorem api_reachable_witness:
  "api_reach ref_engine (the_ok (solver_clause [1, 2] (new_Solver ref_engine))) \<and>
   VALID (solver_state (the_ok (solver_clause [1, 2] (new_Solver ref_engine))))"
proof -
  have "\<exists>s. solver_clause [1, 2] (new_Solver ref_engine) = Ok s"
    by (simp add: solver_clause_def solver_add_def VALID_LIT_def INT_MIN_def external_defs api_defs
        new_Solver_def transition_to_steady_state_def)
  then have "api_reach ref_engine (the_ok (solver_clause [1, 2] (new_Solver ref_engine)))"
    by (auto intro: api_reach.intros)
  then show ?thesis using api_reachable by blast
qed

text \<open>
  Contract violations: a literal that is 0 or \<open>INT_MIN\<close> may not be assumed or asked for, a
  value may be asked for only in the state \<open>SATISFIED\<close>, and solving in the middle of a clause is
  refused; in all these cases the program is aborted.
\<close>

theorem api_contracts:
  "(\<not> VALID_LIT l \<longrightarrow> solver_assume l s = Fault ContractViolated \<and>
      solver_val l s = Fault ContractViolated) \<and>
   (l = INT_MIN \<longrightarrow> solver_add l s = Fault ContractViolated) \<and>
   (solver_state s \<noteq> SATISFIED \<longrightarrow> solver_val l s = Fault ContractViolated) \<and>
   (solver_state s = ADDING \<longrightarrow> solver_solve s = Fault ContractViolated)"
  by (auto simp: solver_assume_def solver_val_def solver_add_def solver_solve_def REQUIRE_def
      VALID_LIT_def INT_MIN_def)

theorem api_contracts_witness:
  "solver_val 1 (new_Solver ref_engine) = Fault ContractViolated \<and>
   solver_assume 0 (new_Solver ref_engine) = Fault ContractViolated"
  using api_contracts [of 1 "new_Solver ref_engine"] api_contracts [of 0 "new_Solver ref_engine"]
  by (simp add: new_Solver_def VALID_LIT_def)

end
