(* ===== verification/Sat_Solver.thy ===== *)
theory Sat_Solver
  imports Cadical_Api
begin

text \<open>
  The wrapper class of \<open>include/CadicalSatSolver.h\<close> and \<open>src/CadicalSatSolver.cpp\<close>, and the
  interface \<open>incremental_sat\<close> between it and its clients: a state that stands for a list of
  clauses and a list of pending assumptions, with the laws of adding, assuming and solving.
  The laws are proved for the wrapper over the model of CaDiCaL (the interpretation \<open>cad\<close>), and
  the lemmas on loops over the operations are proved once from the laws.
\<close>

section \<open>CadicalSatSolver\<close>

definition SAT_V :: int where "SAT_V = 10"

definition UNSAT_V :: int where "UNSAT_V = 20"

record CadicalSatSolver =
  solver :: Solver
  decision_vars :: int
  model :: "bool list"
  extension :: "nat list"

text \<open>A negative size makes the construction of the vectors throw.\<close>

definition new_CadicalSatSolver :: "engine \<Rightarrow> int \<Rightarrow> CadicalSatSolver result" where
  "new_CadicalSatSolver eng n_args =
     (if n_args < 0 then Fault Uncaught
      else Ok \<lparr>solver = new_Solver eng, decision_vars = n_args,
               model = replicate (nat n_args) False, extension = replicate (nat n_args) 0\<rparr>)"

definition on_solver :: "(Solver \<Rightarrow> Solver result) \<Rightarrow> CadicalSatSolver \<Rightarrow> CadicalSatSolver result" where
  "on_solver f w = rbind (f (solver w)) (\<lambda>s. Ok (w\<lparr>solver := s\<rparr>))"

definition add_clause :: "int list \<Rightarrow> CadicalSatSolver \<Rightarrow> CadicalSatSolver result" where
  "add_clause clause = on_solver (\<lambda>s. rbind (rfold solver_add clause s) (solver_add 0))"

definition add_clause_1 :: "int \<Rightarrow> CadicalSatSolver \<Rightarrow> CadicalSatSolver result" where
  "add_clause_1 lit = on_solver (\<lambda>s. rbind (solver_add lit s) (solver_add 0))"

definition add_clause_2 :: "int \<Rightarrow> int \<Rightarrow> CadicalSatSolver \<Rightarrow> CadicalSatSolver result" where
  "add_clause_2 lit1 lit2 =
     on_solver (\<lambda>s. rbind (solver_add lit1 s) (\<lambda>s. rbind (solver_add lit2 s) (solver_add 0)))"

definition add_clause_3 :: "int \<Rightarrow> int \<Rightarrow> int \<Rightarrow> CadicalSatSolver \<Rightarrow> CadicalSatSolver result" where
  "add_clause_3 lit1 lit2 lit3 =
     on_solver (\<lambda>s. rbind (solver_add lit1 s) (\<lambda>s. rbind (solver_add lit2 s) (\<lambda>s.
       rbind (solver_add lit3 s) (solver_add 0))))"

definition sat_assume :: "int \<Rightarrow> CadicalSatSolver \<Rightarrow> CadicalSatSolver result" where
  "sat_assume lit = on_solver (solver_assume lit)"

text \<open>
  The loops \<open>for (int32_t i = 1; i <= decision_vars; i++)\<close> that read the model; the counter
  overflows if \<open>decision_vars\<close> is the largest \<open>int\<close>.
\<close>

definition read_model :: "int \<Rightarrow> Solver \<Rightarrow> (bool list \<times> Solver) result" where
  "read_model n s =
     rbind (rfold (\<lambda>i (m, s). rbind (solver_val i s) (\<lambda>(v, s). Ok (m @ [v > 0], s))) [1..n] ([], s))
       (\<lambda>ms. if n = INT_MAX then Fault SignedOverflow else Ok ms)"

definition read_extension :: "int \<Rightarrow> Solver \<Rightarrow> (bool list \<times> nat list \<times> Solver) result" where
  "read_extension n s =
     rbind (rfold (\<lambda>i (m, e, s). rbind (solver_val i s) (\<lambda>(v, s).
              Ok (if v > 0 then (m @ [True], e @ [u32 (i - 1)], s) else (m @ [False], e, s))))
            [1..n] ([], [], s))
       (\<lambda>mes. if n = INT_MAX then Fault SignedOverflow else Ok mes)"

definition sat_solve :: "CadicalSatSolver \<Rightarrow> (int \<times> CadicalSatSolver) result" where
  "sat_solve w =
     rbind (solver_solve (solver w)) (\<lambda>(sat, s).
       if \<not> (sat = SAT_V \<or> sat = UNSAT_V) then Fault (Exit 1)
       else if sat = SAT_V
       then rbind (read_model (decision_vars w) s) (\<lambda>(m, s).
              Ok (sat, w\<lparr>solver := s, model := m\<rparr>))
       else Ok (sat, w\<lparr>solver := s\<rparr>))"

definition solve_extension :: "CadicalSatSolver \<Rightarrow> (int \<times> CadicalSatSolver) result" where
  "solve_extension w =
     rbind (solver_solve (solver w)) (\<lambda>(sat, s).
       if \<not> (sat = SAT_V \<or> sat = UNSAT_V) then Fault (Exit 1)
       else if sat = SAT_V
       then rbind (read_extension (decision_vars w) s) (\<lambda>(m, e, s).
              Ok (sat, w\<lparr>solver := s, model := m, extension := e\<rparr>))
       else Ok (sat, w\<lparr>solver := s\<rparr>))"

definition solve_assuming :: "int list \<Rightarrow> CadicalSatSolver \<Rightarrow> (int \<times> CadicalSatSolver) result" where
  "solve_assuming ass w = rbind (rfold sat_assume ass w) sat_solve"

lemma add_clause_2_eq: "add_clause_2 a b = add_clause [a, b]"
  by (rule ext) (simp add: add_clause_2_def add_clause_def on_solver_def rbind_assoc)

lemma add_clause_1_eq: "add_clause_1 a = add_clause [a]"
  by (rule ext) (simp add: add_clause_1_def add_clause_def on_solver_def rbind_assoc)

lemma add_clause_3_eq: "add_clause_3 a b c = add_clause [a, b, c]"
  by (rule ext) (simp add: add_clause_3_def add_clause_def on_solver_def rbind_assoc)

section \<open>The interface\<close>

locale incremental_sat =
  fixes add :: "int list \<Rightarrow> 's \<Rightarrow> 's result"
    and asm :: "int \<Rightarrow> 's \<Rightarrow> 's result"
    and slv :: "'s \<Rightarrow> (int \<times> 's) result"
    and mdl :: "'s \<Rightarrow> bool list"
    and size_of :: "'s \<Rightarrow> nat"
    and clauses :: "'s \<Rightarrow> int list list"
    and assumed :: "'s \<Rightarrow> int list"
    and invar :: "'s \<Rightarrow> bool"
  assumes add_ok: "invar s \<Longrightarrow> \<forall>l \<in> set c. VALID_LIT l \<Longrightarrow>
      \<exists>s'. add c s = Ok s' \<and> invar s' \<and> clauses s' = clauses s @ [c] \<and> assumed s' = assumed s \<and>
        mdl s' = mdl s \<and> size_of s' = size_of s"
    and asm_ok: "invar s \<Longrightarrow> VALID_LIT l \<Longrightarrow>
      \<exists>s'. asm l s = Ok s' \<and> invar s' \<and> clauses s' = clauses s \<and> assumed s' = assumed s @ [l] \<and>
        mdl s' = mdl s \<and> size_of s' = size_of s"
    and slv_ok: "invar s \<Longrightarrow>
      \<exists>r s'. slv s = Ok (r, s') \<and> invar s' \<and> clauses s' = clauses s \<and> assumed s' = [] \<and>
        size_of s' = size_of s \<and>
        (r = SAT_V \<and> length (mdl s') = size_of s \<and>
           (\<exists>\<sigma>. sat_all \<sigma> (clauses s) (assumed s) \<and> (\<forall>i < size_of s. mdl s' ! i \<longleftrightarrow> \<sigma> (Suc i))) \<or>
         r = UNSAT_V \<and> mdl s' = mdl s \<and> \<not> (\<exists>\<sigma>. sat_all \<sigma> (clauses s) (assumed s)))"
begin

lemma add_all_ok:
  assumes "invar s" "\<forall>c \<in> set cs. \<forall>l \<in> set c. VALID_LIT l"
  shows "\<exists>s'. rfold add cs s = Ok s' \<and> invar s' \<and> clauses s' = clauses s @ cs \<and>
    assumed s' = assumed s \<and> mdl s' = mdl s \<and> size_of s' = size_of s"
  using assms
proof (induction cs arbitrary: s)
  case (Cons c cs)
  then obtain s1 where 1: "add c s = Ok s1" "invar s1" "clauses s1 = clauses s @ [c]"
    "assumed s1 = assumed s" "mdl s1 = mdl s" "size_of s1 = size_of s"
    using add_ok [of s c] by auto
  then show ?case using Cons.IH [of s1] Cons.prems(2) by auto
qed simp

lemma asm_all_ok:
  assumes "invar s" "\<forall>l \<in> set ls. VALID_LIT l"
  shows "\<exists>s'. rfold asm ls s = Ok s' \<and> invar s' \<and> clauses s' = clauses s \<and>
    assumed s' = assumed s @ ls \<and> mdl s' = mdl s \<and> size_of s' = size_of s"
  using assms
proof (induction ls arbitrary: s)
  case (Cons l ls)
  then obtain s1 where 1: "asm l s = Ok s1" "invar s1" "clauses s1 = clauses s"
    "assumed s1 = assumed s @ [l]" "mdl s1 = mdl s" "size_of s1 = size_of s"
    using asm_ok [of s l] by auto
  then show ?case using Cons.IH [of s1] Cons.prems(2) by auto
qed simp

text \<open>Assumptions hold for one query only: a second query answers for the clauses alone.\<close>

lemma requery:
  assumes "invar s" "slv s = Ok (r, s')" "slv s' = Ok (q, s'')"
  shows "q = SAT_V \<longleftrightarrow> (\<exists>\<sigma>. sat_all \<sigma> (clauses s) [])"
proof -
  have "invar s'" "clauses s' = clauses s" "assumed s' = []"
    using slv_ok [OF assms(1)] assms(2) by auto
  then show ?thesis using slv_ok [of s'] assms(3) by (auto simp: SAT_V_def UNSAT_V_def)
qed

end

section \<open>The wrapper implements the interface\<close>

definition sat_invar :: "CadicalSatSolver \<Rightarrow> bool" where
  "sat_invar w \<longleftrightarrow> api_ready (solver w) \<and> engine_ok (engine (solver w)) \<and>
     engine_decides (engine (solver w)) \<and> 0 \<le> decision_vars w \<and> decision_vars w < INT_MAX"

abbreviation sat_clauses :: "CadicalSatSolver \<Rightarrow> int list list" where
  "sat_clauses w \<equiv> f_clauses (form (solver w))"

abbreviation sat_assumed :: "CadicalSatSolver \<Rightarrow> int list" where
  "sat_assumed w \<equiv> pending (solver w)"

abbreviation sat_size :: "CadicalSatSolver \<Rightarrow> nat" where
  "sat_size w \<equiv> nat (decision_vars w)"

lemma add_clause_ok:
  assumes "sat_invar w" "\<forall>l \<in> set c. VALID_LIT l"
  shows "\<exists>w'. add_clause c w = Ok w' \<and> sat_invar w' \<and> sat_clauses w' = sat_clauses w @ [c] \<and>
    sat_assumed w' = sat_assumed w \<and> model w' = model w \<and> sat_size w' = sat_size w"
proof -
  have r: "api_inv (solver w)" "f_open (form (solver w)) = []"
    using assms(1) by (auto simp: sat_invar_def api_ready_def)
  obtain s1 where 1: "rfold solver_add c (solver w) = Ok s1" "api_inv s1"
    "engine s1 = engine (solver w)" "f_clauses (form s1) = sat_clauses w" "f_open (form s1) = c"
    "pending s1 = sat_assumed w"
    using solver_add_lits [OF r(1) assms(2)] r(2) by (metis append_Nil)
  obtain s2 where 2: "solver_add 0 s1 = Ok s2" "api_ready s2" "engine s2 = engine s1"
    "f_clauses (form s2) = f_clauses (form s1) @ [f_open (form s1)]" "pending s2 = pending s1"
    using solver_add_zero [OF 1(2)] by metis
  have "add_clause c w = Ok (w\<lparr>solver := s2\<rparr>)"
    using 1(1) 2(1) by (simp add: add_clause_def on_solver_def)
  then show ?thesis using assms(1) 1 2 by (simp add: sat_invar_def)
qed

lemma sat_assume_ok:
  assumes "sat_invar w" "VALID_LIT l"
  shows "\<exists>w'. sat_assume l w = Ok w' \<and> sat_invar w' \<and> sat_clauses w' = sat_clauses w \<and>
    sat_assumed w' = sat_assumed w @ [l] \<and> model w' = model w \<and> sat_size w' = sat_size w"
proof -
  have "api_ready (solver w)" using assms(1) by (simp add: sat_invar_def)
  then obtain s' where s': "solver_assume l (solver w) = Ok s'" "api_ready s'"
    "engine s' = engine (solver w)" "f_clauses (form s') = sat_clauses w"
    "pending s' = sat_assumed w @ [l]"
    using solver_assume_ready [OF _ assms(2)] by blast
  have "sat_assume l w = Ok (w\<lparr>solver := s'\<rparr>)" using s'(1) by (simp add: sat_assume_def on_solver_def)
  then show ?thesis using assms(1) s' by (simp add: sat_invar_def)
qed

lemma read_model_loop:
  assumes "api_ready s" "solver_state s = SATISFIED" "\<forall>i \<in> set is. VALID_LIT i \<and> 0 < i"
    "length (snd (engine s (calls s))) = Suc (nat (f_max (form s)))"
  shows "\<exists>s'. rfold (\<lambda>i (m, s). rbind (solver_val i s) (\<lambda>(v, s). Ok (m @ [v > 0], s))) is (m, s) =
      Ok (m @ map (\<lambda>i. assignment_of (snd (engine s (calls s))) (nat i)) is, s') \<and>
    api_ready s' \<and> solver_state s' = SATISFIED \<and> engine s' = engine s \<and> calls s' = calls s"
  using assms
proof (induction "is" arbitrary: m s)
  case (Cons i "is")
  obtain v s1 where 1: "solver_val i s = Ok (v, s1)" "api_ready s1" "solver_state s1 = SATISFIED"
    "engine s1 = engine s" "calls s1 = calls s"
    "v > 0 \<longleftrightarrow> assignment_of (snd (engine s (calls s))) (nat i)"
    using solver_val_ready [OF Cons.prems(1,2), of i] Cons.prems(3,4) by auto
  then show ?case using Cons.IH [of s1 "m @ [v > 0]"] Cons.prems(3,4) by simp
qed simp

lemma sat_solve_ok:
  assumes "sat_invar w"
  shows "\<exists>r w'. sat_solve w = Ok (r, w') \<and> sat_invar w' \<and> sat_clauses w' = sat_clauses w \<and>
    sat_assumed w' = [] \<and> sat_size w' = sat_size w \<and>
    (r = SAT_V \<and> length (model w') = sat_size w \<and>
       (\<exists>\<sigma>. sat_all \<sigma> (sat_clauses w) (sat_assumed w) \<and>
          (\<forall>i < sat_size w. model w' ! i \<longleftrightarrow> \<sigma> (Suc i))) \<or>
     r = UNSAT_V \<and> model w' = model w \<and> \<not> (\<exists>\<sigma>. sat_all \<sigma> (sat_clauses w) (sat_assumed w)))"
proof -
  let ?n = "decision_vars w"
  have pre: "api_ready (solver w)" "engine_ok (engine (solver w))"
    "engine_decides (engine (solver w))" "0 \<le> ?n" "?n < INT_MAX"
    using assms by (auto simp: sat_invar_def)
  obtain r s where s: "solver_solve (solver w) = Ok (r, s)" "api_ready s"
    "engine s = engine (solver w)" "f_clauses (form s) = sat_clauses w" "pending s = []"
    and ans: "r = 10 \<and> solver_state s = SATISFIED \<and> \<not> extended (external s) \<and>
       length (snd (engine s (calls s))) = Suc (nat (f_max (form s))) \<and>
       sat_all (assignment_of (snd (engine s (calls s)))) (sat_clauses w) (sat_assumed w) \<or>
     r = 20 \<and> \<not> (\<exists>\<sigma>. sat_all \<sigma> (sat_clauses w) (sat_assumed w))"
    using solver_solve_ready [OF pre(1-3)] by blast
  from ans show ?thesis
  proof (elim disjE conjE)
    assume r: "r = 10" and st: "solver_state s = SATISFIED"
      and len: "length (snd (engine s (calls s))) = Suc (nat (f_max (form s)))"
      and sat: "sat_all (assignment_of (snd (engine s (calls s)))) (sat_clauses w) (sat_assumed w)"
    let ?\<sigma> = "assignment_of (snd (engine s (calls s)))"
    have "\<forall>i \<in> set [1..?n]. VALID_LIT i \<and> 0 < i"
      by (auto simp: VALID_LIT_def INT_MIN_def)
    then obtain s' where s': "read_model ?n s = Ok (map (\<lambda>i. ?\<sigma> (nat i)) [1..?n], s')"
      "api_ready s'" "solver_state s' = SATISFIED" "engine s' = engine s" "calls s' = calls s"
      using read_model_loop [OF s(2) st _ len, of "[1..?n]" "[]"] pre(5)
      by (auto simp: read_model_def)
    define w' where "w' = w\<lparr>solver := s', model := map (\<lambda>i. ?\<sigma> (nat i)) [1..?n]\<rparr>"
    have run: "sat_solve w = Ok (SAT_V, w')"
      using s(1) s'(1) r by (simp add: sat_solve_def SAT_V_def w'_def)
    have inv: "sat_invar w'" "sat_clauses w' = sat_clauses w" "sat_assumed w' = []"
      "sat_size w' = sat_size w" "length (model w') = sat_size w"
      using s s' pre by (auto simp: w'_def sat_invar_def pending_def)
    have "\<forall>i < sat_size w. model w' ! i \<longleftrightarrow> ?\<sigma> (Suc i)"
      by (simp add: w'_def nat_add_distrib)
    then show ?thesis using run inv sat by blast
  next
    assume r: "r = 20" and unsat: "\<not> (\<exists>\<sigma>. sat_all \<sigma> (sat_clauses w) (sat_assumed w))"
    define w' where "w' = w\<lparr>solver := s\<rparr>"
    have run: "sat_solve w = Ok (UNSAT_V, w')"
      using s(1) r by (simp add: sat_solve_def SAT_V_def UNSAT_V_def w'_def)
    have "sat_invar w'" "sat_clauses w' = sat_clauses w" "sat_assumed w' = []"
      "sat_size w' = sat_size w" "model w' = model w"
      using s pre by (auto simp: w'_def sat_invar_def)
    then show ?thesis using run unsat by blast
  qed
qed

interpretation cad: incremental_sat add_clause sat_assume sat_solve model sat_size
  sat_clauses sat_assumed sat_invar
  by unfold_locales (rule add_clause_ok sat_assume_ok sat_solve_ok; assumption)+

lemma new_CadicalSatSolver_ok:
  assumes "engine_ok eng" "engine_decides eng" "0 \<le> n" "n < INT_MAX"
  obtains w where "new_CadicalSatSolver eng n = Ok w" "sat_invar w" "sat_clauses w = []"
    "sat_assumed w = []" "sat_size w = nat n"
  using assms new_Solver_ready [of eng] by (auto simp: new_CadicalSatSolver_def sat_invar_def)

section \<open>Properties\<close>

text \<open>
  C18. The wrapper: a new solver object to which valid clauses are added and which is asked under
  valid assumptions answers \<open>SAT_V\<close> with a model of all of them, of which \<open>model\<close> holds the
  values of the decision variables, or \<open>UNSAT_V\<close> if they have no model.
\<close>

theorem wrapper_query:
  assumes "0 \<le> n" "n < INT_MAX" "engine_ok eng" "engine_decides eng"
    "\<forall>c \<in> set cs. \<forall>l \<in> set c. VALID_LIT l" "\<forall>l \<in> set as. VALID_LIT l"
  shows "\<exists>r w. rbind (new_CadicalSatSolver eng n) (\<lambda>w.
      rbind (rfold add_clause cs w) (solve_assuming as)) = Ok (r, w) \<and>
    (r = SAT_V \<and> length (model w) = nat n \<and>
       (\<exists>\<sigma>. sat_all \<sigma> cs as \<and> (\<forall>i < nat n. model w ! i \<longleftrightarrow> \<sigma> (Suc i))) \<or>
     r = UNSAT_V \<and> \<not> (\<exists>\<sigma>. sat_all \<sigma> cs as))"
proof -
  obtain w0 where w0: "new_CadicalSatSolver eng n = Ok w0" "sat_invar w0" "sat_clauses w0 = []"
    "sat_assumed w0 = []" "sat_size w0 = nat n"
    using new_CadicalSatSolver_ok assms(1-4) by metis
  obtain w1 where w1: "rfold add_clause cs w0 = Ok w1" "sat_invar w1" "sat_clauses w1 = cs"
    "sat_assumed w1 = []" "sat_size w1 = nat n"
    using cad.add_all_ok [OF w0(2) assms(5)] w0(3-5) by auto
  obtain w2 where w2: "rfold sat_assume as w1 = Ok w2" "sat_invar w2" "sat_clauses w2 = cs"
    "sat_assumed w2 = as" "sat_size w2 = nat n"
    using cad.asm_all_ok [OF w1(2) assms(6)] w1(3-5) by auto
  have "\<exists>r w. sat_solve w2 = Ok (r, w) \<and>
    (r = SAT_V \<and> length (model w) = nat n \<and>
       (\<exists>\<sigma>. sat_all \<sigma> cs as \<and> (\<forall>i < nat n. model w ! i \<longleftrightarrow> \<sigma> (Suc i))) \<or>
     r = UNSAT_V \<and> \<not> (\<exists>\<sigma>. sat_all \<sigma> cs as))"
    using sat_solve_ok [OF w2(2)] unfolding w2(3-5) by (elim exE conjE) (intro exI conjI, assumption, blast)
  then show ?thesis using w0(1) w1(1) w2(1) by (simp add: solve_assuming_def)
qed

theorem wrapper_query_witness:
  "\<exists>r w. rbind (new_CadicalSatSolver ref_engine 2) (\<lambda>w.
      rbind (rfold add_clause [[1, 2], [- 1]] w) (solve_assuming [- 2])) = Ok (r, w) \<and>
    (r = SAT_V \<and> length (model w) = nat 2 \<and>
       (\<exists>\<sigma>. sat_all \<sigma> [[1, 2], [- 1]] [- 2] \<and> (\<forall>i < nat 2. model w ! i \<longleftrightarrow> \<sigma> (Suc i))) \<or>
     r = UNSAT_V \<and> \<not> (\<exists>\<sigma>. sat_all \<sigma> [[1, 2], [- 1]] [- 2]))"
  by (rule wrapper_query)
    (simp_all add: engine_ok_ref engine_decides_ref VALID_LIT_def INT_MIN_def INT_MAX_def)

text \<open>
  Assumptions hold for one query only: whatever was assumed before a query, the next one
  answers \<open>SAT_V\<close> exactly if the clauses alone have a model.
\<close>

theorem assumptions_reset:
  assumes "sat_invar w" "sat_solve w = Ok (r, w')" "sat_solve w' = Ok (q, w'')"
  shows "q = SAT_V \<longleftrightarrow> (\<exists>\<sigma>. sat_all \<sigma> (sat_clauses w) [])"
  using assms by (rule cad.requery)

lemma new_sat_invar:
  "0 \<le> n \<Longrightarrow> n < INT_MAX \<Longrightarrow> sat_invar (the_ok (new_CadicalSatSolver ref_engine n)) \<and>
     sat_clauses (the_ok (new_CadicalSatSolver ref_engine n)) = []"
  using new_CadicalSatSolver_ok [of ref_engine n] engine_ok_ref engine_decides_ref
  by (metis the_ok.simps(1))

theorem assumptions_reset_witness:
  "\<exists>r w' q w''. sat_solve (the_ok (new_CadicalSatSolver ref_engine 1)) = Ok (r, w') \<and>
     sat_solve w' = Ok (q, w'') \<and> q = SAT_V"
proof -
  let ?w = "the_ok (new_CadicalSatSolver ref_engine 1)"
  have w: "sat_invar ?w" "sat_clauses ?w = []" using new_sat_invar [of 1] by (simp_all add: INT_MAX_def)
  obtain r w' where 1: "sat_solve ?w = Ok (r, w')" "sat_invar w'" using sat_solve_ok [OF w(1)] by blast
  obtain q w'' where 2: "sat_solve w' = Ok (q, w'')" using sat_solve_ok [OF 1(2)] by blast
  have "q = SAT_V" using assumptions_reset [OF w(1) 1(1) 2] w(2) by (simp add: sat_all_def)
  then show ?thesis using 1(1) 2 by blast
qed

text \<open>The two loops that read the model agree.\<close>

definition true_positions :: "bool list \<Rightarrow> nat list" where
  "true_positions m = filter (\<lambda>i. m ! i) [0..<length m]"

lemma true_positions_snoc:
  "true_positions (m @ [b]) = true_positions m @ (if b then [length m] else [])"
  by (auto simp: true_positions_def nth_append intro: filter_cong)

lemma true_positions_Nil [simp]: "true_positions [] = []"
  by (simp add: true_positions_def)

lemma read_extension_loop:
  assumes "is = [int (length m) + 1..N]" "N < 2 ^ 32"
  shows "rfold (\<lambda>i (m, e, s). rbind (solver_val i s) (\<lambda>(v, s).
            Ok (if v > 0 then (m @ [True], e @ [u32 (i - 1)], s) else (m @ [False], e, s))))
          is (m, true_positions m, s) =
    rbind (rfold (\<lambda>i (m, s). rbind (solver_val i s) (\<lambda>(v, s). Ok (m @ [v > 0], s))) is (m, s))
      (\<lambda>(m', s'). Ok (m', true_positions m', s'))"
  using assms(1)
proof (induction "is" arbitrary: m s)
  case (Cons i "is")
  then have i: "i = int (length m) + 1" "is = [2 + int (length m)..N]" "i \<le> N"
    using upto.simps [of "int (length m) + 1" N] by (auto split: if_splits)
  then have idx: "u32 (i - 1) = length m" using assms(2) by (simp add: u32_id)
  show ?case
  proof (cases "solver_val i s")
    case (Ok vt)
    obtain v t where vt: "vt = (v, t)" by fastforce
    have "is = [int (length (m @ [v > 0])) + 1..N]" using i(2) by simp
    from Cons.IH [OF this, of t] show ?thesis
      using Ok vt idx by (cases "v > 0") (simp_all add: true_positions_snoc)
  qed simp
qed simp

text \<open>
  \<open>solve_extension\<close> does what \<open>solve\<close> does, and after a positive answer \<open>extension\<close> holds in
  ascending order the positions that are true in \<open>model\<close>.
\<close>

theorem solve_extension_eq:
  assumes "decision_vars w \<le> INT_MAX"
  shows "solve_extension w = rbind (sat_solve w) (\<lambda>(r, w').
    Ok (r, if r = SAT_V then w'\<lparr>extension := true_positions (model w')\<rparr> else w'))"
proof -
  have ext: "read_extension (decision_vars w) s = rbind (read_model (decision_vars w) s)
      (\<lambda>(m, s). Ok (m, true_positions m, s))" for s
    using read_extension_loop [of "[1..decision_vars w]" "[]" "decision_vars w" s] assms
    by (auto simp: read_extension_def read_model_def rbind_assoc case_prod_unfold INT_MAX_def
        intro!: rbind_cong)
  show ?thesis
  proof (cases "solver_solve (solver w)")
    case (Ok rs)
    obtain r s where rs: "rs = (r, s)" by fastforce
    show ?thesis
      using Ok rs by (cases "read_model (decision_vars w) s")
        (auto simp: solve_extension_def sat_solve_def ext)
  qed (simp add: solve_extension_def sat_solve_def)
qed

theorem solve_extension_eq_witness:
  "decision_vars (the_ok (new_CadicalSatSolver ref_engine 1)) \<le> INT_MAX \<and>
   solve_extension (the_ok (new_CadicalSatSolver ref_engine 1)) =
     rbind (sat_solve (the_ok (new_CadicalSatSolver ref_engine 1))) (\<lambda>(r, w').
       Ok (r, if r = SAT_V then w'\<lparr>extension := true_positions (model w')\<rparr> else w'))"
proof -
  have "decision_vars (the_ok (new_CadicalSatSolver ref_engine 1)) \<le> INT_MAX"
    by (simp add: new_CadicalSatSolver_def INT_MAX_def)
  then show ?thesis using solve_extension_eq by blast
qed

end
