(* ===== verification/Encoding.thy ===== *)
theory Encoding
  imports Reduct Sat_Solver
begin

text \<open>
  The propositional encoding of \<open>src/Encodings.cpp\<close>. \<open>admissible_nonempty_ok\<close> says which
  clauses the code adds (\<open>enc\<close>); \<open>enc_models\<close> says what they mean: the sets of accepted active
  arguments of their models are the non-empty sets that are admissible in the active
  arguments, where arguments marked in the bit set without being in the array count as
  free counter-attackers.
\<close>

section \<open>Definitions\<close>

definition encode_attacker :: "AF \<Rightarrow> IterableBitSet \<Rightarrow> nat \<Rightarrow> nat \<Rightarrow>
    int list \<times> CadicalSatSolver \<Rightarrow> (int list \<times> CadicalSatSolver) result" where
  "encode_attacker af active_arguments arg att st = (case st of (out_clause, w) \<Rightarrow>
     rbind (vec_at (bs_bitset active_arguments) att) (\<lambda>is_active.
       if is_active
       then rbind (neg_int (accepted_var af arg)) (\<lambda>not_acc.
            rbind (add_clause_2 not_acc (rejected_var af att) w) (\<lambda>w.
              Ok (out_clause @ [accepted_var af att], w)))
       else Ok (out_clause, w)))"

definition encode_argument :: "AF \<Rightarrow> IterableBitSet \<Rightarrow> nat \<Rightarrow>
    int list \<times> CadicalSatSolver \<Rightarrow> (int list \<times> CadicalSatSolver) result" where
  "encode_argument af active_arguments arg st = (case st of (non_empty_clause, w) \<Rightarrow>
     rbind (neg_int (accepted_var af arg)) (\<lambda>not_acc.
     rbind (neg_int (rejected_var af arg)) (\<lambda>not_rej.
     rbind (add_clause_2 not_acc not_rej w) (\<lambda>w.
     rbind (vec_at (attackers af) arg) (\<lambda>ats.
     rbind (rfold (encode_attacker af active_arguments arg) ats ([], w)) (\<lambda>(out_clause, w).
     rbind (add_clause (out_clause @ [not_rej]) w) (\<lambda>w.
       Ok (non_empty_clause @ [accepted_var af arg], w))))))))"

definition admissible_nonempty :: "AF \<Rightarrow> IterableBitSet \<Rightarrow> CadicalSatSolver \<Rightarrow>
    CadicalSatSolver result" where
  "admissible_nonempty af active_arguments w =
     rbind (rfold (encode_argument af active_arguments) (bs_array active_arguments) ([], w))
       (\<lambda>(non_empty_clause, w). add_clause non_empty_clause w)"

section \<open>The clauses\<close>

abbreviation marked_attackers :: "AF \<Rightarrow> IterableBitSet \<Rightarrow> nat \<Rightarrow> nat list" where
  "marked_attackers af act a \<equiv> filter (\<lambda>b. bs_bitset act ! b) (attackers af ! a)"

definition enc_arg :: "AF \<Rightarrow> IterableBitSet \<Rightarrow> nat \<Rightarrow> int list list" where
  "enc_arg af act a =
     [[- accepted_var af a, - rejected_var af a]] @
     map (\<lambda>b. [- accepted_var af a, rejected_var af b]) (marked_attackers af act a) @
     [map (accepted_var af) (marked_attackers af act a) @ [- rejected_var af a]]"

definition enc :: "AF \<Rightarrow> IterableBitSet \<Rightarrow> int list list" where
  "enc af act = concat (map (enc_arg af act) (bs_array act)) @ [map (accepted_var af) (bs_array act)]"

lemma valid_vars:
  assumes "small_af af" "a < args af"
  shows "VALID_LIT (accepted_var af a)" "VALID_LIT (- accepted_var af a)"
    "VALID_LIT (rejected_var af a)" "VALID_LIT (- rejected_var af a)"
    "neg_int (accepted_var af a) = Ok (- accepted_var af a)"
    "neg_int (rejected_var af a) = Ok (- rejected_var af a)"
  using assms
  by (auto simp: accepted_var_eq rejected_var_eq VALID_LIT_def neg_int_def INT_MIN_def INT_MAX_def
      small_af_def)

lemma encode_attackers_ok:
  assumes "small_af af" "length (bs_bitset act) = args af" "a < args af"
    "\<forall>b \<in> set ats. b < args af" "sat_invar w"
  shows "\<exists>w'. rfold (encode_attacker af act a) ats (out, w) =
      Ok (out @ map (accepted_var af) (filter (\<lambda>b. bs_bitset act ! b) ats), w') \<and> sat_invar w' \<and>
    sat_clauses w' = sat_clauses w @
      map (\<lambda>b. [- accepted_var af a, rejected_var af b]) (filter (\<lambda>b. bs_bitset act ! b) ats) \<and>
    sat_assumed w' = sat_assumed w \<and> sat_size w' = sat_size w"
  using assms(4,5)
proof (induction ats arbitrary: out w)
  case (Cons b ats)
  show ?case
  proof (cases "bs_bitset act ! b")
    case True
    have "\<forall>l \<in> set [- accepted_var af a, rejected_var af b]. VALID_LIT l"
      using assms(1,3) Cons.prems by (auto simp: valid_vars)
    then obtain w1 where w1: "add_clause [- accepted_var af a, rejected_var af b] w = Ok w1"
      "sat_invar w1" "sat_clauses w1 = sat_clauses w @ [[- accepted_var af a, rejected_var af b]]"
      "sat_assumed w1 = sat_assumed w" "sat_size w1 = sat_size w"
      using cad.add_ok [OF Cons.prems(2)] by metis
    have "encode_attacker af act a b (out, w) = Ok (out @ [accepted_var af b], w1)"
      using True w1(1) assms Cons.prems
      by (simp add: encode_attacker_def valid_vars add_clause_2_eq)
    then show ?thesis
      using Cons.IH [of w1 "out @ [accepted_var af b]"] Cons.prems True w1 by auto
  next
    case False
    then have "encode_attacker af act a b (out, w) = Ok (out, w)"
      using assms Cons.prems by (simp add: encode_attacker_def)
    then show ?thesis using Cons.IH [of w out] Cons.prems False by auto
  qed
qed simp

lemma encode_argument_ok:
  assumes "wf_af af" "small_af af" "wf_active af act" "a < args af" "sat_invar w"
  shows "\<exists>w'. encode_argument af act a (ne, w) = Ok (ne @ [accepted_var af a], w') \<and> sat_invar w' \<and>
    sat_clauses w' = sat_clauses w @ enc_arg af act a \<and>
    sat_assumed w' = sat_assumed w \<and> sat_size w' = sat_size w"
proof -
  note v = valid_vars [OF assms(2)]
  let ?ats = "marked_attackers af act a"
  have bound: "\<forall>b \<in> set (attackers af ! a). b < args af"
    using wf_af_attacker_bound [OF assms(1,4)] by blast
  obtain w1 where w1: "add_clause [- accepted_var af a, - rejected_var af a] w = Ok w1"
    "sat_invar w1" "sat_clauses w1 = sat_clauses w @ [[- accepted_var af a, - rejected_var af a]]"
    "sat_assumed w1 = sat_assumed w" "sat_size w1 = sat_size w"
    using cad.add_ok [OF assms(5), of "[- accepted_var af a, - rejected_var af a]"]
      v(2,4) [OF assms(4)] by auto
  obtain w2 where w2: "rfold (encode_attacker af act a) (attackers af ! a) ([], w1) =
      Ok (map (accepted_var af) ?ats, w2)" "sat_invar w2"
    "sat_clauses w2 = sat_clauses w1 @ map (\<lambda>b. [- accepted_var af a, rejected_var af b]) ?ats"
    "sat_assumed w2 = sat_assumed w1" "sat_size w2 = sat_size w1"
    using encode_attackers_ok [OF assms(2) wf_active_length [OF assms(3)] assms(4) bound w1(2)]
    by (metis append_Nil)
  have "\<forall>l \<in> set (map (accepted_var af) ?ats @ [- rejected_var af a]). VALID_LIT l"
    using v bound assms(4) by auto
  then obtain w3 where w3: "add_clause (map (accepted_var af) ?ats @ [- rejected_var af a]) w2 = Ok w3"
    "sat_invar w3"
    "sat_clauses w3 = sat_clauses w2 @ [map (accepted_var af) ?ats @ [- rejected_var af a]]"
    "sat_assumed w3 = sat_assumed w2" "sat_size w3 = sat_size w2"
    using cad.add_ok [OF w2(2)] by metis
  have "encode_argument af act a (ne, w) = Ok (ne @ [accepted_var af a], w3)"
    using w1(1) w2(1) w3(1) v(5,6) [OF assms(4)] assms(4)
    by (simp add: encode_argument_def add_clause_2_eq wf_af_lengths [OF assms(1)])
  then show ?thesis using w1 w2 w3 by (simp add: enc_arg_def)
qed

lemma admissible_nonempty_ok:
  assumes "wf_af af" "small_af af" "wf_active af act" "sat_invar w"
  obtains w' where "admissible_nonempty af act w = Ok w'" "sat_invar w'"
    "sat_clauses w' = sat_clauses w @ enc af act" "sat_assumed w' = sat_assumed w"
    "sat_size w' = sat_size w"
proof -
  have loop: "\<exists>w'. rfold (encode_argument af act) xs (ne, w) = Ok (ne @ map (accepted_var af) xs, w') \<and>
      sat_invar w' \<and> sat_clauses w' = sat_clauses w @ concat (map (enc_arg af act) xs) \<and>
      sat_assumed w' = sat_assumed w \<and> sat_size w' = sat_size w"
    if "\<forall>a \<in> set xs. a < args af" "sat_invar w" for xs ne w
    using that
  proof (induction xs arbitrary: ne w)
    case (Cons a xs)
    then obtain w1 where w1: "encode_argument af act a (ne, w) = Ok (ne @ [accepted_var af a], w1)"
      "sat_invar w1" "sat_clauses w1 = sat_clauses w @ enc_arg af act a"
      "sat_assumed w1 = sat_assumed w" "sat_size w1 = sat_size w"
      using encode_argument_ok [OF assms(1-3), of a w ne] by auto
    then show ?case using Cons.IH [of w1 "ne @ [accepted_var af a]"] Cons.prems by auto
  qed simp
  have bound: "\<forall>a \<in> set (bs_array act). a < args af" using wf_active_bound [OF assms(3)] by blast
  obtain w1 where w1: "rfold (encode_argument af act) (bs_array act) ([], w) =
      Ok (map (accepted_var af) (bs_array act), w1)" "sat_invar w1"
    "sat_clauses w1 = sat_clauses w @ concat (map (enc_arg af act) (bs_array act))"
    "sat_assumed w1 = sat_assumed w" "sat_size w1 = sat_size w"
    using loop [OF bound assms(4), of "[]"] by auto
  obtain w2 where w2: "add_clause (map (accepted_var af) (bs_array act)) w1 = Ok w2" "sat_invar w2"
    "sat_clauses w2 = sat_clauses w1 @ [map (accepted_var af) (bs_array act)]"
    "sat_assumed w2 = sat_assumed w1" "sat_size w2 = sat_size w1"
    using cad.add_ok [OF w1(2), of "map (accepted_var af) (bs_array act)"] valid_vars(1) [OF assms(2)]
      bound by auto
  have run: "admissible_nonempty af act w = Ok w2"
    using w1(1) w2(1) by (simp add: admissible_nonempty_def)
  show ?thesis by (rule that [OF run w2(2)]) (use w1 w2 in \<open>simp_all add: enc_def\<close>)
qed

section \<open>The models\<close>

definition accepted_in :: "nat set \<Rightarrow> assignment \<Rightarrow> nat set" where
  "accepted_in A \<sigma> = {a \<in> A. \<sigma> (Suc a)}"

lemma holds_accepted:
  assumes "small_af af" "a < args af"
  shows "holds \<sigma> (accepted_var af a) \<longleftrightarrow> \<sigma> (Suc a)" "holds \<sigma> (- accepted_var af a) \<longleftrightarrow> \<not> \<sigma> (Suc a)"
  using assms by (auto simp: accepted_var_eq holds_def nat_add_distrib)

lemma holds_rejected:
  assumes "small_af af" "a < args af"
  shows "holds \<sigma> (rejected_var af a) \<longleftrightarrow> \<sigma> (Suc (args af + a))"
    "holds \<sigma> (- rejected_var af a) \<longleftrightarrow> \<not> \<sigma> (Suc (args af + a))"
proof -
  have "nat (int (args af) + int a + 1) = Suc (args af + a)" by simp
  then show pos: "holds \<sigma> (rejected_var af a) \<longleftrightarrow> \<sigma> (Suc (args af + a))"
    using assms by (simp add: rejected_var_eq holds_def)
  show "holds \<sigma> (- rejected_var af a) \<longleftrightarrow> \<not> \<sigma> (Suc (args af + a))"
    unfolding pos [symmetric] by (rule holds_neg) (use assms in \<open>simp add: rejected_var_eq\<close>)
qed

text \<open>The meaning of the clauses, argument by argument.\<close>

lemma sat_enc_iff:
  assumes "wf_af af" "small_af af" "wf_active af act"
  defines "A \<equiv> set (bs_array act)" and "B \<equiv> set (bs_array act) \<union> phantoms af act"
  shows "sat_all \<sigma> (enc af act) [] \<longleftrightarrow>
    (\<exists>a \<in> A. \<sigma> (Suc a)) \<and>
    (\<forall>a \<in> A. \<not> (\<sigma> (Suc a) \<and> \<sigma> (Suc (args af + a))) \<and>
       (\<forall>b \<in> B. attacks af b a \<longrightarrow> \<sigma> (Suc a) \<longrightarrow> \<sigma> (Suc (args af + b))) \<and>
       (\<sigma> (Suc (args af + a)) \<longrightarrow> (\<exists>b \<in> B. attacks af b a \<and> \<sigma> (Suc b))))"
proof -
  have A: "a < args af" if "a \<in> A" for a using that wf_active_bound [OF assms(3)] A_def by blast
  have ats: "set (marked_attackers af act a) = {b \<in> B. attacks af b a}" if "a \<in> A" for a
    using attackers_iff [OF assms(1) A [OF that]] marked_iff [OF assms(3)] attacks_bound [OF assms(1)]
    by (auto simp: B_def)
  have B: "b < args af" if "b \<in> B" "attacks af b a" for a b
    using that attacks_bound [OF assms(1)] by blast
  have arg: "list_all (sat_clause \<sigma>) (enc_arg af act a) \<longleftrightarrow>
      \<not> (\<sigma> (Suc a) \<and> \<sigma> (Suc (args af + a))) \<and>
       (\<forall>b \<in> B. attacks af b a \<longrightarrow> \<sigma> (Suc a) \<longrightarrow> \<sigma> (Suc (args af + b))) \<and>
       (\<sigma> (Suc (args af + a)) \<longrightarrow> (\<exists>b \<in> B. attacks af b a \<and> \<sigma> (Suc b)))" if "a \<in> A" for a
  proof -
    have "list_all (\<lambda>b. sat_clause \<sigma> [- accepted_var af a, rejected_var af b]) (marked_attackers af act a)
        \<longleftrightarrow> (\<forall>b \<in> B. attacks af b a \<longrightarrow> \<sigma> (Suc a) \<longrightarrow> \<sigma> (Suc (args af + b)))"
      unfolding list_all_iff ats [OF that] using B
      by (auto simp: sat_clause_def holds_accepted holds_rejected assms(2) A [OF that])
    moreover have "sat_clause \<sigma> (map (accepted_var af) (marked_attackers af act a) @ [- rejected_var af a])
        \<longleftrightarrow> (\<sigma> (Suc (args af + a)) \<longrightarrow> (\<exists>b \<in> B. attacks af b a \<and> \<sigma> (Suc b)))"
      using B ats [OF that]
      by (auto simp: sat_clause_def list_ex_iff holds_accepted holds_rejected assms(2) A [OF that])
    moreover have "sat_clause \<sigma> [- accepted_var af a, - rejected_var af a] \<longleftrightarrow>
        \<not> (\<sigma> (Suc a) \<and> \<sigma> (Suc (args af + a)))"
      by (auto simp: sat_clause_def holds_accepted holds_rejected assms(2) A [OF that])
    ultimately show ?thesis by (simp add: enc_arg_def list.pred_map comp_def)
  qed
  have "sat_clause \<sigma> (map (accepted_var af) (bs_array act)) \<longleftrightarrow> (\<exists>a \<in> A. \<sigma> (Suc a))"
    using A by (auto simp: sat_clause_def list_ex_iff holds_accepted assms(2) A_def)
  moreover have "list_all (sat_clause \<sigma>) (concat (map (enc_arg af act) (bs_array act))) \<longleftrightarrow>
      (\<forall>a \<in> A. list_all (sat_clause \<sigma>) (enc_arg af act a))"
    by (auto simp: list_all_iff A_def)
  ultimately show ?thesis using arg by (auto simp: sat_all_def enc_def)
qed

lemma enc_sound:
  assumes "wf_af af" "small_af af" "wf_active af act" "sat_all \<sigma> (enc af act) []"
  defines "A \<equiv> set (bs_array act)"
  shows "accepted_in A \<sigma> \<noteq> {} \<and> adm_in (attacks af) A (phantoms af act) (accepted_in A \<sigma>)"
proof -
  let ?B = "A \<union> phantoms af act"
  have sat: "\<exists>a \<in> A. \<sigma> (Suc a)" "\<And>a. a \<in> A \<Longrightarrow> \<not> (\<sigma> (Suc a) \<and> \<sigma> (Suc (args af + a)))"
    "\<And>a b. a \<in> A \<Longrightarrow> b \<in> ?B \<Longrightarrow> attacks af b a \<Longrightarrow> \<sigma> (Suc a) \<Longrightarrow> \<sigma> (Suc (args af + b))"
    "\<And>a. a \<in> A \<Longrightarrow> \<sigma> (Suc (args af + a)) \<Longrightarrow> \<exists>b \<in> ?B. attacks af b a \<and> \<sigma> (Suc b)"
    using assms(4) sat_enc_iff [OF assms(1-3), of \<sigma>] by (simp_all add: A_def)
  have "accepted_in A \<sigma> \<noteq> {}" using sat(1) by (auto simp: accepted_in_def)
  moreover have "conflict_free (attacks af) (accepted_in A \<sigma>)"
    using sat(2,3) by (fastforce simp: conflict_free_def accepted_in_def)
  moreover have "\<exists>c \<in> accepted_in A \<sigma> \<union> phantoms af act. attacks af c b"
    if "a \<in> accepted_in A \<sigma>" "b \<in> A" "attacks af b a" for a b
    using sat(3) [of a b] sat(4) [of b] that by (auto simp: accepted_in_def)
  ultimately show ?thesis by (auto simp: adm_in_def accepted_in_def)
qed

lemma enc_complete:
  assumes "wf_af af" "small_af af" "wf_active af act"
  defines "A \<equiv> set (bs_array act)"
  assumes "E \<noteq> {}" "adm_in (attacks af) A (phantoms af act) E"
  shows "\<exists>\<sigma>. sat_all \<sigma> (enc af act) [] \<and> accepted_in A \<sigma> = E"
proof -
  let ?n = "args af" and ?P = "phantoms af act"
  define \<sigma> where "\<sigma> i = (if i \<le> ?n then i - 1 \<in> E \<union> ?P
    else i - Suc ?n \<in> ?P \<or> (i - Suc ?n \<notin> E \<and> (\<exists>c \<in> E \<union> ?P. attacks af c (i - Suc ?n))))" for i
  have acc: "\<sigma> (Suc a) \<longleftrightarrow> a \<in> E \<union> ?P" if "a < ?n" for a using that by (simp add: \<sigma>_def)
  have rej: "\<sigma> (Suc (?n + a)) \<longleftrightarrow> a \<in> ?P \<or> (a \<notin> E \<and> (\<exists>c \<in> E \<union> ?P. attacks af c a))" for a
    by (simp add: \<sigma>_def)
  have EA: "E \<subseteq> A" using assms(6) by (rule adm_subset)
  have A: "a < ?n" "a \<notin> ?P" if "a \<in> A" for a
    using that wf_active_bound [OF assms(3)] by (auto simp: A_def phantoms_def)
  have P: "a < ?n" if "a \<in> ?P" for a using that by (simp add: phantoms_def)
  have "\<not> (\<sigma> (Suc a) \<and> \<sigma> (Suc (?n + a)))" if "a \<in> A" for a
    using acc [of a] rej [of a] A [OF that] by blast
  moreover have "\<sigma> (Suc (?n + b))" if "a \<in> A" "b \<in> A \<union> ?P" "attacks af b a" "\<sigma> (Suc a)" for a b
  proof -
    have "a \<in> E" using that acc A by blast
    then show ?thesis
      using that assms(6) unfolding rej by (auto simp: adm_in_def conflict_free_def)
  qed
  moreover have "\<exists>b \<in> A \<union> ?P. attacks af b a \<and> \<sigma> (Suc b)" if "a \<in> A" "\<sigma> (Suc (?n + a))" for a
    using that A [OF that(1)] EA A P acc unfolding rej by blast
  moreover have "\<exists>a \<in> A. \<sigma> (Suc a)" using assms(5) EA acc A by blast
  ultimately have "sat_all \<sigma> (enc af act) []"
    unfolding sat_enc_iff [OF assms(1-3)] A_def [symmetric] by blast
  moreover have "accepted_in A \<sigma> = E" using acc A EA by (auto simp: accepted_in_def)
  ultimately show ?thesis by blast
qed

section \<open>Correctness of the encoding\<close>

text \<open>
  C10. The encoding: on any well-formed set of active arguments \<open>admissible_nonempty\<close> adds its
  clauses without an error, and the sets of accepted arguments of their models are exactly the
  non-empty admissible sets of the active arguments, where phantoms may serve as defenders. If
  the bit set agrees with the array there are no phantoms, and these are the usual ones.
\<close>

theorem encoding_correct:
  assumes "wf_af af" "small_af af" "wf_active af act" "sat_invar w"
  shows "\<exists>w' cs. admissible_nonempty af act w = Ok w' \<and> sat_invar w' \<and>
    sat_clauses w' = sat_clauses w @ cs \<and>
    {accepted_in (set (bs_array act)) \<sigma> |\<sigma>. sat_all \<sigma> cs []} =
      {E. E \<noteq> {} \<and> adm_in (attacks af) (set (bs_array act)) (phantoms af act) E} \<and>
    (consistent af act \<longrightarrow> phantoms af act = {})"
proof -
  obtain w' where w': "admissible_nonempty af act w = Ok w'" "sat_invar w'"
    "sat_clauses w' = sat_clauses w @ enc af act"
    using admissible_nonempty_ok [OF assms] by metis
  have "{accepted_in (set (bs_array act)) \<sigma> |\<sigma>. sat_all \<sigma> (enc af act) []} =
      {E. E \<noteq> {} \<and> adm_in (attacks af) (set (bs_array act)) (phantoms af act) E}"
    using enc_sound [OF assms(1-3)] enc_complete [OF assms(1-3)] by auto
  then show ?thesis using w' by (intro exI [of _ w'] exI [of _ "enc af act"]) (simp add: consistent_iff)
qed

theorem encoding_correct_witness:
  "wf_af loop_af \<and> small_af loop_af \<and> wf_active loop_af (all_active loop_af) \<and>
   (\<exists>w' cs. admissible_nonempty loop_af (all_active loop_af)
       (the_ok (new_CadicalSatSolver ref_engine 3)) = Ok w' \<and> sat_clauses w' = cs \<and>
     {accepted_in (set (bs_array (all_active loop_af))) \<sigma> |\<sigma>. sat_all \<sigma> cs []} =
      {E. E \<noteq> {} \<and> adm (attacks loop_af) (set (bs_array (all_active loop_af))) E})"
proof -
  have act: "consistent loop_af (all_active loop_af)" by (rule consistent_all_active)
  then have wf: "wf_active loop_af (all_active loop_af)" "phantoms loop_af (all_active loop_af) = {}"
    by (simp_all add: consistent_iff)
  have w: "sat_invar (the_ok (new_CadicalSatSolver ref_engine 3))"
    "sat_clauses (the_ok (new_CadicalSatSolver ref_engine 3)) = []"
    using new_sat_invar [of 3] by (simp_all add: INT_MAX_def)
  show ?thesis
    using encoding_correct [OF loop_wf wf(1) w(1)] loop_wf wf unfolding w(2) by auto
qed

end
