(* ===== verification/Initial_Sets.thy ===== *)
theory Initial_Sets
  imports Encoding
begin

text \<open>
  The enumeration of initial sets, \<open>src/EE-IT.cpp\<close>: an outer loop that asks for one more
  model and an inner loop that shrinks it to a minimal one by assuming that no further
  argument is accepted and adding a clause that excludes the current set. Both loops are
  \<open>while (true)\<close> loops left by \<open>break\<close>; the model keeps the flag \<open>running\<close> for that.

  \<open>enumerate_initial_ok\<close>: with a sound and uninterrupted engine the loops end and the result
  lists every initial set of the active arguments once.
\<close>

section \<open>Definitions\<close>

definition minimise_arg :: "AF \<Rightarrow> nat \<Rightarrow> int list \<times> CadicalSatSolver \<Rightarrow>
    (int list \<times> CadicalSatSolver) result" where
  "minimise_arg af arg st = (case st of (minimization_clause, w) \<Rightarrow>
     rbind (vec_at (model w) arg) (\<lambda>accepted.
     rbind (neg_int (accepted_var af arg)) (\<lambda>not_acc.
       if accepted then Ok (minimization_clause @ [not_acc], w)
       else rbind (sat_assume not_acc w) (\<lambda>w. Ok (minimization_clause, w)))))"

definition minimise_step :: "AF \<Rightarrow> IterableBitSet \<Rightarrow> bool \<times> bool \<times> CadicalSatSolver \<Rightarrow>
    (bool \<times> bool \<times> CadicalSatSolver) result" where
  "minimise_step af active_arguments st = (case st of (running, found_extension, w) \<Rightarrow>
     rbind (sat_solve w) (\<lambda>(sat, w).
       if sat = UNSAT_V then Ok (False, found_extension, w)
       else rbind (rfold (minimise_arg af) (bs_array active_arguments) ([], w))
              (\<lambda>(minimization_clause, w).
            rbind (add_clause minimization_clause w) (\<lambda>w. Ok (True, True, w)))))"

definition minimise :: "AF \<Rightarrow> IterableBitSet \<Rightarrow> CadicalSatSolver \<Rightarrow>
    (bool \<times> bool \<times> CadicalSatSolver) result" where
  "minimise af active_arguments w =
     rwhile (\<lambda>(running, _). running) (minimise_step af active_arguments) (True, False, w)"

definition collect_extension :: "IterableBitSet \<Rightarrow> CadicalSatSolver \<Rightarrow> nat list result" where
  "collect_extension active_arguments w =
     rfold (\<lambda>arg ext. rbind (vec_at (model w) arg) (\<lambda>accepted.
              Ok (if accepted then ext @ [arg] else ext))) (bs_array active_arguments) []"

definition enumerate_step :: "AF \<Rightarrow> IterableBitSet \<Rightarrow> bool \<times> nat list list \<times> CadicalSatSolver \<Rightarrow>
    (bool \<times> nat list list \<times> CadicalSatSolver) result" where
  "enumerate_step af active_arguments st = (case st of (running, res, w) \<Rightarrow>
     rbind (minimise af active_arguments w) (\<lambda>(_, found_extension, w).
       if found_extension
       then rbind (collect_extension active_arguments w) (\<lambda>ext. Ok (True, res @ [ext], w))
       else Ok (False, res, w)))"

definition enumerate_initial :: "engine \<Rightarrow> AF \<Rightarrow> IterableBitSet \<Rightarrow> nat list list result" where
  "enumerate_initial eng af active_arguments =
     (if bs_array active_arguments = [] then Ok []
      else rbind (new_CadicalSatSolver eng (i32 (int (args af)))) (\<lambda>w.
           rbind (admissible_nonempty af active_arguments w) (\<lambda>w.
           rbind (rwhile (\<lambda>(running, _). running) (enumerate_step af active_arguments) (True, [], w))
             (\<lambda>(_, res, _). Ok res))))"

section \<open>Blocking clauses\<close>

definition block :: "AF \<Rightarrow> IterableBitSet \<Rightarrow> nat set \<Rightarrow> int list" where
  "block af act E = map (\<lambda>a. - accepted_var af a) (filter (\<lambda>a. a \<in> E) (bs_array act))"

definition exclude :: "AF \<Rightarrow> IterableBitSet \<Rightarrow> nat set \<Rightarrow> int list" where
  "exclude af act E = map (\<lambda>a. - accepted_var af a) (filter (\<lambda>a. a \<notin> E) (bs_array act))"

abbreviation candidate :: "AF \<Rightarrow> IterableBitSet \<Rightarrow> nat set \<Rightarrow> bool" where
  "candidate af act E \<equiv>
     E \<noteq> {} \<and> adm_in (attacks af) (set (bs_array act)) (phantoms af act) E"

abbreviation avoids :: "nat set list \<Rightarrow> nat set \<Rightarrow> bool" where
  "avoids Bs E \<equiv> (\<forall>B \<in> set Bs. \<not> B \<subseteq> E)"

lemma sat_block_iff:
  assumes "small_af af" "wf_active af act" "E \<subseteq> set (bs_array act)"
  shows "sat_clause \<sigma> (block af act E) \<longleftrightarrow> \<not> E \<subseteq> accepted_in (set (bs_array act)) \<sigma>"
  using assms(3) wf_active_bound [OF assms(2)]
  by (auto simp: sat_clause_def list_ex_iff block_def accepted_in_def holds_accepted [OF assms(1)])

lemma holds_exclude_iff:
  assumes "small_af af" "wf_active af act"
  shows "list_all (holds \<sigma>) (exclude af act E) \<longleftrightarrow> accepted_in (set (bs_array act)) \<sigma> \<subseteq> E"
  using wf_active_bound [OF assms(2)]
  by (auto simp: list_all_iff exclude_def accepted_in_def holds_accepted [OF assms(1)])

text \<open>A query for the encoding, some blocked sets and possibly an upper bound.\<close>

lemma query_iff:
  assumes wf: "wf_af af" "small_af af" "wf_active af act"
    and "\<forall>B \<in> set Bs. B \<subseteq> set (bs_array act)"
    and "as = [] \<and> U = set (bs_array act) \<or> as = exclude af act U"
  shows "sat_all \<sigma> (enc af act @ map (block af act) Bs) as \<longleftrightarrow>
    sat_all \<sigma> (enc af act) [] \<and> avoids Bs (accepted_in (set (bs_array act)) \<sigma>) \<and>
    accepted_in (set (bs_array act)) \<sigma> \<subseteq> U"
proof -
  have "list_all (sat_clause \<sigma>) (map (block af act) Bs) \<longleftrightarrow>
      avoids Bs (accepted_in (set (bs_array act)) \<sigma>)"
    using sat_block_iff [OF wf(2,3)] assms(4) by (auto simp: list_all_iff)
  moreover have "list_all (holds \<sigma>) as \<longleftrightarrow> accepted_in (set (bs_array act)) \<sigma> \<subseteq> U"
    using assms(5) holds_exclude_iff [OF wf(2,3)] by (auto simp: accepted_in_def)
  ultimately show ?thesis by (simp add: sat_all_def)
qed

lemma query_models:
  assumes "wf_af af" "small_af af" "wf_active af act"
    and "\<forall>B \<in> set Bs. B \<subseteq> set (bs_array act)"
    and "as = [] \<and> U = set (bs_array act) \<or> as = exclude af act U"
  shows "(\<exists>\<sigma>. sat_all \<sigma> (enc af act @ map (block af act) Bs) as) \<longleftrightarrow>
    (\<exists>E. candidate af act E \<and> avoids Bs E \<and> E \<subseteq> U)"
  unfolding query_iff [OF assms]
  using enc_sound [OF assms(1-3)] enc_complete [OF assms(1-3)] by metis

section \<open>The inner loop\<close>

definition model_set :: "IterableBitSet \<Rightarrow> CadicalSatSolver \<Rightarrow> nat set" where
  "model_set act w = {a \<in> set (bs_array act). model w ! a}"

lemma minimise_args_ok:
  assumes "small_af af" "\<forall>a \<in> set xs. a < args af" "sat_invar w" "length (model w) = args af"
  shows "\<exists>w'. rfold (minimise_arg af) xs (mc, w) =
      Ok (mc @ map (\<lambda>a. - accepted_var af a) (filter (\<lambda>a. model w ! a) xs), w') \<and> sat_invar w' \<and>
    sat_clauses w' = sat_clauses w \<and>
    sat_assumed w' = sat_assumed w @ map (\<lambda>a. - accepted_var af a) (filter (\<lambda>a. \<not> model w ! a) xs) \<and>
    model w' = model w \<and> sat_size w' = sat_size w"
  using assms(2-4)
proof (induction xs arbitrary: mc w)
  case (Cons a xs)
  note v = valid_vars [OF assms(1), of a]
  show ?case
  proof (cases "model w ! a")
    case True
    then have "minimise_arg af a (mc, w) = Ok (mc @ [- accepted_var af a], w)"
      using Cons.prems v by (simp add: minimise_arg_def)
    then show ?thesis using Cons.IH [of w "mc @ [- accepted_var af a]"] Cons.prems True by auto
  next
    case False
    obtain w1 where w1: "sat_assume (- accepted_var af a) w = Ok w1" "sat_invar w1"
      "sat_clauses w1 = sat_clauses w" "sat_assumed w1 = sat_assumed w @ [- accepted_var af a]"
      "model w1 = model w" "sat_size w1 = sat_size w"
      using cad.asm_ok [OF Cons.prems(2), of "- accepted_var af a"] v Cons.prems(1) by auto
    then have "minimise_arg af a (mc, w) = Ok (mc, w1)"
      using Cons.prems v False by (simp add: minimise_arg_def)
    then show ?thesis using Cons.IH [of w1 mc] Cons.prems w1 False by auto
  qed
qed simp

text \<open>
  The invariant of the inner loop, started with the blocked sets \<open>Bs\<close>: the sets found so far
  (\<open>chain\<close>) contain the current one, which is a candidate that avoids \<open>Bs\<close>.
\<close>

definition inner_inv :: "AF \<Rightarrow> IterableBitSet \<Rightarrow> nat set list \<Rightarrow> nat set list \<Rightarrow>
    bool \<times> bool \<times> CadicalSatSolver \<Rightarrow> bool" where
  "inner_inv af act Bs chain st = (case st of (running, found, w) \<Rightarrow>
     sat_invar w \<and> sat_size w = args af \<and>
     sat_clauses w = enc af act @ map (block af act) (Bs @ chain) \<and>
     (\<forall>B \<in> set (Bs @ chain). B \<subseteq> set (bs_array act)) \<and>
     (found \<longrightarrow> length (model w) = args af \<and> candidate af act (model_set act w) \<and>
        avoids Bs (model_set act w) \<and> model_set act w \<in> set chain \<and>
        (\<forall>B \<in> set chain. model_set act w \<subseteq> B)) \<and>
     (\<not> found \<longrightarrow> chain = []) \<and>
     (running \<longrightarrow> sat_assumed w = (if found then exclude af act (model_set act w) else [])) \<and>
     (\<not> running \<longrightarrow> sat_assumed w = [] \<and>
        \<not> (\<exists>E. candidate af act E \<and> avoids (Bs @ chain) E \<and> (found \<longrightarrow> E \<subseteq> model_set act w))))"

definition inner_measure :: "IterableBitSet \<Rightarrow> bool \<times> bool \<times> CadicalSatSolver \<Rightarrow> nat" where
  "inner_measure act st = (case st of (running, found, w) \<Rightarrow>
     if \<not> running then 0
     else if found then Suc (card (model_set act w))
     else Suc (Suc (length (bs_array act))))"

lemma minimise_step_ok:
  assumes wf: "wf_af af" "small_af af" "wf_active af act"
    and inv: "inner_inv af act Bs chain st" and run: "fst st"
  shows "\<exists>st' chain'. minimise_step af act st = Ok st' \<and> inner_inv af act Bs chain' st' \<and>
    inner_measure act st' < inner_measure act st"
proof -
  obtain found w where st: "st = (True, found, w)" using run by (cases st) auto
  let ?A = "set (bs_array act)"
  define U where "U = (if found then model_set act w else ?A)"
  have i: "sat_invar w" "sat_size w = args af"
    "sat_clauses w = enc af act @ map (block af act) (Bs @ chain)"
    "\<forall>B \<in> set (Bs @ chain). B \<subseteq> ?A" "\<not> found \<Longrightarrow> chain = []"
    "found \<Longrightarrow> model_set act w \<in> set chain" "found \<Longrightarrow> \<forall>B \<in> set chain. model_set act w \<subseteq> B"
    and as: "sat_assumed w = [] \<and> U = ?A \<or> sat_assumed w = exclude af act U"
    using inv by (auto simp: inner_inv_def st U_def)
  obtain r w1 where w1: "sat_solve w = Ok (r, w1)" "sat_invar w1" "sat_clauses w1 = sat_clauses w"
    "sat_assumed w1 = []" "sat_size w1 = args af"
    and ans: "r = SAT_V \<and> length (model w1) = args af \<and>
        (\<exists>\<sigma>. sat_all \<sigma> (sat_clauses w) (sat_assumed w) \<and> (\<forall>i < args af. model w1 ! i \<longleftrightarrow> \<sigma> (Suc i))) \<or>
      r = UNSAT_V \<and> model w1 = model w \<and> \<not> (\<exists>\<sigma>. sat_all \<sigma> (sat_clauses w) (sat_assumed w))"
    using cad.slv_ok [OF i(1)] i(2) by metis
  from ans show ?thesis
  proof (elim disjE conjE exE)
    fix \<sigma> assume r: "r = SAT_V" and len: "length (model w1) = args af"
      and sat: "sat_all \<sigma> (sat_clauses w) (sat_assumed w)"
      and mdl: "\<forall>i < args af. model w1 ! i \<longleftrightarrow> \<sigma> (Suc i)"
    let ?E = "model_set act w1"
    have E: "?E = accepted_in ?A \<sigma>"
      using mdl wf_active_bound [OF wf(3)] by (auto simp: model_set_def accepted_in_def)
    have q: "sat_all \<sigma> (enc af act) []" "avoids (Bs @ chain) ?E" "?E \<subseteq> U"
      using sat query_iff [OF wf i(4) as] unfolding i(3) E by blast+
    have cand: "candidate af act ?E" using enc_sound [OF wf q(1)] E by simp
    have bound: "\<forall>a \<in> set (bs_array act). a < args af" using wf_active_bound [OF wf(3)] by blast
    have sub: "?E \<subseteq> ?A" by (auto simp: model_set_def)
    have filt: "filter (\<lambda>a. a \<in> ?E) (bs_array act) = filter (\<lambda>a. model w1 ! a) (bs_array act)"
      "filter (\<lambda>a. a \<notin> ?E) (bs_array act) = filter (\<lambda>a. \<not> model w1 ! a) (bs_array act)"
      by (auto simp: model_set_def intro!: filter_cong)
    obtain w2 where w2: "rfold (minimise_arg af) (bs_array act) ([], w1) = Ok (block af act ?E, w2)"
      "sat_invar w2" "sat_clauses w2 = sat_clauses w1" "sat_assumed w2 = exclude af act ?E"
      "model w2 = model w1" "sat_size w2 = args af"
      using minimise_args_ok [OF wf(2) bound w1(2) len, of "[]"] w1(4,5)
      by (auto simp: block_def exclude_def filt)
    have "\<forall>l \<in> set (block af act ?E). VALID_LIT l"
      using valid_vars [OF wf(2)] bound by (auto simp: block_def)
    then obtain w3 where w3: "add_clause (block af act ?E) w2 = Ok w3" "sat_invar w3"
      "sat_clauses w3 = sat_clauses w2 @ [block af act ?E]" "sat_assumed w3 = sat_assumed w2"
      "model w3 = model w2" "sat_size w3 = sat_size w2"
      using cad.add_ok [OF w2(2)] by metis
    have same: "model_set act w3 = ?E" using w3(5) w2(5) by (simp add: model_set_def)
    have step: "minimise_step af act st = Ok (True, True, w3)"
      using w1(1) w2(1) w3(1) r by (simp add: minimise_step_def st SAT_V_def UNSAT_V_def)
    have chain: "\<forall>B \<in> set (chain @ [?E]). ?E \<subseteq> B"
      using q(3) i(5,7) by (cases found) (auto simp: U_def)
    have blocked: "\<forall>B \<in> set (Bs @ chain @ [?E]). B \<subseteq> ?A" "avoids Bs ?E"
      using i(4) q(2) sub by auto
    have clauses: "sat_clauses w3 = enc af act @ map (block af act) (Bs @ chain @ [?E])"
      "sat_assumed w3 = exclude af act ?E" "length (model w3) = args af" "sat_size w3 = args af"
      using w1 w2 w3 i(3) len by simp_all
    have "inner_inv af act Bs (chain @ [?E]) (True, True, w3)"
      unfolding inner_inv_def prod.case same
      using w3(2) chain blocked clauses cand by simp
    moreover have "inner_measure act (True, True, w3) < inner_measure act st"
    proof (cases found)
      case True
      then have "?E \<subset> model_set act w" using q i(6) by (auto simp: U_def)
      then have "card ?E < card (model_set act w)"
        by (rule psubset_card_mono [rotated]) (simp add: model_set_def)
      then show ?thesis using True same by (simp add: inner_measure_def st)
    next
      case False
      have "card ?E \<le> length (bs_array act)"
        using card_mono [OF _ sub] card_length [of "bs_array act"] by (meson List.finite_set le_trans)
      then show ?thesis using False same by (simp add: inner_measure_def st)
    qed
    ultimately show ?thesis using step by blast
  next
    assume r: "r = UNSAT_V" and mdl: "model w1 = model w"
      and unsat: "\<not> (\<exists>\<sigma>. sat_all \<sigma> (sat_clauses w) (sat_assumed w))"
    have step: "minimise_step af act st = Ok (False, found, w1)"
      using w1(1) r by (simp add: minimise_step_def st)
    have none: "\<not> (\<exists>E. candidate af act E \<and> avoids (Bs @ chain) E \<and> E \<subseteq> U)"
      using unsat query_models [OF wf i(4) as] unfolding i(3) by blast
    have U: "E \<subseteq> U" if "candidate af act E" "found \<longrightarrow> E \<subseteq> model_set act w" for E
      using that adm_subset [of "attacks af" ?A "phantoms af act" E] by (simp add: U_def)
    have same: "model_set act w1 = model_set act w" using mdl by (simp add: model_set_def)
    have "inner_inv af act Bs chain (False, found, w1)"
      using inv w1 none U mdl unfolding inner_inv_def st prod.case same by auto
    then show ?thesis using step by (auto simp: inner_measure_def st)
  qed
qed

lemma minimise_ok:
  assumes wf: "wf_af af" "small_af af" "wf_active af act"
    and "sat_invar w" "sat_size w = args af" "sat_assumed w = []"
    "sat_clauses w = enc af act @ map (block af act) Bs" "\<forall>B \<in> set Bs. B \<subseteq> set (bs_array act)"
  obtains chain found w' where "minimise af act w = Ok (False, found, w')"
    "inner_inv af act Bs chain (False, found, w')"
proof -
  let ?I = "\<lambda>st. \<exists>chain. inner_inv af act Bs chain st"
  have start: "?I (True, False, w)" using assms by (auto simp: inner_inv_def)
  have "\<exists>t. minimise af act w = Ok t \<and> ?I t \<and> \<not> (case t of (running, _) \<Rightarrow> running)"
    unfolding minimise_def
  proof (rule rwhile_rule [where I = ?I and R = "measure (inner_measure act)", OF start])
    fix u assume "?I u" "case u of (running, _) \<Rightarrow> running"
    then show "\<exists>v. minimise_step af act u = Ok v \<and> ?I v \<and> (v, u) \<in> measure (inner_measure act)"
      using minimise_step_ok [OF wf] by (fastforce simp: case_prod_unfold)
  qed simp
  then show ?thesis using that by auto
qed

section \<open>The outer loop\<close>

lemma collect_extension_ok:
  assumes "wf_active af act" "length (model w) = args af"
  shows "collect_extension act w = Ok (filter (\<lambda>a. a \<in> model_set act w) (bs_array act))"
proof -
  have "rfold (\<lambda>arg ext. rbind (vec_at (model w) arg) (\<lambda>accepted.
      Ok (if accepted then ext @ [arg] else ext))) xs ext = Ok (ext @ filter (\<lambda>a. model w ! a) xs)"
    if "\<forall>a \<in> set xs. a < args af" for xs ext
    using that assms(2) by (induction xs arbitrary: ext) auto
  moreover have "filter (\<lambda>a. model w ! a) (bs_array act)
      = filter (\<lambda>a. a \<in> model_set act w) (bs_array act)"
    by (auto simp: model_set_def intro!: filter_cong)
  ultimately show ?thesis
    using wf_active_bound [OF assms(1)] by (simp add: collect_extension_def)
qed

abbreviation initial_set :: "AF \<Rightarrow> IterableBitSet \<Rightarrow> nat set \<Rightarrow> bool" where
  "initial_set af act E \<equiv> initial_in (attacks af) (set (bs_array act)) (phantoms af act) E"

definition as_list :: "IterableBitSet \<Rightarrow> nat set \<Rightarrow> nat list" where
  "as_list act E = filter (\<lambda>a. a \<in> E) (bs_array act)"

lemma set_as_list: "E \<subseteq> set (bs_array act) \<Longrightarrow> set (as_list act E) = E"
  by (auto simp: as_list_def)

definition outer_inv :: "AF \<Rightarrow> IterableBitSet \<Rightarrow> nat set list \<Rightarrow>
    bool \<times> nat list list \<times> CadicalSatSolver \<Rightarrow> bool" where
  "outer_inv af act Bs st = (case st of (running, res, w) \<Rightarrow>
     sat_invar w \<and> sat_size w = args af \<and> sat_assumed w = [] \<and>
     sat_clauses w = enc af act @ map (block af act) Bs \<and>
     (\<forall>B \<in> set Bs. B \<subseteq> set (bs_array act) \<and> (\<exists>r \<in> set res. set r \<subseteq> B)) \<and>
     (\<forall>r \<in> set res. set r \<in> set Bs \<and> initial_set af act (set r) \<and> r = as_list act (set r)) \<and>
     distinct (map set res) \<and>
     (\<not> running \<longrightarrow> \<not> (\<exists>E. candidate af act E \<and> avoids Bs E)))"

definition outer_measure :: "IterableBitSet \<Rightarrow> bool \<times> nat list list \<times> CadicalSatSolver \<Rightarrow> nat" where
  "outer_measure act st = (case st of (running, res, w) \<Rightarrow>
     if running then Suc (2 ^ card (set (bs_array act))) - length res else 0)"

lemma inner_inv_initial:
  assumes "inner_inv af act Bs chain (False, True, w)"
  shows "initial_set af act (model_set act w)"
proof -
  let ?E = "model_set act w"
  have i: "candidate af act ?E" "avoids Bs ?E" "\<forall>B \<in> set chain. ?E \<subseteq> B"
    "\<not> (\<exists>D. candidate af act D \<and> avoids (Bs @ chain) D \<and> D \<subseteq> ?E)"
    using assms by (simp_all add: inner_inv_def)
  have False if D: "D \<subset> ?E" "D \<noteq> {}" "adm_in (attacks af) (set (bs_array act)) (phantoms af act) D" for D
  proof -
    have "avoids (Bs @ chain) D" using D(1) i(2,3) by fastforce
    then show False using D i(4) by blast
  qed
  then show ?thesis using i(1) unfolding initial_in_def by blast
qed

lemma length_outer_res:
  assumes "outer_inv af act Bs (running, res, w)"
  shows "length res \<le> 2 ^ card (set (bs_array act))"
proof -
  have "set (map set res) \<subseteq> Pow (set (bs_array act))" "distinct (map set res)"
    using assms by (auto simp: outer_inv_def dest: initial_subset)
  then have "length (map set res) \<le> card (Pow (set (bs_array act)))"
    by (metis List.finite_set card_mono distinct_card finite_Pow_iff)
  then show ?thesis by (simp add: card_Pow)
qed

lemma enumerate_step_ok:
  assumes wf: "wf_af af" "small_af af" "wf_active af act"
    and inv: "outer_inv af act Bs st" and run: "fst st"
  shows "\<exists>st' Bs'. enumerate_step af act st = Ok st' \<and> outer_inv af act Bs' st' \<and>
    outer_measure act st' < outer_measure act st"
proof -
  obtain res w where st: "st = (True, res, w)" using run by (cases st) auto
  have o: "sat_invar w" "sat_size w = args af" "sat_assumed w = []"
    "sat_clauses w = enc af act @ map (block af act) Bs" "\<forall>B \<in> set Bs. B \<subseteq> set (bs_array act)"
    "\<forall>B \<in> set Bs. \<exists>r \<in> set res. set r \<subseteq> B"
    "\<forall>r \<in> set res. set r \<in> set Bs \<and> initial_set af act (set r) \<and> r = as_list act (set r)"
    "distinct (map set res)"
    using inv by (simp_all add: outer_inv_def st)
  have size: "length res \<le> 2 ^ card (set (bs_array act))"
    using length_outer_res inv st by blast
  obtain chain found w' where m: "minimise af act w = Ok (False, found, w')"
    and i: "inner_inv af act Bs chain (False, found, w')"
    using minimise_ok [OF wf o(1-5)] by metis
  show ?thesis
  proof (cases found)
    case False
    then have step: "enumerate_step af act st = Ok (False, res, w')"
      using m by (simp add: enumerate_step_def st)
    have "outer_inv af act Bs (False, res, w')"
      using i o False by (auto simp: inner_inv_def outer_inv_def)
    then show ?thesis using step size by (auto simp: outer_measure_def st)
  next
    case True
    let ?E = "model_set act w'"
    have i': "sat_invar w'" "sat_size w' = args af" "sat_assumed w' = []" "length (model w') = args af"
      "sat_clauses w' = enc af act @ map (block af act) (Bs @ chain)"
      "\<forall>B \<in> set (Bs @ chain). B \<subseteq> set (bs_array act)" "avoids Bs ?E" "?E \<in> set chain"
      "\<forall>B \<in> set chain. ?E \<subseteq> B"
      using i True by (simp_all add: inner_inv_def)
    have init: "initial_set af act ?E" using i True by (auto intro: inner_inv_initial)
    have setE: "set (as_list act ?E) = ?E" by (rule set_as_list) (auto simp: model_set_def)
    have step: "enumerate_step af act st = Ok (True, res @ [as_list act ?E], w')"
      using m True collect_extension_ok [OF wf(3) i'(4)]
      by (simp add: enumerate_step_def st as_list_def)
    have new: "?E \<notin> set (map set res)" using i'(7) o(7) by auto
    have inv': "outer_inv af act (Bs @ chain) (True, res @ [as_list act ?E], w')"
      using i' o init setE new by (auto simp: outer_inv_def)
    have "length (res @ [as_list act ?E]) \<le> 2 ^ card (set (bs_array act))"
      using length_outer_res [OF inv'] .
    then have "outer_measure act (True, res @ [as_list act ?E], w') < outer_measure act st"
      by (simp add: outer_measure_def st)
    then show ?thesis using step inv' by blast
  qed
qed

text \<open>
  The result of the enumeration: the initial sets, each once, each as the list of its
  members in the order of the active array.
\<close>

lemma enumerate_initial_ok:
  assumes wf: "wf_af af" "small_af af" "wf_active af act"
    and eng: "engine_ok eng" "engine_decides eng"
  obtains res where "enumerate_initial eng af act = Ok res" "distinct (map set res)"
    "set ` set res = {E. initial_set af act E}" "\<forall>r \<in> set res. r = as_list act (set r)"
proof (cases "bs_array act = []")
  case True
  then have "enumerate_initial eng af act = Ok []" by (simp add: enumerate_initial_def)
  moreover have "\<not> initial_set af act E" for E
    using True initial_subset initial_nonempty by fastforce
  ultimately show ?thesis by (intro that [of "[]"]) auto
next
  case False
  have n: "i32 (int (args af)) = int (args af)" "int (args af) < INT_MAX"
    using wf(2) by (auto simp: small_af_def i32_id INT_MAX_def INT_MIN_def)
  obtain w0 where w0: "new_CadicalSatSolver eng (int (args af)) = Ok w0" "sat_invar w0"
    "sat_clauses w0 = []" "sat_assumed w0 = []" "sat_size w0 = args af"
    using new_CadicalSatSolver_ok [OF eng, of "int (args af)"] n by auto
  obtain w where w: "admissible_nonempty af act w0 = Ok w" "sat_invar w"
    "sat_clauses w = enc af act" "sat_assumed w = []" "sat_size w = args af"
    using admissible_nonempty_ok [OF wf w0(2)] w0(3-5) by (metis append_Nil)
  let ?I = "\<lambda>st. \<exists>Bs. outer_inv af act Bs st"
  have start: "?I (True, [], w)"
    using w by (intro exI [of _ "[]"]) (simp add: outer_inv_def)
  have "\<exists>t. rwhile (\<lambda>(running, _). running) (enumerate_step af act) (True, [], w) = Ok t \<and> ?I t \<and>
      \<not> (case t of (running, _) \<Rightarrow> running)"
  proof (rule rwhile_rule [where I = ?I and R = "measure (outer_measure act)", OF start])
    fix u assume "?I u" "case u of (running, _) \<Rightarrow> running"
    then show "\<exists>v. enumerate_step af act u = Ok v \<and> ?I v \<and> (v, u) \<in> measure (outer_measure act)"
      using enumerate_step_ok [OF wf] by (fastforce simp: case_prod_unfold)
  qed simp
  then obtain res w' Bs where loop: "rwhile (\<lambda>(running, _). running) (enumerate_step af act) (True, [], w)
      = Ok (False, res, w')" and inv: "outer_inv af act Bs (False, res, w')" by auto
  have run: "enumerate_initial eng af act = Ok res"
    using False n w0(1) w(1) loop by (simp add: enumerate_initial_def)
  have o: "\<forall>B \<in> set Bs. \<exists>r \<in> set res. set r \<subseteq> B"
    "\<forall>r \<in> set res. set r \<in> set Bs \<and> initial_set af act (set r) \<and> r = as_list act (set r)"
    "distinct (map set res)" "\<not> (\<exists>E. candidate af act E \<and> avoids Bs E)"
    using inv by (simp_all add: outer_inv_def)
  have "E \<in> set ` set res" if E: "initial_set af act E" for E
  proof -
    have "candidate af act E" using E by (auto dest: initial_adm initial_nonempty)
    then obtain B where "B \<in> set Bs" "B \<subseteq> E" using o(4) by blast
    then obtain r where r: "r \<in> set res" "set r \<subseteq> E" using o(1) by (meson subset_trans)
    then have "initial_set af act (set r)" using o(2) by blast
    then have "set r = E" using E r(2) unfolding initial_in_def by blast
    then show ?thesis using r(1) by blast
  qed
  then have "set ` set res = {E. initial_set af act E}" using o(2) by blast
  then show ?thesis using that run o(2,3) by blast
qed

text \<open>
  C4. \<open>EE-IT\<close>: with a sound and uninterrupted engine both loops of \<open>enumerate_initial\<close> end, no
  access is out of range and no contract is violated, and the result lists every initial set
  (relative to the phantoms, if there are any) exactly once, as the list of its members in the
  order of the active array.
\<close>

theorem enumerate_initial_exact:
  assumes "wf_af af" "small_af af" "wf_active af act" "engine_ok eng" "engine_decides eng"
  shows "\<exists>res. enumerate_initial eng af act = Ok res \<and> distinct (map set res) \<and>
    set ` set res = {E. initial_in (attacks af) (set (bs_array act)) (phantoms af act) E} \<and>
    (\<forall>r \<in> set res. r = filter (\<lambda>a. a \<in> set r) (bs_array act))"
  by (rule enumerate_initial_ok [OF assms]) (auto simp: as_list_def)

theorem enumerate_initial_exact_witness:
  "wf_af loop_af \<and> small_af loop_af \<and> wf_active loop_af (all_active loop_af) \<and>
   (\<exists>res. enumerate_initial ref_engine loop_af (all_active loop_af) = Ok res \<and> distinct (map set res) \<and>
    set ` set res = {E. initial (attacks loop_af) (set (bs_array (all_active loop_af))) E})"
proof -
  have wf: "wf_active loop_af (all_active loop_af)" "phantoms loop_af (all_active loop_af) = {}"
    using consistent_all_active [of loop_af] by (simp_all add: consistent_iff)
  show ?thesis
    using enumerate_initial_exact [OF loop_wf wf(1) engine_ok_ref engine_decides_ref] loop_wf wf by auto
qed

end
