(* ===== verification/Serial_Search.thy ===== *)
theory Serial_Search
  imports Prelude
begin

text \<open>
  The enumerators of the solver share one scheme: a recursive function that computes the
  possible next sets of the current state, calls itself for each of them with a longer
  sequence, and prints its sequence if a condition on the state holds. The locale
  \<open>serial_search\<close> is that scheme: \<open>run d st seq\<close> is the function with recursion depth at most
  \<open>d\<close>, and the laws say how one level of it unfolds and that something decreases. From them
  it follows that a sufficient depth is enough, what the whole output is, and which
  sequences it contains.
\<close>

section \<open>Sequencing outputs\<close>

fun rconcat :: "'a list result list \<Rightarrow> 'a list \<Rightarrow> 'a list result" where
  "rconcat [] fin = Ok fin"
| "rconcat (r # rs) fin = rbind r (\<lambda>out. rbind (rconcat rs fin) (\<lambda>rest. Ok (out @ rest)))"

lemma rconcat_Ok: "rconcat (map (\<lambda>x. Ok (f x)) xs) fin = Ok (concat (map f xs) @ fin)"
  by (induction xs) auto

lemma rfold_rconcat:
  assumes "\<And>x st. x \<in> set xs \<Longrightarrow> g x st = rbind (f x) (\<lambda>out. Ok (h x (fst st), snd st @ out))"
  shows "rfold g xs (b, acc) =
    rbind (rconcat (map f xs) []) (\<lambda>out. Ok (fold h xs b, acc @ out))"
  using assms
proof (induction xs arbitrary: b acc)
  case (Cons x xs)
  have "rfold g xs (h x b, acc @ out) =
      rbind (rconcat (map f xs) []) (\<lambda>rest. Ok (fold h xs (h x b), (acc @ out) @ rest))" for out
    using Cons.IH Cons.prems by simp
  then show ?case using Cons.prems by (simp add: rbind_assoc)
qed simp

lemma rconcat_fin: "rbind (rconcat rs []) (\<lambda>out. Ok (out @ fin)) = rconcat rs fin"
proof (induction rs)
  case (Cons r rs)
  then show ?case by (cases r) (auto simp: rbind_assoc simp flip: Cons)
qed simp

section \<open>The tree of sequences\<close>

fun tree :: "('st \<Rightarrow> 'x list) \<Rightarrow> ('st \<Rightarrow> 'x \<Rightarrow> 'st) \<Rightarrow> ('st \<Rightarrow> bool) \<Rightarrow> nat \<Rightarrow> 'st \<Rightarrow> 'x list \<Rightarrow> 'x list list" where
  "tree c n e 0 st seq = []"
| "tree c n e (Suc d) st seq =
     concat (map (\<lambda>x. tree c n e d (n st x) (seq @ [x])) (c st)) @ (if e st then [seq] else [])"

fun path :: "('st \<Rightarrow> 'x list) \<Rightarrow> ('st \<Rightarrow> 'x \<Rightarrow> 'st) \<Rightarrow> 'st \<Rightarrow> 'x list \<Rightarrow> bool" where
  "path c n st [] \<longleftrightarrow> True"
| "path c n st (x # xs) \<longleftrightarrow> x \<in> set (c st) \<and> path c n (n st x) xs"

lemma tree_extends: "s \<in> set (tree c n e d st seq) \<Longrightarrow> \<exists>p. s = seq @ p"
proof (induction d arbitrary: st seq)
  case (Suc d)
  then show ?case by (auto split: if_splits) (metis append_assoc)
qed simp

locale serial_search =
  fixes run :: "nat \<Rightarrow> 'st \<Rightarrow> 'x list \<Rightarrow> string result"
    and cands :: "'st \<Rightarrow> 'x list"
    and next_state :: "'st \<Rightarrow> 'x \<Rightarrow> 'st"
    and emits :: "'st \<Rightarrow> bool"
    and render :: "'x list \<Rightarrow> string"
    and inv :: "'st \<Rightarrow> 'x list \<Rightarrow> bool"
    and meas :: "'st \<Rightarrow> nat"
  assumes unfold_run: "inv st seq \<Longrightarrow> run (Suc d) st seq =
      rconcat (map (\<lambda>x. run d (next_state st x) (seq @ [x])) (cands st))
        (if emits st then render seq else [])"
    and inv_next: "inv st seq \<Longrightarrow> x \<in> set (cands st) \<Longrightarrow> inv (next_state st x) (seq @ [x])"
    and decreases: "inv st seq \<Longrightarrow> x \<in> set (cands st) \<Longrightarrow> meas (next_state st x) < meas st"
    and distinct_cands: "inv st seq \<Longrightarrow> distinct (cands st)"
begin

lemma run_tree:
  "inv st seq \<Longrightarrow> meas st < d \<Longrightarrow>
     run d st seq = Ok (concat (map render (tree cands next_state emits d st seq)))"
proof (induction d arbitrary: st seq)
  case (Suc d)
  have "run d (next_state st x) (seq @ [x]) =
      Ok (concat (map render (tree cands next_state emits d (next_state st x) (seq @ [x]))))"
    if "x \<in> set (cands st)" for x
    using Suc.IH inv_next [OF Suc.prems(1) that] decreases [OF Suc.prems(1) that] Suc.prems(2) by simp
  then have eq: "map (\<lambda>x. run d (next_state st x) (seq @ [x])) (cands st) = map (\<lambda>x.
      Ok (concat (map render (tree cands next_state emits d (next_state st x) (seq @ [x]))))) (cands st)"
    by (rule map_cong [OF refl])
  show ?case
    unfolding unfold_run [OF Suc.prems(1)] eq by (simp add: rconcat_Ok concat_map_concat comp_def)
qed simp

lemma set_tree:
  "inv st seq \<Longrightarrow> meas st < d \<Longrightarrow>
     set (tree cands next_state emits d st seq) =
       {seq @ p |p. path cands next_state st p \<and> emits (foldl next_state st p)}"
proof (induction d arbitrary: st seq)
  case (Suc d)
  have IH: "set (tree cands next_state emits d (next_state st x) (seq @ [x])) =
      {seq @ x # p |p. path cands next_state (next_state st x) p \<and>
         emits (foldl next_state (next_state st x) p)}"
    if "x \<in> set (cands st)" for x
    using Suc.IH inv_next [OF Suc.prems(1) that] decreases [OF Suc.prems(1) that] Suc.prems(2) by simp
  show ?case (is "?L = ?R")
  proof (intro equalityI subsetI)
    fix s assume "s \<in> ?L"
    then consider x where "x \<in> set (cands st)"
        "s \<in> set (tree cands next_state emits d (next_state st x) (seq @ [x]))"
      | "emits st" "s = seq"
      by (auto split: if_splits)
    then show "s \<in> ?R"
    proof cases
      case 1
      then obtain p where "s = seq @ x # p" "path cands next_state (next_state st x) p"
        "emits (foldl next_state (next_state st x) p)" using IH by auto
      then show ?thesis using 1(1) by (intro CollectI exI [of _ "x # p"]) simp
    next
      case 2
      then show ?thesis by (intro CollectI exI [of _ "[]"]) simp
    qed
  next
    fix s assume "s \<in> ?R"
    then obtain p where p: "s = seq @ p" "path cands next_state st p" "emits (foldl next_state st p)"
      by blast
    show "s \<in> ?L"
    proof (cases p)
      case Nil
      then show ?thesis using p by simp
    next
      case (Cons x q)
      then show ?thesis using p IH [of x] by auto
    qed
  qed
qed simp

lemma distinct_tree: "inv st seq \<Longrightarrow> distinct (tree cands next_state emits d st seq)"
proof (induction d arbitrary: st seq)
  case (Suc d)
  let ?t = "\<lambda>x. tree cands next_state emits d (next_state st x) (seq @ [x])"
  have sub: "distinct (?t x)" if "x \<in> set (cands st)" for x
    using Suc.IH inv_next [OF Suc.prems that] by simp
  have pre: "\<exists>p. s = seq @ x # p" if "s \<in> set (?t x)" for s x
    using tree_extends [OF that] by auto
  have "distinct (concat (map ?t xs))" if "distinct xs" "set xs \<subseteq> set (cands st)" for xs
    using that
  proof (induction xs)
    case (Cons x xs)
    have "s \<notin> set (?t y)" if "s \<in> set (?t x)" "y \<in> set xs" for s y
      using pre [OF that(1)] pre [of s y] that(2) Cons.prems(1) by auto
    then have "set (?t x) \<inter> set (concat (map ?t xs)) = {}" by auto
    then show ?case using Cons sub by simp
  qed simp
  then have "distinct (concat (map ?t (cands st)))"
    using distinct_cands [OF Suc.prems] by blast
  moreover have "seq \<notin> set (concat (map ?t (cands st)))" using pre by fastforce
  ultimately show ?case by simp
qed simp

end

section \<open>Searches for sequences of sets\<close>

text \<open>
  A search whose candidates are lists that stand for sets: \<open>view\<close> maps a state to an abstract
  one, in which a candidate is any set that satisfies \<open>ok\<close>, the next state is given by \<open>step\<close>
  and a sequence is reported when \<open>fin\<close> holds. \<open>walk\<close> says which sequences the abstract search
  goes through, and the output is determined by it up to order.
\<close>

fun walk :: "('v \<Rightarrow> nat set \<Rightarrow> bool) \<Rightarrow> ('v \<Rightarrow> nat set \<Rightarrow> 'v) \<Rightarrow> 'v \<Rightarrow> nat set list \<Rightarrow> bool" where
  "walk ok step v [] \<longleftrightarrow> True"
| "walk ok step v (S # Ss) \<longleftrightarrow> ok v S \<and> walk ok step (step v S) Ss"

text \<open>The text lists each of the given sequences of sets exactly once, with sorted sets.\<close>

definition prints_exactly :: "(nat list list \<Rightarrow> string) \<Rightarrow> string \<Rightarrow> nat set list set \<Rightarrow> bool" where
  "prints_exactly render out X \<longleftrightarrow> (\<exists>Sss. distinct Sss \<and> set Sss = X \<and>
     out = concat (map (\<lambda>Ss. render (map sorted_list_of_set Ss)) Sss))"

locale set_search = serial_search run cands next_state emits render inv meas
  for run :: "nat \<Rightarrow> 'st \<Rightarrow> nat list list \<Rightarrow> string result"
    and cands :: "'st \<Rightarrow> nat list list"
    and next_state :: "'st \<Rightarrow> nat list \<Rightarrow> 'st"
    and emits :: "'st \<Rightarrow> bool"
    and render :: "nat list list \<Rightarrow> string"
    and inv :: "'st \<Rightarrow> nat list list \<Rightarrow> bool"
    and meas :: "'st \<Rightarrow> nat" +
  fixes view :: "'st \<Rightarrow> 'v"
    and ok :: "'v \<Rightarrow> nat set \<Rightarrow> bool"
    and step :: "'v \<Rightarrow> nat set \<Rightarrow> 'v"
    and fin :: "'v \<Rightarrow> bool"
  assumes view_cands: "inv st seq \<Longrightarrow> set ` set (cands st) = {S. ok (view st) S}"
    and sorted_cands: "inv st seq \<Longrightarrow> S \<in> set (cands st) \<Longrightarrow> sorted_list_of_set (set S) = S"
    and view_next: "inv st seq \<Longrightarrow> S \<in> set (cands st) \<Longrightarrow>
      view (next_state st S) = step (view st) (set S)"
    and view_emits: "inv st seq \<Longrightarrow> emits st \<longleftrightarrow> fin (view st)"
begin

lemma path_walk:
  "inv st seq \<Longrightarrow> path cands next_state st p \<Longrightarrow>
     walk ok step (view st) (map set p) \<and> map sorted_list_of_set (map set p) = p \<and>
     (emits (foldl next_state st p) \<longleftrightarrow> fin (foldl step (view st) (map set p)))"
proof (induction p arbitrary: st seq)
  case (Cons S p)
  then have S: "S \<in> set (cands st)" and p: "path cands next_state (next_state st S) p" by auto
  have "ok (view st) (set S)" using view_cands [OF Cons.prems(1)] S by auto
  then show ?case
    using Cons.IH [OF inv_next [OF Cons.prems(1) S] p] sorted_cands [OF Cons.prems(1) S]
      view_next [OF Cons.prems(1) S] by simp
qed (simp add: view_emits)

lemma walk_path:
  "inv st seq \<Longrightarrow> walk ok step (view st) Ss \<Longrightarrow> \<exists>p. path cands next_state st p \<and> map set p = Ss"
proof (induction Ss arbitrary: st seq)
  case (Cons S Ss)
  then have "S \<in> set ` set (cands st)" unfolding view_cands [OF Cons.prems(1)] by simp
  then obtain x where x: "x \<in> set (cands st)" "set x = S" by blast
  then have "walk ok step (view (next_state st x)) Ss"
    using Cons.prems(2) view_next [OF Cons.prems(1) x(1)] by simp
  then obtain p where "path cands next_state (next_state st x) p" "map set p = Ss"
    using Cons.IH [OF inv_next [OF Cons.prems(1) x(1)]] by blast
  then show ?case using x by (intro exI [of _ "x # p"]) simp
qed (auto intro: exI [of _ "[]"])

lemma run_prints:
  assumes "inv st []" "meas st < d"
  shows "\<exists>out. run d st [] = Ok out \<and>
    prints_exactly render out {Ss. walk ok step (view st) Ss \<and> fin (foldl step (view st) Ss)}"
proof -
  let ?t = "tree cands next_state emits d st []"
  have paths: "set ?t = {p. path cands next_state st p \<and> emits (foldl next_state st p)}"
    using set_tree [OF assms] by simp
  have unset: "map sorted_list_of_set (map set p) = p" if "p \<in> set ?t" for p
    using path_walk [OF assms(1)] that paths by blast
  then have "inj_on (map set) (set ?t)" by (metis inj_onI)
  then have "distinct (map (map set) ?t)"
    using distinct_tree [OF assms(1)] by (simp add: distinct_map)
  moreover have "set (map (map set) ?t) =
      {Ss. walk ok step (view st) Ss \<and> fin (foldl step (view st) Ss)}" (is "?L = ?R")
  proof (intro equalityI subsetI)
    fix Ss assume "Ss \<in> ?R"
    then obtain p where "path cands next_state st p" "map set p = Ss"
      using walk_path [OF assms(1)] by blast
    then show "Ss \<in> ?L"
      using path_walk [OF assms(1)] \<open>Ss \<in> ?R\<close> paths by (metis (mono_tags, lifting) image_eqI mem_Collect_eq set_map)
  qed (use path_walk [OF assms(1)] paths in auto)
  moreover have "map (\<lambda>Ss. render (map sorted_list_of_set Ss)) (map (map set) ?t) = map render ?t"
    using unset by (simp add: comp_def)
  ultimately show ?thesis
    using run_tree [OF assms] unfolding prints_exactly_def by metis
qed

end

end
