(* ===== verification/Sequences.thy ===== *)
theory Sequences
  imports Initial_Sets Serial_Search
begin

text \<open>
  The enumerators of serialisation sequences: \<open>src/ES-AD.cpp\<close>, \<open>src/ES-CO.cpp\<close>,
  \<open>src/ES-GR.cpp\<close>, \<open>src/ES-ST.cpp\<close>, \<open>src/ES-UC.cpp\<close> and \<open>src/AS-AD.cpp\<close>. Each function
  returns the text it writes to standard output. The recursive functions take a bound on the
  recursion depth as first argument; running into it is the fault \<open>Diverges\<close>. The functions the
  main program calls use one more than the number of active arguments, and the
  interpretations of \<open>serial_search\<close> at the end show that this is always enough.
\<close>

section \<open>Definitions\<close>

abbreviation emit :: "nat list list \<Rightarrow> string" where
  "emit sequence \<equiv> print_sequence sequence @ '',''"

subsection \<open>ES-AD and ES-PR\<close>

fun enumerate_sequences_admissible_from ::
    "nat \<Rightarrow> engine \<Rightarrow> AF \<Rightarrow> bool \<Rightarrow> IterableBitSet \<Rightarrow> nat list list \<Rightarrow> string result" where
  "enumerate_sequences_admissible_from 0 eng af preferred active_arguments sequence = Fault Diverges"
| "enumerate_sequences_admissible_from (Suc d) eng af preferred active_arguments sequence =
     rbind (enumerate_initial eng af active_arguments) (\<lambda>initial_sets.
     rbind (rfold (\<lambda>set (is_maximal, out).
              rbind (get_reduct af active_arguments set) (\<lambda>new_active_arguments.
              rbind (enumerate_sequences_admissible_from d eng af preferred new_active_arguments
                       (sequence @ [set])) (\<lambda>printed. Ok (False, out @ printed))))
            initial_sets (True, '''')) (\<lambda>(is_maximal, out).
       Ok (out @ (if \<not> preferred \<or> is_maximal then emit sequence else ''''))))"

definition enumerate_sequences_admissible ::
    "engine \<Rightarrow> AF \<Rightarrow> IterableBitSet \<Rightarrow> bool \<Rightarrow> string result" where
  "enumerate_sequences_admissible eng af active_arguments preferred =
     enumerate_sequences_admissible_from (Suc (length (bs_array active_arguments)))
       eng af preferred active_arguments []"

subsection \<open>ES-CO\<close>

definition unattacked_singleton :: "AF \<Rightarrow> IterableBitSet \<Rightarrow> nat list \<Rightarrow> bool result" where
  "unattacked_singleton af active_arguments S =
     (if length S = 1
      then rbind (vec_at (attackers af) (S ! 0)) (\<lambda>ats.
           rbind (some_marked (bs_bitset active_arguments) ats) (\<lambda>is_attacked. Ok (\<not> is_attacked)))
      else Ok False)"

fun enumerate_sequences_complete_from ::
    "nat \<Rightarrow> engine \<Rightarrow> AF \<Rightarrow> IterableBitSet \<Rightarrow> nat list list \<Rightarrow> string result" where
  "enumerate_sequences_complete_from 0 eng af active_arguments sequence = Fault Diverges"
| "enumerate_sequences_complete_from (Suc d) eng af active_arguments sequence =
     rbind (enumerate_initial eng af active_arguments) (\<lambda>initial_sets.
     rbind (rfold (\<lambda>set (has_unattacked_initialset, out).
              rbind (unattacked_singleton af active_arguments set) (\<lambda>unattacked.
              rbind (get_reduct af active_arguments set) (\<lambda>new_active_arguments.
              rbind (enumerate_sequences_complete_from d eng af new_active_arguments (sequence @ [set]))
                (\<lambda>printed. Ok (has_unattacked_initialset \<or> unattacked, out @ printed)))))
            initial_sets (False, '''')) (\<lambda>(has_unattacked_initialset, out).
       Ok (out @ (if \<not> has_unattacked_initialset then emit sequence else ''''))))"

definition enumerate_sequences_complete :: "engine \<Rightarrow> AF \<Rightarrow> IterableBitSet \<Rightarrow> string result" where
  "enumerate_sequences_complete eng af active_arguments =
     enumerate_sequences_complete_from (Suc (length (bs_array active_arguments)))
       eng af active_arguments []"

subsection \<open>ES-SA and ES-GR\<close>

fun enumerate_sequences_strong_admissible_from ::
    "nat \<Rightarrow> AF \<Rightarrow> bool \<Rightarrow> IterableBitSet \<Rightarrow> nat list list \<Rightarrow> string result" where
  "enumerate_sequences_strong_admissible_from 0 af grounded active_arguments sequence = Fault Diverges"
| "enumerate_sequences_strong_admissible_from (Suc d) af grounded active_arguments sequence =
     rbind (rfold (\<lambda>arg (is_maximal, out).
              rbind (vec_at (attackers af) arg) (\<lambda>ats.
              rbind (some_marked (bs_bitset active_arguments) ats) (\<lambda>attacked.
                if attacked then Ok (is_maximal, out)
                else rbind (get_reduct af active_arguments [arg]) (\<lambda>new_active_arguments.
                     rbind (enumerate_sequences_strong_admissible_from d af grounded
                              new_active_arguments (sequence @ [[arg]])) (\<lambda>printed.
                       Ok (False, out @ printed))))))
            (bs_array active_arguments) (True, '''')) (\<lambda>(is_maximal, out).
       Ok (out @ (if \<not> grounded \<or> is_maximal then emit sequence else '''')))"

definition enumerate_sequences_strong_admissible ::
    "AF \<Rightarrow> IterableBitSet \<Rightarrow> bool \<Rightarrow> string result" where
  "enumerate_sequences_strong_admissible af active_arguments grounded =
     enumerate_sequences_strong_admissible_from (Suc (length (bs_array active_arguments)))
       af grounded active_arguments []"

subsection \<open>ES-ST\<close>

fun enumerate_sequences_stable_from ::
    "nat \<Rightarrow> engine \<Rightarrow> AF \<Rightarrow> IterableBitSet \<Rightarrow> nat list list \<Rightarrow> string result" where
  "enumerate_sequences_stable_from 0 eng af active_arguments sequence = Fault Diverges"
| "enumerate_sequences_stable_from (Suc d) eng af active_arguments sequence =
     (if bs_array active_arguments = [] then Ok (emit sequence)
      else rbind (enumerate_initial eng af active_arguments) (\<lambda>initial_sets.
           rbind (rfold (\<lambda>set (u :: unit, out).
                    rbind (get_reduct af active_arguments set) (\<lambda>new_active_arguments.
                    rbind (enumerate_sequences_stable_from d eng af new_active_arguments
                             (sequence @ [set])) (\<lambda>printed. Ok ((), out @ printed))))
                  initial_sets ((), '''')) (\<lambda>(_, out). Ok out)))"

definition enumerate_sequences_stable :: "engine \<Rightarrow> AF \<Rightarrow> IterableBitSet \<Rightarrow> string result" where
  "enumerate_sequences_stable eng af active_arguments =
     enumerate_sequences_stable_from (Suc (length (bs_array active_arguments)))
       eng af active_arguments []"

subsection \<open>ES-UC\<close>

definition attacker_marks :: "AF \<Rightarrow> IterableBitSet \<Rightarrow> nat list \<Rightarrow> bool list result" where
  "attacker_marks af active_arguments S =
     rfold (\<lambda>arg marks.
              rbind (vec_at (attackers af) arg) (\<lambda>ats.
              rfold (\<lambda>att marks.
                       rbind (vec_at (bs_bitset active_arguments) att) (\<lambda>is_active.
                       vec_set marks att is_active)) ats marks))
       S (replicate (args af) False)"

fun some_set_marked :: "bool list \<Rightarrow> nat list list \<Rightarrow> bool result" where
  "some_set_marked marks [] = Ok False"
| "some_set_marked marks (set2 # sets) =
     rbind (some_marked marks set2) (\<lambda>is_challenged.
       if is_challenged then Ok True else some_set_marked marks sets)"

fun enumerate_sequences_unchallenged_from ::
    "nat \<Rightarrow> engine \<Rightarrow> AF \<Rightarrow> bool \<Rightarrow> IterableBitSet \<Rightarrow> nat list list \<Rightarrow> string result" where
  "enumerate_sequences_unchallenged_from 0 eng af maximal active_arguments sequence = Fault Diverges"
| "enumerate_sequences_unchallenged_from (Suc d) eng af maximal active_arguments sequence =
     rbind (enumerate_initial eng af active_arguments) (\<lambda>initial_sets.
     rbind (rfold (\<lambda>set (is_maximal, out).
              rbind (attacker_marks af active_arguments set) (\<lambda>marks.
              rbind (some_set_marked marks initial_sets) (\<lambda>is_challenged.
                if is_challenged then Ok (is_maximal, out)
                else rbind (get_reduct af active_arguments set) (\<lambda>new_active_arguments.
                     rbind (enumerate_sequences_unchallenged_from d eng af maximal
                              new_active_arguments (sequence @ [set])) (\<lambda>printed.
                       Ok (False, out @ printed))))))
            initial_sets (True, '''')) (\<lambda>(is_maximal, out).
       Ok (out @ (if \<not> maximal \<or> is_maximal then emit sequence else ''''))))"

definition enumerate_sequences_unchallenged ::
    "engine \<Rightarrow> AF \<Rightarrow> IterableBitSet \<Rightarrow> bool \<Rightarrow> string result" where
  "enumerate_sequences_unchallenged eng af active_arguments maximal =
     enumerate_sequences_unchallenged_from (Suc (length (bs_array active_arguments)))
       eng af maximal active_arguments []"

subsection \<open>AS-AD\<close>

text \<open>The scan of the last set: does it contain the argument, does it attack it first?\<close>

fun scan_set :: "AF \<Rightarrow> nat \<Rightarrow> nat list \<Rightarrow> (bool \<times> bool) result" where
  "scan_set af argument [] = Ok (False, False)"
| "scan_set af argument (arg # rest) =
     (if argument = arg then Ok (True, False)
      else rbind (vec_at (attacked af) arg) (\<lambda>targets.
             if argument \<in> set targets then Ok (False, True) else scan_set af argument rest))"

definition scan_last :: "AF \<Rightarrow> nat \<Rightarrow> nat list list \<Rightarrow> (bool \<times> bool) result" where
  "scan_last af argument sequence =
     (if sequence \<noteq> [] then scan_set af argument (last sequence) else Ok (False, False))"

fun sequences_argument_admissible_from ::
    "nat \<Rightarrow> engine \<Rightarrow> AF \<Rightarrow> nat \<Rightarrow> IterableBitSet \<Rightarrow> nat list list \<Rightarrow> string result" where
  "sequences_argument_admissible_from 0 eng af argument active_arguments sequence = Fault Diverges"
| "sequences_argument_admissible_from (Suc d) eng af argument active_arguments sequence =
     rbind (scan_last af argument sequence) (\<lambda>(contains_argument, attacks_argument).
       if contains_argument then Ok (emit sequence)
       else if attacks_argument then Ok ''''
       else rbind (enumerate_initial eng af active_arguments) (\<lambda>initial_sets.
            rbind (rfold (\<lambda>set (u :: unit, out).
                     rbind (get_reduct af active_arguments set) (\<lambda>new_active_arguments.
                     rbind (sequences_argument_admissible_from d eng af argument
                              new_active_arguments (sequence @ [set])) (\<lambda>printed.
                       Ok ((), out @ printed))))
                   initial_sets ((), '''')) (\<lambda>(_, out). Ok out)))"

definition sequences_argument_admissible ::
    "engine \<Rightarrow> AF \<Rightarrow> IterableBitSet \<Rightarrow> nat \<Rightarrow> string result" where
  "sequences_argument_admissible eng af active_arguments argument =
     sequences_argument_admissible_from (Suc (length (bs_array active_arguments)))
       eng af argument active_arguments []"

section \<open>One step of a sequence\<close>

definition env_ok :: "engine \<Rightarrow> AF \<Rightarrow> bool" where
  "env_ok eng af \<longleftrightarrow> engine_ok eng \<and> engine_decides eng \<and> wf_af af \<and> small_af af"

definition init_sets :: "engine \<Rightarrow> AF \<Rightarrow> IterableBitSet \<Rightarrow> nat list list" where
  "init_sets eng af act = the_ok (enumerate_initial eng af act)"

definition after :: "AF \<Rightarrow> IterableBitSet \<Rightarrow> nat list \<Rightarrow> IterableBitSet" where
  "after af act S = the_ok (get_reduct af act S)"

lemma init_sets_ok:
  assumes "env_ok eng af" "wf_active af act"
  shows "enumerate_initial eng af act = Ok (init_sets eng af act)"
    "distinct (init_sets eng af act)"
    "set ` set (init_sets eng af act) = {E. initial_set af act E}"
    "\<And>S. S \<in> set (init_sets eng af act) \<Longrightarrow> S = as_list act (set S)"
proof -
  obtain res where "enumerate_initial eng af act = Ok res" "distinct (map set res)"
    "set ` set res = {E. initial_set af act E}" "\<forall>r \<in> set res. r = as_list act (set r)"
    using assms(1) unfolding env_ok_def by (elim conjE) (rule enumerate_initial_ok [OF _ _ assms(2)])
  then show "enumerate_initial eng af act = Ok (init_sets eng af act)"
    "distinct (init_sets eng af act)"
    "set ` set (init_sets eng af act) = {E. initial_set af act E}"
    "\<And>S. S \<in> set (init_sets eng af act) \<Longrightarrow> S = as_list act (set S)"
    by (auto simp: init_sets_def distinct_map)
qed

lemma init_sets_initial:
  assumes "env_ok eng af" "wf_active af act" "S \<in> set (init_sets eng af act)"
  shows "initial_set af act (set S)" "set S \<subseteq> set (bs_array act)" "S \<noteq> []"
proof -
  show i: "initial_set af act (set S)" using init_sets_ok(3) [OF assms(1,2)] assms(3) by blast
  show "set S \<subseteq> set (bs_array act)" using initial_subset [OF i] .
  show "S \<noteq> []" using initial_nonempty [OF i] by auto
qed

lemma after_ok:
  assumes "wf_af af" "wf_active af act" "set S \<subseteq> set (bs_array act)"
  shows "get_reduct af act S = Ok (after af act S)" "wf_active af (after af act S)"
    "bs_array (after af act S) = filter (\<lambda>a. a \<notin> removed af (set S)) (bs_array act)"
    "set (bs_array (after af act S)) = reduct (attacks af) (set (bs_array act)) (set S)"
    "phantoms af (after af act S) = removed af (set S) - set (bs_array act)"
proof -
  have "\<forall>a \<in> set S. a < args af" using assms wf_active_bound by blast
  then obtain act' where "get_reduct af act S = Ok act'" "wf_active af act'"
    "bs_array act' = filter (\<lambda>a. a \<notin> removed af (set S)) (bs_array act)"
    "set (bs_array act') = reduct (attacks af) (set (bs_array act)) (set S)"
    "phantoms af act' = removed af (set S) - set (bs_array act)"
    using get_reduct_sets [OF assms(1,2)] by blast
  then show "get_reduct af act S = Ok (after af act S)" "wf_active af (after af act S)"
    "bs_array (after af act S) = filter (\<lambda>a. a \<notin> removed af (set S)) (bs_array act)"
    "set (bs_array (after af act S)) = reduct (attacks af) (set (bs_array act)) (set S)"
    "phantoms af (after af act S) = removed af (set S) - set (bs_array act)"
    by (simp_all add: after_def)
qed

lemma after_shrinks:
  assumes "wf_af af" "wf_active af act" "set S \<subseteq> set (bs_array act)" "S \<noteq> []"
  shows "length (bs_array (after af act S)) < length (bs_array act)"
proof -
  obtain a where "a \<in> set S" using assms(4) by (cases S) auto
  then show ?thesis
    unfolding after_ok(3) [OF assms(1-3)] using assms(3)
    by (intro length_filter_less [of a]) auto
qed

lemma attackers_marked:
  assumes "wf_af af" "wf_active af act" "a < args af"
  shows "some_marked (bs_bitset act) (attackers af ! a) =
    Ok (\<exists>b \<in> set (bs_array act) \<union> phantoms af act. attacks af b a)"
proof -
  have "\<forall>b \<in> set (attackers af ! a). b < length (bs_bitset act)"
    using assms wf_af_attacker_bound by (simp add: wf_active_length)
  then have "some_marked (bs_bitset act) (attackers af ! a) =
      Ok (\<exists>b \<in> set (attackers af ! a). bs_bitset act ! b)"
    by (rule some_marked_Ok)
  also have "(\<exists>b \<in> set (attackers af ! a). bs_bitset act ! b) \<longleftrightarrow>
      (\<exists>b \<in> set (bs_array act) \<union> phantoms af act. attacks af b a)"
    using attackers_iff [OF assms(1,3)] marked_iff [OF assms(2)] wf_active_bound [OF assms(2)]
      attacks_bound [OF assms(1)] by (auto 0 4)
  finally show ?thesis .
qed

section \<open>The enumerators are instances of the search scheme\<close>

text \<open>
  The common part of the instances: states are the active arguments, well-formed and in
  ascending order, and a sequence grows by candidates that are non-empty sets of active
  arguments.
\<close>

definition live :: "AF \<Rightarrow> IterableBitSet \<Rightarrow> bool" where
  "live af act \<longleftrightarrow> wf_active af act \<and> sorted (bs_array act)"

lemma live_wf [dest, simp]: "live af act \<Longrightarrow> wf_active af act"
  by (simp add: live_def)

lemma live_all_active: "live af (all_active af)"
  using consistent_all_active by (simp add: live_def consistent_iff all_active_def)

lemma live_after:
  assumes "wf_af af" "live af act" "set S \<subseteq> set (bs_array act)"
  shows "live af (after af act S)"
  using after_ok(2,3) [of af act S] assms by (simp add: live_def sorted_wrt_filter)

lemma search_step:
  assumes "env_ok eng af" "live af act" "S \<in> set (init_sets eng af act)"
  shows "get_reduct af act S = Ok (after af act S)" "live af (after af act S)"
    "length (bs_array (after af act S)) < length (bs_array act)"
  using after_ok(1) [of af act S] live_after [of af act S] after_shrinks [of af act S]
    init_sets_initial [OF assms(1) _ assms(3)] assms(1,2)
  by (simp_all add: env_ok_def)

lemma fold_False: "fold (\<lambda>x b. False) xs b \<longleftrightarrow> (b \<and> xs = [])"
  by (induction xs arbitrary: b) auto

lemma fold_or: "fold (\<lambda>x b. b \<or> p x) xs b \<longleftrightarrow> (b \<or> (\<exists>x \<in> set xs. p x))"
  by (induction xs arbitrary: b) auto

interpretation es_ad: serial_search
  "\<lambda>d. enumerate_sequences_admissible_from d eng af pref"
  "init_sets eng af" "after af" "\<lambda>act. \<not> pref \<or> init_sets eng af act = []" emit
  "\<lambda>act seq. env_ok eng af \<and> live af act" "\<lambda>act. length (bs_array act)"
  for eng af pref
proof (unfold_locales, goal_cases)
  case (1 act seq d)
  let ?run = "\<lambda>S. enumerate_sequences_admissible_from d eng af pref (after af act S) (seq @ [S])"
  have red: "get_reduct af act S = Ok (after af act S)" if "S \<in> set (init_sets eng af act)" for S
    using search_step(1) 1 that by blast
  have "rfold (\<lambda>S (is_maximal, out). rbind (get_reduct af act S) (\<lambda>act'.
          rbind (enumerate_sequences_admissible_from d eng af pref act' (seq @ [S]))
            (\<lambda>printed. Ok (False, out @ printed)))) (init_sets eng af act) (True, [])
      = rbind (rconcat (map ?run (init_sets eng af act)) [])
          (\<lambda>out. Ok (fold (\<lambda>x b. False) (init_sets eng af act) True, [] @ out))"
    by (intro rfold_rconcat) (simp add: case_prod_unfold red)
  then show ?case
    using 1 init_sets_ok(1) by (simp add: rbind_assoc fold_False rconcat_fin)
qed (use search_step init_sets_ok(2) in blast)+

text \<open>A singleton set is unattacked for the test of \<open>ES-CO\<close> if no marked argument attacks it.\<close>

definition free_singleton :: "AF \<Rightarrow> IterableBitSet \<Rightarrow> nat list \<Rightarrow> bool" where
  "free_singleton af act S \<longleftrightarrow> length S = 1 \<and>
     \<not> (\<exists>b \<in> set (bs_array act) \<union> phantoms af act. attacks af b (S ! 0))"

lemma unattacked_singleton_ok:
  assumes "wf_af af" "wf_active af act" "set S \<subseteq> set (bs_array act)"
  shows "unattacked_singleton af act S = Ok (free_singleton af act S)"
proof (cases "length S = 1")
  case True
  then have "S ! 0 \<in> set S" by simp
  then have "S ! 0 < args af" using assms wf_active_bound by blast
  then show ?thesis
    using True attackers_marked [OF assms(1,2)] wf_af_lengths [OF assms(1)]
    by (simp add: unattacked_singleton_def free_singleton_def)
qed (simp add: unattacked_singleton_def free_singleton_def)

interpretation es_co: serial_search
  "\<lambda>d. enumerate_sequences_complete_from d eng af"
  "init_sets eng af" "after af"
  "\<lambda>act. \<not> (\<exists>S \<in> set (init_sets eng af act). free_singleton af act S)" emit
  "\<lambda>act seq. env_ok eng af \<and> live af act" "\<lambda>act. length (bs_array act)"
  for eng af
proof (unfold_locales, goal_cases)
  case (1 act seq d)
  let ?run = "\<lambda>S. enumerate_sequences_complete_from d eng af (after af act S) (seq @ [S])"
  have red: "get_reduct af act S = Ok (after af act S)" if "S \<in> set (init_sets eng af act)" for S
    using search_step(1) 1 that by blast
  have ua: "unattacked_singleton af act S = Ok (free_singleton af act S)"
    if "S \<in> set (init_sets eng af act)" for S
    using 1 init_sets_initial(2) [of eng af act S] that
    by (intro unattacked_singleton_ok) (simp_all add: env_ok_def)
  have "rfold (\<lambda>S (has_unattacked, out). rbind (unattacked_singleton af act S) (\<lambda>ua.
          rbind (get_reduct af act S) (\<lambda>act'.
          rbind (enumerate_sequences_complete_from d eng af act' (seq @ [S]))
            (\<lambda>printed. Ok (has_unattacked \<or> ua, out @ printed))))) (init_sets eng af act) (False, [])
      = rbind (rconcat (map ?run (init_sets eng af act)) [])
          (\<lambda>out. Ok (fold (\<lambda>S b. b \<or> free_singleton af act S) (init_sets eng af act) False, [] @ out))"
    by (intro rfold_rconcat) (simp add: case_prod_unfold red ua)
  then show ?case
    using 1 init_sets_ok(1) by (simp add: rbind_assoc fold_or rconcat_fin)
qed (use search_step init_sets_ok(2) in blast)+

interpretation es_st: serial_search
  "\<lambda>d. enumerate_sequences_stable_from d eng af"
  "init_sets eng af" "after af" "\<lambda>act. bs_array act = []" emit
  "\<lambda>act seq. env_ok eng af \<and> live af act" "\<lambda>act. length (bs_array act)"
  for eng af
proof (unfold_locales, goal_cases)
  case (1 act seq d)
  let ?run = "\<lambda>S. enumerate_sequences_stable_from d eng af (after af act S) (seq @ [S])"
  have red: "get_reduct af act S = Ok (after af act S)" if "S \<in> set (init_sets eng af act)" for S
    using search_step(1) 1 that by blast
  have "rfold (\<lambda>S (u :: unit, out). rbind (get_reduct af act S) (\<lambda>act'.
          rbind (enumerate_sequences_stable_from d eng af act' (seq @ [S]))
            (\<lambda>printed. Ok ((), out @ printed)))) (init_sets eng af act) ((), [])
      = rbind (rconcat (map ?run (init_sets eng af act)) [])
          (\<lambda>out. Ok (fold (\<lambda>x u. ()) (init_sets eng af act) (), [] @ out))"
    by (intro rfold_rconcat) (simp add: case_prod_unfold red)
  moreover have "init_sets eng af act = []" if "bs_array act = []"
    using that by (simp add: init_sets_def enumerate_initial_def)
  ultimately show ?case
    using 1 init_sets_ok(1) by (simp add: rbind_assoc)
qed (use search_step init_sets_ok(2) in blast)+

text \<open>The arguments \<open>ES-GR\<close> goes on with: no marked argument attacks them.\<close>

definition free_args :: "AF \<Rightarrow> IterableBitSet \<Rightarrow> nat list" where
  "free_args af act = filter (\<lambda>a. \<not> (\<exists>b \<in> set (bs_array act) \<union> phantoms af act. attacks af b a))
     (bs_array act)"

lemma free_step:
  assumes "wf_af af" "live af act" "a \<in> set (free_args af act)"
  shows "get_reduct af act [a] = Ok (after af act [a])" "live af (after af act [a])"
    "length (bs_array (after af act [a])) < length (bs_array act)"
  using after_ok(1) [of af act "[a]"] live_after [of af act "[a]"] after_shrinks [of af act "[a]"] assms
  by (simp_all add: free_args_def)

interpretation es_gr: serial_search
  "\<lambda>d. enumerate_sequences_strong_admissible_from d af grounded"
  "\<lambda>act. map (\<lambda>a. [a]) (free_args af act)" "after af"
  "\<lambda>act. \<not> grounded \<or> free_args af act = []" emit
  "\<lambda>act seq. wf_af af \<and> live af act" "\<lambda>act. length (bs_array act)"
  for af grounded
proof (unfold_locales, goal_cases)
  case (1 act seq d)
  let ?run = "\<lambda>a. enumerate_sequences_strong_admissible_from d af grounded (after af act [a]) (seq @ [[a]])"
  let ?body = "\<lambda>a (is_maximal, out). rbind (vec_at (attackers af) a) (\<lambda>ats.
          rbind (some_marked (bs_bitset act) ats) (\<lambda>attacked. if attacked then Ok (is_maximal, out)
            else rbind (get_reduct af act [a]) (\<lambda>act'.
              rbind (enumerate_sequences_strong_admissible_from d af grounded act' (seq @ [[a]]))
                (\<lambda>printed. Ok (False, out @ printed)))))"
  have marked: "a < args af" "some_marked (bs_bitset act) (attackers af ! a) =
      Ok (\<exists>b \<in> set (bs_array act) \<union> phantoms af act. attacks af b a)"
    if "a \<in> set (bs_array act)" for a
    using 1 attackers_marked [of af act a] wf_active_bound [of af act a] that by simp_all
  note len = wf_af_lengths [of af]
  have "rfold ?body (bs_array act) (True, []) = rfold ?body (free_args af act) (True, [])"
    unfolding free_args_def
    by (rule rfold_filter) (use 1 len in \<open>simp add: case_prod_unfold marked\<close>)
  also have "\<dots> = rbind (rconcat (map ?run (free_args af act)) [])
          (\<lambda>out. Ok (fold (\<lambda>x b. False) (free_args af act) True, [] @ out))"
  proof (rule rfold_rconcat)
    fix a and st :: "bool \<times> string" assume a: "a \<in> set (free_args af act)"
    then have "a \<in> set (bs_array act)"
      "\<not> (\<exists>b \<in> set (bs_array act) \<union> phantoms af act. attacks af b a)" by (auto simp: free_args_def)
    then show "?body a st = rbind (?run a) (\<lambda>out. Ok (False, snd st @ out))"
      using 1 len free_step(1) [of af act a] a by (simp add: case_prod_unfold marked)
  qed
  finally show ?case by (simp add: rbind_assoc fold_False rconcat_fin comp_def)
next
  case (4 act seq)
  then show ?case using wf_active_distinct [of af act] by (simp add: distinct_map free_args_def inj_on_def)
qed (use free_step in \<open>auto\<close>)

text \<open>
  A set of \<open>ES-UC\<close> is challenged if some initial set attacks it. The marks are set only for active
  attackers, and the sets compared with consist of active arguments.
\<close>

definition challenged :: "engine \<Rightarrow> AF \<Rightarrow> IterableBitSet \<Rightarrow> nat list \<Rightarrow> bool" where
  "challenged eng af act S \<longleftrightarrow>
     (\<exists>T \<in> set (init_sets eng af act). \<exists>b \<in> set T. \<exists>a \<in> set S. attacks af b a)"

definition free_sets :: "engine \<Rightarrow> AF \<Rightarrow> IterableBitSet \<Rightarrow> nat list list" where
  "free_sets eng af act = filter (\<lambda>S. \<not> challenged eng af act S) (init_sets eng af act)"

lemma mark_attackers_ok:
  assumes "wf_af af" "wf_active af act" "a < args af" "length marks = args af"
  shows "\<exists>marks'. rbind (vec_at (attackers af) a) (\<lambda>ats. rfold (\<lambda>att marks.
      rbind (vec_at (bs_bitset act) att) (\<lambda>is_active. vec_set marks att is_active)) ats marks) = Ok marks' \<and>
    length marks' = args af \<and> (\<forall>b < args af. marks' ! b \<longleftrightarrow>
      (if attacks af b a then bs_bitset act ! b else marks ! b))"
proof -
  have bound: "\<forall>b \<in> set (attackers af ! a). b < args af"
    using assms wf_af_attacker_bound by blast
  let ?m = "fold (\<lambda>b m. m[b := bs_bitset act ! b]) (attackers af ! a) marks"
  have "rfold (\<lambda>att marks. rbind (vec_at (bs_bitset act) att)
      (\<lambda>is_active. vec_set marks att is_active)) (attackers af ! a) marks = Ok ?m \<and> length ?m = args af"
    by (rule rfold_Ok_fold) (use bound assms wf_active_length in auto)
  moreover have "fold (\<lambda>b m. m[b := bs_bitset act ! b]) xs marks ! b =
      (if b \<in> set xs then bs_bitset act ! b else marks ! b)" if "b < length marks" for b xs marks
    using that by (induction xs arbitrary: marks) (auto simp: nth_list_update)
  ultimately show ?thesis
    using assms wf_af_lengths [OF assms(1)] attackers_iff [OF assms(1,3)] by auto
qed

lemma attacker_marks_ok:
  assumes "wf_af af" "wf_active af act" "\<forall>a \<in> set S. a < args af"
  obtains marks where "attacker_marks af act S = Ok marks" "length marks = args af"
    "\<And>b. b < args af \<Longrightarrow> marks ! b \<longleftrightarrow> bs_bitset act ! b \<and> (\<exists>a \<in> set S. attacks af b a)"
proof -
  let ?f = "\<lambda>a marks. rbind (vec_at (attackers af) a) (\<lambda>ats. rfold (\<lambda>att marks.
      rbind (vec_at (bs_bitset act) att) (\<lambda>is_active. vec_set marks att is_active)) ats marks)"
  have "\<exists>marks'. rfold ?f xs marks = Ok marks' \<and> length marks' = args af \<and> (\<forall>b < args af.
      marks' ! b \<longleftrightarrow> (if \<exists>a \<in> set xs. attacks af b a then bs_bitset act ! b else marks ! b))"
    if "\<forall>a \<in> set xs. a < args af" "length marks = args af" for xs marks
    using that
  proof (induction xs arbitrary: marks)
    case (Cons x xs)
    obtain m where m: "?f x marks = Ok m" "length m = args af"
      "\<forall>b < args af. m ! b \<longleftrightarrow> (if attacks af b x then bs_bitset act ! b else marks ! b)"
      using mark_attackers_ok [OF assms(1,2), of x marks] Cons.prems by auto
    obtain m' where "rfold ?f xs m = Ok m'" "length m' = args af"
      "\<forall>b < args af. m' ! b \<longleftrightarrow> (if \<exists>a \<in> set xs. attacks af b a then bs_bitset act ! b else m ! b)"
      using Cons.IH [of m] Cons.prems m(2) by auto
    then show ?case using m by auto
  qed simp
  from this [OF assms(3), of "replicate (args af) False"] show ?thesis
    using that by (auto simp: attacker_marks_def)
qed

lemma some_set_marked_ok:
  assumes "\<forall>T \<in> set sets. \<forall>b \<in> set T. b < length marks"
  shows "some_set_marked marks sets = Ok (\<exists>T \<in> set sets. \<exists>b \<in> set T. marks ! b)"
  using assms by (induction sets) (auto simp: some_marked_Ok)

lemma challenged_ok:
  assumes "env_ok eng af" "wf_active af act" "S \<in> set (init_sets eng af act)"
  shows "rbind (attacker_marks af act S) (\<lambda>marks. some_set_marked marks (init_sets eng af act)) =
    Ok (challenged eng af act S)"
proof -
  have wf: "wf_af af" using assms(1) by (simp add: env_ok_def)
  have bound: "b < args af \<and> bs_bitset act ! b"
    if "T \<in> set (init_sets eng af act)" "b \<in> set T" for T b
    using init_sets_initial(2) [OF assms(1,2) that(1)] that(2)
      wf_active_bound [OF assms(2)] wf_active_marked [OF assms(2)] by blast
  have "\<forall>a \<in> set S. a < args af" using bound assms(3) by blast
  then obtain marks where m: "attacker_marks af act S = Ok marks" "length marks = args af"
    "\<And>b. b < args af \<Longrightarrow> marks ! b \<longleftrightarrow> bs_bitset act ! b \<and> (\<exists>a \<in> set S. attacks af b a)"
    using attacker_marks_ok [OF wf assms(2)] by metis
  then have "some_set_marked marks (init_sets eng af act) =
      Ok (\<exists>T \<in> set (init_sets eng af act). \<exists>b \<in> set T. marks ! b)"
    using bound by (intro some_set_marked_ok) auto
  moreover have "(\<exists>T \<in> set (init_sets eng af act). \<exists>b \<in> set T. marks ! b) \<longleftrightarrow> challenged eng af act S"
    unfolding challenged_def using m(3) bound by (intro bex_cong refl) blast
  ultimately show ?thesis using m(1) by simp
qed

interpretation es_uc: serial_search
  "\<lambda>d. enumerate_sequences_unchallenged_from d eng af maximal"
  "free_sets eng af" "after af" "\<lambda>act. \<not> maximal \<or> free_sets eng af act = []" emit
  "\<lambda>act seq. env_ok eng af \<and> live af act" "\<lambda>act. length (bs_array act)"
  for eng af maximal
proof (unfold_locales, goal_cases)
  case (1 act seq d)
  let ?run = "\<lambda>S. enumerate_sequences_unchallenged_from d eng af maximal (after af act S) (seq @ [S])"
  let ?body = "\<lambda>S (is_maximal, out). rbind (attacker_marks af act S) (\<lambda>marks.
          rbind (some_set_marked marks (init_sets eng af act)) (\<lambda>is_challenged.
            if is_challenged then Ok (is_maximal, out)
            else rbind (get_reduct af act S) (\<lambda>act'.
              rbind (enumerate_sequences_unchallenged_from d eng af maximal act' (seq @ [S]))
                (\<lambda>printed. Ok (False, out @ printed)))))"
  have body: "?body S st = (if challenged eng af act S then Ok st
      else rbind (?run S) (\<lambda>out. Ok (False, snd st @ out)))"
    if "S \<in> set (init_sets eng af act)" for S and st :: "bool \<times> string"
    using 1 challenged_ok [of eng af act S] search_step(1) [of eng af act S] that
    by (cases "attacker_marks af act S") (auto simp: case_prod_unfold)
  have "rfold ?body (init_sets eng af act) (True, []) = rfold ?body (free_sets eng af act) (True, [])"
    unfolding free_sets_def by (rule rfold_filter) (simp only: body if_True not_not)
  also have "\<dots> = rbind (rconcat (map ?run (free_sets eng af act)) [])
          (\<lambda>out. Ok (fold (\<lambda>x b. False) (free_sets eng af act) True, [] @ out))"
    by (rule rfold_rconcat) (simp only: free_sets_def set_filter mem_Collect_eq body if_False)
  finally show ?case
    using 1 init_sets_ok(1) by (simp add: rbind_assoc fold_False rconcat_fin)
next
  case (4 act seq)
  then show ?case using init_sets_ok(2) by (auto simp: free_sets_def)
qed (use search_step in \<open>auto simp: free_sets_def\<close>)

text \<open>
  \<open>AS-AD\<close> looks at the last set of its sequence, so its state here is the pair of the active
  arguments and the sequence.
\<close>

lemma scan_set_ok:
  assumes "wf_af af" "conflict_free (attacks af) (set S)" "\<forall>a \<in> set S. a < args af"
  shows "scan_set af x S = Ok (x \<in> set S, x \<notin> set S \<and> (\<exists>a \<in> set S. attacks af a x))"
  using assms(2,3)
proof (induction S)
  case (Cons a S)
  then have IH: "scan_set af x S = Ok (x \<in> set S, x \<notin> set S \<and> (\<exists>a \<in> set S. attacks af a x))"
    by (auto simp: conflict_free_def)
  have "x \<notin> set S" if "attacks af a x" using Cons.prems(1) that by (auto simp: conflict_free_def)
  then show ?case
    using IH Cons.prems wf_af_lengths [OF assms(1)] attacked_iff [OF assms(1), of a] by auto
qed simp

definition hit :: "nat \<Rightarrow> nat list list \<Rightarrow> bool" where
  "hit x seq \<longleftrightarrow> seq \<noteq> [] \<and> x \<in> set (last seq)"

definition lost :: "AF \<Rightarrow> nat \<Rightarrow> nat list list \<Rightarrow> bool" where
  "lost af x seq \<longleftrightarrow> seq \<noteq> [] \<and> (\<exists>a \<in> set (last seq). attacks af a x)"

lemma scan_last_ok:
  assumes "wf_af af" "\<forall>S \<in> set seq. conflict_free (attacks af) (set S) \<and> (\<forall>a \<in> set S. a < args af)"
  shows "scan_last af x seq = Ok (hit x seq, \<not> hit x seq \<and> lost af x seq)"
proof (cases "seq = []")
  case False
  then have "conflict_free (attacks af) (set (last seq))" "\<forall>a \<in> set (last seq). a < args af"
    using assms(2) last_in_set by blast+
  then show ?thesis
    using False scan_set_ok [OF assms(1)] by (simp add: scan_last_def hit_def lost_def)
qed (simp add: scan_last_def hit_def lost_def)

interpretation as_ad: serial_search
  "\<lambda>d st. sequences_argument_admissible_from d eng af x (fst st)"
  "\<lambda>st. if hit x (snd st) \<or> lost af x (snd st) then [] else init_sets eng af (fst st)"
  "\<lambda>st S. (after af (fst st) S, snd st @ [S])" "\<lambda>st. hit x (snd st)" emit
  "\<lambda>st seq. env_ok eng af \<and> live af (fst st) \<and> seq = snd st \<and>
     (\<forall>S \<in> set seq. conflict_free (attacks af) (set S) \<and> (\<forall>a \<in> set S. a < args af))"
  "\<lambda>st. length (bs_array (fst st))"
  for eng af x
proof (unfold_locales, goal_cases)
  case (1 st seq d)
  let ?act = "fst st"
  let ?run = "\<lambda>S. sequences_argument_admissible_from d eng af x (after af ?act S) (seq @ [S])"
  have red: "get_reduct af ?act S = Ok (after af ?act S)" if "S \<in> set (init_sets eng af ?act)" for S
    using search_step(1) 1 that by blast
  have "rfold (\<lambda>S (u :: unit, out). rbind (get_reduct af ?act S) (\<lambda>act'.
          rbind (sequences_argument_admissible_from d eng af x act' (seq @ [S]))
            (\<lambda>printed. Ok ((), out @ printed)))) (init_sets eng af ?act) ((), [])
      = rbind (rconcat (map ?run (init_sets eng af ?act)) [])
          (\<lambda>out. Ok (fold (\<lambda>x u. ()) (init_sets eng af ?act) (), [] @ out))"
    by (intro rfold_rconcat) (simp add: case_prod_unfold red)
  moreover have "scan_last af x seq = Ok (hit x seq, \<not> hit x seq \<and> lost af x seq)"
    using 1 by (intro scan_last_ok) (auto simp: env_ok_def)
  ultimately show ?case
    using 1 init_sets_ok(1) by (simp add: rbind_assoc)
next
  case (2 st seq S)
  then have S: "S \<in> set (init_sets eng af (fst st))" by (simp split: if_splits)
  then have "set S \<subseteq> set (bs_array (fst st))" "conflict_free (attacks af) (set S)"
    using 2 init_sets_initial [of eng af "fst st" S] by (auto dest!: initial_adm adm_conflict_free)
  then show ?case
    using 2 search_step(2) [OF _ _ S] wf_active_bound [of af "fst st"] by auto
next
  case (3 st seq S)
  then show ?case using search_step(3) [of eng af "fst st" S] by (simp split: if_splits)
next
  case (4 st seq)
  then show ?case using init_sets_ok(2) by simp
qed

end
