(* ===== verification/Sequence_Correct.thy ===== *)
theory Sequence_Correct
  imports Sequences
begin

text \<open>
  What the enumerators of the theory \<open>Sequences\<close> print, in terms of the semantics of the theory
  \<open>Argumentation\<close>.

  The first part describes the output without any restriction on the framework: the search
  goes through the sequences of an abstract search whose state is the pair of the active
  arguments and the phantoms, the inactive arguments that \<open>get_reduct\<close> leaves marked. The
  second part shows that no phantom arises in frameworks in which two arguments that can be
  accepted together never attack the same argument, and that the enumerators there print
  exactly the serialisation sequences of their semantics. The third part shows what remains
  true without the restriction, and that the restriction cannot be dropped.
\<close>

section \<open>The abstract search\<close>

definition marks :: "AF \<Rightarrow> IterableBitSet \<Rightarrow> nat set \<times> nat set" where
  "marks af act = (set (bs_array act), phantoms af act)"

definition advance :: "('a \<Rightarrow> 'a \<Rightarrow> bool) \<Rightarrow> 'a set \<times> 'a set \<Rightarrow> 'a set \<Rightarrow> 'a set \<times> 'a set" where
  "advance att V S = (reduct att (fst V) S, {b. \<exists>a \<in> S. att a b} - fst V)"

definition next_initial :: "('a \<Rightarrow> 'a \<Rightarrow> bool) \<Rightarrow> 'a set \<times> 'a set \<Rightarrow> 'a set \<Rightarrow> bool" where
  "next_initial att V S \<longleftrightarrow> initial_in att (fst V) (snd V) S"

definition next_free :: "('a \<Rightarrow> 'a \<Rightarrow> bool) \<Rightarrow> 'a set \<times> 'a set \<Rightarrow> 'a set \<Rightarrow> bool" where
  "next_free att V S \<longleftrightarrow> (\<exists>a \<in> fst V. S = {a} \<and> \<not> (\<exists>b \<in> fst V \<union> snd V. att b a))"

definition next_unchallenged :: "('a \<Rightarrow> 'a \<Rightarrow> bool) \<Rightarrow> 'a set \<times> 'a set \<Rightarrow> 'a set \<Rightarrow> bool" where
  "next_unchallenged att V S \<longleftrightarrow> next_initial att V S \<and>
     \<not> (\<exists>T. next_initial att V T \<and> (\<exists>b \<in> T. \<exists>a \<in> S. att b a))"

lemma marks_all_active: "marks af (all_active af) = ({..<args af}, {})"
  using consistent_all_active by (auto simp: marks_def consistent_iff) (simp_all add: all_active_def)

lemma marks_after:
  assumes "wf_af af" "live af act" "set S \<subseteq> set (bs_array act)"
  shows "marks af (after af act S) = advance (attacks af) (marks af act) (set S)"
  using after_ok(4,5) [of af act S] assms by (auto simp: marks_def advance_def)

lemma init_sets_view:
  assumes "env_ok eng af" "live af act"
  shows "set ` set (init_sets eng af act) = {S. next_initial (attacks af) (marks af act) S}"
    "S \<in> set (init_sets eng af act) \<Longrightarrow> sorted_list_of_set (set S) = S"
    "S \<in> set (init_sets eng af act) \<Longrightarrow>
       marks af (after af act S) = advance (attacks af) (marks af act) (set S)"
proof -
  have wf: "wf_active af act" "sorted (bs_array act)" using assms(2) by (simp_all add: live_def)
  show "set ` set (init_sets eng af act) = {S. next_initial (attacks af) (marks af act) S}"
    using init_sets_ok(3) [OF assms(1) wf(1)] by (simp add: next_initial_def marks_def)
  assume S: "S \<in> set (init_sets eng af act)"
  have "sorted (as_list act (set S))" "distinct (as_list act (set S))"
    using wf wf_active_distinct by (simp_all add: as_list_def sorted_wrt_filter)
  then have "sorted S" "distinct S" using init_sets_ok(4) [OF assms(1) wf(1) S] by simp_all
  then show "sorted_list_of_set (set S) = S" by (simp add: sorted_list_of_set.idem_if_sorted_distinct)
  show "marks af (after af act S) = advance (attacks af) (marks af act) (set S)"
    using marks_after init_sets_initial(2) [OF assms(1) wf(1) S] assms by (simp add: env_ok_def)
qed

lemma no_init_sets:
  assumes "env_ok eng af" "live af act"
  shows "init_sets eng af act = [] \<longleftrightarrow> \<not> (\<exists>S. next_initial (attacks af) (marks af act) S)"
  using init_sets_view(1) [OF assms] by (metis Collect_empty_eq image_is_empty set_empty)

interpretation ad: set_search
  "\<lambda>d. enumerate_sequences_admissible_from d eng af pref"
  "init_sets eng af" "after af" "\<lambda>act. \<not> pref \<or> init_sets eng af act = []" emit
  "\<lambda>act seq. env_ok eng af \<and> live af act" "\<lambda>act. length (bs_array act)"
  "marks af" "next_initial (attacks af)" "advance (attacks af)"
  "\<lambda>V. \<not> pref \<or> \<not> (\<exists>S. next_initial (attacks af) V S)"
  for eng af pref
  by unfold_locales (use init_sets_view no_init_sets in auto)


lemma free_singletons_view:
  assumes "env_ok eng af" "live af act"
  shows "(\<exists>S \<in> set (init_sets eng af act). free_singleton af act S) \<longleftrightarrow>
    (\<exists>S. next_free (attacks af) (marks af act) S)"
proof
  assume "\<exists>S \<in> set (init_sets eng af act). free_singleton af act S"
  then obtain S where S: "S \<in> set (init_sets eng af act)" "free_singleton af act S" by blast
  then obtain a where "S = [a]" by (auto simp: free_singleton_def length_Suc_conv)
  then have "a \<in> set (bs_array act)" "\<not> (\<exists>b \<in> set (bs_array act) \<union> phantoms af act. attacks af b a)"
    using init_sets_initial(2) [OF assms(1) _ S(1)] assms(2) S(2) by (auto simp: free_singleton_def)
  then show "\<exists>S. next_free (attacks af) (marks af act) S"
    by (auto simp: next_free_def marks_def)
next
  assume "\<exists>S. next_free (attacks af) (marks af act) S"
  then obtain a where a: "a \<in> set (bs_array act)"
    "\<not> (\<exists>b \<in> set (bs_array act) \<union> phantoms af act. attacks af b a)"
    by (auto simp: next_free_def marks_def)
  then have "next_initial (attacks af) (marks af act) {a}"
    by (auto simp: next_initial_def marks_def initial_in_def adm_in_def conflict_free_def)
  then obtain S where S: "S \<in> set (init_sets eng af act)" "set S = {a}"
    using init_sets_view(1) [OF assms] by (metis (mono_tags, lifting) imageE mem_Collect_eq)
  then have "S = [a]" using init_sets_view(2) [OF assms S(1)] by simp
  then show "\<exists>S \<in> set (init_sets eng af act). free_singleton af act S"
    using S(1) a by (intro bexI [of _ S]) (auto simp: free_singleton_def)
qed

interpretation co: set_search
  "\<lambda>d. enumerate_sequences_complete_from d eng af"
  "init_sets eng af" "after af"
  "\<lambda>act. \<not> (\<exists>S \<in> set (init_sets eng af act). free_singleton af act S)" emit
  "\<lambda>act seq. env_ok eng af \<and> live af act" "\<lambda>act. length (bs_array act)"
  "marks af" "next_initial (attacks af)" "advance (attacks af)"
  "\<lambda>V. \<not> (\<exists>S. next_free (attacks af) V S)"
  for eng af
  by unfold_locales (simp_all add: init_sets_view(1) free_singletons_view,
    (use init_sets_view(2,3) in blast)+)

interpretation st: set_search
  "\<lambda>d. enumerate_sequences_stable_from d eng af"
  "init_sets eng af" "after af" "\<lambda>act. bs_array act = []" emit
  "\<lambda>act seq. env_ok eng af \<and> live af act" "\<lambda>act. length (bs_array act)"
  "marks af" "next_initial (attacks af)" "advance (attacks af)" "\<lambda>V. fst V = {}"
  for eng af
  by unfold_locales (use init_sets_view in \<open>auto simp: marks_def\<close>)

lemma free_args_view:
  assumes "wf_af af" "live af act"
  shows "set ` set (map (\<lambda>a. [a]) (free_args af act)) = {S. next_free (attacks af) (marks af act) S}"
    "S \<in> set (map (\<lambda>a. [a]) (free_args af act)) \<Longrightarrow>
       marks af (after af act S) = advance (attacks af) (marks af act) (set S)"
proof -
  show "set ` set (map (\<lambda>a. [a]) (free_args af act)) = {S. next_free (attacks af) (marks af act) S}"
    by (auto simp: free_args_def next_free_def marks_def image_iff)
  show "S \<in> set (map (\<lambda>a. [a]) (free_args af act)) \<Longrightarrow>
      marks af (after af act S) = advance (attacks af) (marks af act) (set S)"
    using marks_after [OF assms, of S] by (auto simp: free_args_def)
qed

interpretation gr: set_search
  "\<lambda>d. enumerate_sequences_strong_admissible_from d af grounded"
  "\<lambda>act. map (\<lambda>a. [a]) (free_args af act)" "after af"
  "\<lambda>act. \<not> grounded \<or> free_args af act = []" emit
  "\<lambda>act seq. wf_af af \<and> live af act" "\<lambda>act. length (bs_array act)"
  "marks af" "next_free (attacks af)" "advance (attacks af)"
  "\<lambda>V. \<not> grounded \<or> \<not> (\<exists>S. next_free (attacks af) V S)"
  for af grounded
proof (unfold_locales, goal_cases)
  case (2 act seq S)
  then show ?case by auto
next
  case (4 act seq)
  then show ?case
    using free_args_view(1) [of af act] by (metis Collect_empty_eq image_is_empty set_empty map_is_Nil_conv)
qed (simp_all add: free_args_view del: set_map)

lemma free_sets_view:
  assumes "env_ok eng af" "live af act"
  shows "set ` set (free_sets eng af act) = {S. next_unchallenged (attacks af) (marks af act) S}"
proof -
  note v = init_sets_view(1) [OF assms]
  have ch: "challenged eng af act S \<longleftrightarrow>
      (\<exists>T \<in> set ` set (init_sets eng af act). \<exists>b \<in> T. \<exists>a \<in> set S. attacks af b a)" for S
    by (auto simp: challenged_def)
  have "set ` set (free_sets eng af act) =
      {S \<in> set ` set (init_sets eng af act).
        \<not> (\<exists>T \<in> set ` set (init_sets eng af act). \<exists>b \<in> T. \<exists>a \<in> S. attacks af b a)}"
    unfolding free_sets_def set_filter ch by blast
  then show ?thesis by (auto simp: v next_unchallenged_def)
qed

interpretation uc: set_search
  "\<lambda>d. enumerate_sequences_unchallenged_from d eng af maximal"
  "free_sets eng af" "after af" "\<lambda>act. \<not> maximal \<or> free_sets eng af act = []" emit
  "\<lambda>act seq. env_ok eng af \<and> live af act" "\<lambda>act. length (bs_array act)"
  "marks af" "next_unchallenged (attacks af)" "advance (attacks af)"
  "\<lambda>V. \<not> maximal \<or> \<not> (\<exists>S. next_unchallenged (attacks af) V S)"
  for eng af maximal
proof (unfold_locales, goal_cases)
  case (4 act seq)
  then show ?case
    using free_sets_view [of eng af act] by (metis Collect_empty_eq image_is_empty set_empty)
qed (use init_sets_view free_sets_view in \<open>auto simp: free_sets_def\<close>)

definition hits :: "'a \<Rightarrow> 'a set list \<Rightarrow> bool" where
  "hits x Ss \<longleftrightarrow> Ss \<noteq> [] \<and> x \<in> last Ss"

definition loses :: "('a \<Rightarrow> 'a \<Rightarrow> bool) \<Rightarrow> 'a \<Rightarrow> 'a set list \<Rightarrow> bool" where
  "loses att x Ss \<longleftrightarrow> Ss \<noteq> [] \<and> (\<exists>a \<in> last Ss. att a x)"

lemma hits_map: "hits x (map set seq) \<longleftrightarrow> hit x seq"
  by (auto simp: hits_def hit_def last_map)

lemma loses_map: "loses (attacks af) x (map set seq) \<longleftrightarrow> lost af x seq"
  by (auto simp: loses_def lost_def last_map)

interpretation arg: set_search
  "\<lambda>d st. sequences_argument_admissible_from d eng af x (fst st)"
  "\<lambda>st. if hit x (snd st) \<or> lost af x (snd st) then [] else init_sets eng af (fst st)"
  "\<lambda>st S. (after af (fst st) S, snd st @ [S])" "\<lambda>st. hit x (snd st)" emit
  "\<lambda>st seq. env_ok eng af \<and> live af (fst st) \<and> seq = snd st \<and>
     (\<forall>S \<in> set seq. conflict_free (attacks af) (set S) \<and> (\<forall>a \<in> set S. a < args af))"
  "\<lambda>st. length (bs_array (fst st))"
  "\<lambda>st. (marks af (fst st), map set (snd st))"
  "\<lambda>V S. \<not> hits x (snd V) \<and> \<not> loses (attacks af) x (snd V) \<and> next_initial (attacks af) (fst V) S"
  "\<lambda>V S. (advance (attacks af) (fst V) S, snd V @ [S])" "\<lambda>V. hits x (snd V)"
  for eng af x
proof (unfold_locales, goal_cases)
  case (2 st seq S)
  then show ?case using init_sets_view(2) by (simp split: if_splits)
next
  case (3 st seq S)
  then show ?case using init_sets_view(3) by (simp split: if_splits)
qed (auto simp: hits_map loses_map init_sets_view(1))

section \<open>Frameworks without shared targets\<close>

text \<open>
  Two different arguments that attack the same argument are in conflict with each other or
  with themselves.
\<close>

definition no_shared_target :: "AF \<Rightarrow> bool" where
  "no_shared_target af \<longleftrightarrow> list_all (\<lambda>c. list_all (\<lambda>a. list_all (\<lambda>b.
     a = b \<or> attacks af a b \<or> attacks af b a \<or> attacks af a a \<or> attacks af b b)
     (attackers af ! c)) (attackers af ! c)) [0..<args af]"

lemma no_shared_targetD:
  assumes "wf_af af" "no_shared_target af" "conflict_free (attacks af) E" "a \<in> E" "b \<in> E"
    "attacks af a c" "attacks af b c"
  shows "a = b"
proof -
  have "c < args af" using assms(1,6) attacks_bound by blast
  then have "a = b \<or> attacks af a b \<or> attacks af b a \<or> attacks af a a \<or> attacks af b b"
    using assms(1,2,6,7) unfolding no_shared_target_def list_all_iff
    by (simp add: attackers_iff)
  then show ?thesis using assms(3-5) by (auto simp: conflict_free_def)
qed

abbreviation arguments :: "AF \<Rightarrow> nat set" where
  "arguments af \<equiv> {..<args af}"

lemma advance_clean:
  assumes "wf_af af" "no_shared_target af" "adm (attacks af) (arguments af) U"
    and S: "adm (attacks af) (reduct (attacks af) (arguments af) U) S"
  shows "advance (attacks af) (reduct (attacks af) (arguments af) U, {}) S =
    (reduct (attacks af) (arguments af) (U \<union> S), {})"
proof -
  have "adm (attacks af) (arguments af) (U \<union> S)" using adm_Un assms(3) S by blast
  then have cf: "conflict_free (attacks af) (U \<union> S)" by (rule adm_conflict_free)
  have "c \<in> reduct (attacks af) (arguments af) U" if "a \<in> S" "attacks af a c" for a c
  proof -
    have "\<not> attacks af u c" if "u \<in> U" for u
    proof
      assume "attacks af u c"
      then have "a = u"
        using no_shared_targetD [OF assms(1,2) cf, of a u c] \<open>a \<in> S\<close> \<open>attacks af a c\<close> that by simp
      then show False using adm_subset [OF S] \<open>a \<in> S\<close> that by (auto simp: reduct_def)
    qed
    moreover have "c \<notin> U" using cf that by (auto simp: conflict_free_def)
    ultimately show ?thesis
      using attacks_bound [OF assms(1) \<open>attacks af a c\<close>] by (auto simp: reduct_def)
  qed
  then show ?thesis by (auto simp: advance_def reduct_reduct)
qed

lemma walk_clean:
  assumes wf: "wf_af af" "no_shared_target af"
    and ok: "\<And>A S. ok (A, {}) S \<longleftrightarrow> good A S" and good: "\<And>A S. good A S \<Longrightarrow> adm (attacks af) A S"
    and U: "adm (attacks af) (arguments af) U"
  shows "walk ok (advance (attacks af)) (reduct (attacks af) (arguments af) U, {}) Ss \<longleftrightarrow>
      walk good (reduct (attacks af)) (reduct (attacks af) (arguments af) U) Ss"
    and "walk good (reduct (attacks af)) (reduct (attacks af) (arguments af) U) Ss \<Longrightarrow>
      foldl (advance (attacks af)) (reduct (attacks af) (arguments af) U, {}) Ss =
        (reduct (attacks af) (arguments af) (U \<union> \<Union> (set Ss)), {})"
  using U
proof (induction Ss arbitrary: U)
  case (Cons S Ss)
  let ?r = "reduct (attacks af)"
  {
    case 1
    show ?case
    proof (cases "good (?r (arguments af) U) S")
      case True
      then have S: "adm (attacks af) (?r (arguments af) U) S" by (rule good)
      note Un = adm_Un [OF 1 S]
      show ?thesis
        using Cons.IH(1) [OF Un] True by (simp add: ok advance_clean [OF wf 1 S] reduct_reduct)
    qed (simp add: ok)
  next
    case 2
    then have S: "adm (attacks af) (?r (arguments af) U) S" by (auto intro: good)
    note Un = adm_Un [OF 2(2) S]
    show ?case
      using Cons.IH(2) [OF _ Un] 2(1) by (simp add: advance_clean [OF wf 2(2) S] reduct_reduct Un_assoc)
  }
qed simp_all

lemma ser_walk: "walk (initial att) (reduct att) A Ss \<longleftrightarrow> ser att A Ss"
  by (induction Ss arbitrary: A) auto

lemma ucser_walk: "walk (unchallenged att) (reduct att) A Ss \<longleftrightarrow> ucser att A Ss"
  by (induction Ss arbitrary: A) auto

lemma gser_walk:
  "walk (\<lambda>A S. \<exists>a. S = {a} \<and> unattacked att A a) (reduct att) A Ss \<longleftrightarrow>
     (\<exists>as. Ss = map (\<lambda>a. {a}) as \<and> gser att A as)"
proof (induction Ss arbitrary: A)
  case (Cons S Ss)
  show ?case
  proof
    assume "walk (\<lambda>A S. \<exists>a. S = {a} \<and> unattacked att A a) (reduct att) A (S # Ss)"
    then obtain a as where "S = {a}" "unattacked att A a" "Ss = map (\<lambda>a. {a}) as"
      "gser att (reduct att A {a}) as" using Cons.IH by auto
    then show "\<exists>as. S # Ss = map (\<lambda>a. {a}) as \<and> gser att A as"
      by (intro exI [of _ "a # as"]) simp
  qed (use Cons.IH in \<open>auto simp: Cons_eq_map_conv\<close>)
qed simp

lemma next_clean:
  "next_initial att (A, {}) S \<longleftrightarrow> initial att A S"
  "next_free att (A, {}) S \<longleftrightarrow> (\<exists>a. S = {a} \<and> unattacked att A a)"
  "next_unchallenged att (A, {}) S \<longleftrightarrow> unchallenged att A S"
  by (auto simp: next_initial_def next_free_def unattacked_def next_unchallenged_def unchallenged_def)

text \<open>The sequences of the search over all arguments, with the set that is left at the end.\<close>

lemma ser_clean:
  assumes "wf_af af" "no_shared_target af"
  shows "walk (next_initial (attacks af)) (advance (attacks af)) (marks af (all_active af)) Ss \<longleftrightarrow>
      ser (attacks af) (arguments af) Ss"
    and "ser (attacks af) (arguments af) Ss \<Longrightarrow>
      foldl (advance (attacks af)) (marks af (all_active af)) Ss =
        (reduct (attacks af) (arguments af) (\<Union> (set Ss)), {})"
  using walk_clean [OF assms, of "next_initial (attacks af)" "initial (attacks af)" "{}" Ss]
  by (simp_all add: marks_all_active next_clean initial_adm ser_walk)

lemma ucser_clean:
  assumes "wf_af af" "no_shared_target af"
  shows "walk (next_unchallenged (attacks af)) (advance (attacks af)) (marks af (all_active af)) Ss \<longleftrightarrow>
      ucser (attacks af) (arguments af) Ss"
    and "ucser (attacks af) (arguments af) Ss \<Longrightarrow>
      foldl (advance (attacks af)) (marks af (all_active af)) Ss =
        (reduct (attacks af) (arguments af) (\<Union> (set Ss)), {})"
  using walk_clean [OF assms, of "next_unchallenged (attacks af)" "unchallenged (attacks af)" "{}" Ss]
  by (simp_all add: marks_all_active next_clean unchallenged_def initial_adm ucser_walk)

lemma gser_clean:
  assumes "wf_af af" "no_shared_target af"
  shows "walk (next_free (attacks af)) (advance (attacks af)) (marks af (all_active af)) Ss \<longleftrightarrow>
      (\<exists>as. Ss = map (\<lambda>a. {a}) as \<and> gser (attacks af) (arguments af) as)"
    and "gser (attacks af) (arguments af) as \<Longrightarrow>
      foldl (advance (attacks af)) (marks af (all_active af)) (map (\<lambda>a. {a}) as) =
        (reduct (attacks af) (arguments af) (set as), {})"
proof -
  let ?good = "\<lambda>A S. \<exists>a. S = {a} \<and> unattacked (attacks af) A a"
  have "adm (attacks af) A S" if "?good A S" for A S
    using that by (auto intro: initial_adm unattacked_initial)
  note w = walk_clean [OF assms, of "next_free (attacks af)" ?good "{}", OF _ this]
  show walk: "walk (next_free (attacks af)) (advance (attacks af)) (marks af (all_active af)) Ss \<longleftrightarrow>
      (\<exists>as. Ss = map (\<lambda>a. {a}) as \<and> gser (attacks af) (arguments af) as)"
    using w(1) [of Ss] by (simp add: marks_all_active next_clean gser_walk)
  assume "gser (attacks af) (arguments af) as"
  then have "walk ?good (reduct (attacks af)) (arguments af) (map (\<lambda>a. {a}) as)"
    by (auto simp: gser_walk)
  then show "foldl (advance (attacks af)) (marks af (all_active af)) (map (\<lambda>a. {a}) as) =
        (reduct (attacks af) (arguments af) (set as), {})"
    using w(2) [of "map (\<lambda>a. {a}) as"] by (simp add: marks_all_active next_clean)
qed

lemma ser_unions:
  assumes "finite A"
  shows "(\<lambda>Ss. \<Union> (set Ss)) ` {Ss. ser att A Ss \<and> Q (\<Union> (set Ss))} = {E. adm att A E \<and> Q E}"
proof (intro equalityI subsetI)
  fix E assume "E \<in> {E. adm att A E \<and> Q E}"
  then have "adm att A E" "Q E" by simp_all
  moreover have "finite E" using adm_subset [OF \<open>adm att A E\<close>] assms finite_subset by blast
  ultimately obtain Ss where "ser att A Ss" "\<Union> (set Ss) = E" using adm_ser by blast
  then show "E \<in> (\<lambda>Ss. \<Union> (set Ss)) ` {Ss. ser att A Ss \<and> Q (\<Union> (set Ss))}"
    using \<open>Q E\<close> by blast
qed (auto intro: ser_adm)

section \<open>Each enumerator prints the sequences of its semantics\<close>

lemma start_ok:
  "wf_af af \<Longrightarrow> live af (all_active af)"
  "length (bs_array (all_active af)) < Suc (length (bs_array (all_active af)))"
  by (simp_all add: live_all_active)

lemma loop_clean: "no_shared_target loop_af"
  by code_simp

lemmas loop_facts = loop_wf loop_clean

lemma loop_env: "env_ok ref_engine loop_af"
  using loop_wf by (simp add: env_ok_def engine_ok_ref engine_decides_ref)

lemma env_wf: "env_ok eng af \<Longrightarrow> wf_af af"
  by (simp add: env_ok_def)

text \<open>
  The output of each enumerator in terms of the abstract search, for every framework and every
  set of active arguments.
\<close>

lemma admissible_prints:
  assumes "env_ok eng af" "live af act"
  shows "\<exists>out. enumerate_sequences_admissible eng af act preferred = Ok out \<and>
    prints_exactly emit out {Ss.
      walk (next_initial (attacks af)) (advance (attacks af)) (marks af act) Ss \<and>
      (\<not> preferred \<or> \<not> (\<exists>S. next_initial (attacks af)
         (foldl (advance (attacks af)) (marks af act) Ss) S))}"
  unfolding enumerate_sequences_admissible_def by (rule ad.run_prints) (use assms in simp_all)

lemma complete_prints:
  assumes "env_ok eng af" "live af act"
  shows "\<exists>out. enumerate_sequences_complete eng af act = Ok out \<and>
    prints_exactly emit out {Ss.
      walk (next_initial (attacks af)) (advance (attacks af)) (marks af act) Ss \<and>
      \<not> (\<exists>S. next_free (attacks af) (foldl (advance (attacks af)) (marks af act) Ss) S)}"
  unfolding enumerate_sequences_complete_def by (rule co.run_prints) (use assms in simp_all)

lemma stable_prints:
  assumes "env_ok eng af" "live af act"
  shows "\<exists>out. enumerate_sequences_stable eng af act = Ok out \<and>
    prints_exactly emit out {Ss.
      walk (next_initial (attacks af)) (advance (attacks af)) (marks af act) Ss \<and>
      fst (foldl (advance (attacks af)) (marks af act) Ss) = {}}"
  unfolding enumerate_sequences_stable_def by (rule st.run_prints) (use assms in simp_all)

lemma strong_admissible_prints:
  assumes "wf_af af" "live af act"
  shows "\<exists>out. enumerate_sequences_strong_admissible af act grounded = Ok out \<and>
    prints_exactly emit out {Ss.
      walk (next_free (attacks af)) (advance (attacks af)) (marks af act) Ss \<and>
      (\<not> grounded \<or> \<not> (\<exists>S. next_free (attacks af)
         (foldl (advance (attacks af)) (marks af act) Ss) S))}"
  unfolding enumerate_sequences_strong_admissible_def by (rule gr.run_prints) (use assms in simp_all)

lemma unchallenged_prints:
  assumes "env_ok eng af" "live af act"
  shows "\<exists>out. enumerate_sequences_unchallenged eng af act maximal = Ok out \<and>
    prints_exactly emit out {Ss.
      walk (next_unchallenged (attacks af)) (advance (attacks af)) (marks af act) Ss \<and>
      (\<not> maximal \<or> \<not> (\<exists>S. next_unchallenged (attacks af)
         (foldl (advance (attacks af)) (marks af act) Ss) S))}"
  unfolding enumerate_sequences_unchallenged_def by (rule uc.run_prints) (use assms in simp_all)

abbreviation arg_ok :: "('a \<Rightarrow> 'a \<Rightarrow> bool) \<Rightarrow> 'a \<Rightarrow> ('a set \<times> 'a set) \<times> 'a set list \<Rightarrow> 'a set \<Rightarrow> bool" where
  "arg_ok att x V S \<equiv> \<not> hits x (snd V) \<and> \<not> loses att x (snd V) \<and> next_initial att (fst V) S"

abbreviation arg_step ::
    "('a \<Rightarrow> 'a \<Rightarrow> bool) \<Rightarrow> ('a set \<times> 'a set) \<times> 'a set list \<Rightarrow> 'a set \<Rightarrow> ('a set \<times> 'a set) \<times> 'a set list" where
  "arg_step att V S \<equiv> (advance att (fst V) S, snd V @ [S])"

lemma argument_prints:
  assumes "env_ok eng af" "live af act"
  shows "\<exists>out. sequences_argument_admissible eng af act x = Ok out \<and>
    prints_exactly emit out {Ss.
      walk (arg_ok (attacks af) x) (arg_step (attacks af)) (marks af act, []) Ss \<and>
      hits x (snd (foldl (arg_step (attacks af)) (marks af act, []) Ss))}"
  using arg.run_prints [of eng af "(act, [])" "Suc (length (bs_array act))" x] assms
  unfolding sequences_argument_admissible_def fst_conv snd_conv list.map by simp

text \<open>
  C8. Termination and absence of errors, for every framework: started on any well-formed set of
  active arguments, each of the six enumerators ends and returns its output. No index is out
  of range, the solver's contract is kept, and the recursion is never deeper than the number of
  active arguments.
\<close>

theorem enumerators_return:
  assumes "env_ok eng af" "live af act"
  shows "(\<exists>out. enumerate_sequences_admissible eng af act pref = Ok out) \<and>
    (\<exists>out. enumerate_sequences_complete eng af act = Ok out) \<and>
    (\<exists>out. enumerate_sequences_stable eng af act = Ok out) \<and>
    (\<exists>out. enumerate_sequences_strong_admissible af act grounded = Ok out) \<and>
    (\<exists>out. enumerate_sequences_unchallenged eng af act maximal = Ok out) \<and>
    (\<exists>out. sequences_argument_admissible eng af act x = Ok out)"
  using admissible_prints [OF assms] complete_prints [OF assms] stable_prints [OF assms]
    strong_admissible_prints [OF env_wf [OF assms(1)] assms(2)] unchallenged_prints [OF assms]
    argument_prints [OF assms]
  by (intro conjI) blast+

theorem enumerators_return_witness:
  "env_ok ref_engine loop_af \<and> live loop_af (all_active loop_af) \<and>
   (\<exists>out. enumerate_sequences_admissible ref_engine loop_af (all_active loop_af) True = Ok out) \<and>
   (\<exists>out. sequences_argument_admissible ref_engine loop_af (all_active loop_af) 2 = Ok out)"
  using enumerators_return [OF loop_env live_all_active] loop_env live_all_active by simp

text \<open>
  C9. The exact output of \<open>ES-AD\<close> and \<open>ES-PR\<close> for every framework and every set of active
  arguments: each sequence of the abstract search is printed exactly once, for \<open>ES-PR\<close> only
  those that cannot be continued. A step of the abstract search takes a minimal non-empty set
  that is admissible if phantoms count as defenders.
\<close>

theorem admissible_any:
  assumes "env_ok eng af" "live af act"
  shows "\<exists>out. enumerate_sequences_admissible eng af act preferred = Ok out \<and>
    prints_exactly emit out {Ss.
      walk (next_initial (attacks af)) (advance (attacks af)) (marks af act) Ss \<and>
      (preferred \<longrightarrow> \<not> (\<exists>S. next_initial (attacks af)
         (foldl (advance (attacks af)) (marks af act) Ss) S))}"
  unfolding imp_conv_disj by (rule admissible_prints [OF assms])

theorem admissible_any_witness:
  "env_ok ref_engine loop_af \<and> live loop_af (all_active loop_af) \<and>
   (\<exists>out. enumerate_sequences_admissible ref_engine loop_af (all_active loop_af) True = Ok out \<and>
    prints_exactly emit out {Ss. walk (next_initial (attacks loop_af)) (advance (attacks loop_af))
        (marks loop_af (all_active loop_af)) Ss \<and>
      \<not> (\<exists>S. next_initial (attacks loop_af) (foldl (advance (attacks loop_af))
        (marks loop_af (all_active loop_af)) Ss) S)})"
  using admissible_any [OF loop_env live_all_active, of True] loop_env live_all_active by simp

lemma admissible_out:
  assumes "env_ok eng af" "no_shared_target af"
  shows "\<exists>out. enumerate_sequences_admissible eng af (all_active af) False = Ok out \<and>
    prints_exactly emit out {Ss. ser (attacks af) (arguments af) Ss}"
  using admissible_prints [OF assms(1) live_all_active, of False]
  by (simp add: ser_clean [OF env_wf [OF assms(1)] assms(2)])

text \<open>
  C1. \<open>ES-AD\<close> on a framework without shared targets prints exactly the serialisation sequences,
  each once, and their unions are exactly the admissible sets.
\<close>

theorem admissible_correct:
  assumes "env_ok eng af" "no_shared_target af"
  shows "\<exists>out. enumerate_sequences_admissible eng af (all_active af) False = Ok out \<and>
    prints_exactly emit out {Ss. ser (attacks af) (arguments af) Ss} \<and>
    (\<lambda>Ss. \<Union> (set Ss)) ` {Ss. ser (attacks af) (arguments af) Ss} =
      {E. adm (attacks af) (arguments af) E}"
  using admissible_out [OF assms] ser_unions [of "arguments af" "attacks af" "\<lambda>_. True"] by simp

theorem admissible_correct_witness:
  "env_ok ref_engine loop_af \<and> no_shared_target loop_af \<and>
   (\<exists>out. enumerate_sequences_admissible ref_engine loop_af (all_active loop_af) False = Ok out \<and>
    prints_exactly emit out {Ss. ser (attacks loop_af) (arguments loop_af) Ss} \<and>
    (\<lambda>Ss. \<Union> (set Ss)) ` {Ss. ser (attacks loop_af) (arguments loop_af) Ss} =
      {E. adm (attacks loop_af) (arguments loop_af) E})"
  by (intro conjI loop_env loop_facts admissible_correct)

lemma seq_set_cong:
  "(\<And>Ss. P Ss \<Longrightarrow> Q Ss \<longleftrightarrow> R Ss) \<Longrightarrow> {Ss. P Ss \<and> Q Ss} = {Ss. P Ss \<and> R Ss}"
  by blast

lemma preferred_out:
  assumes "env_ok eng af" "no_shared_target af"
  shows "\<exists>out. enumerate_sequences_admissible eng af (all_active af) True = Ok out \<and>
    prints_exactly emit out {Ss. ser (attacks af) (arguments af) Ss \<and>
      preferred_ext (attacks af) (arguments af) (\<Union> (set Ss))} \<and>
    (\<lambda>Ss. \<Union> (set Ss)) ` {Ss. ser (attacks af) (arguments af) Ss \<and>
      preferred_ext (attacks af) (arguments af) (\<Union> (set Ss))} =
      {E. preferred_ext (attacks af) (arguments af) E}"
proof -
  note clean = ser_clean [OF env_wf [OF assms(1)] assms(2)]
  have "{Ss. ser (attacks af) (arguments af) Ss \<and> \<not> (\<exists>S. next_initial (attacks af)
        (foldl (advance (attacks af)) (marks af (all_active af)) Ss) S)} =
      {Ss. ser (attacks af) (arguments af) Ss \<and> preferred_ext (attacks af) (arguments af) (\<Union> (set Ss))}"
    by (rule seq_set_cong) (simp add: clean next_clean preferred_iff_no_initial ser_adm)
  moreover have "{E. adm (attacks af) (arguments af) E \<and> preferred_ext (attacks af) (arguments af) E} =
      {E. preferred_ext (attacks af) (arguments af) E}" by (auto simp: preferred_ext_def)
  ultimately show ?thesis
    using admissible_prints [OF assms(1) live_all_active, of True]
      ser_unions [of "arguments af" "attacks af" "preferred_ext (attacks af) (arguments af)"]
    by (simp add: clean)
qed

text \<open>
  C2. \<open>ES-PR\<close> on a framework without shared targets prints exactly the serialisation sequences of
  the preferred extensions, each once, and every preferred extension has one.
\<close>

theorem preferred_correct:
  assumes "env_ok eng af" "no_shared_target af"
  shows "\<exists>out. enumerate_sequences_admissible eng af (all_active af) True = Ok out \<and>
    prints_exactly emit out {Ss. ser (attacks af) (arguments af) Ss \<and>
      preferred_ext (attacks af) (arguments af) (\<Union> (set Ss))} \<and>
    (\<lambda>Ss. \<Union> (set Ss)) ` {Ss. ser (attacks af) (arguments af) Ss \<and>
      preferred_ext (attacks af) (arguments af) (\<Union> (set Ss))} =
      {E. preferred_ext (attacks af) (arguments af) E}"
  by (rule preferred_out [OF assms])

theorem preferred_correct_witness:
  "env_ok ref_engine loop_af \<and> no_shared_target loop_af \<and>
   (\<exists>out. enumerate_sequences_admissible ref_engine loop_af (all_active loop_af) True = Ok out \<and>
    prints_exactly emit out {Ss. ser (attacks loop_af) (arguments loop_af) Ss \<and>
      preferred_ext (attacks loop_af) (arguments loop_af) (\<Union> (set Ss))} \<and>
    (\<lambda>Ss. \<Union> (set Ss)) ` {Ss. ser (attacks loop_af) (arguments loop_af) Ss \<and>
      preferred_ext (attacks loop_af) (arguments loop_af) (\<Union> (set Ss))} =
      {E. preferred_ext (attacks loop_af) (arguments loop_af) E})"
  by (intro conjI loop_env loop_facts preferred_correct)

lemma complete_out:
  assumes "env_ok eng af" "no_shared_target af"
  shows "\<exists>out. enumerate_sequences_complete eng af (all_active af) = Ok out \<and>
    prints_exactly emit out {Ss. ser (attacks af) (arguments af) Ss \<and>
      complete_ext (attacks af) (arguments af) (\<Union> (set Ss))}"
proof -
  note clean = ser_clean [OF env_wf [OF assms(1)] assms(2)]
  have "{Ss. ser (attacks af) (arguments af) Ss \<and> \<not> (\<exists>S. next_free (attacks af)
        (foldl (advance (attacks af)) (marks af (all_active af)) Ss) S)} =
      {Ss. ser (attacks af) (arguments af) Ss \<and> complete_ext (attacks af) (arguments af) (\<Union> (set Ss))}"
    by (rule seq_set_cong) (simp add: clean next_clean complete_iff_no_unattacked ser_adm)
  then show ?thesis using complete_prints [OF assms(1) live_all_active] by (simp add: clean)
qed

text \<open>
  C3. \<open>ES-CO\<close> on a framework without shared targets prints exactly the serialisation sequences of
  the complete extensions, each once, and every complete extension has one.
\<close>

theorem complete_correct:
  assumes "env_ok eng af" "no_shared_target af"
  shows "\<exists>out. enumerate_sequences_complete eng af (all_active af) = Ok out \<and>
    prints_exactly emit out {Ss. ser (attacks af) (arguments af) Ss \<and>
      complete_ext (attacks af) (arguments af) (\<Union> (set Ss))} \<and>
    (\<lambda>Ss. \<Union> (set Ss)) ` {Ss. ser (attacks af) (arguments af) Ss \<and>
      complete_ext (attacks af) (arguments af) (\<Union> (set Ss))} =
      {E. complete_ext (attacks af) (arguments af) E}"
proof -
  have "{E. adm (attacks af) (arguments af) E \<and> complete_ext (attacks af) (arguments af) E} =
      {E. complete_ext (attacks af) (arguments af) E}" by (auto simp: complete_ext_def)
  then show ?thesis
    using complete_out [OF assms] ser_unions [of "arguments af" "attacks af" "complete_ext (attacks af) (arguments af)"] by simp
qed

theorem complete_correct_witness:
  "env_ok ref_engine loop_af \<and> no_shared_target loop_af \<and>
   (\<exists>out. enumerate_sequences_complete ref_engine loop_af (all_active loop_af) = Ok out \<and>
    prints_exactly emit out {Ss. ser (attacks loop_af) (arguments loop_af) Ss \<and>
      complete_ext (attacks loop_af) (arguments loop_af) (\<Union> (set Ss))} \<and>
    (\<lambda>Ss. \<Union> (set Ss)) ` {Ss. ser (attacks loop_af) (arguments loop_af) Ss \<and>
      complete_ext (attacks loop_af) (arguments loop_af) (\<Union> (set Ss))} =
      {E. complete_ext (attacks loop_af) (arguments loop_af) E})"
  by (intro conjI loop_env loop_facts complete_correct)

lemma stable_out:
  assumes "env_ok eng af" "no_shared_target af"
  shows "\<exists>out. enumerate_sequences_stable eng af (all_active af) = Ok out \<and>
    prints_exactly emit out {Ss. ser (attacks af) (arguments af) Ss \<and>
      stable_ext (attacks af) (arguments af) (\<Union> (set Ss))}"
proof -
  note clean = ser_clean [OF env_wf [OF assms(1)] assms(2)]
  have "{Ss. ser (attacks af) (arguments af) Ss \<and>
        fst (foldl (advance (attacks af)) (marks af (all_active af)) Ss) = {}} =
      {Ss. ser (attacks af) (arguments af) Ss \<and> stable_ext (attacks af) (arguments af) (\<Union> (set Ss))}"
    by (rule seq_set_cong) (simp add: clean next_clean stable_iff_reduct_empty ser_adm)
  then show ?thesis using stable_prints [OF assms(1) live_all_active] by (simp add: clean)
qed

text \<open>
  C5. \<open>ES-ST\<close> on a framework without shared targets prints exactly the serialisation sequences of
  the stable extensions, each once, and every stable extension has one.
\<close>

theorem stable_correct:
  assumes "env_ok eng af" "no_shared_target af"
  shows "\<exists>out. enumerate_sequences_stable eng af (all_active af) = Ok out \<and>
    prints_exactly emit out {Ss. ser (attacks af) (arguments af) Ss \<and>
      stable_ext (attacks af) (arguments af) (\<Union> (set Ss))} \<and>
    (\<lambda>Ss. \<Union> (set Ss)) ` {Ss. ser (attacks af) (arguments af) Ss \<and>
      stable_ext (attacks af) (arguments af) (\<Union> (set Ss))} =
      {E. stable_ext (attacks af) (arguments af) E}"
proof -
  have "{E. adm (attacks af) (arguments af) E \<and> stable_ext (attacks af) (arguments af) E} =
      {E. stable_ext (attacks af) (arguments af) E}" by (auto intro: stable_adm)
  then show ?thesis
    using stable_out [OF assms] ser_unions [of "arguments af" "attacks af" "stable_ext (attacks af) (arguments af)"] by simp
qed

theorem stable_correct_witness:
  "env_ok ref_engine loop_af \<and> no_shared_target loop_af \<and>
   (\<exists>out. enumerate_sequences_stable ref_engine loop_af (all_active loop_af) = Ok out \<and>
    prints_exactly emit out {Ss. ser (attacks loop_af) (arguments loop_af) Ss \<and>
      stable_ext (attacks loop_af) (arguments loop_af) (\<Union> (set Ss))} \<and>
    (\<lambda>Ss. \<Union> (set Ss)) ` {Ss. ser (attacks loop_af) (arguments loop_af) Ss \<and>
      stable_ext (attacks loop_af) (arguments loop_af) (\<Union> (set Ss))} =
      {E. stable_ext (attacks loop_af) (arguments loop_af) E})"
  by (intro conjI loop_env loop_facts stable_correct)

lemma strong_admissible_out:
  assumes "wf_af af" "no_shared_target af"
  shows "\<exists>out. enumerate_sequences_strong_admissible af (all_active af) False = Ok out \<and>
    prints_exactly emit out (map (\<lambda>a. {a}) ` {as. gser (attacks af) (arguments af) as})"
  using strong_admissible_prints [OF assms(1) live_all_active, of False]
  by (simp add: gser_clean(1) [OF assms] image_Collect conj_commute)

text \<open>
  \<open>ES-SA\<close> on a framework without shared targets prints exactly the sequences that take one
  unattacked argument of the reduct at a time, each once, and their unions are exactly the
  strongly admissible sets.
\<close>

theorem strong_admissible_correct:
  assumes "wf_af af" "no_shared_target af"
  shows "\<exists>out. enumerate_sequences_strong_admissible af (all_active af) False = Ok out \<and>
    prints_exactly emit out (map (\<lambda>a. {a}) ` {as. gser (attacks af) (arguments af) as}) \<and>
    set ` {as. gser (attacks af) (arguments af) as} = {E. strong_adm (attacks af) (arguments af) E}"
proof -
  have "finite E" if "strong_adm (attacks af) (arguments af) E" for E
    using that by cases (auto intro: finite_subset)
  then have "set ` {as. gser (attacks af) (arguments af) as} = {E. strong_adm (attacks af) (arguments af) E}"
    using strong_adm_gser [of _ "attacks af" "arguments af"] by (auto simp: image_iff gser_strong_adm)
  then show ?thesis using strong_admissible_out [OF assms] by simp
qed

theorem strong_admissible_correct_witness:
  "wf_af loop_af \<and> no_shared_target loop_af \<and>
   (\<exists>out. enumerate_sequences_strong_admissible loop_af (all_active loop_af) False = Ok out \<and>
    prints_exactly emit out (map (\<lambda>a. {a}) ` {as. gser (attacks loop_af) (arguments loop_af) as}) \<and>
    set ` {as. gser (attacks loop_af) (arguments loop_af) as} = {E. strong_adm (attacks loop_af) (arguments loop_af) E})"
  by (intro conjI loop_facts strong_admissible_correct)

lemma gser_grounded_iff:
  assumes "gser att A as"
  shows "grounded_ext att A (set as) \<longleftrightarrow> \<not> (\<exists>a. unattacked att (reduct att A (set as)) a)"
  using gser_grounded [OF assms] complete_iff_no_unattacked [OF gser_adm [OF assms]]
  unfolding grounded_ext_def by blast

lemma grounded_out:
  assumes "wf_af af" "no_shared_target af"
  shows "\<exists>out. enumerate_sequences_strong_admissible af (all_active af) True = Ok out \<and>
    prints_exactly emit out (map (\<lambda>a. {a}) ` {as. gser (attacks af) (arguments af) as \<and>
      grounded_ext (attacks af) (arguments af) (set as)})"
proof -
  have "{Ss. (\<exists>as. Ss = map (\<lambda>a. {a}) as \<and> gser (attacks af) (arguments af) as) \<and>
        \<not> (\<exists>S. next_free (attacks af) (foldl (advance (attacks af)) (marks af (all_active af)) Ss) S)} =
      map (\<lambda>a. {a}) ` {as. gser (attacks af) (arguments af) as \<and>
        grounded_ext (attacks af) (arguments af) (set as)}"
    by (auto simp: gser_clean(2) [OF assms] next_clean gser_grounded_iff)
  then show ?thesis
    using strong_admissible_prints [OF assms(1) live_all_active, of True] by (simp add: gser_clean(1) [OF assms])
qed

text \<open>
  \<open>ES-GR\<close> on a framework without shared targets prints exactly the sequences of single
  unattacked arguments whose union is the grounded extension, each once, and there is one.
\<close>

theorem grounded_correct:
  assumes "wf_af af" "no_shared_target af"
  shows "\<exists>out. enumerate_sequences_strong_admissible af (all_active af) True = Ok out \<and>
    prints_exactly emit out (map (\<lambda>a. {a}) ` {as. gser (attacks af) (arguments af) as \<and>
      grounded_ext (attacks af) (arguments af) (set as)}) \<and>
    set ` {as. gser (attacks af) (arguments af) as \<and>
      grounded_ext (attacks af) (arguments af) (set as)} \<noteq> {}"
proof -
  obtain as where "gser (attacks af) (arguments af) as"
    "\<not> (\<exists>a. unattacked (attacks af) (reduct (attacks af) (arguments af) (set as)) a)"
    using gser_maximal_exists [of "arguments af"] by auto
  then show ?thesis using grounded_out [OF assms] by (auto simp: gser_grounded_iff)
qed

theorem grounded_correct_witness:
  "wf_af loop_af \<and> no_shared_target loop_af \<and>
   (\<exists>out. enumerate_sequences_strong_admissible loop_af (all_active loop_af) True = Ok out \<and>
    prints_exactly emit out (map (\<lambda>a. {a}) ` {as. gser (attacks loop_af) (arguments loop_af) as \<and>
      grounded_ext (attacks loop_af) (arguments loop_af) (set as)}) \<and>
    set ` {as. gser (attacks loop_af) (arguments loop_af) as \<and>
      grounded_ext (attacks loop_af) (arguments loop_af) (set as)} \<noteq> {})"
  by (intro conjI loop_facts grounded_correct)

lemma unchallenged_set:
  assumes "env_ok eng af" "no_shared_target af"
  shows "{Ss. ucser (attacks af) (arguments af) Ss \<and> \<not> (\<exists>S. next_unchallenged (attacks af)
        (foldl (advance (attacks af)) (marks af (all_active af)) Ss) S)} =
      {Ss. ucser (attacks af) (arguments af) Ss \<and>
      \<not> (\<exists>S. unchallenged (attacks af) (reduct (attacks af) (arguments af) (\<Union> (set Ss))) S)}"
  by (rule seq_set_cong) (simp add: ucser_clean [OF env_wf [OF assms(1)] assms(2)] next_clean)

lemma unchallenged_out:
  assumes "env_ok eng af" "no_shared_target af"
  shows "\<exists>out. enumerate_sequences_unchallenged eng af (all_active af) True = Ok out \<and>
    prints_exactly emit out {Ss. ucser (attacks af) (arguments af) Ss \<and>
      \<not> (\<exists>S. unchallenged (attacks af) (reduct (attacks af) (arguments af) (\<Union> (set Ss))) S)}"
  using unchallenged_prints [OF assms(1) live_all_active, of True] unchallenged_set [OF assms]
  by (simp add: ucser_clean [OF env_wf [OF assms(1)] assms(2)])

text \<open>
  C7. \<open>ES-UC\<close> on a framework without shared targets prints exactly the sequences of unchallenged
  initial sets, each once, and with the flag \<open>maximal\<close> only those that cannot be continued.
\<close>

theorem unchallenged_correct:
  assumes "env_ok eng af" "no_shared_target af"
  shows "\<exists>out. enumerate_sequences_unchallenged eng af (all_active af) maximal = Ok out \<and>
    prints_exactly emit out {Ss. ucser (attacks af) (arguments af) Ss \<and> (\<not> maximal \<or>
      \<not> (\<exists>S. unchallenged (attacks af) (reduct (attacks af) (arguments af) (\<Union> (set Ss))) S))}"
proof (cases maximal)
  case True
  then show ?thesis using unchallenged_out [OF assms] by simp
next
  case False
  then show ?thesis
    using unchallenged_prints [OF assms(1) live_all_active, of False] by (simp add: ucser_clean [OF env_wf [OF assms(1)] assms(2)])
qed

theorem unchallenged_correct_witness:
  "env_ok ref_engine loop_af \<and> no_shared_target loop_af \<and>
   (\<exists>out. enumerate_sequences_unchallenged ref_engine loop_af (all_active loop_af) True = Ok out \<and>
    prints_exactly emit out {Ss. ucser (attacks loop_af) (arguments loop_af) Ss \<and>
      \<not> (\<exists>S. unchallenged (attacks loop_af) (reduct (attacks loop_af) (arguments loop_af) (\<Union> (set Ss))) S)})"
  using unchallenged_correct [OF loop_env loop_clean, of True] loop_env loop_facts by simp

subsection \<open>Sequences for one argument\<close>

lemma arg_foldl: "foldl (arg_step att) (V, Ts) Ss = (foldl (advance att) V Ss, Ts @ Ss)"
  by (induction Ss arbitrary: V Ts) auto

lemma arg_walk:
  "walk (arg_ok att x) (arg_step att) (V, Ts) Ss \<longleftrightarrow> walk (next_initial att) (advance att) V Ss \<and>
     (\<forall>k < length Ss. \<not> hits x (Ts @ take k Ss) \<and> \<not> loses att x (Ts @ take k Ss))"
proof (induction Ss arbitrary: V Ts)
  case (Cons S Ss)
  have "(\<forall>k < length (S # Ss). P (take k (S # Ss))) \<longleftrightarrow> P [] \<and> (\<forall>k < length Ss. P (S # take k Ss))" for P
    by (auto simp: less_Suc_eq_0_disj)
  from this [of "\<lambda>xs. \<not> hits x (Ts @ xs) \<and> \<not> loses att x (Ts @ xs)"]
  show ?case using Cons.IH [of "advance att V S" "Ts @ [S]"] by auto
qed simp

lemma ser_not_before:
  assumes "ser att A Ss" "hits x Ss" "k < length Ss"
  shows "\<not> hits x (take k Ss) \<and> \<not> loses att x (take k Ss)"
proof -
  have split: "Ss = take k Ss @ drop k Ss" "drop k Ss \<noteq> []" using assms(3) by simp_all
  then have "ser att (reduct att A (\<Union> (set (take k Ss)))) (drop k Ss)"
    using assms(1) ser_append [of att A "take k Ss" "drop k Ss"] by simp
  then have "\<Union> (set (drop k Ss)) \<subseteq> reduct att A (\<Union> (set (take k Ss)))"
    by (metis ser_adm adm_subset)
  moreover have "x \<in> \<Union> (set (drop k Ss))"
    using assms(2) split(2) last_in_set [of "drop k Ss"] by (auto simp: hits_def last_drop assms(3))
  ultimately have "x \<in> reduct att A (\<Union> (set (take k Ss)))" by blast
  then show ?thesis
    using last_in_set [of "take k Ss"] by (auto simp: hits_def loses_def reduct_def)
qed

lemma argument_out:
  assumes "env_ok eng af" "no_shared_target af"
  shows "\<exists>out. sequences_argument_admissible eng af (all_active af) x = Ok out \<and>
    prints_exactly emit out {Ss. ser (attacks af) (arguments af) Ss \<and> Ss \<noteq> [] \<and> x \<in> last Ss}"
proof -
  note clean = ser_clean(1) [OF env_wf [OF assms(1)] assms(2)]
  have "{Ss. walk (arg_ok (attacks af) x) (arg_step (attacks af)) (marks af (all_active af), []) Ss \<and>
        hits x (snd (foldl (arg_step (attacks af)) (marks af (all_active af), []) Ss))} =
      {Ss. ser (attacks af) (arguments af) Ss \<and> hits x Ss}"
    using ser_not_before [of "attacks af" "arguments af" _ x]
    by (auto simp: arg_walk arg_foldl clean)
  then show ?thesis using argument_prints [OF assms(1) live_all_active, of x] by (simp add: hits_def)
qed

text \<open>
  C6. \<open>AS-AD\<close> on a framework without shared targets prints exactly the serialisation sequences
  whose last set contains the argument, each once; there is one exactly if the argument is in
  some admissible set.
\<close>

theorem argument_correct:
  assumes "env_ok eng af" "no_shared_target af"
  shows "\<exists>out. sequences_argument_admissible eng af (all_active af) x = Ok out \<and>
    prints_exactly emit out {Ss. ser (attacks af) (arguments af) Ss \<and> Ss \<noteq> [] \<and> x \<in> last Ss} \<and>
    ((\<exists>Ss. ser (attacks af) (arguments af) Ss \<and> Ss \<noteq> [] \<and> x \<in> last Ss) \<longleftrightarrow>
     (\<exists>E. adm (attacks af) (arguments af) E \<and> x \<in> E))"
proof -
  have "\<exists>Ts. ser (attacks af) (arguments af) Ts \<and> Ts \<noteq> [] \<and> x \<in> last Ts"
    if E: "adm (attacks af) (arguments af) E" "x \<in> E" for E
  proof -
    have "finite E" using finite_subset [OF adm_subset [OF E(1)]] by simp
    then obtain Ss where "ser (attacks af) (arguments af) Ss" "\<Union> (set Ss) = E"
      using adm_ser E(1) by blast
    moreover then obtain S where "S \<in> set Ss" "x \<in> S" using E(2) by blast
    moreover then obtain Ts Us where "Ss = (Ts @ [S]) @ Us" by (metis append.assoc append_Cons append_Nil split_list)
    ultimately show ?thesis using ser_append by (metis last_snoc snoc_eq_iff_butlast)
  qed
  moreover have "\<exists>E. adm (attacks af) (arguments af) E \<and> x \<in> E"
    if "ser (attacks af) (arguments af) Ss" "Ss \<noteq> []" "x \<in> last Ss" for Ss
    using ser_adm [OF that(1)] last_in_set [OF that(2)] that(3) by (intro exI [of _ "\<Union> (set Ss)"]) blast
  ultimately have "(\<exists>Ss. ser (attacks af) (arguments af) Ss \<and> Ss \<noteq> [] \<and> x \<in> last Ss) \<longleftrightarrow>
     (\<exists>E. adm (attacks af) (arguments af) E \<and> x \<in> E)" by (intro iffI) (elim exE conjE, simp)+
  with argument_out [OF assms, of x] show ?thesis by (elim exE conjE, intro exI conjI)
qed

theorem argument_correct_witness:
  "env_ok ref_engine loop_af \<and> no_shared_target loop_af \<and>
   (\<exists>out. sequences_argument_admissible ref_engine loop_af (all_active loop_af) 2 = Ok out \<and>
    prints_exactly emit out {Ss. ser (attacks loop_af) (arguments loop_af) Ss \<and> Ss \<noteq> [] \<and> 2 \<in> last Ss} \<and>
    ((\<exists>Ss. ser (attacks loop_af) (arguments loop_af) Ss \<and> Ss \<noteq> [] \<and> 2 \<in> last Ss) \<longleftrightarrow>
     (\<exists>E. adm (attacks loop_af) (arguments loop_af) E \<and> 2 \<in> E)))"
  by (intro conjI loop_env loop_facts argument_correct)

section \<open>Without the restriction\<close>

lemma shared_attacks: "attacks shared_af a b \<longleftrightarrow> (a, b) \<in> {(0, 2), (1, 2), (2, 3), (3, 4)}"
proof -
  have "attacks shared_af a b \<longleftrightarrow> a \<in> {0, 1, 2, 3, 4} \<and> attacks shared_af a b"
    by (auto simp: attacks_def shared_af_def)
  also have "\<dots> \<longleftrightarrow> (a, b) \<in> {(0, 2), (1, 2), (2, 3), (3, 4)}"
    by (auto simp: attacks_def shared_af_def)
  finally show ?thesis .
qed

lemma shared_arguments: "arguments shared_af = {0, 1, 2, 3, 4}"
  by (auto simp: shared_af_def)

lemma next_free_gser:
  "walk (next_free att) (advance att) V Ss \<Longrightarrow> \<exists>as. Ss = map (\<lambda>a. {a}) as \<and> gser att (fst V) as"
proof (induction Ss arbitrary: V)
  case (Cons S Ss)
  then obtain a where a: "S = {a}" "unattacked att (fst V) a"
    by (auto simp: next_free_def unattacked_def)
  moreover obtain as where "Ss = map (\<lambda>a. {a}) as" "gser att (fst (advance att V S)) as"
    using Cons.IH [of "advance att V S"] Cons.prems by auto
  ultimately show ?case by (intro exI [of _ "a # as"]) (simp add: advance_def)
qed simp

text \<open>
  Soundness of \<open>ES-SA\<close> for every framework: every printed sequence takes one unattacked
  argument of the reduct at a time, so its union is strongly admissible.
\<close>

theorem strong_admissible_sound:
  assumes "wf_af af" "live af act"
  shows "\<exists>out X. enumerate_sequences_strong_admissible af act False = Ok out \<and>
    prints_exactly emit out X \<and>
    X \<subseteq> map (\<lambda>a. {a}) ` {as. gser (attacks af) (set (bs_array act)) as \<and>
      strong_adm (attacks af) (set (bs_array act)) (set as)}"
proof -
  have "{Ss. walk (next_free (attacks af)) (advance (attacks af)) (marks af act) Ss} \<subseteq>
      map (\<lambda>a. {a}) ` {as. gser (attacks af) (set (bs_array act)) as \<and>
      strong_adm (attacks af) (set (bs_array act)) (set as)}"
    using next_free_gser gser_strong_adm by (fastforce simp: marks_def)
  then show ?thesis using strong_admissible_prints [OF assms, of False] by auto
qed

theorem strong_admissible_sound_witness:
  "wf_af shared_af \<and> live shared_af (all_active shared_af) \<and>
   (\<exists>out X. enumerate_sequences_strong_admissible shared_af (all_active shared_af) False = Ok out \<and>
    prints_exactly emit out X \<and>
    X \<subseteq> map (\<lambda>a. {a}) ` {as. gser (attacks shared_af) (set (bs_array (all_active shared_af))) as \<and>
      strong_adm (attacks shared_af) (set (bs_array (all_active shared_af))) (set as)})"
  by (intro conjI shared_wf live_all_active strong_admissible_sound)

text \<open>
  The restriction is needed, for \<open>ES-GR\<close>: on this framework two of the four printed
  sequences end before the grounded extension \<open>{1, 2, 4}\<close> is reached. After the sets \<open>[1]\<close>
  and \<open>[2]\<close> the bit set still marks argument 3, which both of them attack, so argument 4
  counts as attacked.
\<close>

theorem grounded_shared_target:
  "enumerate_sequences_strong_admissible shared_af (all_active shared_af) True =
     Ok ''([1],[2]),([1],[4],[2]),([2],[1]),([2],[4],[1]),'' \<and>
   grounded_ext (attacks shared_af) (arguments shared_af) {0, 1, 3} \<and>
   \<not> grounded_ext (attacks shared_af) (arguments shared_af) {0, 1}"
proof -
  have "gser (attacks shared_af) (arguments shared_af) [0, 1, 3]"
    by (auto simp: shared_arguments shared_attacks unattacked_def reduct_def)
  then have g: "grounded_ext (attacks shared_af) (arguments shared_af) (set [0, 1, 3])"
    by (simp only: gser_grounded_iff)
      (auto simp: shared_arguments shared_attacks unattacked_def reduct_def)
  moreover have "\<not> grounded_ext (attacks shared_af) (arguments shared_af) {0, 1}"
  proof
    assume "grounded_ext (attacks shared_af) (arguments shared_af) {0, 1}"
    with g have eq: "set [0, 1, 3] = {0, 1 :: nat}" by (rule grounded_unique)
    have "3 \<in> set [0, 1, 3 :: nat]" by simp
    then show False unfolding eq by simp
  qed
  moreover have "enumerate_sequences_strong_admissible shared_af (all_active shared_af) True =
     Ok ''([1],[2]),([1],[4],[2]),([2],[1]),([2],[4],[1]),''" by code_simp
  ultimately show ?thesis by simp
qed

text \<open>
  C20. The restriction is needed, for \<open>ES-AD\<close>: on the same framework the sequence
  \<open>([1],[2],[5])\<close> is printed, whose union is not admissible. Argument 3, left marked, counts as
  a defender of 5 against 4.
\<close>

theorem admissible_shared_target:
  assumes "engine_ok eng" "engine_decides eng"
  shows "\<exists>out X. enumerate_sequences_admissible eng shared_af (all_active shared_af) False = Ok out \<and>
    prints_exactly emit out X \<and> [{0}, {1}, {4}] \<in> X \<and>
    \<not> adm (attacks shared_af) (arguments shared_af) {0, 1, 4}"
proof -
  have env: "env_ok eng shared_af" using assms shared_wf by (simp add: env_ok_def)
  have single: "initial_in att A P {a}" if "adm_in att A P {a}" for att :: "nat \<Rightarrow> nat \<Rightarrow> bool" and A P a
    using that by (auto simp: initial_in_def)
  have "walk (next_initial (attacks shared_af)) (advance (attacks shared_af))
      (marks shared_af (all_active shared_af)) [{0}, {1}, {4}]"
    unfolding marks_all_active walk.simps next_initial_def
    by (intro conjI TrueI single)
      (auto simp: adm_in_def conflict_free_def shared_arguments shared_attacks advance_def reduct_def)
  moreover have "\<not> adm (attacks shared_af) (arguments shared_af) {0, 1, 4}"
    by (auto simp: adm_in_def shared_arguments shared_attacks)
  ultimately show ?thesis
    using admissible_prints [OF env live_all_active, of False] by blast
qed

theorem admissible_shared_target_witness:
  "engine_ok ref_engine \<and> engine_decides ref_engine \<and>
   (\<exists>out X. enumerate_sequences_admissible ref_engine shared_af (all_active shared_af) False = Ok out \<and>
    prints_exactly emit out X \<and> [{0}, {1}, {4}] \<in> X \<and>
    \<not> adm (attacks shared_af) (arguments shared_af) {0, 1, 4})"
  by (intro conjI engine_ok_ref engine_decides_ref admissible_shared_target)

end
