(* ===== verification/I23_Parser.thy ===== *)
theory I23_Parser
  imports AF_Core
begin

text \<open>
  The reader of the i23 format, \<open>src/Parse.cpp\<close>. The input file is a text, or missing; the
  formatted input of \<open>std::istringstream\<close> is modelled with its error and end flags, because the
  parser never looks at them: after a failed extraction it goes on with whatever the variable
  holds. A variable that was never assigned is \<open>None\<close>, and using it is the fault
  \<open>Uninitialised\<close>.
\<close>

section \<open>Formatted input\<close>

definition is_space :: "char \<Rightarrow> bool" where
  "is_space c \<longleftrightarrow> c = CHR '' '' \<or> (9 \<le> (of_char c :: nat) \<and> (of_char c :: nat) \<le> 13)"

record istream =
  chars :: string
  failbit :: bool
  eofbit :: bool

definition istringstream :: "string \<Rightarrow> istream" where
  "istringstream s = \<lparr>chars = s, failbit = False, eofbit = False\<rparr>"

text \<open>The sentry of an extraction: it fails on a stream that is not good, skips white space, and
  fails at the end of the text.\<close>

definition sentry :: "istream \<Rightarrow> bool \<times> istream" where
  "sentry is = (if failbit is \<or> eofbit is then (False, is\<lparr>failbit := True\<rparr>)
     else let r = dropWhile is_space (chars is) in
       if r = '''' then (False, is\<lparr>chars := '''', failbit := True, eofbit := True\<rparr>)
       else (True, is\<lparr>chars := r\<rparr>))"

definition get_word :: "istream \<Rightarrow> string \<Rightarrow> string \<times> istream" where
  "get_word is old = (case sentry is of (ok, is) \<Rightarrow>
     if \<not> ok then (old, is)
     else let r = dropWhile (\<lambda>c. \<not> is_space c) (chars is) in
       (takeWhile (\<lambda>c. \<not> is_space c) (chars is), is\<lparr>chars := r, eofbit := (r = '''')\<rparr>))"

text \<open>
  Extraction of an \<open>uint32_t\<close>: an optional sign and digits. Without a digit the value is 0 and
  the extraction fails, if the digits are too large it is the greatest value and the extraction
  fails; a minus sign negates modulo \<open>2 ^ 32\<close>.
\<close>

definition get_u32 :: "istream \<Rightarrow> nat option \<Rightarrow> nat option \<times> istream" where
  "get_u32 is old = (case sentry is of (ok, is) \<Rightarrow>
     if \<not> ok then (old, is)
     else let neg = (hd (chars is) = CHR ''-'');
              body = (if neg \<or> hd (chars is) = CHR ''+'' then tl (chars is) else chars is);
              digits = takeWhile is_digit body;
              r = dropWhile is_digit body;
              v = read_nat digits
          in if digits = '''' then (Some 0, is\<lparr>chars := r, failbit := True, eofbit := (r = '''')\<rparr>)
             else if 2 ^ 32 \<le> int v
             then (Some (2 ^ 32 - 1), is\<lparr>chars := r, failbit := True, eofbit := (r = '''')\<rparr>)
             else (Some (if neg then u32 (- int v) else v), is\<lparr>chars := r, eofbit := (r = '''')\<rparr>))"

section \<open>The parser\<close>

record parse_state =
  ps_af :: AF
  ps_array :: "nat list"
  ps_bitset :: "bool list"
  ps_n_args :: "nat option"
  ps_source :: "nat option"
  ps_target :: "nat option"

definition use_var :: "'a option \<Rightarrow> 'a result" where
  "use_var v = (case v of None \<Rightarrow> Fault Uninitialised | Some x \<Rightarrow> Ok x)"

text \<open>The loop that fills the array counts with an \<open>int\<close>, which overflows after \<open>INT_MAX\<close>.\<close>

definition parse_header :: "istream \<Rightarrow> parse_state \<Rightarrow> parse_state result" where
  "parse_header iss st = (case get_word iss '''' of (p, iss) \<Rightarrow> (case get_word iss '''' of (af, iss) \<Rightarrow>
     (case get_u32 iss (ps_n_args st) of (n_args, iss) \<Rightarrow>
       rbind (use_var n_args) (\<lambda>n.
         if INT_MAX \<le> int n then Fault SignedOverflow
         else Ok (st\<lparr>ps_af := set_arguments n (ps_af st), ps_array := ps_array st @ [0..<n],
                ps_bitset := vec_resize (ps_bitset st) n True, ps_n_args := n_args\<rparr>)))))"

definition parse_attack :: "istream \<Rightarrow> parse_state \<Rightarrow> parse_state result" where
  "parse_attack iss st = (case get_u32 iss (ps_source st) of (source, iss) \<Rightarrow>
     (case get_u32 iss (ps_target st) of (target, iss) \<Rightarrow>
       rbind (use_var source) (\<lambda>s. rbind (use_var target) (\<lambda>t.
       rbind (add_attack (u32 (int s - 1)) (u32 (int t - 1)) (ps_af st)) (\<lambda>af.
         Ok (st\<lparr>ps_af := af, ps_source := source, ps_target := target\<rparr>))))))"

definition parse_line :: "string \<Rightarrow> parse_state \<Rightarrow> parse_state result" where
  "parse_line line st =
     (if line = '''' \<or> hd line = CHR ''#'' then Ok st
      else if hd line = CHR ''p'' then parse_header (istringstream line) st
      else parse_attack (istringstream line) st)"

text \<open>The lines \<open>getline\<close> delivers until the end of the file is reached.\<close>

fun getlines :: "string \<Rightarrow> string list" where
  "getlines [] = [[]]"
| "getlines (c # cs) = (if c = CHR ''\<newline>'' then [] # getlines cs
     else (c # hd (getlines cs)) # tl (getlines cs))"

definition parse_start :: "AF \<Rightarrow> parse_state" where
  "parse_start af = \<lparr>ps_af = af, ps_array = [], ps_bitset = [], ps_n_args = None,
     ps_source = None, ps_target = None\<rparr>"

definition parse_i23 :: "(string \<Rightarrow> string option) \<Rightarrow> AF \<Rightarrow> string \<Rightarrow> (AF \<times> IterableBitSet) result" where
  "parse_i23 files aaf file = (case files file of
     None \<Rightarrow> Fault (Exit 1)
   | Some content \<Rightarrow> rbind (rfold parse_line (getlines content) (parse_start aaf)) (\<lambda>st.
       Ok (ps_af st, \<lparr>bs_array = ps_array st, bs_bitset = ps_bitset st\<rparr>)))"

section \<open>Reading what was written\<close>

text \<open>The lines of an i23 file, as the format describes them.\<close>

datatype i23_line = Comment string | Blank | Attack nat nat

fun write_line :: "i23_line \<Rightarrow> string" where
  "write_line (Comment s) = ''#'' @ s"
| "write_line Blank = ''''"
| "write_line (Attack a b) = show_nat a @ '' '' @ show_nat b"

fun line_ok :: "nat \<Rightarrow> i23_line \<Rightarrow> bool" where
  "line_ok n (Comment s) \<longleftrightarrow> CHR ''\<newline>'' \<notin> set s"
| "line_ok n Blank \<longleftrightarrow> True"
| "line_ok n (Attack a b) \<longleftrightarrow> 1 \<le> a \<and> a \<le> n \<and> 1 \<le> b \<and> b \<le> n"

definition write_i23 :: "nat \<Rightarrow> i23_line list \<Rightarrow> string" where
  "write_i23 n ls = ''p af '' @ show_nat n @ ''\<newline>'' @
     concat (map (\<lambda>l. write_line l @ ''\<newline>'') ls)"

lemma getlines_cons: "CHR ''\<newline>'' \<notin> set l \<Longrightarrow> getlines (l @ CHR ''\<newline>'' # cs) = l # getlines cs"
  by (induction l) auto

lemma getlines_nonempty [simp]: "getlines s \<noteq> []"
  by (induction s) auto

lemma getlines_lines:
  "list_all (\<lambda>l. CHR ''\<newline>'' \<notin> set l) ls \<Longrightarrow>
     getlines (concat (map (\<lambda>l. l @ ''\<newline>'') ls)) = ls @ [[]]"
  by (induction ls) (auto simp: getlines_cons)

lemma digit_not_space: "is_digit c \<Longrightarrow> \<not> is_space c"
  by (auto simp: is_digit_def is_space_def)

lemma show_nat_hd: "is_digit (hd (show_nat n))"
  using show_nat_digits [of n] show_nat_nonempty [of n] hd_in_set by blast

lemma span_digits:
  assumes "r = [] \<or> \<not> is_digit (hd r)"
  shows "takeWhile is_digit (show_nat n @ r) = show_nat n" "dropWhile is_digit (show_nat n @ r) = r"
  using show_nat_digits [of n] assms by (cases r; simp add: takeWhile_append2 dropWhile_append2)+

lemma get_u32_show:
  assumes "n < 2 ^ 32" "r = [] \<or> \<not> is_digit (hd r)" "list_all is_space ws"
  shows "get_u32 \<lparr>chars = ws @ show_nat n @ r, failbit = False, eofbit = False\<rparr> old =
    (Some n, \<lparr>chars = r, failbit = False, eofbit = (r = [])\<rparr>)"
proof -
  have d: "is_digit (hd (show_nat n))" by (rule show_nat_hd)
  then have h: "\<not> is_space (hd (show_nat n))" "hd (show_nat n) \<noteq> CHR ''-''"
    "hd (show_nat n) \<noteq> CHR ''+''" by (auto simp: digit_not_space) (auto simp: is_digit_def)
  have "dropWhile is_space (ws @ show_nat n @ r) = dropWhile is_space (show_nat n @ r)"
    using assms(3) by (intro dropWhile_append2) (auto simp: list_all_iff)
  also have "\<dots> = show_nat n @ r"
    using h(1) show_nat_nonempty [of n] by (cases "show_nat n") auto
  finally have "sentry \<lparr>chars = ws @ show_nat n @ r, failbit = False, eofbit = False\<rparr> =
      (True, \<lparr>chars = show_nat n @ r, failbit = False, eofbit = False\<rparr>)"
    by (simp add: sentry_def)
  then show ?thesis
    using assms(1) h(2,3) by (simp add: get_u32_def span_digits [OF assms(2)] Let_def)
qed

definition parsed :: "nat \<Rightarrow> (nat \<Rightarrow> nat \<Rightarrow> bool) \<Rightarrow> parse_state \<Rightarrow> bool" where
  "parsed n att st \<longleftrightarrow> wf_af (ps_af st) \<and> args (ps_af st) = n \<and>
     (\<forall>a b. attacks (ps_af st) a b \<longleftrightarrow> att a b) \<and>
     ps_array st = [0..<n] \<and> ps_bitset st = replicate n True"

lemma parse_header_ok:
  assumes "int n < INT_MAX"
  shows "\<exists>st. parse_line (''p af '' @ show_nat n) (parse_start new_AF) = Ok st \<and>
    parsed n (\<lambda>a b. False) st"
proof -
  let ?is = "\<lambda>r. \<lparr>chars = r, failbit = False, eofbit = False\<rparr>"
  have "get_word (istringstream (''p af '' @ show_nat n)) '''' = (''p'', ?is ('' af '' @ show_nat n))"
    by (simp add: get_word_def istringstream_def sentry_def is_space_def Let_def)
  moreover have "get_word (?is ('' af '' @ show_nat n)) '''' = (''af'', ?is ('' '' @ show_nat n))"
    by (simp add: get_word_def sentry_def is_space_def Let_def)
  moreover have "get_u32 (?is ('' '' @ show_nat n @ [])) None =
      (Some n, \<lparr>chars = [], failbit = False, eofbit = True\<rparr>)"
    using assms by (subst get_u32_show) (simp_all add: INT_MAX_def is_space_def)
  ultimately have "parse_line (''p af '' @ show_nat n) (parse_start new_AF) =
      Ok ((parse_start new_AF)\<lparr>ps_af := set_arguments n new_AF, ps_array := [0..<n],
        ps_bitset := replicate n True, ps_n_args := Some n\<rparr>)"
    using assms by (simp add: parse_line_def parse_header_def parse_start_def use_var_def vec_resize_def)
  then show ?thesis
    by (simp add: parsed_def wf_af_set_arguments attacks_set_arguments)
      (simp add: set_arguments_def)
qed

lemma parse_attack_line:
  assumes "a < 2 ^ 32" "b < 2 ^ 32"
  shows "parse_line (write_line (Attack a b)) st =
    rbind (add_attack (u32 (int a - 1)) (u32 (int b - 1)) (ps_af st)) (\<lambda>af.
      Ok (st\<lparr>ps_af := af, ps_source := Some a, ps_target := Some b\<rparr>))"
proof -
  have "is_digit (hd (show_nat a @ '' '' @ show_nat b))"
    using show_nat_hd [of a] show_nat_nonempty [of a] by simp
  then have line: "write_line (Attack a b) \<noteq> ''''" "hd (write_line (Attack a b)) \<noteq> CHR ''#''"
    "hd (write_line (Attack a b)) \<noteq> CHR ''p''" by (auto simp: is_digit_def)
  have s: "get_u32 (istringstream (write_line (Attack a b))) (ps_source st) =
      (Some a, \<lparr>chars = '' '' @ show_nat b, failbit = False, eofbit = False\<rparr>)"
    using get_u32_show [of a "'' '' @ show_nat b" "[]" "ps_source st"] assms
    by (simp add: istringstream_def is_digit_def)
  have t: "get_u32 \<lparr>chars = '' '' @ show_nat b, failbit = False, eofbit = False\<rparr> (ps_target st) =
      (Some b, \<lparr>chars = [], failbit = False, eofbit = True\<rparr>)"
    using get_u32_show [of b "[]" "'' ''" "ps_target st"] assms by (simp add: is_space_def)
  show ?thesis
    unfolding parse_line_def parse_attack_def s using line by (simp add: t [simplified] use_var_def)
qed

lemma parse_attack_ok:
  assumes "parsed n att st" "int n < INT_MAX" "line_ok n (Attack a b)"
  shows "\<exists>st'. parse_line (write_line (Attack a b)) st = Ok st' \<and>
    parsed n (\<lambda>x y. att x y \<or> (x = a - 1 \<and> y = b - 1)) st'"
proof -
  have small: "a < 2 ^ 32" "b < 2 ^ 32" "1 \<le> a" "1 \<le> b" "a - 1 < n" "b - 1 < n"
    using assms(2,3) by (auto simp: INT_MAX_def)
  have u: "u32 (int a - 1) = a - 1" "u32 (int b - 1) = b - 1"
    using small u32_id [of "a - 1"] u32_id [of "b - 1"] by (simp_all add: of_nat_diff)
  have wf: "wf_af (ps_af st)" "args (ps_af st) = n" using assms(1) by (simp_all add: parsed_def)
  obtain af' where af': "add_attack (a - 1) (b - 1) (ps_af st) = Ok af'" "wf_af af'"
    "args af' = args (ps_af st)"
    "\<And>x y. attacks af' x y \<longleftrightarrow> attacks (ps_af st) x y \<or> (x = a - 1 \<and> y = b - 1)"
    by (rule add_attack_Ok [of "ps_af st" "a - 1" "b - 1"]) (use wf small in auto)
  then show ?thesis
    unfolding parse_attack_line [OF small(1,2)] u using assms(1) by (simp add: parsed_def)
qed

lemma parse_lines_ok:
  assumes "parsed n att st" "int n < INT_MAX" "list_all (line_ok n) ls"
  shows "\<exists>st'. rfold parse_line (map write_line ls) st = Ok st' \<and>
    parsed n (\<lambda>a b. att a b \<or> (\<exists>x y. Attack x y \<in> set ls \<and> a = x - 1 \<and> b = y - 1)) st'"
  using assms(1,3)
proof (induction ls arbitrary: att st)
  case (Cons l ls)
  show ?case
  proof (cases l)
    case (Attack a b)
    then obtain st1 where st1: "parse_line (write_line l) st = Ok st1"
      "parsed n (\<lambda>x y. att x y \<or> (x = a - 1 \<and> y = b - 1)) st1"
      using parse_attack_ok [OF Cons.prems(1) assms(2), of a b] Cons.prems(2) by auto
    from Cons.IH [OF st1(2)] Cons.prems(2)
    obtain st' where st': "rfold parse_line (map write_line ls) st1 = Ok st'"
      "parsed n (\<lambda>x y. (att x y \<or> (x = a - 1 \<and> y = b - 1)) \<or>
        (\<exists>u v. Attack u v \<in> set ls \<and> x = u - 1 \<and> y = v - 1)) st'" by auto
    have "(\<lambda>x y. (att x y \<or> (x = a - 1 \<and> y = b - 1)) \<or>
        (\<exists>u v. Attack u v \<in> set ls \<and> x = u - 1 \<and> y = v - 1)) =
      (\<lambda>x y. att x y \<or> (\<exists>u v. Attack u v \<in> set (l # ls) \<and> x = u - 1 \<and> y = v - 1))"
      unfolding Attack by (intro ext) auto
    with st' show ?thesis using st1(1) by simp
  qed (use Cons in \<open>simp_all add: parse_line_def\<close>)
qed simp

lemma write_line_no_newline: "line_ok n l \<Longrightarrow> CHR ''\<newline>'' \<notin> set (write_line l)"
  by (cases l) (auto simp: show_nat_not_in is_digit_def)

lemma parse_write_ok:
  assumes "files file = Some (write_i23 n ls)" "list_all (line_ok n) ls" "int n < INT_MAX"
  shows "\<exists>af. parse_i23 files new_AF file = Ok (af, all_active af) \<and> wf_af af \<and> args af = n \<and>
    (\<forall>a b. attacks af a b \<longleftrightarrow> Attack (a + 1) (b + 1) \<in> set ls)"
proof -
  have "getlines (write_i23 n ls) = (''p af '' @ show_nat n) # map write_line ls @ [[]]"
  proof -
    have "list_all (\<lambda>l. CHR ''\<newline>'' \<notin> set l) ((''p af '' @ show_nat n) # map write_line ls)"
      using assms(2) by (auto simp: list_all_iff show_nat_not_in is_digit_def dest: write_line_no_newline)
    from getlines_lines [OF this] show ?thesis by (simp add: write_i23_def comp_def)
  qed
  moreover obtain st1 where st1: "parse_line (''p af '' @ show_nat n) (parse_start new_AF) = Ok st1"
    "parsed n (\<lambda>a b. False) st1" using parse_header_ok [OF assms(3)] by blast
  moreover obtain st where st: "rfold parse_line (map write_line ls) st1 = Ok st"
    "parsed n (\<lambda>a b. \<exists>x y. Attack x y \<in> set ls \<and> a = x - 1 \<and> b = y - 1) st"
    using parse_lines_ok [OF st1(2) assms(3,2)] by auto
  moreover have "parse_line [] st = Ok st" by (simp add: parse_line_def)
  ultimately have "parse_i23 files new_AF file =
      Ok (ps_af st, \<lparr>bs_array = ps_array st, bs_bitset = ps_bitset st\<rparr>)"
    using assms(1) by (simp add: parse_i23_def rfold_append)
  moreover have "(\<exists>x y. Attack x y \<in> set ls \<and> a = x - 1 \<and> b = y - 1) \<longleftrightarrow>
      Attack (a + 1) (b + 1) \<in> set ls" for a b
    using assms(2) by (force simp: list_all_iff)
  ultimately show ?thesis using st(2) by (auto simp: parsed_def all_active_def)
qed

text \<open>
  C14. Round trip: from a file with a header, attack lines over the declared arguments, comments
  and blank lines the parser returns a well-formed framework with exactly the written attacks
  (numbered from 0), and all its arguments are active.
\<close>

theorem parse_write:
  assumes "files file = Some (write_i23 n ls)" "list_all (line_ok n) ls" "int n < INT_MAX"
  shows "\<exists>af. parse_i23 files new_AF file = Ok (af, all_active af) \<and> wf_af af \<and> args af = n \<and>
    (\<forall>a b. attacks af a b \<longleftrightarrow> Attack (a + 1) (b + 1) \<in> set ls)"
  using assms by (rule parse_write_ok)

theorem parse_write_witness:
  "list_all (line_ok 3) [Comment '' x'', Attack 1 2, Blank, Attack 2 3] \<and>
   (\<exists>af. parse_i23 [''f'' \<mapsto> write_i23 3 [Comment '' x'', Attack 1 2, Blank, Attack 2 3]] new_AF ''f'' =
      Ok (af, all_active af) \<and> wf_af af \<and> args af = 3 \<and>
    (\<forall>a b. attacks af a b \<longleftrightarrow>
      Attack (a + 1) (b + 1) \<in> set [Comment '' x'', Attack 1 2, Blank, Attack 2 3]))"
by (intro conjI parse_write) (simp_all add: INT_MAX_def)

section \<open>What a successful parse guarantees\<close>

definition is_header :: "string \<Rightarrow> bool" where
  "is_header line \<longleftrightarrow> line \<noteq> '''' \<and> hd line = CHR ''p''"

definition all_read :: "parse_state \<Rightarrow> bool" where
  "all_read st \<longleftrightarrow> wf_af (ps_af st) \<and> int (args (ps_af st)) < INT_MAX \<and>
     ps_array st = [0..<args (ps_af st)] \<and> ps_bitset st = replicate (args (ps_af st)) True"

definition unread :: "parse_state \<Rightarrow> bool" where
  "unread st \<longleftrightarrow> ps_af st = new_AF \<and> ps_array st = [] \<and> ps_bitset st = []"

lemma unread_all_read: "unread st \<Longrightarrow> all_read st"
  by (simp add: unread_def all_read_def new_AF_def wf_af_def in_range_def mirrored_def INT_MAX_def)

lemma add_attack_inv:
  assumes "wf_af af" "add_attack s t af = Ok af'"
  shows "wf_af af'" "args af' = args af" "s < args af" "t < args af"
proof -
  show b: "s < args af" "t < args af"
    using add_attack_fault [OF assms(1), of s t] assms(2) by auto
  show "wf_af af'" "args af' = args af"
    using add_attack_Ok [OF assms(1) b] assms(2) by auto
qed

lemma parse_attack_inv:
  assumes "parse_line line st = Ok st'" "\<not> is_header line"
  shows "all_read st \<Longrightarrow> all_read st'" "unread st \<Longrightarrow> unread st'"
proof -
  consider "st' = st" | s t af' where "add_attack s t (ps_af st) = Ok af'"
    "ps_af st' = af'" "ps_array st' = ps_array st" "ps_bitset st' = ps_bitset st"
    using assms by (auto simp: parse_line_def is_header_def parse_attack_def use_var_def rbind_eq_Ok_iff
      split: prod.splits if_splits option.splits)
  note cases = this
  show "all_read st \<Longrightarrow> all_read st'"
    using cases by (cases) (auto simp: all_read_def dest: add_attack_inv)
  show "unread st \<Longrightarrow> unread st'"
    using cases
  proof cases
    case 2
    assume "unread st"
    then show ?thesis using 2 by (simp add: unread_def new_AF_def add_attack_def vec_at_def)
  qed simp
qed

lemma parse_header_inv:
  assumes "parse_line line st = Ok st'" "is_header line" "unread st"
  shows "all_read st'"
proof -
  have "hd line \<noteq> CHR ''#''" using assms(2) by (simp add: is_header_def)
  then show ?thesis
    using assms wf_af_set_arguments
    by (auto simp: parse_line_def is_header_def parse_header_def use_var_def unread_def all_read_def
        rbind_eq_Ok_iff set_arguments_def vec_resize_def split: prod.splits if_splits option.splits)
qed

lemma parse_lines_inv:
  "rfold parse_line ls st = Ok st' \<Longrightarrow> all_read st \<Longrightarrow> filter is_header ls = [] \<Longrightarrow> all_read st'"
  "rfold parse_line ls st = Ok st' \<Longrightarrow> unread st \<Longrightarrow> length (filter is_header ls) \<le> 1 \<Longrightarrow> all_read st'"
proof (induction ls arbitrary: st)
  case (Cons l ls)
  {
    case 1
    then obtain st1 where "parse_line l st = Ok st1" "rfold parse_line ls st1 = Ok st'"
      by (auto simp: rbind_eq_Ok_iff)
    then show ?case using 1 parse_attack_inv(1) [of l st st1] Cons.IH(1) by (auto split: if_splits)
  next
    case 2
    then obtain st1 where st1: "parse_line l st = Ok st1" "rfold parse_line ls st1 = Ok st'"
      by (auto simp: rbind_eq_Ok_iff)
    show ?case
    proof (cases "is_header l")
      case True
      then show ?thesis using 2 st1 parse_header_inv [OF st1(1)] Cons.IH(1) by simp
    next
      case False
      then show ?thesis using 2 st1 parse_attack_inv(2) [OF st1(1)] Cons.IH(2) by simp
    qed
  }
qed (auto dest: unread_all_read)

text \<open>
  C15. If the parser returns for a file with at most one header line, then whatever else the
  file contains the framework is well-formed, has fewer than \<open>INT_MAX\<close> arguments, and all of them
  are active.
\<close>

theorem parse_wf:
  assumes "files file = Some content" "parse_i23 files new_AF file = Ok (af, act)"
    "length (filter is_header (getlines content)) \<le> 1"
  shows "wf_af af \<and> int (args af) < INT_MAX \<and> act = all_active af"
proof -
  obtain st where "rfold parse_line (getlines content) (parse_start new_AF) = Ok st"
    "af = ps_af st" "act = \<lparr>bs_array = ps_array st, bs_bitset = ps_bitset st\<rparr>"
    using assms(1,2) by (auto simp: parse_i23_def rbind_eq_Ok_iff)
  moreover then have "all_read st"
    using parse_lines_inv(2) assms(3) by (simp add: unread_def parse_start_def)
  ultimately show ?thesis by (simp add: all_read_def all_active_def)
qed

theorem parse_wf_witness:
  "parse_i23 [''f'' \<mapsto> ''p af 2\<newline>1 2\<newline>''] new_AF ''f'' =
     Ok (\<lparr>args = 2, attackers = [[], [0]], attacked = [[1], []]\<rparr>,
       \<lparr>bs_array = [0, 1], bs_bitset = [True, True]\<rparr>) \<and>
   wf_af \<lparr>args = 2, attackers = [[], [0]], attacked = [[1], []]\<rparr> \<and>
   \<lparr>bs_array = [0, 1], bs_bitset = [True, True]\<rparr> =
     all_active \<lparr>args = 2, attackers = [[], [0]], attacked = [[1], []]\<rparr>"
proof -
  have p: "parse_i23 [''f'' \<mapsto> ''p af 2\<newline>1 2\<newline>''] new_AF ''f'' =
     Ok (\<lparr>args = 2, attackers = [[], [0]], attacked = [[1], []]\<rparr>,
       \<lparr>bs_array = [0, 1], bs_bitset = [True, True]\<rparr>)" by code_simp
  have "length (filter is_header (getlines ''p af 2\<newline>1 2\<newline>'')) \<le> 1" by code_simp
  from parse_wf [OF _ p this] p show ?thesis by simp
qed

section \<open>Errors\<close>

lemma parse_bad_attack:
  assumes "parsed n att st" "int n < INT_MAX" "a < 2 ^ 32" "b < 2 ^ 32" "\<not> line_ok n (Attack a b)"
  shows "parse_line (write_line (Attack a b)) st = Fault OutOfBounds"
proof -
  have wf: "wf_af (ps_af st)" "args (ps_af st) = n" using assms(1) by (simp_all add: parsed_def)
  have out: "\<not> u32 (int x - 1) < n" if "x < 2 ^ 32" "\<not> (1 \<le> x \<and> x \<le> n)" for x
  proof (cases "x = 0")
    case True
    then show ?thesis using assms(2) by (simp add: u32_def INT_MAX_def)
  next
    case False
    then show ?thesis using that u32_id [of "x - 1"] by (simp add: of_nat_diff)
  qed
  have "\<not> (u32 (int a - 1) < n \<and> u32 (int b - 1) < n)"
    using out [of a] out [of b] assms(3-5) by auto
  then have "add_attack (u32 (int a - 1)) (u32 (int b - 1)) (ps_af st) = Fault OutOfBounds"
    using add_attack_fault [OF wf(1)] wf(2) by simp
  then show ?thesis unfolding parse_attack_line [OF assms(3,4)] by simp
qed

text \<open>
  C16. Errors: a missing file ends the program with code 1, and the first attack line with a
  number outside the declared range makes the parser access a vector out of bounds, for the
  number 0 as well, which wraps around.
\<close>

theorem parse_errors:
  assumes "list_all (line_ok n) ls" "int n < INT_MAX" "a < 2 ^ 32" "b < 2 ^ 32"
    "\<not> (1 \<le> a \<and> a \<le> n \<and> 1 \<le> b \<and> b \<le> n)"
  shows "parse_i23 [g \<mapsto> write_i23 n (ls @ [Attack a b])] new_AF g = Fault OutOfBounds \<and>
    parse_i23 (\<lambda>_. None) new_AF g = Fault (Exit 1)"
proof -
  have "list_all (\<lambda>l. CHR ''\<newline>'' \<notin> set l) ((''p af '' @ show_nat n) # map write_line (ls @ [Attack a b]))"
    using assms(1) by (auto simp: list_all_iff show_nat_not_in is_digit_def dest: write_line_no_newline)
  from getlines_lines [OF this]
  have lines: "getlines (write_i23 n (ls @ [Attack a b])) =
      (''p af '' @ show_nat n) # map write_line ls @ [write_line (Attack a b), []]"
    by (simp add: write_i23_def comp_def)
  obtain st1 where st1: "parse_line (''p af '' @ show_nat n) (parse_start new_AF) = Ok st1"
    "parsed n (\<lambda>a b. False) st1" using parse_header_ok [OF assms(2)] by blast
  obtain st where "rfold parse_line (map write_line ls) st1 = Ok st"
    "parse_line (write_line (Attack a b)) st = Fault OutOfBounds"
    using parse_lines_ok [OF st1(2) assms(2,1)] parse_bad_attack [OF _ assms(2-4)] assms(5) by auto
  then show ?thesis
    using st1(1) unfolding parse_i23_def fun_upd_same option.case lines by (simp add: rfold_append)
qed

theorem parse_errors_witness:
  "list_all (line_ok 2) [Attack 1 2] \<and>
   parse_i23 [''f'' \<mapsto> write_i23 2 ([Attack 1 2] @ [Attack 0 1])] new_AF ''f'' = Fault OutOfBounds"
  using parse_errors [of 2 "[Attack 1 2]" 0 1 "''f''"] by (simp add: INT_MAX_def)

text \<open>
  Lines that hold only white space are taken for attack lines, because the test for an empty
  line looks at the length: in a file with carriage returns at the line ends, a blank line
  before the first attack makes the parser use uninitialised variables, and a later one adds
  the previous attack once more.
\<close>

theorem parse_blank_cr:
  "parse_i23 [''f'' \<mapsto> ''p af 2'' @ [CHR 0x0D] @ ''\<newline>'' @ [CHR 0x0D] @ ''\<newline>1 2''] new_AF ''f'' =
     Fault Uninitialised \<and>
   parse_i23 [''f'' \<mapsto> ''p af 2'' @ [CHR 0x0D] @ ''\<newline>1 2'' @ [CHR 0x0D] @ ''\<newline>'' @ [CHR 0x0D] @ ''\<newline>'']
     new_AF ''f'' =
     Ok (\<lparr>args = 2, attackers = [[], [0, 0]], attacked = [[1, 1], []]\<rparr>,
       \<lparr>bs_array = [0, 1], bs_bitset = [True, True]\<rparr>)"
  by code_simp

end
