(* ===== verification/Printing.thy ===== *)
theory Printing
  imports AF_Core
begin

text \<open>
  The output format of \<open>print_extension\<close> and \<open>print_sequence\<close> (\<open>include/AF.h\<close>) is unambiguous:
  from the text of any number of printed extensions or sequences, each followed by a comma, the
  printed lists can be recovered. The locale \<open>listed_items\<close> is the common argument for a
  bracketed, comma-separated list; it is used for the numbers of an extension and for the
  extensions of a sequence.
\<close>

fun join :: "string list \<Rightarrow> string" where
  "join [] = ''''"
| "join [x] = x"
| "join (x # y # ys) = x @ '','' @ join (y # ys)"

lemma join_Cons: "join (x # xs) = x @ (if xs = [] then '''' else '','' @ join xs)"
  by (cases xs) auto

lemma join_indexed:
  "concat (map (\<lambda>i. f (xs ! i) @ (if i \<noteq> length xs - 1 then '','' else '''')) [0..<length xs]) =
     join (map f xs)"
proof (induction xs)
  case (Cons x xs)
  let ?g = "\<lambda>xs i. f (xs ! i) @ (if i \<noteq> length xs - 1 then '','' else '''')"
  have "[0..<length (x # xs)] = 0 # map Suc [0..<length xs]"
    unfolding map_Suc_upt by (simp add: upt_conv_Cons del: upt_Suc)
  moreover have "map (?g (x # xs) \<circ> Suc) [0..<length xs] = map (?g xs) [0..<length xs]"
    by (rule map_cong) auto
  ultimately have "concat (map (?g (x # xs)) [0..<length (x # xs)]) =
      ?g (x # xs) 0 @ concat (map (?g xs) [0..<length xs])"
    by (simp only: list.map map_map concat.simps)
  then show ?case unfolding Cons.IH by (simp add: join_Cons)
qed simp

locale listed_items =
  fixes item :: "'a \<Rightarrow> string"
    and valid :: "'a \<Rightarrow> bool"
    and close :: char
  assumes item_start: "valid x \<Longrightarrow> \<exists>c cs. item x = c # cs \<and> c \<noteq> close"
    and item_end: "valid x \<Longrightarrow> valid y \<Longrightarrow> c \<in> {CHR '','', close} \<Longrightarrow> d \<in> {CHR '','', close} \<Longrightarrow>
      item x @ c # s = item y @ d # t \<Longrightarrow> x = y \<and> c = d \<and> s = t"
    and close_sep: "close \<noteq> CHR '',''"
begin

lemma join_item:
  "join (map item (x # xs)) @ close # s =
     item x @ (if xs = [] then close else CHR '','') #
       (if xs = [] then s else join (map item xs) @ close # s)"
  by (simp add: join_Cons)

lemma join_inj:
  "list_all valid xs \<Longrightarrow> list_all valid ys \<Longrightarrow>
     join (map item xs) @ close # s = join (map item ys) @ close # t \<Longrightarrow> xs = ys \<and> s = t"
proof (induction xs arbitrary: ys)
  case Nil
  show ?case
  proof (cases ys)
    case (Cons y ys')
    then obtain c cs where "item y = c # cs" "c \<noteq> close" using item_start [of y] Nil.prems by auto
    then show ?thesis using Nil.prems(3) unfolding Cons join_item by simp
  qed (use Nil in simp)
next
  case (Cons x xs)
  show ?case
  proof (cases ys)
    case Nil
    obtain c cs where "item x = c # cs" "c \<noteq> close" using item_start [of x] Cons.prems by auto
    then show ?thesis using Cons.prems(3) unfolding Nil join_item by simp
  next
    case ys: (Cons y ys')
    have val: "valid x" "valid y" "list_all valid xs" "list_all valid ys'"
      using Cons.prems(1,2) ys by auto
    have "x = y \<and> (if xs = [] then close else CHR '','') = (if ys' = [] then close else CHR '','') \<and>
        (if xs = [] then s else join (map item xs) @ close # s) =
        (if ys' = [] then t else join (map item ys') @ close # t)"
      by (rule item_end [OF val(1,2) _ _ Cons.prems(3) [unfolded ys join_item]]) simp_all
    then show ?thesis
      using close_sep Cons.IH [OF val(3,4)] ys by (cases "xs = []"; cases "ys' = []") simp_all
  qed
qed

end

text \<open>The numbers of an extension.\<close>

definition printable :: "nat list \<Rightarrow> bool" where
  "printable extension \<longleftrightarrow> list_all (\<lambda>a. a < 2 ^ 32 - 1) extension"

interpretation ext: listed_items
  "\<lambda>a. show_nat (u32 (int a + 1))" "\<lambda>a. a < 2 ^ 32 - 1" "CHR '']''"
proof (unfold_locales, goal_cases)
  case (1 a)
  then show ?case
    using show_nat_nonempty show_nat_not_in [of "CHR '']''" "u32 (int a + 1)"]
    by (cases "show_nat (u32 (int a + 1))") (auto simp: is_digit_def)
next
  case (2 a b c d s t)
  let ?n = "\<lambda>a. show_nat (u32 (int a + 1))"
  have nd: "\<not> is_digit c" "\<not> is_digit d" using 2(3,4) by (auto simp: is_digit_def)
  have tw: "takeWhile is_digit (?n x @ e # r) = ?n x \<and> dropWhile is_digit (?n x @ e # r) = e # r"
    if "\<not> is_digit e" for x e r
    using show_nat_digits [of "u32 (int x + 1)"] that
    by (simp add: takeWhile_append2 dropWhile_append2)
  have "?n a = ?n b \<and> c # s = d # t" using tw [OF nd(1), of a s] tw [OF nd(2), of b t] 2(5) by metis
  moreover have "u32 (int x + 1) = x + 1" if "x < 2 ^ 32 - 1" for x
    using u32_id [of "x + 1"] that by (simp add: add.commute)
  ultimately show ?case using 2(1,2) by (simp add: show_nat_inj)
qed simp

lemma print_extension_join:
  "print_extension e = ''['' @ join (map (\<lambda>a. show_nat (u32 (int a + 1))) e) @ '']''"
  by (simp only: print_extension_def join_indexed [of "\<lambda>a. show_nat (u32 (int a + 1))"])

lemma print_extension_prefix:
  "printable e \<Longrightarrow> printable e' \<Longrightarrow> print_extension e @ s = print_extension e' @ t \<Longrightarrow> e = e' \<and> s = t"
  using ext.join_inj [of e e' s t] by (simp add: print_extension_join printable_def)

text \<open>The extensions of a sequence.\<close>

interpretation seq: listed_items print_extension printable "CHR '')''"
proof (unfold_locales, goal_cases)
  case (2 x y c d s t)
  then show ?case using print_extension_prefix [of x y "c # s" "d # t"] by simp
qed (simp_all add: print_extension_join)

lemma print_sequence_join: "print_sequence ss = ''('' @ join (map print_extension ss) @ '')''"
  by (simp only: print_sequence_def join_indexed)

lemma print_sequence_prefix:
  "list_all printable ss \<Longrightarrow> list_all printable ss' \<Longrightarrow>
     print_sequence ss @ s = print_sequence ss' @ t \<Longrightarrow> ss = ss' \<and> s = t"
  using seq.join_inj [of ss ss' s t] by (simp add: print_sequence_join)

text \<open>
  The output is unambiguous: two outputs of the enumerators of sequences, each a
  concatenation of printed sequences followed by commas, are equal only if they list the same
  sequences of the same sets in the same order.
\<close>

theorem output_unambiguous:
  assumes "list_all (list_all printable) xs" "list_all (list_all printable) ys"
    and "concat (map (\<lambda>s. print_sequence s @ '','') xs) = concat (map (\<lambda>s. print_sequence s @ '','') ys)"
  shows "xs = ys"
proof (rule prefix_free_concat [OF _ _ assms])
  show "prefix_free (\<lambda>s. print_sequence s @ '','') (list_all printable)"
  proof (rule prefix_freeI)
    fix x y s t assume "list_all printable x" "list_all printable y"
      "(print_sequence x @ '','') @ s = (print_sequence y @ '','') @ t"
    then show "x = y \<and> s = t"
      using print_sequence_prefix [of x y "'','' @ s" "'','' @ t"] by simp
  qed
qed simp

theorem output_unambiguous_witness:
  "list_all (list_all printable) [[[0], [3, 1]], []] \<and>
   concat (map (\<lambda>s. print_sequence s @ '','') [[[0], [3, 1]], []]) = ''([1],[4,2]),(),'' \<and>
   [[[0], [3, 1]], []] = [[[0], [3, 1]], []]"
proof -
  have v: "list_all (list_all printable) [[[0], [3, 1]], []]" by (simp add: printable_def)
  have "concat (map (\<lambda>s. print_sequence s @ '','') [[[0], [3, 1]], []]) = ''([1],[4,2]),(),''"
    by code_simp
  then show ?thesis using v output_unambiguous [OF v v refl] by simp
qed

end
