(* ===== verification/Main_Program.thy ===== *)
theory Main_Program
  imports Sequence_Correct I23_Parser Printing
begin

text \<open>
  The command line program, \<open>src/Main.cpp\<close>: the names of tasks and semantics, the option
  handling and the dispatch to the enumerators. What \<open>getopt_long_only\<close> reports for the command
  line is an argument of \<open>main\<close>, the list of its results in order; the SAT engine and the file
  system are arguments too. The result is what is written to standard output and to standard
  error, and the exit code.
\<close>

section \<open>Definitions\<close>

datatype task = ES | EE | AS | SE | MA | UNKNOWN_TASK

datatype semantics = IT | CO | ST | PR | AD | SA | GR | UC | UNKNOWN_SEM

text \<open>\<open>s.substr(0, s.find("-"))\<close>; without a dash \<open>find\<close> is \<open>npos\<close> and the whole text is taken.\<close>

definition before_dash :: "string \<Rightarrow> string" where
  "before_dash s = takeWhile (\<lambda>c. c \<noteq> CHR ''-'') s"

text \<open>\<open>s.erase(0, s.find("-") + 1)\<close>; without a dash \<open>npos + 1\<close> wraps around to 0.\<close>

definition after_dash :: "string \<Rightarrow> string" where
  "after_dash s = (if CHR ''-'' \<in> set s then tl (dropWhile (\<lambda>c. c \<noteq> CHR ''-'') s) else s)"

definition string_to_task :: "string \<Rightarrow> task" where
  "string_to_task problem = (let tmp = before_dash problem in
     if tmp = ''ES'' then ES
     else if tmp = ''EE'' then EE
     else if tmp = ''AS'' then AS
     else if tmp = ''SE'' then SE
     else if tmp = ''MA'' then MA
     else UNKNOWN_TASK)"

definition string_to_sem :: "string \<Rightarrow> semantics" where
  "string_to_sem problem = (let tmp = before_dash (after_dash problem) in
     if tmp = ''IT'' then IT
     else if tmp = ''CO'' then CO
     else if tmp = ''ST'' then ST
     else if tmp = ''PR'' then PR
     else if tmp = ''AD'' then AD
     else if tmp = ''GR'' then GR
     else if tmp = ''SA'' then SA
     else if tmp = ''UC'' then UC
     else UNKNOWN_SEM)"

definition print_usage :: "string \<Rightarrow> string" where
  "print_usage solver_name = ''Usage: '' @ solver_name @ '' -p <task> -f <file> -fo <format> \<newline>\<newline>'' @
     ''  <task>      computational problem; for a list of available problems use option --problems\<newline>'' @
     ''  <file>      input argumentation framework\<newline>'' @
     ''  <format>    file format for input AF; for a list of available formats use option --formats\<newline>'' @
     '' <query>'' @ [CHR 0x09, CHR 0x09] @ ''query argument or extension\<newline>'' @
     ''Options:\<newline>'' @
     ''  --help      Displays this help message.\<newline>'' @
     ''  --version   Prints version and author information.\<newline>'' @
     ''  --formats   Prints available file formats.\<newline>'' @
     ''  --problems  Prints available computational tasks.\<newline>''"

definition print_version :: "string \<Rightarrow> string" where
  "print_version solver_name = solver_name @ '' (version 1.2)\<newline>'' @
     ''Lars Bengel, University of Hagen <lars.bengel@fernuni-hagen.de>\<newline>''"

definition print_formats :: string where
  "print_formats = ''[i23]\<newline>''"

definition print_problems :: string where
  "print_problems = ''[ES-AD,ES-PR,ES-SA,ES-GR,ES-CO,ES-ST,EE-IT]\<newline>''"

text \<open>
  The results of \<open>getopt_long_only\<close> for the option table of the program: a flag option sets its
  variable and returns 0, the others return their character with \<open>optarg\<close>, and anything else is
  \<open>'?'\<close>.
\<close>

datatype opt = Opt_help | Opt_version | Opt_formats | Opt_problems
  | Opt_p string | Opt_f string | Opt_fo string | Opt_a string | Opt_unknown

record options =
  usage_flag :: bool
  version_flag :: bool
  formats_flag :: bool
  problems_flag :: bool
  o_task :: string
  o_file :: string
  o_fileformat :: string
  o_query :: string

definition no_options :: options where
  "no_options = \<lparr>usage_flag = False, version_flag = False, formats_flag = False,
     problems_flag = False, o_task = '''', o_file = '''', o_fileformat = '''', o_query = ''''\<rparr>"

fun read_options :: "opt list \<Rightarrow> options \<Rightarrow> options option" where
  "read_options [] os = Some os"
| "read_options (Opt_help # r) os = read_options r (os\<lparr>usage_flag := True\<rparr>)"
| "read_options (Opt_version # r) os = read_options r (os\<lparr>version_flag := True\<rparr>)"
| "read_options (Opt_formats # r) os = read_options r (os\<lparr>formats_flag := True\<rparr>)"
| "read_options (Opt_problems # r) os = read_options r (os\<lparr>problems_flag := True\<rparr>)"
| "read_options (Opt_p s # r) os = read_options r (os\<lparr>o_task := s\<rparr>)"
| "read_options (Opt_f s # r) os = read_options r (os\<lparr>o_file := s\<rparr>)"
| "read_options (Opt_fo s # r) os = read_options r (os\<lparr>o_fileformat := s\<rparr>)"
| "read_options (Opt_a s # r) os = read_options r (os\<lparr>o_query := s\<rparr>)"
| "read_options (Opt_unknown # r) os = None"

text \<open>\<open>std::stoi\<close>: white space, a sign, digits; the exceptions are not caught.\<close>

definition stoi :: "string \<Rightarrow> int result" where
  "stoi s = (let t = dropWhile is_space s;
       neg = (t \<noteq> '''' \<and> hd t = CHR ''-'');
       body = (if neg \<or> (t \<noteq> '''' \<and> hd t = CHR ''+'') then tl t else t);
       digits = takeWhile is_digit body;
       v = (if neg then - int (read_nat digits) else int (read_nat digits))
     in if digits = '''' then Fault Uncaught
        else if v < INT_MIN \<or> INT_MAX < v then Fault Uncaught
        else Ok v)"

text \<open>\<open>std::stoi(query) - 1\<close>, converted to \<open>uint32_t\<close>.\<close>

definition query_argument :: "string \<Rightarrow> nat result" where
  "query_argument query = rbind (stoi query) (\<lambda>i.
     if i = INT_MIN then Fault SignedOverflow else Ok (u32 (i - 1)))"

record outcome =
  stdout :: string
  stderr :: string
  code :: int

definition success :: "string \<Rightarrow> outcome" where
  "success out = \<lparr>stdout = out, stderr = '''', code = 0\<rparr>"

definition failure :: "string \<Rightarrow> outcome" where
  "failure msg = \<lparr>stdout = '''', stderr = msg, code = 1\<rparr>"

text \<open>The last statements of \<open>main\<close> after a successful case of the dispatch.\<close>

definition finish :: "string result \<Rightarrow> outcome result" where
  "finish r = rbind r (\<lambda>out. Ok (success (out @ ''\<newline>'')))"

definition run_task ::
    "engine \<Rightarrow> string \<Rightarrow> string \<Rightarrow> string \<Rightarrow> AF \<Rightarrow> IterableBitSet \<Rightarrow> outcome result" where
  "run_task eng argv0 tsk query aaf active_arguments =
     (let unsupported = Ok (failure (argv0 @ '': Semantics not supported!\<newline>'')) in
      case string_to_task tsk of
        ES \<Rightarrow> (case string_to_sem tsk of
            AD \<Rightarrow> finish (enumerate_sequences_admissible eng aaf active_arguments False)
          | PR \<Rightarrow> finish (enumerate_sequences_admissible eng aaf active_arguments True)
          | SA \<Rightarrow> finish (enumerate_sequences_strong_admissible aaf active_arguments False)
          | GR \<Rightarrow> finish (enumerate_sequences_strong_admissible aaf active_arguments True)
          | CO \<Rightarrow> finish (enumerate_sequences_complete eng aaf active_arguments)
          | ST \<Rightarrow> finish (enumerate_sequences_stable eng aaf active_arguments)
          | UC \<Rightarrow> finish (enumerate_sequences_unchallenged eng aaf active_arguments True)
          | _ \<Rightarrow> unsupported)
      | EE \<Rightarrow> (case string_to_sem tsk of
            IT \<Rightarrow> finish (rbind (enumerate_initial eng aaf active_arguments) (\<lambda>result.
                    Ok (concat (map (\<lambda>e. print_extension e @ '','') result))))
          | _ \<Rightarrow> unsupported)
      | AS \<Rightarrow> (if query = '''' then Ok (failure (argv0 @ '': Query argument must be specified via -a flag\<newline>''))
          else rbind (query_argument query) (\<lambda>argument.
            case string_to_sem tsk of
              AD \<Rightarrow> finish (sequences_argument_admissible eng aaf active_arguments argument)
            | _ \<Rightarrow> unsupported))
      | _ \<Rightarrow> Ok (failure (argv0 @ '': Problem not supported!\<newline>'')))"

definition main :: "engine \<Rightarrow> (string \<Rightarrow> string option) \<Rightarrow> nat \<Rightarrow> string \<Rightarrow> opt list \<Rightarrow> outcome result" where
  "main eng files argc argv0 opts =
     (if argc = 1 then Ok (success (print_version argv0))
      else case read_options opts no_options of
        None \<Rightarrow> Ok (failure '''')
      | Some os \<Rightarrow>
         if version_flag os then Ok (success (print_version argv0))
         else if usage_flag os then Ok (success (print_usage argv0))
         else if formats_flag os then Ok (success print_formats)
         else if problems_flag os then Ok (success print_problems)
         else if o_task os = '''' then Ok (failure (argv0 @ '': Task must be specified via -p flag\<newline>''))
         else if o_file os = '''' then Ok (failure (argv0 @ '': Input file must be specified via -f flag\<newline>''))
         else let fileformat = (if o_fileformat os = '''' then ''i23'' else o_fileformat os) in
           rbind (parse_i23 files new_AF (o_file os)) (\<lambda>(aaf, active_arguments).
             run_task eng argv0 (o_task os) (o_query os) aaf active_arguments))"

section \<open>Dispatch\<close>

lemma main_run:
  assumes "argc \<noteq> 1" "file \<noteq> ''''" "tsk \<noteq> ''''" "parse_i23 files new_AF file = Ok (af, act)"
  shows "main eng files argc argv0 [Opt_p tsk, Opt_f file] = run_task eng argv0 tsk '''' af act"
    "main eng files argc argv0 [Opt_p tsk, Opt_f file, Opt_a q] = run_task eng argv0 tsk q af act"
  using assms by (simp_all add: main_def no_options_def)

lemmas name_simps = string_to_task_def string_to_sem_def before_dash_def after_dash_def Let_def

text \<open>
  Dispatch: for each of the nine supported problems the program runs the enumerator of its
  semantics on the parsed framework, appends a line feed to its output and returns 0.
\<close>

theorem main_dispatch:
  assumes "argc \<noteq> 1" "file \<noteq> ''''" "parse_i23 files new_AF file = Ok (af, act)" "q \<noteq> ''''"
  shows "main eng files argc argv0 [Opt_p ''ES-AD'', Opt_f file] =
      finish (enumerate_sequences_admissible eng af act False) \<and>
    main eng files argc argv0 [Opt_p ''ES-PR'', Opt_f file] =
      finish (enumerate_sequences_admissible eng af act True) \<and>
    main eng files argc argv0 [Opt_p ''ES-SA'', Opt_f file] =
      finish (enumerate_sequences_strong_admissible af act False) \<and>
    main eng files argc argv0 [Opt_p ''ES-GR'', Opt_f file] =
      finish (enumerate_sequences_strong_admissible af act True) \<and>
    main eng files argc argv0 [Opt_p ''ES-CO'', Opt_f file] =
      finish (enumerate_sequences_complete eng af act) \<and>
    main eng files argc argv0 [Opt_p ''ES-ST'', Opt_f file] =
      finish (enumerate_sequences_stable eng af act) \<and>
    main eng files argc argv0 [Opt_p ''ES-UC'', Opt_f file] =
      finish (enumerate_sequences_unchallenged eng af act True) \<and>
    main eng files argc argv0 [Opt_p ''EE-IT'', Opt_f file] =
      finish (rbind (enumerate_initial eng af act)
        (\<lambda>result. Ok (concat (map (\<lambda>e. print_extension e @ '','') result)))) \<and>
    main eng files argc argv0 [Opt_p ''AS-AD'', Opt_f file, Opt_a q] =
      rbind (query_argument q) (\<lambda>x. finish (sequences_argument_admissible eng af act x))"
  using assms(4) by (simp add: main_run [OF assms(1,2) _ assms(3)] run_task_def name_simps)

definition supported :: "(task \<times> semantics) list" where
  "supported = [(ES, AD), (ES, PR), (ES, SA), (ES, GR), (ES, CO), (ES, ST), (ES, UC), (EE, IT), (AS, AD)]"

definition listed_problems :: "string list" where
  "listed_problems = [''ES-AD'', ''ES-PR'', ''ES-SA'', ''ES-GR'', ''ES-CO'', ''ES-ST'', ''EE-IT'']"

text \<open>
  The exit code: on any framework and any well-formed set of active arguments a run ends
  without an error of the program, and the exit code is 0 exactly for the supported problems;
  every other task or semantics is reported with code 1 and nothing on standard output.
\<close>

theorem run_task_code:
  assumes "env_ok eng af" "live af act" "query \<noteq> ''''" "query_argument query = Ok x"
  shows "\<exists>r. run_task eng argv0 tsk query af act = Ok r \<and>
    (code r = 0 \<longleftrightarrow> (string_to_task tsk, string_to_sem tsk) \<in> set supported) \<and>
    (code r \<noteq> 0 \<longrightarrow> code r = 1 \<and> stdout r = '''' \<and> stderr r \<noteq> '''')"
proof -
  have fin: "\<exists>r. finish m = Ok r \<and> code r = 0" if "\<exists>out. m = Ok out" for m
    using that by (auto simp: finish_def success_def)
  have init: "\<exists>out. enumerate_initial eng af act = Ok out" using init_sets_ok(1) assms(1,2) by blast
  note prints = admissible_prints [OF assms(1,2)] complete_prints [OF assms(1,2)]
    stable_prints [OF assms(1,2)] strong_admissible_prints [OF env_wf [OF assms(1)] assms(2)]
    unchallenged_prints [OF assms(1,2)] argument_prints [OF assms(1,2)]
  have ok:
    "\<exists>r. finish (enumerate_sequences_admissible eng af act p) = Ok r \<and> code r = 0"
    "\<exists>r. finish (enumerate_sequences_complete eng af act) = Ok r \<and> code r = 0"
    "\<exists>r. finish (enumerate_sequences_stable eng af act) = Ok r \<and> code r = 0"
    "\<exists>r. finish (enumerate_sequences_strong_admissible af act p) = Ok r \<and> code r = 0"
    "\<exists>r. finish (enumerate_sequences_unchallenged eng af act p) = Ok r \<and> code r = 0"
    "\<exists>r. finish (sequences_argument_admissible eng af act x) = Ok r \<and> code r = 0"
    "\<exists>r. finish (rbind (enumerate_initial eng af act)
        (\<lambda>result. Ok (concat (map (\<lambda>e. print_extension e @ '','') result)))) = Ok r \<and> code r = 0" for p
    by (rule fin; use prints init in force)+
  show ?thesis
    using assms(3,4) ok(1) [of True] ok(1) [of False] ok(2,3) ok(4) [of True] ok(4) [of False]
      ok(5) [of True] ok(6,7)
    by (cases "string_to_task tsk"; cases "string_to_sem tsk")
      (auto simp: run_task_def supported_def failure_def Let_def)
qed

text \<open>
  The text of \<open>--problems\<close> lists only supported problems, but not all of them: \<open>ES-UC\<close> and
  \<open>AS-AD\<close> are missing.
\<close>

theorem problems_listed:
  "print_problems = ''['' @ join listed_problems @ '']\<newline>'' \<and>
   set supported - set (map (\<lambda>p. (string_to_task p, string_to_sem p)) listed_problems) =
     {(ES, UC), (AS, AD)} \<and>
   set (map (\<lambda>p. (string_to_task p, string_to_sem p)) listed_problems) \<subseteq> set supported"
  by code_simp

theorem main_dispatch_witness:
  "main ref_engine [''f'' \<mapsto> ''p af 2\<newline>1 2''] 5 ''s'' [Opt_p ''ES-GR'', Opt_f ''f''] =
     finish (enumerate_sequences_strong_admissible
       \<lparr>args = 2, attackers = [[], [0]], attacked = [[1], []]\<rparr>
       \<lparr>bs_array = [0, 1], bs_bitset = [True, True]\<rparr> True)"
proof -
  have "parse_i23 [''f'' \<mapsto> ''p af 2\<newline>1 2''] new_AF ''f'' =
     Ok (\<lparr>args = 2, attackers = [[], [0]], attacked = [[1], []]\<rparr>,
       \<lparr>bs_array = [0, 1], bs_bitset = [True, True]\<rparr>)" by code_simp
  from main_dispatch [OF _ _ this, of 5 "''1''"] show ?thesis by simp
qed

theorem run_task_code_witness:
  "env_ok ref_engine loop_af \<and> live loop_af (all_active loop_af) \<and>
   (\<exists>r. run_task ref_engine ''s'' ''AS-AD'' ''3'' loop_af (all_active loop_af) = Ok r \<and> code r = 0) \<and>
   (\<exists>r. run_task ref_engine ''s'' ''ES-IT'' ''3'' loop_af (all_active loop_af) = Ok r \<and> code r = 1)"
proof -
  have q: "query_argument ''3'' = Ok 2" by code_simp
  have sup: "(string_to_task ''AS-AD'', string_to_sem ''AS-AD'') \<in> set supported"
    "(string_to_task ''ES-IT'', string_to_sem ''ES-IT'') \<notin> set supported" by code_simp+
  from run_task_code [OF loop_env live_all_active _ q] sup show ?thesis
    using loop_env live_all_active by blast
qed

text \<open>The number of an argument on the command line.\<close>

lemma query_argument_show:
  assumes "int x + 1 \<le> INT_MAX"
  shows "query_argument (show_nat (Suc x)) = Ok x"
proof -
  let ?s = "show_nat (Suc x)"
  have d: "\<forall>c \<in> set ?s. is_digit c" by (rule show_nat_digits)
  have h: "is_digit (hd ?s)" by (rule show_nat_hd)
  have w: "dropWhile is_space ?s = ?s"
    using h by (cases ?s) (auto simp: is_digit_def is_space_def)
  have s: "hd ?s \<noteq> CHR ''-''" "hd ?s \<noteq> CHR ''+''" using h by (auto simp: is_digit_def)
  have t: "takeWhile is_digit ?s = ?s" using d by simp
  have "stoi ?s = Ok (int x + 1)" using assms by (simp add: stoi_def w s t Let_def INT_MIN_def)
  then show ?thesis using assms by (simp add: query_argument_def u32_def INT_MIN_def INT_MAX_def)
qed

section \<open>From the file to the output\<close>

text \<open>The attacks of a written file, between the numbers from 0.\<close>

definition written_attacks :: "i23_line list \<Rightarrow> nat \<Rightarrow> nat \<Rightarrow> bool" where
  "written_attacks ls a b \<longleftrightarrow> Attack (a + 1) (b + 1) \<in> set ls"

lemma parse_written:
  assumes "files file = Some (write_i23 n ls)" "list_all (line_ok n) ls" "2 * int n \<le> INT_MAX"
  obtains af where "parse_i23 files new_AF file = Ok (af, all_active af)" "wf_af af" "small_af af"
    "args af = n" "attacks af = written_attacks ls"
proof -
  have "int n < INT_MAX" using assms(3) by (simp add: INT_MAX_def)
  from parse_write_ok [of files "file" n ls, OF assms(1,2) this] that assms(3) show ?thesis
    by (auto simp: small_af_def written_attacks_def fun_eq_iff)
qed

text \<open>
  C11. End to end, \<open>EE-IT\<close>: for every file with a header, attacks over the declared arguments,
  comments and blank lines, and every engine that decides satisfiability, the program prints
  the initial sets of the written framework, each exactly once, and returns 0.
\<close>

theorem main_initial:
  assumes "files file = Some (write_i23 n ls)" "list_all (line_ok n) ls" "2 * int n \<le> INT_MAX"
    "engine_ok eng" "engine_decides eng" "argc \<noteq> 1" "file \<noteq> ''''"
  shows "\<exists>Es. main eng files argc argv0 [Opt_p ''EE-IT'', Opt_f file] =
      Ok (success (concat (map (\<lambda>e. print_extension e @ '','') Es) @ ''\<newline>'')) \<and>
    distinct Es \<and> set ` set Es = {E. initial (written_attacks ls) {..<n} E}"
proof -
  obtain af where af: "parse_i23 files new_AF file = Ok (af, all_active af)" "wf_af af" "small_af af"
    "args af = n" "attacks af = written_attacks ls" using assms(1-3) by (rule parse_written)
  then have env: "env_ok eng af" using assms(4,5) by (simp add: env_ok_def)
  note init = init_sets_ok [OF env live_wf [OF live_all_active]]
  have "marks af (all_active af) = ({..<n}, {})" using marks_all_active af(4) by simp
  then have "set ` set (init_sets eng af (all_active af)) = {E. initial (written_attacks ls) {..<n} E}"
    using init(3) af(5) by (simp add: marks_def)
  then show ?thesis
    using init(1,2) by (intro exI [of _ "init_sets eng af (all_active af)"])
      (simp add: main_run [OF assms(6,7) _ af(1)] run_task_def name_simps finish_def)
qed

text \<open>The sequences each semantics of the tasks \<open>ES\<close> asks for, over the attack relation and the arguments.\<close>

definition sequences_of :: "semantics \<Rightarrow> (nat \<Rightarrow> nat \<Rightarrow> bool) \<Rightarrow> nat set \<Rightarrow> nat set list set" where
  "sequences_of sem att A = (case sem of
       AD \<Rightarrow> {Ss. ser att A Ss}
     | PR \<Rightarrow> {Ss. ser att A Ss \<and> preferred_ext att A (\<Union> (set Ss))}
     | CO \<Rightarrow> {Ss. ser att A Ss \<and> complete_ext att A (\<Union> (set Ss))}
     | ST \<Rightarrow> {Ss. ser att A Ss \<and> stable_ext att A (\<Union> (set Ss))}
     | SA \<Rightarrow> map (\<lambda>a. {a}) ` {as. gser att A as}
     | GR \<Rightarrow> map (\<lambda>a. {a}) ` {as. gser att A as \<and> grounded_ext att A (set as)}
     | UC \<Rightarrow> {Ss. ucser att A Ss \<and> \<not> (\<exists>S. unchallenged att (reduct att A (\<Union> (set Ss))) S)}
     | _ \<Rightarrow> {})"

lemma written_clean:
  assumes "wf_af af" "attacks af = written_attacks ls"
    and "\<And>a b c. written_attacks ls a c \<Longrightarrow> written_attacks ls b c \<Longrightarrow>
      a = b \<or> \<not> conflict_free (written_attacks ls) {a, b}"
  shows "no_shared_target af"
  unfolding no_shared_target_def list_all_iff
proof (intro ballI)
  fix c a b assume "c \<in> set [0..<args af]" "a \<in> set (attackers af ! c)" "b \<in> set (attackers af ! c)"
  then have "attacks af a c" "attacks af b c" using attackers_iff [OF assms(1)] by auto
  then show "a = b \<or> attacks af a b \<or> attacks af b a \<or> attacks af a a \<or> attacks af b b"
    using assms(3) [of a c b] assms(2) by (auto simp: conflict_free_def)
qed

text \<open>
  C12. End to end, all tasks \<open>ES-*\<close>: for a written framework in which two arguments that can be accepted
  together never attack the same argument, and every engine that decides satisfiability, the program prints the
  sequences of its semantics, each exactly once, and returns 0.
\<close>

theorem main_sequences:
  assumes "files file = Some (write_i23 n ls)" "list_all (line_ok n) ls" "2 * int n \<le> INT_MAX"
    "engine_ok eng" "engine_decides eng" "argc \<noteq> 1" "file \<noteq> ''''"
    and "\<And>a b c. written_attacks ls a c \<Longrightarrow> written_attacks ls b c \<Longrightarrow>
      a = b \<or> \<not> conflict_free (written_attacks ls) {a, b}"
    and "string_to_task tsk = ES" "string_to_sem tsk = sem" "sem \<in> {AD, PR, CO, ST, SA, GR, UC}"
  shows "\<exists>out. main eng files argc argv0 [Opt_p tsk, Opt_f file] = Ok (success (out @ ''\<newline>'')) \<and>
    prints_exactly emit out (sequences_of sem (written_attacks ls) {..<n})"
proof -
  obtain af where af: "parse_i23 files new_AF file = Ok (af, all_active af)" "wf_af af" "small_af af"
    "args af = n" "attacks af = written_attacks ls" using assms(1-3) by (rule parse_written)
  then have env: "env_ok eng af" using assms(4,5) by (simp add: env_ok_def)
  have clean: "no_shared_target af" by (rule written_clean [OF af(2,5) assms(8)])
  have tsk: "tsk \<noteq> ''''" using assms(9) by (auto simp: name_simps)
  note out = admissible_out [OF env clean] preferred_out [OF env clean] complete_out [OF env clean]
    stable_out [OF env clean] strong_admissible_out [OF af(2) clean] grounded_out [OF af(2) clean]
    unchallenged_out [OF env clean]
  from assms(11) out show ?thesis
    by (auto simp: main_run [OF assms(6,7) tsk af(1)] run_task_def Let_def assms(9,10) finish_def sequences_of_def af(4,5))
qed

text \<open>
  C13. End to end, \<open>AS-AD\<close>: for a written framework in which two arguments that can be accepted together never
  attack the same argument, every engine that decides satisfiability, and the number of an argument after \<open>-a\<close>, the program prints the serialisation sequences whose last set holds the argument, each exactly once, and returns 0.
\<close>

theorem main_argument:
  assumes "files file = Some (write_i23 n ls)" "list_all (line_ok n) ls" "2 * int n \<le> INT_MAX"
    "engine_ok eng" "engine_decides eng" "argc \<noteq> 1" "file \<noteq> ''''" "x < n"
    and "\<And>a b c. written_attacks ls a c \<Longrightarrow> written_attacks ls b c \<Longrightarrow>
      a = b \<or> \<not> conflict_free (written_attacks ls) {a, b}"
  shows "\<exists>out. main eng files argc argv0 [Opt_p ''AS-AD'', Opt_f file, Opt_a (show_nat (Suc x))] =
      Ok (success (out @ ''\<newline>'')) \<and>
    prints_exactly emit out {Ss. ser (written_attacks ls) {..<n} Ss \<and> Ss \<noteq> [] \<and> x \<in> last Ss}"
proof -
  obtain af where af: "parse_i23 files new_AF file = Ok (af, all_active af)" "wf_af af" "small_af af"
    "args af = n" "attacks af = written_attacks ls" using assms(1-3) by (rule parse_written)
  then have env: "env_ok eng af" using assms(4,5) by (simp add: env_ok_def)
  have clean: "no_shared_target af" by (rule written_clean [OF af(2,5) assms(9)])
  have q: "query_argument (show_nat (Suc x)) = Ok x" by (rule query_argument_show) (use assms(3,8) in simp)
  from argument_out [OF env clean, of x] show ?thesis
    by (auto simp: main_run [OF assms(6,7) _ af(1)] run_task_def name_simps finish_def q af(4,5))
qed

text \<open>
  End to end, \<open>ES-PR\<close>: for a written framework in which two arguments that can be accepted
  together never attack the same argument, the program prints the serialisation sequences of
  the preferred extensions, each exactly once, every preferred extension has one, and it
  returns 0.
\<close>

theorem main_preferred:
  assumes "files file = Some (write_i23 n ls)" "list_all (line_ok n) ls" "2 * int n \<le> INT_MAX"
    "engine_ok eng" "engine_decides eng" "argc \<noteq> 1" "file \<noteq> ''''"
    and "\<And>a b c. written_attacks ls a c \<Longrightarrow> written_attacks ls b c \<Longrightarrow>
      a = b \<or> \<not> conflict_free (written_attacks ls) {a, b}"
  shows "\<exists>out. main eng files argc argv0 [Opt_p ''ES-PR'', Opt_f file] = Ok (success (out @ ''\<newline>'')) \<and>
    prints_exactly emit out {Ss. ser (written_attacks ls) {..<n} Ss \<and>
      preferred_ext (written_attacks ls) {..<n} (\<Union> (set Ss))} \<and>
    (\<lambda>Ss. \<Union> (set Ss)) ` {Ss. ser (written_attacks ls) {..<n} Ss \<and>
      preferred_ext (written_attacks ls) {..<n} (\<Union> (set Ss))} =
      {E. preferred_ext (written_attacks ls) {..<n} E}"
proof -
  obtain af where af: "parse_i23 files new_AF file = Ok (af, all_active af)" "wf_af af" "small_af af"
    "args af = n" "attacks af = written_attacks ls" using assms(1-3) by (rule parse_written)
  then have env: "env_ok eng af" using assms(4,5) by (simp add: env_ok_def)
  have "no_shared_target af" by (rule written_clean [OF af(2,5) assms(8)])
  from preferred_out [OF env this] show ?thesis
    by (auto simp: main_run [OF assms(6,7) _ af(1)] run_task_def name_simps finish_def af(4,5))
qed

theorem main_initial_witness:
  "\<exists>Es. main ref_engine [''f'' \<mapsto> write_i23 3 [Attack 1 2, Attack 2 1, Attack 2 3]] 5 ''s''
      [Opt_p ''EE-IT'', Opt_f ''f''] =
      Ok (success (concat (map (\<lambda>e. print_extension e @ '','') Es) @ ''\<newline>'')) \<and>
    distinct Es \<and>
    set ` set Es = {E. initial (written_attacks [Attack 1 2, Attack 2 1, Attack 2 3]) {..<3} E}"
  by (rule main_initial) (simp_all add: INT_MAX_def engine_ok_ref engine_decides_ref)

theorem main_preferred_witness:
  "\<exists>out. main ref_engine [''f'' \<mapsto> write_i23 3 [Attack 1 2, Attack 2 1, Attack 2 3]] 5 ''s''
      [Opt_p ''ES-PR'', Opt_f ''f''] = Ok (success (out @ ''\<newline>'')) \<and>
    prints_exactly emit out {Ss. ser (written_attacks [Attack 1 2, Attack 2 1, Attack 2 3]) {..<3} Ss \<and>
      preferred_ext (written_attacks [Attack 1 2, Attack 2 1, Attack 2 3]) {..<3} (\<Union> (set Ss))} \<and>
    (\<lambda>Ss. \<Union> (set Ss)) ` {Ss. ser (written_attacks [Attack 1 2, Attack 2 1, Attack 2 3]) {..<3} Ss \<and>
      preferred_ext (written_attacks [Attack 1 2, Attack 2 1, Attack 2 3]) {..<3} (\<Union> (set Ss))} =
      {E. preferred_ext (written_attacks [Attack 1 2, Attack 2 1, Attack 2 3]) {..<3} E}"
  by (rule main_preferred)
    (auto simp: INT_MAX_def engine_ok_ref engine_decides_ref written_attacks_def)

theorem main_sequences_witness:
  "\<exists>out. main ref_engine [''f'' \<mapsto> write_i23 3 [Attack 1 2, Attack 2 1, Attack 2 3]] 5 ''s''
      [Opt_p ''ES-CO'', Opt_f ''f''] = Ok (success (out @ ''\<newline>'')) \<and>
    prints_exactly emit out (sequences_of CO (written_attacks [Attack 1 2, Attack 2 1, Attack 2 3]) {..<3})"
  by (rule main_sequences)
    (auto simp: INT_MAX_def engine_ok_ref engine_decides_ref written_attacks_def name_simps)

theorem main_argument_witness:
  "\<exists>out. main ref_engine [''f'' \<mapsto> write_i23 3 [Attack 1 2, Attack 2 1, Attack 2 3]] 5 ''s''
      [Opt_p ''AS-AD'', Opt_f ''f'', Opt_a (show_nat (Suc 2))] = Ok (success (out @ ''\<newline>'')) \<and>
    prints_exactly emit out {Ss. ser (written_attacks [Attack 1 2, Attack 2 1, Attack 2 3]) {..<3} Ss \<and> Ss \<noteq> [] \<and> 2 \<in> last Ss}"
  by (rule main_argument)
    (auto simp: INT_MAX_def engine_ok_ref engine_decides_ref written_attacks_def)

end
