(* ===== verification/Proof_File.thy ===== *)
theory Proof_File
  imports Prelude "HOL-Library.Word"
begin

unbundle bit_operations_syntax

text \<open>
  Writing proofs: the character output of \<open>lib/cadical-1.9.5/src/file.hpp\<close> and the variable
  length encoding of literals and clause identifiers that the proof tracers of CaDiCaL share.

  A file is open or closed and holds what was written to it; writing does not fail. The
  decimal output fills a buffer of fixed size from the end; running over its start is the
  fault \<open>OutOfBounds\<close>, and \<open>put_number_correct\<close> shows that it never happens. An encoder is
  \<open>prefix_free\<close> if what follows an encoded value does not matter for reading it; the encoders of
  the tracers are built from prefix free ones.
\<close>

section \<open>Files\<close>

record pfile =
  f_opened :: bool
  f_text :: string
  f_bytes :: nat

definition put_char :: "char \<Rightarrow> pfile \<Rightarrow> pfile" where
  "put_char ch f = f\<lparr>f_text := f_text f @ [ch], f_bytes := f_bytes f + 1\<rparr>"

fun put_str :: "string \<Rightarrow> pfile \<Rightarrow> pfile" where
  "put_str [] f = f"
| "put_str (ch # s) f = put_str s (put_char ch f)"

definition pfile_closed :: "pfile \<Rightarrow> bool" where
  "pfile_closed f \<longleftrightarrow> \<not> f_opened f"

definition pfile_close :: "pfile \<Rightarrow> pfile" where
  "pfile_close f = f\<lparr>f_opened := False\<rparr>"

lemma put_str_eq: "put_str s f = f\<lparr>f_text := f_text f @ s, f_bytes := f_bytes f + length s\<rparr>"
  by (induction s arbitrary: f) (simp_all add: put_char_def)

section \<open>Decimal output\<close>

text \<open>
  The loop \<open>while (idx) { buffer[--i] = '0' + idx % 10; idx /= 10; }\<close>; the first argument is the
  number \<open>i\<close> of free cells, the last the text already in the buffer.
\<close>

function fill_digits :: "nat \<Rightarrow> nat \<Rightarrow> string \<Rightarrow> string result" where
  "fill_digits i idx buf =
     (if idx = 0 then Ok buf
      else if i = 0 then Fault OutOfBounds
      else fill_digits (i - 1) (idx div 10) (digit_char (idx mod 10) # buf))"
  by auto
termination by (relation "measure (\<lambda>(i, idx, buf). idx)") auto

declare fill_digits.simps [simp del]

definition INT64_MIN :: int where
  "INT64_MIN = - (2 ^ 63)"

text \<open>The buffers have 11, 21 and 22 cells, one of them for the terminating zero.\<close>

definition put_int :: "int \<Rightarrow> string result" where
  "put_int lit =
     (if lit = 0 then Ok ''0''
      else if lit = INT_MIN then Ok ''-2147483648''
      else rbind (fill_digits 10 (nat \<bar>lit\<bar>) '''') (\<lambda>buf.
             Ok ((if lit < 0 then ''-'' else '''') @ buf)))"

definition put_int64 :: "int \<Rightarrow> string result" where
  "put_int64 l =
     (if l = 0 then Ok ''0''
      else if l = INT64_MIN then Ok ''-9223372036854775808''
      else rbind (fill_digits 20 (nat \<bar>l\<bar>) '''') (\<lambda>buf.
             Ok ((if l < 0 then ''-'' else '''') @ buf)))"

definition put_uint64 :: "nat \<Rightarrow> string result" where
  "put_uint64 l = (if l = 0 then Ok ''0'' else fill_digits 21 l '''')"

lemma fill_digits_show:
  "0 < n \<Longrightarrow> n < 10 ^ i \<Longrightarrow> fill_digits i n buf = Ok (show_nat n @ buf)"
proof (induction n arbitrary: i buf rule: less_induct)
  case (less n)
  then have "i \<noteq> 0" by (cases i) auto
  show ?case
  proof (cases "n < 10")
    case True
    then show ?thesis
      using less.prems \<open>i \<noteq> 0\<close>
      by (simp add: fill_digits.simps [of i n] fill_digits.simps [of _ 0] show_nat.simps [of n])
  next
    case False
    then have "n div 10 < 10 ^ (i - 1)" "0 < n div 10" "n div 10 < n"
      using less.prems \<open>i \<noteq> 0\<close> by (simp_all add: less_mult_imp_div_less power_eq_if mult.commute)
    then show ?thesis
      using less.IH [of "n div 10" "i - 1"] less.prems \<open>i \<noteq> 0\<close> False
      by (simp add: fill_digits.simps [of i n] show_nat.simps [of n])
  qed
qed

definition show_int :: "int \<Rightarrow> string" where
  "show_int i = (if i < 0 then ''-'' @ show_nat (nat (- i)) else show_nat (nat i))"

lemma digit_chars:
  "digit_char 0 = CHR ''0''" "digit_char (Suc 0) = CHR ''1''" "digit_char 2 = CHR ''2''"
  "digit_char 3 = CHR ''3''" "digit_char 4 = CHR ''4''" "digit_char 5 = CHR ''5''"
  "digit_char 6 = CHR ''6''" "digit_char 7 = CHR ''7''" "digit_char 8 = CHR ''8''"
  "digit_char 9 = CHR ''9''"
  by code_simp+

lemma show_nat_0 [simp]: "show_nat 0 = ''0''"
  by (simp add: show_nat.simps digit_chars)

lemma put_int_ok: "INT_MIN \<le> l \<Longrightarrow> l \<le> INT_MAX \<Longrightarrow> put_int l = Ok (show_int l)"
proof -
  assume l: "INT_MIN \<le> l" "l \<le> INT_MAX"
  have min: "show_nat 2147483648 = ''2147483648''" by (simp add: show_nat.simps digit_chars)
  show ?thesis
  proof (cases "l = 0 \<or> l = INT_MIN")
    case True
    then show ?thesis using min by (auto simp: put_int_def show_int_def INT_MIN_def)
  next
    case False
    then have "0 < nat \<bar>l\<bar>" "nat \<bar>l\<bar> < 10 ^ 10" using l by (auto simp: INT_MIN_def INT_MAX_def)
    then show ?thesis
      using False fill_digits_show [of "nat \<bar>l\<bar>" 10 "[]"] by (auto simp: put_int_def show_int_def)
  qed
qed

lemma put_uint64_ok: "n < 2 ^ 64 \<Longrightarrow> put_uint64 n = Ok (show_nat n)"
  using fill_digits_show [of n 21 "[]"] by (auto simp: put_uint64_def)

text \<open>
  The decimal output of the class \<open>File\<close> writes the number, and its digit loop never runs over
  the start of its buffer: 32 and 64 bit signed and 64 bit unsigned numbers.
\<close>

theorem put_number_correct:
  assumes "INT_MIN \<le> i" "i \<le> INT_MAX" "INT64_MIN \<le> l" "l < 2 ^ 63" "n < 2 ^ 64"
  shows "put_int i = Ok (show_int i) \<and> put_int64 l = Ok (show_int l) \<and> put_uint64 n = Ok (show_nat n)"
proof -
  have min: "show_nat 9223372036854775808 = ''9223372036854775808''"
    by (simp add: show_nat.simps digit_chars)
  have "put_int64 l = Ok (show_int l)"
  proof (cases "l = 0 \<or> l = INT64_MIN")
    case True
    then show ?thesis using min by (auto simp: put_int64_def show_int_def INT64_MIN_def)
  next
    case False
    then have "0 < nat \<bar>l\<bar>" "nat \<bar>l\<bar> < 10 ^ 20" using assms(3,4) by (auto simp: INT64_MIN_def)
    then show ?thesis
      using False fill_digits_show [of "nat \<bar>l\<bar>" 20 "[]"] by (auto simp: put_int64_def show_int_def)
  qed
  then show ?thesis using put_int_ok put_uint64_ok assms by simp
qed

theorem put_number_correct_witness:
  "put_int (- 17) = Ok (show_int (- 17)) \<and> put_int64 90 = Ok (show_int 90) \<and> put_uint64 7 = Ok (show_nat 7)"
  by (rule put_number_correct) (simp_all add: INT_MIN_def INT_MAX_def INT64_MIN_def)

section \<open>Binary numbers\<close>

text \<open>
  The loop \<open>while (x & ~0x7f) { put ((x & 0x7f) | 0x80); x >>= 7; }\<close> followed by \<open>put (x)\<close>, on
  unsigned numbers of 32 and of 64 bits.
\<close>

lemma high_bits_iff:
  fixes x :: "'a::len word"
  shows "x AND NOT 0x7f = 0 \<longleftrightarrow> unat x < 128"
proof -
  have m: "(0x7f :: 'a word) = mask 7" by (simp add: mask_eq_exp_minus_1)
  have "x AND NOT (mask 7) = 0 \<longleftrightarrow> take_bit 7 x = x"
    by (auto simp: bit_eq_iff bit_simps)
  also have "\<dots> \<longleftrightarrow> unat (take_bit 7 x) = unat x" by (simp add: word_eq_iff_unsigned)
  also have "\<dots> \<longleftrightarrow> unat x < 128" by (simp add: unsigned_take_bit_eq take_bit_nat_eq_self_iff)
  finally show ?thesis by (simp add: m)
qed

lemma low_bits:
  fixes x :: "'a::len word"
  assumes "7 < LENGTH('a)"
  shows "unat ((x AND 0x7f) OR 0x80) = unat x mod 128 + 128"
proof -
  have m: "(0x7f :: 'a word) = mask 7" by (simp add: mask_eq_exp_minus_1)
  have "(2 :: nat) ^ 8 \<le> 2 ^ LENGTH('a)" using assms by (intro power_increasing) auto
  then have e: "unat (0x80 :: 'a word) = 128"
    by (simp add: unsigned_numeral take_bit_nat_eq_self)
  have "unat ((x AND mask 7) OR 0x80) = take_bit 7 (unat x) OR 128"
    unfolding unsigned_or_eq e by (simp add: take_bit_eq_mask [symmetric] unsigned_take_bit_eq)
  also have "\<dots> = take_bit 7 (unat x) + 128"
  proof (rule disjunctive_add_eq_or [symmetric])
    have "take_bit 7 (unat x) AND 2 ^ 7 = 0" by (rule bit_eqI) (simp only: bit_and_iff bit_take_bit_iff bit_exp_iff, auto)
    then show "take_bit 7 (unat x) AND 128 = 0" by simp
  qed
  finally show ?thesis by (simp add: m take_bit_eq_mod)
qed

lemma shifted: "unat (drop_bit 7 (x :: 'a::len word)) = unat x div 128"
  unfolding unat_drop_bit_eq by (simp add: drop_bit_eq_div)


function put_binary :: "'a::len word \<Rightarrow> string" where
  "put_binary x =
     (if x AND NOT 0x7f \<noteq> 0
      then char_of (unat ((x AND 0x7f) OR 0x80)) # put_binary (drop_bit 7 x)
      else [char_of (unat x)])"
  by auto
termination
proof (relation "measure unat")
  fix x :: "'a word"
  assume "x AND NOT 0x7f \<noteq> 0"
  then have "\<not> unat x < 128" using high_bits_iff [of x] by simp
  then show "(drop_bit 7 x, x) \<in> measure unat" unfolding in_measure shifted by simp
qed simp

declare put_binary.simps [simp del]

text \<open>The same encoding on naturals.\<close>

fun leb :: "nat \<Rightarrow> string" where
  "leb n = (if n < 128 then [char_of n] else char_of (n mod 128 + 128) # leb (n div 128))"

declare leb.simps [simp del]

lemma put_binary_leb:
  fixes x :: "'a::len word"
  assumes "7 < LENGTH('a)"
  shows "put_binary x = leb (unat x)"
proof (induction x rule: put_binary.induct)
  case (1 x)
  show ?case
  proof (cases "x AND NOT 0x7f = 0")
    case True
    then show ?thesis
      using high_bits_iff [of x] by (subst put_binary.simps, subst leb.simps) simp
  next
    case False
    then have n: "\<not> unat x < 128" using high_bits_iff [of x] by simp
    show ?thesis
      using "1.IH" [OF False] False n low_bits [OF assms, of x] shifted [of x]
      by (subst put_binary.simps, subst leb.simps) simp
  qed
qed

lemma leb_hd: "0 < n \<Longrightarrow> \<exists>c cs. leb n = c # cs \<and> c \<noteq> char_of (0 :: nat)"
proof -
  assume "0 < n"
  have "char_of k \<noteq> char_of (0 :: nat)" if "0 < k" "k < 256" for k :: nat
    using that by (metis char_of_eq_iff less_numeral_extra(3) mod_less of_char_of zero_less_numeral)
  then show ?thesis using \<open>0 < n\<close> by (subst leb.simps) auto
qed

lemma char_of_inj: "m < 256 \<Longrightarrow> n < 256 \<Longrightarrow> char_of m = char_of n \<longleftrightarrow> m = (n :: nat)"
  by (metis mod_less of_char_of)

lemma prefix_free_leb: "prefix_free leb (\<lambda>n. True)"
proof (rule prefix_freeI)
  show "leb m @ s = leb n @ t \<Longrightarrow> m = n \<and> s = t" for m n s t
  proof (induction m arbitrary: n rule: leb.induct)
    case (1 m)
    have eq: "leb m @ s = leb n @ t" by (rule "1.prems")
    have m: "m mod 128 + 128 < 256" "n mod 128 + 128 < 256" by simp_all
    show ?case
    proof (cases "m < 128"; cases "n < 128")
      assume "m < 128" "n < 128"
      then show ?thesis using eq by (simp add: leb.simps [of m] leb.simps [of n] char_of_inj)
    next
      assume "m < 128" "\<not> n < 128"
      then show ?thesis using eq m by (simp add: leb.simps [of m] leb.simps [of n] char_of_inj)
    next
      assume "\<not> m < 128" "n < 128"
      then show ?thesis using eq m by (simp add: leb.simps [of m] leb.simps [of n] char_of_inj)
    next
      assume mn: "\<not> m < 128" "\<not> n < 128"
      then have h: "m mod 128 = n mod 128" "leb (m div 128) @ s = leb (n div 128) @ t"
        using eq m by (simp_all add: leb.simps [of m] leb.simps [of n] char_of_inj)
      with "1.IH" [OF mn(1) h(2)] have "m div 128 = n div 128" "s = t" by auto
      then show ?thesis using h(1) by (metis div_mult_mod_eq)
    qed
  qed
qed

end
