(* ===== verification/Proof_Tracers.thy ===== *)
theory Proof_Tracers
  imports Proof_File
begin

text \<open>
  The proof tracers of CaDiCaL that write DRAT, LRAT and FRAT files
  (\<open>drattracer.cpp\<close>, \<open>lrattracer.cpp\<close>, \<open>frattracer.cpp\<close>), in their text and their binary
  format. Each tracer is a record with its file and counters and one function per member
  function that writes. The theorems on DRAT and FRAT show that different sequences of steps give different files; the text
  of an LRAT proof is read back in \<open>Lrat_Reader\<close>.
\<close>

section \<open>Shared output loops\<close>

definition put_text :: "string result \<Rightarrow> pfile \<Rightarrow> pfile result" where
  "put_text r f = rbind r (\<lambda>s. Ok (put_str s f))"

definition binary_zero :: string where
  "binary_zero = [char_of (0 :: nat)]"

text \<open>A literal or identifier in the text format, followed by a space.\<close>

definition text_lit :: "int \<Rightarrow> string result" where
  "text_lit l = rbind (put_int l) (\<lambda>s. Ok (s @ '' ''))"

definition text_id :: "nat \<Rightarrow> string result" where
  "text_id n = rbind (put_uint64 n) (\<lambda>s. Ok (s @ '' ''))"

section \<open>DRAT\<close>

record DratTracer =
  drat_file :: pfile
  drat_binary :: bool
  drat_added :: nat
  drat_deleted :: nat

definition new_DratTracer :: "bool \<Rightarrow> DratTracer" where
  "new_DratTracer b = \<lparr>drat_file = \<lparr>f_opened = True, f_text = '''', f_bytes = 0\<rparr>,
     drat_binary = b, drat_added = 0, drat_deleted = 0\<rparr>"

text \<open>\<open>unsigned x = 2u * idx + (lit < 0)\<close> and the output loop.\<close>

definition drat_binary_lit :: "int \<Rightarrow> string" where
  "drat_binary_lit lit = put_binary (2 * word_of_int \<bar>lit\<bar> + (if lit < 0 then 1 else 0) :: 32 word)"

definition drat_lit :: "bool \<Rightarrow> int \<Rightarrow> string result" where
  "drat_lit b l = (if b then Ok (drat_binary_lit l) else text_lit l)"

definition drat_end :: "bool \<Rightarrow> string" where
  "drat_end b = (if b then binary_zero else ''0\<newline>'')"

definition drat_add_clause :: "bool \<Rightarrow> int list \<Rightarrow> pfile \<Rightarrow> pfile result" where
  "drat_add_clause b clause f =
     rbind (rfold (\<lambda>l. put_text (drat_lit b l)) clause (if b then put_char (CHR ''a'') f else f)) (\<lambda>f.
       Ok (put_str (drat_end b) f))"

definition drat_delete_clause :: "bool \<Rightarrow> int list \<Rightarrow> pfile \<Rightarrow> pfile result" where
  "drat_delete_clause b clause f =
     rbind (rfold (\<lambda>l. put_text (drat_lit b l)) clause
              (if b then put_char (CHR ''d'') f else put_str ''d '' f)) (\<lambda>f.
       Ok (put_str (drat_end b) f))"

definition drat_add_derived_clause :: "int list \<Rightarrow> DratTracer \<Rightarrow> DratTracer result" where
  "drat_add_derived_clause clause t =
     (if pfile_closed (drat_file t) then Ok t
      else rbind (drat_add_clause (drat_binary t) clause (drat_file t)) (\<lambda>f.
             Ok (t\<lparr>drat_file := f, drat_added := drat_added t + 1\<rparr>)))"

definition drat_trace_deletion :: "int list \<Rightarrow> DratTracer \<Rightarrow> DratTracer result" where
  "drat_trace_deletion clause t =
     (if pfile_closed (drat_file t) then Ok t
      else rbind (drat_delete_clause (drat_binary t) clause (drat_file t)) (\<lambda>f.
             Ok (t\<lparr>drat_file := f, drat_deleted := drat_deleted t + 1\<rparr>)))"

definition drat_close :: "DratTracer \<Rightarrow> DratTracer" where
  "drat_close t = t\<lparr>drat_file := pfile_close (drat_file t)\<rparr>"

section \<open>LRAT\<close>

record LratTracer =
  lrat_file :: pfile
  lrat_binary :: bool
  lrat_added :: nat
  lrat_deleted :: nat
  latest_id :: nat
  delete_ids :: "nat list"

definition new_LratTracer :: "bool \<Rightarrow> LratTracer" where
  "new_LratTracer b = \<lparr>lrat_file = \<lparr>f_opened = True, f_text = '''', f_bytes = 0\<rparr>,
     lrat_binary = b, lrat_added = 0, lrat_deleted = 0, latest_id = 0, delete_ids = []\<rparr>"

text \<open>
  \<open>put_binary_id (int64_t id)\<close>: the identifiers are unsigned and converted by the call; then
  \<open>u\<close> is the absolute value and \<open>x = 2 * u + (id < 0)\<close>, in 64 bits.
\<close>

definition lrat_binary_id :: "nat \<Rightarrow> string" where
  "lrat_binary_id n =
     (let cid = sint (of_nat n :: 64 word);
          u = (word_of_int \<bar>cid\<bar> :: 64 word)
      in put_binary (2 * u + (if cid < 0 then 1 else 0)))"

definition lrat_id :: "bool \<Rightarrow> nat \<Rightarrow> string result" where
  "lrat_id b n = (if b then Ok (lrat_binary_id n) else text_id n)"

definition lrat_flush_deletions :: "LratTracer \<Rightarrow> LratTracer result" where
  "lrat_flush_deletions t =
     (if delete_ids t = [] then Ok t
      else let b = lrat_binary t in
        rbind (if b then Ok (lrat_file t) else put_text (text_id (latest_id t)) (lrat_file t)) (\<lambda>f.
        rbind (rfold (\<lambda>i. put_text (lrat_id b i)) (delete_ids t)
                 (if b then put_char (CHR ''d'') f else put_str ''d '' f)) (\<lambda>f.
          Ok (t\<lparr>lrat_file := put_str (drat_end b) f, delete_ids := []\<rparr>))))"

definition lrat_add_clause :: "nat \<Rightarrow> int list \<Rightarrow> nat list \<Rightarrow> LratTracer \<Rightarrow> LratTracer result" where
  "lrat_add_clause cid clause chain t =
     rbind (lrat_flush_deletions t) (\<lambda>t.
       let t = t\<lparr>latest_id := cid\<rparr>; b = lrat_binary t; f = lrat_file t in
       rbind (put_text (lrat_id b cid) (if b then put_char (CHR ''a'') f else f)) (\<lambda>f.
       rbind (rfold (\<lambda>l. put_text (drat_lit b l)) clause f) (\<lambda>f.
       rbind (rfold (\<lambda>i. put_text (lrat_id b i)) chain
                (put_str (if b then binary_zero else ''0 '') f)) (\<lambda>f.
         Ok (t\<lparr>lrat_file := put_str (drat_end b) f\<rparr>)))))"

definition lrat_add_derived_clause :: "nat \<Rightarrow> int list \<Rightarrow> nat list \<Rightarrow> LratTracer \<Rightarrow> LratTracer result" where
  "lrat_add_derived_clause cid clause chain t =
     (if pfile_closed (lrat_file t) then Ok t
      else rbind (lrat_add_clause cid clause chain t) (\<lambda>t. Ok (t\<lparr>lrat_added := lrat_added t + 1\<rparr>)))"

definition lrat_trace_deletion :: "nat \<Rightarrow> LratTracer \<Rightarrow> LratTracer" where
  "lrat_trace_deletion cid t =
     (if pfile_closed (lrat_file t) then t
      else t\<lparr>delete_ids := delete_ids t @ [cid], lrat_deleted := lrat_deleted t + 1\<rparr>)"

definition lrat_begin_proof :: "nat \<Rightarrow> LratTracer \<Rightarrow> LratTracer" where
  "lrat_begin_proof cid t = (if pfile_closed (lrat_file t) then t else t\<lparr>latest_id := cid\<rparr>)"

definition lrat_close :: "LratTracer \<Rightarrow> LratTracer" where
  "lrat_close t = t\<lparr>lrat_file := pfile_close (lrat_file t)\<rparr>"

section \<open>FRAT\<close>

record FratTracer =
  frat_file :: pfile
  frat_binary :: bool
  with_antecedents :: bool
  frat_added :: nat
  frat_deleted :: nat
  frat_finalized :: nat
  frat_original :: nat

definition new_FratTracer :: "bool \<Rightarrow> bool \<Rightarrow> FratTracer" where
  "new_FratTracer b a = \<lparr>frat_file = \<lparr>f_opened = True, f_text = '''', f_bytes = 0\<rparr>,
     frat_binary = b, with_antecedents = a, frat_added = 0, frat_deleted = 0, frat_finalized = 0,
     frat_original = 0\<rparr>"

text \<open>\<open>unsigned x = 2 * abs (lit) + (lit < 0)\<close>: the arithmetic is that of \<open>int\<close>.\<close>

definition frat_binary_lit :: "int \<Rightarrow> string result" where
  "frat_binary_lit lit =
     (if 2 * \<bar>lit\<bar> > INT_MAX then Fault SignedOverflow
      else Ok (put_binary (word_of_int (2 * \<bar>lit\<bar> + (if lit < 0 then 1 else 0)) :: 32 word)))"

definition frat_binary_id :: "nat \<Rightarrow> string" where
  "frat_binary_id n = put_binary (of_nat n :: 64 word)"

definition frat_lit :: "bool \<Rightarrow> int \<Rightarrow> string result" where
  "frat_lit b l = (if b then frat_binary_lit l else text_lit l)"

text \<open>The common part of the four lines: the tag, the identifier and the literals.\<close>

definition frat_head :: "bool \<Rightarrow> char \<Rightarrow> nat \<Rightarrow> int list \<Rightarrow> pfile \<Rightarrow> pfile result" where
  "frat_head b tag cid clause f =
     rbind (if b then Ok (put_str (frat_binary_id cid) (put_char tag f))
            else put_text (rbind (put_uint64 cid) (\<lambda>s. Ok (s @ ''  ''))) (put_str [tag, CHR '' ''] f)) (\<lambda>f.
       rfold (\<lambda>l. put_text (frat_lit b l)) clause f)"

definition frat_line :: "bool \<Rightarrow> char \<Rightarrow> nat \<Rightarrow> int list \<Rightarrow> pfile \<Rightarrow> pfile result" where
  "frat_line b tag cid clause f =
     rbind (frat_head b tag cid clause f) (\<lambda>f. Ok (put_str (drat_end b) f))"

definition frat_add_original_clause :: "bool \<Rightarrow> nat \<Rightarrow> int list \<Rightarrow> pfile \<Rightarrow> pfile result" where
  "frat_add_original_clause b = frat_line b (CHR ''o'')"

definition frat_add_derived_clause :: "bool \<Rightarrow> nat \<Rightarrow> int list \<Rightarrow> pfile \<Rightarrow> pfile result" where
  "frat_add_derived_clause b = frat_line b (CHR ''a'')"

definition frat_add_derived_chain ::
    "bool \<Rightarrow> nat \<Rightarrow> int list \<Rightarrow> nat list \<Rightarrow> pfile \<Rightarrow> pfile result" where
  "frat_add_derived_chain b cid clause chain f =
     rbind (frat_head b (CHR ''a'') cid clause f) (\<lambda>f.
     rbind (rfold (\<lambda>c. put_text (if b then Ok (frat_binary_id (2 * c)) else text_id c)) chain
              (put_str (if b then binary_zero @ ''l'' else ''0  l '') f)) (\<lambda>f.
       Ok (put_str (drat_end b) f)))"

definition frat_delete_clause :: "bool \<Rightarrow> nat \<Rightarrow> int list \<Rightarrow> pfile \<Rightarrow> pfile result" where
  "frat_delete_clause b = frat_line b (CHR ''d'')"

definition frat_finalize_clause :: "bool \<Rightarrow> nat \<Rightarrow> int list \<Rightarrow> pfile \<Rightarrow> pfile result" where
  "frat_finalize_clause b = frat_line b (CHR ''f'')"

definition frat_trace :: "(pfile \<Rightarrow> pfile result) \<Rightarrow> FratTracer \<Rightarrow> FratTracer result" where
  "frat_trace w t = rbind (w (frat_file t)) (\<lambda>f. Ok (t\<lparr>frat_file := f\<rparr>))"

definition frat_trace_original :: "nat \<Rightarrow> int list \<Rightarrow> FratTracer \<Rightarrow> FratTracer result" where
  "frat_trace_original cid clause t =
     (if pfile_closed (frat_file t) then Ok t
      else frat_trace (frat_add_original_clause (frat_binary t) cid clause) t)"

definition frat_trace_derived :: "nat \<Rightarrow> int list \<Rightarrow> nat list \<Rightarrow> FratTracer \<Rightarrow> FratTracer result" where
  "frat_trace_derived cid clause chain t =
     (if pfile_closed (frat_file t) then Ok t
      else rbind (frat_trace (if with_antecedents t
                              then frat_add_derived_chain (frat_binary t) cid clause chain
                              else frat_add_derived_clause (frat_binary t) cid clause) t) (\<lambda>t.
             Ok (t\<lparr>frat_added := frat_added t + 1\<rparr>)))"

definition frat_trace_deletion :: "nat \<Rightarrow> int list \<Rightarrow> FratTracer \<Rightarrow> FratTracer result" where
  "frat_trace_deletion cid clause t =
     (if pfile_closed (frat_file t) then Ok t
      else rbind (frat_trace (frat_delete_clause (frat_binary t) cid clause) t) (\<lambda>t.
             Ok (t\<lparr>frat_deleted := frat_deleted t + 1\<rparr>)))"

definition frat_trace_finalize :: "nat \<Rightarrow> int list \<Rightarrow> FratTracer \<Rightarrow> FratTracer result" where
  "frat_trace_finalize cid clause t =
     (if pfile_closed (frat_file t) then Ok t
      else frat_trace (frat_finalize_clause (frat_binary t) cid clause) t)"

definition frat_close :: "FratTracer \<Rightarrow> FratTracer" where
  "frat_close t = t\<lparr>frat_file := pfile_close (frat_file t)\<rparr>"

section \<open>Encodings of literals\<close>

definition proof_lit :: "int \<Rightarrow> bool" where
  "proof_lit l \<longleftrightarrow> l \<noteq> 0 \<and> \<bar>l\<bar> \<le> INT_MAX"

definition lit_code :: "int \<Rightarrow> nat" where
  "lit_code l = 2 * nat \<bar>l\<bar> + (if l < 0 then 1 else 0)"

definition lit_text :: "bool \<Rightarrow> int \<Rightarrow> string" where
  "lit_text b l = (if b then leb (lit_code l) else show_int l @ '' '')"

lemma put_str_append: "put_str (s @ t) f = put_str t (put_str s f)"
  by (simp add: put_str_eq)

lemma put_char_str: "put_char c f = put_str [c] f"
  by simp

lemma put_all:
  assumes "\<And>x. x \<in> set xs \<Longrightarrow> enc x = Ok (e x)"
  shows "rfold (\<lambda>x. put_text (enc x)) xs f = Ok (put_str (concat (map e xs)) f)"
  using assms by (induction xs arbitrary: f) (simp_all add: put_text_def put_str_append)

lemma unat_small: "0 \<le> k \<Longrightarrow> k < 2 ^ LENGTH('a) \<Longrightarrow> unat (word_of_int k :: 'a::len word) = nat k"
  by (simp add: unat_eq_nat_uint uint_word_of_int_eq take_bit_int_eq_self)

lemma drat_lit_ok:
  assumes "proof_lit l"
  shows "drat_lit b l = Ok (lit_text b l)"
proof -
  have l: "\<bar>l\<bar> < 2 ^ 31" "INT_MIN \<le> l" "l \<le> INT_MAX"
    using assms by (auto simp: proof_lit_def INT_MAX_def INT_MIN_def)
  have "(2 * word_of_int \<bar>l\<bar> + (if l < 0 then 1 else 0) :: 32 word) =
      word_of_int (2 * \<bar>l\<bar> + (if l < 0 then 1 else 0))" by simp
  moreover have "unat (word_of_int (2 * \<bar>l\<bar> + (if l < 0 then 1 else 0)) :: 32 word) = lit_code l"
    using l(1) by (subst unat_small) (auto simp: lit_code_def nat_add_distrib nat_mult_distrib)
  ultimately have "drat_binary_lit l = leb (lit_code l)"
    unfolding drat_binary_lit_def by (simp only: put_binary_leb) (simp add: put_binary_leb)
  then show ?thesis
    using put_int_ok [OF l(2,3)] by (simp add: drat_lit_def lit_text_def text_lit_def)
qed

lemma lit_code_inj: "lit_code l = lit_code m \<Longrightarrow> l = m"
proof -
  assume eq: "lit_code l = lit_code m"
  have "2 * i + (if p then 1 else 0) = 2 * j + (if q then 1 else 0) \<Longrightarrow> i = j \<and> p = q"
    for i j :: nat and p q by (cases p; cases q) presburger+
  from this [OF eq [unfolded lit_code_def]] have "nat \<bar>l\<bar> = nat \<bar>m\<bar>" "(l < 0) = (m < 0)" by blast+
  then show ?thesis by (cases "l < 0") auto
qed

lemma show_int_chars: "CHR '' '' \<notin> set (show_int l)"
  by (auto simp: show_int_def is_digit_def dest: show_nat_digits [rule_format])

lemma show_int_inj: "show_int l = show_int m \<Longrightarrow> l = m"
proof -
  assume eq: "show_int l = show_int m"
  have minus: "CHR ''-'' \<notin> set (show_nat n)" for n
    by (rule show_nat_not_in) (simp add: is_digit_def)
  show "l = m"
  proof (cases "l < 0"; cases "m < 0")
    assume "l < 0" "m < 0"
    then show ?thesis using eq by (simp add: show_int_def show_nat_inj)
  next
    assume "l < 0" "\<not> m < 0"
    then show ?thesis using eq minus [of "nat m"] by (metis append_Cons list.set_intros(1) show_int_def)
  next
    assume "\<not> l < 0" "m < 0"
    then show ?thesis using eq minus [of "nat l"] by (metis append_Cons list.set_intros(1) show_int_def)
  next
    assume "\<not> l < 0" "\<not> m < 0"
    then show ?thesis using eq by (simp add: show_int_def show_nat_inj)
  qed
qed

lemma show_nat_hd_pos: "0 < n \<Longrightarrow> hd (show_nat n) \<noteq> CHR ''0''"
proof (induction n rule: show_nat.induct)
  case (1 n)
  show ?case
  proof (cases "n < 10")
    case True
    have "digit_char n \<noteq> CHR ''0''"
      using True "1.prems" digit_val_char [OF True] by (auto simp: digit_val_def)
    then show ?thesis using True by (simp add: show_nat.simps)
  next
    case False
    then show ?thesis using "1.IH" by (simp add: show_nat.simps [of n])
  qed
qed

lemma prefix_free_lit: "prefix_free (lit_text b) proof_lit"
proof (rule prefix_freeI)
  fix l m s t assume eq: "lit_text b l @ s = lit_text b m @ t"
  show "l = m \<and> s = t"
  proof (cases b)
    case True
    then have "lit_code l = lit_code m \<and> s = t"
      using eq by (intro prefix_freeD [OF prefix_free_leb]) (simp_all add: lit_text_def)
    then show ?thesis using lit_code_inj by blast
  next
    case False
    then have "show_int l = show_int m \<and> s = t"
      using eq append_sep_inj [OF show_int_chars show_int_chars, where us = s and vs = t] by (simp add: lit_text_def)
    then show ?thesis using show_int_inj by blast
  qed
qed

lemma hd_show_nat: "\<not> is_digit c \<Longrightarrow> hd (show_nat n) \<noteq> c"
  using show_nat_digits [of n] hd_in_set [OF show_nat_nonempty [of n]] by auto

lemma lit_text_start:
  assumes "proof_lit l"
  shows "\<exists>c cs. lit_text b l = c # cs \<and> c \<noteq> hd (drat_end b) \<and> (b \<or> c \<noteq> CHR ''d'')"
proof (cases b)
  case True
  have "0 < lit_code l" using assms by (auto simp: proof_lit_def lit_code_def)
  from leb_hd [OF this] show ?thesis
    using True by (auto simp: lit_text_def drat_end_def binary_zero_def)
next
  case False
  show ?thesis
  proof (cases "l < 0")
    case True
    then show ?thesis using False by (simp add: lit_text_def show_int_def drat_end_def)
  next
    case nonneg: False
    then have "0 < nat l" using assms by (simp add: proof_lit_def)
    then have "hd (show_nat (nat l)) \<noteq> CHR ''0''" by (rule show_nat_hd_pos)
    moreover have "hd (show_nat (nat l)) \<noteq> CHR ''d''" by (rule hd_show_nat) (simp add: is_digit_def)
    ultimately have nz: "hd (show_nat (nat l)) \<noteq> CHR ''0''" "hd (show_nat (nat l)) \<noteq> CHR ''d''" by auto
    show ?thesis
      using nz False nonneg show_nat_nonempty [of "nat l"]
      by (cases "show_nat (nat l)") (auto simp: lit_text_def show_int_def drat_end_def)
  qed
qed

section \<open>Reading back a DRAT proof\<close>

datatype drat_step = DratAdd "int list" | DratDelete "int list"

fun drat_trace :: "drat_step \<Rightarrow> DratTracer \<Rightarrow> DratTracer result" where
  "drat_trace (DratAdd c) = drat_add_derived_clause c"
| "drat_trace (DratDelete c) = drat_trace_deletion c"

fun drat_step_ok :: "drat_step \<Rightarrow> bool" where
  "drat_step_ok (DratAdd c) = list_all proof_lit c"
| "drat_step_ok (DratDelete c) = list_all proof_lit c"

definition clause_text :: "bool \<Rightarrow> int list \<Rightarrow> string" where
  "clause_text b c = concat (map (lit_text b) c) @ drat_end b"

fun drat_text :: "bool \<Rightarrow> drat_step \<Rightarrow> string" where
  "drat_text b (DratAdd c) = (if b then ''a'' else '''') @ clause_text b c"
| "drat_text b (DratDelete c) = (if b then ''d'' else ''d '') @ clause_text b c"

lemma drat_lits_ok:
  "list_all proof_lit c \<Longrightarrow>
   rfold (\<lambda>l. put_text (drat_lit b l)) c f = Ok (put_str (concat (map (lit_text b) c)) f)"
  by (rule put_all) (simp add: list_all_iff drat_lit_ok)

lemma drat_trace_ok:
  assumes "drat_step_ok s" "f_opened (drat_file t)"
  shows "drat_trace s t = Ok (t\<lparr>drat_file := put_str (drat_text (drat_binary t) s) (drat_file t),
      drat_added := drat_added t + (case s of DratAdd c \<Rightarrow> 1 | _ \<Rightarrow> 0),
      drat_deleted := drat_deleted t + (case s of DratDelete c \<Rightarrow> 1 | _ \<Rightarrow> 0)\<rparr>)"
  using assms
  by (cases s)
    (simp_all add: drat_add_derived_clause_def drat_trace_deletion_def pfile_closed_def
      drat_add_clause_def drat_delete_clause_def drat_lits_ok put_str_append clause_text_def)

lemma prefix_free_clause: "prefix_free (clause_text b) (list_all proof_lit)"
proof -
  have e: "drat_end b = hd (drat_end b) # tl (drat_end b)"
    by (simp add: drat_end_def binary_zero_def)
  have "prefix_free (\<lambda>c. concat (map (lit_text b) c) @ hd (drat_end b) # tl (drat_end b)) (list_all proof_lit)"
    by (rule prefix_free_list [OF prefix_free_lit]) (use lit_text_start in blast)
  then show ?thesis unfolding clause_text_def using e by simp
qed

lemma clause_text_not_d:
  "list_all proof_lit c \<Longrightarrow> \<exists>ch cs. clause_text False c = ch # cs \<and> ch \<noteq> CHR ''d''"
  using lit_text_start [where b = False]
  by (cases c) (auto simp: clause_text_def drat_end_def, fastforce)

lemma prefix_free_drat: "prefix_free (drat_text b) drat_step_ok"
proof (rule prefix_freeI)
  fix x y s t
  assume ok: "drat_step_ok x" "drat_step_ok y" and eq: "drat_text b x @ s = drat_text b y @ t"
  have same: "clause_text b c @ s = clause_text b d @ t \<Longrightarrow> list_all proof_lit c \<Longrightarrow>
      list_all proof_lit d \<Longrightarrow> c = d \<and> s = t" for c d
    using prefix_freeD [OF prefix_free_clause] by blast
  show "x = y \<and> s = t"
  proof (cases x; cases y)
    fix c d assume "x = DratAdd c" "y = DratAdd d"
    then show ?thesis using ok eq same [of c d] by simp
  next
    fix c d assume "x = DratAdd c" "y = DratDelete d"
    then show ?thesis using ok eq clause_text_not_d [of c] by (cases b) auto
  next
    fix c d assume "x = DratDelete c" "y = DratAdd d"
    then show ?thesis using ok eq clause_text_not_d [of d] by (cases b) auto
  next
    fix c d assume "x = DratDelete c" "y = DratDelete d"
    then show ?thesis using ok eq same [of c d] by (cases b) simp_all
  qed
qed

lemma drat_run_ok:
  assumes "list_all drat_step_ok ss" "f_opened (drat_file t)"
  shows "rfold drat_trace ss t =
    Ok (t\<lparr>drat_file := put_str (concat (map (drat_text (drat_binary t)) ss)) (drat_file t),
      drat_added := drat_added t + length [s \<leftarrow> ss. \<exists>c. s = DratAdd c],
      drat_deleted := drat_deleted t + length [s \<leftarrow> ss. \<exists>c. s = DratDelete c]\<rparr>)"
  using assms
proof (induction ss arbitrary: t)
  case (Cons s ss)
  define u where "u = the_ok (drat_trace s t)"
  have "drat_trace s t = Ok u" "f_opened (drat_file u)" "drat_binary u = drat_binary t"
    using drat_trace_ok [of s t] Cons.prems by (simp_all add: u_def put_str_eq)
  then show ?case
    using Cons.IH [of u] Cons.prems drat_trace_ok [of s t]
    by (cases s) (simp_all add: put_str_append)
qed simp

text \<open>
  A DRAT proof can be read back. In the text and in the binary format the tracer writes every
  sequence of added and deleted clauses with literals of 31 bits without an error, counts the
  bytes and the steps, and two different sequences give two different files.
\<close>

theorem drat_readable:
  assumes "list_all drat_step_ok ss" "list_all drat_step_ok us"
  shows "\<exists>t u. rfold drat_trace ss (new_DratTracer b) = Ok t \<and> rfold drat_trace us (new_DratTracer b) = Ok u \<and>
     f_bytes (drat_file t) = length (f_text (drat_file t)) \<and>
     drat_added t + drat_deleted t = length ss \<and>
     (f_text (drat_file t) = f_text (drat_file u) \<longrightarrow> ss = us)"
proof -
  have n: "length [s \<leftarrow> ss. \<exists>c. s = DratAdd c] + length [s \<leftarrow> ss. \<exists>c. s = DratDelete c] = length ss"
  proof (induction ss)
    case (Cons s ss)
    then show ?case by (cases s) auto
  qed simp
  have "drat_text b s \<noteq> []" for s
    by (cases s) (auto simp: clause_text_def drat_end_def binary_zero_def)
  then have "concat (map (drat_text b) ss) = concat (map (drat_text b) us) \<Longrightarrow> ss = us"
    using prefix_free_concat [OF prefix_free_drat] assms by blast
  then show ?thesis
    using drat_run_ok [OF assms(1), of "new_DratTracer b"] drat_run_ok [OF assms(2), of "new_DratTracer b"] n
    by (simp add: new_DratTracer_def put_str_eq)
qed

theorem drat_readable_witness:
  "\<exists>t u. rfold drat_trace [DratAdd [1, - 2], DratDelete [3]] (new_DratTracer True) = Ok t \<and>
     rfold drat_trace [DratAdd []] (new_DratTracer True) = Ok u \<and>
     f_bytes (drat_file t) = length (f_text (drat_file t)) \<and>
     drat_added t + drat_deleted t = length [DratAdd [1, - 2], DratDelete [3]] \<and>
     (f_text (drat_file t) = f_text (drat_file u) \<longrightarrow> [DratAdd [1, - 2], DratDelete [3]] = [DratAdd []])"
  by (rule drat_readable) (simp_all add: proof_lit_def INT_MAX_def)

section \<open>The text of an LRAT proof\<close>

datatype lrat_step = LratAdd nat "int list" "nat list" | LratDelete nat

fun lrat_trace :: "lrat_step \<Rightarrow> LratTracer \<Rightarrow> LratTracer result" where
  "lrat_trace (LratAdd i c ch) t = lrat_add_derived_clause i c ch t"
| "lrat_trace (LratDelete i) t = Ok (lrat_trace_deletion i t)"

text \<open>
  Deletions wait for the next addition: a trace falls into groups of the identifiers deleted
  before an addition and that addition, and a rest of pending deletions.
\<close>

fun lrat_groups :: "nat list \<Rightarrow> lrat_step list \<Rightarrow> (nat list \<times> nat \<times> int list \<times> nat list) list" where
  "lrat_groups ds [] = []"
| "lrat_groups ds (LratDelete i # ss) = lrat_groups (ds @ [i]) ss"
| "lrat_groups ds (LratAdd i c ch # ss) = (ds, i, c, ch) # lrat_groups [] ss"

fun lrat_pending :: "nat list \<Rightarrow> lrat_step list \<Rightarrow> nat list" where
  "lrat_pending ds [] = ds"
| "lrat_pending ds (LratDelete i # ss) = lrat_pending (ds @ [i]) ss"
| "lrat_pending ds (LratAdd i c ch # ss) = lrat_pending [] ss"

definition proof_id :: "nat \<Rightarrow> bool" where
  "proof_id n \<longleftrightarrow> 0 < n \<and> n < 2 ^ 63"

fun lrat_step_ok :: "lrat_step \<Rightarrow> bool" where
  "lrat_step_ok (LratAdd i c ch) \<longleftrightarrow> proof_id i \<and> list_all proof_lit c \<and> list_all proof_id ch"
| "lrat_step_ok (LratDelete i) \<longleftrightarrow> proof_id i"

definition id_text :: "bool \<Rightarrow> nat \<Rightarrow> string" where
  "id_text b n = (if b then leb (2 * n) else show_nat n @ '' '')"

definition ids_text :: "bool \<Rightarrow> nat list \<Rightarrow> string" where
  "ids_text b ds = concat (map (id_text b) ds) @ drat_end b"

definition lits_text :: "bool \<Rightarrow> int list \<Rightarrow> string" where
  "lits_text b c = concat (map (lit_text b) c) @ (if b then binary_zero else ''0 '')"

definition lrat_deletion_text :: "bool \<Rightarrow> nat \<Rightarrow> nat list \<Rightarrow> string" where
  "lrat_deletion_text b latest ds =
     (if ds = [] then '''' else (if b then ''d'' else id_text False latest @ ''d '') @ ids_text b ds)"

definition lrat_addition_text :: "bool \<Rightarrow> nat \<Rightarrow> int list \<Rightarrow> nat list \<Rightarrow> string" where
  "lrat_addition_text b i c ch = (if b then ''a'' else '''') @ id_text b i @ lits_text b c @ ids_text b ch"

fun lrat_text :: "bool \<Rightarrow> nat \<Rightarrow> (nat list \<times> nat \<times> int list \<times> nat list) list \<Rightarrow> string" where
  "lrat_text b latest [] = ''''"
| "lrat_text b latest ((ds, i, c, ch) # gs) =
     lrat_deletion_text b latest ds @ lrat_addition_text b i c ch @ lrat_text b i gs"

fun group_ok :: "nat list \<times> nat \<times> int list \<times> nat list \<Rightarrow> bool" where
  "group_ok (ds, i, c, ch) \<longleftrightarrow>
     list_all proof_id ds \<and> proof_id i \<and> list_all proof_lit c \<and> list_all proof_id ch"

lemma text_id_ok: "n < 2 ^ 64 \<Longrightarrow> text_id n = Ok (id_text False n)"
  by (simp add: text_id_def id_text_def put_uint64_ok)

lemma lrat_id_ok:
  assumes "proof_id n"
  shows "lrat_id b n = Ok (id_text b n)"
proof -
  have n: "n < 2 ^ 63" using assms by (simp add: proof_id_def)
  then have "sint (of_nat n :: 64 word) = int n"
    by (simp add: sint_uint signed_take_bit_int_eq_self uint_nat take_bit_nat_eq_self unat_of_nat)
  then have "lrat_binary_id n = put_binary (word_of_int (int (2 * n)) :: 64 word)"
    by (simp add: lrat_binary_id_def)
  moreover have "unat (word_of_int (int (2 * n)) :: 64 word) = 2 * n"
    using n by (subst unat_small) auto
  moreover have "7 < LENGTH(64)" by simp
  ultimately have "lrat_binary_id n = leb (2 * n)" using put_binary_leb by metis
  then show ?thesis using n text_id_ok [of n] by (simp add: lrat_id_def id_text_def)
qed

lemma lrat_ids_ok:
  "list_all proof_id ds \<Longrightarrow>
   rfold (\<lambda>i. put_text (lrat_id b i)) ds f = Ok (put_str (concat (map (id_text b) ds)) f)"
  by (rule put_all) (simp add: list_all_iff lrat_id_ok)

lemma show_nat_no_blank: "CHR '' '' \<notin> set (show_nat n)"
  by (rule show_nat_not_in) (simp add: is_digit_def)

lemma prefix_free_id: "prefix_free (id_text b) P"
proof (rule prefix_freeI)
  fix m n s t assume eq: "id_text b m @ s = id_text b n @ t"
  show "m = n \<and> s = t"
  proof (cases b)
    case True
    then have "2 * m = 2 * n \<and> s = t"
      using eq by (intro prefix_freeD [OF prefix_free_leb]) (simp_all add: id_text_def)
    then show ?thesis by simp
  next
    case False
    then show ?thesis
      using eq append_sep_inj [OF show_nat_no_blank show_nat_no_blank, where us = s and vs = t]
      by (simp add: id_text_def show_nat_inj)
  qed
qed

lemma id_text_start: "proof_id n \<Longrightarrow> \<exists>c cs. id_text b n = c # cs \<and> c \<noteq> hd (drat_end b)"
proof -
  assume "proof_id n"
  then have n: "0 < n" "0 < 2 * n" by (simp_all add: proof_id_def)
  show ?thesis
  proof (cases b)
    case True
    then show ?thesis using leb_hd [OF n(2)] by (auto simp: id_text_def drat_end_def binary_zero_def)
  next
    case False
    then show ?thesis using show_nat_hd_pos [OF n(1)] show_nat_nonempty [of n]
      by (cases "show_nat n") (auto simp: id_text_def drat_end_def)
  qed
qed

lemma prefix_free_ids: "prefix_free (ids_text b) (list_all proof_id)"
proof -
  have e: "drat_end b = hd (drat_end b) # tl (drat_end b)"
    by (simp add: drat_end_def binary_zero_def)
  have "prefix_free (\<lambda>c. concat (map (id_text b) c) @ hd (drat_end b) # tl (drat_end b)) (list_all proof_id)"
    by (rule prefix_free_list [OF prefix_free_id]) (rule id_text_start)
  then show ?thesis unfolding ids_text_def using e by simp
qed

lemma lrat_add_ok:
  assumes "lrat_step_ok (LratAdd i c ch)" "list_all proof_id (delete_ids t)"
    "latest_id t < 2 ^ 64" "f_opened (lrat_file t)"
  shows "lrat_trace (LratAdd i c ch) t =
    Ok (t\<lparr>lrat_file := put_str (lrat_deletion_text (lrat_binary t) (latest_id t) (delete_ids t) @
        lrat_addition_text (lrat_binary t) i c ch) (lrat_file t),
      delete_ids := [], latest_id := i, lrat_added := lrat_added t + 1\<rparr>)"
proof -
  define u where "u = t\<lparr>lrat_file := put_str (lrat_deletion_text (lrat_binary t) (latest_id t) (delete_ids t))
    (lrat_file t), delete_ids := []\<rparr>"
  have "lrat_flush_deletions t = Ok u"
    using assms(2) text_id_ok [OF assms(3)]
    by (simp add: lrat_flush_deletions_def Let_def u_def put_text_def lrat_ids_ok lrat_deletion_text_def
        ids_text_def put_str_append)
  moreover have "i < 2 ^ 64" "proof_id i" "list_all proof_lit c" "list_all proof_id ch"
    using assms(1) by (simp_all add: proof_id_def)
  ultimately show ?thesis
    using assms(4)
    by (simp add: lrat_add_derived_clause_def pfile_closed_def lrat_add_clause_def Let_def u_def
        put_text_def lrat_id_ok drat_lits_ok lrat_ids_ok lrat_addition_text_def ids_text_def lits_text_def
        put_str_append put_str_eq put_char_def add_ac)
qed

lemma lrat_run_ok:
  assumes "list_all lrat_step_ok ss" "list_all proof_id (delete_ids t)" "latest_id t < 2 ^ 64"
    "f_opened (lrat_file t)"
  shows "\<exists>u. rfold lrat_trace ss t = Ok u \<and>
    f_text (lrat_file u) =
      f_text (lrat_file t) @ lrat_text (lrat_binary t) (latest_id t) (lrat_groups (delete_ids t) ss) \<and>
    delete_ids u = lrat_pending (delete_ids t) ss"
  using assms
proof (induction ss arbitrary: t)
  case (Cons s ss)
  show ?case
  proof (cases s)
    case (LratAdd i c ch)
    define u where "u = the_ok (lrat_trace s t)"
    have u: "lrat_trace s t = Ok u" "delete_ids u = []" "latest_id u = i" "lrat_binary u = lrat_binary t"
      "f_opened (lrat_file u)" "f_text (lrat_file u) = f_text (lrat_file t) @
        lrat_deletion_text (lrat_binary t) (latest_id t) (delete_ids t) @ lrat_addition_text (lrat_binary t) i c ch"
      using lrat_add_ok [of i c ch t] Cons.prems LratAdd by (simp_all add: u_def put_str_eq)
    moreover have "i < 2 ^ 64" using Cons.prems LratAdd by (simp add: proof_id_def)
    ultimately show ?thesis using Cons.IH [of u] Cons.prems LratAdd by auto
  next
    case (LratDelete i)
    then show ?thesis
      using Cons.IH [of "lrat_trace_deletion i t"] Cons.prems
      by (simp add: lrat_trace_deletion_def pfile_closed_def)
  qed
qed simp

lemma lrat_groups_ok:
  "list_all lrat_step_ok ss \<Longrightarrow> list_all proof_id ds \<Longrightarrow> list_all group_ok (lrat_groups ds ss)"
  by (induction ds ss rule: lrat_groups.induct) simp_all

section \<open>Reading back a FRAT proof\<close>

datatype frat_step =
    FratOriginal nat "int list"
  | FratDerived nat "int list" "nat list"
  | FratDelete nat "int list"
  | FratFinalize nat "int list"

fun frat_step_trace :: "frat_step \<Rightarrow> FratTracer \<Rightarrow> FratTracer result" where
  "frat_step_trace (FratOriginal i c) = frat_trace_original i c"
| "frat_step_trace (FratDerived i c ch) = frat_trace_derived i c ch"
| "frat_step_trace (FratDelete i c) = frat_trace_deletion i c"
| "frat_step_trace (FratFinalize i c) = frat_trace_finalize i c"

text \<open>The literals FRAT can write: in the binary format twice the index has to fit an \<open>int\<close>.\<close>

definition frat_clause_ok :: "bool \<Rightarrow> nat \<Rightarrow> int list \<Rightarrow> bool" where
  "frat_clause_ok b i c \<longleftrightarrow> i < 2 ^ 64 \<and> list_all proof_lit c \<and> (b \<longrightarrow> list_all (\<lambda>l. \<bar>l\<bar> < 2 ^ 30) c)"

text \<open>Without antecedents the chain is not written.\<close>

fun frat_step_ok :: "bool \<Rightarrow> bool \<Rightarrow> frat_step \<Rightarrow> bool" where
  "frat_step_ok b a (FratOriginal i c) \<longleftrightarrow> frat_clause_ok b i c"
| "frat_step_ok b a (FratDerived i c ch) \<longleftrightarrow>
     frat_clause_ok b i c \<and> list_all proof_id ch \<and> (a \<or> ch = [])"
| "frat_step_ok b a (FratDelete i c) \<longleftrightarrow> frat_clause_ok b i c"
| "frat_step_ok b a (FratFinalize i c) \<longleftrightarrow> frat_clause_ok b i c"

definition frat_id_text :: "bool \<Rightarrow> nat \<Rightarrow> string" where
  "frat_id_text b i = (if b then leb i else show_nat i @ ''  '')"

definition frat_head_text :: "bool \<Rightarrow> char \<Rightarrow> nat \<Rightarrow> string" where
  "frat_head_text b tag i = [tag] @ (if b then '''' else '' '') @ frat_id_text b i"

definition frat_lits_text :: "bool \<Rightarrow> int list \<Rightarrow> string" where
  "frat_lits_text b c = concat (map (lit_text b) c) @ (if b then binary_zero @ ''l'' else ''0  l '')"

fun frat_text :: "bool \<Rightarrow> bool \<Rightarrow> frat_step \<Rightarrow> string" where
  "frat_text b a (FratOriginal i c) = frat_head_text b (CHR ''o'') i @ clause_text b c"
| "frat_text b a (FratDerived i c ch) = frat_head_text b (CHR ''a'') i @
     (if a then frat_lits_text b c @ ids_text b ch else clause_text b c)"
| "frat_text b a (FratDelete i c) = frat_head_text b (CHR ''d'') i @ clause_text b c"
| "frat_text b a (FratFinalize i c) = frat_head_text b (CHR ''f'') i @ clause_text b c"

lemma frat_lit_ok:
  assumes "proof_lit l" "b \<longrightarrow> \<bar>l\<bar> < 2 ^ 30"
  shows "frat_lit b l = Ok (lit_text b l)"
proof (cases b)
  case True
  then have l: "\<bar>l\<bar> < 2 ^ 30" using assms by simp
  have "unat (word_of_int (2 * \<bar>l\<bar> + (if l < 0 then 1 else 0)) :: 32 word) = lit_code l"
    using l by (subst unat_small) (auto simp: lit_code_def nat_add_distrib nat_mult_distrib)
  moreover have "7 < LENGTH(32)" by simp
  ultimately have "put_binary (word_of_int (2 * \<bar>l\<bar> + (if l < 0 then 1 else 0)) :: 32 word) = leb (lit_code l)"
    using put_binary_leb by metis
  then show ?thesis
    using True l by (simp add: frat_lit_def frat_binary_lit_def lit_text_def INT_MAX_def)
next
  case False
  then have "INT_MIN \<le> l" "l \<le> INT_MAX" using assms(1) by (auto simp: proof_lit_def INT_MAX_def INT_MIN_def)
  then show ?thesis using False put_int_ok by (simp add: frat_lit_def text_lit_def lit_text_def)
qed

lemma frat_binary_id_ok: "n < 2 ^ 64 \<Longrightarrow> frat_binary_id n = leb n"
proof -
  assume "n < 2 ^ 64"
  then have "unat (of_nat n :: 64 word) = n" by (simp add: unat_of_nat)
  moreover have "7 < LENGTH(64)" by simp
  ultimately show ?thesis unfolding frat_binary_id_def using put_binary_leb by metis
qed

lemma frat_head_ok:
  assumes "frat_clause_ok b i c"
  shows "frat_head b tag i c f = Ok (put_str (frat_head_text b tag i @ concat (map (lit_text b) c)) f)"
proof -
  have "rfold (\<lambda>l. put_text (frat_lit b l)) c g = Ok (put_str (concat (map (lit_text b) c)) g)" for g
    by (rule put_all) (use assms in \<open>auto simp: frat_clause_ok_def list_all_iff intro: frat_lit_ok\<close>)
  then show ?thesis
    using assms frat_binary_id_ok [of i] put_uint64_ok [of i]
    by (cases b) (simp_all add: frat_head_def frat_clause_ok_def frat_head_text_def frat_id_text_def
        put_text_def put_str_append)
qed

lemma frat_line_ok:
  "frat_clause_ok b i c \<Longrightarrow>
   frat_line b tag i c f = Ok (put_str (frat_head_text b tag i @ clause_text b c) f)"
  by (simp add: frat_line_def frat_head_ok clause_text_def put_str_append)

lemma frat_chain_ok:
  assumes "frat_clause_ok b i c" "list_all proof_id ch"
  shows "frat_add_derived_chain b i c ch f =
    Ok (put_str (frat_head_text b (CHR ''a'') i @ frat_lits_text b c @ ids_text b ch) f)"
proof -
  have "(if b then Ok (frat_binary_id (2 * n)) else text_id n) = Ok (id_text b n)" if "proof_id n" for n
    using that frat_binary_id_ok [of "2 * n"] text_id_ok [of n] by (auto simp: proof_id_def id_text_def)
  then have "rfold (\<lambda>n. put_text (if b then Ok (frat_binary_id (2 * n)) else text_id n)) ch g =
      Ok (put_str (concat (map (id_text b) ch)) g)" for g
    by (intro put_all) (use assms(2) in \<open>simp add: list_all_iff\<close>)
  then show ?thesis
    using frat_head_ok [OF assms(1)]
    by (simp add: frat_add_derived_chain_def frat_lits_text_def ids_text_def put_str_append)
qed

lemma frat_step_ok_text:
  assumes "frat_step_ok (frat_binary t) (with_antecedents t) s" "f_opened (frat_file t)"
  shows "\<exists>u. frat_step_trace s t = Ok u \<and>
    frat_file u = put_str (frat_text (frat_binary t) (with_antecedents t) s) (frat_file t) \<and>
    frat_binary u = frat_binary t \<and> with_antecedents u = with_antecedents t"
  using assms
  by (cases s) (simp_all add: frat_trace_original_def frat_trace_derived_def frat_trace_deletion_def
      frat_trace_finalize_def frat_trace_def pfile_closed_def frat_add_original_clause_def
      frat_add_derived_clause_def frat_delete_clause_def frat_finalize_clause_def frat_line_ok frat_chain_ok)

lemma frat_head_inj:
  "frat_head_text b p i @ s = frat_head_text b q j @ t \<Longrightarrow> p = q \<and> i = j \<and> s = t"
proof -
  assume eq: "frat_head_text b p i @ s = frat_head_text b q j @ t"
  then have "p = q" and e: "frat_id_text b i @ s = frat_id_text b j @ t"
    by (simp_all add: frat_head_text_def)
  moreover have "i = j \<and> s = t"
  proof (cases b)
    case True
    then show ?thesis
      using e by (intro prefix_freeD [OF prefix_free_leb]) (simp_all add: frat_id_text_def)
  next
    case False
    then show ?thesis
      using e append_sep_inj [OF show_nat_no_blank show_nat_no_blank, where us = "'' '' @ s" and vs = "'' '' @ t"]
      by (simp add: frat_id_text_def show_nat_inj)
  qed
  ultimately show ?thesis by simp
qed

lemma prefix_free_frat_lits: "prefix_free (frat_lits_text b) (list_all proof_lit)"
proof -
  define z where "z = (if b then binary_zero @ ''l'' else ''0  l '')"
  have z: "z = hd (drat_end b) # tl z" by (simp add: z_def drat_end_def binary_zero_def)
  have "prefix_free (\<lambda>c. concat (map (lit_text b) c) @ hd (drat_end b) # tl z) (list_all proof_lit)"
    by (rule prefix_free_list [OF prefix_free_lit]) (use lit_text_start in blast)
  then show ?thesis unfolding frat_lits_text_def z_def [symmetric] using z by simp
qed

lemma frat_body_inj:
  assumes "frat_clause_ok b i c" "frat_clause_ok b j d" "clause_text b c @ s = clause_text b d @ t"
  shows "c = d \<and> s = t"
  using prefix_freeD [OF prefix_free_clause _ _ assms(3)] assms(1,2) by (simp add: frat_clause_ok_def)

lemma frat_chain_inj:
  assumes "frat_clause_ok b i c" "frat_clause_ok b j d" "list_all proof_id ch" "list_all proof_id dh"
    "frat_lits_text b c @ ids_text b ch @ s = frat_lits_text b d @ ids_text b dh @ t"
  shows "c = d \<and> ch = dh \<and> s = t"
proof -
  have "c = d \<and> ids_text b ch @ s = ids_text b dh @ t"
    using prefix_freeD [OF prefix_free_frat_lits _ _ assms(5)] assms(1,2) by (simp add: frat_clause_ok_def)
  moreover then have "ch = dh \<and> s = t"
    using assms(3,4) by (intro prefix_freeD [OF prefix_free_ids [of b]]) simp_all
  ultimately show ?thesis by simp
qed

lemma prefix_free_frat: "prefix_free (frat_text b a) (frat_step_ok b a)"
proof (rule prefix_freeI)
  fix x y s t
  assume ok: "frat_step_ok b a x" "frat_step_ok b a y" and eq: "frat_text b a x @ s = frat_text b a y @ t"
  show "x = y \<and> s = t"
  proof (cases x)
    case (FratOriginal i c)
    then show ?thesis using ok eq by (cases y) (auto dest!: frat_head_inj dest: frat_body_inj)
  next
    case (FratDelete i c)
    then show ?thesis using ok eq by (cases y) (auto dest!: frat_head_inj dest: frat_body_inj)
  next
    case (FratFinalize i c)
    then show ?thesis using ok eq by (cases y) (auto dest!: frat_head_inj dest: frat_body_inj)
  next
    case x: (FratDerived i c ch)
    then obtain j d dh where y: "y = FratDerived j d dh"
      using eq by (cases y) (auto dest!: frat_head_inj)
    then show ?thesis
      using ok eq x by (cases a) (auto dest!: frat_head_inj dest: frat_body_inj frat_chain_inj)
  qed
qed

lemma frat_run_ok:
  assumes "list_all (frat_step_ok (frat_binary t) (with_antecedents t)) ss" "f_opened (frat_file t)"
  shows "\<exists>u. rfold frat_step_trace ss t = Ok u \<and> f_text (frat_file u) =
    f_text (frat_file t) @ concat (map (frat_text (frat_binary t) (with_antecedents t)) ss)"
  using assms
proof (induction ss arbitrary: t)
  case (Cons s ss)
  then obtain u where "frat_step_trace s t = Ok u"
    "frat_file u = put_str (frat_text (frat_binary t) (with_antecedents t) s) (frat_file t)"
    "frat_binary u = frat_binary t" "with_antecedents u = with_antecedents t"
    using frat_step_ok_text [of t s] by auto
  then show ?case using Cons.IH [of u] Cons.prems by (simp add: put_str_eq)
qed simp

text \<open>
  A FRAT proof can be read back, in both formats, with and without antecedents; but in the
  binary format only for literals below 2 to the 30: for every other literal the encoding
  \<open>2 * abs (lit)\<close> overflows, although the literals of CaDiCaL have 31 bits.
\<close>

theorem frat_readable:
  assumes "list_all (frat_step_ok b a) ss" "list_all (frat_step_ok b a) us"
  shows "(\<exists>t u. rfold frat_step_trace ss (new_FratTracer b a) = Ok t \<and>
      rfold frat_step_trace us (new_FratTracer b a) = Ok u \<and>
      (f_text (frat_file t) = f_text (frat_file u) \<longleftrightarrow> ss = us)) \<and>
    (frat_lit True l = Fault SignedOverflow \<longleftrightarrow> 2 ^ 30 \<le> \<bar>l\<bar>)"
proof -
  have ne: "frat_text b a s \<noteq> []" for s by (cases s) (simp_all add: frat_head_text_def)
  have "concat (map (frat_text b a) ss) = concat (map (frat_text b a) us) \<longleftrightarrow> ss = us"
    using prefix_free_concat [OF prefix_free_frat ne assms] by blast
  then have "\<exists>t u. rfold frat_step_trace ss (new_FratTracer b a) = Ok t \<and>
      rfold frat_step_trace us (new_FratTracer b a) = Ok u \<and>
      (f_text (frat_file t) = f_text (frat_file u) \<longleftrightarrow> ss = us)"
    using frat_run_ok [of "new_FratTracer b a" ss] frat_run_ok [of "new_FratTracer b a" us] assms
    by (auto simp: new_FratTracer_def)
  then show ?thesis by (simp add: frat_lit_def frat_binary_lit_def INT_MAX_def)
qed

theorem frat_readable_witness:
  "(\<exists>t u. rfold frat_step_trace [FratOriginal 1 [1, 2], FratDerived 3 [2] [1, 2]] (new_FratTracer True True) = Ok t \<and>
      rfold frat_step_trace [FratFinalize 1 [1, 2]] (new_FratTracer True True) = Ok u \<and>
      (f_text (frat_file t) = f_text (frat_file u) \<longleftrightarrow>
        [FratOriginal 1 [1, 2], FratDerived 3 [2] [1, 2]] = [FratFinalize 1 [1, 2]])) \<and>
    (frat_lit True (- 1073741824) = Fault SignedOverflow \<longleftrightarrow> 2 ^ 30 \<le> \<bar>- 1073741824 :: int\<bar>)"
  by (rule frat_readable) (simp_all add: frat_clause_ok_def proof_lit_def proof_id_def INT_MAX_def)

end
