(* ===== verification/Lrat_Reader.thy ===== *)
theory Lrat_Reader
  imports Proof_Tracers
begin

text \<open>
  Reading LRAT proofs: a reader of the text and of the binary format as these formats are documented, which knows nothing of the
  tracer, and the theorem that it reads from the file of the tracer the additions and deletions the tracer was called with.

  The text format is a sequence of words between blanks: a line is an identifier, the literals, 0, the antecedents, 0, or an
  identifier, the letter d, the deleted identifiers, 0. The binary format is a sequence of numbers in base 128, the lowest digit
  first, with the eighth bit set in all bytes of a number but the last: the letter a or d starts a line; identifiers and literals
  are doubled, and a negative literal is the odd number after that of its negation.
\<close>

section \<open>Readers\<close>

datatype lrat_line = Added nat "int list" "nat list" | Deleted "nat option" "nat list"

fun read_until :: "('t \<Rightarrow> bool) \<Rightarrow> ('t \<Rightarrow> 'v option) \<Rightarrow> 't list \<Rightarrow> ('v list \<times> 't list) option" where
  "read_until zero item [] = None"
| "read_until zero item (t # ts) =
     (if zero t then Some ([], ts)
      else Option.bind (item t) (\<lambda>v. map_option (\<lambda>(vs, rest). (v # vs, rest)) (read_until zero item ts)))"

fun split_words :: "string \<Rightarrow> string \<Rightarrow> string list" where
  "split_words w [] = (if w = '''' then [] else [w])"
| "split_words w (c # s) =
     (if c = CHR '' '' \<or> c = CHR ''\<newline>'' then (if w = '''' then [] else [w]) @ split_words '''' s else split_words (w @ [c]) s)"

definition nat_word :: "string \<Rightarrow> nat option" where
  "nat_word w = (if w \<noteq> '''' \<and> list_all is_digit w then Some (read_nat w) else None)"

definition int_word :: "string \<Rightarrow> int option" where
  "int_word w =
     (if w \<noteq> '''' \<and> hd w = CHR ''-'' then map_option (\<lambda>n. - int n) (nat_word (tl w)) else map_option int (nat_word w))"

text \<open>Each round reads one line; the number of words bounds the number of lines.\<close>

fun read_text_lines :: "nat \<Rightarrow> string list \<Rightarrow> lrat_line list option" where
  "read_text_lines n [] = Some []"
| "read_text_lines 0 (w # ws) = None"
| "read_text_lines (Suc n) (w # ws) =
     Option.bind (nat_word w) (\<lambda>i.
       if ws \<noteq> [] \<and> hd ws = ''d''
       then Option.bind (read_until (\<lambda>w. w = ''0'') nat_word (tl ws)) (\<lambda>(ds, ws).
              map_option (\<lambda>ls. Deleted (Some i) ds # ls) (read_text_lines n ws))
       else Option.bind (read_until (\<lambda>w. w = ''0'') int_word ws) (\<lambda>(c, ws).
            Option.bind (read_until (\<lambda>w. w = ''0'') nat_word ws) (\<lambda>(ch, ws).
              map_option (\<lambda>ls. Added i c ch # ls) (read_text_lines n ws))))"

text \<open>\<open>k\<close> is the weight of the next digit, \<open>n\<close> the number so far.\<close>

fun split_numbers :: "nat \<Rightarrow> nat \<Rightarrow> string \<Rightarrow> nat list" where
  "split_numbers k n [] = []"
| "split_numbers k n (c # s) =
     (let x = of_char c in
      if x < 128 then (n + k * x) # split_numbers 1 0 s else split_numbers (128 * k) (n + k * (x - 128)) s)"

definition even_id :: "nat \<Rightarrow> nat option" where
  "even_id n = (if even n then Some (n div 2) else None)"

definition signed_lit :: "nat \<Rightarrow> int option" where
  "signed_lit n = Some (if even n then int (n div 2) else - int (n div 2))"

fun read_binary_lines :: "nat \<Rightarrow> nat list \<Rightarrow> lrat_line list option" where
  "read_binary_lines n [] = Some []"
| "read_binary_lines 0 (x # xs) = None"
| "read_binary_lines (Suc n) (x # xs) =
     (if x = of_char (CHR ''d'')
      then Option.bind (read_until (\<lambda>x. x = 0) even_id xs) (\<lambda>(ds, xs).
             map_option (\<lambda>ls. Deleted None ds # ls) (read_binary_lines n xs))
      else if x = of_char (CHR ''a'') \<and> xs \<noteq> []
      then Option.bind (even_id (hd xs)) (\<lambda>i.
           Option.bind (read_until (\<lambda>x. x = 0) signed_lit (tl xs)) (\<lambda>(c, xs).
           Option.bind (read_until (\<lambda>x. x = 0) even_id xs) (\<lambda>(ch, xs).
             map_option (\<lambda>ls. Added i c ch # ls) (read_binary_lines n xs))))
      else None)"

definition read_lrat :: "bool \<Rightarrow> string \<Rightarrow> lrat_line list option" where
  "read_lrat b s =
     (if b then read_binary_lines (length s) (split_numbers 1 0 s) else read_text_lines (length s) (split_words '''' s))"

section \<open>Words\<close>

definition word_ok :: "string \<Rightarrow> bool" where
  "word_ok w \<longleftrightarrow> w \<noteq> '''' \<and> CHR '' '' \<notin> set w \<and> CHR ''\<newline>'' \<notin> set w"

lemma split_words_step: "CHR '' '' \<notin> set w \<Longrightarrow> CHR ''\<newline>'' \<notin> set w \<Longrightarrow> split_words v (w @ s) = split_words (v @ w) s"
  by (induction w arbitrary: v) auto

lemma split_words_word:
  assumes "word_ok w" "c = CHR '' '' \<or> c = CHR ''\<newline>''"
  shows "split_words '''' (w @ c # s) = w # split_words '''' s"
  using assms split_words_step [of w "''''" "c # s"] by (auto simp: word_ok_def)

lemma split_words_items:
  "(\<And>x. x \<in> set xs \<Longrightarrow> word_ok (e x)) \<Longrightarrow>
   split_words '''' (concat (map (\<lambda>x. e x @ '' '') xs) @ s) = map e xs @ split_words '''' s"
  by (induction xs) (simp_all add: split_words_word)

lemma show_nat_word: "word_ok (show_nat n)" "nat_word (show_nat n) = Some n"
  using show_nat_digits [of n] show_nat_nonempty [of n]
  by (auto simp: word_ok_def nat_word_def list_all_iff is_digit_def dest: show_nat_digits [rule_format])

lemma show_int_word: "word_ok (show_int l)" "int_word (show_int l) = Some l"
proof -
  have minus: "hd (show_nat n) \<noteq> CHR ''-''" for n by (rule hd_show_nat) (simp add: is_digit_def)
  show "word_ok (show_int l)" using show_nat_word(1) by (simp add: show_int_def word_ok_def)
  show "int_word (show_int l) = Some l"
    using show_nat_nonempty minus by (simp add: int_word_def show_int_def show_nat_word(2))
qed

lemma show_not_zero: "0 < n \<Longrightarrow> show_nat n \<noteq> ''0''" "l \<noteq> 0 \<Longrightarrow> show_int l \<noteq> ''0''"
  using show_nat_hd_pos [of n] show_nat_hd_pos [of "nat l"] by (auto simp: show_int_def)

lemma show_int_not_d: "show_int l \<noteq> ''d''"
proof -
  have "hd (show_nat n) \<noteq> CHR ''d''" for n by (rule hd_show_nat) (simp add: is_digit_def)
  then show ?thesis by (auto simp: show_int_def) (metis list.sel(1))
qed

lemma read_until_items:
  "(\<And>x. x \<in> set xs \<Longrightarrow> \<not> zero (e x) \<and> item (e x) = Some x) \<Longrightarrow> zero z \<Longrightarrow>
   read_until zero item (map e xs @ z # ts) = Some (xs, ts)"
  by (induction xs) simp_all

section \<open>Numbers\<close>

lemma split_leb: "split_numbers k n (leb x @ s) = (n + k * x) # split_numbers 1 0 s"
proof (induction x arbitrary: k n rule: leb.induct)
  case (1 x)
  show ?case
  proof (cases "x < 128")
    case False
    have "n + k * (x mod 128) + 128 * k * (x div 128) = n + k * (x mod 128 + 128 * (x div 128))" by (simp only: distrib_left ac_simps)
    also have "\<dots> = n + k * x" by (simp only: mod_mult_div_eq)
    finally have e: "n + k * (x mod 128) + 128 * k * (x div 128) = n + k * x" .
    then show ?thesis using "1.IH" [OF False] False by (simp add: leb.simps [of x] Let_def)
  qed (simp add: leb.simps Let_def)
qed

lemma split_lebs:
  "split_numbers 1 0 (concat (map (\<lambda>x. leb (e x)) xs) @ s) = map e xs @ split_numbers 1 0 s"
  by (induction xs) (simp_all add: split_leb)

lemma split_char: "of_char c < (128 :: nat) \<Longrightarrow> split_numbers 1 0 (c # s) = of_char c # split_numbers 1 0 s"
  by simp

lemma signed_lit_code: "signed_lit (lit_code l) = Some l"
  by (simp add: signed_lit_def lit_code_def)
section \<open>The lines of a trace\<close>

text \<open>
  What the calls should leave in the file: an addition is written at once, after one line with the deletions since the last addition;
  in the text format that line starts with the identifier of the last addition.
\<close>

fun lrat_lines :: "bool \<Rightarrow> nat \<Rightarrow> nat list \<Rightarrow> lrat_step list \<Rightarrow> lrat_line list" where
  "lrat_lines b latest ds [] = []"
| "lrat_lines b latest ds (LratDelete i # ss) = lrat_lines b latest (ds @ [i]) ss"
| "lrat_lines b latest ds (LratAdd i c ch # ss) =
     (if ds = [] then [] else [Deleted (if b then None else Some latest) ds]) @ Added i c ch # lrat_lines b i [] ss"

definition text_items :: "nat \<Rightarrow> nat list \<Rightarrow> nat \<Rightarrow> int list \<Rightarrow> nat list \<Rightarrow> string list" where
  "text_items latest ds i c ch =
     (if ds = [] then [] else show_nat latest # ''d'' # map show_nat ds @ [''0'']) @
     show_nat i # map show_int c @ ''0'' # map show_nat ch @ [''0'']"

definition binary_items :: "nat list \<Rightarrow> nat \<Rightarrow> int list \<Rightarrow> nat list \<Rightarrow> nat list" where
  "binary_items ds i c ch =
     (if ds = [] then [] else of_char (CHR ''d'') # map (\<lambda>i. 2 * i) ds @ [0]) @
     of_char (CHR ''a'') # 2 * i # map lit_code c @ 0 # map (\<lambda>i. 2 * i) ch @ [0]"

lemma item_texts:
  "id_text False = (\<lambda>n. show_nat n @ '' '')" "id_text True = (\<lambda>n. leb (2 * n))"
  "lit_text False = (\<lambda>l. show_int l @ '' '')" "lit_text True = (\<lambda>l. leb (lit_code l))"
  by (simp_all add: id_text_def lit_text_def fun_eq_iff)

lemma split_ids: "split_words '''' (ids_text False ds @ s) = map show_nat ds @ ''0'' # split_words '''' s"
proof -
  have "ids_text False ds = concat (map (\<lambda>x. show_nat x @ '' '') ds) @ ''0\<newline>''" by (simp add: ids_text_def item_texts drat_end_def)
  then show ?thesis by (simp add: split_words_items [OF show_nat_word(1)])
qed

lemma split_lits: "split_words '''' (lits_text False c @ s) = map show_int c @ ''0'' # split_words '''' s"
proof -
  have "lits_text False c = concat (map (\<lambda>x. show_int x @ '' '') c) @ ''0 ''" by (simp add: lits_text_def item_texts)
  then show ?thesis by (simp add: split_words_items [OF show_int_word(1)])
qed

lemma split_text_group:
  "split_words '''' (lrat_deletion_text False latest ds @ lrat_addition_text False i c ch @ s) =
   text_items latest ds i c ch @ split_words '''' s"
  by (simp add: lrat_deletion_text_def lrat_addition_text_def text_items_def id_text_def split_ids split_lits
      split_words_word [OF show_nat_word(1)])

lemma split_binary_ids: "split_numbers 1 0 (ids_text True ds @ s) = map (\<lambda>i. 2 * i) ds @ 0 # split_numbers 1 0 s"
  using split_lebs [of "\<lambda>i. 2 * i" ds "binary_zero @ s"]
  by (simp add: ids_text_def item_texts drat_end_def) (simp add: binary_zero_def)

lemma split_binary_lits: "split_numbers 1 0 (lits_text True c @ s) = map lit_code c @ 0 # split_numbers 1 0 s"
  using split_lebs [of lit_code c "binary_zero @ s"]
  by (simp add: lits_text_def item_texts) (simp add: binary_zero_def)

lemma split_binary_group:
  "split_numbers 1 0 (lrat_deletion_text True latest ds @ lrat_addition_text True i c ch @ s) =
   binary_items ds i c ch @ split_numbers 1 0 s"
  using split_leb [of 1 0 "2 * i"]
  by (simp add: lrat_deletion_text_def lrat_addition_text_def binary_items_def id_text_def split_binary_ids [unfolded One_nat_def]
      split_binary_lits [unfolded One_nat_def])

lemma read_text_group:
  assumes "group_ok (ds, i, c, ch)" "length (text_items latest ds i c ch @ ws) \<le> n"
  shows "\<exists>m. length ws \<le> m \<and> read_text_lines n (text_items latest ds i c ch @ ws) =
    map_option (\<lambda>ls. (if ds = [] then [] else [Deleted (Some latest) ds]) @ Added i c ch # ls) (read_text_lines m ws)"
proof -
  have ids: "read_until (\<lambda>w. w = ''0'') nat_word (map show_nat es @ ''0'' # ts) = Some (es, ts)" if "list_all proof_id es" for es ts
    by (rule read_until_items) (use that in \<open>auto simp: list_all_iff proof_id_def show_not_zero show_nat_word(2)\<close>)
  have lits: "read_until (\<lambda>w. w = ''0'') int_word (map show_int es @ ''0'' # ts) = Some (es, ts)" if "list_all proof_lit es" for es ts
    by (rule read_until_items) (use that in \<open>auto simp: list_all_iff proof_lit_def show_not_zero show_int_word(2)\<close>)
  have not_d: "hd (map show_int c @ ''0'' # ts) \<noteq> ''d''" for ts using show_int_not_d by (cases c) simp_all
  have add: "read_text_lines (Suc k) (show_nat i # map show_int c @ ''0'' # map show_nat ch @ ''0'' # ws) =
      map_option (\<lambda>ls. Added i c ch # ls) (read_text_lines k ws)" for k
    using assms(1) not_d by (simp add: show_nat_word(2) lits ids)
  have del: "read_text_lines (Suc k) (show_nat latest # ''d'' # map show_nat ds @ ''0'' # ts) =
      map_option (\<lambda>ls. Deleted (Some latest) ds # ls) (read_text_lines k ts)" for k ts
    using assms(1) by (simp add: show_nat_word(2) ids)
  show ?thesis
  proof (cases "ds = []")
    case True
    obtain k where k: "n = Suc k" "length ws \<le> k" using assms(2) by (cases n) (auto simp: text_items_def)
    then show ?thesis using True add by (intro exI [of _ k]) (simp add: text_items_def)
  next
    case False
    obtain k where k: "n = Suc (Suc k)" "length ws \<le> k" using assms(2) by (cases n; cases "n - 1") (auto simp: text_items_def)
    then show ?thesis using False add del by (intro exI [of _ k]) (simp add: text_items_def option.map_comp comp_def)
  qed
qed

lemma read_binary_group:
  assumes "group_ok (ds, i, c, ch)" "length (binary_items ds i c ch @ xs) \<le> n"
  shows "\<exists>m. length xs \<le> m \<and> read_binary_lines n (binary_items ds i c ch @ xs) =
    map_option (\<lambda>ls. (if ds = [] then [] else [Deleted None ds]) @ Added i c ch # ls) (read_binary_lines m xs)"
proof -
  have ids: "read_until (\<lambda>x. x = 0) even_id (map (\<lambda>i. 2 * i) es @ 0 # ts) = Some (es, ts)" if "list_all proof_id es" for es ts
    by (rule read_until_items) (use that in \<open>auto simp: list_all_iff proof_id_def even_id_def\<close>)
  have lits: "read_until (\<lambda>x. x = 0) signed_lit (map lit_code es @ 0 # ts) = Some (es, ts)" if "list_all proof_lit es" for es ts
    by (rule read_until_items) (use that in \<open>auto simp: list_all_iff proof_lit_def signed_lit_code, auto simp: lit_code_def\<close>)
  have add: "read_binary_lines (Suc k) (of_char (CHR ''a'') # 2 * i # map lit_code c @ 0 # map (\<lambda>i. 2 * i) ch @ 0 # xs) =
      map_option (\<lambda>ls. Added i c ch # ls) (read_binary_lines k xs)" for k
    using assms(1) by (simp add: lits ids even_id_def [of "2 * i"])
  have del: "read_binary_lines (Suc k) (of_char (CHR ''d'') # map (\<lambda>i. 2 * i) ds @ 0 # ts) =
      map_option (\<lambda>ls. Deleted None ds # ls) (read_binary_lines k ts)" for k ts
    using assms(1) by (simp add: ids)
  show ?thesis
  proof (cases "ds = []")
    case True
    obtain k where k: "n = Suc k" "length xs \<le> k" using assms(2) by (cases n) (auto simp: binary_items_def)
    have "binary_items ds i c ch @ xs = of_char (CHR ''a'') # 2 * i # map lit_code c @ 0 # map (\<lambda>i. 2 * i) ch @ 0 # xs"
      using True by (simp add: binary_items_def)
    then show ?thesis using True k add [of k] by (intro exI [of _ k]) (simp del: read_binary_lines.simps)
  next
    case False
    obtain k where k: "n = Suc (Suc k)" "length xs \<le> k" using assms(2) by (cases n; cases "n - 1") (auto simp: binary_items_def)
    have "binary_items ds i c ch @ xs = of_char (CHR ''d'') # map (\<lambda>i. 2 * i) ds @ 0 #
        of_char (CHR ''a'') # 2 * i # map lit_code c @ 0 # map (\<lambda>i. 2 * i) ch @ 0 # xs"
      using False by (simp add: binary_items_def)
    then show ?thesis using False k add [of k] del [of "Suc k"]
      by (intro exI [of _ k]) (simp del: read_binary_lines.simps add: option.map_comp comp_def)
  qed
qed

fun group_lines :: "bool \<Rightarrow> nat \<Rightarrow> (nat list \<times> nat \<times> int list \<times> nat list) list \<Rightarrow> lrat_line list" where
  "group_lines b latest [] = []"
| "group_lines b latest ((ds, i, c, ch) # gs) =
     (if ds = [] then [] else [Deleted (if b then None else Some latest) ds]) @ Added i c ch # group_lines b i gs"

lemma lines_of_groups: "lrat_lines b latest ds ss = group_lines b latest (lrat_groups ds ss)"
  by (induction b latest ds ss rule: lrat_lines.induct) simp_all

lemma read_text_groups:
  "list_all group_ok gs \<Longrightarrow> length (split_words '''' (lrat_text False latest gs)) \<le> n \<Longrightarrow>
   read_text_lines n (split_words '''' (lrat_text False latest gs)) = Some (group_lines False latest gs)"
proof (induction gs arbitrary: latest n)
  case (Cons g gs)
  obtain ds i c ch where g: "g = (ds, i, c, ch)" by (cases g) auto
  have w: "split_words '''' (lrat_text False latest (g # gs)) = text_items latest ds i c ch @ split_words '''' (lrat_text False i gs)"
    using split_text_group [of latest ds i c ch "lrat_text False i gs"] by (simp add: g)
  have ok: "group_ok (ds, i, c, ch)" "list_all group_ok gs" using Cons.prems(1) g by simp_all
  obtain m where m: "length (split_words '''' (lrat_text False i gs)) \<le> m"
    "read_text_lines n (split_words '''' (lrat_text False latest (g # gs))) =
     map_option (\<lambda>ls. (if ds = [] then [] else [Deleted (Some latest) ds]) @ Added i c ch # ls) (read_text_lines m (split_words '''' (lrat_text False i gs)))"
    using read_text_group [OF ok(1)] Cons.prems(2) unfolding w by blast
  show ?case using m(2) Cons.IH [OF ok(2) m(1)] by (simp add: g)
qed simp

lemma read_binary_groups:
  "list_all group_ok gs \<Longrightarrow> length (split_numbers 1 0 (lrat_text True latest gs)) \<le> n \<Longrightarrow>
   read_binary_lines n (split_numbers 1 0 (lrat_text True latest gs)) = Some (group_lines True latest gs)"
proof (induction gs arbitrary: latest n)
  case (Cons g gs)
  obtain ds i c ch where g: "g = (ds, i, c, ch)" by (cases g) auto
  have w: "split_numbers 1 0 (lrat_text True latest (g # gs)) = binary_items ds i c ch @ split_numbers 1 0 (lrat_text True i gs)"
    using split_binary_group [of latest ds i c ch "lrat_text True i gs"] by (simp add: g)
  have ok: "group_ok (ds, i, c, ch)" "list_all group_ok gs" using Cons.prems(1) g by simp_all
  obtain m where m: "length (split_numbers 1 0 (lrat_text True i gs)) \<le> m"
    "read_binary_lines n (split_numbers 1 0 (lrat_text True latest (g # gs))) =
     map_option (\<lambda>ls. (if ds = [] then [] else [Deleted None ds]) @ Added i c ch # ls) (read_binary_lines m (split_numbers 1 0 (lrat_text True i gs)))"
    using read_binary_group [OF ok(1)] Cons.prems(2) unfolding w by blast
  show ?case using m(2) Cons.IH [OF ok(2) m(1)] by (simp add: g)
qed simp

lemma split_words_length: "length (split_words w s) \<le> length w + length s"
  by (induction w s rule: split_words.induct) (auto simp: Suc_le_eq)

lemma split_numbers_length: "length (split_numbers k n s) \<le> length s"
  by (induction k n s rule: split_numbers.induct) (auto simp: Let_def)

text \<open>
  C25. An LRAT proof can be read back, in both formats: a reader that knows only the format finds in the file exactly the additions of
  the calls, in their order, with identifier, literals and chain, and before each the deletions since the last one, in the
  text format under the identifier of the last addition. Deletions after the last addition are kept back and never written.
\<close>

theorem lrat_reads_back:
  assumes "list_all lrat_step_ok ss" "first < 2 ^ 64"
  shows "\<exists>t. rfold lrat_trace ss (lrat_begin_proof first (new_LratTracer b)) = Ok t \<and>
    read_lrat b (f_text (lrat_file t)) = Some (lrat_lines b first [] ss) \<and> delete_ids t = lrat_pending [] ss"
proof -
  define start where "start = lrat_begin_proof first (new_LratTracer b)"
  have start: "f_text (lrat_file start) = []" "delete_ids start = []" "latest_id start = first"
    "f_opened (lrat_file start)" "lrat_binary start = b"
    by (simp_all add: start_def lrat_begin_proof_def new_LratTracer_def pfile_closed_def)
  obtain t where t: "rfold lrat_trace ss start = Ok t" "f_text (lrat_file t) = lrat_text b first (lrat_groups [] ss)"
    "delete_ids t = lrat_pending [] ss"
    using lrat_run_ok [OF assms(1), of start] start assms(2) by auto
  have ok: "list_all group_ok (lrat_groups [] ss)" using lrat_groups_ok assms(1) by simp
  have "read_lrat b (f_text (lrat_file t)) = Some (lrat_lines b first [] ss)"
    using read_text_groups [OF ok, of first "length (f_text (lrat_file t))"] split_words_length [of "''''" "f_text (lrat_file t)"]
      read_binary_groups [OF ok, of first "length (f_text (lrat_file t))"] split_numbers_length [of 1 0 "f_text (lrat_file t)"]
    by (cases b) (simp_all add: read_lrat_def t(2) lines_of_groups)
  then show ?thesis using t(1,3) by (auto simp: start_def)
qed

theorem lrat_reads_back_witness:
  "\<exists>t. rfold lrat_trace [LratAdd 4 [1, - 2] [1, 2], LratDelete 2, LratAdd 5 [] [3, 4], LratDelete 1]
       (lrat_begin_proof 3 (new_LratTracer False)) = Ok t \<and>
     read_lrat False (f_text (lrat_file t)) = Some (lrat_lines False 3 [] [LratAdd 4 [1, - 2] [1, 2], LratDelete 2, LratAdd 5 [] [3, 4], LratDelete 1]) \<and>
     delete_ids t = lrat_pending [] [LratAdd 4 [1, - 2] [1, 2], LratDelete 2, LratAdd 5 [] [3, 4], LratDelete 1]"
  by (rule lrat_reads_back) (simp_all add: proof_lit_def proof_id_def INT_MAX_def)

lemma read_example:
  "read_lrat False ''4 1 -2 0 1 2 0\<newline>4 d 2 0\<newline>5 0 3 4 0\<newline>'' = Some [Added 4 [1, - 2] [1, 2], Deleted (Some 4) [2], Added 5 [] [3, 4]]"
  "lrat_lines False 3 [] [LratAdd 4 [1, - 2] [1, 2], LratDelete 2, LratAdd 5 [] [3, 4], LratDelete 1] =
   [Added 4 [1, - 2] [1, 2], Deleted (Some 4) [2], Added 5 [] [3, 4]]"
  "read_lrat True (map char_of [97, 8, 2, 5, 0, 2, 4, 0, 100, 4, 0, 97, 10, 0, 6, 172, 2, 0 :: nat]) =
   Some [Added 4 [1, - 2] [1, 2], Deleted None [2], Added 5 [] [3, 150]]"
  by code_simp+

end
