(* ===== verification/Hash_Table.thy ===== *)
theory Hash_Table
  imports Prelude "HOL-Library.Word" "HOL-Library.Multiset"
begin

unbundle bit_operations_syntax

text \<open>
  The hash table with collision chains that CaDiCaL's proof checker and VeriPB tracer keep for
  clause identifiers (\<open>lratchecker.cpp\<close>, \<open>veripbtracer.cpp\<close>, with the nonces of
  \<open>random.hpp\<close>). The C++ classes each have a copy of this code; the model is one table with
  entries of any type, so that both components use it.

  The array of chains is a list of lists, its length the member \<open>size_clauses\<close>; a pointer to a link
  is a pair of a slot and a position in its chain. Hash values are 64 bit words. Reducing a hash
  value to a table of size 0 does not come back (\<open>Diverges\<close>); the interface \<open>entry_store\<close> states
  what holds otherwise: the table behaves as a multiset of entries.
\<close>

section \<open>Hash values\<close>

definition random_next :: "64 word \<Rightarrow> 64 word" where
  "random_next s = s * 6364136223846793005 + 1442695040888963407"

fun make_nonces :: "nat \<Rightarrow> 64 word \<Rightarrow> 64 word list" where
  "make_nonces 0 s = []"
| "make_nonces (Suc n) s =
     (let s = random_next s in (if s AND 1 = 0 then s + 1 else s) # make_nonces n s)"

definition num_nonces :: nat where
  "num_nonces = 4"

definition nonces :: "64 word list" where
  "nonces = make_nonces num_nonces 42"

definition compute_hash :: "nat \<Rightarrow> 64 word" where
  "compute_hash i = nonces ! (i mod num_nonces) * of_nat i"

text \<open>The loop \<open>while ((1 << shift) > size) { res ^= res >> shift; shift >>= 1; }\<close>.\<close>

definition reduce_hash :: "64 word \<Rightarrow> nat \<Rightarrow> nat result" where
  "reduce_hash hash sz =
     rbind (rwhile (\<lambda>(shift, res). int sz < 2 ^ shift)
              (\<lambda>(shift, res). Ok (shift div 2, res XOR drop_bit shift res)) (32 :: nat, hash)) (\<lambda>(shift, res).
       Ok (nat (uint res AND (int sz - 1))))"

section \<open>Tables\<close>

record 'a entry =
  e_hash :: "64 word"
  e_id :: nat
  e_data :: 'a

record 'a htable =
  num_clauses :: nat
  slots :: "'a entry list list"

definition empty_htable :: "'a htable" where
  "empty_htable = \<lparr>num_clauses = 0, slots = []\<rparr>"

definition push_slot :: "nat \<Rightarrow> 'a entry \<Rightarrow> 'a entry list list \<Rightarrow> 'a entry list list result" where
  "push_slot h e s = rbind (vec_at s h) (\<lambda>chain. vec_set s h (e # chain))"

definition enlarge_clauses :: "'a htable \<Rightarrow> 'a htable result" where
  "enlarge_clauses t =
     (let sz = length (slots t); new_size = (if sz = 0 then 1 else 2 * sz) in
      rbind (rfold (rfold (\<lambda>e s. rbind (reduce_hash (e_hash e) new_size) (\<lambda>h. push_slot h e s)))
               (slots t) (replicate new_size [])) (\<lambda>s. Ok (t\<lparr>slots := s\<rparr>)))"

text \<open>The position of the first entry with the hash value and identifier, else the end.\<close>

fun find_pos :: "64 word \<Rightarrow> nat \<Rightarrow> 'a entry list \<Rightarrow> nat" where
  "find_pos hash i [] = 0"
| "find_pos hash i (e # es) = (if e_hash e = hash \<and> e_id e = i then 0 else Suc (find_pos hash i es))"

definition find :: "nat \<Rightarrow> 'a htable \<Rightarrow> (nat \<times> nat) result" where
  "find i t =
     rbind (reduce_hash (compute_hash i) (length (slots t))) (\<lambda>h.
     rbind (vec_at (slots t) h) (\<lambda>chain. Ok (h, find_pos (compute_hash i) i chain)))"

text \<open>What a link points to, \<open>None\<close> for the null pointer.\<close>

definition deref :: "'a htable \<Rightarrow> nat \<times> nat \<Rightarrow> 'a entry option" where
  "deref t p = (if snd p < length (slots t ! fst p) then Some (slots t ! fst p ! snd p) else None)"

definition insert_clause :: "nat \<Rightarrow> 'a \<Rightarrow> 'a htable \<Rightarrow> 'a htable result" where
  "insert_clause i d t =
     rbind (if num_clauses t = length (slots t) then enlarge_clauses t else Ok t) (\<lambda>t.
     rbind (reduce_hash (compute_hash i) (length (slots t))) (\<lambda>h.
     rbind (push_slot h \<lparr>e_hash = compute_hash i, e_id = i, e_data = d\<rparr> (slots t)) (\<lambda>s.
       Ok (t\<lparr>slots := s, num_clauses := num_clauses t + 1\<rparr>))))"

text \<open>\<open>*p = d->next\<close>, with \<open>num_clauses--\<close>.\<close>

definition unlink :: "nat \<times> nat \<Rightarrow> 'a htable \<Rightarrow> 'a htable" where
  "unlink p t = (let chain = slots t ! fst p in
     t\<lparr>slots := (slots t)[fst p := take (snd p) chain @ drop (Suc (snd p)) chain],
       num_clauses := num_clauses t - 1\<rparr>)"

text \<open>Looking up and deleting by identifier.\<close>

definition lookup :: "nat \<Rightarrow> 'a htable \<Rightarrow> 'a entry option result" where
  "lookup i t = rbind (find i t) (\<lambda>p. Ok (deref t p))"

definition remove :: "nat \<Rightarrow> 'a htable \<Rightarrow> 'a htable result" where
  "remove i t = rbind (find i t) (\<lambda>p. Ok (if deref t p = None then t else unlink p t))"

section \<open>The interface\<close>

locale entry_store =
  fixes invar :: "'t \<Rightarrow> bool"
    and bag :: "'t \<Rightarrow> 'e multiset"
    and key :: "'e \<Rightarrow> nat"
    and make :: "nat \<Rightarrow> 'd \<Rightarrow> 'e"
    and empty :: "'t"
    and look :: "nat \<Rightarrow> 't \<Rightarrow> 'e option result"
    and add :: "nat \<Rightarrow> 'd \<Rightarrow> 't \<Rightarrow> 't result"
    and del :: "nat \<Rightarrow> 't \<Rightarrow> 't result"
  assumes empty_bag: "invar empty" "bag empty = {#}"
    and key_make: "key (make i d) = i"
    and look_bag: "invar t \<Longrightarrow> bag t \<noteq> {#} \<Longrightarrow> \<exists>r. look i t = Ok r \<and>
        (case r of None \<Rightarrow> \<forall>e \<in># bag t. key e \<noteq> i | Some e \<Rightarrow> e \<in># bag t \<and> key e = i)"
    and add_bag: "invar t \<Longrightarrow> \<exists>u. add i d t = Ok u \<and> invar u \<and> bag u = add_mset (make i d) (bag t)"
    and del_bag: "invar t \<Longrightarrow> bag t \<noteq> {#} \<Longrightarrow> \<exists>u. del i t = Ok u \<and> invar u \<and>
        (case the_ok (look i t) of None \<Rightarrow> u = t | Some e \<Rightarrow> bag u = bag t - {#e#})"
begin

text \<open>With different identifiers the entries form a finite map.\<close>

definition unique_ids :: "'t \<Rightarrow> bool" where
  "unique_ids t \<longleftrightarrow> (\<forall>i. size {#e \<in># bag t. key e = i#} \<le> 1)"

lemma unique_eq:
  assumes "unique_ids t" "e \<in># bag t" "f \<in># bag t" "key e = key f"
  shows "e = f"
proof (rule ccontr)
  assume "e \<noteq> f"
  then have "{#e, f#} \<subseteq># {#g \<in># bag t. key g = key e#}"
    using assms(2-4) by (auto simp: subseteq_mset_def Suc_le_eq)
  then have "size {#e, f#} \<le> size {#g \<in># bag t. key g = key e#}" by (rule size_mset_mono)
  then show False using assms(1) by (auto simp: unique_ids_def dest: spec [of _ "key e"])
qed

lemma look_iff:
  assumes "invar t" "unique_ids t" "bag t \<noteq> {#}"
  shows "look i t = Ok (Some e) \<longleftrightarrow> e \<in># bag t \<and> key e = i"
  using look_bag [OF assms(1,3), of i] unique_eq [OF assms(2)] by (auto split: option.splits)

lemma look_none:
  assumes "invar t" "bag t \<noteq> {#}"
  shows "look i t = Ok None \<longleftrightarrow> i \<notin> key ` set_mset (bag t)"
proof -
  obtain r where "look i t = Ok r"
    "case r of None \<Rightarrow> \<forall>e \<in># bag t. key e \<noteq> i | Some e \<Rightarrow> e \<in># bag t \<and> key e = i"
    using look_bag [OF assms] by blast
  then show ?thesis by (cases r) auto
qed

lemma add_unique:
  assumes "invar t" "unique_ids t" "i \<notin> key ` set_mset (bag t)"
  shows "\<exists>u. add i d t = Ok u \<and> invar u \<and> unique_ids u \<and> bag u = add_mset (make i d) (bag t)"
proof -
  obtain u where u: "add i d t = Ok u" "invar u" "bag u = add_mset (make i d) (bag t)"
    using add_bag [OF assms(1)] by blast
  have "{#e \<in># bag t. key e = i#} = {#}" using assms(3) by (auto simp: multiset_eq_iff not_in_iff)
  then have "unique_ids u" using assms(2) u(3) by (auto simp: unique_ids_def key_make)
  then show ?thesis using u by blast
qed

text \<open>Looking up after an insertion.\<close>

lemma look_add:
  assumes "invar t" "unique_ids t" "i \<notin> key ` set_mset (bag t)" "bag t \<noteq> {#}"
  shows "\<exists>u. add i d t = Ok u \<and> look j u = (if j = i then Ok (Some (make i d)) else look j t)"
proof -
  obtain u where u: "add i d t = Ok u" "invar u" "unique_ids u" "bag u = add_mset (make i d) (bag t)"
    using add_unique [OF assms(1-3)] by blast
  have ne: "bag u \<noteq> {#}" using u(4) by simp
  obtain r where r: "look j t = Ok r" using look_bag [OF assms(1,4)] by blast
  have "look j u = look j t" if "j \<noteq> i"
  proof (cases r)
    case None
    then have "j \<notin> key ` set_mset (bag u)"
      using look_none [OF assms(1,4), of j] r that u(4) by (simp add: key_make)
    then show ?thesis using look_none [OF u(2) ne, of j] r None by simp
  next
    case (Some e)
    then show ?thesis
      using look_iff [OF assms(1,2,4), of j e] look_iff [OF u(2,3) ne, of j e] r u(4) by simp
  qed
  moreover have "look i u = Ok (Some (make i d))"
    using look_iff [OF u(2,3) ne, of i "make i d"] u(4) by (simp add: key_make)
  ultimately show ?thesis using u(1) by auto
qed

end

section \<open>The table is an entry store\<close>

definition entry_ok :: "nat \<Rightarrow> nat \<Rightarrow> 'a entry \<Rightarrow> bool" where
  "entry_ok sz h e \<longleftrightarrow> reduce_hash (e_hash e) sz = Ok h \<and> e_hash e = compute_hash (e_id e)"

definition slot_ok :: "'a entry list list \<Rightarrow> bool" where
  "slot_ok s \<longleftrightarrow> (\<forall>h < length s. \<forall>e \<in> set (s ! h). entry_ok (length s) h e)"

definition ht_ok :: "'a htable \<Rightarrow> bool" where
  "ht_ok t \<longleftrightarrow> num_clauses t = length (concat (slots t)) \<and> slot_ok (slots t)"

definition ht_bag :: "'a htable \<Rightarrow> 'a entry multiset" where
  "ht_bag t = mset (concat (slots t))"

definition make_entry :: "nat \<Rightarrow> 'a \<Rightarrow> 'a entry" where
  "make_entry i d = \<lparr>e_hash = compute_hash i, e_id = i, e_data = d\<rparr>"

text \<open>A table of size 0 makes the loop of \<open>reduce_hash\<close> run forever, any other gives a slot.\<close>

lemma reduce_hash_slot: "0 < sz \<Longrightarrow> \<exists>h < sz. reduce_hash x sz = Ok h"
proof -
  assume "0 < sz"
  have "\<exists>p. rwhile (\<lambda>(shift, res). int sz < 2 ^ shift)
      (\<lambda>(shift, res). Ok (shift div 2, res XOR drop_bit shift res)) (32 :: nat, x) = Ok p \<and>
      True \<and> \<not> (case p of (shift, res) \<Rightarrow> int sz < 2 ^ shift)"
  proof (rule rwhile_rule)
    show "wf (measure (\<lambda>(shift, res :: 64 word). shift))" by simp
    fix p :: "nat \<times> 64 word"
    obtain shift res where p: "p = (shift, res)" by (cases p)
    assume "case p of (shift, res) \<Rightarrow> int sz < 2 ^ shift"
    then have "shift \<noteq> 0" using \<open>0 < sz\<close> p by (cases shift) auto
    then show "\<exists>q. (case p of (shift, res) \<Rightarrow> Ok (shift div 2, res XOR drop_bit shift res)) = Ok q \<and> True \<and>
        (q, p) \<in> measure (\<lambda>(shift, res :: 64 word). shift)" using p by simp
  qed simp
  then obtain shift res where "reduce_hash x sz = Ok (nat (uint (res :: 64 word) AND (int sz - 1)))"
    by (auto simp: reduce_hash_def)
  moreover have "nat (uint res AND (int sz - 1)) < sz"
    using AND_upper2 [of "int sz - 1" "uint res"] \<open>0 < sz\<close> by (simp add: nat_less_iff)
  ultimately show ?thesis by blast
qed

lemma reduce_hash_empty: "reduce_hash x 0 = Fault Diverges"
proof -
  let ?b = "\<lambda>r :: (nat \<times> 64 word) result. case r of Ok t \<Rightarrow> (case t of (shift, res) \<Rightarrow> int 0 < 2 ^ shift) | Fault e \<Rightarrow> False"
  let ?c = "\<lambda>r :: (nat \<times> 64 word) result. rbind r (\<lambda>(shift, res). Ok (shift div 2, res XOR drop_bit shift res))"
  have "while_option ?b ?c (Ok (32, x)) = None"
  proof (rule ccontr)
    assume "while_option ?b ?c (Ok (32, x)) \<noteq> None"
    then obtain r where r: "while_option ?b ?c (Ok (32, x)) = Some r" by blast
    have "\<exists>p. r = Ok p"
      by (rule while_option_rule [where P = "\<lambda>r. \<exists>p. r = Ok p", OF _ r]) auto
    then show False using while_option_stop [OF r] by auto
  qed
  then show ?thesis unfolding reduce_hash_def rwhile_def by (simp only: option.case rbind.simps)
qed

lemma slot_ok_update:
  assumes "slot_ok s" "\<And>e. e \<in> set c \<Longrightarrow> entry_ok (length s) h e"
  shows "slot_ok (s[h := c])"
  unfolding slot_ok_def
proof (intro allI impI ballI)
  fix k e
  assume k: "k < length (s[h := c])" "e \<in> set (s[h := c] ! k)"
  show "entry_ok (length (s[h := c])) k e"
  proof (cases "k = h")
    case True
    then show ?thesis using k assms(2) by simp
  next
    case False
    then show ?thesis using k assms(1) by (simp add: slot_ok_def)
  qed
qed

lemma in_concat_nth: "e \<in> set (concat s) \<longleftrightarrow> (\<exists>h < length s. e \<in> set (s ! h))"
  unfolding set_concat by (metis UN_iff in_set_conv_nth)

lemma slot_okD:
  "slot_ok s \<Longrightarrow> h < length s \<Longrightarrow> e \<in> set (s ! h) \<Longrightarrow>
   entry_ok (length s) h e"
  unfolding slot_ok_def by blast

lemma mset_concat_update:
  "h < length s \<Longrightarrow> mset (concat (s[h := c])) + mset (s ! h) = mset (concat s) + mset c"
proof (induction s arbitrary: h)
  case (Cons x s)
  then show ?case by (cases h) (auto simp: ac_simps)
qed simp

lemma rfold_concat: "rfold (rfold f) xss s = rfold f (concat xss) s"
proof (induction xss arbitrary: s)
  case (Cons xs xss)
  then show ?case by (cases "rfold f xs s") (simp_all add: rfold_append)
qed simp

lemma push_slot_ok:
  assumes "slot_ok s" "reduce_hash (e_hash e) (length s) = Ok h" "h < length s" "e_hash e = compute_hash (e_id e)"
  shows "\<exists>u. push_slot h e s = Ok u \<and> length u = length s \<and> slot_ok u \<and>
    mset (concat u) = add_mset e (mset (concat s))"
proof -
  have "mset (concat (s[h := e # s ! h])) + mset (s ! h) = add_mset e (mset (concat s)) + mset (s ! h)"
    using mset_concat_update [OF assms(3), of "e # s ! h"] by simp
  moreover have "slot_ok (s[h := e # s ! h])"
    using assms slot_okD [OF assms(1,3)] by (intro slot_ok_update) (auto simp: entry_ok_def)
  ultimately show ?thesis using assms(3) by (simp add: push_slot_def)
qed

lemma refill_ok:
  assumes "slot_ok s" "0 < length s" "\<forall>e \<in> set es. e_hash e = compute_hash (e_id e)"
  shows "\<exists>u. rfold (\<lambda>e s'. rbind (reduce_hash (e_hash e) (length s)) (\<lambda>h. push_slot h e s')) es s = Ok u \<and>
    length u = length s \<and> slot_ok u \<and> mset (concat u) = mset es + mset (concat s)"
  using assms
proof (induction es arbitrary: s)
  case (Cons e es)
  obtain h where h: "h < length s" "reduce_hash (e_hash e) (length s) = Ok h"
    using reduce_hash_slot Cons.prems(2) by blast
  obtain u where u: "push_slot h e s = Ok u" "length u = length s" "slot_ok u"
    "mset (concat u) = add_mset e (mset (concat s))"
    using push_slot_ok [OF Cons.prems(1) h(2,1)] Cons.prems(3) by auto
  obtain v where "rfold (\<lambda>e s'. rbind (reduce_hash (e_hash e) (length u)) (\<lambda>h. push_slot h e s')) es u = Ok v"
    "length v = length u" "slot_ok v" "mset (concat v) = mset es + mset (concat u)"
    using Cons.IH [of u] u Cons.prems by auto
  then show ?case using h u by simp
qed simp

lemma enlarge_ok:
  assumes "ht_ok t"
  shows "\<exists>u. enlarge_clauses t = Ok u \<and> ht_ok u \<and> ht_bag u = ht_bag t \<and>
    length (slots u) = (if slots t = [] then 1 else 2 * length (slots t))"
proof -
  define n where "n = (if length (slots t) = 0 then 1 else 2 * length (slots t))"
  have n: "0 < n" by (simp add: n_def)
  have "\<forall>e \<in> set (concat (slots t)). e_hash e = compute_hash (e_id e)"
  proof
    fix e assume "e \<in> set (concat (slots t))"
    then obtain h where "h < length (slots t)" "e \<in> set (slots t ! h)" unfolding in_concat_nth by blast
    then show "e_hash e = compute_hash (e_id e)"
      using assms slot_okD [of "slots t" h e] by (simp add: ht_ok_def entry_ok_def)
  qed
  moreover have "slot_ok (replicate n [])" "mset (concat (replicate n [])) = {#}"
    by (simp_all add: slot_ok_def)
  ultimately obtain u where u: "rfold (\<lambda>e s'. rbind (reduce_hash (e_hash e) n) (\<lambda>h. push_slot h e s'))
      (concat (slots t)) (replicate n []) = Ok u" "length u = n" "slot_ok u"
    "mset (concat u) = mset (concat (slots t))"
    using refill_ok [of "replicate n []" "concat (slots t)"] n unfolding length_replicate by auto
  have "length (concat u) = length (concat (slots t))" using u(4) by (metis size_mset)
  moreover have "enlarge_clauses t = Ok (t\<lparr>slots := u\<rparr>)"
    unfolding enlarge_clauses_def Let_def n_def [symmetric] rfold_concat using u(1) by simp
  moreover have "length u = (if slots t = [] then 1 else 2 * length (slots t))"
    using u(2) by (simp add: n_def)
  ultimately show ?thesis using u(3,4) assms by (simp add: ht_ok_def ht_bag_def)
qed

lemma insert_ok:
  assumes "ht_ok t"
  shows "\<exists>u. insert_clause i d t = Ok u \<and> ht_ok u \<and> ht_bag u = add_mset (make_entry i d) (ht_bag t)"
proof -
  obtain v where v: "(if num_clauses t = length (slots t) then enlarge_clauses t else Ok t) = Ok v"
    "ht_ok v" "ht_bag v = ht_bag t" "0 < length (slots v)"
  proof (cases "num_clauses t = length (slots t)")
    case True
    then obtain v where "enlarge_clauses t = Ok v" "ht_ok v" "ht_bag v = ht_bag t"
      "length (slots v) = (if slots t = [] then 1 else 2 * length (slots t))"
      using enlarge_ok [OF assms] by blast
    then show ?thesis using that [of v] True by (simp split: if_splits)
  next
    case False
    then have "slots t \<noteq> []" using assms by (auto simp: ht_ok_def)
    then show ?thesis using that [of t] False assms by simp
  qed
  obtain h where h: "h < length (slots v)" "reduce_hash (compute_hash i) (length (slots v)) = Ok h"
    using reduce_hash_slot v(4) by blast
  obtain s where s: "push_slot h (make_entry i d) (slots v) = Ok s" "slot_ok s"
    "mset (concat s) = add_mset (make_entry i d) (mset (concat (slots v)))"
    using push_slot_ok [of "slots v" "make_entry i d" h] v(2) h by (auto simp: make_entry_def ht_ok_def)
  have "length (concat s) = Suc (length (concat (slots v)))" using s(3) by (metis size_mset size_add_mset)
  then show ?thesis
    using v h s by (simp add: insert_clause_def make_entry_def [symmetric] ht_ok_def ht_bag_def)
qed

lemma find_pos_in: "find_pos hash i es < length es \<Longrightarrow> e_id (es ! find_pos hash i es) = i"
  by (induction es) auto

lemma find_pos_out:
  "\<not> find_pos hash i es < length es \<Longrightarrow> e \<in> set es \<Longrightarrow> e_hash e = hash \<Longrightarrow> e_id e \<noteq> i"
  by (induction es) (auto split: if_splits)

lemma find_ok:
  assumes "ht_ok t" "ht_bag t \<noteq> {#}"
  shows "\<exists>h. find i t = Ok (h, find_pos (compute_hash i) i (slots t ! h)) \<and> h < length (slots t) \<and>
    (\<forall>e \<in># ht_bag t. e_id e = i \<longrightarrow> e \<in> set (slots t ! h) \<and> e_hash e = compute_hash i)"
proof -
  have "0 < length (slots t)" using assms(2) by (auto simp: ht_bag_def)
  then obtain h where h: "h < length (slots t)" "reduce_hash (compute_hash i) (length (slots t)) = Ok h"
    using reduce_hash_slot by blast
  have "e \<in> set (slots t ! h) \<and> e_hash e = compute_hash i" if e: "e \<in># ht_bag t" "e_id e = i" for e
  proof -
    obtain k where k: "k < length (slots t)" "e \<in> set (slots t ! k)"
      using e(1) unfolding ht_bag_def set_mset_mset in_concat_nth by blast
    then have "entry_ok (length (slots t)) k e"
      using assms(1) by (simp add: ht_ok_def slot_ok_def)
    with h(2) k(2) e(2) show ?thesis by (auto simp: entry_ok_def)
  qed
  then show ?thesis using h by (simp add: find_def)
qed

lemma lookup_ok:
  assumes "ht_ok t" "ht_bag t \<noteq> {#}"
  shows "\<exists>r. lookup i t = Ok r \<and>
    (case r of None \<Rightarrow> \<forall>e \<in># ht_bag t. e_id e \<noteq> i | Some e \<Rightarrow> e \<in># ht_bag t \<and> e_id e = i)"
proof -
  obtain h where h: "find i t = Ok (h, find_pos (compute_hash i) i (slots t ! h))" "h < length (slots t)"
    "\<forall>e \<in># ht_bag t. e_id e = i \<longrightarrow> e \<in> set (slots t ! h) \<and> e_hash e = compute_hash i"
    using find_ok [OF assms] by blast
  show ?thesis
  proof (cases "find_pos (compute_hash i) i (slots t ! h) < length (slots t ! h)")
    case True
    then have "slots t ! h ! find_pos (compute_hash i) i (slots t ! h) \<in># ht_bag t"
      using h(2) nth_mem by (force simp: ht_bag_def)
    then show ?thesis using h True find_pos_in by (fastforce simp: lookup_def deref_def)
  next
    case False
    then show ?thesis using h find_pos_out [OF False] by (auto simp: lookup_def deref_def)
  qed
qed

lemma unlink_ok:
  assumes "ht_ok t" "fst p < length (slots t)" "deref t p = Some e"
  shows "ht_ok (unlink p t)" "ht_bag (unlink p t) = ht_bag t - {#e#}"
proof -
  let ?c = "slots t ! fst p"
  define s where "s = (slots t)[fst p := take (snd p) ?c @ drop (Suc (snd p)) ?c]"
  have e: "snd p < length ?c" "e = ?c ! snd p" using assms(3) by (auto simp: deref_def split: if_splits)
  have "mset ?c = add_mset e (mset (take (snd p) ?c @ drop (Suc (snd p)) ?c))"
    using id_take_nth_drop [OF e(1)] e(2) by (metis mset_append mset.simps(2) union_mset_add_mset_right)
  then have m: "mset (concat (slots t)) = add_mset e (mset (concat s))"
    using mset_concat_update [OF assms(2), of "take (snd p) ?c @ drop (Suc (snd p)) ?c"] by (simp add: s_def)
  then have "length (concat (slots t)) = Suc (length (concat s))" by (metis size_mset size_add_mset)
  moreover have "slot_ok s"
    unfolding s_def
  proof (rule slot_ok_update)
    show ok: "slot_ok (slots t)" using assms(1) by (simp add: ht_ok_def)
    fix f assume "f \<in> set (take (snd p) ?c @ drop (Suc (snd p)) ?c)"
    then have "f \<in> set ?c" by (auto dest: in_set_takeD in_set_dropD)
    then show "entry_ok (length (slots t)) (fst p) f"
      by (rule slot_okD [OF ok assms(2)])
  qed
  ultimately show "ht_ok (unlink p t)" "ht_bag (unlink p t) = ht_bag t - {#e#}"
    using assms(1) m by (simp_all add: unlink_def Let_def ht_ok_def ht_bag_def s_def [symmetric])
qed

lemma remove_ok:
  assumes "ht_ok t" "ht_bag t \<noteq> {#}"
  shows "\<exists>u. remove i t = Ok u \<and> ht_ok u \<and>
    (case the_ok (lookup i t) of None \<Rightarrow> u = t | Some e \<Rightarrow> ht_bag u = ht_bag t - {#e#})"
proof -
  obtain h j where "find i t = Ok (h, j)" "h < length (slots t)"
    using find_ok [OF assms] by blast
  then show ?thesis
    using assms(1) unlink_ok [OF assms(1), of "(h, j)"]
    by (auto simp: remove_def lookup_def split: option.splits)
qed

interpretation ht: entry_store ht_ok ht_bag e_id make_entry empty_htable lookup insert_clause remove
proof unfold_locales
  show "ht_ok empty_htable" "ht_bag empty_htable = {#}"
    by (simp_all add: empty_htable_def ht_ok_def ht_bag_def slot_ok_def)
qed (simp_all add: lookup_ok insert_ok remove_ok, simp add: make_entry_def)

end
