(* ===== verification/Lrat_Checker.thy ===== *)
theory Lrat_Checker
  imports Cadical_Api Hash_Table
begin

text \<open>
  The checker for LRAT proofs (\<open>lratchecker.cpp\<close>, \<open>lratchecker.hpp\<close>), which CaDiCaL can run
  beside the search: it keeps the clauses of the proof in a hash table, checks every derived
  clause by unit propagation along the given chain of clause identifiers, and checks the
  conclusions for unsatisfiable formulas.

  One function per member function, from the state to the state or a fault. A fatal error message
  is the fault \<open>Aborted\<close>, an access through the null pointer \<open>OutOfBounds\<close>. The assertions are
  not executed, as in a release build. The vectors of marks are boolean lists indexed by
  \<open>l2u\<close>. The flag \<open>used\<close> of a clause, which only \<open>check\<close> sets and clears, is the list of the
  identifiers of \<open>used_clauses\<close>; the member \<open>last_hash\<close> is passed as a value; the counters of
  \<open>stats\<close>, which are only printed, are left out.
\<close>

section \<open>State\<close>

record lrat_clause =
  literals :: "int list"
  tautological :: bool

record LratChecker =
  size_vars :: int
  strict_lrat :: bool
  checked_lits :: "bool list"
  marks :: "bool list"
  clauses_to_reconstruct :: "nat \<rightharpoonup> int list"
  lrat_assumptions :: "int list"
  lrat_constraint :: "int list"
  concluded :: bool
  clause_table :: "lrat_clause htable"
  num_finalized :: nat
  num_garbage :: nat
  garbage :: "lrat_clause entry list"
  imported_clause :: "int list"
  assumption_clauses :: "nat list"
  last_id :: nat
  current_id :: nat

definition new_LratChecker :: "bool \<Rightarrow> LratChecker" where
  "new_LratChecker strict = \<lparr>size_vars = 0, strict_lrat = strict, checked_lits = [], marks = [],
     clauses_to_reconstruct = Map.empty, lrat_assumptions = [], lrat_constraint = [], concluded = False,
     clause_table = empty_htable, num_finalized = 0, num_garbage = 0, garbage = [],
     imported_clause = [], assumption_clauses = [], last_id = 0, current_id = 0\<rparr>"

section \<open>Literals\<close>

text \<open>\<open>unsigned res = 2 * (abs (lit) - 1)\<close>: the product is one of type \<open>int\<close>.\<close>

definition l2u :: "int \<Rightarrow> nat result" where
  "l2u lit =
     (let res = 2 * (\<bar>lit\<bar> - 1) in
      if lit = INT_MIN \<or> res > INT_MAX then Fault SignedOverflow
      else Ok (u32 res + (if lit < 0 then 1 else 0)))"

definition lit_at :: "bool list \<Rightarrow> int \<Rightarrow> bool result" where
  "lit_at bits lit = rbind (l2u lit) (vec_at bits)"

definition lit_set :: "int \<Rightarrow> bool \<Rightarrow> bool list \<Rightarrow> bool list result" where
  "lit_set lit v bits = rbind (l2u lit) (\<lambda>u. vec_set bits u v)"

definition clear_bits :: "bool list \<Rightarrow> bool list" where
  "clear_bits bits = replicate (length bits) False"

definition enlarge_vars :: "int \<Rightarrow> LratChecker \<Rightarrow> LratChecker result" where
  "enlarge_vars idx t =
     rbind (rwhile (\<lambda>n. n \<le> idx) (\<lambda>n. Ok (2 * n)) (if size_vars t \<noteq> 0 then 2 * size_vars t else 2)) (\<lambda>n.
       Ok (t\<lparr>marks := vec_resize (marks t) (nat (2 * n)) False,
             checked_lits := vec_resize (checked_lits t) (nat (2 * n)) False, size_vars := n\<rparr>))"

definition import_literal :: "int \<Rightarrow> LratChecker \<Rightarrow> LratChecker result" where
  "import_literal lit t =
     (if lit = INT_MIN then Fault SignedOverflow
      else rbind (if \<bar>lit\<bar> \<ge> size_vars t then enlarge_vars \<bar>lit\<bar> t else Ok t) (\<lambda>t.
             Ok (t\<lparr>imported_clause := imported_clause t @ [lit]\<rparr>)))"

definition import_clause :: "int list \<Rightarrow> LratChecker \<Rightarrow> LratChecker result" where
  "import_clause = rfold import_literal"

section \<open>Storing clauses\<close>

text \<open>
  The loop of \<open>new_clause\<close> that marks the negation of every literal and looks for a literal
  that is marked already, and the loop that removes the marks.
\<close>

definition mark_negations :: "int list \<Rightarrow> bool list \<times> bool \<Rightarrow> (bool list \<times> bool) result" where
  "mark_negations = rfold (\<lambda>lit (bits, taut).
     rbind (lit_set (- lit) True bits) (\<lambda>bits.
     rbind (lit_at bits lit) (\<lambda>b. Ok (bits, taut \<or> b))))"

definition new_clause :: "LratChecker \<Rightarrow> (lrat_clause \<times> LratChecker) result" where
  "new_clause t =
     rbind (mark_negations (imported_clause t) (clear_bits (checked_lits t), False)) (\<lambda>(bits, taut).
     rbind (rfold (\<lambda>lit. lit_set (- lit) False) (imported_clause t) bits) (\<lambda>bits.
       Ok (\<lparr>literals = imported_clause t, tautological = taut\<rparr>, t\<lparr>checked_lits := bits\<rparr>)))"

definition lrat_insert :: "LratChecker \<Rightarrow> LratChecker result" where
  "lrat_insert t =
     rbind (new_clause t) (\<lambda>(c, t).
     rbind (insert_clause (last_id t) c (clause_table t)) (\<lambda>tab. Ok (t\<lparr>clause_table := tab\<rparr>)))"

definition collect_garbage_clauses :: "LratChecker \<Rightarrow> LratChecker" where
  "collect_garbage_clauses t = t\<lparr>num_garbage := num_garbage t - length (garbage t), garbage := []\<rparr>"

section \<open>Checking\<close>

text \<open>
  The first loop of \<open>check\<close>; the flag of the result is true if the clause is tautological,
  where \<open>check\<close> returns.
\<close>

fun negate_lits :: "int list \<Rightarrow> bool list \<Rightarrow> (bool list \<times> bool) result" where
  "negate_lits [] bits = Ok (bits, False)"
| "negate_lits (lit # lits) bits =
     rbind (lit_set (- lit) True bits) (\<lambda>bits.
     rbind (lit_at bits lit) (\<lambda>b. if b then Ok (bits, True) else negate_lits lits bits))"

text \<open>
  The loop over the literals of a clause: the only literal that is not falsified, 0 if all
  are falsified and \<open>INT_MIN\<close> if there are several.
\<close>

fun find_unit :: "int list \<Rightarrow> int \<Rightarrow> bool list \<Rightarrow> int result" where
  "find_unit [] unit bits = Ok unit"
| "find_unit (lit # lits) unit bits =
     rbind (lit_at bits (- lit)) (\<lambda>b.
       if b then find_unit lits unit bits
       else if unit \<noteq> 0 \<and> unit \<noteq> lit then Ok INT_MIN
       else find_unit lits lit bits)"

text \<open>The loop over the chain; the result is \<open>checking\<close> and the marks.\<close>

fun check_chain :: "lrat_clause htable \<Rightarrow> nat list \<Rightarrow> nat list \<Rightarrow> bool list \<Rightarrow> (bool \<times> bool list) result" where
  "check_chain tab [] used bits = Ok (False, bits)"
| "check_chain tab (i # ids) used bits =
     rbind (lookup i tab) (\<lambda>r.
       case r of
         None \<Rightarrow> Ok (False, bits)
       | Some e \<Rightarrow>
           if tautological (e_data e) then Ok (False, bits)
           else if i \<in> set used then Ok (False, bits)
           else rbind (find_unit (literals (e_data e)) 0 bits) (\<lambda>unit.
             if unit = INT_MIN then Ok (False, bits)
             else if unit = 0 then Ok (True, bits)
             else rbind (lit_set unit True bits) (check_chain tab ids (i # used))))"

definition check :: "nat list \<Rightarrow> LratChecker \<Rightarrow> (bool \<times> LratChecker) result" where
  "check chain t =
     rbind (negate_lits (imported_clause t) (clear_bits (checked_lits t))) (\<lambda>(bits, taut).
       if taut then Ok (True, t\<lparr>checked_lits := bits\<rparr>)
       else rbind (check_chain (clause_table t) chain [] bits) (\<lambda>(checking, bits).
              Ok (checking, t\<lparr>checked_lits := bits\<rparr>)))"

section \<open>The resolution check\<close>

definition stored_literals :: "nat \<Rightarrow> lrat_clause htable \<Rightarrow> int list result" where
  "stored_literals i tab =
     rbind (lookup i tab) (\<lambda>r. case r of None \<Rightarrow> Fault OutOfBounds | Some e \<Rightarrow> Ok (literals (e_data e)))"

definition resolve_lit :: "int \<Rightarrow> bool list \<Rightarrow> bool list result" where
  "resolve_lit lit bits =
     rbind (lit_at bits (- lit)) (\<lambda>b. if \<not> b then lit_set lit True bits else lit_set (- lit) False bits)"

fun cover_clause :: "int list \<Rightarrow> bool list \<Rightarrow> (bool \<times> bool list) result" where
  "cover_clause [] bits = Ok (True, bits)"
| "cover_clause (lit # lits) bits =
     rbind (lit_at bits (- lit)) (\<lambda>b.
       if b then Ok (False, bits)
       else rbind (lit_at bits lit) (\<lambda>c.
            rbind (if \<not> c then lit_set lit True bits else Ok bits) (\<lambda>bits.
            rbind (lit_set (- lit) True bits) (cover_clause lits))))"

fun balanced_vars :: "int list \<Rightarrow> bool list \<Rightarrow> bool result" where
  "balanced_vars [] bits = Ok True"
| "balanced_vars (lit # lits) bits =
     rbind (lit_at bits lit) (\<lambda>p. rbind (lit_at bits (- lit)) (\<lambda>n.
       if p = n then balanced_vars lits bits else Ok False))"

definition resolve_clause :: "lrat_clause htable \<Rightarrow> nat \<Rightarrow> bool list \<Rightarrow> bool list result" where
  "resolve_clause tab i bits = rbind (stored_literals i tab) (\<lambda>lits. rfold resolve_lit lits bits)"

text \<open>The comparison of the resolvent with the learned clause.\<close>

fun compare_vars :: "LratChecker \<Rightarrow> bool \<times> bool list \<Rightarrow> (bool \<times> LratChecker) result" where
  "compare_vars t (covered, bits) =
     (if \<not> covered then Ok (False, t\<lparr>checked_lits := bits\<rparr>)
      else rbind (balanced_vars (map int [1..<nat (size_vars t)]) bits) (\<lambda>ok. Ok (ok, t\<lparr>checked_lits := bits\<rparr>)))"

definition compare_learned :: "LratChecker \<Rightarrow> bool list \<Rightarrow> (bool \<times> LratChecker) result" where
  "compare_learned t bits = rbind (cover_clause (imported_clause t) bits) (compare_vars t)"

definition check_resolution :: "nat list \<Rightarrow> LratChecker \<Rightarrow> (bool \<times> LratChecker) result" where
  "check_resolution chain t =
     (if chain = [] then Ok (True, t)
      else if strict_lrat t then Ok (True, t)
      else
        rbind (stored_literals (last chain) (clause_table t)) (\<lambda>lits.
        rbind (rbind (rfold (\<lambda>lit. lit_set lit True) lits (clear_bits (checked_lits t)))
                 (rfold (resolve_clause (clause_table t)) (rev (butlast chain))))
          (compare_learned t)))"

section \<open>Events\<close>

definition u64 :: "int \<Rightarrow> nat" where
  "u64 i = nat (i mod 2 ^ 64)"

text \<open>The end of an event: \<open>imported_clause.clear ()\<close>.\<close>

definition clear_imported :: "LratChecker \<Rightarrow> LratChecker" where
  "clear_imported t = t\<lparr>imported_clause := []\<rparr>"

definition restore_clause :: "nat \<Rightarrow> int list \<Rightarrow> LratChecker \<Rightarrow> LratChecker result" where
  "restore_clause i c t =
     (case clauses_to_reconstruct t i of
        None \<Rightarrow> if \<not> strict_lrat t then Ok t else Fault Aborted
      | Some d \<Rightarrow>
          if sort c = d then Ok (t\<lparr>clauses_to_reconstruct := (clauses_to_reconstruct t)(i := None)\<rparr>)
          else Fault Aborted)"

text \<open>The test that no clause with the identifier is present, which is skipped for an empty table.\<close>

definition check_fresh :: "nat \<Rightarrow> LratChecker \<Rightarrow> LratChecker result" where
  "check_fresh i t =
     (if slots (clause_table t) = [] then Ok t
      else rbind (lookup i (clause_table t)) (\<lambda>r. if r \<noteq> None then Fault Aborted else Ok t))"

definition lrat_add_original :: "nat \<Rightarrow> int list \<Rightarrow> bool \<Rightarrow> LratChecker \<Rightarrow> LratChecker result" where
  "lrat_add_original i c restore t =
     rbind (if restore then restore_clause i c t else Ok t) (\<lambda>t.
     rbind (import_clause c t) (\<lambda>t.
     let t = t\<lparr>last_id := i, current_id := (if \<not> restore \<and> i = u64 (1 + int (current_id t)) then i else current_id t)\<rparr> in
     rbind (if restore then Ok t else check_fresh i t) (\<lambda>t.
     rbind (lrat_insert t) (\<lambda>t. Ok (clear_imported t)))))"

definition lrat_add_derived :: "nat \<Rightarrow> int list \<Rightarrow> nat list \<Rightarrow> LratChecker \<Rightarrow> LratChecker result" where
  "lrat_add_derived i c chain t =
     rbind (import_clause c t) (\<lambda>t.
     let t = t\<lparr>last_id := i, current_id := i\<rparr> in
     rbind (check_fresh i t) (\<lambda>t.
     rbind (check chain t) (\<lambda>(ok, t).
       if \<not> ok then Fault Aborted
       else rbind (check_resolution chain t) (\<lambda>(ok, t).
         if \<not> ok then Fault Aborted
         else rbind (lrat_insert t) (\<lambda>t. Ok (clear_imported t))))))"

text \<open>
  The common part of \<open>delete_clause\<close>, \<open>weaken_minus\<close> and \<open>finalize_clause\<close>: the clause with the
  identifier is found, and all its literals are among the given ones.
\<close>

fun all_marked :: "int list \<Rightarrow> bool list \<Rightarrow> unit result" where
  "all_marked [] bits = Ok ()"
| "all_marked (lit # lits) bits =
     rbind (lit_at bits lit) (\<lambda>b. if \<not> b then Fault Aborted else all_marked lits bits)"

definition find_stored :: "nat \<Rightarrow> int list \<Rightarrow> LratChecker \<Rightarrow> ((nat \<times> nat) \<times> lrat_clause entry \<times> LratChecker) result" where
  "find_stored i c t =
     rbind (import_clause c t) (\<lambda>t.
     let t = t\<lparr>last_id := i\<rparr> in
     rbind (Hash_Table.find i (clause_table t)) (\<lambda>p.
       case deref (clause_table t) p of
         None \<Rightarrow> Fault Aborted
       | Some d \<Rightarrow>
           rbind (rfold (\<lambda>lit. lit_set lit True) (imported_clause t) (marks t)) (\<lambda>bits.
           rbind (all_marked (literals (e_data d)) bits) (\<lambda>_.
           rbind (rfold (\<lambda>lit. lit_set lit False) (imported_clause t) bits) (\<lambda>bits.
             Ok (p, d, t\<lparr>marks := bits\<rparr>))))))"

definition lrat_delete_clause :: "nat \<Rightarrow> int list \<Rightarrow> LratChecker \<Rightarrow> LratChecker result" where
  "lrat_delete_clause i c t =
     rbind (find_stored i c t) (\<lambda>(p, d, t).
       let t = t\<lparr>num_garbage := num_garbage t + 1, clause_table := unlink p (clause_table t),
                 garbage := d # garbage t\<rparr>;
           t = (if 2 * int (num_garbage t) > max (int (length (slots (clause_table t)))) (size_vars t)
                then collect_garbage_clauses t else t)
       in Ok (clear_imported t))"

definition lrat_weaken_minus :: "nat \<Rightarrow> int list \<Rightarrow> LratChecker \<Rightarrow> LratChecker result" where
  "lrat_weaken_minus i c t =
     rbind (find_stored i c t) (\<lambda>(p, d, t).
       Ok ((clear_imported t)\<lparr>clauses_to_reconstruct := (clauses_to_reconstruct t)(i \<mapsto> sort c)\<rparr>))"

definition lrat_finalize_clause :: "nat \<Rightarrow> int list \<Rightarrow> LratChecker \<Rightarrow> LratChecker result" where
  "lrat_finalize_clause i c t =
     rbind (find_stored i c (t\<lparr>num_finalized := num_finalized t + 1\<rparr>)) (\<lambda>(p, d, t). Ok (clear_imported t))"

definition lrat_add_assumption_clause :: "nat \<Rightarrow> int list \<Rightarrow> nat list \<Rightarrow> LratChecker \<Rightarrow> LratChecker result" where
  "lrat_add_assumption_clause i c chain t =
     (if \<not> list_all (\<lambda>lit. - lit \<in> set (lrat_assumptions t) \<or> - lit \<in> set (lrat_constraint t)) c
      then Fault Aborted
      else rbind (lrat_add_derived i c chain t) (\<lambda>t.
           rbind (lrat_delete_clause i c t) (\<lambda>t.
             Ok (t\<lparr>assumption_clauses := assumption_clauses t @ [i]\<rparr>))))"

definition lrat_add_assumption :: "int \<Rightarrow> LratChecker \<Rightarrow> LratChecker" where
  "lrat_add_assumption a t = t\<lparr>lrat_assumptions := lrat_assumptions t @ [a]\<rparr>"

definition lrat_add_constraint :: "int list \<Rightarrow> LratChecker \<Rightarrow> LratChecker" where
  "lrat_add_constraint c t =
     t\<lparr>lrat_constraint := fold (\<lambda>lit ls. if lit \<in> set ls then ls else ls @ [lit]) c []\<rparr>"

definition lrat_reset_assumptions :: "LratChecker \<Rightarrow> LratChecker" where
  "lrat_reset_assumptions t = t\<lparr>assumption_clauses := [], lrat_assumptions := [], concluded := False\<rparr>"

datatype ConclusionType = CONFLICT | ASSUMPTIONS | CONSTRAINT

definition lrat_conclude_unsat :: "ConclusionType \<Rightarrow> nat list \<Rightarrow> LratChecker \<Rightarrow> LratChecker result" where
  "lrat_conclude_unsat conclusion ids t =
     (if concluded t then Fault Aborted
      else let t = t\<lparr>concluded := True\<rparr> in
        case conclusion of
          CONFLICT \<Rightarrow>
            if ids = [] then Fault OutOfBounds
            else rbind (lookup (last ids) (clause_table t)) (\<lambda>r.
                   case r of None \<Rightarrow> Fault Aborted
                   | Some d \<Rightarrow> if literals (e_data d) \<noteq> [] then Fault Aborted else Ok t)
        | ASSUMPTIONS \<Rightarrow>
            if length ids \<noteq> 1 \<or> length (assumption_clauses t) \<noteq> 1 then Fault Aborted
            else if last ids \<noteq> last (assumption_clauses t) then Fault Aborted
            else Ok t
        | CONSTRAINT \<Rightarrow>
            if length (lrat_constraint t) \<noteq> length ids then Fault Aborted
            else if list_all (\<lambda>i. i \<in> set (assumption_clauses t)) ids then Ok t
            else Fault Aborted)"

definition lrat_report_status :: "LratChecker \<Rightarrow> LratChecker result" where
  "lrat_report_status t =
     (if num_finalized t = num_clauses (clause_table t) then Ok (t\<lparr>num_finalized := 0\<rparr>) else Fault Aborted)"

definition lrat_begin :: "nat \<Rightarrow> LratChecker \<Rightarrow> LratChecker" where
  "lrat_begin i t = t\<lparr>current_id := i\<rparr>"

definition lrat_dump :: "LratChecker \<Rightarrow> string" where
  "lrat_dump t =
     (let cs = concat (slots (clause_table t));
          max_var = fold (\<lambda>c m. fold (\<lambda>lit m. if \<bar>lit\<bar> > m then \<bar>lit\<bar> else m) (literals (e_data c)) m) cs 0;
          show_lit = (\<lambda>lit. (if lit < 0 then ''-'' @ show_nat (nat (- lit)) else show_nat (nat lit)) @ '' '')
      in ''p cnf '' @ show_nat (nat max_var) @ '' '' @ show_nat (num_clauses (clause_table t)) @ ''\<newline>'' @
         concat (map (\<lambda>c. concat (map show_lit (literals (e_data c))) @ ''0\<newline>'') cs))"

section \<open>Marks and assignments\<close>

text \<open>Marks agree with an assignment if every marked literal is true.\<close>

definition marks_true :: "assignment \<Rightarrow> bool list \<Rightarrow> bool" where
  "marks_true \<sigma> bits \<longleftrightarrow> (\<forall>l. l \<noteq> 0 \<longrightarrow> lit_at bits l = Ok True \<longrightarrow> holds \<sigma> l)"

definition nonzero :: "int list \<Rightarrow> bool" where
  "nonzero c \<longleftrightarrow> 0 \<notin> set c"

lemma nonzero_simps [simp]: "nonzero []" "nonzero (l # c) \<longleftrightarrow> l \<noteq> 0 \<and> nonzero c"
  by (auto simp: nonzero_def)

lemma l2u_eq:
  assumes "l2u l = Ok u" "l \<noteq> 0"
  shows "u = 2 * nat (\<bar>l\<bar> - 1) + (if l < 0 then 1 else 0)"
proof -
  have r: "0 \<le> 2 * (\<bar>l\<bar> - 1)" "2 * (\<bar>l\<bar> - 1) \<le> INT_MAX" "u = u32 (2 * (\<bar>l\<bar> - 1)) + (if l < 0 then 1 else 0)"
    using assms by (auto simp: l2u_def Let_def split: if_splits)
  then have "u32 (2 * (\<bar>l\<bar> - 1)) = nat (2 * (\<bar>l\<bar> - 1))" by (simp add: u32_def INT_MAX_def)
  moreover have "nat (2 * (\<bar>l\<bar> - 1)) = 2 * nat (\<bar>l\<bar> - 1)" by (subst nat_mult_distrib) simp_all
  ultimately show ?thesis using r(3) by metis
qed

lemma l2u_inj:
  assumes "l2u l = Ok u" "l2u m = Ok u" "l \<noteq> 0" "m \<noteq> 0"
  shows "l = m"
proof -
  have "2 * i + (if p then 1 else 0) = 2 * j + (if q then 1 else 0) \<Longrightarrow> i = j \<and> p = q"
    for i j :: nat and p q by (cases p; cases q) presburger+
  from this [of "nat (\<bar>l\<bar> - 1)" "l < 0" "nat (\<bar>m\<bar> - 1)" "m < 0"]
  have "nat (\<bar>l\<bar> - 1) = nat (\<bar>m\<bar> - 1)" "(l < 0) = (m < 0)"
    using l2u_eq [OF assms(1,3)] l2u_eq [OF assms(2,4)] by auto
  then show ?thesis using assms(3,4) by (auto simp: abs_if split: if_splits)
qed

lemma marks_true_set:
  assumes "marks_true \<sigma> bits" "lit_set u v bits = Ok bits'" "v \<Longrightarrow> holds \<sigma> u" "u \<noteq> 0"
  shows "marks_true \<sigma> bits'"
  unfolding marks_true_def
proof (intro allI impI)
  fix l assume l: "l \<noteq> 0" "lit_at bits' l = Ok True"
  obtain i where i: "l2u u = Ok i" "i < length bits" "bits' = bits[i := v]"
    using assms(2) by (auto simp: lit_set_def rbind_eq_Ok_iff vec_set_def split: if_splits)
  obtain j where j: "l2u l = Ok j" "j < length bits'" "bits' ! j"
    using l(2) by (auto simp: lit_at_def rbind_eq_Ok_iff vec_at_def split: if_splits)
  show "holds \<sigma> l"
  proof (cases "i = j")
    case True
    then have "l = u" "v" using l2u_inj [OF j(1) _ l(1) assms(4)] i j by auto
    then show ?thesis using assms(3) by simp
  next
    case False
    then have "lit_at bits l = Ok True" using i j by (simp add: lit_at_def)
    then show ?thesis using assms(1) l(1) by (simp add: marks_true_def)
  qed
qed

lemma marks_true_clear: "marks_true \<sigma> (clear_bits bits)"
  unfolding marks_true_def clear_bits_def lit_at_def
  by (auto simp: rbind_eq_Ok_iff vec_at_def split: if_splits)

section \<open>A successful check is a proof\<close>

lemma sat_clause_iff: "sat_clause \<sigma> c \<longleftrightarrow> (\<exists>l \<in> set c. holds \<sigma> l)"
  by (simp add: sat_clause_def list_ex_iff)

text \<open>Negating the literals of a clause the assignment falsifies.\<close>

lemma negate_lits_true:
  assumes "negate_lits c bits = Ok (bits', taut)" "marks_true \<sigma> bits" "nonzero c" "\<not> sat_clause \<sigma> c"
  shows "marks_true \<sigma> bits' \<and> \<not> taut"
  using assms
proof (induction c arbitrary: bits)
  case (Cons l c)
  have l: "l \<noteq> 0" "\<not> holds \<sigma> l" "holds \<sigma> (- l)"
    using Cons.prems(3,4) holds_neg [of l \<sigma>] by (auto simp: sat_clause_iff)
  obtain b where b: "lit_set (- l) True bits = Ok b"
    using Cons.prems(1) by (auto simp: rbind_eq_Ok_iff)
  then have t: "marks_true \<sigma> b" using marks_true_set Cons.prems(2) l by simp
  then have "lit_at b l \<noteq> Ok True" using l(1,2) by (auto simp: marks_true_def)
  then have "negate_lits c b = Ok (bits', taut)"
    using Cons.prems(1) b by (auto simp: rbind_eq_Ok_iff split: if_splits)
  then show ?case using Cons.IH [of b] t Cons.prems(3,4) by (simp add: sat_clause_iff)
qed simp

lemma find_unit_true:
  assumes "find_unit c u bits = Ok r" "marks_true \<sigma> bits" "nonzero c" "r \<noteq> INT_MIN"
    "(\<exists>l \<in> set c. holds \<sigma> l) \<or> u \<noteq> 0 \<and> holds \<sigma> u"
  shows "r \<noteq> 0 \<and> holds \<sigma> r"
  using assms
proof (induction c arbitrary: u)
  case (Cons l c)
  obtain b where b: "lit_at bits (- l) = Ok b"
    using Cons.prems(1) by (auto simp: rbind_eq_Ok_iff)
  have l: "l \<noteq> 0" using Cons.prems(3) by simp
  show ?case
  proof (cases b)
    case True
    then have "\<not> holds \<sigma> l"
      using Cons.prems(2) b l holds_neg [of l \<sigma>] by (auto simp: marks_true_def)
    then show ?thesis using Cons True b by auto
  next
    case False
    then have "find_unit c l bits = Ok r" "u = 0 \<or> u = l"
      using Cons.prems(1,4) b by (auto split: if_splits)
    then show ?thesis using Cons.IH [of l] Cons.prems l by auto
  qed
qed auto

lemma lookup_some: "lookup i tab = Ok (Some e) \<Longrightarrow> e \<in># ht_bag tab"
  by (auto simp: lookup_def find_def deref_def rbind_eq_Ok_iff vec_at_def ht_bag_def split: if_splits
      dest: nth_mem)

definition clauses_true :: "assignment \<Rightarrow> lrat_clause htable \<Rightarrow> bool" where
  "clauses_true \<sigma> tab \<longleftrightarrow>
     (\<forall>e \<in># ht_bag tab. sat_clause \<sigma> (literals (e_data e)) \<and> nonzero (literals (e_data e)))"

lemma check_chain_true:
  "check_chain tab ids used bits = Ok (True, bits') \<Longrightarrow> marks_true \<sigma> bits \<Longrightarrow> \<not> clauses_true \<sigma> tab"
proof (induction ids arbitrary: used bits)
  case (Cons i ids)
  show ?case
  proof
    assume tab: "clauses_true \<sigma> tab"
    obtain e where e: "lookup i tab = Ok (Some e)"
      using Cons.prems(1) by (auto simp: rbind_eq_Ok_iff split: option.splits)
    obtain r where r: "find_unit (literals (e_data e)) 0 bits = Ok r"
      using Cons.prems(1) e by (auto simp: rbind_eq_Ok_iff split: if_splits)
    have "r \<noteq> INT_MIN" using Cons.prems(1) e r by (auto split: if_splits)
    moreover have "sat_clause \<sigma> (literals (e_data e))" "nonzero (literals (e_data e))"
      using tab lookup_some [OF e] by (auto simp: clauses_true_def)
    ultimately have u: "r \<noteq> 0" "holds \<sigma> r"
      using find_unit_true [OF r Cons.prems(2)] by (auto simp: sat_clause_iff)
    then obtain b where "lit_set r True bits = Ok b" "check_chain tab ids (i # used) b = Ok (True, bits')"
      using Cons.prems(1) e r by (auto simp: rbind_eq_Ok_iff split: if_splits)
    then show False using Cons.IH marks_true_set [OF Cons.prems(2)] u tab by blast
  qed
qed simp

text \<open>What \<open>check\<close> accepts follows from the stored clauses.\<close>

lemma check_sound:
  assumes "check chain t = Ok (True, t')" "clauses_true \<sigma> (clause_table t)" "nonzero (imported_clause t)"
  shows "sat_clause \<sigma> (imported_clause t)"
proof (rule ccontr)
  assume unsat: "\<not> sat_clause \<sigma> (imported_clause t)"
  obtain bits taut where b: "negate_lits (imported_clause t) (clear_bits (checked_lits t)) = Ok (bits, taut)"
    using assms(1) by (auto simp: check_def rbind_eq_Ok_iff)
  then have "marks_true \<sigma> bits" "\<not> taut"
    using negate_lits_true marks_true_clear assms(3) unsat by blast+
  moreover then obtain bits' where "check_chain (clause_table t) chain [] bits = Ok (True, bits')"
    using assms(1) b by (auto simp: check_def rbind_eq_Ok_iff)
  ultimately show False using check_chain_true assms(2) by blast
qed

section \<open>The invariant of a run\<close>

definition entails :: "int list list \<Rightarrow> int list \<Rightarrow> bool" where
  "entails F c \<longleftrightarrow> (\<forall>\<sigma>. list_all (sat_clause \<sigma>) F \<longrightarrow> sat_clause \<sigma> c)"

text \<open>The parts of the state that matter for soundness; most helpers leave them alone.\<close>

definition proof_part :: "LratChecker \<Rightarrow> lrat_clause htable \<times> int list \<times> int list \<times> nat list" where
  "proof_part t = (clause_table t, lrat_assumptions t, lrat_constraint t, assumption_clauses t)"

definition proved :: "int list list \<Rightarrow> lrat_clause htable \<Rightarrow> bool" where
  "proved F tab \<longleftrightarrow> ht_ok tab \<and>
     (\<forall>e \<in># ht_bag tab. entails F (literals (e_data e)) \<and> nonzero (literals (e_data e)))"

definition failed_assumptions :: "int list list \<Rightarrow> LratChecker \<Rightarrow> bool" where
  "failed_assumptions F t \<longleftrightarrow> (\<forall>i \<in> set (assumption_clauses t).
     \<exists>c. entails F c \<and> nonzero c \<and>
       (\<forall>l \<in> set c. - l \<in> set (lrat_assumptions t) \<or> - l \<in> set (lrat_constraint t)))"

definition lrat_inv :: "int list list \<Rightarrow> LratChecker \<Rightarrow> bool" where
  "lrat_inv F t \<longleftrightarrow> proved F (clause_table t) \<and> imported_clause t = []"

lemma entails_mono: "entails F c \<Longrightarrow> set F \<subseteq> set G \<Longrightarrow> entails G c"
  by (auto simp: entails_def list_all_iff)

lemma proved_true: "proved F tab \<Longrightarrow> list_all (sat_clause \<sigma>) F \<Longrightarrow> clauses_true \<sigma> tab"
  by (auto simp: proved_def clauses_true_def entails_def)

lemma proved_mono: "proved F tab \<Longrightarrow> set F \<subseteq> set G \<Longrightarrow> proved G tab"
  by (auto simp: proved_def intro: entails_mono)

lemma import_literal_part:
  "import_literal l t = Ok u \<Longrightarrow> proof_part u = proof_part t \<and> imported_clause u = imported_clause t @ [l]"
  by (auto simp: import_literal_def enlarge_vars_def rbind_eq_Ok_iff proof_part_def split: if_splits)

lemma import_clause_part:
  "import_clause c t = Ok u \<Longrightarrow> proof_part u = proof_part t \<and> imported_clause u = imported_clause t @ c"
  unfolding import_clause_def
proof (induction c arbitrary: t)
  case (Cons l c)
  then obtain v where v: "import_literal l t = Ok v" "rfold import_literal c v = Ok u"
    by (auto simp: rbind_eq_Ok_iff)
  then show ?case using Cons.IH [OF v(2)] import_literal_part [OF v(1)] by simp
qed simp

lemma check_part: "check chain t = Ok (b, u) \<Longrightarrow> proof_part u = proof_part t \<and> imported_clause u = imported_clause t"
  by (auto simp: check_def rbind_eq_Ok_iff proof_part_def split: if_splits)

lemma check_resolution_part:
  "check_resolution chain t = Ok (b, u) \<Longrightarrow> proof_part u = proof_part t \<and> imported_clause u = imported_clause t"
  by (auto simp: check_resolution_def compare_learned_def rbind_eq_Ok_iff proof_part_def split: if_splits)

lemma check_fresh_part: "check_fresh i t = Ok u \<Longrightarrow> u = t"
  by (auto simp: check_fresh_def rbind_eq_Ok_iff split: if_splits)

lemma restore_clause_part:
  "restore_clause i c t = Ok u \<Longrightarrow> proof_part u = proof_part t \<and> imported_clause u = imported_clause t"
  by (auto simp: restore_clause_def proof_part_def split: option.splits if_splits)

lemma lrat_insert_part:
  assumes "lrat_insert t = Ok u" "proved F (clause_table t)" "entails F (imported_clause t)"
    "nonzero (imported_clause t)"
  shows "proved F (clause_table u) \<and> lrat_assumptions u = lrat_assumptions t \<and>
    lrat_constraint u = lrat_constraint t \<and> assumption_clauses u = assumption_clauses t"
proof -
  obtain taut bits tab where ins: "insert_clause (last_id t) \<lparr>literals = imported_clause t, tautological = taut\<rparr> (clause_table t) = Ok tab"
    "u = t\<lparr>checked_lits := bits, clause_table := tab\<rparr>"
    using assms(1) by (auto simp: lrat_insert_def new_clause_def rbind_eq_Ok_iff)
  then have "ht_ok tab" "ht_bag tab =
      add_mset (make_entry (last_id t) \<lparr>literals = imported_clause t, tautological = taut\<rparr>) (ht_bag (clause_table t))"
    using ht.add_bag [of "clause_table t" "last_id t" "\<lparr>literals = imported_clause t, tautological = taut\<rparr>"]
      assms(2) by (auto simp: proved_def)
  then show ?thesis using ins assms(2-4) by (auto simp: proved_def make_entry_def)
qed

lemma add_original_inv:
  assumes "lrat_add_original i c r t = Ok u" "lrat_inv F t" "nonzero c"
  shows "lrat_inv (F @ [c]) u \<and> lrat_assumptions u = lrat_assumptions t \<and>
    lrat_constraint u = lrat_constraint t \<and> assumption_clauses u = assumption_clauses t"
proof -
  obtain v w where v: "(if r then restore_clause i c t else Ok t) = Ok v" "import_clause c v = Ok w"
    using assms(1) by (auto simp: lrat_add_original_def rbind_eq_Ok_iff)
  define x where "x = w\<lparr>last_id := i, current_id := (if \<not> r \<and> i = u64 (1 + int (current_id w)) then i else current_id w)\<rparr>"
  obtain y where y: "lrat_insert x = Ok y" "u = clear_imported y"
    using assms(1) v check_fresh_part [of i x]
    by (auto simp: lrat_add_original_def rbind_eq_Ok_iff Let_def x_def split: if_splits)
  have "proof_part v = proof_part t \<and> imported_clause v = imported_clause t"
    using v(1) restore_clause_part by (auto split: if_splits)
  then have x: "proof_part x = proof_part t" "imported_clause x = c"
    using import_clause_part [OF v(2)] assms(2) by (auto simp: x_def proof_part_def lrat_inv_def)
  then have "proved (F @ [c]) (clause_table x)"
    using assms(2) proved_mono [of F "clause_table t" "F @ [c]"]
    by (auto simp: lrat_inv_def proof_part_def)
  moreover have "entails (F @ [c]) c" by (simp add: entails_def)
  ultimately show ?thesis
    using lrat_insert_part [OF y(1)] x y(2) assms(3)
    by (simp add: lrat_inv_def clear_imported_def proof_part_def)
qed

lemma add_derived_inv:
  assumes "lrat_add_derived i c chain t = Ok u" "lrat_inv F t" "nonzero c"
  shows "lrat_inv F u \<and> entails F c \<and> lrat_assumptions u = lrat_assumptions t \<and>
    lrat_constraint u = lrat_constraint t \<and> assumption_clauses u = assumption_clauses t"
proof -
  obtain v where v: "import_clause c t = Ok v" using assms(1) by (auto simp: lrat_add_derived_def rbind_eq_Ok_iff)
  define w where "w = v\<lparr>last_id := i, current_id := i\<rparr>"
  obtain x y z where x: "check chain w = Ok (True, x)" "check_resolution chain x = Ok (True, y)"
    "lrat_insert y = Ok z" "u = clear_imported z"
    using assms(1) v check_fresh_part [of i w]
    by (auto simp: lrat_add_derived_def rbind_eq_Ok_iff Let_def w_def [symmetric] split: if_splits)
  have w: "proof_part w = proof_part t" "imported_clause w = c"
    using import_clause_part [OF v] assms(2) by (auto simp: w_def proof_part_def lrat_inv_def)
  have y: "proof_part y = proof_part t" "imported_clause y = c"
    using check_part [OF x(1)] check_resolution_part [OF x(2)] w by simp_all
  have "entails F c"
    unfolding entails_def
  proof (intro allI impI)
    fix \<sigma> assume "list_all (sat_clause \<sigma>) F"
    then have "clauses_true \<sigma> (clause_table w)"
      using proved_true assms(2) w(1) by (auto simp: lrat_inv_def proof_part_def)
    then show "sat_clause \<sigma> c" using check_sound [OF x(1)] w(2) assms(3) by simp
  qed
  then show ?thesis
    using lrat_insert_part [OF x(3), of F] y assms(2,3) x(4)
    by (simp add: lrat_inv_def clear_imported_def proof_part_def)
qed

lemma find_stored_part:
  assumes "find_stored i c t = Ok (p, d, u)"
  shows "proof_part u = proof_part t \<and> imported_clause u = imported_clause t @ c \<and>
    fst p < length (slots (clause_table t)) \<and> deref (clause_table t) p = Some d"
proof -
  obtain v where v: "import_clause c t = Ok v" using assms by (auto simp: find_stored_def rbind_eq_Ok_iff)
  have "proof_part u = proof_part v \<and> imported_clause u = imported_clause v \<and>
      fst p < length (slots (clause_table v)) \<and> deref (clause_table v) p = Some d"
    using assms v
    by (auto simp: find_stored_def find_def rbind_eq_Ok_iff Let_def proof_part_def vec_at_def
        split: option.splits if_splits)
  then show ?thesis using import_clause_part [OF v] by (auto simp: proof_part_def)
qed

lemma delete_clause_inv:
  assumes "lrat_delete_clause i c t = Ok u" "lrat_inv F t"
  shows "lrat_inv F u \<and> lrat_assumptions u = lrat_assumptions t \<and>
    lrat_constraint u = lrat_constraint t \<and> assumption_clauses u = assumption_clauses t"
proof -
  obtain p d v where f: "find_stored i c t = Ok (p, d, v)"
    using assms(1) by (auto simp: lrat_delete_clause_def rbind_eq_Ok_iff)
  note v = find_stored_part [OF f]
  have ok: "ht_ok (clause_table t)" using assms(2) by (simp add: lrat_inv_def proved_def)
  have "proved F (unlink p (clause_table t))"
    using unlink_ok [OF ok] v assms(2) by (auto simp: lrat_inv_def proved_def dest: in_diffD)
  moreover have "clause_table u = unlink p (clause_table t)" "imported_clause u = []"
    "lrat_assumptions u = lrat_assumptions t" "lrat_constraint u = lrat_constraint t"
    "assumption_clauses u = assumption_clauses t"
    using assms(1) f v
    by (auto simp: lrat_delete_clause_def Let_def clear_imported_def collect_garbage_clauses_def proof_part_def)
  ultimately show ?thesis by (simp add: lrat_inv_def)
qed

section \<open>Runs of the checker\<close>

datatype lrat_event =
    LOriginal nat "int list" bool
  | LDerived nat "int list" "nat list"
  | LDelete nat "int list"
  | LWeaken nat "int list"
  | LFinalize nat "int list"
  | LAssumptionClause nat "int list" "nat list"
  | LAssumption int
  | LConstraint "int list"
  | LResetAssumptions
  | LConclude ConclusionType "nat list"
  | LReport
  | LBegin nat

fun lrat_event_step :: "lrat_event \<Rightarrow> LratChecker \<Rightarrow> LratChecker result" where
  "lrat_event_step (LOriginal i c r) t = lrat_add_original i c r t"
| "lrat_event_step (LDerived i c ch) t = lrat_add_derived i c ch t"
| "lrat_event_step (LDelete i c) t = lrat_delete_clause i c t"
| "lrat_event_step (LWeaken i c) t = lrat_weaken_minus i c t"
| "lrat_event_step (LFinalize i c) t = lrat_finalize_clause i c t"
| "lrat_event_step (LAssumptionClause i c ch) t = lrat_add_assumption_clause i c ch t"
| "lrat_event_step (LAssumption a) t = Ok (lrat_add_assumption a t)"
| "lrat_event_step (LConstraint c) t = Ok (lrat_add_constraint c t)"
| "lrat_event_step LResetAssumptions t = Ok (lrat_reset_assumptions t)"
| "lrat_event_step (LConclude k ids) t = lrat_conclude_unsat k ids t"
| "lrat_event_step LReport t = lrat_report_status t"
| "lrat_event_step (LBegin i) t = Ok (lrat_begin i t)"

fun event_clauses :: "lrat_event \<Rightarrow> int list list" where
  "event_clauses (LOriginal i c r) = [c]"
| "event_clauses _ = []"

definition originals :: "lrat_event list \<Rightarrow> int list list" where
  "originals es = concat (map event_clauses es)"

fun event_ok :: "lrat_event \<Rightarrow> bool" where
  "event_ok (LOriginal i c r) \<longleftrightarrow> nonzero c"
| "event_ok (LDerived i c ch) \<longleftrightarrow> nonzero c"
| "event_ok (LAssumptionClause i c ch) \<longleftrightarrow> nonzero c"
| "event_ok _ \<longleftrightarrow> True"

fun is_constraint :: "lrat_event \<Rightarrow> bool" where
  "is_constraint (LConstraint c) \<longleftrightarrow> True"
| "is_constraint _ \<longleftrightarrow> False"

text \<open>The assumptions in force after a sequence of events.\<close>

fun assumed :: "lrat_event \<Rightarrow> int list \<Rightarrow> int list" where
  "assumed (LAssumption a) as = as @ [a]"
| "assumed LResetAssumptions as = []"
| "assumed _ as = as"

lemma finalize_inv:
  assumes "lrat_finalize_clause i c t = Ok u" "lrat_inv F t"
  shows "lrat_inv F u \<and> lrat_assumptions u = lrat_assumptions t \<and>
    lrat_constraint u = lrat_constraint t \<and> assumption_clauses u = assumption_clauses t"
proof -
  obtain p d v where "find_stored i c (t\<lparr>num_finalized := num_finalized t + 1\<rparr>) = Ok (p, d, v)"
    "u = clear_imported v" using assms(1) by (auto simp: lrat_finalize_clause_def rbind_eq_Ok_iff)
  then show ?thesis using find_stored_part assms(2)
    by (fastforce simp: lrat_inv_def clear_imported_def proof_part_def)
qed

lemma weaken_inv:
  assumes "lrat_weaken_minus i c t = Ok u" "lrat_inv F t"
  shows "lrat_inv F u \<and> lrat_assumptions u = lrat_assumptions t \<and>
    lrat_constraint u = lrat_constraint t \<and> assumption_clauses u = assumption_clauses t"
proof -
  obtain p d v where f: "find_stored i c t = Ok (p, d, v)"
    "u = (clear_imported v)\<lparr>clauses_to_reconstruct := (clauses_to_reconstruct v)(i \<mapsto> sort c)\<rparr>"
    using assms(1) by (auto simp: lrat_weaken_minus_def rbind_eq_Ok_iff)
  then show ?thesis using find_stored_part [OF f(1)] assms(2)
    by (simp add: lrat_inv_def clear_imported_def proof_part_def)
qed

lemma assumption_clause_inv:
  assumes "lrat_add_assumption_clause i c ch t = Ok u" "lrat_inv F t" "nonzero c"
  shows "lrat_inv F u \<and> entails F c \<and> lrat_assumptions u = lrat_assumptions t \<and>
    lrat_constraint u = lrat_constraint t \<and> assumption_clauses u = assumption_clauses t @ [i] \<and>
    (\<forall>l \<in> set c. - l \<in> set (lrat_assumptions t) \<or> - l \<in> set (lrat_constraint t))"
proof -
  obtain v w where v: "lrat_add_derived i c ch t = Ok v" "lrat_delete_clause i c v = Ok w"
    "u = w\<lparr>assumption_clauses := assumption_clauses w @ [i]\<rparr>"
    "list_all (\<lambda>lit. - lit \<in> set (lrat_assumptions t) \<or> - lit \<in> set (lrat_constraint t)) c"
    using assms(1) by (auto simp: lrat_add_assumption_clause_def rbind_eq_Ok_iff split: if_splits)
  note d = add_derived_inv [OF v(1) assms(2,3)]
  then have "lrat_inv F v" by simp
  note e = delete_clause_inv [OF v(2) this]
  show ?thesis using d e v(3,4) by (auto simp: lrat_inv_def list_all_iff)
qed

lemma conclude_part:
  "lrat_conclude_unsat k ids t = Ok u \<Longrightarrow> u = t\<lparr>concluded := True\<rparr>"
  by (auto simp: lrat_conclude_unsat_def Let_def rbind_eq_Ok_iff split: ConclusionType.splits if_splits
      option.splits)

lemma event_inv:
  assumes "lrat_event_step e t = Ok u" "lrat_inv F t" "event_ok e"
  shows "lrat_inv (F @ event_clauses e) u"
proof (cases e)
  case (LOriginal i c r)
  then show ?thesis using add_original_inv assms by fastforce
next
  case (LDerived i c ch)
  then show ?thesis using add_derived_inv assms by fastforce
next
  case (LDelete i c)
  then show ?thesis using delete_clause_inv assms by fastforce
next
  case (LWeaken i c)
  then show ?thesis using weaken_inv assms by fastforce
next
  case (LFinalize i c)
  then show ?thesis using finalize_inv assms by fastforce
next
  case (LAssumptionClause i c ch)
  then show ?thesis using assumption_clause_inv assms by fastforce
next
  case (LConclude k ids)
  then show ?thesis using conclude_part assms by (fastforce simp: lrat_inv_def)
next
  case LReport
  then show ?thesis using assms by (auto simp: lrat_report_status_def lrat_inv_def split: if_splits)
qed (use assms in \<open>auto simp: lrat_inv_def lrat_add_assumption_def lrat_add_constraint_def
    lrat_reset_assumptions_def lrat_begin_def\<close>)

lemma new_inv: "lrat_inv [] (new_LratChecker strict)"
  by (simp add: ht.empty_bag lrat_inv_def new_LratChecker_def proved_def)

lemma run_inv:
  assumes "rfold lrat_event_step es t = Ok u" "lrat_inv F t" "list_all event_ok es"
  shows "lrat_inv (F @ originals es) u"
  using assms
proof (induction es arbitrary: F t)
  case (Cons e es)
  then obtain v where v: "lrat_event_step e t = Ok v" "rfold lrat_event_step es v = Ok u"
    by (auto simp: rbind_eq_Ok_iff)
  then show ?case
    using Cons.IH [OF v(2) event_inv [OF v(1) Cons.prems(2)]] Cons.prems(3) by (simp add: originals_def)
qed (simp add: originals_def)

lemma conclude_conflict:
  assumes "lrat_conclude_unsat CONFLICT ids t = Ok u" "lrat_inv F t"
  shows "\<not> list_all (sat_clause \<sigma>) F"
proof
  assume "list_all (sat_clause \<sigma>) F"
  obtain e where e: "lookup (last ids) (clause_table t) = Ok (Some e)" "literals (e_data e) = []"
    using assms(1) by (auto simp: lrat_conclude_unsat_def Let_def rbind_eq_Ok_iff split: if_splits option.splits)
  then have "entails F []" using lookup_some [OF e(1)] assms(2) by (auto simp: lrat_inv_def proved_def)
  then show False using \<open>list_all (sat_clause \<sigma>) F\<close> by (simp add: entails_def sat_clause_def)
qed

section \<open>Conclusions from assumptions\<close>

lemma failed_event:
  assumes "lrat_event_step e t = Ok u" "lrat_inv F t" "event_ok e" "\<not> is_constraint e"
    "failed_assumptions F t" "lrat_constraint t = []"
  shows "failed_assumptions (F @ event_clauses e) u \<and> lrat_constraint u = [] \<and>
    lrat_assumptions u = assumed e (lrat_assumptions t)"
proof -
  have keep: "failed_assumptions (F @ event_clauses e) u \<and> lrat_constraint u = []"
    if "set (lrat_assumptions t) \<subseteq> set (lrat_assumptions u)" "lrat_constraint u = lrat_constraint t"
      "assumption_clauses u = assumption_clauses t"
  proof -
    have mono: "entails F c \<Longrightarrow> entails (F @ event_clauses e) c" for c
      by (rule entails_mono) auto
    show ?thesis using that assms(5,6) mono unfolding failed_assumptions_def by simp blast
  qed
  show ?thesis
  proof (cases e)
    case (LOriginal i c r)
    then show ?thesis using add_original_inv [of i c r t u F] assms keep by simp
  next
    case (LDerived i c ch)
    then show ?thesis using add_derived_inv [of i c ch t u F] assms keep by simp
  next
    case (LDelete i c)
    then show ?thesis using delete_clause_inv [of i c t u F] assms keep by simp
  next
    case (LWeaken i c)
    then show ?thesis using weaken_inv [of i c t u F] assms keep by simp
  next
    case (LFinalize i c)
    then show ?thesis using finalize_inv [of i c t u F] assms keep by simp
  next
    case (LAssumptionClause i c ch)
    then show ?thesis
      using assumption_clause_inv [of i c ch t u F] assms by (auto simp: failed_assumptions_def)
  next
    case (LConclude k ids)
    then show ?thesis using conclude_part [of k ids t u] assms keep by simp
  next
    case LReport
    then show ?thesis using assms keep by (auto simp: lrat_report_status_def split: if_splits)
  next
    case (LAssumption a)
    then show ?thesis using assms keep by (auto simp: lrat_add_assumption_def subset_insertI)
  next
    case LResetAssumptions
    then show ?thesis using assms by (auto simp: lrat_reset_assumptions_def failed_assumptions_def)
  next
    case (LBegin i)
    then show ?thesis using assms keep by (auto simp: lrat_begin_def)
  next
    case (LConstraint c)
    then show ?thesis using assms(4) by simp
  qed
qed

lemma failed_run:
  assumes "rfold lrat_event_step es t = Ok u" "lrat_inv F t" "list_all event_ok es"
    "list_all (\<lambda>e. \<not> is_constraint e) es" "failed_assumptions F t" "lrat_constraint t = []"
  shows "failed_assumptions (F @ originals es) u \<and> lrat_constraint u = [] \<and>
    lrat_assumptions u = fold assumed es (lrat_assumptions t)"
  using assms
proof (induction es arbitrary: F t)
  case (Cons e es)
  then obtain v where v: "lrat_event_step e t = Ok v" "rfold lrat_event_step es v = Ok u"
    by (auto simp: rbind_eq_Ok_iff)
  have "lrat_inv (F @ event_clauses e) v" using event_inv [OF v(1) Cons.prems(2)] Cons.prems(3) by simp
  then show ?case
    using Cons.IH [OF v(2), of "F @ event_clauses e"] failed_event [OF v(1) Cons.prems(2)] Cons.prems
    by (simp add: originals_def)
qed (simp add: originals_def)

text \<open>
  If no constraint is used, an accepted conclusion from assumptions is right: the original clauses
  are unsatisfiable together with the assumptions made since the last reset.
\<close>

theorem lrat_assumptions_sound:
  assumes "rfold lrat_event_step es (new_LratChecker strict) = Ok t"
    "lrat_event_step (LConclude ASSUMPTIONS ids) t = Ok u"
    "list_all event_ok es" "list_all (\<lambda>e. \<not> is_constraint e) es"
  shows "\<not> sat_all \<sigma> (originals es) (fold assumed es [])"
proof
  assume sat: "sat_all \<sigma> (originals es) (fold assumed es [])"
  have "failed_assumptions [] (new_LratChecker strict)" "lrat_constraint (new_LratChecker strict) = []"
    "lrat_assumptions (new_LratChecker strict) = []"
    by (simp_all add: failed_assumptions_def new_LratChecker_def)
  then have t: "failed_assumptions (originals es) t" "lrat_constraint t = []"
    "lrat_assumptions t = fold assumed es []"
    using failed_run [OF assms(1) new_inv assms(3,4)] by simp_all
  have "assumption_clauses t \<noteq> []"
    using assms(2) by (auto simp: lrat_conclude_unsat_def Let_def split: if_splits)
  then obtain c where c: "entails (originals es) c" "nonzero c" "\<forall>l \<in> set c. - l \<in> set (fold assumed es [])"
    using t hd_in_set unfolding failed_assumptions_def by (metis empty_iff list.set(1))
  then obtain l where l: "l \<in> set c" "holds \<sigma> l" using sat by (auto simp: entails_def sat_all_def sat_clause_iff)
  then have "holds \<sigma> (- l)" using c(3) sat by (auto simp: sat_all_def list_all_iff)
  moreover have "l \<noteq> 0" using l(1) c(2) by (auto simp: nonzero_def)
  ultimately show False using l(2) holds_neg by blast
qed

text \<open>The clauses the checker was asked to derive, those of failed assumptions included, whether they are deleted later or not.\<close>

fun derived_clauses :: "lrat_event \<Rightarrow> int list list" where
  "derived_clauses (LDerived i c ch) = [c]"
| "derived_clauses (LAssumptionClause i c ch) = [c]"
| "derived_clauses _ = []"

lemma derived_follow:
  assumes "lrat_event_step e t = Ok u" "lrat_inv F t" "event_ok e" "c \<in> set (derived_clauses e)"
  shows "entails F c"
proof (cases e)
  case (LDerived i d ch)
  then show ?thesis using assms add_derived_inv [of i d ch t u F] by simp
next
  case (LAssumptionClause i d ch)
  then show ?thesis using assms assumption_clause_inv [of i d ch t u F] by simp
qed (use assms(4) in simp_all)

lemma split_run:
  assumes "rfold lrat_event_step (xs @ e # ys) (new_LratChecker strict) = Ok t" "list_all event_ok (xs @ e # ys)"
  obtains u v where "rfold lrat_event_step xs (new_LratChecker strict) = Ok u" "lrat_event_step e u = Ok v" "lrat_inv (originals xs) u"
proof -
  obtain u v where u: "rfold lrat_event_step xs (new_LratChecker strict) = Ok u" "lrat_event_step e u = Ok v"
    using assms(1) by (auto simp: rfold_append rbind_eq_Ok_iff)
  have "lrat_inv (originals xs) u" using run_inv [OF u(1) new_inv] assms(2) by simp
  then show thesis using u that by blast
qed

text \<open>
  C21. The LRAT checker is sound. After any accepted sequence of events, with restored and deleted clauses, assumptions and
  constraints, every clause it holds and every clause it was asked to derive, those of failed assumptions included
  and also if they were deleted afterwards, follows from the original clauses. If it accepted a conclusion by a conflict, the
  original clauses are unsatisfiable; if it accepted a conclusion from assumptions and no constraint was given before, the
  original clauses are unsatisfiable together with the assumptions in force.
\<close>

theorem lrat_checker_sound:
  assumes "rfold lrat_event_step es (new_LratChecker strict) = Ok t" "list_all event_ok es"
  shows "(\<forall>e \<in># ht_bag (clause_table t). entails (originals es) (literals (e_data e))) \<and>
    (\<forall>c \<in> \<Union> (set ` derived_clauses ` set es). entails (originals es) c) \<and>
    (\<forall>ids. LConclude CONFLICT ids \<in> set es \<longrightarrow> \<not> list_all (sat_clause \<sigma>) (originals es)) \<and>
    (\<forall>xs ids ys. es = xs @ LConclude ASSUMPTIONS ids # ys \<and> list_all (\<lambda>e. \<not> is_constraint e) xs \<longrightarrow>
       \<not> sat_all \<sigma> (originals xs) (fold assumed xs []))"
proof (intro conjI allI impI ballI)
  show "entails (originals es) (literals (e_data e))" if "e \<in># ht_bag (clause_table t)" for e
    using run_inv [OF assms(1) new_inv assms(2)] that by (simp add: lrat_inv_def proved_def)
  show "entails (originals es) c" if c: "c \<in> \<Union> (set ` derived_clauses ` set es)" for c
  proof -
    obtain e where e: "e \<in> set es" "c \<in> set (derived_clauses e)" using c by blast
    then obtain xs ys where es: "es = xs @ e # ys" by (meson split_list)
    obtain u v where u: "lrat_event_step e u = Ok v" "lrat_inv (originals xs) u" using split_run assms unfolding es by blast
    have "event_ok e" using assms(2) es by simp
    then have "entails (originals xs) c" by (rule derived_follow [OF u _ e(2)])
    then show ?thesis by (rule entails_mono) (simp add: es originals_def)
  qed
  show "\<not> list_all (sat_clause \<sigma>) (originals es)" if conflict: "LConclude CONFLICT ids \<in> set es" for ids
  proof -
    obtain xs ys where es: "es = xs @ LConclude CONFLICT ids # ys" using conflict by (meson split_list)
    obtain u v where u: "lrat_event_step (LConclude CONFLICT ids) u = Ok v" "lrat_inv (originals xs) u" using split_run assms unfolding es by blast
    then have "\<not> list_all (sat_clause \<sigma>) (originals xs)" using conclude_conflict by simp
    then show ?thesis by (simp add: es originals_def)
  qed
  show "\<not> sat_all \<sigma> (originals xs) (fold assumed xs [])"
    if conclusion: "es = xs @ LConclude ASSUMPTIONS ids # ys \<and> list_all (\<lambda>e. \<not> is_constraint e) xs" for xs ids ys
  proof -
    have es: "es = xs @ LConclude ASSUMPTIONS ids # ys" "list_all (\<lambda>e. \<not> is_constraint e) xs" using conclusion by simp_all
    obtain u v where u: "rfold lrat_event_step xs (new_LratChecker strict) = Ok u" "lrat_event_step (LConclude ASSUMPTIONS ids) u = Ok v"
      using split_run assms unfolding es(1) by blast
    have "list_all event_ok xs" using assms(2) es(1) by simp
    then show ?thesis by (rule lrat_assumptions_sound [OF u _ es(2)])
  qed
qed

section \<open>Examples of runs\<close>

fun fault_of :: "'a result \<Rightarrow> fault option" where
  "fault_of (Ok x) = None"
| "fault_of (Fault e) = Some e"

definition run :: "bool \<Rightarrow> lrat_event list \<Rightarrow> LratChecker result" where
  "run strict es = rfold lrat_event_step es (new_LratChecker strict)"

text \<open>The clauses 1, 2 refute each other; the derived empty clause is concluded.\<close>

definition refutation :: "lrat_event list" where
  "refutation = [LOriginal 1 [1] False, LOriginal 2 [- 1, 2] False, LDerived 3 [2] [1, 2], LDelete 2 [2, - 1],
     LOriginal 4 [- 2] False, LDerived 5 [] [3, 4], LConclude CONFLICT [5]]"

definition failing :: "lrat_event list" where
  "failing = [LOriginal 1 [- 1, 2] False, LOriginal 2 [- 2] False, LAssumption 1,
     LAssumptionClause 3 [- 1] [2, 1]]"

text \<open>A run to a conflict, and one to a conclusion from the assumption 1, whose clause is deleted at once.\<close>

theorem lrat_checker_sound_witness:
  "is_ok (run False refutation) \<and> \<not> list_all (sat_clause (\<lambda>n. True)) (originals refutation) \<and>
   is_ok (run False (failing @ [LConclude ASSUMPTIONS [3]])) \<and> entails (originals failing) [- 1] \<and>
   \<not> sat_all (\<lambda>n. n = 1) (originals failing) [1]"
proof -
  have ok1: "is_ok (run False refutation)" by code_simp
  define t where "t = the_ok (run False failing)"
  have "is_ok (run False failing)" by code_simp
  then have p: "rfold lrat_event_step failing (new_LratChecker False) = Ok t" unfolding t_def run_def by (rule is_okD)
  have q: "is_ok (lrat_event_step (LConclude ASSUMPTIONS [3]) t)" unfolding t_def by code_simp
  have "run False (failing @ [LConclude ASSUMPTIONS [3]]) = lrat_event_step (LConclude ASSUMPTIONS [3]) t"
    unfolding run_def rfold_append p rbind.simps
    by (cases "lrat_event_step (LConclude ASSUMPTIONS [3]) t") (simp_all only: rfold.simps rbind.simps)
  then have ok2: "is_ok (run False (failing @ [LConclude ASSUMPTIONS [3]]))" using q by (simp only:)
  note ok = ok1 ok2
  have r: "rfold lrat_event_step refutation (new_LratChecker False) = Ok (the_ok (run False refutation))"
    "rfold lrat_event_step (failing @ [LConclude ASSUMPTIONS [3]]) (new_LratChecker False) = Ok (the_ok (run False (failing @ [LConclude ASSUMPTIONS [3]])))"
    using is_okD [OF ok1] is_okD [OF ok2] by (simp_all only: run_def)
  have e: "list_all event_ok refutation" "LConclude CONFLICT [5] \<in> set refutation" by (simp_all add: refutation_def)
  have f: "list_all event_ok (failing @ [LConclude ASSUMPTIONS [3]])" "list_all (\<lambda>e. \<not> is_constraint e) failing"
    "[- 1] \<in> \<Union> (set ` derived_clauses ` set (failing @ [LConclude ASSUMPTIONS [3]]))" "fold assumed failing [] = [1]"
    "originals (failing @ [LConclude ASSUMPTIONS [3]]) = originals failing"
    by (simp_all add: failing_def originals_def)
  note R = lrat_checker_sound [OF r(1) e(1), THEN conjunct2, THEN conjunct2]
  note S = lrat_checker_sound [OF r(2) f(1), THEN conjunct2]
  have "\<not> list_all (sat_clause (\<lambda>n. True)) (originals refutation)" by (rule R [THEN conjunct1, rule_format, OF e(2)])
  moreover have "entails (originals failing) [- 1]"
    using S [THEN conjunct1, rule_format, OF f(3)] by (simp only: f(5))
  moreover have "\<not> sat_all (\<lambda>n. n = 1) (originals failing) (fold assumed failing [])"
    by (rule S [THEN conjunct2, THEN conjunct2, rule_format, where ids = "[3]" and ys = "[]"]) (simp add: f(2))
  then have "\<not> sat_all (\<lambda>n. n = 1) (originals failing) [1]" by (simp only: f(4) not_False_eq_True)
  ultimately show ?thesis using ok by blast
qed

theorem lrat_assumptions_sound_witness:
  "\<not> sat_all (\<lambda>n. n = 1) (originals failing) (fold assumed failing [])"
proof (rule lrat_assumptions_sound)
  have "is_ok (run False failing)" by code_simp
  then show "rfold lrat_event_step failing (new_LratChecker False) = Ok (the_ok (run False failing))"
    unfolding run_def by (rule is_okD)
  have "is_ok (lrat_event_step (LConclude ASSUMPTIONS [3]) (the_ok (run False failing)))" by code_simp
  then show "lrat_event_step (LConclude ASSUMPTIONS [3]) (the_ok (run False failing)) =
      Ok (the_ok (lrat_event_step (LConclude ASSUMPTIONS [3]) (the_ok (run False failing))))"
    by (rule is_okD)
  show "list_all event_ok failing" "list_all (\<lambda>e. \<not> is_constraint e) failing"
    by (simp_all add: failing_def)
qed

text \<open>
  With a constraint the checker accepts wrong conclusions from assumptions: it only looks that the
  literals of the assumption clause are negated assumptions or constraint literals, so one
  refuted literal of a constraint with two literals is enough. Here the clause
  \<open>-1\<close> with the constraint \<open>1, 2\<close> is accepted as unsatisfiable without any assumption.
\<close>

theorem lrat_constraint_gap:
  "is_ok (run False [LOriginal 1 [- 1] False, LConstraint [1, 2], LAssumptionClause 2 [- 1] [1],
     LConclude ASSUMPTIONS [2]]) \<and>
   sat_all (\<lambda>n. n = 2) [[- 1], [1, 2]] []"
  by code_simp

text \<open>
  Three ways in which the checker fails without a message: looking for a clause in a checker that
  has never stored one does not come back; a chain that goes on after the conflict with an
  identifier that does not exist passes the unit propagation, but the resolution check
  follows the null pointer; and a literal of index above 2 to the 30 overflows.
\<close>

theorem lrat_checker_faults:
  "lrat_event_step (LDelete i []) (new_LratChecker strict) = Fault Diverges \<and>
   fault_of (run False [LOriginal 1 [1] False, LOriginal 2 [- 1] False, LDerived 3 [] [1, 2, 9]]) = Some OutOfBounds \<and>
   is_ok (run True [LOriginal 1 [1] False, LOriginal 2 [- 1] False, LDerived 3 [] [1, 2, 9]]) \<and>
   (l2u l = Fault SignedOverflow \<longleftrightarrow> 2 ^ 30 < \<bar>l\<bar>)"
proof (intro conjI)
  show "lrat_event_step (LDelete i []) (new_LratChecker strict) = Fault Diverges"
    by (simp add: lrat_delete_clause_def find_stored_def import_clause_def new_LratChecker_def find_def
        empty_htable_def reduce_hash_empty)
  show "l2u l = Fault SignedOverflow \<longleftrightarrow> 2 ^ 30 < \<bar>l\<bar>"
    by (auto simp: l2u_def Let_def INT_MAX_def INT_MIN_def)
qed code_simp+

end
