(* ===== verification/Lrat_Rup.thy ===== *)
theory Lrat_Rup
  imports Lrat_Checker
begin

text \<open>
  The propagation of the LRAT checker against its reference. \<open>rup\<close> is reverse unit propagation along a
  chain on sets of literals; \<open>check_is_rup\<close> says that \<open>check\<close>, with its mark vectors and the
  hash table, decides it on every state whose literals fit the marks.
\<close>

section \<open>The check is reverse unit propagation\<close>

text \<open>
  The reference: unit propagation on sets of literals along the chain, without mark vectors and
  without a hash table. \<open>T\<close> holds the literals that are assumed or propagated.
\<close>

fun rup :: "(nat \<Rightarrow> lrat_clause option) \<Rightarrow> nat list \<Rightarrow> nat set \<Rightarrow> int set \<Rightarrow> bool" where
  "rup db [] used T \<longleftrightarrow> False"
| "rup db (i # ids) used T \<longleftrightarrow>
     (case db i of
        None \<Rightarrow> False
      | Some c \<Rightarrow> \<not> tautological c \<and> i \<notin> used \<and>
          (let opens = {l \<in> set (literals c). - l \<notin> T} in
           opens = {} \<or> (\<exists>l. opens = {l}) \<and> rup db ids (insert i used) (T \<union> opens)))"

definition bits_lit :: "int \<Rightarrow> int \<Rightarrow> bool" where
  "bits_lit n l \<longleftrightarrow> l \<noteq> 0 \<and> \<bar>l\<bar> < n \<and> \<bar>l\<bar> \<le> 2 ^ 30"

definition marked :: "bool list \<Rightarrow> int set" where
  "marked bits = {l. l \<noteq> 0 \<and> lit_at bits l = Ok True}"

lemma bits_lit_neg [simp]: "bits_lit n (- l) \<longleftrightarrow> bits_lit n l"
  by (simp add: bits_lit_def)

lemma l2u_bits:
  assumes "bits_lit n l"
  shows "\<exists>u. l2u l = Ok u \<and> u < nat (2 * n)"
proof -
  have l: "l \<noteq> 0" "\<bar>l\<bar> < n" "\<bar>l\<bar> \<le> 2 ^ 30" using assms by (simp_all add: bits_lit_def)
  then obtain u where u: "l2u l = Ok u" by (simp add: l2u_def Let_def INT_MAX_def INT_MIN_def abs_if split: if_splits)
  have "nat (\<bar>l\<bar> - 1) < nat n" "nat (2 * n) = 2 * nat n" using l by (simp_all add: nat_mult_distrib)
  then have "u < nat (2 * n)" using l2u_eq [OF u l(1)] by (simp split: if_splits)
  then show ?thesis using u by blast
qed

lemma lit_at_marked:
  "bits_lit n l \<Longrightarrow> length bits = nat (2 * n) \<Longrightarrow> lit_at bits l = Ok (l \<in> marked bits)"
  using l2u_bits [of n l] by (auto simp: marked_def lit_at_def bits_lit_def)

lemma lit_set_marked:
  assumes "bits_lit n u" "length bits = nat (2 * n)"
  shows "\<exists>bits'. lit_set u True bits = Ok bits' \<and> length bits' = nat (2 * n) \<and> marked bits' = insert u (marked bits)"
proof -
  obtain i where i: "l2u u = Ok i" "i < nat (2 * n)" using l2u_bits [OF assms(1)] by blast
  have u: "u \<noteq> 0" using assms(1) by (simp add: bits_lit_def)
  have "l \<in> marked (bits[i := True]) \<longleftrightarrow> l = u \<or> l \<in> marked bits" for l
  proof (cases "l2u l")
    case (Ok j)
    then show ?thesis using i assms(2) u l2u_inj [OF i(1), of l]
      by (cases "j = i") (auto simp: marked_def lit_at_def vec_at_def)
  next
    case (Fault e)
    then show ?thesis using i(1) by (auto simp: marked_def lit_at_def)
  qed
  then have "marked (bits[i := True]) = insert u (marked bits)" by blast
  then show ?thesis using i assms(2) by (simp add: lit_set_def)
qed

lemma marked_clear: "marked (clear_bits bits) = {}"
  by (auto simp: marked_def clear_bits_def lit_at_def rbind_eq_Ok_iff vec_at_def split: if_splits)

lemma find_unit_rup:
  assumes "\<forall>l \<in> set c. bits_lit n l" "length bits = nat (2 * n)" "u = 0 \<or> bits_lit n u"
  defines "opens \<equiv> (if u = 0 then {} else {u}) \<union> {l \<in> set c. - l \<notin> marked bits}"
  shows "\<exists>r. find_unit c u bits = Ok r \<and>
    (opens = {} \<and> r = 0 \<or> opens = {r} \<and> bits_lit n r \<or> (\<nexists>l. opens = {l}) \<and> opens \<noteq> {} \<and> r = INT_MIN)"
  using assms(1,3) unfolding opens_def
proof (induction c arbitrary: u)
  case Nil
  then show ?case by auto
next
  case (Cons l c)
  have l: "bits_lit n l" "l \<noteq> 0" "lit_at bits (- l) = Ok (- l \<in> marked bits)"
    using Cons.prems(1) lit_at_marked [of n "- l" bits] assms(2) by (simp_all add: bits_lit_def)
  show ?case
  proof (cases "- l \<in> marked bits")
    case True
    then have "{k \<in> set (l # c). - k \<notin> marked bits} = {k \<in> set c. - k \<notin> marked bits}" by auto
    then show ?thesis using Cons.IH [of u] Cons.prems l True by simp
  next
    case False
    then have eq: "{k \<in> set (l # c). - k \<notin> marked bits} = insert l {k \<in> set c. - k \<notin> marked bits}" by auto
    show ?thesis
    proof (cases "u \<noteq> 0 \<and> u \<noteq> l")
      case True
      then have "\<nexists>k. (if u = 0 then {} else {u}) \<union> {k \<in> set (l # c). - k \<notin> marked bits} = {k}"
        unfolding eq by auto
      then show ?thesis using True False l by auto
    next
      case same: False
      then have e: "(if u = 0 then {} else {u}) \<union> {k \<in> set (l # c). - k \<notin> marked bits} =
          (if l = 0 then {} else {l}) \<union> {k \<in> set c. - k \<notin> marked bits}"
        unfolding eq using l(2) by auto
      have f: "find_unit (l # c) u bits = find_unit c l bits" using l False same by auto
      show ?thesis unfolding e f using Cons.prems(1) l by (intro Cons.IH) auto
    qed
  qed
qed

text \<open>The clauses of the table as a map.\<close>

definition stored :: "lrat_clause htable \<Rightarrow> nat \<Rightarrow> lrat_clause option" where
  "stored tab i = map_option e_data (the_ok (lookup i tab))"

lemma check_chain_rup:
  assumes "ht_ok tab" "ht_bag tab \<noteq> {#}" "\<forall>e \<in># ht_bag tab. \<forall>l \<in> set (literals (e_data e)). bits_lit n l"
    "length bits = nat (2 * n)" "INT_MIN < - n"
  shows "\<exists>bits'. check_chain tab ids used bits = Ok (rup (stored tab) ids (set used) (marked bits), bits')"
  using assms(4)
proof (induction ids arbitrary: used bits)
  case (Cons i ids)
  obtain r where r: "lookup i tab = Ok r"
    "case r of None \<Rightarrow> \<forall>e \<in># ht_bag tab. e_id e \<noteq> i | Some e \<Rightarrow> e \<in># ht_bag tab \<and> e_id e = i"
    using lookup_ok [OF assms(1,2)] by blast
  show ?case
  proof (cases r)
    case None
    then show ?thesis using r by (simp add: stored_def)
  next
    case (Some e)
    define opens where "opens = {l \<in> set (literals (e_data e)). - l \<notin> marked bits}"
    have db: "stored tab i = Some (e_data e)" using r Some by (simp add: stored_def)
    have "\<forall>l \<in> set (literals (e_data e)). bits_lit n l" using r Some assms(3) by auto
    from find_unit_rup [OF this Cons.prems, of 0] obtain u where u: "find_unit (literals (e_data e)) 0 bits = Ok u"
      "opens = {} \<and> u = 0 \<or> opens = {u} \<and> bits_lit n u \<or> (\<nexists>l. opens = {l}) \<and> opens \<noteq> {} \<and> u = INT_MIN"
      by (auto simp: opens_def)
    have step: "rup (stored tab) (i # ids) (set used) (marked bits) \<longleftrightarrow> \<not> tautological (e_data e) \<and> i \<notin> set used \<and>
        (opens = {} \<or> (\<exists>l. opens = {l}) \<and> rup (stored tab) ids (insert i (set used)) (marked bits \<union> opens))"
      using db by (simp add: Let_def opens_def)
    show ?thesis
    proof (cases "tautological (e_data e) \<or> i \<in> set used")
      case True
      then show ?thesis using r Some step by auto
    next
      case False
      from u(2) consider "opens = {}" "u = 0" | "opens = {u}" "bits_lit n u"
        | "\<nexists>l. opens = {l}" "opens \<noteq> {}" "u = INT_MIN" by blast
      then show ?thesis
      proof cases
        case 1
        then show ?thesis using r Some u(1) False step by (simp add: INT_MIN_def)
      next
        case 2
        obtain b where b: "lit_set u True bits = Ok b" "length b = nat (2 * n)" "marked b = insert u (marked bits)"
          using lit_set_marked [OF 2(2) Cons.prems] by blast
        have "u \<noteq> 0" "u \<noteq> INT_MIN" using 2(2) assms(5) by (auto simp: bits_lit_def INT_MIN_def)
        then show ?thesis
          using r Some u(1) False step 2(1) b Cons.IH [OF b(2), of "i # used"] by simp
      next
        case 3
        then show ?thesis using r Some u(1) False step by simp
      qed
    qed
  qed
qed simp

text \<open>The state between two events, with all literals inside the mark vectors and indices up to 2 to the 30.\<close>

definition checker_ready :: "LratChecker \<Rightarrow> bool" where
  "checker_ready t \<longleftrightarrow> ht_ok (clause_table t) \<and> ht_bag (clause_table t) \<noteq> {#} \<and>
     (\<forall>e \<in># ht_bag (clause_table t). \<forall>l \<in> set (literals (e_data e)). bits_lit (size_vars t) l) \<and>
     (\<forall>l \<in> set (imported_clause t). bits_lit (size_vars t) l) \<and>
     length (checked_lits t) = nat (2 * size_vars t) \<and> size_vars t < 2 ^ 31"

fun dual_in :: "int set \<Rightarrow> int list \<Rightarrow> bool" where
  "dual_in M [] \<longleftrightarrow> False"
| "dual_in M (l # c) \<longleftrightarrow> l \<in> M \<or> dual_in (insert (- l) M) c"

lemma dual_in_iff:
  "nonzero c \<Longrightarrow> dual_in M c \<longleftrightarrow> (\<exists>l \<in> set c. l \<in> M \<or> - l \<in> set c)"
proof (induction c arbitrary: M)
  case (Cons l c)
  have "- l \<noteq> l" using Cons.prems by simp
  then show ?case using Cons by auto
qed simp

lemma negate_lits_marked:
  assumes "\<forall>l \<in> set c. bits_lit n l" "length bits = nat (2 * n)"
  shows "\<exists>bits'. negate_lits c bits = Ok (bits', dual_in (marked bits) c) \<and> length bits' = nat (2 * n) \<and>
    (\<not> dual_in (marked bits) c \<longrightarrow> marked bits' = marked bits \<union> uminus ` set c)"
  using assms
proof (induction c arbitrary: bits)
  case (Cons l c)
  have l: "bits_lit n l" "l \<noteq> 0" "- l \<noteq> l" using Cons.prems(1) by (auto simp: bits_lit_def)
  obtain b where b: "lit_set (- l) True bits = Ok b" "length b = nat (2 * n)" "marked b = insert (- l) (marked bits)"
    using lit_set_marked [of n "- l" bits] l(1) Cons.prems(2) by auto
  have at: "lit_at b l = Ok (l \<in> marked bits)"
    using lit_at_marked [OF l(1) b(2)] b(3) l(3) by auto
  obtain bits' where "negate_lits c b = Ok (bits', dual_in (marked b) c)" "length bits' = nat (2 * n)"
    "\<not> dual_in (marked b) c \<longrightarrow> marked bits' = marked b \<union> uminus ` set c"
    using Cons.IH [OF _ b(2)] Cons.prems(1) by auto
  then show ?case using b at by (cases "l \<in> marked bits") simp_all
qed simp

text \<open>
  C22. On a state with bounded literals the checker decides exactly reverse unit propagation along the
  chain: it accepts a clause iff the clause contains a literal and its negation, or
  propagation of its negation along the chain ends in a conflict.
\<close>

theorem check_is_rup:
  assumes "checker_ready t"
  shows "\<exists>u. check chain t = Ok
      ((\<exists>l \<in> set (imported_clause t). - l \<in> set (imported_clause t)) \<or>
       rup (stored (clause_table t)) chain {} (uminus ` set (imported_clause t)), u)"
proof -
  let ?c = "imported_clause t"
  note ready = assms [unfolded checker_ready_def]
  have "length (clear_bits (checked_lits t)) = nat (2 * size_vars t)"
    using ready by (simp add: clear_bits_def)
  then obtain bits where b: "negate_lits ?c (clear_bits (checked_lits t)) = Ok (bits, dual_in {} ?c)"
    "length bits = nat (2 * size_vars t)" "\<not> dual_in {} ?c \<Longrightarrow> marked bits = uminus ` set ?c"
    using negate_lits_marked [of ?c "size_vars t" "clear_bits (checked_lits t)"] ready
    by (auto simp: marked_clear)
  have "nonzero ?c" using ready by (auto simp: nonzero_def bits_lit_def)
  then have taut: "dual_in {} ?c \<longleftrightarrow> (\<exists>l \<in> set ?c. - l \<in> set ?c)" by (simp add: dual_in_iff)
  show ?thesis
  proof (cases "dual_in {} ?c")
    case True
    then show ?thesis using b(1) taut by (simp add: check_def)
  next
    case False
    have "INT_MIN < - size_vars t" using ready by (simp add: INT_MIN_def)
    from check_chain_rup [OF _ _ _ b(2) this, of "clause_table t" chain "[]"] obtain bits' where
      "check_chain (clause_table t) chain [] bits =
        Ok (rup (stored (clause_table t)) chain {} (uminus ` set ?c), bits')"
      using ready b(3) [OF False] by auto
    then show ?thesis using b(1) False taut by (simp add: check_def)
  qed
qed

text \<open>The clauses 1 and 2 are stored and the clause \<open>2\<close> is to be checked.\<close>

definition waiting :: LratChecker where
  "waiting = the_ok (rbind (run False [LOriginal 1 [1] False, LOriginal 2 [- 1, 2] False]) (import_clause [2]))"

theorem check_is_rup_witness:
  "\<exists>u. check [1, 2] waiting = Ok
      ((\<exists>l \<in> set (imported_clause waiting). - l \<in> set (imported_clause waiting)) \<or>
       rup (stored (clause_table waiting)) [1, 2] {} (uminus ` set (imported_clause waiting)), u)"
proof (rule check_is_rup)
  show "checker_ready waiting" by code_simp
qed

end
