(* ===== verification/Drup_Checker.thy ===== *)
theory Drup_Checker
  imports Lrat_Checker
begin

text \<open>
  The checker for DRUP proofs (\<open>checker.cpp\<close>, \<open>checker.hpp\<close>): a propagation engine with two watched
  literals for each clause that checks every derived clause by reverse unit propagation.

  Clauses are shared between the hash table, the watch lists and the list of garbage clauses, and propagation
  reorders their literals, so they live in a store: \<open>memory\<close> maps addresses to clauses, a clause that was freed is
  gone from it, and an access to a freed address is the fault \<open>OutOfBounds\<close>. The collision chains, the watches
  and the garbage list hold addresses. The functions for literals and hash values that the two checkers
  share are those of \<open>Lrat_Checker\<close> and \<open>Hash_Table\<close>.

  The array \<open>vals\<close> is indexed from \<open>- size_vars\<close>: position \<open>size_vars + lit\<close> of the list. The vector
  \<open>unsimplified\<close>, which is only printed, and the counters of \<open>stats\<close> are left out; a fatal error message is the
  fault \<open>Aborted\<close>. The assertions are not executed.
\<close>

unbundle bit_operations_syntax

section \<open>State\<close>

record CheckerClause =
  c_hash :: "64 word"
  c_size :: nat
  c_lits :: "int list"

record CheckerWatch =
  w_blit :: int
  w_size :: nat
  w_clause :: nat

record Checker =
  ck_size_vars :: int
  ck_vals :: "int list"
  watchers :: "CheckerWatch list list"
  ck_marks :: "bool list"
  inconsistent :: bool
  memory :: "nat \<rightharpoonup> CheckerClause"
  fresh :: nat
  ck_num_clauses :: nat
  ck_num_garbage :: nat
  chains :: "nat list list"
  ck_garbage :: "nat list"
  simplified :: "int list"
  ck_trail :: "int list"
  next_to_propagate :: nat
  ck_last_id :: nat

definition new_Checker :: Checker where
  "new_Checker = \<lparr>ck_size_vars = 0, ck_vals = [], watchers = [], ck_marks = [], inconsistent = False,
     memory = Map.empty, fresh = 0, ck_num_clauses = 0, ck_num_garbage = 0, chains = [], ck_garbage = [],
     simplified = [], ck_trail = [], next_to_propagate = 0, ck_last_id = 0\<rparr>"

section \<open>Literals\<close>

definition val_index :: "int \<Rightarrow> Checker \<Rightarrow> nat result" where
  "val_index lit t = (if ck_size_vars t + lit < 0 then Fault OutOfBounds else Ok (nat (ck_size_vars t + lit)))"

definition ck_val :: "int \<Rightarrow> Checker \<Rightarrow> int result" where
  "ck_val lit t = rbind (val_index lit t) (vec_at (ck_vals t))"

definition put_val :: "int \<Rightarrow> int \<Rightarrow> Checker \<Rightarrow> Checker result" where
  "put_val lit v t =
     rbind (val_index lit t) (\<lambda>i. rbind (vec_set (ck_vals t) i v) (\<lambda>vs. Ok (t\<lparr>ck_vals := vs\<rparr>)))"

definition watcher :: "int \<Rightarrow> Checker \<Rightarrow> CheckerWatch list result" where
  "watcher lit t = rbind (l2u lit) (vec_at (watchers t))"

definition put_watcher :: "int \<Rightarrow> CheckerWatch list \<Rightarrow> Checker \<Rightarrow> Checker result" where
  "put_watcher lit ws t =
     rbind (l2u lit) (\<lambda>u. rbind (vec_set (watchers t) u ws) (\<lambda>wss. Ok (t\<lparr>watchers := wss\<rparr>)))"

definition push_watch :: "int \<Rightarrow> CheckerWatch \<Rightarrow> Checker \<Rightarrow> Checker result" where
  "push_watch lit w t = rbind (watcher lit t) (\<lambda>ws. put_watcher lit (ws @ [w]) t)"

definition clause_at :: "nat \<Rightarrow> Checker \<Rightarrow> CheckerClause result" where
  "clause_at a t = (case memory t a of None \<Rightarrow> Fault OutOfBounds | Some c \<Rightarrow> Ok c)"

definition put_clause :: "nat \<Rightarrow> CheckerClause \<Rightarrow> Checker \<Rightarrow> Checker" where
  "put_clause a c t = t\<lparr>memory := (memory t)(a \<mapsto> c)\<rparr>"

text \<open>The copy of the old values goes to the middle of the new array.\<close>

definition ck_enlarge_vars :: "int \<Rightarrow> Checker \<Rightarrow> Checker result" where
  "ck_enlarge_vars idx t =
     (let s = ck_size_vars t in
      rbind (rwhile (\<lambda>n. n \<le> idx) (\<lambda>n. Ok (2 * n)) (if s \<noteq> 0 then 2 * s else 2)) (\<lambda>n.
        Ok (t\<lparr>ck_vals := replicate (nat (n - s)) 0 @ ck_vals t @ replicate (nat (n - s)) 0,
              watchers := vec_resize (watchers t) (nat (2 * n)) [],
              ck_marks := vec_resize (ck_marks t) (nat (2 * n)) False, ck_size_vars := n\<rparr>)))"

definition ck_import_literal :: "int \<Rightarrow> Checker \<Rightarrow> Checker result" where
  "ck_import_literal lit t =
     (if lit = INT_MIN then Fault SignedOverflow
      else rbind (if \<bar>lit\<bar> \<ge> ck_size_vars t then ck_enlarge_vars \<bar>lit\<bar> t else Ok t) (\<lambda>t.
             Ok (t\<lparr>simplified := simplified t @ [lit]\<rparr>)))"

definition ck_import_clause :: "int list \<Rightarrow> Checker \<Rightarrow> Checker result" where
  "ck_import_clause = rfold ck_import_literal"

definition lit_smaller :: "int \<Rightarrow> int \<Rightarrow> bool" where
  "lit_smaller a b =
     (let c = \<bar>a\<bar>; d = \<bar>b\<bar> in if c < d then True else if c > d then False else a < b)"

text \<open>Sorting by \<open>lit_smaller\<close>, as the order of an integer key.\<close>

definition lit_key :: "int \<Rightarrow> int" where
  "lit_key a = 2 * \<bar>a\<bar> + (if a < 0 then 0 else 1)"

lemma lit_smaller_key: "lit_smaller a b \<longleftrightarrow> lit_key a < lit_key b"
  by (auto simp: lit_smaller_def lit_key_def Let_def)

text \<open>
  The loop of \<open>tautological\<close> over the sorted literals: the literals kept so far are copied to the front. If it
  returns early, the rest of the vector is as it was.
\<close>

fun taut_scan :: "Checker \<Rightarrow> int list \<Rightarrow> int \<Rightarrow> int list \<Rightarrow> (bool \<times> int list) result" where
  "taut_scan t [] prev kept = Ok (False, kept)"
| "taut_scan t (lit # lits) prev kept =
     (if lit = prev then taut_scan t lits prev kept
      else if lit = - prev then Ok (True, kept)
      else rbind (ck_val lit t) (\<lambda>tmp.
        if tmp > 0 then Ok (True, kept) else taut_scan t lits lit (kept @ [lit])))"

definition ck_tautological :: "Checker \<Rightarrow> (bool \<times> Checker) result" where
  "ck_tautological t =
     (let sorted = sort_key lit_key (simplified t) in
      rbind (taut_scan t sorted 0 []) (\<lambda>(taut, kept).
        Ok (taut, t\<lparr>simplified := (if taut then kept @ drop (length kept) sorted else kept)\<rparr>)))"

section \<open>Propagation\<close>

definition assign :: "int \<Rightarrow> Checker \<Rightarrow> Checker result" where
  "assign lit t =
     rbind (put_val lit 1 t) (\<lambda>t. rbind (put_val (- lit) (- 1) t) (\<lambda>t.
       Ok (t\<lparr>ck_trail := ck_trail t @ [lit]\<rparr>)))"

definition assume_lit :: "int \<Rightarrow> Checker \<Rightarrow> Checker result" where
  "assume_lit lit t = rbind (ck_val lit t) (\<lambda>tmp. if tmp > 0 then Ok t else assign lit t)"

definition pop_trail :: "Checker \<Rightarrow> Checker result" where
  "pop_trail t =
     (let lit = last (ck_trail t) in
      rbind (put_val lit 0 t) (\<lambda>t. rbind (put_val (- lit) 0 t) (\<lambda>t.
        Ok (t\<lparr>ck_trail := butlast (ck_trail t)\<rparr>))))"

definition ck_backtrack :: "nat \<Rightarrow> Checker \<Rightarrow> Checker result" where
  "ck_backtrack previously_propagated t =
     rbind (rwhile (\<lambda>t. length (ck_trail t) > previously_propagated) pop_trail t) (\<lambda>t.
       Ok (t\<lparr>next_to_propagate := previously_propagated\<rparr>))"

text \<open>The first position from \<open>k\<close> on with a literal that is not false, or the end.\<close>

fun replacement_pos :: "Checker \<Rightarrow> int list \<Rightarrow> nat \<Rightarrow> nat result" where
  "replacement_pos t [] k = Ok k"
| "replacement_pos t (lit # lits) k =
     rbind (ck_val lit t) (\<lambda>v. if v \<ge> 0 then Ok k else replacement_pos t lits (k + 1))"

text \<open>
  The part of the loop for clauses with more than two literals, from the choice of \<open>other\<close>. \<open>l\<close> is the
  falsified literal. The result is \<open>res\<close>, the watch if it is kept in the list, and the state.
\<close>

definition visit_long :: "int \<Rightarrow> CheckerWatch \<Rightarrow> CheckerClause \<Rightarrow> Checker \<Rightarrow>
    (bool \<times> CheckerWatch list \<times> Checker) result" where
  "visit_long l w c t =
     (let other = c_lits c ! 0 XOR c_lits c ! 1 XOR l in
      rbind (ck_val other t) (\<lambda>other_val.
        if other_val > 0 then Ok (True, [w\<lparr>w_blit := other\<rparr>], t)
        else let lits = (c_lits c)[0 := other, 1 := l] in
          rbind (replacement_pos t (drop 2 lits) 2) (\<lambda>k.
            if k < length lits
            then rbind (push_watch (lits ! k) \<lparr>w_blit = l, w_size = c_size c, w_clause = w_clause w\<rparr> t) (\<lambda>t.
              Ok (True, [], put_clause (w_clause w) (c\<lparr>c_lits := lits[1 := lits ! k, k := l]\<rparr>) t))
            else let t = put_clause (w_clause w) (c\<lparr>c_lits := lits\<rparr>) t in
              if other_val = 0 then rbind (assign other t) (\<lambda>t. Ok (True, [w], t))
              else Ok (False, [w], t))))"

definition visit_watch :: "int \<Rightarrow> CheckerWatch \<Rightarrow> Checker \<Rightarrow> (bool \<times> CheckerWatch list \<times> Checker) result" where
  "visit_watch l w t =
     rbind (ck_val (w_blit w) t) (\<lambda>blit_val.
       if blit_val > 0 then Ok (True, [w], t)
       else if w_size w = 2
       then (if blit_val < 0 then Ok (False, [w], t)
             else rbind (assign (w_blit w) t) (\<lambda>t. Ok (True, [w], t)))
       else rbind (clause_at (w_clause w) t) (\<lambda>c.
         if c_size c = 0 then Ok (True, [], t) else visit_long l w c t))"

text \<open>The loop over a watch list, which is compacted in place: \<open>kept\<close> is the part before \<open>j\<close>.\<close>

fun visit_watches :: "int \<Rightarrow> CheckerWatch list \<Rightarrow> CheckerWatch list \<Rightarrow> Checker \<Rightarrow>
    (bool \<times> CheckerWatch list \<times> Checker) result" where
  "visit_watches l [] kept t = Ok (True, kept, t)"
| "visit_watches l (w # ws) kept t =
     rbind (visit_watch l w t) (\<lambda>(res, ks, t).
       if res then visit_watches l ws (kept @ ks) t else Ok (False, kept @ ks @ ws, t))"

definition propagate_next :: "Checker \<Rightarrow> (bool \<times> Checker) result" where
  "propagate_next t =
     rbind (vec_at (ck_trail t) (next_to_propagate t)) (\<lambda>lit.
     let t = t\<lparr>next_to_propagate := next_to_propagate t + 1\<rparr> in
     rbind (watcher (- lit) t) (\<lambda>ws.
     rbind (visit_watches (- lit) ws [] t) (\<lambda>(res, ws, t).
     rbind (put_watcher (- lit) ws t) (\<lambda>t. Ok (res, t)))))"

definition propagate :: "Checker \<Rightarrow> (bool \<times> Checker) result" where
  "propagate t =
     rwhile (\<lambda>(res, t). res \<and> next_to_propagate t < length (ck_trail t)) (\<lambda>(res, t). propagate_next t) (True, t)"

definition ck_check :: "Checker \<Rightarrow> (bool \<times> Checker) result" where
  "ck_check t =
     (if inconsistent t then Ok (True, t)
      else let previously_propagated = next_to_propagate t in
        rbind (rfold (\<lambda>lit. assume_lit (- lit)) (simplified t) t) (\<lambda>t.
        rbind (propagate t) (\<lambda>(res, t).
        rbind (ck_backtrack previously_propagated t) (\<lambda>t. Ok (\<not> res, t)))))"

section \<open>Storing clauses\<close>

text \<open>The literal at position \<open>i\<close> is exchanged with the first later one without a value, if it has one itself.\<close>

fun open_pos :: "Checker \<Rightarrow> int list \<Rightarrow> nat \<Rightarrow> nat result" where
  "open_pos t [] j = Ok j"
| "open_pos t (lit # lits) j = rbind (ck_val lit t) (\<lambda>v. if v \<noteq> 0 then open_pos t lits (j + 1) else Ok j)"

definition select_watch :: "Checker \<Rightarrow> nat \<Rightarrow> int list \<Rightarrow> int list result" where
  "select_watch t i lits =
     rbind (vec_at lits i) (\<lambda>lit. rbind (ck_val lit t) (\<lambda>v.
       if v = 0 then Ok lits
       else rbind (open_pos t (drop (i + 1) lits) (i + 1)) (\<lambda>j.
         Ok (if j < length lits then lits[i := lits ! j, j := lit] else lits))))"

definition ck_new_clause :: "Checker \<Rightarrow> (nat \<times> Checker) result" where
  "ck_new_clause t =
     (let a = fresh t; size = length (simplified t) in
      rbind (rfold (select_watch t) [0, 1] (simplified t)) (\<lambda>lits.
      let t = t\<lparr>memory := (memory t)(a \<mapsto> \<lparr>c_hash = compute_hash (ck_last_id t), c_size = size, c_lits = lits\<rparr>),
                fresh := a + 1, ck_num_clauses := ck_num_clauses t + 1\<rparr> in
      rbind (push_watch (lits ! 0) \<lparr>w_blit = lits ! 1, w_size = size, w_clause = a\<rparr> t) (\<lambda>t.
      rbind (push_watch (lits ! 1) \<lparr>w_blit = lits ! 0, w_size = size, w_clause = a\<rparr> t) (\<lambda>t. Ok (a, t)))))"

definition push_chain :: "nat \<Rightarrow> nat \<Rightarrow> nat list list \<Rightarrow> nat list list result" where
  "push_chain h a s = rbind (vec_at s h) (\<lambda>chain. vec_set s h (a # chain))"

definition ck_enlarge_clauses :: "Checker \<Rightarrow> Checker result" where
  "ck_enlarge_clauses t =
     (let sz = length (chains t); new_size = (if sz = 0 then 1 else 2 * sz) in
      rbind (rfold (rfold (\<lambda>a s. rbind (clause_at a t) (\<lambda>c.
               rbind (reduce_hash (c_hash c) new_size) (\<lambda>h. push_chain h a s))))
             (chains t) (replicate new_size [])) (\<lambda>s. Ok (t\<lparr>chains := s\<rparr>)))"

definition ck_insert :: "Checker \<Rightarrow> Checker result" where
  "ck_insert t =
     rbind (if ck_num_clauses t = length (chains t) then ck_enlarge_clauses t else Ok t) (\<lambda>t.
     rbind (reduce_hash (compute_hash (ck_last_id t)) (length (chains t))) (\<lambda>h.
     rbind (ck_new_clause t) (\<lambda>(a, t).
     rbind (push_chain h a (chains t)) (\<lambda>s. Ok (t\<lparr>chains := s\<rparr>)))))"

text \<open>The loop of \<open>add_clause\<close>: 0 if all literals are false, \<open>INT_MIN\<close> if several are not, else the one that is not.\<close>

fun open_literal :: "Checker \<Rightarrow> int list \<Rightarrow> int \<Rightarrow> int result" where
  "open_literal t [] unit = Ok unit"
| "open_literal t (lit # lits) unit =
     rbind (ck_val lit t) (\<lambda>tmp.
       if tmp < 0 then open_literal t lits unit
       else if unit \<noteq> 0 then Ok INT_MIN else open_literal t lits lit)"

definition ck_add_clause :: "Checker \<Rightarrow> Checker result" where
  "ck_add_clause t =
     rbind (open_literal t (simplified t) 0) (\<lambda>unit.
     let t = (if simplified t = [] then t\<lparr>inconsistent := True\<rparr> else t) in
     if unit = 0 then Ok (t\<lparr>inconsistent := True\<rparr>)
     else if unit \<noteq> INT_MIN
     then rbind (assign unit t) (\<lambda>t. rbind (propagate t) (\<lambda>(res, t).
            Ok (if \<not> res then t\<lparr>inconsistent := True\<rparr> else t)))
     else ck_insert t)"

section \<open>Deleting clauses\<close>

fun clause_satisfied :: "Checker \<Rightarrow> int list \<Rightarrow> bool result" where
  "clause_satisfied t [] = Ok False"
| "clause_satisfied t (lit # lits) =
     rbind (ck_val lit t) (\<lambda>v. if v > 0 then Ok True else clause_satisfied t lits)"

text \<open>Satisfied clauses of a chain become garbage; the result has the remaining chain.\<close>

fun sweep_chain :: "nat list \<Rightarrow> nat list \<Rightarrow> Checker \<Rightarrow> (nat list \<times> Checker) result" where
  "sweep_chain [] rest t = Ok (rest, t)"
| "sweep_chain (a # as) rest t =
     rbind (clause_at a t) (\<lambda>c. rbind (clause_satisfied t (take (c_size c) (c_lits c))) (\<lambda>sat.
       if sat
       then sweep_chain as rest ((put_clause a (c\<lparr>c_size := 0\<rparr>) t)
              \<lparr>ck_garbage := a # ck_garbage t, ck_num_garbage := ck_num_garbage t + 1, ck_num_clauses := ck_num_clauses t - 1\<rparr>)
       else sweep_chain as (rest @ [a]) t))"

definition sweep_slot :: "nat \<Rightarrow> Checker \<Rightarrow> Checker result" where
  "sweep_slot i t =
     rbind (vec_at (chains t) i) (\<lambda>chain.
     rbind (sweep_chain chain [] t) (\<lambda>(rest, t). Ok (t\<lparr>chains := (chains t)[i := rest]\<rparr>)))"

fun live_watches :: "Checker \<Rightarrow> CheckerWatch list \<Rightarrow> CheckerWatch list result" where
  "live_watches t [] = Ok []"
| "live_watches t (w # ws) =
     rbind (clause_at (w_clause w) t) (\<lambda>c.
     rbind (live_watches t ws) (\<lambda>rest. Ok (if c_size c \<noteq> 0 then w # rest else rest)))"

definition flush_watcher :: "int \<Rightarrow> Checker \<Rightarrow> Checker result" where
  "flush_watcher lit t =
     (if lit = 0 then Ok t
      else rbind (watcher lit t) (\<lambda>ws. rbind (live_watches t ws) (\<lambda>ws. put_watcher lit ws t)))"

definition ck_free_clause :: "nat \<Rightarrow> Checker \<Rightarrow> Checker result" where
  "ck_free_clause a t =
     rbind (clause_at a t) (\<lambda>c.
     let t = (if c_size c \<noteq> 0 then t\<lparr>ck_num_clauses := ck_num_clauses t - 1\<rparr>
              else t\<lparr>ck_num_garbage := ck_num_garbage t - 1\<rparr>) in
     Ok (t\<lparr>memory := (memory t)(a := None)\<rparr>))"

definition ck_collect_garbage :: "Checker \<Rightarrow> Checker result" where
  "ck_collect_garbage t =
     rbind (rfold sweep_slot [0..<length (chains t)] t) (\<lambda>t.
     rbind (rfold flush_watcher [- ck_size_vars t + 1..ck_size_vars t - 1] t) (\<lambda>t.
     rbind (rfold ck_free_clause (ck_garbage t) t) (\<lambda>t. Ok (t\<lparr>ck_garbage := []\<rparr>))))"

fun all_lits_marked :: "bool list \<Rightarrow> int list \<Rightarrow> bool result" where
  "all_lits_marked bits [] = Ok True"
| "all_lits_marked bits (lit # lits) =
     rbind (lit_at bits lit) (\<lambda>b. if b then all_lits_marked bits lits else Ok False)"

fun match_pos :: "Checker \<Rightarrow> bool list \<Rightarrow> nat list \<Rightarrow> nat result" where
  "match_pos t bits [] = Ok 0"
| "match_pos t bits (a # as) =
     rbind (clause_at a t) (\<lambda>c.
     rbind (if c_hash c = compute_hash (ck_last_id t) \<and> c_size c = length (simplified t)
            then all_lits_marked bits (c_lits c) else Ok False) (\<lambda>found.
       if found then Ok 0 else rbind (match_pos t bits as) (\<lambda>n. Ok (n + 1))))"

definition ck_find :: "Checker \<Rightarrow> ((nat \<times> nat) \<times> Checker) result" where
  "ck_find t =
     rbind (reduce_hash (compute_hash (ck_last_id t)) (length (chains t))) (\<lambda>h.
     rbind (rfold (\<lambda>lit. lit_set lit True) (simplified t) (ck_marks t)) (\<lambda>bits.
     rbind (vec_at (chains t) h) (\<lambda>chain.
     rbind (match_pos t bits chain) (\<lambda>n.
     rbind (rfold (\<lambda>lit. lit_set lit False) (simplified t) bits) (\<lambda>bits.
       Ok ((h, n), t\<lparr>ck_marks := bits\<rparr>))))))"

text \<open>Unlinking the clause at a position of a chain and marking it as garbage.\<close>

definition ck_unlink :: "nat \<times> nat \<Rightarrow> Checker \<Rightarrow> Checker result" where
  "ck_unlink p t =
     (let chain = chains t ! fst p; a = chain ! snd p in
      rbind (clause_at a t) (\<lambda>c.
        Ok ((put_clause a (c\<lparr>c_size := 0\<rparr>) t)
          \<lparr>ck_num_garbage := ck_num_garbage t + 1, ck_num_clauses := ck_num_clauses t - 1,
           chains := (chains t)[fst p := take (snd p) chain @ drop (Suc (snd p)) chain], ck_garbage := a # ck_garbage t\<rparr>)))"

section \<open>The calls\<close>

definition clear_simplified :: "Checker \<Rightarrow> Checker" where
  "clear_simplified t = t\<lparr>simplified := []\<rparr>"

definition ck_add_original_clause :: "nat \<Rightarrow> int list \<Rightarrow> Checker \<Rightarrow> Checker result" where
  "ck_add_original_clause i c t =
     (if inconsistent t then Ok t
      else rbind (ck_import_clause c t) (\<lambda>t.
           rbind (ck_tautological (t\<lparr>ck_last_id := i\<rparr>)) (\<lambda>(taut, t).
           rbind (if taut then Ok t else ck_add_clause t) (\<lambda>t. Ok (clear_simplified t)))))"

definition check_and_add :: "Checker \<Rightarrow> Checker result" where
  "check_and_add t = rbind (ck_check t) (\<lambda>(ok, t). if \<not> ok then Fault Aborted else ck_add_clause t)"

definition ck_add_derived_clause :: "nat \<Rightarrow> int list \<Rightarrow> Checker \<Rightarrow> Checker result" where
  "ck_add_derived_clause i c t =
     (if inconsistent t then Ok t
      else rbind (ck_import_clause c t) (\<lambda>t.
           rbind (ck_tautological (t\<lparr>ck_last_id := i\<rparr>)) (\<lambda>(taut, t).
           rbind (if taut then Ok t else check_and_add t) (\<lambda>t. Ok (clear_simplified t)))))"

definition find_and_unlink :: "Checker \<Rightarrow> Checker result" where
  "find_and_unlink t =
     rbind (ck_find t) (\<lambda>(p, t).
       if snd p < length (chains t ! fst p)
       then rbind (ck_unlink p t) (\<lambda>t.
              if 2 * int (ck_num_garbage t) > max (int (length (chains t))) (ck_size_vars t)
              then ck_collect_garbage t else Ok t)
       else Fault Aborted)"

definition ck_delete_clause :: "nat \<Rightarrow> int list \<Rightarrow> Checker \<Rightarrow> Checker result" where
  "ck_delete_clause i c t =
     (if inconsistent t then Ok t
      else rbind (ck_import_clause c t) (\<lambda>t.
           rbind (ck_tautological (t\<lparr>ck_last_id := i\<rparr>)) (\<lambda>(taut, t).
           rbind (if taut then Ok t else find_and_unlink t) (\<lambda>t. Ok (clear_simplified t)))))"

definition ck_add_assumption_clause :: "nat \<Rightarrow> int list \<Rightarrow> Checker \<Rightarrow> Checker result" where
  "ck_add_assumption_clause i c t = rbind (ck_add_derived_clause i c t) (ck_delete_clause i c)"

definition ck_dump :: "Checker \<Rightarrow> string result" where
  "ck_dump t =
     rbind (rfold (\<lambda>a cs. rbind (clause_at a t) (\<lambda>c. Ok (cs @ [take (c_size c) (c_lits c)]))) (concat (chains t)) []) (\<lambda>cs.
     let max_var = fold (fold (\<lambda>lit m. if \<bar>lit\<bar> > m then \<bar>lit\<bar> else m)) cs 0;
         show_lit = (\<lambda>lit. (if lit < 0 then ''-'' @ show_nat (nat (- lit)) else show_nat (nat lit)) @ '' '')
     in Ok (''p cnf '' @ show_nat (nat max_var) @ '' '' @ show_nat (ck_num_clauses t) @ ''\<newline>'' @
            concat (map (\<lambda>c. concat (map show_lit c) @ ''0\<newline>'') cs)))"

end
