(* ===== verification/Drup_Watches.thy ===== *)
theory Drup_Watches
  imports Drup_Checker
begin

text \<open>
  The invariants of the propagation of the DRUP checker: the values agree with the trail, and the watch
  lists with the clauses (\<open>winv\<close>). \<open>visited\<close> lists the outcomes of looking at one watch; each property of propagation
  is shown for it by cases and lifted to the loops.
\<close>

section \<open>Values and tables\<close>

definition lit_in :: "Checker \<Rightarrow> int \<Rightarrow> bool" where
  "lit_in t l \<longleftrightarrow> l \<noteq> 0 \<and> \<bar>l\<bar> < ck_size_vars t"

definition tval :: "int list \<Rightarrow> int \<Rightarrow> int" where
  "tval tr l = (if l \<in> set tr then 1 else if - l \<in> set tr then - 1 else 0)"

definition trail_inv :: "Checker \<Rightarrow> bool" where
  "trail_inv t \<longleftrightarrow> 0 \<le> ck_size_vars t \<and> ck_size_vars t \<le> 2 ^ 30 \<and>
     length (ck_vals t) = nat (2 * ck_size_vars t) \<and> length (watchers t) = nat (2 * ck_size_vars t) \<and>
     ck_marks t = replicate (nat (2 * ck_size_vars t)) False \<and>
     (\<forall>l. l \<noteq> 0 \<longrightarrow> - ck_size_vars t \<le> l \<longrightarrow> l < ck_size_vars t \<longrightarrow> ck_vals t ! nat (ck_size_vars t + l) = tval (ck_trail t) l) \<and>
     (\<forall>l \<in> set (ck_trail t). lit_in t l \<and> - l \<notin> set (ck_trail t)) \<and> distinct (ck_trail t)"

definition lit_index :: "int \<Rightarrow> nat" where
  "lit_index l = 2 * nat (\<bar>l\<bar> - 1) + (if l < 0 then 1 else 0)"

lemma lit_in_neg [simp]: "lit_in t (- l) \<longleftrightarrow> lit_in t l"
  by (simp add: lit_in_def)

lemma lit_in_nonzero: "lit_in t l \<Longrightarrow> l \<noteq> 0"
  by (simp add: lit_in_def)

lemma trail_invD:
  assumes "trail_inv t"
  shows "0 \<le> ck_size_vars t" "ck_size_vars t \<le> 2 ^ 30" "length (ck_vals t) = nat (2 * ck_size_vars t)"
    "length (watchers t) = nat (2 * ck_size_vars t)" "ck_marks t = replicate (nat (2 * ck_size_vars t)) False"
    "\<And>l. l \<noteq> 0 \<Longrightarrow> - ck_size_vars t \<le> l \<Longrightarrow> l < ck_size_vars t \<Longrightarrow> ck_vals t ! nat (ck_size_vars t + l) = tval (ck_trail t) l"
    "\<And>l. l \<in> set (ck_trail t) \<Longrightarrow> lit_in t l" "\<And>l. l \<in> set (ck_trail t) \<Longrightarrow> - l \<notin> set (ck_trail t)"
    "distinct (ck_trail t)"
  using assms unfolding trail_inv_def by blast+

lemma lit_index_inj: "l \<noteq> 0 \<Longrightarrow> m \<noteq> 0 \<Longrightarrow> lit_index l = lit_index m \<longleftrightarrow> l = m"
proof -
  assume nz: "l \<noteq> 0" "m \<noteq> 0"
  have "i = j \<and> p = q" if "2 * i + (if p then 1 else 0) = 2 * j + (if q then 1 else 0 :: nat)" for i j p q
    using that by (cases p; cases q; simp; presburger)
  then have "nat (\<bar>l\<bar> - 1) = nat (\<bar>m\<bar> - 1) \<and> (l < 0) = (m < 0)" if "lit_index l = lit_index m"
    using that unfolding lit_index_def by blast
  moreover have "nat (\<bar>l\<bar> - 1) = nat (\<bar>m\<bar> - 1) \<longleftrightarrow> \<bar>l\<bar> = \<bar>m\<bar>" using nz by arith
  ultimately show ?thesis by (auto simp: abs_if split: if_splits)
qed

lemma l2u_in:
  assumes "lit_in t l" "ck_size_vars t \<le> 2 ^ 30"
  shows "l2u l = Ok (lit_index l)" "lit_index l < nat (2 * ck_size_vars t)"
proof -
  have b: "0 < \<bar>l\<bar>" "\<bar>l\<bar> < ck_size_vars t" using assms(1) by (auto simp: lit_in_def)
  have n: "nat (2 * (\<bar>l\<bar> - 1)) = 2 * nat (\<bar>l\<bar> - 1)" by (subst nat_mult_distrib) simp_all
  have "u32 (2 * (\<bar>l\<bar> - 1)) = nat (2 * (\<bar>l\<bar> - 1))" using b assms(2) by (simp add: u32_def)
  then have u: "u32 (2 * (\<bar>l\<bar> - 1)) = 2 * nat (\<bar>l\<bar> - 1)" using n by simp
  have "l \<noteq> INT_MIN" "\<not> 2 * (\<bar>l\<bar> - 1) > INT_MAX" using b assms(2) by (auto simp: INT_MIN_def INT_MAX_def)
  then show "l2u l = Ok (lit_index l)" unfolding l2u_def Let_def u lit_index_def by simp
  have "2 * nat (\<bar>l\<bar> - 1) + 1 < nat (2 * ck_size_vars t)" using b by arith
  then show "lit_index l < nat (2 * ck_size_vars t)" by (cases "l < 0") (simp_all add: lit_index_def)
qed

lemma val_index_in:
  assumes "lit_in t l"
  shows "val_index l t = Ok (nat (ck_size_vars t + l))" "nat (ck_size_vars t + l) < nat (2 * ck_size_vars t)"
  using assms by (auto simp: lit_in_def val_index_def)

lemma ck_val_ok [ok_simps]: "trail_inv t \<Longrightarrow> lit_in t l \<Longrightarrow> ck_val l t = Ok (tval (ck_trail t) l)"
  using val_index_in [of t l] trail_invD(3) [of t] trail_invD(6) [of t l] by (auto simp: ck_val_def lit_in_def)

lemma tval_pos [simp]: "tval tr l > 0 \<longleftrightarrow> l \<in> set tr"
  by (simp add: tval_def)

lemma tval_neg: "l \<notin> set tr \<Longrightarrow> tval tr l < 0 \<longleftrightarrow> - l \<in> set tr"
  by (simp add: tval_def)

lemma tval_zero: "tval tr l = 0 \<longleftrightarrow> l \<notin> set tr \<and> - l \<notin> set tr"
  by (simp add: tval_def)

lemma put_val_ok:
  assumes "trail_inv t" "lit_in t l"
  shows "put_val l v t = Ok (t\<lparr>ck_vals := (ck_vals t)[nat (ck_size_vars t + l) := v]\<rparr>)"
  using val_index_in [OF assms(2)] trail_invD(3) [OF assms(1)] by (simp add: put_val_def)

text \<open>Writing the values of both literals of a variable.\<close>

definition set_vals :: "int \<Rightarrow> int \<Rightarrow> Checker \<Rightarrow> int list" where
  "set_vals l v t = (ck_vals t)[nat (ck_size_vars t + l) := v, nat (ck_size_vars t - l) := - v]"

lemma set_vals_nth:
  assumes "trail_inv t" "lit_in t l" "m \<noteq> 0" "- ck_size_vars t \<le> m" "m < ck_size_vars t"
  shows "set_vals l v t ! nat (ck_size_vars t + m) =
    (if m = l then v else if m = - l then - v else tval (ck_trail t) m)"
proof -
  have n: "nat (ck_size_vars t + m) = nat (ck_size_vars t + k) \<longleftrightarrow> m = k" if "lit_in t k" for k
    using assms(4) that by (auto simp: lit_in_def)
  have b: "nat (ck_size_vars t + m) < length (ck_vals t)"
    using assms(3-5) trail_invD(3) [OF assms(1)] by auto
  have "l \<noteq> - l" using assms(2) by (simp add: lit_in_def)
  then show ?thesis
    using n [OF assms(2)] n [of "- l"] assms trail_invD(6) [OF assms(1,3-5)] b
    by (auto simp: set_vals_def nth_list_update)
qed

lemma put_both:
  assumes "trail_inv t" "lit_in t l"
  shows "rbind (put_val l v t) (put_val (- l) (- v)) = Ok (t\<lparr>ck_vals := set_vals l v t\<rparr>)"
  using val_index_in [OF assms(2)] val_index_in [of t "- l"] trail_invD(3) [OF assms(1)] assms(2)
  by (simp add: put_val_def val_index_def set_vals_def split: if_splits)

lemma trail_inv_update:
  assumes "trail_inv t" "vs = set_vals l v t" "lit_in t l"
    "\<And>m. lit_in t m \<Longrightarrow> tval tr m = (if m = l then v else if m = - l then - v else tval (ck_trail t) m)"
    "\<forall>m \<in> set tr. lit_in t m \<and> - m \<notin> set tr" "distinct tr"
  shows "trail_inv (t\<lparr>ck_vals := vs, ck_trail := tr\<rparr>)"
proof -
  have "vs ! nat (ck_size_vars t + m) = tval tr m" if m: "m \<noteq> 0" "- ck_size_vars t \<le> m" "m < ck_size_vars t" for m
  proof (cases "lit_in t m")
    case True
    then show ?thesis using set_vals_nth [OF assms(1,3) m] assms(2) assms(4) [of m] by simp
  next
    case False
    then have "m \<noteq> l" "m \<noteq> - l" "tval tr m = 0" "tval (ck_trail t) m = 0"
      using assms(3,5) trail_invD(7) [OF assms(1), of m] trail_invD(7) [OF assms(1), of "- m"]
        bspec [OF assms(5), of m] bspec [OF assms(5), of "- m"] by (auto simp: tval_zero)
    then show ?thesis using set_vals_nth [OF assms(1,3) m] assms(2) by simp
  qed
  then show ?thesis
    using assms(1,2,5,6) by (simp add: trail_inv_def lit_in_def set_vals_def)
qed

definition assigned :: "int \<Rightarrow> Checker \<Rightarrow> Checker" where
  "assigned l t = t\<lparr>ck_vals := set_vals l 1 t, ck_trail := ck_trail t @ [l]\<rparr>"

lemma assign_ok:
  assumes "trail_inv t" "lit_in t l" "tval (ck_trail t) l = 0"
  shows "assign l t = Ok (assigned l t)" "trail_inv (assigned l t)"
proof -
  have "assign l t = rbind (rbind (put_val l 1 t) (put_val (- l) (- 1))) (\<lambda>t. Ok (t\<lparr>ck_trail := ck_trail t @ [l]\<rparr>))"
    by (simp add: assign_def rbind_assoc)
  then show "assign l t = Ok (assigned l t)" unfolding put_both [OF assms(1,2)] by (simp add: assigned_def)
  show "trail_inv (assigned l t)"
    unfolding assigned_def
    by (rule trail_inv_update [OF assms(1) refl assms(2)])
      (use assms(2,3) trail_invD(7-9) [OF assms(1)] in
        \<open>auto simp: tval_def lit_in_def minus_equation_iff split: if_splits\<close>)
qed

lemma pop_trail_ok:
  assumes "trail_inv t" "ck_trail t = tr @ [l]"
  shows "\<exists>u. pop_trail t = Ok u \<and> trail_inv u \<and> u = t\<lparr>ck_vals := ck_vals u, ck_trail := tr\<rparr>"
proof -
  have l: "lit_in t l" "- l \<notin> set tr" "l \<notin> set tr" "distinct tr"
    using trail_invD(7-9) [OF assms(1)] assms(2) by (auto dest: spec [of _ l])
  have "pop_trail t = rbind (rbind (put_val l 0 t) (put_val (- l) (- 0))) (\<lambda>t. Ok (t\<lparr>ck_trail := butlast (ck_trail t)\<rparr>))"
    by (simp add: pop_trail_def rbind_assoc assms(2))
  then have "pop_trail t = Ok (t\<lparr>ck_vals := set_vals l 0 t, ck_trail := tr\<rparr>)"
    unfolding put_both [OF assms(1) l(1)] by (simp add: assms(2))
  moreover have "trail_inv (t\<lparr>ck_vals := set_vals l 0 t, ck_trail := tr\<rparr>)"
    by (rule trail_inv_update [OF assms(1) refl l(1)])
      (use l trail_invD(7,8) [OF assms(1)] assms(2) in \<open>auto simp: tval_def lit_in_def split: if_splits\<close>)
  ultimately show ?thesis by auto
qed

lemma length_trail:
  assumes "trail_inv t"
  shows "length (ck_trail t) \<le> nat (ck_size_vars t)"
proof -
  have "inj_on (\<lambda>l. nat \<bar>l\<bar>) (set (ck_trail t))"
  proof (rule inj_onI)
    fix l m assume lm: "l \<in> set (ck_trail t)" "m \<in> set (ck_trail t)" "nat \<bar>l\<bar> = nat \<bar>m\<bar>"
    then have "l = m \<or> l = - m" by arith
    then show "l = m" using trail_invD(8) [OF assms lm(2)] lm(1) by auto
  qed
  then have "card ((\<lambda>l. nat \<bar>l\<bar>) ` set (ck_trail t)) = length (ck_trail t)"
    using trail_invD(9) [OF assms] by (simp add: card_image distinct_card)
  moreover have "(\<lambda>l. nat \<bar>l\<bar>) ` set (ck_trail t) \<subseteq> {..<nat (ck_size_vars t)}"
  proof clarify
    fix l assume "l \<in> set (ck_trail t)"
    then have "\<bar>l\<bar> < ck_size_vars t" using trail_invD(7) [OF assms] by (simp add: lit_in_def)
    then show "nat \<bar>l\<bar> < nat (ck_size_vars t)" by arith
  qed
  ultimately show ?thesis by (metis card_lessThan card_mono finite_lessThan)
qed

section \<open>Watch lists\<close>

text \<open>The last two lists belong to no variable; \<open>wl\<close> includes them, and the invariant makes them empty.\<close>

definition wl :: "Checker \<Rightarrow> int \<Rightarrow> CheckerWatch list" where
  "wl t l = (if l \<noteq> 0 \<and> \<bar>l\<bar> \<le> ck_size_vars t then watchers t ! lit_index l else [])"

definition set_wl :: "int \<Rightarrow> CheckerWatch list \<Rightarrow> Checker \<Rightarrow> Checker" where
  "set_wl l ws t = t\<lparr>watchers := (watchers t)[lit_index l := ws]\<rparr>"

lemma wl_cong [simp]:
  "wl (t\<lparr>ck_vals := vs\<rparr>) = wl t" "wl (t\<lparr>ck_trail := tr\<rparr>) = wl t" "wl (t\<lparr>memory := m\<rparr>) = wl t"
  "wl (t\<lparr>next_to_propagate := n\<rparr>) = wl t"
  by (simp_all add: fun_eq_iff wl_def lit_in_def)

lemma lit_in_cong [simp]:
  "lit_in (t\<lparr>ck_vals := vs\<rparr>) = lit_in t" "lit_in (t\<lparr>ck_trail := tr\<rparr>) = lit_in t"
  "lit_in (t\<lparr>memory := m\<rparr>) = lit_in t" "lit_in (t\<lparr>next_to_propagate := n\<rparr>) = lit_in t"
  "lit_in (set_wl l ws t) = lit_in t"
  by (simp_all add: fun_eq_iff lit_in_def set_wl_def)

lemma wl_set_wl [simp]:
  assumes "trail_inv t" "lit_in t l"
  shows "wl (set_wl l ws t) = (wl t)(l := ws)"
proof
  fix m
  have n: "m \<noteq> 0 \<Longrightarrow> lit_index m = lit_index l \<longleftrightarrow> m = l"
    using lit_index_inj lit_in_nonzero assms(2) by blast
  have b: "lit_index l < length (watchers t)"
    using l2u_in(2) [OF assms(2)] trail_invD(2,4) [OF assms(1)] by simp
  show "wl (set_wl l ws t) m = ((wl t)(l := ws)) m"
    using n b assms(2) by (auto simp: wl_def set_wl_def lit_in_def nth_list_update)
qed

lemma trail_inv_frame [simp]:
  "trail_inv (t\<lparr>memory := m\<rparr>) = trail_inv t" "trail_inv (t\<lparr>next_to_propagate := n\<rparr>) = trail_inv t"
  "trail_inv (set_wl l ws t) = trail_inv t"
  by (simp_all add: trail_inv_def lit_in_def set_wl_def)

lemma watcher_ok [ok_simps]:
  "trail_inv t \<Longrightarrow> lit_in t l \<Longrightarrow> watcher l t = Ok (wl t l)"
  "trail_inv t \<Longrightarrow> lit_in t l \<Longrightarrow> put_watcher l ws t = Ok (set_wl l ws t)"
  "trail_inv t \<Longrightarrow> lit_in t l \<Longrightarrow> push_watch l w t = Ok (set_wl l (wl t l @ [w]) t)"
  using l2u_in [of t l] trail_invD(2,4) [of t]
  by (auto simp: watcher_def put_watcher_def push_watch_def wl_def set_wl_def lit_in_def)

section \<open>Clauses and watches\<close>

definition clause_wf :: "(int \<Rightarrow> bool) \<Rightarrow> CheckerClause \<Rightarrow> bool" where
  "clause_wf R c \<longleftrightarrow> distinct (c_lits c) \<and> 2 \<le> length (c_lits c) \<and> (\<forall>l \<in> set (c_lits c). R l) \<and>
     (c_size c \<noteq> 0 \<longrightarrow> c_size c = length (c_lits c))"

definition watch_ok :: "(nat \<rightharpoonup> CheckerClause) \<Rightarrow> int \<Rightarrow> CheckerWatch \<Rightarrow> bool" where
  "watch_ok mem l w \<longleftrightarrow> (\<exists>c. mem (w_clause w) = Some c \<and> w_size w = length (c_lits c) \<and>
     w_blit w \<in> set (c_lits c) \<and> w_blit w \<noteq> l \<and> l \<in> set (c_lits c) \<and>
     (c_size c \<noteq> 0 \<longrightarrow> l = c_lits c ! 0 \<or> l = c_lits c ! 1))"

text \<open>Each watch belongs to a clause that watches the literal, and each stored clause has its two watches.\<close>

definition winv :: "(int \<Rightarrow> bool) \<Rightarrow> (nat \<rightharpoonup> CheckerClause) \<Rightarrow> (int \<Rightarrow> CheckerWatch list) \<Rightarrow> bool" where
  "winv R mem W \<longleftrightarrow> (\<forall>a c. mem a = Some c \<longrightarrow> clause_wf R c) \<and>
     (\<forall>l. (\<forall>w \<in> set (W l). watch_ok mem l w) \<and> distinct (map w_clause (W l))) \<and>
     (\<forall>a c. mem a = Some c \<longrightarrow> c_size c \<noteq> 0 \<longrightarrow> (\<forall>i < 2. a \<in> w_clause ` set (W (c_lits c ! i))))"

definition other_lit :: "CheckerClause \<Rightarrow> int \<Rightarrow> int" where
  "other_lit c l = (if l = c_lits c ! 0 then c_lits c ! 1 else c_lits c ! 0)"

text \<open>The literals with the two watches in front, in the order propagation gives them.\<close>

definition front_lits :: "CheckerClause \<Rightarrow> int \<Rightarrow> int list" where
  "front_lits c l = (c_lits c)[0 := other_lit c l, 1 := l]"

lemma winvD:
  assumes "winv R mem W"
  shows "mem a = Some c \<Longrightarrow> clause_wf R c" "w \<in> set (W l) \<Longrightarrow> watch_ok mem l w" "distinct (map w_clause (W l))"
    "mem a = Some c \<Longrightarrow> c_size c \<noteq> 0 \<Longrightarrow> i < 2 \<Longrightarrow> a \<in> w_clause ` set (W (c_lits c ! i))"
  using assms unfolding winv_def by blast+

lemma clause_wfD:
  assumes "clause_wf R c"
  shows "distinct (c_lits c)" "2 \<le> length (c_lits c)" "l \<in> set (c_lits c) \<Longrightarrow> R l" "c_size c \<noteq> 0 \<Longrightarrow> c_size c = length (c_lits c)"
  using assms unfolding clause_wf_def by blast+

lemma two_lits:
  assumes "2 \<le> length xs"
  obtains x y ys where "xs = x # y # ys"
  using assms by (cases xs; cases "tl xs") auto

lemma front_lits_facts:
  assumes "clause_wf R c" "l = c_lits c ! 0 \<or> l = c_lits c ! 1"
  shows "mset (front_lits c l) = mset (c_lits c)" "length (front_lits c l) = length (c_lits c)"
    "front_lits c l ! 0 = other_lit c l" "front_lits c l ! 1 = l" "drop 2 (front_lits c l) = drop 2 (c_lits c)"
    "other_lit c l \<in> set (c_lits c)" "other_lit c l \<noteq> l"
    "c_lits c ! 0 XOR c_lits c ! 1 XOR l = other_lit c l"
proof -
  obtain x y ys where c: "c_lits c = x # y # ys" by (rule two_lits [OF clause_wfD(2) [OF assms(1)]])
  have "x \<noteq> y" using clause_wfD(1) [OF assms(1)] c by simp
  have "x XOR y XOR y = x" "x XOR y XOR x = y" by (rule bit_eqI, auto simp: bit_xor_iff)+
  then show "mset (front_lits c l) = mset (c_lits c)" "length (front_lits c l) = length (c_lits c)"
    "front_lits c l ! 0 = other_lit c l" "front_lits c l ! 1 = l" "drop 2 (front_lits c l) = drop 2 (c_lits c)"
    "other_lit c l \<in> set (c_lits c)" "other_lit c l \<noteq> l" "c_lits c ! 0 XOR c_lits c ! 1 XOR l = other_lit c l"
    using assms(2) \<open>x \<noteq> y\<close> by (auto simp: front_lits_def other_lit_def c)
qed

section \<open>Visiting a watch\<close>

lemma replacement_pos_ok:
  assumes "trail_inv t" "\<forall>l \<in> set lits. lit_in t l"
  shows "\<exists>k. replacement_pos t lits n = Ok (n + k) \<and> k \<le> length lits \<and>
    (\<forall>j < k. - (lits ! j) \<in> set (ck_trail t)) \<and> (k < length lits \<longrightarrow> - (lits ! k) \<notin> set (ck_trail t))"
  using assms(2)
proof (induction lits arbitrary: n)
  case (Cons l lits)
  have v: "tval (ck_trail t) l \<ge> 0 \<longleftrightarrow> - l \<notin> set (ck_trail t)"
    using trail_invD(8) [OF assms(1), of l] by (auto simp: tval_def)
  show ?case
  proof (cases "- l \<in> set (ck_trail t)")
    case True
    obtain k where k: "replacement_pos t lits (n + 1) = Ok (n + 1 + k)" "k \<le> length lits"
      "\<forall>j < k. - (lits ! j) \<in> set (ck_trail t)" "k < length lits \<longrightarrow> - (lits ! k) \<notin> set (ck_trail t)"
      using Cons.IH [of "n + 1"] Cons.prems by auto
    have "\<forall>j < Suc k. - ((l # lits) ! j) \<in> set (ck_trail t)" using k(3) True by (auto simp: nth_Cons split: nat.splits)
    then show ?thesis
      using k v True Cons.prems assms(1) by (intro exI [of _ "Suc k"]) (simp add: ck_val_ok)
  next
    case False
    then show ?thesis using v Cons.prems assms(1) by (intro exI [of _ 0]) (simp add: ck_val_ok)
  qed
qed simp

text \<open>The outcomes of looking at the watch \<open>w\<close> of the false literal \<open>l\<close>: result, kept watches and new state.\<close>

inductive visited :: "int \<Rightarrow> CheckerWatch \<Rightarrow> Checker \<Rightarrow> bool \<Rightarrow> CheckerWatch list \<Rightarrow> Checker \<Rightarrow> bool" for l w t where
  sat_blit: "w_blit w \<in> set (ck_trail t) \<Longrightarrow> visited l w t True [w] t"
| false_binary: "w_size w = 2 \<Longrightarrow> - w_blit w \<in> set (ck_trail t) \<Longrightarrow> visited l w t False [w] t"
| unit_binary: "w_size w = 2 \<Longrightarrow> tval (ck_trail t) (w_blit w) = 0 \<Longrightarrow> visited l w t True [w] (assigned (w_blit w) t)"
| skip_garbage: "memory t (w_clause w) = Some c \<Longrightarrow> c_size c = 0 \<Longrightarrow> visited l w t True [] t"
| sat_other: "memory t (w_clause w) = Some c \<Longrightarrow> c_size c \<noteq> 0 \<Longrightarrow> other_lit c l \<in> set (ck_trail t) \<Longrightarrow>
    visited l w t True [w\<lparr>w_blit := other_lit c l\<rparr>] t"
| replaced: "memory t (w_clause w) = Some c \<Longrightarrow> c_size c \<noteq> 0 \<Longrightarrow> 2 \<le> k \<Longrightarrow> k < length (c_lits c) \<Longrightarrow>
    - (c_lits c ! k) \<notin> set (ck_trail t) \<Longrightarrow>
    visited l w t True [] (put_clause (w_clause w) (c\<lparr>c_lits := (front_lits c l)[1 := c_lits c ! k, k := l]\<rparr>)
      (set_wl (c_lits c ! k) (wl t (c_lits c ! k) @ [\<lparr>w_blit = l, w_size = c_size c, w_clause = w_clause w\<rparr>]) t))"
| unit_long: "memory t (w_clause w) = Some c \<Longrightarrow> c_size c \<noteq> 0 \<Longrightarrow>
    \<forall>m \<in> set (drop 2 (c_lits c)). - m \<in> set (ck_trail t) \<Longrightarrow> tval (ck_trail t) (other_lit c l) = 0 \<Longrightarrow>
    visited l w t True [w] (assigned (other_lit c l) (put_clause (w_clause w) (c\<lparr>c_lits := front_lits c l\<rparr>) t))"
| false_long: "memory t (w_clause w) = Some c \<Longrightarrow> c_size c \<noteq> 0 \<Longrightarrow>
    \<forall>m \<in> set (drop 2 (c_lits c)). - m \<in> set (ck_trail t) \<Longrightarrow> - other_lit c l \<in> set (ck_trail t) \<Longrightarrow>
    visited l w t False [w] (put_clause (w_clause w) (c\<lparr>c_lits := front_lits c l\<rparr>) t)"

lemma put_clause_frame [simp]:
  "lit_in (put_clause a c t) = lit_in t" "trail_inv (put_clause a c t) = trail_inv t" "wl (put_clause a c t) = wl t"
  "ck_trail (put_clause a c t) = ck_trail t" "memory (put_clause a c t) = (memory t)(a \<mapsto> c)"
  "next_to_propagate (put_clause a c t) = next_to_propagate t"
  by (simp_all add: put_clause_def)

lemma visit_long_ok:
  assumes "trail_inv t" "clause_wf (lit_in t) c" "c_size c \<noteq> 0" "l = c_lits c ! 0 \<or> l = c_lits c ! 1"
    "memory t (w_clause w) = Some c"
  shows "\<exists>res ks u. visit_long l w c t = Ok (res, ks, u) \<and> visited l w t res ks u"
proof -
  note f = front_lits_facts [OF assms(2,4)]
  let ?o = "other_lit c l"
  have o: "lit_in t ?o" using clause_wfD(3) [OF assms(2)] f(6) by blast
  show ?thesis
  proof (cases "?o \<in> set (ck_trail t)")
    case True
    then have "visit_long l w c t = Ok (True, [w\<lparr>w_blit := ?o\<rparr>], t)"
      unfolding visit_long_def f(8) Let_def using ck_val_ok [OF assms(1) o] by simp
    then show ?thesis using sat_other [where l = l, OF assms(5,3) True] by blast
  next
    case False
    have "\<forall>m \<in> set (drop 2 (c_lits c)). lit_in t m" using clause_wfD(3) [OF assms(2)] by (meson in_set_dropD)
    from replacement_pos_ok [OF assms(1) this, of 2]
    obtain k where k: "replacement_pos t (drop 2 (c_lits c)) 2 = Ok (2 + k)" "k \<le> length (c_lits c) - 2"
      "\<forall>j < k. - (drop 2 (c_lits c) ! j) \<in> set (ck_trail t)"
      "k < length (c_lits c) - 2 \<longrightarrow> - (drop 2 (c_lits c) ! k) \<notin> set (ck_trail t)" by auto
    have fl: "(c_lits c)[0 := ?o, 1 := l] = front_lits c l" by (simp add: front_lits_def)
    have start: "visit_long l w c t =
      (if 2 + k < length (front_lits c l)
       then rbind (push_watch (front_lits c l ! (2 + k)) \<lparr>w_blit = l, w_size = c_size c, w_clause = w_clause w\<rparr> t) (\<lambda>t.
              Ok (True, [], put_clause (w_clause w) (c\<lparr>c_lits := (front_lits c l)[1 := front_lits c l ! (2 + k), 2 + k := l]\<rparr>) t))
       else if tval (ck_trail t) ?o = 0
       then rbind (assign ?o (put_clause (w_clause w) (c\<lparr>c_lits := front_lits c l\<rparr>) t)) (\<lambda>t. Ok (True, [w], t))
       else Ok (False, [w], put_clause (w_clause w) (c\<lparr>c_lits := front_lits c l\<rparr>) t))"
      unfolding visit_long_def f(8) Let_def fl f(5) using False ck_val_ok [OF assms(1) o] k(1) by simp
    show ?thesis
    proof (cases "2 + k < length (c_lits c)")
      case True
      have n: "front_lits c l ! (2 + k) = c_lits c ! (2 + k)" by (simp add: front_lits_def)
      have "lit_in t (c_lits c ! (2 + k))" using clause_wfD(3) [OF assms(2)] True by simp
      then have "visit_long l w c t = Ok (True, [], put_clause (w_clause w)
          (c\<lparr>c_lits := (front_lits c l)[1 := c_lits c ! (2 + k), 2 + k := l]\<rparr>) (set_wl (c_lits c ! (2 + k))
          (wl t (c_lits c ! (2 + k)) @ [\<lparr>w_blit = l, w_size = c_size c, w_clause = w_clause w\<rparr>]) t))"
        unfolding start f(2) n using True assms(1) by (simp add: watcher_ok(3))
      moreover have "- (c_lits c ! (2 + k)) \<notin> set (ck_trail t)" using k(4) True by simp
      ultimately show ?thesis using replaced [where l = l, OF assms(5,3) _ True] by (metis le_add1)
    next
      case last: False
      then have "k = length (drop 2 (c_lits c))" using k(2) clause_wfD(2) [OF assms(2)] by simp
      then have all: "\<forall>m \<in> set (drop 2 (c_lits c)). - m \<in> set (ck_trail t)"
        using k(3) unfolding all_set_conv_all_nth by simp
      show ?thesis
      proof (cases "tval (ck_trail t) ?o = 0")
        case True
        then have "visit_long l w c t = Ok (True, [w], assigned ?o (put_clause (w_clause w) (c\<lparr>c_lits := front_lits c l\<rparr>) t))"
          using last o assign_ok [of "put_clause (w_clause w) (c\<lparr>c_lits := front_lits c l\<rparr>) t" ?o] assms(1)
          by (simp add: start f(2))
        then show ?thesis using unit_long [where l = l, OF assms(5,3) all True] by blast
      next
        case nz: False
        then have "visit_long l w c t = Ok (False, [w], put_clause (w_clause w) (c\<lparr>c_lits := front_lits c l\<rparr>) t)"
          using last by (simp add: start f(2))
        moreover have "- ?o \<in> set (ck_trail t)" using nz False by (simp add: tval_zero)
        ultimately show ?thesis using false_long [where l = l, OF assms(5,3) all] by blast
      qed
    qed
  qed
qed

lemma visit_watch_ok:
  assumes "trail_inv t" "winv (lit_in t) (memory t) W" "w \<in> set (W l)"
  shows "\<exists>res ks u. visit_watch l w t = Ok (res, ks, u) \<and> visited l w t res ks u"
proof -
  obtain c where c: "memory t (w_clause w) = Some c" "w_size w = length (c_lits c)" "w_blit w \<in> set (c_lits c)"
    "c_size c \<noteq> 0 \<longrightarrow> l = c_lits c ! 0 \<or> l = c_lits c ! 1"
    using winvD(2) [OF assms(2,3)] by (auto simp: watch_ok_def)
  have wf: "clause_wf (lit_in t) c" by (rule winvD(1) [OF assms(2) c(1)])
  have b: "lit_in t (w_blit w)" by (rule clause_wfD(3) [OF wf c(3)])
  note start = visit_watch_def ck_val_ok [OF assms(1) b]
  consider "w_blit w \<in> set (ck_trail t)" | "w_blit w \<notin> set (ck_trail t)" "w_size w = 2" "- w_blit w \<in> set (ck_trail t)"
    | "w_size w = 2" "tval (ck_trail t) (w_blit w) = 0" | "w_blit w \<notin> set (ck_trail t)" "w_size w \<noteq> 2" "c_size c = 0"
    | "w_blit w \<notin> set (ck_trail t)" "w_size w \<noteq> 2" "c_size c \<noteq> 0" by (auto simp: tval_zero)
  then show ?thesis
  proof cases
    case 1
    then show ?thesis using sat_blit [of w t l] by (auto simp: start)
  next
    case 2
    then show ?thesis using false_binary [of w t l] by (auto simp: start tval_neg)
  next
    case 3
    then show ?thesis using unit_binary [of w t l] assign_ok(1) [OF assms(1) b] by (auto simp: start)
  next
    case 4
    then show ?thesis using skip_garbage [of t w c l] c(1) by (auto simp: start clause_at_def)
  next
    case 5
    then show ?thesis using visit_long_ok [OF assms(1) wf 5(3) _ c(1), of l] c by (auto simp: start clause_at_def)
  qed
qed

section \<open>Watches are preserved\<close>

lemma winv_skip:
  assumes "winv R mem (W(l := kept @ w # rest))" "mem (w_clause w) = Some c" "c_size c = 0"
  shows "winv R mem (W(l := kept @ rest))"
  unfolding winv_def
proof (intro conjI allI impI)
  note I = winvD [OF assms(1)]
  show "\<And>a c. mem a = Some c \<Longrightarrow> clause_wf R c" by (rule I(1))
  show "\<forall>v \<in> set ((W(l := kept @ rest)) m). watch_ok mem m v" for m
    using I(2) [of _ m] by (auto split: if_splits)
  show "distinct (map w_clause ((W(l := kept @ rest)) m))" for m
    using I(3) [of m] by (auto split: if_splits)
  fix a d and i :: nat assume d: "mem a = Some d" "c_size d \<noteq> 0" "i < 2"
  then have "a \<noteq> w_clause w" using assms(2,3) by auto
  then show "a \<in> w_clause ` set ((W(l := kept @ rest)) (c_lits d ! i))"
    using I(4) [OF d] by (auto split: if_splits)
qed

lemma winv_blit:
  assumes "winv R mem (W(l := kept @ w # rest))" "mem (w_clause w) = Some c" "b \<in> set (c_lits c)" "b \<noteq> l"
  shows "winv R mem (W(l := kept @ w\<lparr>w_blit := b\<rparr> # rest))"
  unfolding winv_def
proof (intro conjI allI impI)
  note I = winvD [OF assms(1)]
  show "\<And>a c. mem a = Some c \<Longrightarrow> clause_wf R c" by (rule I(1))
  have "watch_ok mem l w" using I(2) [of w l] by simp
  then have "watch_ok mem l (w\<lparr>w_blit := b\<rparr>)" using assms(2-4) by (simp add: watch_ok_def)
  then show "\<forall>v \<in> set ((W(l := kept @ w\<lparr>w_blit := b\<rparr> # rest)) m). watch_ok mem m v" for m
    using I(2) [of _ m] by (auto split: if_splits)
  show "distinct (map w_clause ((W(l := kept @ w\<lparr>w_blit := b\<rparr> # rest)) m))" for m
    using I(3) [of m] by (auto split: if_splits)
  fix a d and i :: nat assume d: "mem a = Some d" "c_size d \<noteq> 0" "i < 2"
  then show "a \<in> w_clause ` set ((W(l := kept @ w\<lparr>w_blit := b\<rparr> # rest)) (c_lits d ! i))"
    using I(4) [OF d] by (auto split: if_splits)
qed

lemma clause_wf_perm:
  assumes "clause_wf R c" "mset lits = mset (c_lits c)"
  shows "clause_wf R (c\<lparr>c_lits := lits\<rparr>)" "set lits = set (c_lits c)" "length lits = length (c_lits c)"
proof -
  show s: "set lits = set (c_lits c)" by (rule mset_eq_setD [OF assms(2)])
  show l: "length lits = length (c_lits c)" by (rule mset_eq_length [OF assms(2)])
  show "clause_wf R (c\<lparr>c_lits := lits\<rparr>)"
    using assms(1) s l mset_eq_imp_distinct_iff [OF assms(2)] by (simp add: clause_wf_def)
qed

lemma watch_ok_other:
  "watch_ok mem l w \<Longrightarrow> w_clause w \<noteq> a \<Longrightarrow> watch_ok (mem(a \<mapsto> c)) l w"
  by (simp add: watch_ok_def)

lemma front_watched:
  assumes "clause_wf R c" "l = c_lits c ! 0 \<or> l = c_lits c ! 1"
  shows "m = c_lits c ! 0 \<or> m = c_lits c ! 1 \<longleftrightarrow> m = l \<or> m = other_lit c l"
  using assms by (auto simp: other_lit_def)

lemma winv_front:
  assumes "winv R mem W" "mem a = Some c" "l = c_lits c ! 0 \<or> l = c_lits c ! 1"
  shows "winv R (mem(a \<mapsto> c\<lparr>c_lits := front_lits c l\<rparr>)) W"
proof -
  note I = winvD [OF assms(1)]
  let ?c = "c\<lparr>c_lits := front_lits c l\<rparr>"
  have wf: "clause_wf R c" by (rule I(1) [OF assms(2)])
  note f = front_lits_facts [OF wf assms(3)] and p = clause_wf_perm [OF wf f(1)]
  have fw: "m = front_lits c l ! 0 \<or> m = front_lits c l ! 1 \<longleftrightarrow> m = c_lits c ! 0 \<or> m = c_lits c ! 1" for m
    unfolding f(3,4) using front_watched [OF wf assms(3), of m] by blast
  show ?thesis
    unfolding winv_def
  proof (intro conjI allI impI)
    show "clause_wf R d" if "(mem(a \<mapsto> ?c)) b = Some d" for b d
      using that p(1) I(1) [of b d] by (auto split: if_splits)
    show "\<forall>w \<in> set (W m). watch_ok (mem(a \<mapsto> ?c)) m w" for m
    proof
      fix w assume "w \<in> set (W m)"
      then have "watch_ok mem m w" by (rule I(2))
      then show "watch_ok (mem(a \<mapsto> ?c)) m w"
        using p(2,3) fw assms(2) by (cases "w_clause w = a") (auto simp: watch_ok_def)
    qed
    show "distinct (map w_clause (W m))" for m by (rule I(3))
    fix b d and i :: nat assume d: "(mem(a \<mapsto> ?c)) b = Some d" "c_size d \<noteq> 0" "i < 2"
    show "b \<in> w_clause ` set (W (c_lits d ! i))"
    proof (cases "b = a")
      case True
      then have "d = ?c" "c_size c \<noteq> 0" using d by auto
      moreover have "i = 0 \<or> i = 1" using d(3) by auto
      ultimately have "c_lits d ! i = c_lits c ! 0 \<or> c_lits d ! i = c_lits c ! 1" using fw [of "c_lits d ! i"] by auto
      then show ?thesis using I(4) [OF assms(2) \<open>c_size c \<noteq> 0\<close>, of 0] I(4) [OF assms(2) \<open>c_size c \<noteq> 0\<close>, of 1] True by auto
    next
      case False
      then show ?thesis using I(4) [of b d i] d by simp
    qed
  qed
qed

text \<open>The literals after the replacement of the watch.\<close>

lemma replaced_lits:
  assumes "clause_wf R c" "l = c_lits c ! 0 \<or> l = c_lits c ! 1" "2 \<le> k" "k < length (c_lits c)"
  defines "lits \<equiv> (front_lits c l)[1 := c_lits c ! k, k := l]"
  shows "mset lits = mset (c_lits c)" "lits ! 0 = other_lit c l" "lits ! 1 = c_lits c ! k"
    "c_lits c ! k \<noteq> l" "c_lits c ! k \<noteq> other_lit c l" "c_lits c ! k \<noteq> c_lits c ! 0" "c_lits c ! k \<noteq> c_lits c ! 1"
proof -
  note f = front_lits_facts [OF assms(1,2)]
  have k: "k < length (front_lits c l)" "1 < length (front_lits c l)" using assms(3,4) f(2) by auto
  have n: "front_lits c l ! k = c_lits c ! k" using assms(3) by (simp add: front_lits_def)
  have "mset ((front_lits c l)[1 := front_lits c l ! k, k := front_lits c l ! 1]) = mset (front_lits c l)"
    by (rule mset_swap [OF k])
  then show "mset lits = mset (c_lits c)" unfolding lits_def f(1) [symmetric] n f(4) .
  show "lits ! 0 = other_lit c l" "lits ! 1 = c_lits c ! k"
    using k assms(3) f(3) by (simp_all add: lits_def nth_list_update)
  have d: "distinct (c_lits c)" by (rule clause_wfD(1) [OF assms(1)])
  have b: "0 < length (c_lits c)" "1 < length (c_lits c)" "k \<noteq> 0" "k \<noteq> 1" using assms(3,4) by auto
  show e: "c_lits c ! k \<noteq> c_lits c ! 0" "c_lits c ! k \<noteq> c_lits c ! 1"
    using nth_eq_iff_index_eq [OF d assms(4) b(1)] nth_eq_iff_index_eq [OF d assms(4) b(2)] b(3,4) by simp_all
  then show "c_lits c ! k \<noteq> l" "c_lits c ! k \<noteq> other_lit c l" using assms(2) by (auto simp: other_lit_def)
qed

lemma winv_replaced:
  assumes "winv R mem (W(l := kept @ w # rest))" "mem (w_clause w) = Some c" "c_size c \<noteq> 0" "2 \<le> k" "k < length (c_lits c)"
  defines "lits \<equiv> (front_lits c l)[1 := c_lits c ! k, k := l]"
    and "new \<equiv> \<lparr>w_blit = l, w_size = c_size c, w_clause = w_clause w\<rparr>"
  shows "winv R (mem(w_clause w \<mapsto> c\<lparr>c_lits := lits\<rparr>)) ((W(c_lits c ! k := W (c_lits c ! k) @ [new]))(l := kept @ rest))"
    (is "winv R ?mem ?W")
proof -
  let ?a = "w_clause w" and ?r = "c_lits c ! k" and ?V = "W(l := kept @ w # rest)" and ?c = "c\<lparr>c_lits := lits\<rparr>"
  note I = winvD [OF assms(1)]
  have wf: "clause_wf R c" by (rule I(1) [OF assms(2)])
  have l: "l = c_lits c ! 0 \<or> l = c_lits c ! 1" "l \<in> set (c_lits c)"
    using I(2) [of w l] assms(2,3) by (simp_all add: watch_ok_def)
  note r = replaced_lits [OF wf l(1) assms(4,5), folded lits_def]
  note p = clause_wf_perm [OF wf r(1)] and sz = clause_wfD(4) [OF wf assms(3)]
  have a_l: "?a \<notin> w_clause ` set (kept @ rest)" using I(3) [of l] by auto
  have live: "m = c_lits c ! 0 \<or> m = c_lits c ! 1" if "v \<in> set (?V m)" "w_clause v = ?a" for m v
    using I(2) [OF that(1)] that(2) assms(2,3) by (simp add: watch_ok_def)
  have a_r: "?a \<notin> w_clause ` set (W ?r)"
  proof
    assume "?a \<in> w_clause ` set (W ?r)"
    then obtain v where "v \<in> set (W ?r)" "w_clause v = ?a" by auto
    then show False using live [of v ?r] r(4,6,7) by simp
  qed
  have old: "watch_ok ?mem m v" if "v \<in> set (?V m)" "w_clause v \<noteq> ?a" for m v
    by (rule watch_ok_other [OF I(2) [OF that(1)] that(2)])
  show ?thesis
    unfolding winv_def
  proof (intro conjI allI impI)
    show "clause_wf R d" if "?mem b = Some d" for b d
      using that p(1) I(1) [of b d] by (auto split: if_splits)
    show "\<forall>v \<in> set (?W m). watch_ok ?mem m v" for m
    proof
      fix v assume v: "v \<in> set (?W m)"
      consider "m = l" "v \<in> set (kept @ rest)" | "m = ?r" "m \<noteq> l" "v \<in> set (W ?r)" | "m = ?r" "v = new"
        | "m \<noteq> l" "m \<noteq> ?r" "v \<in> set (W m)" using v by (auto split: if_splits)
      then show "watch_ok ?mem m v"
      proof cases
        case 1
        then have "w_clause v \<noteq> ?a" using a_l by (metis imageI)
        then show ?thesis using 1 by (intro old) auto
      next
        case 2
        then have "w_clause v \<noteq> ?a" using a_r by (metis imageI)
        then show ?thesis using 2 r(4) by (intro old) auto
      next
        case 3
        then show ?thesis using r(3,4) l(2) p(2,3) sz assms(5) by (auto simp: watch_ok_def new_def)
      next
        case 4
        show ?thesis
        proof (cases "w_clause v = ?a")
          case True
          then have "m = other_lit c l" using live [of v m] 4 front_watched [OF wf l(1), of m] by auto
          then show ?thesis using I(2) [of v m] 4 True assms(2) r(2) p(2,3) by (auto simp: watch_ok_def)
        next
          case False
          then show ?thesis using 4 by (intro old) auto
        qed
      qed
    qed
    show "distinct (map w_clause (?W m))" for m
    proof -
      have "distinct (map w_clause (kept @ rest))" "distinct (map w_clause (W ?r @ [new]))"
        "m \<noteq> l \<Longrightarrow> distinct (map w_clause (W m))"
        using I(3) [of l] I(3) [of ?r] I(3) [of m] r(4) a_r by (auto simp: new_def)
      then show ?thesis by simp
    qed
    fix b d and i :: nat assume d: "?mem b = Some d" "c_size d \<noteq> 0" "i < 2"
    show "b \<in> w_clause ` set (?W (c_lits d ! i))"
    proof (cases "b = ?a")
      case True
      then have "c_lits d = lits" using d(1) by auto
      moreover have "?a \<in> w_clause ` set (?V (c_lits c ! 0))" "?a \<in> w_clause ` set (?V (c_lits c ! 1))"
        by (rule I(4) [OF assms(2,3)], simp)+
      then have "?a \<in> w_clause ` set (?V (other_lit c l))" unfolding other_lit_def by metis
      moreover have "i = 0 \<or> i = 1" using d(3) by auto
      moreover have "other_lit c l \<noteq> l" using front_lits_facts(7) [OF wf l(1)] .
      ultimately show ?thesis using r(2,3,4,5) True by (auto simp: new_def)
    next
      case False
      then have "b \<in> w_clause ` set (?V (c_lits d ! i))" using I(4) [of b d i] d by simp
      then show ?thesis using False by (auto split: if_splits)
    qed
  qed
qed

section \<open>What a visit changes\<close>

definition same_clause :: "CheckerClause \<Rightarrow> CheckerClause \<Rightarrow> bool" where
  "same_clause c d \<longleftrightarrow> c_hash d = c_hash c \<and> c_size d = c_size c \<and> mset (c_lits d) = mset (c_lits c)"

text \<open>Propagation reorders literals, moves watches and extends the trail; \<open>frame\<close> is the rest of the state.\<close>

definition frame :: "Checker \<Rightarrow> Checker" where
  "frame t = t\<lparr>ck_vals := [], watchers := [], memory := Map.empty, ck_trail := [], next_to_propagate := 0\<rparr>"

definition moved :: "Checker \<Rightarrow> Checker \<Rightarrow> bool" where
  "moved t u \<longleftrightarrow> (\<forall>a. rel_option same_clause (memory t a) (memory u a)) \<and> (\<exists>ys. ck_trail u = ck_trail t @ ys) \<and>
     frame u = frame t"

lemma frame_simps [simp]:
  "frame (t\<lparr>ck_vals := vs\<rparr>) = frame t" "frame (t\<lparr>ck_trail := tr\<rparr>) = frame t" "frame (t\<lparr>memory := m\<rparr>) = frame t"
  "frame (t\<lparr>next_to_propagate := n\<rparr>) = frame t" "frame (set_wl l ws t) = frame t" "frame (put_clause a c t) = frame t"
  "frame (assigned l t) = frame t"
  by (simp_all add: frame_def set_wl_def put_clause_def assigned_def)

lemma frameD:
  assumes "frame u = frame t"
  shows "ck_size_vars u = ck_size_vars t" "ck_marks u = ck_marks t" "inconsistent u = inconsistent t" "fresh u = fresh t"
    "ck_num_clauses u = ck_num_clauses t" "ck_num_garbage u = ck_num_garbage t" "chains u = chains t"
    "ck_garbage u = ck_garbage t" "simplified u = simplified t" "ck_last_id u = ck_last_id t"
  using arg_cong [OF assms, of ck_size_vars] arg_cong [OF assms, of ck_marks] arg_cong [OF assms, of inconsistent]
    arg_cong [OF assms, of fresh] arg_cong [OF assms, of ck_num_clauses] arg_cong [OF assms, of ck_num_garbage]
    arg_cong [OF assms, of chains] arg_cong [OF assms, of ck_garbage] arg_cong [OF assms, of simplified]
    arg_cong [OF assms, of ck_last_id]
  by (simp_all add: frame_def)

lemma same_clause_refl [simp]: "same_clause c c"
  by (simp add: same_clause_def)

lemma moved_refl [simp]: "moved t t"
  by (auto simp: moved_def intro: option.rel_refl)

lemma moved_trans:
  assumes "moved t u" "moved u v"
  shows "moved t v"
proof -
  have "rel_option same_clause (memory t a) (memory v a)" for a
  proof -
    have "rel_option same_clause (memory t a) (memory u a)" "rel_option same_clause (memory u a) (memory v a)"
      using assms unfolding moved_def by blast+
    then show ?thesis
      by (cases "memory t a"; cases "memory u a"; cases "memory v a") (auto simp: same_clause_def)
  qed
  then show ?thesis using assms by (auto simp: moved_def)
qed

lemma moved_lit_in: "moved t u \<Longrightarrow> lit_in u = lit_in t"
  using frameD(1) [of u t] by (simp add: moved_def fun_eq_iff lit_in_def)

lemma assigned_simps [simp]:
  "wl (assigned l t) = wl t" "lit_in (assigned l t) = lit_in t" "memory (assigned l t) = memory t"
  "ck_trail (assigned l t) = ck_trail t @ [l]" "next_to_propagate (assigned l t) = next_to_propagate t"
  by (simp_all add: assigned_def)

lemma set_wl_simps [simp]:
  "memory (set_wl l ws t) = memory t" "ck_trail (set_wl l ws t) = ck_trail t"
  "next_to_propagate (set_wl l ws t) = next_to_propagate t"
  by (simp_all add: set_wl_def)

lemma moved_put:
  "memory t a = Some c \<Longrightarrow> mset lits = mset (c_lits c) \<Longrightarrow> moved t (put_clause a (c\<lparr>c_lits := lits\<rparr>) t)"
  by (auto simp: moved_def same_clause_def intro: option.rel_refl)

lemma moved_assigned: "moved t u \<Longrightarrow> moved t (assigned l u)"
  by (auto simp: moved_def)

text \<open>The clause of a watch.\<close>

lemma watch_clause:
  assumes "winv R mem W" "w \<in> set (W l)" "mem (w_clause w) = Some c"
  shows "clause_wf R c" "w_blit w \<in> set (c_lits c)" "w_blit w \<noteq> l" "w_size w = length (c_lits c)" "l \<in> set (c_lits c)"
    "c_size c \<noteq> 0 \<Longrightarrow> l = c_lits c ! 0 \<or> l = c_lits c ! 1"
  using winvD(1) [OF assms(1,3)] winvD(2) [OF assms(1,2)] assms(3) by (simp_all add: watch_ok_def)

lemma watch_memory:
  assumes "winv R mem W" "w \<in> set (W l)"
  shows "\<exists>c. mem (w_clause w) = Some c"
  using winvD(2) [OF assms] by (auto simp: watch_ok_def)

lemma visited_ok:
  assumes "visited l w t res ks u" "trail_inv t" "winv (lit_in t) (memory t) ((wl t)(l := kept @ w # rest))" "lit_in t l"
  shows "trail_inv u \<and> winv (lit_in u) (memory u) ((wl u)(l := kept @ ks @ rest)) \<and> moved t u \<and>
    next_to_propagate u = next_to_propagate t"
proof -
  have w: "w \<in> set (((wl t)(l := kept @ w # rest)) l)" by simp
  obtain c where c: "memory t (w_clause w) = Some c" using watch_memory [OF assms(3) w] by blast
  note k = watch_clause [OF assms(3) w c]
  note f = front_lits_facts [OF k(1)]
  from assms(1) show ?thesis
  proof cases
    case sat_blit
    then show ?thesis using assms(2,3) by simp
  next
    case false_binary
    then show ?thesis using assms(2,3) by simp
  next
    case unit_binary
    have "lit_in t (w_blit w)" by (rule clause_wfD(3) [OF k(1,2)])
    then show ?thesis
      using unit_binary assms(2,3) assign_ok(2) [OF assms(2)] moved_assigned [OF moved_refl] by simp
  next
    case (skip_garbage d)
    then show ?thesis using assms(2) winv_skip [OF assms(3)] by simp
  next
    case (sat_other d)
    then have d: "d = c" using c by simp
    note fc = f [OF k(6)]
    show ?thesis using sat_other assms(2) winv_blit [OF assms(3) c fc(6,7)] unfolding d by simp
  next
    case (replaced d n)
    then have d: "d = c" using c by simp
    have front: "l = c_lits c ! 0 \<or> l = c_lits c ! 1" using replaced(5) k(6) unfolding d by simp
    note r = replaced_lits [OF k(1) front]
    have n: "2 \<le> n" "n < length (c_lits c)" "c_size c \<noteq> 0" using replaced unfolding d by auto
    have rn: "lit_in t (c_lits c ! n)" using clause_wfD(3) [OF k(1)] n by simp
    let ?lits = "(front_lits c l)[1 := c_lits c ! n, n := l]"
    let ?t = "set_wl (c_lits c ! n) (wl t (c_lits c ! n) @ [\<lparr>w_blit = l, w_size = c_size c, w_clause = w_clause w\<rparr>]) t"
    have "moved t ?t" by (auto simp: moved_def intro: option.rel_refl)
    then have "moved t (put_clause (w_clause w) (c\<lparr>c_lits := ?lits\<rparr>) ?t)"
      by (rule moved_trans) (rule moved_put, use c r(1) [OF n(1,2)] in simp_all)
    then show ?thesis
      using replaced assms(2) winv_replaced [OF assms(3) c n(3,1,2)] rn unfolding d by simp
  next
    case (unit_long d)
    then have d: "d = c" using c by simp
    have front: "l = c_lits c ! 0 \<or> l = c_lits c ! 1" using unit_long(5) k(6) unfolding d by simp
    let ?t = "put_clause (w_clause w) (c\<lparr>c_lits := front_lits c l\<rparr>) t"
    have "lit_in t (other_lit c l)" by (rule clause_wfD(3) [OF k(1) f(6) [OF front]])
    then have "trail_inv (assigned (other_lit c l) ?t)" using assign_ok(2) [of ?t] assms(2) unit_long(7) unfolding d by simp
    moreover have "moved t (assigned (other_lit c l) ?t)" by (rule moved_assigned [OF moved_put [OF c f(1) [OF front]]])
    ultimately show ?thesis using unit_long winv_front [OF assms(3) c front] unfolding d by simp
  next
    case (false_long d)
    then have d: "d = c" using c by simp
    have front: "l = c_lits c ! 0 \<or> l = c_lits c ! 1" using false_long(5) k(6) unfolding d by simp
    show ?thesis
      using false_long assms(2) winv_front [OF assms(3) c front] moved_put [OF c f(1) [OF front]] unfolding d by simp
  qed
qed

section \<open>Blocked watches\<close>

text \<open>
  A watch of a literal that has been propagated as false is blocked by a true literal: its blocking literal or
  the other watched literal of its clause.
\<close>

definition guarded :: "(nat \<rightharpoonup> CheckerClause) \<Rightarrow> int \<Rightarrow> CheckerWatch list \<Rightarrow> int set \<Rightarrow> bool" where
  "guarded mem l ws T \<longleftrightarrow> (\<forall>w \<in> set ws. \<forall>c. mem (w_clause w) = Some c \<longrightarrow> c_size c \<noteq> 0 \<longrightarrow>
     w_blit w \<in> T \<or> other_lit c l \<in> T)"

definition blocked :: "(nat \<rightharpoonup> CheckerClause) \<Rightarrow> (int \<Rightarrow> CheckerWatch list) \<Rightarrow> int set \<Rightarrow> int set \<Rightarrow> bool" where
  "blocked mem W P T \<longleftrightarrow> (\<forall>l. - l \<in> P \<longrightarrow> guarded mem l (W l) T)"

lemma guarded_mono: "guarded mem l ws T \<Longrightarrow> T \<subseteq> U \<Longrightarrow> guarded mem l ws U"
  unfolding guarded_def by blast

lemma blocked_mono: "blocked mem W P T \<Longrightarrow> T \<subseteq> U \<Longrightarrow> blocked mem W P U"
  unfolding blocked_def using guarded_mono by blast

lemma guarded_simps [simp]:
  "guarded mem l [] T" "guarded mem l (ws @ vs) T \<longleftrightarrow> guarded mem l ws T \<and> guarded mem l vs T"
  by (auto simp: guarded_def)

text \<open>A list without watches of the clause is guarded as before.\<close>

lemma guarded_other:
  assumes "a \<notin> w_clause ` set ws"
  shows "guarded (mem(a \<mapsto> c)) l ws T \<longleftrightarrow> guarded mem l ws T"
proof -
  have "(mem(a \<mapsto> c)) (w_clause w) = mem (w_clause w)" if "w \<in> set ws" for w
    using assms that by (metis fun_upd_other imageI)
  then show ?thesis unfolding guarded_def by metis
qed

text \<open>Reordering the clause: the blocking literal is true if the falsified watch is the other one.\<close>

lemma guarded_reorder:
  assumes "winv R mem W" "mem a = Some c" "c_size c \<noteq> 0" "guarded mem m (W m) T" "m \<noteq> l" "l \<notin> T"
    "l = c_lits c ! 0 \<or> l = c_lits c ! 1"
  shows "guarded (mem(a \<mapsto> c\<lparr>c_lits := lits\<rparr>)) m (W m) T"
  unfolding guarded_def
proof (intro ballI allI impI)
  fix w d assume w: "w \<in> set (W m)" and d: "(mem(a \<mapsto> c\<lparr>c_lits := lits\<rparr>)) (w_clause w) = Some d" "c_size d \<noteq> 0"
  show "w_blit w \<in> T \<or> other_lit d m \<in> T"
  proof (cases "w_clause w = a")
    case True
    then have "m = c_lits c ! 0 \<or> m = c_lits c ! 1" using watch_clause(6) [OF assms(1) w] assms(2,3) by simp
    then have "other_lit c m = l" using assms(5,7) by (auto simp: other_lit_def)
    then show ?thesis using assms(2-4,6) w True by (auto simp: guarded_def)
  next
    case False
    then show ?thesis using assms(4) w d by (auto simp: guarded_def)
  qed
qed

lemma visited_blocked:
  assumes "visited l w t res ks u" "trail_inv t" "winv (lit_in t) (memory t) ((wl t)(l := kept @ w # rest))" "lit_in t l"
    "- l \<in> set (ck_trail t)" "blocked (memory t) ((wl t)(l := kept @ w # rest)) P T" "- l \<notin> P" "P \<subseteq> set (ck_trail t)"
    "T \<subseteq> set (ck_trail t)"
  shows "blocked (memory u) ((wl u)(l := kept @ ks @ rest)) P T"
proof -
  let ?V = "(wl t)(l := kept @ w # rest)"
  have w: "w \<in> set (?V l)" by simp
  obtain c where c: "memory t (w_clause w) = Some c" using watch_memory [OF assms(3) w] by blast
  have lT: "l \<notin> T" using trail_invD(8) [OF assms(2), of l] assms(5,9) by auto
  have ne: "m \<noteq> l" if "- m \<in> P" for m using that assms(7) by auto
  have V: "guarded (memory t) m (?V m) T" if "- m \<in> P" for m using assms(6) that by (simp add: blocked_def)
  have same: "guarded (memory t) m (((wl t)(l := ws)) m) T" if "- m \<in> P" for m ws
    using V [OF that] ne [OF that] by simp
  have reorder: "guarded ((memory t)(w_clause w \<mapsto> c\<lparr>c_lits := lits\<rparr>)) m (?V m) T" if "- m \<in> P" "c_size c \<noteq> 0" for m lits
    by (rule guarded_reorder [OF assms(3) c that(2) V [OF that(1)] ne [OF that(1)] lT])
      (use watch_clause(6) [OF assms(3) w c] that(2) in blast)
  from assms(1) show ?thesis
  proof cases
    case sat_blit
    then show ?thesis using same by (simp add: blocked_def)
  next
    case false_binary
    then show ?thesis using same by (simp add: blocked_def)
  next
    case unit_binary
    then show ?thesis using same by (simp add: blocked_def)
  next
    case (skip_garbage d)
    then show ?thesis using same by (simp add: blocked_def)
  next
    case (sat_other d)
    then show ?thesis using same by (simp add: blocked_def)
  next
    case (replaced d k)
    then have d: "d = c" and sz: "c_size c \<noteq> 0" using c by simp_all
    have r: "lit_in t (c_lits c ! k)"
      using clause_wfD(3) [OF watch_clause(1) [OF assms(3) w c]] replaced unfolding d by simp
    have "m \<noteq> c_lits c ! k" if "- m \<in> P" for m using that replaced assms(8) unfolding d by auto
    then show ?thesis
      using replaced reorder [OF _ sz] ne r assms(2) unfolding d by (simp add: blocked_def)
  next
    case (unit_long d)
    then have d: "d = c" and sz: "c_size c \<noteq> 0" using c by simp_all
    then show ?thesis using unit_long reorder [OF _ sz] ne unfolding d by (simp add: blocked_def)
  next
    case (false_long d)
    then have d: "d = c" and sz: "c_size c \<noteq> 0" using c by simp_all
    then show ?thesis using false_long reorder [OF _ sz] ne unfolding d by (simp add: blocked_def)
  qed
qed

lemma visited_guarded:
  assumes "visited l w t True ks u" "trail_inv t" "winv (lit_in t) (memory t) ((wl t)(l := kept @ w # rest))"
    "guarded (memory t) l kept (set (ck_trail t))"
  shows "guarded (memory u) l (kept @ ks) (set (ck_trail u))"
proof -
  let ?V = "(wl t)(l := kept @ w # rest)"
  have w: "w \<in> set (?V l)" by simp
  obtain c where c: "memory t (w_clause w) = Some c" using watch_memory [OF assms(3) w] by blast
  have "w_clause w \<notin> w_clause ` set kept" using winvD(3) [OF assms(3), of l] by auto
  note other = guarded_other [OF this, of "memory t"]
  note k = watch_clause [OF assms(3) w c]
  from assms(1) show ?thesis
  proof cases
    case sat_blit
    then show ?thesis using assms(4) by (simp add: guarded_def)
  next
    case unit_binary
    then show ?thesis using assms(4) by (auto simp: guarded_def)
  next
    case (skip_garbage d)
    then show ?thesis using assms(4) by simp
  next
    case (sat_other d)
    then show ?thesis using assms(4) by (simp add: guarded_def)
  next
    case (replaced d n)
    then show ?thesis using assms(4) other by simp
  next
    case (unit_long d)
    then have d: "d = c" and sz: "c_size c \<noteq> 0" using c by simp_all
    have front: "l = c_lits c ! 0 \<or> l = c_lits c ! 1" by (rule k(6) [OF sz])
    note f = front_lits_facts [OF k(1) front]
    have "other_lit (c\<lparr>c_lits := front_lits c l\<rparr>) l = other_lit c l"
      using f(3,7) by (simp add: other_lit_def [of "c\<lparr>c_lits := front_lits c l\<rparr>"])
    then have "guarded (memory u) l [w] (set (ck_trail u))" using unit_long unfolding d by (simp add: guarded_def)
    moreover have "guarded (memory u) l kept (set (ck_trail u))"
      using unit_long other guarded_mono [OF assms(4), of "set (ck_trail u)"] by auto
    ultimately show ?thesis using unit_long by simp
  qed simp_all
qed

section \<open>Models\<close>

definition models :: "assignment \<Rightarrow> Checker \<Rightarrow> bool" where
  "models \<sigma> t \<longleftrightarrow> (\<forall>a c. memory t a = Some c \<longrightarrow> sat_clause \<sigma> (c_lits c)) \<and> (\<forall>l \<in> set (ck_trail t). holds \<sigma> l)"

lemma holds_minus: "l \<noteq> 0 \<Longrightarrow> holds \<sigma> (- l) \<longleftrightarrow> \<not> holds \<sigma> l"
  by (rule holds_neg)

lemma models_put:
  assumes "models \<sigma> t" "memory t a = Some c" "set lits = set (c_lits c)"
  shows "models \<sigma> (put_clause a (c\<lparr>c_lits := lits\<rparr>) t)"
  using assms by (auto simp: models_def sat_clause_iff)

lemma models_set_wl [simp]: "models \<sigma> (set_wl l ws t) = models \<sigma> t"
  by (simp add: models_def)

text \<open>A clause whose other literals are false.\<close>

lemma last_literal:
  assumes "models \<sigma> t" "memory t a = Some c" "clause_wf (lit_in t) c" "\<forall>m \<in> set (c_lits c). m = b \<or> - m \<in> set (ck_trail t)"
  shows "holds \<sigma> b"
proof -
  obtain m where m: "m \<in> set (c_lits c)" "holds \<sigma> m"
    using assms(1,2) unfolding models_def sat_clause_iff by blast
  have "\<not> - m \<in> set (ck_trail t)"
  proof
    assume "- m \<in> set (ck_trail t)"
    then have "holds \<sigma> (- m)" using assms(1) by (simp add: models_def)
    then show False using m holds_minus [of m \<sigma>] clause_wfD(3) [OF assms(3) m(1)] by (simp add: lit_in_def)
  qed
  then show ?thesis using assms(4) m by auto
qed

lemma visited_models:
  assumes "visited l w t res ks u" "trail_inv t" "winv (lit_in t) (memory t) ((wl t)(l := kept @ w # rest))"
    "- l \<in> set (ck_trail t)" "models \<sigma> t"
  shows "res \<and> models \<sigma> u"
proof -
  let ?V = "(wl t)(l := kept @ w # rest)"
  have w: "w \<in> set (?V l)" by simp
  obtain c where c: "memory t (w_clause w) = Some c" using watch_memory [OF assms(3) w] by blast
  note k = watch_clause [OF assms(3) w c]
  have binary: "holds \<sigma> (w_blit w)" if "w_size w = 2"
  proof -
    obtain x y ys where "c_lits c = x # y # ys" by (rule two_lits [OF clause_wfD(2) [OF k(1)]])
    then have "c_lits c = [x, y]" using k(4) that by simp
    then have "\<forall>m \<in> set (c_lits c). m = w_blit w \<or> - m \<in> set (ck_trail t)" using k(2,3,5) assms(4) by auto
    then show ?thesis by (rule last_literal [OF assms(5) c k(1)])
  qed
  have long: "holds \<sigma> (other_lit c l)"
    if "c_size c \<noteq> 0" "\<forall>m \<in> set (drop 2 (c_lits c)). - m \<in> set (ck_trail t)"
  proof -
    obtain x y ys where "c_lits c = x # y # ys" by (rule two_lits [OF clause_wfD(2) [OF k(1)]])
    then have "\<forall>m \<in> set (c_lits c). m = other_lit c l \<or> - m \<in> set (ck_trail t)"
      using k(6) [OF that(1)] that(2) assms(4) by (auto simp: other_lit_def)
    then show ?thesis by (rule last_literal [OF assms(5) c k(1)])
  qed
  have false: "\<not> holds \<sigma> m" if "- m \<in> set (ck_trail t)" for m
    using that assms(5) holds_minus [of m \<sigma>] trail_invD(7) [OF assms(2) that] by (auto simp: models_def lit_in_def)
  have front: "set (front_lits c l) = set (c_lits c)" if "c_size c \<noteq> 0"
    by (rule mset_eq_setD [OF front_lits_facts(1) [OF k(1) k(6) [OF that]]])
  from assms(1) show ?thesis
  proof cases
    case sat_blit
    then show ?thesis using assms(5) by simp
  next
    case false_binary
    then show ?thesis using binary false by simp
  next
    case unit_binary
    then show ?thesis using binary assms(5) by (simp add: models_def)
  next
    case (skip_garbage d)
    then show ?thesis using assms(5) by simp
  next
    case (sat_other d)
    then show ?thesis using assms(5) by simp
  next
    case (replaced d n)
    then have d: "d = c" and sz: "c_size c \<noteq> 0" using c by simp_all
    have "set ((front_lits c l)[1 := c_lits c ! n, n := l]) = set (c_lits c)"
      by (rule mset_eq_setD [OF replaced_lits(1) [OF k(1) k(6) [OF sz]]]) (use replaced in \<open>simp_all add: d\<close>)
    then show ?thesis using replaced models_put [of \<sigma> _ "w_clause w" c] c assms(5) unfolding d by simp
  next
    case (unit_long d)
    then have d: "d = c" and sz: "c_size c \<noteq> 0" using c by simp_all
    have "models \<sigma> (put_clause (w_clause w) (c\<lparr>c_lits := front_lits c l\<rparr>) t)"
      by (rule models_put [OF assms(5) c front [OF sz]])
    then show ?thesis using unit_long long [OF sz] unfolding d by (simp add: models_def)
  next
    case (false_long d)
    then have d: "d = c" and sz: "c_size c \<noteq> 0" using c by simp_all
    show ?thesis using false_long long [OF sz] false unfolding d by simp
  qed
qed

section \<open>The loops of propagation\<close>

text \<open>The loop over a watch list, of a literal that has just become false.\<close>

definition walked :: "int \<Rightarrow> CheckerWatch list \<Rightarrow> CheckerWatch list \<Rightarrow> Checker \<Rightarrow> bool \<Rightarrow> CheckerWatch list \<Rightarrow> Checker \<Rightarrow> bool" where
  "walked l kept ws t res vs u \<longleftrightarrow> trail_inv u \<and> winv (lit_in u) (memory u) ((wl u)(l := vs)) \<and> moved t u \<and>
     next_to_propagate u = next_to_propagate t \<and> (\<forall>\<sigma>. models \<sigma> t \<longrightarrow> res \<and> models \<sigma> u) \<and>
     (\<forall>P T. blocked (memory t) ((wl t)(l := kept @ ws)) P T \<longrightarrow> - l \<notin> P \<longrightarrow> P \<subseteq> set (ck_trail t) \<longrightarrow> T \<subseteq> set (ck_trail t) \<longrightarrow>
       blocked (memory u) ((wl u)(l := vs)) P T) \<and>
     (res \<longrightarrow> guarded (memory t) l kept (set (ck_trail t)) \<longrightarrow> guarded (memory u) l vs (set (ck_trail u)))"

lemma walkedD:
  assumes "walked l kept ws t res vs u"
  shows "trail_inv u" "winv (lit_in u) (memory u) ((wl u)(l := vs))" "moved t u"
    "next_to_propagate u = next_to_propagate t" "models \<sigma> t \<Longrightarrow> res \<and> models \<sigma> u"
    "blocked (memory t) ((wl t)(l := kept @ ws)) P T \<Longrightarrow> - l \<notin> P \<Longrightarrow> P \<subseteq> set (ck_trail t) \<Longrightarrow> T \<subseteq> set (ck_trail t) \<Longrightarrow>
       blocked (memory u) ((wl u)(l := vs)) P T"
    "res \<Longrightarrow> guarded (memory t) l kept (set (ck_trail t)) \<Longrightarrow> guarded (memory u) l vs (set (ck_trail u))"
  using assms unfolding walked_def by blast+

lemma visited_walked:
  assumes "visited l w t res ks u" "trail_inv t" "winv (lit_in t) (memory t) ((wl t)(l := kept @ w # ws))" "lit_in t l"
    "- l \<in> set (ck_trail t)"
  shows "walked l kept (w # ws) t False (kept @ ks @ ws) u \<or> res"
    "res \<Longrightarrow> walked l (kept @ ks) ws u r vs x \<Longrightarrow> walked l kept (w # ws) t r vs x"
proof -
  have u: "trail_inv u" "winv (lit_in u) (memory u) ((wl u)(l := kept @ ks @ ws))" "moved t u"
    "next_to_propagate u = next_to_propagate t" using visited_ok [OF assms(1-4)] by blast+
  have m: "models \<sigma> t \<Longrightarrow> res \<and> models \<sigma> u" for \<sigma> by (rule visited_models [OF assms(1-3,5)])
  have b: "blocked (memory u) ((wl u)(l := kept @ ks @ ws)) P T"
    if "blocked (memory t) ((wl t)(l := kept @ w # ws)) P T" "- l \<notin> P" "P \<subseteq> set (ck_trail t)" "T \<subseteq> set (ck_trail t)" for P T
    by (rule visited_blocked [OF assms that])
  show "walked l kept (w # ws) t False (kept @ ks @ ws) u \<or> res"
  proof (cases res)
    case False
    then show ?thesis unfolding walked_def using u m b by blast
  qed simp
  assume res and x: "walked l (kept @ ks) ws u r vs x"
  have sub: "set (ck_trail t) \<subseteq> set (ck_trail u)" using u(3) by (auto simp: moved_def)
  have g: "guarded (memory u) l (kept @ ks) (set (ck_trail u))" if "guarded (memory t) l kept (set (ck_trail t))"
    using visited_guarded [OF _ assms(2,3) that, of ks u] assms(1) \<open>res\<close> by simp
  show "walked l kept (w # ws) t r vs x"
    unfolding walked_def
  proof (intro conjI allI impI)
    show "trail_inv x" "winv (lit_in x) (memory x) ((wl x)(l := vs))" by (rule walkedD(1,2) [OF x])+
    show "moved t x" by (rule moved_trans [OF u(3) walkedD(3) [OF x]])
    show "next_to_propagate x = next_to_propagate t" using walkedD(4) [OF x] u(4) by simp
    show "r" "models \<sigma> x" if "models \<sigma> t" for \<sigma> using m [OF that] walkedD(5) [OF x] by blast+
    show "blocked (memory x) ((wl x)(l := vs)) P T"
      if "blocked (memory t) ((wl t)(l := kept @ w # ws)) P T" "- l \<notin> P" "P \<subseteq> set (ck_trail t)" "T \<subseteq> set (ck_trail t)" for P T
      by (rule walkedD(6) [OF x]) (use b [OF that] that sub in auto)
    show "guarded (memory x) l vs (set (ck_trail x))" if r "guarded (memory t) l kept (set (ck_trail t))"
      by (rule walkedD(7) [OF x that(1) g [OF that(2)]])
  qed
qed

lemma visit_watches_ok:
  assumes "trail_inv t" "winv (lit_in t) (memory t) ((wl t)(l := kept @ ws))" "lit_in t l" "- l \<in> set (ck_trail t)"
  shows "\<exists>res vs u. visit_watches l ws kept t = Ok (res, vs, u) \<and> walked l kept ws t res vs u"
  using assms
proof (induction ws arbitrary: kept t)
  case Nil
  then show ?case by (intro exI [of _ True] exI [of _ kept] exI [of _ t]) (simp add: walked_def fun_upd_def)
next
  case (Cons w ws)
  note pre = Cons.prems(1,2)
  obtain res ks u where v: "visit_watch l w t = Ok (res, ks, u)" "visited l w t res ks u"
    using visit_watch_ok [OF pre, of w l] by auto
  note step = visited_walked [OF v(2) Cons.prems]
  have u: "trail_inv u" "winv (lit_in u) (memory u) ((wl u)(l := (kept @ ks) @ ws))" "moved t u"
    using visited_ok [OF v(2) pre Cons.prems(3)] by simp_all
  show ?case
  proof (cases res)
    case True
    have "lit_in u l" "- l \<in> set (ck_trail u)"
      using u(3) moved_lit_in [OF u(3)] Cons.prems(3,4) by (auto simp: moved_def)
    from Cons.IH [OF u(1,2) this]
    obtain r vs x where "visit_watches l ws (kept @ ks) u = Ok (r, vs, x)" "walked l (kept @ ks) ws u r vs x" by blast
    then show ?thesis using step(2) [OF True] v(1) True by auto
  next
    case False
    then show ?thesis using step(1) v(1) by auto
  qed
qed

definition prop_inv :: "Checker \<Rightarrow> bool" where
  "prop_inv t \<longleftrightarrow> trail_inv t \<and> winv (lit_in t) (memory t) (wl t) \<and> next_to_propagate t \<le> length (ck_trail t) \<and>
     blocked (memory t) (wl t) (set (take (next_to_propagate t) (ck_trail t))) (set (ck_trail t))"

text \<open>What propagation keeps whatever its result is: the blocked watches of earlier literals stay blocked by earlier ones.\<close>

definition propagated :: "Checker \<Rightarrow> bool \<Rightarrow> Checker \<Rightarrow> bool" where
  "propagated t res u \<longleftrightarrow> trail_inv u \<and> winv (lit_in u) (memory u) (wl u) \<and> moved t u \<and>
     next_to_propagate t \<le> next_to_propagate u \<and> next_to_propagate u \<le> length (ck_trail u) \<and>
     (\<forall>\<sigma>. models \<sigma> t \<longrightarrow> res \<and> models \<sigma> u) \<and>
     (\<forall>P T. blocked (memory t) (wl t) P T \<longrightarrow> P \<subseteq> set (take (next_to_propagate t) (ck_trail t)) \<longrightarrow> T \<subseteq> set (ck_trail t) \<longrightarrow>
       blocked (memory u) (wl u) P T) \<and>
     (res \<longrightarrow> prop_inv u)"

lemma moved_prefix:
  assumes "moved t u" "n \<le> length (ck_trail t)"
  shows "take n (ck_trail u) = take n (ck_trail t)" "set (ck_trail t) \<subseteq> set (ck_trail u)"
    "length (ck_trail t) \<le> length (ck_trail u)"
  using assms by (auto simp: moved_def)

lemma propagate_next_ok:
  assumes "prop_inv t" "next_to_propagate t < length (ck_trail t)"
  shows "\<exists>res u. propagate_next t = Ok (res, u) \<and> propagated t res u \<and> next_to_propagate u = Suc (next_to_propagate t)"
proof -
  let ?n = "next_to_propagate t" and ?lit = "ck_trail t ! next_to_propagate t" and ?t = "t\<lparr>next_to_propagate := Suc (next_to_propagate t)\<rparr>"
  let ?l = "- ?lit"
  have inv: "trail_inv t" "winv (lit_in t) (memory t) (wl t)"
    "blocked (memory t) (wl t) (set (take ?n (ck_trail t))) (set (ck_trail t))" using assms(1) by (simp_all add: prop_inv_def)
  have lit: "?lit \<in> set (ck_trail t)" using assms(2) by simp
  have l: "lit_in t ?l" using trail_invD(7) [OF inv(1) lit] by simp
  have new: "?lit \<notin> set (take ?n (ck_trail t))"
    using trail_invD(9) [OF inv(1)] assms(2) by (auto simp: in_set_conv_nth nth_eq_iff_index_eq)
  obtain res vs u where v0: "visit_watches ?l (wl t ?l) [] ?t = Ok (res, vs, u)" "walked ?l [] (wl t ?l) ?t res vs u"
    using visit_watches_ok [of ?t ?l "[]" "wl t ?l"] inv(1,2) l lit by auto
  note w = walkedD [OF v0(2)]
  have v: "trail_inv u" "winv (lit_in u) (memory u) ((wl u)(?l := vs))" "moved ?t u" "next_to_propagate u = Suc ?n"
    using w(1-4) by simp_all
  have m5: "models \<sigma> t \<Longrightarrow> res \<and> models \<sigma> u" for \<sigma> using w(5) [of \<sigma>] by (simp add: models_def)
  have b6: "blocked (memory u) ((wl u)(?l := vs)) P T"
    if "blocked (memory t) (wl t) P T" "?lit \<notin> P" "P \<subseteq> set (ck_trail t)" "T \<subseteq> set (ck_trail t)" for P T
    using w(6) [of P T] that by simp
  have g7: "res \<Longrightarrow> guarded (memory u) ?l vs (set (ck_trail u))" using w(7) by simp
  let ?u = "set_wl ?l vs u"
  have m: "moved t ?u" using v(3) by (simp add: moved_def)
  have lu: "lit_in u ?l" using moved_lit_in [OF v(3)] l by simp
  note pre = moved_prefix [OF m]
  have run: "propagate_next t = Ok (res, ?u)"
    using v0(1) assms(2) inv(1) l lu v(1) by (simp add: propagate_next_def watcher_ok)
  have wi: "winv (lit_in ?u) (memory ?u) (wl ?u)" using v(1,2) lu by simp
  have le: "Suc ?n \<le> length (ck_trail ?u)" using pre(3) [OF le_refl] assms(2) by simp
  have keep: "blocked (memory ?u) (wl ?u) P T"
    if "blocked (memory t) (wl t) P T" "P \<subseteq> set (take ?n (ck_trail t))" "T \<subseteq> set (ck_trail t)" for P T
    using b6 [OF that(1) _ _ that(3)] that(2) new v(1) lu set_take_subset [of ?n "ck_trail t"] by auto
  have pi: "prop_inv ?u" if res
  proof -
    have "blocked (memory ?u) (wl ?u) (set (take ?n (ck_trail t))) (set (ck_trail ?u))"
      by (rule blocked_mono [OF keep [OF inv(3)]]) (use pre(2) assms(2) in auto)
    moreover have "guarded (memory ?u) ?l (wl ?u ?l) (set (ck_trail ?u))" using g7 [OF that] v(1) lu by simp
    moreover have "set (take (Suc ?n) (ck_trail ?u)) = insert ?lit (set (take ?n (ck_trail t)))"
      using pre(1) [of "Suc ?n"] assms(2) by (simp add: take_Suc_conv_app_nth)
    ultimately have "blocked (memory ?u) (wl ?u) (set (take (Suc ?n) (ck_trail ?u))) (set (ck_trail ?u))"
      unfolding blocked_def by (metis insertE minus_minus)
    then show ?thesis using v(1,2,4) lu le by (simp add: prop_inv_def)
  qed
  have "propagated t res ?u"
    unfolding propagated_def
  proof (intro conjI allI impI)
    show "trail_inv ?u" using v(1) by simp
    show "next_to_propagate t \<le> next_to_propagate ?u" "next_to_propagate ?u \<le> length (ck_trail ?u)" using v(4) le by simp_all
    show "res" "models \<sigma> ?u" if "models \<sigma> t" for \<sigma> using m5 [OF that] by simp_all
  qed (fact wi m keep pi)+
  then show ?thesis using run v(4) by (intro exI [of _ res] exI [of _ ?u]) simp
qed

lemma propagate_ok:
  assumes "prop_inv t"
  shows "\<exists>res u. propagate t = Ok (res, u) \<and> propagated t res u \<and> (res \<longrightarrow> next_to_propagate u = length (ck_trail u))"
proof -
  have inv: "trail_inv t" "winv (lit_in t) (memory t) (wl t)" "next_to_propagate t \<le> length (ck_trail t)"
    using assms by (simp_all add: prop_inv_def)
  have "\<exists>p. propagate t = Ok p \<and> propagated t (fst p) (snd p) \<and>
      \<not> (case p of (res, u) \<Rightarrow> res \<and> next_to_propagate u < length (ck_trail u))"
    unfolding propagate_def
  proof (rule rwhile_rule)
    show "propagated t (fst (True, t)) (snd (True, t))" using inv assms by (simp add: propagated_def)
    show "wf (measure (\<lambda>(res :: bool, u). nat (ck_size_vars t) - next_to_propagate u))" by simp
    fix p assume p: "propagated t (fst p) (snd p)" "case p of (res, u) \<Rightarrow> res \<and> next_to_propagate u < length (ck_trail u)"
    obtain u where u: "p = (True, u)" using p(2) by (cases p) auto
    have pu: "propagated t True u" "prop_inv u" "next_to_propagate u < length (ck_trail u)"
      using p u by (auto simp: propagated_def)
    obtain res v where v: "propagate_next u = Ok (res, v)" "propagated u res v" "next_to_propagate v = Suc (next_to_propagate u)"
      using propagate_next_ok [OF pu(2,3)] by blast
    have m: "moved t u" "next_to_propagate t \<le> next_to_propagate u" "moved u v" "trail_inv u" "ck_size_vars u = ck_size_vars t"
      using pu(1) v(2) frameD(1) [of u t] by (auto simp: propagated_def moved_def)
    have sub: "set (take (next_to_propagate t) (ck_trail t)) \<subseteq> set (take (next_to_propagate u) (ck_trail u))"
      using moved_prefix(1) [OF m(1) inv(3)] set_take_subset_set_take [OF m(2), of "ck_trail u"] by simp
    have "propagated t res v"
      unfolding propagated_def
    proof (intro conjI allI impI)
      fix P T assume PT: "blocked (memory t) (wl t) P T" "P \<subseteq> set (take (next_to_propagate t) (ck_trail t))" "T \<subseteq> set (ck_trail t)"
      then have "blocked (memory u) (wl u) P T" using pu(1) by (simp add: propagated_def)
      then show "blocked (memory v) (wl v) P T"
        using v(2) PT(2,3) sub moved_prefix(2) [OF m(1) le_refl] unfolding propagated_def by blast
    qed (use pu(1) v(2,3) moved_trans [OF m(1,3)] m(2) in \<open>auto simp: propagated_def\<close>)
    moreover have "nat (ck_size_vars t) - next_to_propagate v < nat (ck_size_vars t) - next_to_propagate u"
      using length_trail [OF m(4)] pu(3) v(3) m(5) by simp
    ultimately show "\<exists>q. (case p of (res, t) \<Rightarrow> propagate_next t) = Ok q \<and> propagated t (fst q) (snd q) \<and>
        (q, p) \<in> measure (\<lambda>(res :: bool, u). nat (ck_size_vars t) - next_to_propagate u)"
      using v(1) u by (intro exI [of _ "(res, v)"]) simp
  qed
  then obtain res u where "propagate t = Ok (res, u)" "propagated t res u" "\<not> (res \<and> next_to_propagate u < length (ck_trail u))"
    by (metis (no_types, lifting) case_prod_conv prod.collapse)
  then show ?thesis by (intro exI [of _ res] exI [of _ u]) (auto simp: propagated_def)
qed

end
