(* ===== verification/Drup_Store.thy ===== *)
theory Drup_Store
  imports Drup_Watches
begin

text \<open>
  The operations of the DRUP checker around propagation: importing clauses, checking, storing, finding, deleting
  and collecting. \<open>store_ok\<close> says that the hash table, the garbage list and the memory agree: every allocated
  clause is in exactly one of them, so nothing is freed twice and no watch points to freed memory.
\<close>

section \<open>Importing a clause\<close>

lemma nth_padded:
  "i < d + length xs + d \<Longrightarrow> (replicate d z @ xs @ replicate d z) ! i = (if d \<le> i \<and> i < d + length xs then xs ! (i - d) else z)"
  by (auto simp: nth_append)

lemma trail_inv_enlarged:
  assumes "trail_inv t" "ck_size_vars t \<le> n" "n \<le> 2 ^ 30"
  defines "u \<equiv> t\<lparr>ck_vals := replicate (nat (n - ck_size_vars t)) 0 @ ck_vals t @ replicate (nat (n - ck_size_vars t)) 0,
    watchers := vec_resize (watchers t) (nat (2 * n)) [], ck_marks := vec_resize (ck_marks t) (nat (2 * n)) False, ck_size_vars := n\<rparr>"
  shows "trail_inv u" "wl u = wl t"
proof -
  let ?s = "ck_size_vars t"
  note I = trail_invD [OF assms(1)]
  have len: "nat (n - ?s) + nat (2 * ?s) + nat (n - ?s) = nat (2 * n)" using I(1) assms(2) by simp
  have val: "ck_vals u ! nat (n + l) = tval (ck_trail t) l" if l: "l \<noteq> 0" "- n \<le> l" "l < n" for l
  proof -
    let ?i = "nat (n + l)" and ?d = "nat (n - ?s)"
    have i: "?i < ?d + nat (2 * ?s) + ?d" using l(2,3) len by simp
    have pad: "ck_vals u ! ?i = (if ?d \<le> ?i \<and> ?i < ?d + nat (2 * ?s) then ck_vals t ! (?i - ?d) else 0)"
      using nth_padded [of ?i ?d "ck_vals t" 0] i I(3) by (simp add: u_def)
    show ?thesis
    proof (cases "- ?s \<le> l \<and> l < ?s")
      case True
      then have "?d \<le> ?i" "?i < ?d + nat (2 * ?s)" "?i - ?d = nat (?s + l)"
        using assms(2) I(1) by arith+
      then show ?thesis using pad I(6) [OF l(1)] True by simp
    next
      case False
      then have "l \<notin> set (ck_trail t)" "- l \<notin> set (ck_trail t)" using I(7) [of l] I(7) [of "- l"] I(1) by (auto simp: lit_in_def)
      moreover have "\<not> (?d \<le> ?i \<and> ?i < ?d + nat (2 * ?s))" using False l(2,3) assms(2) I(1) by auto
      then have "ck_vals u ! ?i = 0" by (rule trans [OF pad if_not_P])
      ultimately show ?thesis by (simp add: tval_def)
    qed
  qed
  have "length (ck_vals u) = nat (2 * n)" using I(3) len by (simp add: u_def)
  moreover have "ck_marks u = replicate (nat (2 * n)) False"
    using I(5) by (intro nth_equalityI) (simp_all add: u_def nth_vec_resize)
  ultimately show "trail_inv u"
    using I(1,7-9) assms(2,3) val unfolding trail_inv_def lit_in_def by (fastforce simp: u_def)
  show "wl u = wl t"
  proof
    fix l
    have i: "2 * nat (\<bar>l\<bar> - 1) \<le> lit_index l" "lit_index l \<le> 2 * nat (\<bar>l\<bar> - 1) + 1" by (simp_all add: lit_index_def)
    have "2 * nat (\<bar>l\<bar> - 1) + 1 < nat (2 * ?s)" if "\<bar>l\<bar> \<le> ?s" "l \<noteq> 0" using that by arith
    with i(2) have "lit_index l < nat (2 * ?s)" if "\<bar>l\<bar> \<le> ?s" "l \<noteq> 0" using that by simp
    moreover have "2 * nat (\<bar>l\<bar> - 1) \<ge> nat (2 * ?s)" if "\<not> \<bar>l\<bar> \<le> ?s" using that I(1) by arith
    with i(1) have "nat (2 * ?s) \<le> lit_index l" if "\<not> \<bar>l\<bar> \<le> ?s" using that by simp
    moreover have "2 * nat (\<bar>l\<bar> - 1) + 1 < nat (2 * n)" if "\<bar>l\<bar> \<le> n" "l \<noteq> 0" using that by arith
    with i(2) have "lit_index l < nat (2 * n)" if "\<bar>l\<bar> \<le> n" "l \<noteq> 0" using that by simp
    ultimately show "wl u l = wl t l"
      using I(4) assms(2) by (auto simp: wl_def lit_in_def u_def nth_vec_resize)
  qed
qed

lemma winv_mono: "winv R mem W \<Longrightarrow> (\<And>l. R l \<Longrightarrow> S l) \<Longrightarrow> winv S mem W"
  unfolding winv_def clause_wf_def by blast

definition lit_ok :: "int \<Rightarrow> bool" where
  "lit_ok l \<longleftrightarrow> l \<noteq> 0 \<and> \<bar>l\<bar> \<le> 2 ^ 29"

text \<open>Importing changes the tables and the clause being imported only.\<close>

definition iframe :: "Checker \<Rightarrow> Checker" where
  "iframe t = t\<lparr>ck_vals := [], watchers := [], ck_marks := [], ck_size_vars := 0, simplified := []\<rparr>"

lemma iframe_simps [simp]:
  "iframe (t\<lparr>ck_vals := vs\<rparr>) = iframe t" "iframe (t\<lparr>watchers := ws\<rparr>) = iframe t" "iframe (t\<lparr>ck_marks := ms\<rparr>) = iframe t"
  "iframe (t\<lparr>ck_size_vars := n\<rparr>) = iframe t" "iframe (t\<lparr>simplified := c\<rparr>) = iframe t"
  by (simp_all add: iframe_def)

lemma iframeD:
  assumes "iframe u = iframe t"
  shows "inconsistent u = inconsistent t" "memory u = memory t" "fresh u = fresh t"
    "ck_num_clauses u = ck_num_clauses t" "ck_num_garbage u = ck_num_garbage t" "chains u = chains t"
    "ck_garbage u = ck_garbage t" "ck_trail u = ck_trail t" "next_to_propagate u = next_to_propagate t" "ck_last_id u = ck_last_id t"
  using arg_cong [OF assms, of inconsistent] arg_cong [OF assms, of memory]
    arg_cong [OF assms, of fresh] arg_cong [OF assms, of ck_num_clauses] arg_cong [OF assms, of ck_num_garbage]
    arg_cong [OF assms, of chains] arg_cong [OF assms, of ck_garbage] arg_cong [OF assms, of ck_trail]
    arg_cong [OF assms, of next_to_propagate] arg_cong [OF assms, of ck_last_id]
  by (simp_all add: iframe_def)

definition imported :: "int list \<Rightarrow> Checker \<Rightarrow> Checker \<Rightarrow> bool" where
  "imported c t u \<longleftrightarrow> trail_inv u \<and> wl u = wl t \<and> (\<forall>l. lit_in t l \<longrightarrow> lit_in u l) \<and> (\<forall>l \<in> set c. lit_in u l) \<and>
     iframe u = iframe t \<and> simplified u = simplified t @ c"

lemma ck_enlarge_vars_ok:
  assumes "trail_inv t" "ck_size_vars t \<le> idx" "0 < idx" "idx \<le> 2 ^ 29"
  shows "\<exists>u. ck_enlarge_vars idx t = Ok u \<and> trail_inv u \<and> wl u = wl t \<and> idx < ck_size_vars u \<and>
    iframe u = iframe t \<and> simplified u = simplified t"
proof -
  let ?s = "ck_size_vars t"
  have "\<exists>n. rwhile (\<lambda>n. n \<le> idx) (\<lambda>n. Ok (2 * n)) (if ?s \<noteq> 0 then 2 * ?s else 2) = Ok n \<and>
      (0 < n \<and> ?s \<le> n \<and> n \<le> 2 ^ 30) \<and> \<not> n \<le> idx"
  proof (rule rwhile_rule)
    show "0 < (if ?s \<noteq> 0 then 2 * ?s else 2) \<and> ?s \<le> (if ?s \<noteq> 0 then 2 * ?s else 2) \<and> (if ?s \<noteq> 0 then 2 * ?s else 2) \<le> 2 ^ 30"
      using trail_invD(1) [OF assms(1)] assms(2,4) by auto
    show "wf (measure (\<lambda>n. Suc (nat idx) - nat n))" by simp
    fix n assume "0 < n \<and> ?s \<le> n \<and> n \<le> (2 ^ 30 :: int)" "n \<le> idx"
    then show "\<exists>v. Ok (2 * n) = Ok v \<and> (0 < v \<and> ?s \<le> v \<and> v \<le> 2 ^ 30) \<and> (v, n) \<in> measure (\<lambda>n. Suc (nat idx) - nat n)"
      using assms(4) by auto
  qed
  then obtain n where n: "rwhile (\<lambda>n. n \<le> idx) (\<lambda>n. Ok (2 * n)) (if ?s \<noteq> 0 then 2 * ?s else 2) = Ok n"
    "?s \<le> n" "n \<le> 2 ^ 30" "idx < n" by auto
  then show ?thesis
    using trail_inv_enlarged [OF assms(1) n(2,3)] by (simp add: ck_enlarge_vars_def Let_def)
qed

lemma ck_import_clause_ok:
  assumes "trail_inv t" "\<forall>l \<in> set c. lit_ok l"
  shows "\<exists>u. ck_import_clause c t = Ok u \<and> imported c t u"
  using assms
proof (induction c arbitrary: t)
  case Nil
  then show ?case by (simp add: ck_import_clause_def imported_def)
next
  case (Cons l c)
  have l: "l \<noteq> 0" "\<bar>l\<bar> \<le> 2 ^ 29" "l \<noteq> INT_MIN" using Cons.prems(2) by (auto simp: lit_ok_def INT_MIN_def)
  obtain u where u: "(if \<bar>l\<bar> \<ge> ck_size_vars t then ck_enlarge_vars \<bar>l\<bar> t else Ok t) = Ok u" "trail_inv u" "wl u = wl t"
    "\<bar>l\<bar> < ck_size_vars u" "ck_size_vars t \<le> ck_size_vars u"
    "iframe u = iframe t" "simplified u = simplified t"
  proof (cases "\<bar>l\<bar> \<ge> ck_size_vars t")
    case True
    then show ?thesis using that ck_enlarge_vars_ok [OF Cons.prems(1) True] l by auto
  next
    case False
    then show ?thesis using that [of t] Cons.prems(1) by simp
  qed
  let ?u = "u\<lparr>simplified := simplified u @ [l]\<rparr>"
  have f: "trail_inv ?u" "wl ?u = wl u" using u(2) by (simp_all add: trail_inv_def wl_def fun_eq_iff lit_in_def)
  obtain v where v: "ck_import_clause c ?u = Ok v" "imported c ?u v" using Cons.IH [OF f(1)] Cons.prems(2) by auto
  have "ck_import_clause (l # c) t = Ok v"
    using v(1) u(1) l(3) by (simp add: ck_import_clause_def ck_import_literal_def)
  moreover have "imported (l # c) t v"
    unfolding imported_def
  proof (intro conjI)
    note w = v(2) [unfolded imported_def]
    show "trail_inv v" "wl v = wl t" using w f(2) u(3) by simp_all
    show "\<forall>m. lit_in t m \<longrightarrow> lit_in v m" using w u(5) by (auto simp: lit_in_def)
    show "\<forall>m \<in> set (l # c). lit_in v m" using w u(4) l(1) by (auto simp: lit_in_def)
    show "iframe v = iframe t" "simplified v = simplified t @ l # c" using w u(6,7) by simp_all
  qed
  ultimately show ?case by blast
qed

section \<open>Normalising a clause\<close>

lemma lit_key_inj: "lit_key a = lit_key b \<Longrightarrow> a = b"
  unfolding lit_key_def by (cases "a < 0"; cases "b < 0"; simp) presburger+

text \<open>What \<open>tautological\<close> leaves: distinct, not complementary, and not true.\<close>

definition clean :: "int list \<Rightarrow> int list \<Rightarrow> bool" where
  "clean tr c \<longleftrightarrow> distinct c \<and> (\<forall>l \<in> set c. - l \<notin> set c \<and> l \<notin> set tr)"

lemma taut_scan_ok:
  assumes "trail_inv t" "\<forall>l \<in> set lits. lit_in t l" "sorted (map lit_key lits)" "clean (ck_trail t) kept"
    "\<forall>l \<in> set lits. \<forall>k \<in> set kept. lit_key k \<le> lit_key prev \<and> lit_key prev \<le> lit_key l" "prev = 0 \<and> kept = [] \<or> prev \<in> set kept"
  shows "\<exists>taut kept'. taut_scan t lits prev kept = Ok (taut, kept') \<and>
    (if taut then (\<exists>l \<in> set lits. - l \<in> set kept \<or> - l \<in> set lits \<or> l \<in> set (ck_trail t))
     else clean (ck_trail t) kept' \<and> set kept' = set kept \<union> set lits)"
  using assms
proof (induction lits arbitrary: prev kept)
  case Nil
  then show ?case by (intro exI [of _ False] exI [of _ kept]) simp
next
  case (Cons l lits)
  have l: "lit_in t l" "l \<noteq> 0" using Cons.prems(2) by (auto simp: lit_in_def)
  have s: "sorted (map lit_key lits)" "\<forall>m \<in> set lits. lit_key l \<le> lit_key m" using Cons.prems(3) by auto
  show ?case
  proof (cases "l = prev")
    case True
    then have "l \<in> set kept" using Cons.prems(6) l(2) by auto
    then show ?thesis using Cons.IH [of kept prev] Cons.prems s(1) True by (auto split: if_splits)
  next
    case ne: False
    show ?thesis
    proof (cases "l = - prev")
      case True
      then show ?thesis using Cons.prems(6) l(2) ne by auto
    next
      case nm: False
      show ?thesis
      proof (cases "l \<in> set (ck_trail t)")
        case True
        then show ?thesis using ne nm ck_val_ok [OF Cons.prems(1) l(1)] by auto
      next
        case False
        have new: "l \<notin> set kept \<and> - l \<notin> set kept"
        proof (rule ccontr)
          assume "\<not> ?thesis"
          then obtain k where k: "k \<in> set kept" "k = l \<or> k = - l" by auto
          then have "lit_key k \<le> lit_key prev" "lit_key prev \<le> lit_key l" using Cons.prems(5) by auto
          then have "\<bar>prev\<bar> = \<bar>l\<bar>" using k(2) unfolding lit_key_def by presburger
          then show False using ne nm by (auto simp: abs_if split: if_splits)
        qed
        have "clean (ck_trail t) (kept @ [l])" using Cons.prems(4) new False l(2) by (auto simp: clean_def)
        moreover have "\<forall>m \<in> set lits. \<forall>k \<in> set (kept @ [l]). lit_key k \<le> lit_key l \<and> lit_key l \<le> lit_key m"
          using Cons.prems(5) s(2) by fastforce
        ultimately obtain taut kept' where IH: "taut_scan t lits l (kept @ [l]) = Ok (taut, kept')"
          "if taut then (\<exists>m \<in> set lits. - m \<in> set (kept @ [l]) \<or> - m \<in> set lits \<or> m \<in> set (ck_trail t))
           else clean (ck_trail t) kept' \<and> set kept' = set (kept @ [l]) \<union> set lits"
          using Cons.IH [of "kept @ [l]" l] Cons.prems(1,2) s(1) by auto
        have "taut_scan t (l # lits) prev kept = Ok (taut, kept')"
          using IH(1) ne nm False ck_val_ok [OF Cons.prems(1) l(1)] by simp
        then show ?thesis using IH(2) by (auto split: if_splits)
      qed
    qed
  qed
qed

lemma ck_tautological_ok:
  assumes "trail_inv t" "\<forall>l \<in> set (simplified t). lit_in t l"
  shows "\<exists>taut c. ck_tautological t = Ok (taut, t\<lparr>simplified := c\<rparr>) \<and>
    (if taut then (\<exists>l \<in> set (simplified t). - l \<in> set (simplified t) \<or> l \<in> set (ck_trail t))
     else clean (ck_trail t) c \<and> set c = set (simplified t))"
proof -
  let ?s = "sort_key lit_key (simplified t)"
  have "\<forall>l \<in> set ?s. lit_in t l" "sorted (map lit_key ?s)" using assms(2) by simp_all
  moreover have "clean (ck_trail t) []" by (simp add: clean_def)
  ultimately have "\<exists>taut kept. taut_scan t ?s 0 [] = Ok (taut, kept) \<and>
    (if taut then (\<exists>l \<in> set ?s. - l \<in> set [] \<or> - l \<in> set ?s \<or> l \<in> set (ck_trail t))
     else clean (ck_trail t) kept \<and> set kept = set [] \<union> set ?s)"
    by (rule taut_scan_ok [OF assms(1)]) simp_all
  then have "\<exists>taut kept. taut_scan t ?s 0 [] = Ok (taut, kept) \<and>
    (if taut then (\<exists>l \<in> set ?s. - l \<in> set ?s \<or> l \<in> set (ck_trail t)) else clean (ck_trail t) kept \<and> set kept = set ?s)"
    by (simp only: list.set(1) empty_iff Un_empty_left simp_thms)
  then obtain taut kept where k: "taut_scan t ?s 0 [] = Ok (taut, kept)"
    "if taut then (\<exists>l \<in> set ?s. - l \<in> set ?s \<or> l \<in> set (ck_trail t)) else clean (ck_trail t) kept \<and> set kept = set ?s"
    by blast
  then show ?thesis
    by (intro exI [of _ taut] exI [of _ "if taut then kept @ drop (length kept) ?s else kept"])
      (auto simp: ck_tautological_def Let_def split: if_splits)
qed

section \<open>Checking\<close>

lemma prop_inv_assigned:
  assumes "prop_inv t" "lit_in t l" "tval (ck_trail t) l = 0"
  shows "prop_inv (assigned l t)"
proof -
  have "blocked (memory t) (wl t) (set (take (next_to_propagate t) (ck_trail t))) (set (ck_trail t @ [l]))"
    by (rule blocked_mono [of _ _ _ "set (ck_trail t)"]) (use assms(1) in \<open>auto simp: prop_inv_def\<close>)
  then show ?thesis using assms assign_ok(2) [of t l] by (simp add: prop_inv_def)
qed

lemma assume_lits_ok:
  assumes "prop_inv t" "\<forall>l \<in> set c. lit_in t l \<and> l \<notin> set (ck_trail t)" "\<forall>l \<in> set c. - l \<notin> set c"
  shows "\<exists>u. rfold (\<lambda>l. assume_lit (- l)) c t = Ok u \<and> prop_inv u \<and> moved t u \<and> next_to_propagate u = next_to_propagate t \<and>
    memory u = memory t \<and> wl u = wl t \<and> set (ck_trail u) = set (ck_trail t) \<union> uminus ` set c"
  using assms
proof (induction c arbitrary: t)
  case Nil
  then show ?case by simp
next
  case (Cons l c)
  have l: "lit_in t (- l)" "l \<notin> set (ck_trail t)" "- l \<noteq> l" using Cons.prems(2,3) by auto
  have v: "ck_val (- l) t = Ok (tval (ck_trail t) (- l))" using Cons.prems(1) l(1) by (simp add: ck_val_ok prop_inv_def)
  show ?case
  proof (cases "- l \<in> set (ck_trail t)")
    case True
    then have "assume_lit (- l) t = Ok t" using v by (simp add: assume_lit_def)
    moreover obtain u where "rfold (\<lambda>l. assume_lit (- l)) c t = Ok u" "prop_inv u" "moved t u"
      "next_to_propagate u = next_to_propagate t" "memory u = memory t" "wl u = wl t"
      "set (ck_trail u) = set (ck_trail t) \<union> uminus ` set c" using Cons.IH [of t] Cons.prems by auto
    ultimately show ?thesis using True by (intro exI [of _ u]) auto
  next
    case False
    then have z: "tval (ck_trail t) (- l) = 0" using l(2) by (simp add: tval_zero)
    have i: "prop_inv (assigned (- l) t)" by (rule prop_inv_assigned [OF Cons.prems(1) l(1) z])
    have a: "assume_lit (- l) t = Ok (assigned (- l) t)"
      using v z False assign_ok(1) [OF _ l(1) z] Cons.prems(1) by (simp add: assume_lit_def prop_inv_def)
    have "\<forall>m \<in> set c. lit_in (assigned (- l) t) m \<and> m \<notin> set (ck_trail (assigned (- l) t))" using Cons.prems(2,3) by auto
    then obtain u where u: "rfold (\<lambda>l. assume_lit (- l)) c (assigned (- l) t) = Ok u" "prop_inv u" "moved (assigned (- l) t) u"
      "next_to_propagate u = next_to_propagate t" "memory u = memory t" "wl u = wl t"
      "set (ck_trail u) = set (ck_trail t @ [- l]) \<union> uminus ` set c" using Cons.IH [OF i] Cons.prems(3) by auto
    then show ?thesis using a moved_trans [OF moved_assigned [OF moved_refl] u(3)] by (intro exI [of _ u]) auto
  qed
qed

lemma ck_backtrack_ok:
  assumes "trail_inv t" "ck_trail t = tr @ ys"
  shows "\<exists>u. ck_backtrack (length tr) t = Ok u \<and> trail_inv u \<and> ck_trail u = tr \<and> next_to_propagate u = length tr \<and>
    u = t\<lparr>ck_vals := ck_vals u, ck_trail := tr, next_to_propagate := length tr\<rparr>"
proof -
  have "\<exists>u. rwhile (\<lambda>t. length (ck_trail t) > length tr) pop_trail t = Ok u \<and>
      (trail_inv u \<and> (\<exists>zs. ck_trail u = tr @ zs) \<and> u = t\<lparr>ck_vals := ck_vals u, ck_trail := ck_trail u\<rparr>) \<and>
      \<not> length (ck_trail u) > length tr"
  proof (rule rwhile_rule)
    show "trail_inv t \<and> (\<exists>zs. ck_trail t = tr @ zs) \<and> t = t\<lparr>ck_vals := ck_vals t, ck_trail := ck_trail t\<rparr>" using assms by simp
    show "wf (measure (\<lambda>t. length (ck_trail t)))" by simp
    fix u assume u: "trail_inv u \<and> (\<exists>zs. ck_trail u = tr @ zs) \<and> u = t\<lparr>ck_vals := ck_vals u, ck_trail := ck_trail u\<rparr>"
      "length (ck_trail u) > length tr"
    then obtain zs where zs: "ck_trail u = tr @ zs" "zs \<noteq> []" by auto
    then have b: "ck_trail u = (tr @ butlast zs) @ [last zs]" by simp
    obtain v where v: "pop_trail u = Ok v" "trail_inv v" "v = u\<lparr>ck_vals := ck_vals v, ck_trail := tr @ butlast zs\<rparr>"
      using pop_trail_ok [OF _ b] u(1) by blast
    have tr: "ck_trail v = tr @ butlast zs" by (subst v(3)) simp
    have "v = t\<lparr>ck_vals := ck_vals v, ck_trail := ck_trail v\<rparr>"
    proof -
      have "u = t\<lparr>ck_vals := ck_vals u, ck_trail := ck_trail u\<rparr>" using u(1) by blast
      then have "u\<lparr>ck_vals := ck_vals v, ck_trail := tr @ butlast zs\<rparr> = t\<lparr>ck_vals := ck_vals v, ck_trail := tr @ butlast zs\<rparr>"
        by (rule ssubst) simp
      then show ?thesis using v(3) tr by simp
    qed
    then show "\<exists>v. pop_trail u = Ok v \<and> (trail_inv v \<and> (\<exists>zs. ck_trail v = tr @ zs) \<and>
        v = t\<lparr>ck_vals := ck_vals v, ck_trail := ck_trail v\<rparr>) \<and> (v, u) \<in> measure (\<lambda>t. length (ck_trail t))"
      using v(1,2) tr zs by (intro exI [of _ v]) simp
  qed
  then obtain u where u: "rwhile (\<lambda>t. length (ck_trail t) > length tr) pop_trail t = Ok u" "trail_inv u" "ck_trail u = tr"
    "u = t\<lparr>ck_vals := ck_vals u, ck_trail := ck_trail u\<rparr>" by auto
  have "u\<lparr>next_to_propagate := length tr\<rparr> = t\<lparr>ck_vals := ck_vals u, ck_trail := tr, next_to_propagate := length tr\<rparr>"
    using arg_cong [OF u(4), of "\<lambda>x. x\<lparr>next_to_propagate := length tr\<rparr>"] u(3) by simp
  moreover have "trail_inv (u\<lparr>next_to_propagate := length tr\<rparr>)" using u(2) by simp
  moreover have "ck_backtrack (length tr) t = Ok (u\<lparr>next_to_propagate := length tr\<rparr>)"
    unfolding ck_backtrack_def u(1) by simp
  ultimately show ?thesis
    using u(3) by (intro exI [of _ "u\<lparr>next_to_propagate := length tr\<rparr>"] conjI) simp_all
qed

lemma moved_memory:
  assumes "moved t u"
  shows "memory u a = Some d \<Longrightarrow> \<exists>c. memory t a = Some c \<and> same_clause c d"
    "memory t a = Some c \<Longrightarrow> \<exists>d. memory u a = Some d \<and> same_clause c d"
proof -
  have r: "rel_option same_clause (memory t a) (memory u a)" using assms by (simp add: moved_def)
  show "memory u a = Some d \<Longrightarrow> \<exists>c. memory t a = Some c \<and> same_clause c d" using r by (cases "memory t a") simp_all
  show "memory t a = Some c \<Longrightarrow> \<exists>d. memory u a = Some d \<and> same_clause c d" using r by (cases "memory u a") simp_all
qed

text \<open>The root state between two calls, apart from the clause being handled.\<close>

definition at_rest :: "Checker \<Rightarrow> bool" where
  "at_rest t \<longleftrightarrow> prop_inv t \<and> next_to_propagate t = length (ck_trail t)"

lemma at_restD:
  assumes "at_rest t"
  shows "prop_inv t" "trail_inv t" "winv (lit_in t) (memory t) (wl t)" "next_to_propagate t = length (ck_trail t)"
    "blocked (memory t) (wl t) (set (ck_trail t)) (set (ck_trail t))"
proof -
  show i: "prop_inv t" and n: "next_to_propagate t = length (ck_trail t)" using assms by (simp_all add: at_rest_def)
  show "trail_inv t" "winv (lit_in t) (memory t) (wl t)" using i by (simp_all add: prop_inv_def)
  have "take (next_to_propagate t) (ck_trail t) = ck_trail t" using n by simp
  then show "blocked (memory t) (wl t) (set (ck_trail t)) (set (ck_trail t))" using i unfolding prop_inv_def by metis
qed

text \<open>Clauses that propagation cannot use: a true literal, or two that are not false.\<close>

definition closed :: "int set \<Rightarrow> int list \<Rightarrow> bool" where
  "closed T c \<longleftrightarrow> (\<exists>l \<in> set c. l \<in> T) \<or> (\<exists>l \<in> set c. \<exists>m \<in> set c. l \<noteq> m \<and> - l \<notin> T \<and> - m \<notin> T)"

lemma rest_closed:
  assumes "at_rest t" "memory t a = Some c" "c_size c \<noteq> 0"
  shows "closed (set (ck_trail t)) (c_lits c)"
proof -
  let ?T = "set (ck_trail t)"
  have w: "winv (lit_in t) (memory t) (wl t)" and b: "blocked (memory t) (wl t) ?T ?T"
    using at_restD [OF assms(1)] by blast+
  note wf = winvD(1) [OF w assms(2)]
  obtain x y ys where c: "c_lits c = x # y # ys" by (rule two_lits [OF clause_wfD(2) [OF wf]])
  have xy: "x \<noteq> y" using clause_wfD(1) [OF wf] c by simp
  have guard: "\<exists>l \<in> set (c_lits c). l \<in> ?T" if "- m \<in> ?T" "a \<in> w_clause ` set (wl t m)" "other_lit c m \<in> set (c_lits c)" for m
  proof -
    from that(2) obtain v where v: "v \<in> set (wl t m)" "w_clause v = a" by auto
    have "w_blit v \<in> ?T \<or> other_lit c m \<in> ?T"
      using b that(1) v assms(2,3) by (auto simp: blocked_def guarded_def)
    then show ?thesis using watch_clause(2) [OF w v(1)] v(2) assms(2) that(3) by auto
  qed
  have "a \<in> w_clause ` set (wl t x)" "a \<in> w_clause ` set (wl t y)"
    using winvD(4) [OF w assms(2,3), of 0] winvD(4) [OF w assms(2,3), of 1] c by simp_all
  then show ?thesis using guard [of x] guard [of y] xy c by (auto simp: closed_def other_lit_def)
qed

text \<open>
  The check of a clean clause: it comes back to the root state, a positive answer means that the clause follows, and
  a negative one comes with a consistent set of literals that extends the trail and the negated clause and to which
  no clause in the memory can be applied.
\<close>

lemma ck_check_ok:
  assumes "at_rest t" "\<not> inconsistent t" "\<forall>l \<in> set (simplified t). lit_in t l" "clean (ck_trail t) (simplified t)"
  shows "\<exists>ok u. ck_check t = Ok (ok, u) \<and> at_rest u \<and> ck_trail u = ck_trail t \<and> moved t u \<and>
    (\<forall>\<sigma>. models \<sigma> t \<longrightarrow> models \<sigma> u) \<and> (ok \<longrightarrow> (\<forall>\<sigma>. models \<sigma> t \<longrightarrow> sat_clause \<sigma> (simplified t))) \<and>
    (\<not> ok \<longrightarrow> (\<exists>T. set (ck_trail t) \<union> uminus ` set (simplified t) \<subseteq> T \<and> (\<forall>l \<in> T. - l \<notin> T) \<and>
      (\<forall>a c. memory t a = Some c \<longrightarrow> c_size c \<noteq> 0 \<longrightarrow> closed T (c_lits c))))"
proof -
  let ?tr = "ck_trail t"
  have inv: "prop_inv t" and n: "next_to_propagate t = length ?tr" using assms(1) by (simp_all add: at_rest_def)
  obtain v where v: "rfold (\<lambda>l. assume_lit (- l)) (simplified t) t = Ok v" "prop_inv v" "moved t v"
    "next_to_propagate v = next_to_propagate t" "memory v = memory t" "wl v = wl t"
    "set (ck_trail v) = set ?tr \<union> uminus ` set (simplified t)"
    using assume_lits_ok [OF inv, of "simplified t"] assms(3,4) by (auto simp: clean_def)
  obtain res w where w: "propagate v = Ok (res, w)" "propagated v res w" "res \<longrightarrow> next_to_propagate w = length (ck_trail w)"
    using propagate_ok [OF v(2)] by blast
  have p: "trail_inv w" "winv (lit_in w) (memory w) (wl w)" "moved v w" "\<And>\<sigma>. models \<sigma> v \<Longrightarrow> res \<and> models \<sigma> w"
    "blocked (memory v) (wl v) P T \<Longrightarrow> P \<subseteq> set (take (next_to_propagate v) (ck_trail v)) \<Longrightarrow> T \<subseteq> set (ck_trail v) \<Longrightarrow>
       blocked (memory w) (wl w) P T" "res \<Longrightarrow> prop_inv w" for P T
    using w(2) unfolding propagated_def by blast+
  have m: "moved t w" by (rule moved_trans [OF v(3) p(3)])
  obtain ys where "ck_trail w = ?tr @ ys" using m by (auto simp: moved_def)
  then obtain u where u: "ck_backtrack (length ?tr) w = Ok u" "trail_inv u" "ck_trail u = ?tr" "next_to_propagate u = length ?tr"
    "u = w\<lparr>ck_vals := ck_vals u, ck_trail := ?tr, next_to_propagate := length ?tr\<rparr>"
    using ck_backtrack_ok [OF p(1)] by blast
  have f: "memory u = memory w" "wl u = wl w" "lit_in u = lit_in w" "frame u = frame w" by (subst u(5), simp)+
  have "blocked (memory v) (wl v) (set ?tr) (set ?tr)" using inv n v(5,6) by (simp add: prop_inv_def)
  then have "blocked (memory w) (wl w) (set ?tr) (set ?tr)"
    by (rule p(5)) (use v(4,7) n moved_prefix(1) [OF v(3), of "length ?tr"] in auto)
  then have rest: "at_rest u" using u(2-4) p(2) f by (simp add: at_rest_def prop_inv_def)
  have mu: "moved t u" using m f(1,4) u(3) by (simp add: moved_def)
  have mod: "models \<sigma> u" if "models \<sigma> t" for \<sigma>
  proof -
    have "sat_clause \<sigma> (c_lits d)" if "memory u a = Some d" for a d
    proof -
      from moved_memory(1) [OF mu that] obtain c where "memory t a = Some c" "same_clause c d" by blast
      then show ?thesis using \<open>models \<sigma> t\<close> mset_eq_setD [of "c_lits d" "c_lits c"]
        by (auto simp: models_def same_clause_def sat_clause_iff)
    qed
    then show ?thesis using that u(3) by (simp add: models_def)
  qed
  have sound: "sat_clause \<sigma> (simplified t)" if "\<not> res" "models \<sigma> t" for \<sigma>
  proof (rule ccontr)
    assume "\<not> sat_clause \<sigma> (simplified t)"
    then have "holds \<sigma> (- l)" if "l \<in> set (simplified t)" for l
      using that assms(3) holds_minus [of l \<sigma>] by (auto simp: sat_clause_iff lit_in_def)
    then have "models \<sigma> v" using that(2) v(5,7) by (auto simp: models_def)
    then show False using p(4) that(1) by blast
  qed
  have complete: "\<exists>T. set ?tr \<union> uminus ` set (simplified t) \<subseteq> T \<and> (\<forall>l \<in> T. - l \<notin> T) \<and>
      (\<forall>a c. memory t a = Some c \<longrightarrow> c_size c \<noteq> 0 \<longrightarrow> closed T (c_lits c))" if res
  proof (intro exI [of _ "set (ck_trail w)"] conjI allI impI)
    have aw: "at_rest w" using p(6) w(3) that by (simp add: at_rest_def)
    show "set ?tr \<union> uminus ` set (simplified t) \<subseteq> set (ck_trail w)" using v(7) moved_prefix(2) [OF p(3) le_refl] by simp
    show "\<forall>l \<in> set (ck_trail w). - l \<notin> set (ck_trail w)" using trail_invD(8) [OF p(1)] by blast
    fix a c assume c: "memory t a = Some c" "c_size c \<noteq> 0"
    obtain d where d: "memory w a = Some d" "same_clause c d" using moved_memory(2) [OF m c(1)] by blast
    then have "closed (set (ck_trail w)) (c_lits d)" using rest_closed [OF aw] c(2) by (simp add: same_clause_def)
    moreover have "set (c_lits d) = set (c_lits c)" using d(2) by (auto simp: same_clause_def dest: mset_eq_setD)
    ultimately show "closed (set (ck_trail w)) (c_lits c)" by (simp add: closed_def)
  qed
  have "ck_check t = Ok (\<not> res, u)" using assms(2) v(1) w(1) u(1) n by (simp add: ck_check_def)
  then show ?thesis using rest u(3) mu mod sound complete by (intro exI [of _ "\<not> res"] exI [of _ u]) simp
qed

section \<open>The memory and its owners\<close>

lemma inert_wl [simp]:
  "wl (t\<lparr>inconsistent := b\<rparr>) = wl t" "wl (t\<lparr>fresh := n\<rparr>) = wl t" "wl (t\<lparr>ck_num_clauses := n\<rparr>) = wl t"
  "wl (t\<lparr>ck_num_garbage := n\<rparr>) = wl t" "wl (t\<lparr>chains := s\<rparr>) = wl t" "wl (t\<lparr>ck_garbage := as\<rparr>) = wl t"
  "wl (t\<lparr>simplified := c\<rparr>) = wl t" "wl (t\<lparr>ck_last_id := n\<rparr>) = wl t"
  by (simp_all add: fun_eq_iff wl_def)

lemma inert_lit_in [simp]:
  "lit_in (t\<lparr>inconsistent := b\<rparr>) = lit_in t" "lit_in (t\<lparr>fresh := n\<rparr>) = lit_in t" "lit_in (t\<lparr>ck_num_clauses := n\<rparr>) = lit_in t"
  "lit_in (t\<lparr>ck_num_garbage := n\<rparr>) = lit_in t" "lit_in (t\<lparr>chains := s\<rparr>) = lit_in t" "lit_in (t\<lparr>ck_garbage := as\<rparr>) = lit_in t"
  "lit_in (t\<lparr>simplified := c\<rparr>) = lit_in t" "lit_in (t\<lparr>ck_last_id := n\<rparr>) = lit_in t"
  by (simp_all add: fun_eq_iff lit_in_def)

lemma inert_trail [simp]:
  "trail_inv (t\<lparr>inconsistent := b\<rparr>) = trail_inv t" "trail_inv (t\<lparr>fresh := n\<rparr>) = trail_inv t"
  "trail_inv (t\<lparr>ck_num_clauses := n\<rparr>) = trail_inv t" "trail_inv (t\<lparr>ck_num_garbage := n\<rparr>) = trail_inv t"
  "trail_inv (t\<lparr>chains := s\<rparr>) = trail_inv t" "trail_inv (t\<lparr>ck_garbage := as\<rparr>) = trail_inv t"
  "trail_inv (t\<lparr>simplified := c\<rparr>) = trail_inv t" "trail_inv (t\<lparr>ck_last_id := n\<rparr>) = trail_inv t"
  by (simp_all add: trail_inv_def)

lemma inert_rest [simp]:
  "at_rest (t\<lparr>inconsistent := b\<rparr>) = at_rest t" "at_rest (t\<lparr>fresh := n\<rparr>) = at_rest t"
  "at_rest (t\<lparr>ck_num_clauses := n\<rparr>) = at_rest t" "at_rest (t\<lparr>ck_num_garbage := n\<rparr>) = at_rest t"
  "at_rest (t\<lparr>chains := s\<rparr>) = at_rest t" "at_rest (t\<lparr>ck_garbage := as\<rparr>) = at_rest t"
  "at_rest (t\<lparr>simplified := c\<rparr>) = at_rest t" "at_rest (t\<lparr>ck_last_id := n\<rparr>) = at_rest t"
  by (simp_all add: at_rest_def prop_inv_def)

definition hashed :: "(nat \<rightharpoonup> CheckerClause) \<Rightarrow> nat list list \<Rightarrow> bool" where
  "hashed mem s \<longleftrightarrow> (\<forall>h < length s. \<forall>a \<in> set (s ! h). \<forall>c. mem a = Some c \<longrightarrow> reduce_hash (c_hash c) (length s) = Ok h)"

definition store_ok :: "Checker \<Rightarrow> bool" where
  "store_ok t \<longleftrightarrow> distinct (concat (chains t) @ ck_garbage t) \<and>
     dom (memory t) = set (concat (chains t)) \<union> set (ck_garbage t) \<and>
     (\<forall>a c. memory t a = Some c \<longrightarrow> (c_size c = 0 \<longleftrightarrow> a \<in> set (ck_garbage t)) \<and> a < fresh t) \<and>
     ck_num_clauses t = length (concat (chains t)) \<and> ck_num_garbage t = length (ck_garbage t) \<and>
     hashed (memory t) (chains t)"

lemma store_okD:
  assumes "store_ok t"
  shows "distinct (concat (chains t) @ ck_garbage t)" "dom (memory t) = set (concat (chains t)) \<union> set (ck_garbage t)"
    "memory t a = Some c \<Longrightarrow> c_size c = 0 \<longleftrightarrow> a \<in> set (ck_garbage t)" "memory t a = Some c \<Longrightarrow> a < fresh t"
    "ck_num_clauses t = length (concat (chains t))" "ck_num_garbage t = length (ck_garbage t)" "hashed (memory t) (chains t)"
  using assms unfolding store_ok_def by blast+

lemma store_ok_frame [simp]:
  "store_ok (t\<lparr>simplified := c\<rparr>) = store_ok t" "store_ok (t\<lparr>ck_last_id := n\<rparr>) = store_ok t"
  "store_ok (t\<lparr>inconsistent := b\<rparr>) = store_ok t"
  by (simp_all add: store_ok_def)

lemma store_ok_moved:
  assumes "store_ok t" "moved t u"
  shows "store_ok u"
proof -
  note S = store_okD [OF assms(1)]
  have F: "frame u = frame t" using assms(2) by (simp add: moved_def)
  note f = frameD [OF F] and m = moved_memory [OF assms(2)]
  have "dom (memory u) = dom (memory t)" using m by (fastforce simp: dom_def)
  moreover have "hashed (memory u) (chains t)"
    unfolding hashed_def
  proof (intro allI impI ballI)
    fix h a d assume "h < length (chains t)" "a \<in> set (chains t ! h)" "memory u a = Some d"
    with m(1) S(7) show "reduce_hash (c_hash d) (length (chains t)) = Ok h"
      unfolding hashed_def same_clause_def by fastforce
  qed
  moreover have "(c_size d = 0 \<longleftrightarrow> a \<in> set (ck_garbage t)) \<and> a < fresh t" if "memory u a = Some d" for a d
    using m(1) [OF that] S(3,4) by (auto simp: same_clause_def)
  ultimately show ?thesis using S(1,2,5,6) by (simp add: store_ok_def f)
qed

section \<open>Storing a clause\<close>

lemma push_chain_ok:
  assumes "h < length s"
  shows "push_chain h a s = Ok (s[h := a # s ! h])" "mset (concat (s[h := a # s ! h])) = add_mset a (mset (concat s))"
proof -
  show "push_chain h a s = Ok (s[h := a # s ! h])" using assms by (simp add: push_chain_def)
  have "mset (concat (s[h := a # s ! h])) + mset (s ! h) = add_mset a (mset (concat s)) + mset (s ! h)"
    using mset_concat_update [OF assms, of "a # s ! h"] by simp
  then show "mset (concat (s[h := a # s ! h])) = add_mset a (mset (concat s))" by simp
qed

lemma hashed_push:
  assumes "hashed mem s" "h < length s" "\<And>c. mem a = Some c \<Longrightarrow> reduce_hash (c_hash c) (length s) = Ok h"
  shows "hashed mem (s[h := a # s ! h])"
  using assms unfolding hashed_def by (auto simp: nth_list_update)

lemma chain_refill:
  assumes "hashed (memory t) s" "0 < length s" "\<forall>a \<in> set as. a \<in> dom (memory t)"
  shows "\<exists>u. rfold (\<lambda>a s'. rbind (clause_at a t) (\<lambda>c. rbind (reduce_hash (c_hash c) (length s)) (\<lambda>h. push_chain h a s'))) as s = Ok u \<and>
    length u = length s \<and> hashed (memory t) u \<and> mset (concat u) = mset as + mset (concat s)"
  using assms
proof (induction as arbitrary: s)
  case (Cons a as)
  obtain c where c: "memory t a = Some c" using Cons.prems(3) by auto
  obtain h where h: "h < length s" "reduce_hash (c_hash c) (length s) = Ok h"
    using reduce_hash_slot Cons.prems(2) by blast
  let ?s = "s[h := a # s ! h]"
  have "hashed (memory t) ?s" by (rule hashed_push [OF Cons.prems(1) h(1)]) (use h(2) c in simp)
  then obtain u where "rfold (\<lambda>a s'. rbind (clause_at a t) (\<lambda>c. rbind (reduce_hash (c_hash c) (length ?s)) (\<lambda>h. push_chain h a s'))) as ?s = Ok u"
    "length u = length s" "hashed (memory t) u" "mset (concat u) = mset as + mset (concat ?s)"
    using Cons.IH [of ?s] Cons.prems by auto
  then show ?case using h c push_chain_ok [OF h(1), of a] by (simp add: clause_at_def)
qed simp

lemma ck_enlarge_clauses_ok:
  assumes "store_ok t"
  shows "\<exists>s. ck_enlarge_clauses t = Ok (t\<lparr>chains := s\<rparr>) \<and> store_ok (t\<lparr>chains := s\<rparr>) \<and> 0 < length s"
proof -
  define n where "n = (if length (chains t) = 0 then 1 else 2 * length (chains t))"
  have "hashed (memory t) (replicate n [])" "0 < length (replicate n [])" by (simp_all add: hashed_def n_def)
  from chain_refill [OF this, of "concat (chains t)"]
  obtain s where s: "rfold (\<lambda>a s'. rbind (clause_at a t) (\<lambda>c. rbind (reduce_hash (c_hash c) n) (\<lambda>h. push_chain h a s')))
      (concat (chains t)) (replicate n []) = Ok s" "length s = n" "hashed (memory t) s" "mset (concat s) = mset (concat (chains t))"
    using store_okD(2) [OF assms] by auto
  have "ck_enlarge_clauses t = Ok (t\<lparr>chains := s\<rparr>)"
    unfolding ck_enlarge_clauses_def Let_def n_def [symmetric] rfold_concat using s(1) by simp
  moreover have "distinct (concat s @ ck_garbage t)" "set (concat s) = set (concat (chains t))" "length (concat s) = length (concat (chains t))"
    using store_okD(1) [OF assms] mset_eq_setD [OF s(4)] mset_eq_length [OF s(4)] mset_eq_imp_distinct_iff [OF s(4)] by simp_all
  ultimately show ?thesis using s(2,3) assms by (intro exI [of _ s]) (simp add: store_ok_def n_def)
qed

text \<open>The literals without a value.\<close>

definition opens :: "int list \<Rightarrow> int list \<Rightarrow> int list" where
  "opens tr c = filter (\<lambda>l. tval tr l = 0) c"

lemma open_pos_ok:
  assumes "trail_inv t" "\<forall>l \<in> set lits. lit_in t l"
  shows "\<exists>k. open_pos t lits n = Ok (n + k) \<and> k \<le> length lits \<and>
    (k < length lits \<longrightarrow> tval (ck_trail t) (lits ! k) = 0) \<and> (k = length lits \<longrightarrow> opens (ck_trail t) lits = [])"
  using assms(2)
proof (induction lits arbitrary: n)
  case (Cons l lits)
  have v: "ck_val l t = Ok (tval (ck_trail t) l)" using Cons.prems assms(1) by (simp add: ck_val_ok)
  show ?case
  proof (cases "tval (ck_trail t) l = 0")
    case True
    then show ?thesis using v by (intro exI [of _ 0]) simp
  next
    case False
    obtain k where "open_pos t lits (n + 1) = Ok (n + 1 + k)" "k \<le> length lits"
      "k < length lits \<longrightarrow> tval (ck_trail t) (lits ! k) = 0" "k = length lits \<longrightarrow> opens (ck_trail t) lits = []"
      using Cons.IH [of "n + 1"] Cons.prems by auto
    then show ?thesis using v False by (intro exI [of _ "Suc k"]) (simp add: opens_def)
  qed
qed (simp add: opens_def)

lemma select_watch_ok:
  assumes "trail_inv t" "\<forall>l \<in> set lits. lit_in t l" "i < length lits" "opens (ck_trail t) (drop i lits) \<noteq> []"
  shows "\<exists>out. select_watch t i lits = Ok out \<and> mset out = mset lits \<and> take i out = take i lits \<and> tval (ck_trail t) (out ! i) = 0"
proof (cases "tval (ck_trail t) (lits ! i) = 0")
  case True
  then show ?thesis using assms by (simp add: select_watch_def ck_val_ok)
next
  case False
  have "\<forall>l \<in> set (drop (i + 1) lits). lit_in t l" using assms(2) by (meson in_set_dropD)
  from open_pos_ok [OF assms(1) this, of "i + 1"]
  obtain k where k: "open_pos t (drop (i + 1) lits) (i + 1) = Ok (i + 1 + k)" "k \<le> length lits - (i + 1)"
    "k < length lits - (i + 1) \<longrightarrow> tval (ck_trail t) (drop (i + 1) lits ! k) = 0"
    "k = length lits - (i + 1) \<longrightarrow> opens (ck_trail t) (drop (i + 1) lits) = []" by auto
  let ?j = "i + 1 + k"
  have "drop i lits = lits ! i # drop (i + 1) lits" using assms(3) by (simp add: Cons_nth_drop_Suc)
  then have "opens (ck_trail t) (drop (i + 1) lits) \<noteq> []" using assms(4) False by (simp add: opens_def)
  then have j: "?j < length lits" using k(2,4) by (cases "k = length lits - (i + 1)") auto
  let ?out = "lits[i := lits ! ?j, ?j := lits ! i]"
  have "select_watch t i lits = Ok ?out"
    using False k(1) j assms(2,3) by (simp add: select_watch_def ck_val_ok assms(1))
  moreover have "mset ?out = mset lits" by (rule mset_swap [OF j assms(3)])
  moreover have "tval (ck_trail t) (?out ! i) = 0" using k(3) j assms(3) by (simp add: nth_list_update)
  moreover have "take i ?out = take i lits" by simp
  ultimately show ?thesis by blast
qed

lemma select_watches_ok:
  assumes "trail_inv t" "\<forall>l \<in> set c. lit_in t l" "2 \<le> length (opens (ck_trail t) c)"
  shows "\<exists>x y ys. rfold (select_watch t) [0, 1] c = Ok (x # y # ys) \<and> mset (x # y # ys) = mset c \<and>
    tval (ck_trail t) x = 0 \<and> tval (ck_trail t) y = 0"
proof -
  let ?o = "opens (ck_trail t)"
  have len: "2 \<le> length c" using assms(3) length_filter_le [of _ c] unfolding opens_def by (rule le_trans)
  have "0 < length c" "?o (drop 0 c) \<noteq> []" using len assms(3) by auto
  then obtain d where d: "select_watch t 0 c = Ok d" "mset d = mset c" "tval (ck_trail t) (d ! 0) = 0"
    using select_watch_ok [OF assms(1,2)] by blast
  have ld: "2 \<le> length d" "set d = set c" using len mset_eq_length [OF d(2)] mset_eq_setD [OF d(2)] by simp_all
  obtain x y ys where xs: "d = x # y # ys" by (rule two_lits [OF ld(1)])
  have "mset (?o d) = mset (?o c)" using d(2) by (simp add: opens_def)
  then have "2 \<le> length (?o d)" using assms(3) mset_eq_length by fastforce
  then have "?o (drop 1 d) \<noteq> []" using d(3) xs by (auto simp: opens_def)
  moreover have "1 < length d" "\<forall>l \<in> set d. lit_in t l" using ld assms(2) by auto
  ultimately obtain e where e: "select_watch t 1 d = Ok e" "mset e = mset d" "take 1 e = take 1 d" "tval (ck_trail t) (e ! 1) = 0"
    using select_watch_ok [OF assms(1), of d 1] by blast
  have "2 \<le> length e" using ld(1) mset_eq_length [OF e(2)] by simp
  then obtain u v vs where es: "e = u # v # vs" by (rule two_lits)
  show ?thesis using d e xs es by (intro exI [of _ u] exI [of _ v] exI [of _ vs]) simp
qed

text \<open>A new clause with watches at two open literals.\<close>

definition with_clause :: "nat \<Rightarrow> CheckerClause \<Rightarrow> Checker \<Rightarrow> Checker" where
  "with_clause a c t =
     (let x = c_lits c ! 0; y = c_lits c ! 1;
          t = set_wl x (wl t x @ [\<lparr>w_blit = y, w_size = c_size c, w_clause = a\<rparr>]) (t\<lparr>memory := (memory t)(a \<mapsto> c)\<rparr>)
      in set_wl y (wl t y @ [\<lparr>w_blit = x, w_size = c_size c, w_clause = a\<rparr>]) t)"

lemma winv_with_clause:
  assumes "winv R mem W" "mem a = None" "clause_wf R c" "c_size c = length (c_lits c)" "x = c_lits c ! 0" "y = c_lits c ! 1"
  shows "winv R (mem(a \<mapsto> c)) (W(x := W x @ [\<lparr>w_blit = y, w_size = c_size c, w_clause = a\<rparr>],
    y := W y @ [\<lparr>w_blit = x, w_size = c_size c, w_clause = a\<rparr>]))"
    (is "winv R ?mem ?W")
proof -
  note I = winvD [OF assms(1)]
  obtain ys where c: "c_lits c = x # y # ys"
    using two_lits [OF clause_wfD(2) [OF assms(3)]] assms(5,6) by (metis nth_Cons_0 nth_Cons_Suc One_nat_def)
  have xy: "x \<noteq> y" using clause_wfD(1) [OF assms(3)] c by simp
  have fresh: "w_clause w \<noteq> a" if "w \<in> set (W l)" for w l using I(2) [OF that] assms(2) by (auto simp: watch_ok_def)
  have old: "watch_ok ?mem l w" if "w \<in> set (W l)" for w l by (rule watch_ok_other [OF I(2) [OF that] fresh [OF that]])
  show ?thesis
    unfolding winv_def
  proof (intro conjI allI impI)
    show "clause_wf R d" if "?mem b = Some d" for b d using that I(1) [of b d] assms(3) by (auto split: if_splits)
    show "\<forall>w \<in> set (?W l). watch_ok ?mem l w" for l
      using old xy c assms(4) by (auto simp: watch_ok_def split: if_splits)
    show "distinct (map w_clause (?W l))" for l
      using I(3) fresh xy by (auto split: if_splits)
    fix b d and i :: nat assume d: "?mem b = Some d" "c_size d \<noteq> 0" "i < 2"
    show "b \<in> w_clause ` set (?W (c_lits d ! i))"
    proof (cases "b = a")
      case True
      then have "c_lits d ! i = x \<or> c_lits d ! i = y" using d c by (auto simp: less_2_cases_iff)
      then show ?thesis using True xy by auto
    next
      case False
      then show ?thesis using I(4) [of b d i] d by auto
    qed
  qed
qed

lemma blocked_with_clause:
  assumes "winv R mem W" "blocked mem W P T" "mem a = None" "- x \<notin> P" "- y \<notin> P"
  shows "blocked (mem(a \<mapsto> c)) (W(x := ws, y := vs)) P T"
  unfolding blocked_def
proof (intro allI impI)
  fix l assume l: "- l \<in> P"
  have "a \<notin> w_clause ` set (W l)" using watch_memory [OF assms(1)] assms(3) by fastforce
  then show "guarded (mem(a \<mapsto> c)) l ((W(x := ws, y := vs)) l) T"
    using guarded_other assms(2,4,5) l by (auto simp: blocked_def)
qed

lemma with_clause_ok:
  assumes "at_rest t" "memory t a = None" "clause_wf (lit_in t) c" "c_size c = length (c_lits c)"
    "tval (ck_trail t) (c_lits c ! 0) = 0" "tval (ck_trail t) (c_lits c ! 1) = 0"
  shows "at_rest (with_clause a c t)" "memory (with_clause a c t) = (memory t)(a \<mapsto> c)"
    "ck_trail (with_clause a c t) = ck_trail t" "frame (with_clause a c t) = frame t"
proof -
  let ?x = "c_lits c ! 0" and ?y = "c_lits c ! 1"
  note inv = at_restD(2-5) [OF assms(1)]
  have l: "lit_in t ?x" "lit_in t ?y" using clause_wfD(2) [OF assms(3)] by (auto intro!: clause_wfD(3) [OF assms(3)] nth_mem)
  show f: "memory (with_clause a c t) = (memory t)(a \<mapsto> c)" "ck_trail (with_clause a c t) = ck_trail t" "frame (with_clause a c t) = frame t"
    by (simp_all add: with_clause_def Let_def)
  have "?x \<noteq> ?y"
    by (rule two_lits [OF clause_wfD(2) [OF assms(3)]]) (use clause_wfD(1) [OF assms(3)] in simp)
  then have w: "wl (with_clause a c t) = (wl t)(?x := wl t ?x @ [\<lparr>w_blit = ?y, w_size = c_size c, w_clause = a\<rparr>],
    ?y := wl t ?y @ [\<lparr>w_blit = ?x, w_size = c_size c, w_clause = a\<rparr>])"
    using inv(1) l by (simp add: with_clause_def Let_def)
  have "lit_in (with_clause a c t) = lit_in t" "trail_inv (with_clause a c t)"
    "next_to_propagate (with_clause a c t) = length (ck_trail t)"
    using inv(1,3) by (simp_all add: with_clause_def Let_def)
  moreover have "winv (lit_in t) ((memory t)(a \<mapsto> c)) (wl (with_clause a c t))"
    unfolding w by (rule winv_with_clause [OF inv(2) assms(2-4) refl refl])
  moreover have "blocked ((memory t)(a \<mapsto> c)) (wl (with_clause a c t)) (set (ck_trail t)) (set (ck_trail t))"
    unfolding w by (rule blocked_with_clause [OF inv(2,4) assms(2)]) (use assms(5,6) in \<open>simp_all add: tval_zero\<close>)
  ultimately show "at_rest (with_clause a c t)" by (simp add: at_rest_def prop_inv_def f)
qed

lemma ck_new_clause_ok:
  assumes "at_rest t" "memory t (fresh t) = None" "\<forall>l \<in> set (simplified t). lit_in t l" "distinct (simplified t)"
    "2 \<le> length (opens (ck_trail t) (simplified t))"
  shows "\<exists>c u. ck_new_clause t = Ok (fresh t, u) \<and> at_rest u \<and> memory u = (memory t)(fresh t \<mapsto> c) \<and> ck_trail u = ck_trail t \<and>
    frame u = frame (t\<lparr>fresh := fresh t + 1, ck_num_clauses := ck_num_clauses t + 1\<rparr>) \<and>
    mset (c_lits c) = mset (simplified t) \<and> c_size c = length (simplified t) \<and> c_hash c = compute_hash (ck_last_id t)"
proof -
  have inv: "trail_inv t" using assms(1) by (simp add: at_rest_def prop_inv_def)
  obtain x y ys where xy: "rfold (select_watch t) [0, 1] (simplified t) = Ok (x # y # ys)" "mset (x # y # ys) = mset (simplified t)"
    "tval (ck_trail t) x = 0" "tval (ck_trail t) y = 0" using select_watches_ok [OF inv assms(3,5)] by blast
  let ?c = "\<lparr>c_hash = compute_hash (ck_last_id t), c_size = length (simplified t), c_lits = x # y # ys\<rparr>"
  let ?t = "t\<lparr>fresh := fresh t + 1, ck_num_clauses := ck_num_clauses t + 1\<rparr>"
  have s: "set (x # y # ys) = set (simplified t)" "length (simplified t) = length (x # y # ys)" "distinct (x # y # ys)"
    using mset_eq_setD [OF xy(2)] mset_eq_length [OF xy(2)] mset_eq_imp_distinct_iff [OF xy(2)] assms(4) by simp_all
  have l: "lit_in t x" "lit_in t y" using s(1) assms(3) by auto
  have wf: "clause_wf (lit_in ?t) ?c" using s assms(3) by (auto simp: clause_wf_def)
  have C: "at_rest (with_clause (fresh t) ?c ?t)" "memory (with_clause (fresh t) ?c ?t) = (memory t)(fresh t \<mapsto> ?c)"
    "ck_trail (with_clause (fresh t) ?c ?t) = ck_trail t" "frame (with_clause (fresh t) ?c ?t) = frame ?t"
    using with_clause_ok [of ?t "fresh t" ?c, OF _ _ wf] assms(1,2) xy(3,4) s(2) by simp_all
  let ?m = "t\<lparr>memory := (memory t)(fresh t \<mapsto> ?c), fresh := fresh t + 1, ck_num_clauses := ck_num_clauses t + 1\<rparr>"
  have m: "?m = ?t\<lparr>memory := (memory t)(fresh t \<mapsto> ?c)\<rparr>" by simp
  have "ck_new_clause t = Ok (fresh t, with_clause (fresh t) ?c ?t)"
    unfolding ck_new_clause_def Let_def xy(1) rbind.simps m
    using inv l by (simp add: watcher_ok with_clause_def Let_def del: fun_upd_apply)
  then show ?thesis using C xy(2) by (intro exI [of _ ?c]) auto
qed

definition stored :: "Checker \<Rightarrow> Checker \<Rightarrow> bool" where
  "stored t u \<longleftrightarrow> at_rest u \<and> store_ok u \<and> ck_trail u = ck_trail t \<and> inconsistent u = inconsistent t \<and>
     (\<exists>a c. memory t a = None \<and> memory u = (memory t)(a \<mapsto> c) \<and> mset (c_lits c) = mset (simplified t) \<and> c_size c \<noteq> 0)"

lemma ck_insert_ok:
  assumes "at_rest t" "store_ok t" "\<forall>l \<in> set (simplified t). lit_in t l" "distinct (simplified t)"
    "2 \<le> length (opens (ck_trail t) (simplified t))"
  shows "\<exists>u. ck_insert t = Ok u \<and> stored t u"
proof -
  obtain s where s: "(if ck_num_clauses t = length (chains t) then ck_enlarge_clauses t else Ok t) = Ok (t\<lparr>chains := s\<rparr>)"
    "store_ok (t\<lparr>chains := s\<rparr>)" "0 < length s"
  proof (cases "ck_num_clauses t = length (chains t)")
    case True
    then show ?thesis using that ck_enlarge_clauses_ok [OF assms(2)] by auto
  next
    case False
    then have "chains t \<noteq> []" using store_okD(5) [OF assms(2)] by auto
    then show ?thesis using that [of "chains t"] False assms(2) by simp
  qed
  let ?t = "t\<lparr>chains := s\<rparr>"
  note S = store_okD [OF s(2)]
  obtain h where h: "h < length s" "reduce_hash (compute_hash (ck_last_id t)) (length s) = Ok h"
    using reduce_hash_slot s(3) by blast
  have new: "memory t (fresh t) = None" using S(4) [of "fresh t"] by (cases "memory t (fresh t)") auto
  from ck_new_clause_ok [of ?t]
  obtain c u where u: "ck_new_clause ?t = Ok (fresh t, u)" "at_rest u" "memory u = (memory t)(fresh t \<mapsto> c)" "ck_trail u = ck_trail t"
    "frame u = frame (?t\<lparr>fresh := fresh t + 1, ck_num_clauses := ck_num_clauses t + 1\<rparr>)"
    "mset (c_lits c) = mset (simplified t)" "c_size c = length (simplified t)" "c_hash c = compute_hash (ck_last_id t)"
    using assms(1,3-5) new by auto
  note f = frameD [OF u(5)]
  let ?u = "u\<lparr>chains := s[h := fresh t # s ! h]\<rparr>"
  have cu: "chains u = s" using f by simp
  have run: "ck_insert t = Ok ?u"
    unfolding ck_insert_def s(1) rbind.simps using h u(1) push_chain_ok(1) [OF h(1)] cu by simp
  have m: "mset (concat (s[h := fresh t # s ! h])) = add_mset (fresh t) (mset (concat s))" by (rule push_chain_ok(2) [OF h(1)])
  have out: "fresh t \<notin> set (concat s) \<union> set (ck_garbage t)" 
  proof -
    have "fresh t \<notin> dom (memory t)" using new by (simp add: domIff)
    then show ?thesis using S(2) by simp
  qed
  have sz: "c_size c \<noteq> 0" using u(7) assms(5) by (auto simp: opens_def)
  have "store_ok ?u"
    unfolding store_ok_def
  proof (intro conjI allI impI)
    have m2: "mset (concat (chains ?u) @ ck_garbage ?u) = add_mset (fresh t) (mset (concat s @ ck_garbage t))"
      using m f by simp
    show "distinct (concat (chains ?u) @ ck_garbage ?u)"
      using mset_eq_imp_distinct_iff [of "concat (chains ?u) @ ck_garbage ?u" "fresh t # concat s @ ck_garbage t"] m2 S(1) out by simp
    show "dom (memory ?u) = set (concat (chains ?u)) \<union> set (ck_garbage ?u)"
      using mset_eq_setD [of "concat (chains ?u)" "fresh t # concat s"] m u(3) S(2) f by simp
    fix a d assume d: "memory ?u a = Some d"
    show "c_size d = 0 \<longleftrightarrow> a \<in> set (ck_garbage ?u)"
      using d u(3) sz out S(3) [of a d] f by (auto split: if_splits)
    show "a < fresh ?u" using d u(3) S(4) [of a d] f by (auto split: if_splits)
  next
    show "ck_num_clauses ?u = length (concat (chains ?u))"
      using mset_eq_length [of "concat (chains ?u)" "fresh t # concat s"] m S(5) f by simp
    show "ck_num_garbage ?u = length (ck_garbage ?u)" using S(6) f by simp
    have "hashed (memory ?u) s"
      using S(7) out u(3) unfolding hashed_def by (auto simp: set_concat)
    then show "hashed (memory ?u) (chains ?u)"
      using hashed_push [of "memory ?u" s h "fresh t"] h u(3,8) by simp
  qed
  then show ?thesis
    using run u(2-4,6) new sz f unfolding stored_def by (intro exI [of _ ?u]) auto
qed

lemma open_literal_ok:
  assumes "trail_inv t" "\<forall>l \<in> set c. lit_in t l \<and> l \<notin> set (ck_trail t)"
  shows "open_literal t c unit = Ok (if opens (ck_trail t) c = [] then unit
    else if unit = 0 \<and> tl (opens (ck_trail t) c) = [] then hd (opens (ck_trail t) c) else INT_MIN)"
  using assms(2)
proof (induction c arbitrary: unit)
  case (Cons l c)
  have v: "ck_val l t = Ok (tval (ck_trail t) l)" "l \<noteq> 0" using Cons.prems assms(1) by (auto simp: ck_val_ok lit_in_def)
  have "tval (ck_trail t) l < 0 \<longleftrightarrow> tval (ck_trail t) l \<noteq> 0" using Cons.prems by (auto simp: tval_def)
  then show ?case using v Cons.IH [of unit] Cons.IH [of l] Cons.prems by (auto simp: opens_def)
qed (simp add: opens_def)

section \<open>Adding a clause\<close>

text \<open>A clause is represented by a true literal or by a stored clause.\<close>

definition represented :: "int list \<Rightarrow> Checker \<Rightarrow> bool" where
  "represented c t \<longleftrightarrow> (\<exists>l \<in> set c. l \<in> set (ck_trail t)) \<or>
     (\<exists>a d. memory t a = Some d \<and> c_size d \<noteq> 0 \<and> set (c_lits d) = set c)"

lemma models_frame:
  assumes "memory u = memory t" "ck_trail u = ck_trail t"
  shows "models \<sigma> u = models \<sigma> t"
  using assms by (simp add: models_def)

lemma opens_false:
  assumes "clean (ck_trail t) c" "l \<in> set c" "l \<notin> set (opens (ck_trail t) c)"
  shows "- l \<in> set (ck_trail t)"
  using assms by (auto simp: clean_def opens_def tval_zero)

lemma sat_open:
  assumes "trail_inv t" "clean (ck_trail t) c" "\<forall>l \<in> set c. lit_in t l" "models \<sigma> t" "sat_clause \<sigma> c"
  shows "\<exists>l \<in> set (opens (ck_trail t) c). holds \<sigma> l"
proof -
  obtain l where l: "l \<in> set c" "holds \<sigma> l" using assms(5) by (auto simp: sat_clause_iff)
  have "\<not> - l \<in> set (ck_trail t)"
    using assms(3,4) l holds_minus [of l \<sigma>] by (auto simp: models_def lit_in_def)
  then show ?thesis using opens_false [OF assms(2) l(1)] l(2) by blast
qed

lemma represented_mono:
  assumes "represented d t" "\<And>a c. memory t a = Some c \<Longrightarrow> \<exists>e. memory u a = Some e \<and> same_clause c e" "set (ck_trail t) \<subseteq> set (ck_trail u)"
  shows "represented d u"
proof (cases "\<exists>l \<in> set d. l \<in> set (ck_trail t)")
  case False
  then obtain a c where c: "memory t a = Some c" "c_size c \<noteq> 0" "set (c_lits c) = set d" using assms(1) unfolding represented_def by blast
  obtain e where "memory u a = Some e" "same_clause c e" using assms(2) [OF c(1)] by blast
  then show ?thesis
    using c(2,3) mset_eq_setD [of "c_lits e" "c_lits c"] unfolding represented_def by (metis same_clause_def)
qed (use assms(3) in \<open>auto simp: represented_def\<close>)

lemma represented_moved: "represented d t \<Longrightarrow> moved t u \<Longrightarrow> represented d u"
  by (rule represented_mono) (use moved_memory(2) moved_prefix(2) in blast)+

definition added :: "Checker \<Rightarrow> Checker \<Rightarrow> bool" where
  "added t u \<longleftrightarrow> store_ok u \<and> (\<not> inconsistent u \<longrightarrow> at_rest u \<and> represented (simplified t) u) \<and>
     (\<not> inconsistent u \<longrightarrow> (\<forall>d. represented d t \<longrightarrow> represented d u)) \<and>
     (\<forall>\<sigma>. models \<sigma> t \<longrightarrow> sat_clause \<sigma> (simplified t) \<longrightarrow> \<not> inconsistent u \<and> models \<sigma> u)"

lemma ck_add_clause_ok:
  assumes "at_rest t" "store_ok t" "\<not> inconsistent t" "\<forall>l \<in> set (simplified t). lit_in t l" "clean (ck_trail t) (simplified t)"
  shows "\<exists>u. ck_add_clause t = Ok u \<and> added t u"
proof -
  let ?o = "opens (ck_trail t) (simplified t)"
  note inv = at_restD(1,2) [OF assms(1)]
  have dist: "distinct (simplified t)" using assms(5) by (simp add: clean_def)
  have ol: "open_literal t (simplified t) 0 = Ok (if ?o = [] then 0 else if 0 = (0 :: int) \<and> tl ?o = [] then hd ?o else INT_MIN)"
    by (rule open_literal_ok [OF inv(2)]) (use assms(4,5) in \<open>auto simp: clean_def\<close>)
  consider "?o = []" | x where "?o = [x]" | x y ys where "?o = x # y # ys" by (cases ?o; cases "tl ?o") auto
  then show ?thesis
  proof cases
    case 1
    then have "ck_add_clause t = Ok (t\<lparr>inconsistent := True\<rparr>)" using ol by (simp add: ck_add_clause_def Let_def)
    moreover have "\<not> sat_clause \<sigma> (simplified t)" if "models \<sigma> t" for \<sigma>
      using sat_open [OF inv(2) assms(5,4) that] 1 by auto
    ultimately show ?thesis using assms(2) by (intro exI [of _ "t\<lparr>inconsistent := True\<rparr>"]) (simp add: added_def)
  next
    case 2
    then have x: "x \<in> set (simplified t)" "tval (ck_trail t) x = 0" by (auto simp: opens_def dest: filter_eq_ConsD)
    then have l: "lit_in t x" using assms(4) by blast
    then have nz: "x \<noteq> 0" "x \<noteq> INT_MIN" using trail_invD(2) [OF inv(2)] by (auto simp: lit_in_def INT_MIN_def)
    let ?t = "assigned x t"
    have at: "assign x t = Ok ?t" "prop_inv ?t" using assign_ok(1) [OF inv(2) l x(2)] prop_inv_assigned [OF inv(1) l x(2)] by simp_all
    obtain res v where v: "propagate ?t = Ok (res, v)" "propagated ?t res v" "res \<longrightarrow> next_to_propagate v = length (ck_trail v)"
      using propagate_ok [OF at(2)] by blast
    have p: "moved ?t v" "\<And>\<sigma>. models \<sigma> ?t \<Longrightarrow> res \<and> models \<sigma> v" "res \<Longrightarrow> prop_inv v" using v(2) unfolding propagated_def by blast+
    let ?u = "if \<not> res then v\<lparr>inconsistent := True\<rparr> else v"
    have m: "moved t v" by (rule moved_trans [OF moved_assigned [OF moved_refl] p(1)])
    have "frame v = frame t" using m by (simp add: moved_def)
    then have i: "\<not> inconsistent v" using frameD(3) assms(3) by metis
    have xv: "x \<in> set (ck_trail v)" using moved_prefix(2) [OF p(1) le_refl] by simp
    have run: "ck_add_clause t = Ok ?u"
    proof -
      have "simplified t \<noteq> []" using x(1) by auto
      then have "ck_add_clause t = rbind (Ok ?t) (\<lambda>t. rbind (propagate t) (\<lambda>(res, t). Ok (if \<not> res then t\<lparr>inconsistent := True\<rparr> else t)))"
        unfolding ck_add_clause_def ol Let_def using 2 nz at(1) by simp
      then show ?thesis using v(1) by simp
    qed
    have mod: "res \<and> models \<sigma> v" if "models \<sigma> t" "sat_clause \<sigma> (simplified t)" for \<sigma>
      by (rule p(2)) (use sat_open [OF inv(2) assms(5,4) that] 2 that(1) in \<open>simp add: models_def\<close>)
    have st: "store_ok v" by (rule store_ok_moved [OF assms(2) m])
    have rep: "at_rest v \<and> represented (simplified t) v" if res
      using p(3) [OF that] v(3) that xv x(1) by (auto simp: at_rest_def represented_def)
    have "added t ?u"
    proof (cases res)
      case True
      then show ?thesis using st i rep mod represented_moved [OF _ m] by (simp add: added_def)
    next
      case False
      then show ?thesis using st mod by (auto simp: added_def)
    qed
    then show ?thesis using run by blast
  next
    case 3
    then have "2 \<le> length ?o" by simp
    from ck_insert_ok [OF assms(1,2,4) dist this] obtain u where u: "ck_insert t = Ok u" "stored t u" by blast
    have ne: "simplified t \<noteq> []" using 3 by (auto simp: opens_def)
    have "ck_add_clause t = Ok u" using ol 3 u(1) ne by (simp add: ck_add_clause_def Let_def INT_MIN_def)
    moreover have "added t u"
    proof -
      obtain a c where c: "memory t a = None" "memory u = (memory t)(a \<mapsto> c)" "mset (c_lits c) = mset (simplified t)" "c_size c \<noteq> 0"
        using u(2) by (auto simp: stored_def)
      have s: "set (c_lits c) = set (simplified t)" by (rule mset_eq_setD [OF c(3)])
      then have "represented (simplified t) u" using c(2,4) unfolding represented_def by (metis map_upd_Some_unfold)
      moreover have "models \<sigma> u" if "models \<sigma> t" "sat_clause \<sigma> (simplified t)" for \<sigma>
        using that c(2) s u(2) by (auto simp: models_def stored_def sat_clause_iff)
      moreover have "represented d u" if "represented d t" for d
        by (rule represented_mono [OF that]) (use c(1,2) u(2) in \<open>auto simp: stored_def\<close>)
      ultimately show ?thesis using u(2) assms(3) by (simp add: added_def stored_def)
    qed
    ultimately show ?thesis by blast
  qed
qed

text \<open>The beginning of every call: the clause is imported and normalised.\<close>

definition begin_clause :: "nat \<Rightarrow> int list \<Rightarrow> Checker \<Rightarrow> (bool \<times> Checker) result" where
  "begin_clause i c t = rbind (ck_import_clause c t) (\<lambda>t. ck_tautological (t\<lparr>ck_last_id := i\<rparr>))"

definition ck_inv :: "Checker \<Rightarrow> bool" where
  "ck_inv t \<longleftrightarrow> store_ok t \<and> simplified t = [] \<and> (\<not> inconsistent t \<longrightarrow> at_rest t)"

definition begun :: "nat \<Rightarrow> int list \<Rightarrow> Checker \<Rightarrow> bool \<Rightarrow> Checker \<Rightarrow> bool" where
  "begun i c t taut u \<longleftrightarrow> at_rest u \<and> store_ok u \<and> memory u = memory t \<and> ck_trail u = ck_trail t \<and> \<not> inconsistent u \<and>
     chains u = chains t \<and> ck_garbage u = ck_garbage t \<and> ck_last_id u = i \<and>
     (if taut then (\<exists>l \<in> set c. l \<noteq> 0 \<and> (- l \<in> set c \<or> l \<in> set (ck_trail t)))
      else (\<forall>l \<in> set (simplified u). lit_in u l) \<and> clean (ck_trail u) (simplified u) \<and> set (simplified u) = set c)"

lemma begin_clause_ok:
  assumes "ck_inv t" "\<not> inconsistent t" "\<forall>l \<in> set c. lit_ok l"
  shows "\<exists>taut u. begin_clause i c t = Ok (taut, u) \<and> begun i c t taut u"
proof -
  have t: "at_rest t" "store_ok t" "simplified t = []" using assms(1,2) by (simp_all add: ck_inv_def)
  note inv = at_restD(2-5) [OF t(1)]
  obtain u where u: "ck_import_clause c t = Ok u" "imported c t u" using ck_import_clause_ok [OF inv(1) assms(3)] by blast
  have w: "trail_inv u" "wl u = wl t" "\<forall>l. lit_in t l \<longrightarrow> lit_in u l" "\<forall>l \<in> set c. lit_in u l" "iframe u = iframe t" "simplified u = c"
    using u(2) t(3) by (simp_all add: imported_def)
  note f = iframeD [OF w(5)]
  let ?u = "u\<lparr>ck_last_id := i\<rparr>"
  have "winv (lit_in u) (memory u) (wl u)" using winv_mono [OF inv(2), of "lit_in u"] w(2,3) f by simp
  then have rest: "at_rest u" using inv(3,4) w(1,2) f by (simp add: at_rest_def prop_inv_def)
  have st: "store_ok u" using t(2) f by (simp add: store_ok_def)
  have u2: "trail_inv ?u" "\<forall>l \<in> set (simplified ?u). lit_in ?u l" "simplified ?u = c" "ck_trail ?u = ck_trail t"
    using w(1,4,6) f by simp_all
  from ck_tautological_ok [OF u2(1,2), unfolded u2(3,4)]
  obtain taut d where d: "ck_tautological ?u = Ok (taut, ?u\<lparr>simplified := d\<rparr>)"
    "if taut then (\<exists>l \<in> set c. - l \<in> set c \<or> l \<in> set (ck_trail t)) else clean (ck_trail t) d \<and> set d = set c"
    by blast
  then show ?thesis
    using u(1) rest st f w(4) assms(2,3)
    by (intro exI [of _ taut] exI [of _ "?u\<lparr>simplified := d\<rparr>"]) (auto simp: begin_clause_def begun_def lit_ok_def)
qed

end
