(* ===== verification/Drup_Delete.thy ===== *)
theory Drup_Delete
  imports Drup_Store
begin

text \<open>
  Finding and deleting clauses in the DRUP checker, and the collection of garbage: satisfied clauses leave the hash
  table, watches of dead clauses leave the watch lists, and only then is the memory freed.
\<close>

section \<open>Finding a clause\<close>

lemma lit_set_ok:
  assumes "lit_in t l" "ck_size_vars t \<le> 2 ^ 30" "length bits = nat (2 * ck_size_vars t)"
  shows "lit_set l v bits = Ok (bits[lit_index l := v])" "lit_at bits l = Ok (bits ! lit_index l)"
  using l2u_in [OF assms(1,2)] assms(3) by (simp_all add: lit_set_def lit_at_def)

lemma set_marks_ok:
  assumes "\<forall>l \<in> set c. lit_in t l" "ck_size_vars t \<le> 2 ^ 30" "length bits = nat (2 * ck_size_vars t)"
  shows "rfold (\<lambda>l. lit_set l v) c bits = Ok (fold (\<lambda>i bs. bs[i := v]) (map lit_index c) bits)"
  using assms(1,3)
proof (induction c arbitrary: bits)
  case (Cons l c)
  then show ?case using lit_set_ok(1) [OF _ assms(2) Cons.prems(2), of l v] by simp
qed simp

text \<open>Marking and unmarking the clause.\<close>

lemma clear_marks:
  assumes "bits = replicate n False"
  shows "fold (\<lambda>i bs. bs[i := False]) is (fold (\<lambda>i bs. bs[i := True]) is bits) = bits"
  by (rule nth_equalityI) (simp_all add: assms nth_fold_update)

lemma marked_iff_mem:
  assumes "\<forall>l \<in> set c. lit_in t l" "lit_in t m" "ck_size_vars t \<le> 2 ^ 30"
  shows "fold (\<lambda>i bs. bs[i := True]) (map lit_index c) (replicate (nat (2 * ck_size_vars t)) False) ! lit_index m \<longleftrightarrow> m \<in> set c"
proof -
  have "lit_index m \<in> lit_index ` set c \<longleftrightarrow> m \<in> set c"
    using lit_index_inj lit_in_nonzero assms(1,2) by (metis (no_types, lifting) imageE imageI)
  then show ?thesis using l2u_in(2) [OF assms(2,3)] by (simp add: nth_fold_update)
qed

lemma all_lits_marked_ok:
  assumes "\<forall>l \<in> set lits. lit_in t l" "ck_size_vars t \<le> 2 ^ 30" "length bits = nat (2 * ck_size_vars t)"
  shows "all_lits_marked bits lits = Ok (\<forall>l \<in> set lits. bits ! lit_index l)"
  using assms(1) lit_set_ok(2) [OF _ assms(2,3)] by (induction lits) auto

text \<open>The clause a call looks for.\<close>

definition matches :: "Checker \<Rightarrow> CheckerClause \<Rightarrow> bool" where
  "matches t c \<longleftrightarrow> c_hash c = compute_hash (ck_last_id t) \<and> c_size c = length (simplified t) \<and> set (c_lits c) \<subseteq> set (simplified t)"

lemma match_pos_ok:
  assumes "\<And>c. c_size c = length (simplified t) \<Longrightarrow> \<exists>a \<in> set as. memory t a = Some c \<Longrightarrow>
      all_lits_marked bits (c_lits c) = Ok (set (c_lits c) \<subseteq> set (simplified t))"
    "\<forall>a \<in> set as. a \<in> dom (memory t)"
  shows "\<exists>n. match_pos t bits as = Ok n \<and> n \<le> length as \<and> (\<forall>c. n < length as \<longrightarrow> memory t (as ! n) = Some c \<longrightarrow> matches t c) \<and>
    (n = length as \<longrightarrow> (\<forall>a \<in> set as. \<forall>c. memory t a = Some c \<longrightarrow> \<not> matches t c))"
  using assms
proof (induction as)
  case (Cons a as)
  obtain c where c: "memory t a = Some c" using Cons.prems(2) by auto
  obtain n where n: "match_pos t bits as = Ok n" "n \<le> length as"
    "\<forall>c. n < length as \<longrightarrow> memory t (as ! n) = Some c \<longrightarrow> matches t c"
    "n = length as \<longrightarrow> (\<forall>a \<in> set as. \<forall>c. memory t a = Some c \<longrightarrow> \<not> matches t c)"
    using Cons.IH Cons.prems by (metis list.set_intros(2))
  have "c_size c = length (simplified t) \<Longrightarrow> all_lits_marked bits (c_lits c) = Ok (set (c_lits c) \<subseteq> set (simplified t))"
    using Cons.prems(1) [of c] c by auto
  then have "match_pos t bits (a # as) = (if matches t c then Ok 0 else Ok (n + 1))"
    using c n(1) by (auto simp: clause_at_def matches_def)
  then show ?case using n(2-4) c by (intro exI [of _ "if matches t c then 0 else n + 1"]) auto
qed simp

lemma ck_find_empty: "chains t = [] \<Longrightarrow> ck_find t = Fault Diverges"
  by (simp add: ck_find_def reduce_hash_empty)

lemma ck_find_ok:
  assumes "at_rest t" "store_ok t" "\<forall>l \<in> set (simplified t). lit_in t l" "chains t \<noteq> []"
  shows "\<exists>h n. ck_find t = Ok ((h, n), t) \<and> h < length (chains t) \<and>
    (n < length (chains t ! h) \<longrightarrow> (\<exists>c. memory t (chains t ! h ! n) = Some c \<and> matches t c)) \<and>
    (n < length (chains t ! h) \<or> (\<forall>a \<in> set (concat (chains t)). \<forall>c. memory t a = Some c \<longrightarrow> \<not> matches t c))"
proof -
  note inv = at_restD(2,3) [OF assms(1)] and S = store_okD [OF assms(2)]
  note T = trail_invD(2,5) [OF inv(1)]
  obtain h where h: "h < length (chains t)" "reduce_hash (compute_hash (ck_last_id t)) (length (chains t)) = Ok h"
    using reduce_hash_slot assms(4) by blast
  let ?bits = "fold (\<lambda>i bs. bs[i := True]) (map lit_index (simplified t)) (ck_marks t)"
  have set: "rfold (\<lambda>l. lit_set l True) (simplified t) (ck_marks t) = Ok ?bits"
    by (rule set_marks_ok [OF assms(3) T(1)]) (simp add: T(2))
  have unset: "rfold (\<lambda>l. lit_set l False) (simplified t) ?bits = Ok (ck_marks t)"
    using set_marks_ok [OF assms(3) T(1), of ?bits False] clear_marks [OF T(2)] T(2) by simp
  have dom: "\<forall>a \<in> set (chains t ! h). a \<in> dom (memory t)" using S(2) h(1) by (auto simp: set_concat)
  have all: "all_lits_marked ?bits (c_lits c) = Ok (set (c_lits c) \<subseteq> set (simplified t))"
    if c: "\<exists>a \<in> set (chains t ! h). memory t a = Some c" for c
  proof -
    have l: "\<forall>l \<in> set (c_lits c). lit_in t l" using c winvD(1) [OF inv(2)] clause_wfD(3) by blast
    have "all_lits_marked ?bits (c_lits c) = Ok (\<forall>l \<in> set (c_lits c). ?bits ! lit_index l)"
      by (rule all_lits_marked_ok [OF l T(1)]) (simp add: T(2))
    moreover have "(\<forall>l \<in> set (c_lits c). ?bits ! lit_index l) \<longleftrightarrow> set (c_lits c) \<subseteq> set (simplified t)"
      using marked_iff_mem [OF assms(3) _ T(1)] l T(2) by auto
    ultimately show ?thesis by simp
  qed
  obtain n where n: "match_pos t ?bits (chains t ! h) = Ok n" "n \<le> length (chains t ! h)"
    "\<And>c. n < length (chains t ! h) \<Longrightarrow> memory t (chains t ! h ! n) = Some c \<Longrightarrow> matches t c"
    "n = length (chains t ! h) \<Longrightarrow> (\<forall>a \<in> set (chains t ! h). \<forall>c. memory t a = Some c \<longrightarrow> \<not> matches t c)"
    using match_pos_ok [OF all dom] by blast
  have run: "ck_find t = Ok ((h, n), t)"
    unfolding ck_find_def h(2) rbind.simps set using h(1) n(1) unset by simp
  have found: "\<exists>c. memory t (chains t ! h ! n) = Some c \<and> matches t c" if "n < length (chains t ! h)"
    using n(3) [OF that] dom nth_mem [OF that] by (auto simp: dom_def)
  have none: "\<not> matches t c" if "\<not> n < length (chains t ! h)" "a \<in> set (concat (chains t))" "memory t a = Some c" for a c
  proof
    assume m: "matches t c"
    from that(2) obtain k where k: "k < length (chains t)" "a \<in> set (chains t ! k)" unfolding in_concat_nth by blast
    then have "reduce_hash (c_hash c) (length (chains t)) = Ok k" using S(7) that(3) by (simp add: hashed_def)
    then have "k = h" using m h(2) by (simp add: matches_def)
    then show False using n(2,4) that(1,3) k(2) m by auto
  qed
  show ?thesis using run h(1) found none by blast
qed

section \<open>Marking a clause as garbage\<close>

lemma winv_kill:
  assumes "winv R mem W" "mem a = Some c"
  shows "winv R (mem(a \<mapsto> c\<lparr>c_size := 0\<rparr>)) W"
  unfolding winv_def
proof (intro conjI allI impI)
  note I = winvD [OF assms(1)]
  show "clause_wf R d" if "(mem(a \<mapsto> c\<lparr>c_size := 0\<rparr>)) b = Some d" for b d
    using that I(1) [of b d] I(1) [OF assms(2)] by (auto simp: clause_wf_def split: if_splits)
  show "\<forall>w \<in> set (W l). watch_ok (mem(a \<mapsto> c\<lparr>c_size := 0\<rparr>)) l w" for l
    using I(2) assms(2) by (fastforce simp: watch_ok_def)
  show "distinct (map w_clause (W l))" for l by (rule I(3))
  fix b d and i :: nat assume "(mem(a \<mapsto> c\<lparr>c_size := 0\<rparr>)) b = Some d" "c_size d \<noteq> 0" "i < 2"
  then show "b \<in> w_clause ` set (W (c_lits d ! i))" using I(4) [of b d i] by (auto split: if_splits)
qed

lemma blocked_kill: "blocked mem W P T \<Longrightarrow> blocked (mem(a \<mapsto> c\<lparr>c_size := 0\<rparr>)) W P T"
  unfolding blocked_def guarded_def by (auto split: if_splits)

lemma at_rest_put_frame [simp]: "frame (put_clause a c t) = frame t"
  by simp

lemma at_rest_kill:
  assumes "at_rest t" "memory t a = Some c"
  shows "at_rest (put_clause a (c\<lparr>c_size := 0\<rparr>) t)"
  using assms winv_kill [OF at_restD(3) [OF assms(1)] assms(2)] blocked_kill [OF at_restD(5) [OF assms(1)]]
    at_restD(2,4) [OF assms(1)]
  by (simp add: at_rest_def prop_inv_def)

text \<open>Clauses die, and satisfied ones may be freed; the rest of the memory stays.\<close>

definition shrunk :: "nat set \<Rightarrow> Checker \<Rightarrow> Checker \<Rightarrow> bool" where
  "shrunk A t u \<longleftrightarrow> ck_trail u = ck_trail t \<and> inconsistent u = inconsistent t \<and> simplified u = simplified t \<and>
     (\<forall>a d. memory u a = Some d \<longrightarrow> (\<exists>c. memory t a = Some c \<and> c_lits d = c_lits c \<and> (c_size d \<noteq> 0 \<longrightarrow> d = c))) \<and>
     (\<forall>a c. memory t a = Some c \<longrightarrow> c_size c \<noteq> 0 \<longrightarrow> memory u a = Some c \<or> a \<in> A \<or> (\<exists>l \<in> set (c_lits c). l \<in> set (ck_trail t)))"

lemma shrunk_refl: "shrunk A t t"
  by (auto simp: shrunk_def)

lemma shrunk_trans:
  assumes "shrunk A t u" "shrunk B u v"
  shows "shrunk (A \<union> B) t v"
  unfolding shrunk_def
proof (intro conjI allI impI)
  show "ck_trail v = ck_trail t" "inconsistent v = inconsistent t" "simplified v = simplified t"
    using assms by (simp_all add: shrunk_def)
  fix a d assume "memory v a = Some d"
  then obtain c where c: "memory u a = Some c" "c_lits d = c_lits c" "c_size d \<noteq> 0 \<longrightarrow> d = c"
    using assms(2) unfolding shrunk_def by blast
  then obtain b where "memory t a = Some b" "c_lits c = c_lits b" "c_size c \<noteq> 0 \<longrightarrow> c = b"
    using assms(1) unfolding shrunk_def by blast
  then show "\<exists>c. memory t a = Some c \<and> c_lits d = c_lits c \<and> (c_size d \<noteq> 0 \<longrightarrow> d = c)" using c by auto
next
  fix a c assume c: "memory t a = Some c" "c_size c \<noteq> 0"
  then have "memory u a = Some c \<or> a \<in> A \<or> (\<exists>l \<in> set (c_lits c). l \<in> set (ck_trail t))" using assms(1) by (simp add: shrunk_def)
  moreover have "memory u a = Some c \<Longrightarrow> memory v a = Some c \<or> a \<in> B \<or> (\<exists>l \<in> set (c_lits c). l \<in> set (ck_trail t))"
    using assms c(2) by (simp add: shrunk_def)
  ultimately show "memory v a = Some c \<or> a \<in> A \<union> B \<or> (\<exists>l \<in> set (c_lits c). l \<in> set (ck_trail t))" by blast
qed

lemma shrunk_models: "shrunk A t u \<Longrightarrow> models \<sigma> t \<Longrightarrow> models \<sigma> u"
  unfolding shrunk_def models_def by metis

lemma ck_unlink_ok:
  assumes "at_rest t" "store_ok t" "h < length (chains t)" "n < length (chains t ! h)"
  shows "\<exists>u. ck_unlink (h, n) t = Ok u \<and> at_rest u \<and> store_ok u \<and> shrunk {chains t ! h ! n} t u"
proof -
  let ?c = "chains t ! h" and ?a = "chains t ! h ! n"
  let ?rest = "take n ?c @ drop (Suc n) ?c"
  note S = store_okD [OF assms(2)]
  have "?a \<in> set (concat (chains t))" using assms(3,4) unfolding in_concat_nth by auto
  then obtain c where c: "memory t ?a = Some c" using S(2) by auto
  let ?u = "(put_clause ?a (c\<lparr>c_size := 0\<rparr>) t)\<lparr>ck_num_garbage := ck_num_garbage t + 1, ck_num_clauses := ck_num_clauses t - 1,
    chains := (chains t)[h := ?rest], ck_garbage := ?a # ck_garbage t\<rparr>"
  have run: "ck_unlink (h, n) t = Ok ?u" using c by (simp add: ck_unlink_def Let_def clause_at_def)
  have rest: "at_rest ?u" using at_rest_kill [OF assms(1) c] by simp
  have "mset ?c = add_mset ?a (mset ?rest)"
    using id_take_nth_drop [OF assms(4)] by (metis mset_append mset.simps(2) union_mset_add_mset_right)
  then have m: "mset (concat (chains t)) = add_mset ?a (mset (concat ((chains t)[h := ?rest])))"
    using mset_concat_update [OF assms(3), of ?rest] by simp
  let ?new = "concat ((chains t)[h := ?rest])"
  have set: "set (concat (chains t)) = insert ?a (set ?new)" "length (concat (chains t)) = Suc (length ?new)"
    using mset_eq_setD [of "concat (chains t)" "?a # ?new"] mset_eq_length [of "concat (chains t)" "?a # ?new"] m by simp_all
  have "mset (concat (chains t) @ ck_garbage t) = mset (?new @ ?a # ck_garbage t)" using m by simp
  then have d: "distinct (?new @ ?a # ck_garbage t)" using mset_eq_imp_distinct_iff S(1) by blast
  have "hashed (memory ?u) (chains ?u)"
    unfolding hashed_def
  proof (intro allI impI ballI)
    fix k b e assume k: "k < length (chains ?u)" "b \<in> set (chains ?u ! k)" "memory ?u b = Some e"
    then have "b \<in> set ((chains t)[h := ?rest] ! k)" by simp
    then have "b \<in> set (chains t ! k)"
      using assms(3) by (cases "k = h") (auto dest: in_set_takeD in_set_dropD)
    then show "reduce_hash (c_hash e) (length (chains ?u)) = Ok k"
      using k S(7) c unfolding hashed_def by (auto split: if_splits)
  qed
  then have "store_ok ?u"
    unfolding store_ok_def using d S(2-6) set c by (auto simp: put_clause_def split: if_splits)
  moreover have "shrunk {?a} t ?u" using c by (auto simp: shrunk_def put_clause_def)
  ultimately show ?thesis using run rest by blast
qed

section \<open>Collecting garbage\<close>

lemma clause_satisfied_ok:
  assumes "trail_inv t" "\<forall>l \<in> set lits. lit_in t l"
  shows "clause_satisfied t lits = Ok (\<exists>l \<in> set lits. l \<in> set (ck_trail t))"
  using assms(2) by (induction lits) (auto simp: ck_val_ok [OF assms(1)])

text \<open>Sweeping a chain: \<open>as\<close> is still to be visited, \<open>rest\<close> stays.\<close>

lemma sweep_chain_ok:
  assumes "at_rest t" "store_ok (t\<lparr>chains := (chains t)[i := rest @ as]\<rparr>)" "i < length (chains t)"
  shows "\<exists>r u. sweep_chain as rest t = Ok (r, u) \<and> at_rest u \<and> store_ok (u\<lparr>chains := (chains u)[i := r]\<rparr>) \<and>
    chains u = chains t \<and> shrunk {} t u"
  using assms
proof (induction as arbitrary: rest t)
  case Nil
  then show ?case using shrunk_refl by auto
next
  case (Cons a as)
  let ?t = "t\<lparr>chains := (chains t)[i := rest @ a # as]\<rparr>"
  note S = store_okD [OF Cons.prems(2)] and inv = at_restD(2,3) [OF Cons.prems(1)]
  have ia: "(chains ?t) ! i = rest @ a # as" "i < length (chains ?t)" using Cons.prems(3) by simp_all
  have "a \<in> set (concat (chains ?t))" unfolding in_concat_nth using ia by (intro exI [of _ i]) simp
  then have "a \<notin> set (ck_garbage ?t)" "a \<in> dom (memory ?t)" using S(1) unfolding S(2) distinct_append by blast+
  then obtain c where c: "memory t a = Some c" "c_size c \<noteq> 0" using S(3) [of a] by auto
  have wf: "clause_wf (lit_in t) c" by (rule winvD(1) [OF inv(2) c(1)])
  have sat: "clause_satisfied t (take (c_size c) (c_lits c)) = Ok (\<exists>l \<in> set (c_lits c). l \<in> set (ck_trail t))"
    using clause_satisfied_ok [OF inv(1)] clause_wfD(3) [OF wf] clause_wfD(4) [OF wf c(2)] by simp
  show ?case
  proof (cases "\<exists>l \<in> set (c_lits c). l \<in> set (ck_trail t)")
    case True
    have n: "length rest < length (chains ?t ! i)" "chains ?t ! i ! length rest = a" using ia by simp_all
    obtain v where v: "ck_unlink (i, length rest) ?t = Ok v" "at_rest v" "store_ok v" "shrunk {a} ?t v"
      using ck_unlink_ok [of ?t i "length rest"] Cons.prems n(1) ia(2) unfolding n(2) by auto
    let ?u = "(put_clause a (c\<lparr>c_size := 0\<rparr>) t)
      \<lparr>ck_garbage := a # ck_garbage t, ck_num_garbage := ck_num_garbage t + 1, ck_num_clauses := ck_num_clauses t - 1\<rparr>"
    have vu: "v = ?u\<lparr>chains := (chains t)[i := rest @ as]\<rparr>"
    proof (rule Checker.equality)
    qed (use v(1) c(1) ia in \<open>auto simp: ck_unlink_def Let_def clause_at_def put_clause_def\<close>)
    have cu: "chains ?u = chains t" by (simp add: put_clause_def)
    have "at_rest ?u" using v(2) unfolding vu by simp
    moreover have "store_ok (?u\<lparr>chains := (chains ?u)[i := rest @ as]\<rparr>)" using v(3) unfolding vu cu .
    ultimately obtain r u where u: "sweep_chain as rest ?u = Ok (r, u)" "at_rest u" "store_ok (u\<lparr>chains := (chains u)[i := r]\<rparr>)"
      "chains u = chains ?u" "shrunk {} ?u u" using Cons.IH [of ?u rest] Cons.prems(3) cu by metis
    have "shrunk {} t ?u" using c True by (auto simp: shrunk_def put_clause_def)
    then have "shrunk {} t u" using shrunk_trans [OF _ u(5)] by force
    moreover have "sweep_chain (a # as) rest t = Ok (r, u)" using u(1) c(1) sat True by (simp add: clause_at_def)
    ultimately show ?thesis using u(2-4) cu by (intro exI [of _ r] exI [of _ u]) simp
  next
    case False
    have "sweep_chain (a # as) rest t = sweep_chain as (rest @ [a]) t" using c(1) sat False by (simp add: clause_at_def)
    then show ?thesis using Cons.IH [of t "rest @ [a]"] Cons.prems by simp
  qed
qed

lemma sweep_slot_ok:
  assumes "at_rest t" "store_ok t" "i < length (chains t)"
  shows "\<exists>u. sweep_slot i t = Ok u \<and> at_rest u \<and> store_ok u \<and> length (chains u) = length (chains t) \<and> shrunk {} t u"
proof -
  have "t\<lparr>chains := (chains t)[i := [] @ chains t ! i]\<rparr> = t" by simp
  then obtain r u where u: "sweep_chain (chains t ! i) [] t = Ok (r, u)" "at_rest u" "store_ok (u\<lparr>chains := (chains u)[i := r]\<rparr>)"
    "chains u = chains t" "shrunk {} t u" using sweep_chain_ok [OF assms(1) _ assms(3), of "[]" "chains t ! i"] assms(2) by auto
  have "shrunk {} t (u\<lparr>chains := (chains u)[i := r]\<rparr>)" using u(5) by (simp add: shrunk_def)
  then show ?thesis using u assms(3) by (intro exI [of _ "u\<lparr>chains := (chains u)[i := r]\<rparr>"]) (simp add: sweep_slot_def)
qed

lemma sweep_slots_ok:
  assumes "at_rest t" "store_ok t" "\<forall>i \<in> set is. i < length (chains t)"
  shows "\<exists>u. rfold sweep_slot is t = Ok u \<and> at_rest u \<and> store_ok u \<and> shrunk {} t u"
  using assms
proof (induction "is" arbitrary: t)
  case Nil
  then show ?case using shrunk_refl by auto
next
  case (Cons i js)
  obtain u where u: "sweep_slot i t = Ok u" "at_rest u" "store_ok u" "length (chains u) = length (chains t)" "shrunk {} t u"
    using sweep_slot_ok [OF Cons.prems(1,2)] Cons.prems(3) by auto
  obtain v where "rfold sweep_slot js u = Ok v" "at_rest v" "store_ok v" "shrunk {} u v"
    using Cons.IH [OF u(2,3)] Cons.prems(3) u(4) by auto
  then show ?case using u(1,5) shrunk_trans [of "{}" t u "{}" v] by auto
qed

text \<open>The watches of live clauses.\<close>

definition live :: "Checker \<Rightarrow> CheckerWatch \<Rightarrow> bool" where
  "live t w \<longleftrightarrow> (\<exists>c. memory t (w_clause w) = Some c \<and> c_size c \<noteq> 0)"

lemma live_watches_ok:
  "\<forall>w \<in> set ws. w_clause w \<in> dom (memory t) \<Longrightarrow> live_watches t ws = Ok (filter (live t) ws)"
  by (induction ws) (auto simp: clause_at_def live_def)

lemma winv_filter:
  assumes "winv R mem W" "\<And>w c. w \<in> set (W l) \<Longrightarrow> mem (w_clause w) = Some c \<Longrightarrow> c_size c \<noteq> 0 \<Longrightarrow> p w"
  shows "winv R mem (W(l := filter p (W l)))"
  unfolding winv_def
proof (intro conjI allI impI)
  note I = winvD [OF assms(1)]
  show "clause_wf R d" if "mem b = Some d" for b d using that by (rule I(1))
  show "\<forall>w \<in> set ((W(l := filter p (W l))) m). watch_ok mem m w" for m using I(2) by (auto split: if_splits)
  show "distinct (map w_clause ((W(l := filter p (W l))) m))" for m using I(3) by (simp add: distinct_map_filter)
  fix b d and i :: nat assume d: "mem b = Some d" "c_size d \<noteq> 0" "i < 2"
  obtain w where "w \<in> set (W (c_lits d ! i))" "w_clause w = b" using I(4) [OF d] by auto
  then show "b \<in> w_clause ` set ((W(l := filter p (W l))) (c_lits d ! i))" using assms(2) d by auto
qed

lemma blocked_filter: "blocked mem W P T \<Longrightarrow> blocked mem (W(l := filter p (W l))) P T"
  unfolding blocked_def guarded_def by auto

lemma flush_watcher_ok:
  assumes "at_rest t" "lit_in t l"
  shows "flush_watcher l t = Ok (set_wl l (filter (live t) (wl t l)) t)" "at_rest (set_wl l (filter (live t) (wl t l)) t)"
proof -
  note inv = at_restD [OF assms(1)]
  have "\<forall>w \<in> set (wl t l). w_clause w \<in> dom (memory t)" using watch_memory [OF inv(3)] by (auto simp: dom_def)
  then show "flush_watcher l t = Ok (set_wl l (filter (live t) (wl t l)) t)"
    using inv(2) assms(2) lit_in_nonzero [OF assms(2)] by (simp add: flush_watcher_def watcher_ok live_watches_ok)
  have "winv (lit_in t) (memory t) ((wl t)(l := filter (live t) (wl t l)))"
    by (rule winv_filter [OF inv(3)]) (auto simp: live_def)
  then show "at_rest (set_wl l (filter (live t) (wl t l)) t)"
    using inv(2,4) blocked_filter [OF inv(5)] assms(2) by (simp add: at_rest_def prop_inv_def)
qed

lemma flush_watchers_ok:
  assumes "at_rest t" "\<forall>l \<in> set ls. l = 0 \<or> lit_in t l"
  shows "\<exists>u. rfold flush_watcher ls t = Ok u \<and> at_rest u \<and> memory u = memory t \<and> ck_trail u = ck_trail t \<and> frame u = frame t \<and>
    (\<forall>m. set (wl u m) \<subseteq> set (wl t m)) \<and> (\<forall>m \<in> set ls. m \<noteq> 0 \<longrightarrow> (\<forall>w \<in> set (wl u m). live t w))"
  using assms
proof (induction ls arbitrary: t)
  case Nil
  then show ?case by simp
next
  case (Cons l ls)
  show ?case
  proof (cases "l = 0")
    case True
    then show ?thesis using Cons.IH [of t] Cons.prems by (simp add: flush_watcher_def)
  next
    case False
    then have l: "lit_in t l" using Cons.prems(2) by simp
    let ?t = "set_wl l (filter (live t) (wl t l)) t"
    have r: "at_rest ?t" by (rule flush_watcher_ok(2) [OF Cons.prems(1) l])
    have w: "wl ?t = (wl t)(l := filter (live t) (wl t l))" using at_restD(2) [OF Cons.prems(1)] l by simp
    obtain u where u: "rfold flush_watcher ls ?t = Ok u" "at_rest u" "memory u = memory t" "ck_trail u = ck_trail t" "frame u = frame t"
      "\<And>m. set (wl u m) \<subseteq> set (wl ?t m)" "\<forall>m \<in> set ls. m \<noteq> 0 \<longrightarrow> (\<forall>w \<in> set (wl u m). live ?t w)"
      using Cons.IH [OF r] Cons.prems(2) by auto
    have "live ?t = live t" by (simp add: live_def fun_eq_iff)
    moreover have "set (wl u m) \<subseteq> set (wl t m)" for m using u(6) [of m] w by (auto split: if_splits)
    moreover have "\<forall>x \<in> set (wl u l). live t x" using u(6) [of l] w by auto
    ultimately show ?thesis
      using u(1-5,7) flush_watcher_ok(1) [OF Cons.prems(1) l] by (intro exI [of _ u]) simp
  qed
qed

text \<open>Freeing clauses nothing points to.\<close>

lemma free_clauses_ok:
  assumes "\<forall>a \<in> set as. \<exists>c. memory t a = Some c \<and> c_size c = 0" "distinct as"
  shows "rfold ck_free_clause as t = Ok (t\<lparr>memory := memory t |` (- set as), ck_num_garbage := ck_num_garbage t - length as\<rparr>)"
  using assms
proof (induction as arbitrary: t)
  case (Cons a as)
  obtain c where c: "memory t a = Some c" "c_size c = 0" using Cons.prems(1) by auto
  let ?t = "t\<lparr>ck_num_garbage := ck_num_garbage t - 1, memory := (memory t)(a := None)\<rparr>"
  have "ck_free_clause a t = Ok ?t" using c by (simp add: ck_free_clause_def clause_at_def)
  moreover have "rfold ck_free_clause as ?t = Ok (?t\<lparr>memory := memory ?t |` (- set as), ck_num_garbage := ck_num_garbage ?t - length as\<rparr>)"
    by (rule Cons.IH) (use Cons.prems in auto)
  moreover have "(memory t)(a := None) |` (- set as) = memory t |` (- set (a # as))" by (auto simp: restrict_map_def)
  ultimately show ?case by simp
qed (simp add: restrict_map_def)

lemma winv_free:
  assumes "winv R mem W" "\<And>l w. w \<in> set (W l) \<Longrightarrow> w_clause w \<notin> A"
  shows "winv R (mem |` (- A)) W"
  unfolding winv_def
proof (intro conjI allI impI)
  note I = winvD [OF assms(1)]
  show "clause_wf R d" if "(mem |` (- A)) b = Some d" for b d using that I(1) [of b d] by (auto simp: restrict_map_def split: if_splits)
  show "\<forall>w \<in> set (W l). watch_ok (mem |` (- A)) l w" for l
    using I(2) assms(2) by (auto simp: watch_ok_def restrict_map_def)
  show "distinct (map w_clause (W l))" for l by (rule I(3))
  fix b d and i :: nat assume "(mem |` (- A)) b = Some d" "c_size d \<noteq> 0" "i < 2"
  then show "b \<in> w_clause ` set (W (c_lits d ! i))" using I(4) [of b d i] by (auto simp: restrict_map_def split: if_splits)
qed

lemma blocked_free: "blocked mem W P T \<Longrightarrow> blocked (mem |` (- A)) W P T"
  unfolding blocked_def guarded_def by (auto simp: restrict_map_def split: if_splits)


lemma store_ok_flushed:
  assumes "store_ok t" "memory u = memory t" "frame u = frame t"
  shows "store_ok u"
  using assms frameD [OF assms(3)] by (simp add: store_ok_def)

lemma free_garbage:
  assumes "at_rest t" "store_ok t" "\<And>l w. w \<in> set (wl t l) \<Longrightarrow> live t w"
  shows "\<exists>u. rbind (rfold ck_free_clause (ck_garbage t) t) (\<lambda>t. Ok (t\<lparr>ck_garbage := []\<rparr>)) = Ok u \<and> at_rest u \<and> store_ok u \<and>
    ck_garbage u = [] \<and> shrunk {} t u"
proof -
  note S = store_okD [OF assms(2)] and inv = at_restD(2-5) [OF assms(1)]
  let ?m = "memory t |` (- set (ck_garbage t))"
  let ?u = "t\<lparr>memory := ?m, ck_num_garbage := ck_num_garbage t - length (ck_garbage t), ck_garbage := []\<rparr>"
  have "\<exists>c. memory t a = Some c \<and> c_size c = 0" if "a \<in> set (ck_garbage t)" for a
    using S(2,3) that by (metis UnI2 domD)
  then have run: "rbind (rfold ck_free_clause (ck_garbage t) t) (\<lambda>t. Ok (t\<lparr>ck_garbage := []\<rparr>)) = Ok ?u"
    using free_clauses_ok [of "ck_garbage t" t] S(1) by simp
  have "w_clause w \<notin> set (ck_garbage t)" if w: "w \<in> set (wl t l)" for l w
  proof -
    obtain c where "memory t (w_clause w) = Some c" "c_size c \<noteq> 0" using assms(3) [OF w] unfolding live_def by blast
    then show ?thesis using S(3) by simp
  qed
  then have "winv (lit_in t) ?m (wl t)" by (rule winv_free [OF inv(2)])
  moreover have "wl ?u = wl t" "lit_in ?u = lit_in t" "trail_inv ?u" using inv(1) by (simp_all add: fun_eq_iff)
  ultimately have "at_rest ?u" using inv(3) blocked_free [OF inv(4)] by (simp add: at_rest_def prop_inv_def)
  moreover have "store_ok ?u"
    unfolding store_ok_def
  proof (intro conjI allI impI)
    show "distinct (concat (chains ?u) @ ck_garbage ?u)" using S(1) by simp
    have "set (concat (chains t)) \<inter> set (ck_garbage t) = {}" using S(1) unfolding distinct_append by blast
    then have "dom ?m = set (concat (chains t))" using S(2) unfolding dom_restrict by blast
    then show "dom (memory ?u) = set (concat (chains ?u)) \<union> set (ck_garbage ?u)" by simp
    fix a c assume "memory ?u a = Some c"
    then have "memory t a = Some c" "a \<notin> set (ck_garbage t)" by (auto simp: restrict_map_def split: if_splits)
    then show "(c_size c = 0) = (a \<in> set (ck_garbage ?u))" "a < fresh ?u" using S(3,4) by auto
  next
    show "ck_num_clauses ?u = length (concat (chains ?u))" "ck_num_garbage ?u = length (ck_garbage ?u)" using S(5,6) by simp_all
    show "hashed (memory ?u) (chains ?u)" using S(7) by (auto simp: hashed_def restrict_map_def split: if_splits)
  qed
  moreover have "shrunk {} t ?u" using S(3) by (auto simp: shrunk_def restrict_map_def)
  ultimately show ?thesis using run by (intro exI [of _ ?u]) simp
qed

lemma ck_collect_garbage_ok:
  assumes "at_rest t" "store_ok t"
  shows "\<exists>u. ck_collect_garbage t = Ok u \<and> at_rest u \<and> store_ok u \<and> ck_garbage u = [] \<and> shrunk {} t u"
proof -
  obtain v where v: "rfold sweep_slot [0..<length (chains t)] t = Ok v" "at_rest v" "store_ok v" "shrunk {} t v"
    using sweep_slots_ok [OF assms, of "[0..<length (chains t)]"] by auto
  have "\<forall>l \<in> set [- ck_size_vars v + 1..ck_size_vars v - 1]. l = 0 \<or> lit_in v l" by (auto simp: lit_in_def)
  then obtain w where w: "rfold flush_watcher [- ck_size_vars v + 1..ck_size_vars v - 1] v = Ok w" "at_rest w" "memory w = memory v"
    "ck_trail w = ck_trail v" "frame w = frame v" "\<forall>m. set (wl w m) \<subseteq> set (wl v m)"
    "\<forall>m \<in> set [- ck_size_vars v + 1..ck_size_vars v - 1]. m \<noteq> 0 \<longrightarrow> (\<forall>x \<in> set (wl w m). live v x)"
    using flush_watchers_ok [OF v(2)] by blast
  note f = frameD [OF w(5)]
  have st: "store_ok w" by (rule store_ok_flushed [OF v(3) w(3,5)])
  have "live w x" if x: "x \<in> set (wl w l)" for l x
  proof -
    obtain c where c: "memory w (w_clause x) = Some c" using watch_memory [OF at_restD(3) [OF w(2)] x] by blast
    have "lit_in w l"
      using watch_clause(1,5) [OF at_restD(3) [OF w(2)] x c] clause_wfD(3) by blast
    then have "l \<noteq> 0" "l \<in> set [- ck_size_vars v + 1..ck_size_vars v - 1]" using f(1) by (auto simp: lit_in_def)
    then have "live v x" using w(7) x by blast
    then show ?thesis using w(3) by (simp add: live_def)
  qed
  then obtain u where u: "rbind (rfold ck_free_clause (ck_garbage w) w) (\<lambda>t. Ok (t\<lparr>ck_garbage := []\<rparr>)) = Ok u" "at_rest u" "store_ok u"
    "ck_garbage u = []" "shrunk {} w u" using free_garbage [OF w(2) st] by blast
  have "shrunk {} v w" using w(3,4) f(3,9) by (simp add: shrunk_def)
  then have "shrunk {} t u" using shrunk_trans [OF shrunk_trans [OF v(4)] u(5)] by simp
  moreover have "ck_collect_garbage t = Ok u" using v(1) w(1) u(1) by (simp add: ck_collect_garbage_def)
  ultimately show ?thesis using u(2-4) by blast
qed

section \<open>Deleting a clause\<close>

text \<open>
  A deletion needs a table to look into and a clause with the literals: then it succeeds, and only copies of that
  clause and satisfied clauses leave the store.
\<close>

definition deleted :: "Checker \<Rightarrow> Checker \<Rightarrow> bool" where
  "deleted t u \<longleftrightarrow> at_rest u \<and> store_ok u \<and> (\<exists>a c. memory t a = Some c \<and> matches t c \<and> c_size c \<noteq> 0 \<and> shrunk {a} t u)"

lemma find_and_unlink_ok:
  assumes "at_rest t" "store_ok t" "\<forall>l \<in> set (simplified t). lit_in t l"
  shows "find_and_unlink t =
      (if chains t = [] then Fault Diverges else Fault Aborted) \<and> (\<forall>a \<in> set (concat (chains t)). \<forall>c. memory t a = Some c \<longrightarrow> \<not> matches t c) \<or>
    (\<exists>u. find_and_unlink t = Ok u \<and> deleted t u)"
proof (cases "chains t = []")
  case True
  then show ?thesis by (simp add: find_and_unlink_def ck_find_empty)
next
  case False
  obtain h n where f: "ck_find t = Ok ((h, n), t)" "h < length (chains t)"
    "n < length (chains t ! h) \<longrightarrow> (\<exists>c. memory t (chains t ! h ! n) = Some c \<and> matches t c)"
    "n < length (chains t ! h) \<or> (\<forall>a \<in> set (concat (chains t)). \<forall>c. memory t a = Some c \<longrightarrow> \<not> matches t c)"
    using ck_find_ok [OF assms False] by blast
  show ?thesis
  proof (cases "n < length (chains t ! h)")
    case True
    let ?a = "chains t ! h ! n"
    obtain c where c: "memory t ?a = Some c" "matches t c" using f(3) True by blast
    have "?a \<in> set (concat (chains t))" using f(2) True unfolding in_concat_nth by auto
    then have "?a \<notin> set (ck_garbage t)" using store_okD(1) [OF assms(2)] unfolding distinct_append by blast
    then have sz: "c_size c \<noteq> 0" using store_okD(3) [OF assms(2) c(1)] by simp
    obtain v where v: "ck_unlink (h, n) t = Ok v" "at_rest v" "store_ok v" "shrunk {?a} t v"
      using ck_unlink_ok [OF assms(1,2) f(2) True] by blast
    obtain w where w: "ck_collect_garbage v = Ok w" "at_rest w" "store_ok w" "shrunk {} v w"
      using ck_collect_garbage_ok [OF v(2,3)] by blast
    have "shrunk {?a} t w" using shrunk_trans [OF v(4) w(4)] by simp
    then have "deleted t v" "deleted t w" using c sz v(2-4) w(2,3) unfolding deleted_def by blast+
    moreover have "find_and_unlink t = Ok v \<or> find_and_unlink t = Ok w"
      using f(1) True v(1) w(1) by (simp add: find_and_unlink_def)
    ultimately show ?thesis by blast
  next
    case no: False
    then show ?thesis using f(1,4) False by (simp add: find_and_unlink_def)
  qed
qed
end
