(* ===== verification/Drup_Correct.thy ===== *)
theory Drup_Correct
  imports Drup_Delete
begin

text \<open>
  The calls of the DRUP checker and sequences of them: every call comes back to the invariant or ends in a reported
  error, every accepted clause follows from the original clauses, and every clause that unit propagation over the
  live clauses refutes is accepted.
\<close>

section \<open>The beginning and the end of a call\<close>

lemma ck_calls:
  "ck_add_original_clause i c t = (if inconsistent t then Ok t
     else rbind (begin_clause i c t) (\<lambda>(taut, t). rbind (if taut then Ok t else ck_add_clause t) (\<lambda>t. Ok (clear_simplified t))))"
  "ck_add_derived_clause i c t = (if inconsistent t then Ok t
     else rbind (begin_clause i c t) (\<lambda>(taut, t). rbind (if taut then Ok t else check_and_add t) (\<lambda>t. Ok (clear_simplified t))))"
  "ck_delete_clause i c t = (if inconsistent t then Ok t
     else rbind (begin_clause i c t) (\<lambda>(taut, t). rbind (if taut then Ok t else find_and_unlink t) (\<lambda>t. Ok (clear_simplified t))))"
  by (simp_all add: ck_add_original_clause_def ck_add_derived_clause_def ck_delete_clause_def begin_clause_def rbind_assoc)

text \<open>A clause is accounted for if it is a tautology, has a true literal or is stored.\<close>

definition kept :: "int list \<Rightarrow> Checker \<Rightarrow> bool" where
  "kept c t \<longleftrightarrow> (\<exists>l \<in> set c. l \<noteq> 0 \<and> - l \<in> set c) \<or> represented c t"

text \<open>What a call does to the clauses: \<open>A\<close> are the literals of the clauses that may be lost.\<close>

definition called :: "int set set \<Rightarrow> Checker \<Rightarrow> Checker \<Rightarrow> bool" where
  "called A t u \<longleftrightarrow> ck_inv u \<and> (inconsistent t \<longrightarrow> u = t) \<and>
     (\<not> inconsistent u \<longrightarrow> (\<forall>d. kept d t \<longrightarrow> set d \<in> A \<or> kept d u))"

lemma called_refl: "ck_inv t \<Longrightarrow> called A t t"
  by (simp add: called_def)

lemma kept_clear [simp]: "kept d (clear_simplified t) = kept d t" "inconsistent (clear_simplified t) = inconsistent t"
  "models \<sigma> (clear_simplified t) = models \<sigma> t"
  by (simp_all add: kept_def represented_def clear_simplified_def models_def)

lemma ck_inv_clear:
  "store_ok u \<Longrightarrow> (\<not> inconsistent u \<Longrightarrow> at_rest u) \<Longrightarrow> ck_inv (clear_simplified u)"
  by (simp add: ck_inv_def clear_simplified_def)

lemma kept_begun:
  assumes "begun i c t taut u"
  shows "kept d t \<Longrightarrow> kept d u"
  using assms by (simp add: kept_def represented_def begun_def)

lemma kept_set: "set c = set d \<Longrightarrow> kept c t = kept d t"
  by (simp add: kept_def represented_def)

lemma kept_added: "added t u \<Longrightarrow> \<not> inconsistent u \<Longrightarrow> kept d t \<Longrightarrow> kept d u"
  by (auto simp: kept_def added_def)

lemma taut_begun:
  assumes "begun i c t True u"
  shows "kept c u" "models \<sigma> t \<Longrightarrow> sat_clause \<sigma> c"
proof -
  obtain l where l: "l \<in> set c" "l \<noteq> 0" "- l \<in> set c \<or> l \<in> set (ck_trail t)" using assms by (auto simp: begun_def)
  show "kept c u" using l assms by (auto simp: kept_def represented_def begun_def)
  show "sat_clause \<sigma> c" if "models \<sigma> t"
    using l(1,3) holds_minus [OF l(2), of \<sigma>] that by (auto simp: models_def sat_clause_iff)
qed

lemma sat_clause_set: "set c = set d \<Longrightarrow> sat_clause \<sigma> c = sat_clause \<sigma> d"
  by (simp add: sat_clause_iff)

text \<open>Adding the clause that was begun.\<close>

lemma add_begun:
  assumes "begun i c t False u"
  shows "\<exists>v. ck_add_clause u = Ok v \<and> ck_inv (clear_simplified v) \<and> (\<not> inconsistent v \<longrightarrow> kept c v \<and> (\<forall>d. kept d t \<longrightarrow> kept d v)) \<and>
    (\<forall>\<sigma>. models \<sigma> t \<longrightarrow> sat_clause \<sigma> c \<longrightarrow> \<not> inconsistent v \<and> models \<sigma> v)"
proof -
  have u: "at_rest u" "store_ok u" "\<not> inconsistent u" "\<forall>l \<in> set (simplified u). lit_in u l" "clean (ck_trail u) (simplified u)"
    "set (simplified u) = set c" "memory u = memory t" "ck_trail u = ck_trail t" using assms [unfolded begun_def if_False] by blast+
  obtain v where v: "ck_add_clause u = Ok v" "added u v" using ck_add_clause_ok [OF u(1-5)] by blast
  have "kept c v" if "\<not> inconsistent v"
    using v(2) that u(6) kept_set [of "simplified u" c v] by (simp add: added_def kept_def)
  moreover have "kept d v" if "\<not> inconsistent v" "kept d t" for d
    using kept_added [OF v(2) that(1)] kept_begun [OF assms that(2)] by blast
  moreover have "\<not> inconsistent v \<and> models \<sigma> v" if "models \<sigma> t" "sat_clause \<sigma> c" for \<sigma>
    using v(2) that models_frame [OF u(7,8), of \<sigma>] sat_clause_set [OF u(6), of \<sigma>] by (simp add: added_def)
  moreover have "ck_inv (clear_simplified v)" using v(2) by (auto simp: added_def intro: ck_inv_clear)
  ultimately show ?thesis using v(1) by blast
qed

section \<open>The calls\<close>

lemma add_original_ok:
  assumes "ck_inv t" "\<forall>l \<in> set c. lit_ok l"
  shows "\<exists>u. ck_add_original_clause i c t = Ok u \<and> called {} t u \<and> (\<not> inconsistent u \<longrightarrow> kept c u) \<and>
    (\<forall>\<sigma>. \<not> inconsistent t \<longrightarrow> models \<sigma> t \<longrightarrow> sat_clause \<sigma> c \<longrightarrow> \<not> inconsistent u \<and> models \<sigma> u)"
proof (cases "inconsistent t")
  case True
  then show ?thesis using called_refl [OF assms(1)] by (simp add: ck_calls(1))
next
  case False
  obtain taut u where u: "begin_clause i c t = Ok (taut, u)" "begun i c t taut u" using begin_clause_ok [OF assms(1) False assms(2)] by blast
  note b = u(2) [unfolded begun_def]
  show ?thesis
  proof (cases taut)
    case True
    have "ck_add_original_clause i c t = Ok (clear_simplified u)" using u(1) True False by (simp add: ck_calls(1))
    moreover have "ck_inv (clear_simplified u)" using b by (intro ck_inv_clear) simp_all
    moreover have "models \<sigma> u = models \<sigma> t" for \<sigma> by (rule models_frame) (use b in simp_all)
    ultimately show ?thesis
      using False b kept_begun [OF u(2)] taut_begun(1) [of i c t u] u(2) True
      by (intro exI [of _ "clear_simplified u"]) (simp add: called_def)
  next
    case nt: False
    then have "begun i c t False u" using u(2) by simp
    from add_begun [OF this] obtain v where v: "ck_add_clause u = Ok v" "ck_inv (clear_simplified v)"
      "\<not> inconsistent v \<longrightarrow> kept c v \<and> (\<forall>d. kept d t \<longrightarrow> kept d v)"
      "\<forall>\<sigma>. models \<sigma> t \<longrightarrow> sat_clause \<sigma> c \<longrightarrow> \<not> inconsistent v \<and> models \<sigma> v" by blast
    have "ck_add_original_clause i c t = Ok (clear_simplified v)" using u(1) v(1) nt False by (simp add: ck_calls(1))
    then show ?thesis using v(2-4) False by (intro exI [of _ "clear_simplified v"]) (simp add: called_def)
  qed
qed


text \<open>The check of a begun clause; \<open>T\<close> is what propagation reached when it failed.\<close>

lemma check_begun:
  assumes "begun i c t False u"
  shows "(\<exists>v. check_and_add u = Ok v \<and> ck_inv (clear_simplified v) \<and> (\<not> inconsistent v \<longrightarrow> kept c v \<and> (\<forall>d. kept d t \<longrightarrow> kept d v)) \<and>
      (\<forall>\<sigma>. models \<sigma> t \<longrightarrow> sat_clause \<sigma> c \<and> \<not> inconsistent v \<and> models \<sigma> v)) \<or>
    check_and_add u = Fault Aborted \<and> (\<exists>T. set (ck_trail t) \<union> uminus ` set c \<subseteq> T \<and> (\<forall>l \<in> T. - l \<notin> T) \<and>
      (\<forall>a d. memory t a = Some d \<longrightarrow> c_size d \<noteq> 0 \<longrightarrow> closed T (c_lits d)))"
proof -
  note b = assms [unfolded begun_def if_False]
  have u: "at_rest u" "store_ok u" "\<not> inconsistent u" "\<forall>l \<in> set (simplified u). lit_in u l" "clean (ck_trail u) (simplified u)"
    "set (simplified u) = set c" "memory u = memory t" "ck_trail u = ck_trail t" using b by blast+
  obtain ok v where v: "ck_check u = Ok (ok, v)" "at_rest v" "ck_trail v = ck_trail u" "moved u v"
    "\<And>\<sigma>. models \<sigma> u \<Longrightarrow> models \<sigma> v" "ok \<Longrightarrow> \<forall>\<sigma>. models \<sigma> u \<longrightarrow> sat_clause \<sigma> (simplified u)"
    "\<not> ok \<Longrightarrow> \<exists>T. set (ck_trail u) \<union> uminus ` set (simplified u) \<subseteq> T \<and> (\<forall>l \<in> T. - l \<notin> T) \<and>
      (\<forall>a c. memory u a = Some c \<longrightarrow> c_size c \<noteq> 0 \<longrightarrow> closed T (c_lits c))"
    using ck_check_ok [OF u(1,3-5)] by blast
  show ?thesis
  proof (cases ok)
    case True
    have fr: "frame v = frame u" using v(4) by (simp add: moved_def)
    have s: "simplified v = simplified u" "inconsistent v = inconsistent u" "ck_last_id v = ck_last_id u" by (rule frameD [OF fr])+
    have "begun i c v False v"
      unfolding begun_def if_False s v(3) moved_lit_in [OF v(4)]
      using b v(2) store_ok_moved [OF u(2) v(4)] by blast
    from add_begun [OF this] obtain w where w: "ck_add_clause v = Ok w" "ck_inv (clear_simplified w)"
      "\<not> inconsistent w \<longrightarrow> kept c w \<and> (\<forall>d. kept d v \<longrightarrow> kept d w)"
      "\<forall>\<sigma>. models \<sigma> v \<longrightarrow> sat_clause \<sigma> c \<longrightarrow> \<not> inconsistent w \<and> models \<sigma> w" by blast
    have "kept d v" if "kept d t" for d
      using kept_begun [OF assms that] represented_moved [OF _ v(4)] by (auto simp: kept_def)
    moreover have "sat_clause \<sigma> c \<and> models \<sigma> v" if "models \<sigma> t" for \<sigma>
      using v(5,6) True models_frame [OF u(7,8), of \<sigma>] sat_clause_set [OF u(6), of \<sigma>] that by blast
    moreover have "check_and_add u = Ok w" using v(1) w(1) True by (simp add: check_and_add_def)
    ultimately show ?thesis using w(2-4) by (intro disjI1 exI [of _ w]) auto
  next
    case False
    then have "check_and_add u = Fault Aborted" using v(1) by (simp add: check_and_add_def)
    then show ?thesis using v(7) [OF False] u(6-8) by simp
  qed
qed

text \<open>A set of literals that propagation cannot extend: the clauses of the checker are all closed under it.\<close>

definition saturated :: "int set \<Rightarrow> Checker \<Rightarrow> bool" where
  "saturated T t \<longleftrightarrow> set (ck_trail t) \<subseteq> T \<and> (\<forall>l \<in> T. - l \<notin> T) \<and>
     (\<forall>a d. memory t a = Some d \<longrightarrow> c_size d \<noteq> 0 \<longrightarrow> closed T (c_lits d))"

lemma add_derived_ok:
  assumes "ck_inv t" "\<forall>l \<in> set c. lit_ok l"
  shows "(\<exists>u. ck_add_derived_clause i c t = Ok u \<and> called {} t u \<and> (\<not> inconsistent u \<longrightarrow> kept c u) \<and>
      (\<forall>\<sigma>. \<not> inconsistent t \<longrightarrow> models \<sigma> t \<longrightarrow> sat_clause \<sigma> c \<and> \<not> inconsistent u \<and> models \<sigma> u)) \<or>
    ck_add_derived_clause i c t = Fault Aborted \<and> \<not> inconsistent t \<and> (\<exists>T. saturated T t \<and> uminus ` set c \<subseteq> T)"
proof (cases "inconsistent t")
  case True
  then show ?thesis using called_refl [OF assms(1)] by (simp add: ck_calls(2))
next
  case False
  obtain taut u where u: "begin_clause i c t = Ok (taut, u)" "begun i c t taut u" using begin_clause_ok [OF assms(1) False assms(2)] by blast
  note b = u(2) [unfolded begun_def]
  show ?thesis
  proof (cases taut)
    case True
    have "ck_add_derived_clause i c t = Ok (clear_simplified u)" using u(1) True False by (simp add: ck_calls(2))
    moreover have "ck_inv (clear_simplified u)" using b by (intro ck_inv_clear) simp_all
    moreover have "models \<sigma> u = models \<sigma> t" for \<sigma> by (rule models_frame) (use b in simp_all)
    ultimately show ?thesis
      using False b kept_begun [OF u(2)] taut_begun [of i c t u] u(2) True
      by (intro disjI1 exI [of _ "clear_simplified u"]) (simp add: called_def)
  next
    case nt: False
    then have "begun i c t False u" using u(2) by simp
    from check_begun [OF this] show ?thesis
    proof (elim disjE exE conjE)
      fix v assume v: "check_and_add u = Ok v" "ck_inv (clear_simplified v)"
        "\<not> inconsistent v \<longrightarrow> kept c v \<and> (\<forall>d. kept d t \<longrightarrow> kept d v)"
        "\<forall>\<sigma>. models \<sigma> t \<longrightarrow> sat_clause \<sigma> c \<and> \<not> inconsistent v \<and> models \<sigma> v"
      have "ck_add_derived_clause i c t = Ok (clear_simplified v)" using u(1) v(1) nt False by (simp add: ck_calls(2))
      then show ?thesis using v(2-4) False by (intro disjI1 exI [of _ "clear_simplified v"]) (simp add: called_def)
    next
      fix T assume T: "check_and_add u = Fault Aborted" "set (ck_trail t) \<union> uminus ` set c \<subseteq> T" "\<forall>l \<in> T. - l \<notin> T"
        "\<forall>a d. memory t a = Some d \<longrightarrow> c_size d \<noteq> 0 \<longrightarrow> closed T (c_lits d)"
      have "ck_add_derived_clause i c t = Fault Aborted" using u(1) T(1) nt False by (simp add: ck_calls(2))
      moreover have "saturated T t" "uminus ` set c \<subseteq> T" using T(2-4) by (simp_all add: saturated_def)
      ultimately show ?thesis using False by blast
    qed
  qed
qed

lemma kept_shrunk:
  assumes "winv (lit_in t) (memory t) (wl t)" "memory t a = Some c" "matches t c" "c_size c \<noteq> 0" "shrunk {a} t u" "distinct (simplified t)" "kept d t"
  shows "set d = set (simplified t) \<or> kept d u"
proof (cases "\<exists>l \<in> set d. l \<noteq> 0 \<and> - l \<in> set d \<or> l \<in> set (ck_trail t)")
  case True
  then show ?thesis using assms(5) by (auto simp: kept_def represented_def shrunk_def)
next
  case False
  then obtain b e where e: "memory t b = Some e" "c_size e \<noteq> 0" "set (c_lits e) = set d"
    using assms(7) unfolding kept_def represented_def by blast
  have "memory u b = Some e \<or> b = a" using assms(5) e False unfolding shrunk_def by blast
  then show ?thesis
  proof
    assume "memory u b = Some e"
    then show ?thesis using e by (auto simp: kept_def represented_def)
  next
    assume "b = a"
    then have "e = c" using e(1) assms(2) by simp
    note wf = clause_wfD(1,4) [OF winvD(1) [OF assms(1,2)]]
    have "card (set (c_lits c)) = card (set (simplified t))"
      using wf assms(3,4,6) by (simp add: matches_def distinct_card)
    then have "set (c_lits c) = set (simplified t)" using assms(3) by (intro card_subset_eq) (simp_all add: matches_def)
    then show ?thesis using e(3) \<open>e = c\<close> by simp
  qed
qed

lemma stored_chain:
  assumes "store_ok t" "memory t a = Some d" "c_size d \<noteq> 0"
  shows "a \<in> set (concat (chains t))"
proof -
  have "a \<in> dom (memory t)" "a \<notin> set (ck_garbage t)" using assms(2,3) store_okD(3) [OF assms(1,2)] by auto
  then show ?thesis unfolding store_okD(2) [OF assms(1)] by blast
qed

lemma delete_ok:
  assumes "ck_inv t" "\<forall>l \<in> set c. lit_ok l"
  shows "(\<exists>u. ck_delete_clause i c t = Ok u \<and> called {set c} t u \<and>
      (\<forall>\<sigma>. \<not> inconsistent t \<longrightarrow> models \<sigma> t \<longrightarrow> \<not> inconsistent u \<and> models \<sigma> u)) \<or>
    ck_delete_clause i c t = (if chains t = [] then Fault Diverges else Fault Aborted) \<and> \<not> inconsistent t \<and>
      (\<forall>a d. memory t a = Some d \<longrightarrow> c_size d \<noteq> 0 \<longrightarrow> set (c_lits d) = set c \<longrightarrow> c_hash d \<noteq> compute_hash i)"
proof (cases "inconsistent t")
  case True
  then show ?thesis using called_refl [OF assms(1)] by (simp add: ck_calls(3))
next
  case False
  obtain taut u where u: "begin_clause i c t = Ok (taut, u)" "begun i c t taut u" using begin_clause_ok [OF assms(1) False assms(2)] by blast
  note b = u(2) [unfolded begun_def]
  have mod: "models \<sigma> u = models \<sigma> t" for \<sigma> by (rule models_frame) (use b in simp_all)
  show ?thesis
  proof (cases taut)
    case True
    have "ck_delete_clause i c t = Ok (clear_simplified u)" using u(1) True False by (simp add: ck_calls(3))
    moreover have "ck_inv (clear_simplified u)" using b by (intro ck_inv_clear) simp_all
    ultimately show ?thesis
      using False b kept_begun [OF u(2)] mod by (intro disjI1 exI [of _ "clear_simplified u"]) (simp add: called_def)
  next
    case nt: False
    have s: "\<forall>l \<in> set (simplified u). lit_in u l" "set (simplified u) = set c" "distinct (simplified u)"
      using b nt by (auto simp: clean_def)
    have ur: "at_rest u" "store_ok u" "\<not> inconsistent u" "chains u = chains t" "memory u = memory t" "ck_last_id u = i" using b by blast+
    have run: "ck_delete_clause i c t = rbind (find_and_unlink u) (\<lambda>t. Ok (clear_simplified t))"
      using u(1) nt False by (simp add: ck_calls(3))
    from find_and_unlink_ok [OF ur(1,2) s(1)] show ?thesis
    proof (elim disjE exE conjE)
      fix v assume v: "find_and_unlink u = Ok v" "deleted u v"
      obtain a d where d: "memory u a = Some d" "matches u d" "c_size d \<noteq> 0" "shrunk {a} u v" "at_rest v" "store_ok v"
        using v(2) unfolding deleted_def by blast
      have "ck_inv (clear_simplified v)" using d(5,6) by (intro ck_inv_clear)
      moreover have "set e = set c \<or> kept e v" if "kept e t" for e
        using kept_shrunk [OF at_restD(3) [OF ur(1)] d(1-4) s(3) kept_begun [OF u(2) that]] s(2) by simp
      moreover have "inconsistent v = inconsistent u" using d(4) by (simp add: shrunk_def)
      moreover have "models \<sigma> v" if "models \<sigma> t" for \<sigma> using shrunk_models [OF d(4)] mod that by blast
      ultimately show ?thesis
        using run v(1) False ur(3) by (intro disjI1 exI [of _ "clear_simplified v"]) (auto simp: called_def)
    next
      assume f: "find_and_unlink u = (if chains u = [] then Fault Diverges else Fault Aborted)"
        "\<forall>a \<in> set (concat (chains u)). \<forall>c. memory u a = Some c \<longrightarrow> \<not> matches u c"
      have "c_hash d \<noteq> compute_hash i" if d: "memory t a = Some d" "c_size d \<noteq> 0" "set (c_lits d) = set c" for a d
      proof
        assume h: "c_hash d = compute_hash i"
        have m: "memory u a = Some d" using d(1) ur(5) by simp
        note wf = clause_wfD(1,4) [OF winvD(1) [OF at_restD(3) [OF ur(1)] m]]
        have "length (c_lits d) = length (simplified u)"
          using distinct_card [OF wf(1)] distinct_card [OF s(3)] s(2) d(3) by simp
        then have "matches u d" using wf(2) d(2,3) s(2) h ur(6) by (simp add: matches_def)
        moreover have "a \<in> set (concat (chains u))" by (rule stored_chain [OF ur(2) m d(2)])
        ultimately show False using f(2) m by blast
      qed
      then show ?thesis using run f(1) ur(4) False by auto
    qed
  qed
qed

text \<open>An assumption clause is added and deleted at once; the table cannot be empty then.\<close>

lemma begun_total:
  assumes "ck_inv t" "\<not> inconsistent t" "\<forall>l \<in> set c. lit_ok l" "kept c t" "chains t = []"
  shows "\<exists>u. begin_clause i c t = Ok (True, u)"
proof -
  obtain taut u where u: "begin_clause i c t = Ok (taut, u)" "begun i c t taut u" using begin_clause_ok [OF assms(1-3)] by blast
  have "taut"
  proof (rule ccontr)
    assume n: "\<not> taut"
    note b = u(2) [unfolded begun_def]
    have c: "\<forall>l \<in> set c. - l \<notin> set c \<and> l \<notin> set (ck_trail t)" using b n by (auto simp: clean_def)
    then obtain a d where d: "memory u a = Some d" "c_size d \<noteq> 0" using assms(4) b unfolding kept_def represented_def by auto
    have "store_ok u" "chains u = []" using b assms(5) by simp_all
    then show False using stored_chain [OF _ d] by simp
  qed
  then show ?thesis using u(1) by auto
qed

lemma add_assumption_ok:
  assumes "ck_inv t" "\<forall>l \<in> set c. lit_ok l"
  shows "(\<exists>u. ck_add_assumption_clause i c t = Ok u \<and> called {set c} t u \<and>
      (\<forall>\<sigma>. \<not> inconsistent t \<longrightarrow> models \<sigma> t \<longrightarrow> sat_clause \<sigma> c \<and> \<not> inconsistent u \<and> models \<sigma> u)) \<or>
    ck_add_assumption_clause i c t = Fault Aborted"
proof -
  from add_derived_ok [OF assms, of i] show ?thesis
  proof (elim disjE exE conjE)
    fix u assume u: "ck_add_derived_clause i c t = Ok u" "called {} t u" "\<not> inconsistent u \<longrightarrow> kept c u"
      "\<forall>\<sigma>. \<not> inconsistent t \<longrightarrow> models \<sigma> t \<longrightarrow> sat_clause \<sigma> c \<and> \<not> inconsistent u \<and> models \<sigma> u"
    have inv: "ck_inv u" using u(2) by (simp add: called_def)
    have run: "ck_add_assumption_clause i c t = ck_delete_clause i c u" using u(1) by (simp add: ck_add_assumption_clause_def)
    from delete_ok [OF inv assms(2), of i] show ?thesis
    proof (elim disjE exE conjE)
      fix v assume v: "ck_delete_clause i c u = Ok v" "called {set c} u v"
        "\<forall>\<sigma>. \<not> inconsistent u \<longrightarrow> models \<sigma> u \<longrightarrow> \<not> inconsistent v \<and> models \<sigma> v"
      have i: "\<not> inconsistent v \<Longrightarrow> \<not> inconsistent u" using v(2) by (auto simp: called_def)
      have "called {set c} t v"
        unfolding called_def
      proof (intro conjI impI allI)
        show "ck_inv v" using v(2) by (simp add: called_def)
        show "inconsistent t \<Longrightarrow> v = t" using u(2) v(2) by (simp add: called_def)
        fix d assume "\<not> inconsistent v" "kept d t"
        then show "set d \<in> {set c} \<or> kept d v" using u(2) v(2) i by (auto simp: called_def)
      qed
      then show ?thesis using run v(1,3) u(4) by auto
    next
      assume f: "ck_delete_clause i c u = (if chains u = [] then Fault Diverges else Fault Aborted)" "\<not> inconsistent u"
      have "chains u \<noteq> []"
      proof
        assume e: "chains u = []"
        then obtain w where "begin_clause i c u = Ok (True, w)" using begun_total [OF inv f(2) assms(2)] u(3) f(2) by blast
        then show False using f e by (simp add: ck_calls(3))
      qed
      then show ?thesis using run f(1) by simp
    qed
  next
    assume "ck_add_derived_clause i c t = Fault Aborted"
    then show ?thesis by (simp add: ck_add_assumption_clause_def)
  qed
qed

section \<open>Sequences of calls\<close>

datatype ck_event = CkOriginal nat "int list" | CkDerived nat "int list" | CkDelete nat "int list" | CkAssumption nat "int list"

fun ck_call :: "ck_event \<Rightarrow> Checker \<Rightarrow> Checker result" where
  "ck_call (CkOriginal i c) = ck_add_original_clause i c"
| "ck_call (CkDerived i c) = ck_add_derived_clause i c"
| "ck_call (CkDelete i c) = ck_delete_clause i c"
| "ck_call (CkAssumption i c) = ck_add_assumption_clause i c"

definition ck_run :: "ck_event list \<Rightarrow> Checker result" where
  "ck_run es = rfold ck_call es new_Checker"

fun ck_lits :: "ck_event \<Rightarrow> int list" where
  "ck_lits (CkOriginal i c) = c"
| "ck_lits (CkDerived i c) = c"
| "ck_lits (CkDelete i c) = c"
| "ck_lits (CkAssumption i c) = c"

definition ck_lits_ok :: "ck_event list \<Rightarrow> bool" where
  "ck_lits_ok es \<longleftrightarrow> (\<forall>e \<in> set es. \<forall>l \<in> set (ck_lits e). lit_ok l)"

fun ck_original :: "ck_event \<Rightarrow> int list list" where
  "ck_original (CkOriginal i c) = [c]"
| "ck_original e = []"

fun ck_derived :: "ck_event \<Rightarrow> int list list" where
  "ck_derived (CkDerived i c) = [c]"
| "ck_derived (CkAssumption i c) = [c]"
| "ck_derived e = []"

text \<open>The clauses, as sets of literals, that no later call deletes.\<close>

fun live_after :: "ck_event \<Rightarrow> int set set \<Rightarrow> int set set" where
  "live_after (CkOriginal i c) F = insert (set c) F"
| "live_after (CkDerived i c) F = insert (set c) F"
| "live_after (CkDelete i c) F = F - {set c}"
| "live_after (CkAssumption i c) F = F - {set c}"

definition live_clauses :: "ck_event list \<Rightarrow> int set set" where
  "live_clauses es = fold live_after es {}"

lemma ck_call_ok:
  assumes "ck_inv t" "\<forall>l \<in> set (ck_lits e). lit_ok l" "ck_call e t = Ok u"
  shows "ck_inv u" "inconsistent t \<Longrightarrow> u = t"
    "\<not> inconsistent u \<Longrightarrow> \<forall>d. set d \<in> F \<longrightarrow> kept d t \<Longrightarrow> \<forall>d. set d \<in> live_after e F \<longrightarrow> kept d u"
    "\<not> inconsistent t \<Longrightarrow> models \<sigma> t \<Longrightarrow> list_all (sat_clause \<sigma>) (ck_original e) \<Longrightarrow>
       list_all (sat_clause \<sigma>) (ck_derived e) \<and> \<not> inconsistent u \<and> models \<sigma> u"
proof -
  consider i c where "e = CkOriginal i c" | i c where "e = CkDerived i c" | i c where "e = CkDelete i c" | i c where "e = CkAssumption i c"
    by (cases e) auto
  then have "called (case e of CkDelete i c \<Rightarrow> {set c} | CkAssumption i c \<Rightarrow> {set c} | _ \<Rightarrow> {}) t u \<and>
    (\<forall>i c. \<not> inconsistent u \<longrightarrow> e = CkOriginal i c \<or> e = CkDerived i c \<longrightarrow> kept c u) \<and>
    (\<forall>\<sigma>. \<not> inconsistent t \<longrightarrow> models \<sigma> t \<longrightarrow> list_all (sat_clause \<sigma>) (ck_original e) \<longrightarrow>
       list_all (sat_clause \<sigma>) (ck_derived e) \<and> \<not> inconsistent u \<and> models \<sigma> u)"
  proof cases
    case 1
    then show ?thesis using add_original_ok [OF assms(1), of c i] assms(2,3) by auto
  next
    case 2
    then show ?thesis using add_derived_ok [OF assms(1), of c i] assms(2,3) by auto
  next
    case 3
    then show ?thesis using delete_ok [OF assms(1), of c i] assms(2,3) by (auto split: if_splits)
  next
    case 4
    then show ?thesis using add_assumption_ok [OF assms(1), of c i] assms(2,3) by auto
  qed
  note R = this [THEN conjunct1, unfolded called_def] this [THEN conjunct2, THEN conjunct1] this [THEN conjunct2, THEN conjunct2]
  show "ck_inv u" "inconsistent t \<Longrightarrow> u = t" using R(1) by blast+
  show "\<not> inconsistent t \<Longrightarrow> models \<sigma> t \<Longrightarrow> list_all (sat_clause \<sigma>) (ck_original e) \<Longrightarrow>
       list_all (sat_clause \<sigma>) (ck_derived e) \<and> \<not> inconsistent u \<and> models \<sigma> u" using R(3) by blast
  assume n: "\<not> inconsistent u" and F: "\<forall>d. set d \<in> F \<longrightarrow> kept d t"
  have old: "set d \<in> F \<Longrightarrow> set d \<in> (case e of CkDelete i c \<Rightarrow> {set c} | CkAssumption i c \<Rightarrow> {set c} | _ \<Rightarrow> {}) \<or> kept d u" for d
    using R(1) n F by blast
  have new: "kept d u" if "e = CkOriginal i c \<or> e = CkDerived i c" "set d = set c" for i c d
    using R(2) n that(1) kept_set [OF that(2), of u] by blast
  show "\<forall>d. set d \<in> live_after e F \<longrightarrow> kept d u"
  proof (intro allI impI)
    fix d assume "set d \<in> live_after e F"
    then show "kept d u" using old [of d] new [of _ _ d] by (cases e) auto
  qed
qed

lemma ck_inv_new: "ck_inv new_Checker"
proof -
  have w: "wl new_Checker l = []" for l by (simp add: wl_def new_Checker_def)
  show ?thesis
    by (simp add: ck_inv_def store_ok_def at_rest_def prop_inv_def trail_inv_def winv_def blocked_def hashed_def w guarded_def)
      (simp add: new_Checker_def)
qed

text \<open>What holds after a sequence of calls.\<close>

lemma ck_run_ok:
  assumes "ck_run es = Ok t" "ck_lits_ok es"
  shows "ck_inv t" "\<not> inconsistent t \<Longrightarrow> set d \<in> live_clauses es \<Longrightarrow> kept d t"
    "list_all (sat_clause \<sigma>) (concat (map ck_original es)) \<Longrightarrow>
       list_all (sat_clause \<sigma>) (concat (map ck_derived es)) \<and> \<not> inconsistent t \<and> models \<sigma> t"
proof -
  have "ck_inv t \<and> (\<not> inconsistent t \<longrightarrow> (\<forall>d. set d \<in> live_clauses es \<longrightarrow> kept d t)) \<and>
    (list_all (sat_clause \<sigma>) (concat (map ck_original es)) \<longrightarrow>
       list_all (sat_clause \<sigma>) (concat (map ck_derived es)) \<and> \<not> inconsistent t \<and> models \<sigma> t)"
    using assms
  proof (induction es arbitrary: t rule: rev_induct)
    case Nil
    then have "t = new_Checker" by (simp add: ck_run_def)
    then show ?case using ck_inv_new by (simp add: live_clauses_def models_def) (simp add: new_Checker_def)
  next
    case (snoc e es)
    obtain s where s: "ck_run es = Ok s" "ck_call e s = Ok t"
      using snoc.prems(1) by (auto simp: ck_run_def rfold_append rbind_eq_Ok_iff)
    have lits: "ck_lits_ok es" "\<forall>l \<in> set (ck_lits e). lit_ok l" using snoc.prems(2) by (simp_all add: ck_lits_ok_def)
    note IH = snoc.IH [OF s(1) lits(1)]
    note C = ck_call_ok [OF IH [THEN conjunct1] lits(2) s(2)]
    have l: "live_clauses (es @ [e]) = live_after e (live_clauses es)" by (simp add: live_clauses_def)
    show ?case
      unfolding l using IH C(1,2,4) C(3) [of "live_clauses es"] by (cases "inconsistent s") auto
  qed
  then show "ck_inv t" "\<not> inconsistent t \<Longrightarrow> set d \<in> live_clauses es \<Longrightarrow> kept d t"
    "list_all (sat_clause \<sigma>) (concat (map ck_original es)) \<Longrightarrow>
       list_all (sat_clause \<sigma>) (concat (map ck_derived es)) \<and> \<not> inconsistent t \<and> models \<sigma> t" by blast+
qed

section \<open>Unit propagation on sets of clauses\<close>

text \<open>The reference: the literals that follow from \<open>A\<close> by unit propagation over the clauses of \<open>F\<close>, and refutation.\<close>

inductive implied :: "int set set \<Rightarrow> int set \<Rightarrow> int \<Rightarrow> bool" for F A where
  assumption: "l \<in> A \<Longrightarrow> implied F A l"
| unit: "C \<in> F \<Longrightarrow> l \<in> C \<Longrightarrow> (\<And>m. m \<in> C \<Longrightarrow> m \<noteq> l \<Longrightarrow> implied F A (- m)) \<Longrightarrow> implied F A l"

definition refuted :: "int set set \<Rightarrow> int set \<Rightarrow> bool" where
  "refuted F A \<longleftrightarrow> (\<exists>l. implied F A l \<and> implied F A (- l)) \<or> (\<exists>C \<in> F. \<forall>m \<in> C. implied F A (- m))"

lemma implied_closed:
  assumes "implied F A l" "A \<subseteq> T" "\<forall>l \<in> T. - l \<notin> T" "\<And>c. set c \<in> F \<Longrightarrow> closed T c" "\<forall>C \<in> F. finite C"
  shows "l \<in> T"
  using assms(1)
proof induction
  case (assumption l)
  then show ?case using assms(2) by blast
next
  case (unit C l)
  obtain c where c: "set c = C" using unit.hyps(1) assms(5) finite_list by blast
  then have "closed T c" using assms(4) unit.hyps(1) by simp
  then show ?case
    unfolding closed_def
  proof
    assume "\<exists>m \<in> set c. m \<in> T"
    then obtain m where m: "m \<in> set c" "m \<in> T" by blast
    then have "m \<noteq> l \<Longrightarrow> - m \<in> T" using unit.IH c by blast
    then show ?thesis using m(2) assms(3) by blast
  next
    assume "\<exists>m \<in> set c. \<exists>k \<in> set c. m \<noteq> k \<and> - m \<notin> T \<and> - k \<notin> T"
    then show ?thesis using unit.IH c by metis
  qed
qed

lemma refuted_closed:
  assumes "A \<subseteq> T" "\<forall>l \<in> T. - l \<notin> T" "\<And>c. set c \<in> F \<Longrightarrow> closed T c" "\<forall>C \<in> F. finite C"
  shows "\<not> refuted F A"
proof
  note I = implied_closed [OF _ assms]
  assume "refuted F A"
  then consider l where "implied F A l" "implied F A (- l)" | C where "C \<in> F" "\<forall>m \<in> C. implied F A (- m)"
    unfolding refuted_def by blast
  then show False
  proof cases
    case 1
    then show ?thesis using I assms(2) by blast
  next
    case 2
    obtain c where c: "set c = C" using 2(1) assms(4) finite_list by blast
    then have "closed T c" "\<forall>m \<in> set c. - m \<in> T" using 2 assms(3) I by auto
    then show ?thesis using assms(2) unfolding closed_def by blast
  qed
qed

lemma live_finite: "C \<in> live_clauses es \<Longrightarrow> finite C"
proof (induction es arbitrary: C rule: rev_induct)
  case Nil
  then show ?case by (simp add: live_clauses_def)
next
  case (snoc e es)
  then show ?case by (cases e) (auto simp: live_clauses_def)
qed

lemma kept_closed:
  assumes "kept c t" "saturated T t"
  shows "closed T c"
proof (cases "\<exists>l \<in> set c. l \<noteq> 0 \<and> - l \<in> set c \<or> l \<in> set (ck_trail t)")
  case True
  then obtain l where l: "l \<in> set c" "l \<noteq> 0 \<and> - l \<in> set c \<or> l \<in> T" using assms(2) by (auto simp: saturated_def)
  show ?thesis
  proof (cases "l \<in> T \<or> - l \<in> T")
    case True
    then show ?thesis using l by (auto simp: closed_def)
  next
    case False
    then have "l \<noteq> - l" "- l \<in> set c" using l(2) by auto
    then show ?thesis using l(1) False unfolding closed_def by (metis minus_minus)
  qed
next
  case False
  then obtain a d where "memory t a = Some d" "c_size d \<noteq> 0" "set (c_lits d) = set c"
    using assms(1) unfolding kept_def represented_def by blast
  then have "closed T (c_lits d)" "set (c_lits d) = set c" using assms(2) by (simp_all add: saturated_def)
  then show ?thesis by (simp add: closed_def)
qed

lemma derived_accepted:
  assumes "ck_run es = Ok t" "ck_lits_ok es" "\<forall>l \<in> set c. lit_ok l" "refuted (live_clauses es) (uminus ` set c)"
  shows "\<exists>u. ck_add_derived_clause i c t = Ok u"
proof (rule ccontr)
  assume "\<not> ?thesis"
  then obtain T where T: "\<not> inconsistent t" "saturated T t" "uminus ` set c \<subseteq> T"
    using add_derived_ok [OF ck_run_ok(1) [OF assms(1,2)] assms(3), of i] by blast
  have "closed T d" if "set d \<in> live_clauses es" for d
    by (rule kept_closed [OF ck_run_ok(2) [OF assms(1,2) T(1) that] T(2)])
  moreover have "\<forall>l \<in> T. - l \<notin> T" using T(2) by (simp add: saturated_def)
  ultimately show False using refuted_closed [OF T(3)] live_finite assms(4) by blast
qed

section \<open>Properties\<close>

text \<open>
  C33. Soundness: after a sequence of calls that all return, every accepted derived or assumption clause follows from
  the original clauses, and if the checker is inconsistent then so are the original clauses.
\<close>
theorem ck_sound:
  assumes "ck_run es = Ok t" "ck_lits_ok es"
  shows "list_all (entails (concat (map ck_original es))) (concat (map ck_derived es)) \<and>
    (inconsistent t \<longrightarrow> entails (concat (map ck_original es)) [])"
proof -
  have "list_all (sat_clause \<sigma>) (concat (map ck_derived es)) \<and> \<not> inconsistent t"
    if "list_all (sat_clause \<sigma>) (concat (map ck_original es))" for \<sigma>
    using ck_run_ok(3) [OF assms that] by blast
  then show ?thesis by (auto simp: list_all_iff entails_def)
qed

definition drup_example :: "ck_event list" where
  "drup_example = [CkOriginal 1 [1, 2], CkOriginal 2 [- 1, 2], CkDerived 3 [2], CkOriginal 4 [- 2, 3], CkOriginal 5 [- 2, - 3]]"

lemma ck_sound_witness: "entails [[1, 2], [- 1, 2], [- 2, 3], [- 2, - 3]] [2]"
proof -
  have "ck_lits_ok drup_example" by (simp add: ck_lits_ok_def drup_example_def lit_ok_def)
  moreover have "(case ck_run drup_example of Ok t \<Rightarrow> inconsistent t | Fault e \<Rightarrow> False)" by code_simp
  then obtain t where "ck_run drup_example = Ok t" by (auto split: result.splits)
  ultimately show ?thesis using ck_sound [of drup_example t] by (simp add: drup_example_def)
qed

text \<open>
  C35. After any calls that return, every call on literals up to \<open>2 ^ 29\<close> returns or ends in a way the code
  intends: an original clause is always taken; a derived or assumption clause is taken or refused with an error
  message; a deletion succeeds unless no stored clause has its literals and its hash, and then it ends with an
  error message, or never returns if the hash table is still empty. In particular no access is out of bounds and
  no freed clause is used.
\<close>
theorem ck_total:
  assumes "ck_run es = Ok t" "ck_lits_ok (es @ [e])"
  shows "(case e of
      CkOriginal i c \<Rightarrow> \<exists>u. ck_call e t = Ok u
    | CkDerived i c \<Rightarrow> (\<exists>u. ck_call e t = Ok u) \<or> ck_call e t = Fault Aborted
    | CkAssumption i c \<Rightarrow> (\<exists>u. ck_call e t = Ok u) \<or> ck_call e t = Fault Aborted
    | CkDelete i c \<Rightarrow> (\<exists>u. ck_call e t = Ok u) \<or>
        ck_call e t = (if chains t = [] then Fault Diverges else Fault Aborted) \<and>
          (\<nexists>a d. memory t a = Some d \<and> c_size d \<noteq> 0 \<and> set (c_lits d) = set c \<and> c_hash d = compute_hash i))"
proof -
  have lits: "ck_lits_ok es" "\<forall>l \<in> set (ck_lits e). lit_ok l" using assms(2) by (simp_all add: ck_lits_ok_def)
  note inv = ck_run_ok(1) [OF assms(1) lits(1)]
  show ?thesis
  proof (cases e)
    case (CkOriginal i c)
    then show ?thesis using add_original_ok [OF inv, of c i] lits(2) by auto
  next
    case (CkDerived i c)
    then show ?thesis using add_derived_ok [OF inv, of c i] lits(2) by auto
  next
    case (CkDelete i c)
    then show ?thesis using delete_ok [OF inv, of c i] lits(2) by auto
  next
    case (CkAssumption i c)
    then show ?thesis using add_assumption_ok [OF inv, of c i] lits(2) by auto
  qed
qed

definition drup_start :: "ck_event list" where
  "drup_start = [CkOriginal 1 [1, 2], CkOriginal 2 [- 1, 2]]"

lemma drup_start_ok: "\<exists>t. ck_run drup_start = Ok t" "ck_lits_ok drup_start"
proof -
  have "(case ck_run drup_start of Ok t \<Rightarrow> True | Fault e \<Rightarrow> False)" by code_simp
  then show "\<exists>t. ck_run drup_start = Ok t" by (auto split: result.splits)
  show "ck_lits_ok drup_start" by (simp add: ck_lits_ok_def drup_start_def lit_ok_def)
qed

lemma ck_total_witness: "\<exists>u. rbind (ck_run drup_start) (ck_add_original_clause 3 [3, 1]) = Ok u"
proof -
  obtain t where t: "ck_run drup_start = Ok t" using drup_start_ok(1) by blast
  have "ck_lits_ok (drup_start @ [CkOriginal 3 [3, 1]])" using drup_start_ok(2) by (simp add: ck_lits_ok_def lit_ok_def)
  from ck_total [OF t this] show ?thesis using t by simp
qed

text \<open>
  C34. Completeness: a derived clause that unit propagation over the live clauses refutes, that is every reverse unit
  propagation clause, is accepted: no live clause is lost by the watches, the hash table or the collection of garbage.
\<close>
theorem ck_complete:
  assumes "ck_run es = Ok t" "ck_lits_ok es" "\<forall>l \<in> set c. lit_ok l" "refuted (live_clauses es) (uminus ` set c)"
  shows "\<exists>u. ck_add_derived_clause i c t = Ok u"
  using assms by (rule derived_accepted)

lemma live_start: "live_clauses drup_start = {{1, 2}, {- 1, 2}}"
  by (auto simp: live_clauses_def drup_start_def)

lemma ck_complete_witness: "\<exists>u. rbind (ck_run drup_start) (ck_add_derived_clause 3 [2]) = Ok u"
proof -
  obtain t where t: "ck_run drup_start = Ok t" using drup_start_ok(1) by blast
  let ?F = "live_clauses drup_start"
  have two: "implied ?F (uminus ` set [2]) (- 2)" by (rule implied.assumption) simp
  have "implied ?F (uminus ` set [2]) 1"
    by (rule implied.unit [of "{1, 2}"]) (use two in \<open>auto simp: live_start\<close>)
  then have "refuted ?F (uminus ` set [2])"
    using two unfolding refuted_def live_start by (intro disjI2 bexI [of _ "{- 1, 2}"]) auto
  then show ?thesis using ck_complete [OF t drup_start_ok(2), of "[2]" 3] t by (simp add: lit_ok_def)
qed

text \<open>
  The checker notices a conflict: when unit propagation over the live clauses alone finds one, the checker is
  already inconsistent.
\<close>
theorem ck_conflict:
  assumes "ck_run es = Ok t" "ck_lits_ok es" "refuted (live_clauses es) {}"
  shows "inconsistent t"
proof (rule ccontr)
  assume n: "\<not> inconsistent t"
  have r: "at_rest t" using ck_run_ok(1) [OF assms(1,2)] n by (simp add: ck_inv_def)
  have s: "saturated (set (ck_trail t)) t"
    using rest_closed [OF r] trail_invD(8) [OF at_restD(2) [OF r]] by (simp add: saturated_def)
  have "closed (set (ck_trail t)) d" if "set d \<in> live_clauses es" for d
    by (rule kept_closed [OF ck_run_ok(2) [OF assms(1,2) n that] s])
  then show False using refuted_closed [of "{}" "set (ck_trail t)"] live_finite assms(3) s by (auto simp: saturated_def)
qed

definition drup_units :: "ck_event list" where
  "drup_units = [CkOriginal 1 [1, 2], CkOriginal 2 [- 1], CkOriginal 3 [- 2]]"

lemma ck_conflict_witness: "case ck_run drup_units of Ok t \<Rightarrow> inconsistent t | Fault e \<Rightarrow> False"
proof -
  have ok: "ck_lits_ok drup_units" by (simp add: ck_lits_ok_def drup_units_def lit_ok_def)
  have live: "live_clauses drup_units = {{1, 2}, {- 1}, {- 2}}" by (auto simp: live_clauses_def drup_units_def)
  have "implied {{1, 2}, {- 1}, {- 2}} {} (- 1)" "implied {{1, 2}, {- 1}, {- 2}} {} (- 2)"
    by (rule implied.unit [of "{- 1}"] implied.unit [of "{- 2}"]; simp)+
  then have "refuted (live_clauses drup_units) {}"
    unfolding refuted_def live by (intro disjI2 bexI [of _ "{1, 2}"]) auto
  moreover have "(case ck_run drup_units of Ok t \<Rightarrow> True | Fault e \<Rightarrow> False)" by code_simp
  ultimately show ?thesis using ck_conflict [OF _ ok] by (auto split: result.splits)
qed

text \<open>
  The owners of the clauses: after any calls that return, the collision chains and the garbage list hold every
  allocated clause exactly once, the garbage clauses are those of size zero, the counters are the numbers of both, and
  while the checker is consistent every watch points to an allocated clause in which it watches one of the literals.
\<close>
theorem ck_owners:
  assumes "ck_run es = Ok t" "ck_lits_ok es"
  shows "distinct (concat (chains t) @ ck_garbage t) \<and> dom (memory t) = set (concat (chains t)) \<union> set (ck_garbage t) \<and>
    (\<forall>a d. memory t a = Some d \<longrightarrow> (c_size d = 0 \<longleftrightarrow> a \<in> set (ck_garbage t))) \<and>
    ck_num_clauses t = length (concat (chains t)) \<and> ck_num_garbage t = length (ck_garbage t) \<and>
    (\<not> inconsistent t \<longrightarrow> (\<forall>l. \<forall>w \<in> set (wl t l). \<exists>d. memory t (w_clause w) = Some d \<and> l \<in> set (c_lits d)))"
proof -
  note inv = ck_run_ok(1) [OF assms]
  have S: "store_ok t" and r: "\<not> inconsistent t \<Longrightarrow> at_rest t" using inv by (simp_all add: ck_inv_def)
  have "\<exists>d. memory t (w_clause w) = Some d \<and> l \<in> set (c_lits d)" if "\<not> inconsistent t" "w \<in> set (wl t l)" for l w
    using watch_memory [OF at_restD(3) [OF r [OF that(1)]] that(2)] watch_clause(5) [OF at_restD(3) [OF r [OF that(1)]] that(2)] by blast
  then show ?thesis using store_okD [OF S] by simp
qed

lemma ck_owners_witness:
  "case ck_run drup_start of Ok t \<Rightarrow> ck_num_clauses t = length (concat (chains t)) \<and> ck_num_garbage t = 0 | Fault e \<Rightarrow> False"
proof -
  have "(case ck_run drup_start of Ok t \<Rightarrow> ck_garbage t = [] | Fault e \<Rightarrow> False)" by code_simp
  then show ?thesis using ck_owners [OF _ drup_start_ok(2)] by (auto split: result.splits)
qed

text \<open>
  A deletion before any clause is stored does not return: reducing the hash value to the size 0 of the table
  never ends.
\<close>
lemma ck_delete_first:
  assumes "\<forall>l \<in> set c. lit_ok l" "\<forall>l \<in> set c. - l \<notin> set c"
  shows "ck_run [CkDelete i c] = Fault Diverges"
proof -
  have n: "\<not> inconsistent new_Checker" "chains new_Checker = []" "ck_trail new_Checker = []" by (simp_all add: new_Checker_def)
  obtain taut u where u: "begin_clause i c new_Checker = Ok (taut, u)" "begun i c new_Checker taut u"
    using begin_clause_ok [OF ck_inv_new n(1) assms(1)] by blast
  have "\<not> taut" using u(2) assms(2) n(3) by (auto simp: begun_def)
  moreover have "chains u = []" using u(2) n(2) by (simp add: begun_def)
  ultimately show ?thesis
    using u(1) n(1) by (simp add: ck_run_def ck_calls(3) find_and_unlink_def ck_find_empty)
qed

end
