(* ===== verification/Veripb_Tracer.thy ===== *)
theory Veripb_Tracer
  imports Proof_Tracers Hash_Table
begin

text \<open>
  The tracer that writes proofs for VeriPB (\<open>veripbtracer.cpp\<close>, \<open>veripbtracer.hpp\<close>): pseudo-Boolean
  lines for derived clauses, and deletions that keep a hash table of the weakened clauses, whose
  deletion is not written in the mode of checked deletions. The reference describes
  the same file with a multiset of weakened identifiers instead of the table.
\<close>

section \<open>State\<close>

record VeripbTracer =
  vp_file :: pfile
  vp_antecedents :: bool
  checked_deletions :: bool
  vp_clauses :: "unit htable"
  vp_last_id :: nat
  vp_added :: nat
  vp_deleted :: nat

definition new_VeripbTracer :: "bool \<Rightarrow> bool \<Rightarrow> VeripbTracer" where
  "new_VeripbTracer a c = \<lparr>vp_file = \<lparr>f_opened = True, f_text = '''', f_bytes = 0\<rparr>, vp_antecedents = a,
     checked_deletions = c, vp_clauses = empty_htable, vp_last_id = 0, vp_added = 0, vp_deleted = 0\<rparr>"

text \<open>The guard \<open>num_clauses\<close> keeps the search away from an empty table.\<close>

definition find_and_delete :: "nat \<Rightarrow> unit htable \<Rightarrow> (bool \<times> unit htable) result" where
  "find_and_delete i tab =
     (if num_clauses tab = 0 then Ok (False, tab)
      else rbind (Hash_Table.find i tab) (\<lambda>p.
             if deref tab p = None then Ok (False, tab) else Ok (True, unlink p tab)))"

section \<open>Lines\<close>

definition veripb_lit :: "int \<Rightarrow> string result" where
  "veripb_lit lit =
     (if lit = INT_MIN then Fault SignedOverflow
      else rbind (put_int \<bar>lit\<bar>) (\<lambda>s.
             Ok (''1 '' @ (if lit < 0 then ''~'' else '''') @ ''x'' @ s @ '' '')))"

definition put_core :: "nat \<Rightarrow> pfile \<Rightarrow> pfile result" where
  "put_core i f =
     rbind (put_text (put_uint64 i) (put_str ''core id '' f)) (\<lambda>f. Ok (put_str ''\<newline>'' f))"

fun put_chain :: "bool \<Rightarrow> nat list \<Rightarrow> pfile \<Rightarrow> pfile result" where
  "put_chain start [] f = Ok f"
| "put_chain start (i # ids) f =
     (if start then rbind (put_text (put_uint64 i) f) (put_chain False ids)
      else rbind (put_text (put_uint64 i) (put_str '' '' f)) (\<lambda>f.
             put_chain False ids (put_str '' + s'' f)))"

definition veripb_add_chain :: "bool \<Rightarrow> nat \<Rightarrow> bool \<Rightarrow> int list \<Rightarrow> nat list \<Rightarrow> pfile \<Rightarrow> pfile result" where
  "veripb_add_chain checked i redundant clause chain f =
     rbind (put_chain True (rev chain) (put_str ''pol '' f)) (\<lambda>f.
     rbind (put_text (put_uint64 i) (put_str ''e '' (put_str ''\<newline>'' f))) (\<lambda>f.
     rbind (rfold (\<lambda>l. put_text (veripb_lit l)) clause (put_str '' : '' f)) (\<lambda>f.
       let f = put_str ''>= 1 ;\<newline>'' f in
       if \<not> redundant \<and> checked then put_core i f else Ok f)))"

definition veripb_add_rup :: "bool \<Rightarrow> nat \<Rightarrow> bool \<Rightarrow> int list \<Rightarrow> pfile \<Rightarrow> pfile result" where
  "veripb_add_rup checked i redundant clause f =
     rbind (rfold (\<lambda>l. put_text (veripb_lit l)) clause (put_str ''rup '' f)) (\<lambda>f.
       let f = put_str ''>= 1 ;\<newline>'' f in
       if \<not> redundant \<and> checked then put_core i f else Ok f)"

definition veripb_begin_proof :: "nat \<Rightarrow> pfile \<Rightarrow> pfile result" where
  "veripb_begin_proof reserved f =
     rbind (put_text (put_uint64 reserved) (put_str ''f '' (put_str ''pseudo-Boolean proof version 2.0\<newline>'' f)))
       (\<lambda>f. Ok (put_str ''\<newline>'' f))"

definition veripb_delete_clause :: "nat \<Rightarrow> bool \<Rightarrow> VeripbTracer \<Rightarrow> VeripbTracer result" where
  "veripb_delete_clause i redundant t =
     rbind (if \<not> redundant \<and> checked_deletions t then find_and_delete i (vp_clauses t)
            else Ok (False, vp_clauses t)) (\<lambda>(found, tab).
       let t = t\<lparr>vp_clauses := tab\<rparr> in
       if found then Ok t
       else let f = put_str (if redundant \<or> \<not> checked_deletions t then ''del id '' else ''delc '') (vp_file t) in
         rbind (put_text (put_uint64 i) f) (\<lambda>f. Ok (t\<lparr>vp_file := put_str ''\<newline>'' f\<rparr>)))"

definition veripb_report_status :: "bool \<Rightarrow> nat \<Rightarrow> pfile \<Rightarrow> pfile result" where
  "veripb_report_status unsat conflict f =
     (let f = put_str ''output NONE\<newline>'' f in
      rbind (if unsat then rbind (put_text (put_uint64 conflict) (put_str ''conclusion UNSAT : '' f))
                             (\<lambda>f. Ok (put_str '' \<newline>'' f))
             else Ok (put_str ''conclusion NONE\<newline>'' f)) (\<lambda>f.
        Ok (put_str ''end pseudo-Boolean proof\<newline>'' f)))"

section \<open>Events\<close>

definition with_file :: "(pfile \<Rightarrow> pfile result) \<Rightarrow> VeripbTracer \<Rightarrow> VeripbTracer result" where
  "with_file w t = rbind (w (vp_file t)) (\<lambda>f. Ok (t\<lparr>vp_file := f\<rparr>))"

definition vp_begin :: "nat \<Rightarrow> VeripbTracer \<Rightarrow> VeripbTracer result" where
  "vp_begin i t = (if pfile_closed (vp_file t) then Ok t else with_file (veripb_begin_proof i) t)"

definition vp_add_derived :: "nat \<Rightarrow> bool \<Rightarrow> int list \<Rightarrow> nat list \<Rightarrow> VeripbTracer \<Rightarrow> VeripbTracer result" where
  "vp_add_derived i redundant clause chain t =
     (if pfile_closed (vp_file t) then Ok t
      else rbind (with_file (if vp_antecedents t
                             then veripb_add_chain (checked_deletions t) i redundant clause chain
                             else veripb_add_rup (checked_deletions t) i redundant clause) t) (\<lambda>t.
             Ok (t\<lparr>vp_added := vp_added t + 1\<rparr>)))"

definition vp_delete :: "nat \<Rightarrow> bool \<Rightarrow> VeripbTracer \<Rightarrow> VeripbTracer result" where
  "vp_delete i redundant t =
     (if pfile_closed (vp_file t) then Ok t
      else rbind (veripb_delete_clause i redundant t) (\<lambda>t. Ok (t\<lparr>vp_deleted := vp_deleted t + 1\<rparr>)))"

definition vp_report :: "int \<Rightarrow> nat \<Rightarrow> VeripbTracer \<Rightarrow> VeripbTracer result" where
  "vp_report st conflict t =
     (if pfile_closed (vp_file t) then Ok t else with_file (veripb_report_status (st = 20) conflict) t)"

definition vp_weaken :: "nat \<Rightarrow> VeripbTracer \<Rightarrow> VeripbTracer result" where
  "vp_weaken i t =
     (if \<not> checked_deletions t then Ok t
      else if pfile_closed (vp_file t) then Ok t
      else rbind (insert_clause i () (vp_clauses t)) (\<lambda>tab. Ok (t\<lparr>vp_last_id := i, vp_clauses := tab\<rparr>)))"

definition vp_strengthen :: "nat \<Rightarrow> VeripbTracer \<Rightarrow> VeripbTracer result" where
  "vp_strengthen i t =
     (if pfile_closed (vp_file t) then Ok t
      else if \<not> checked_deletions t then Ok t
      else with_file (put_core i) t)"

definition vp_close :: "VeripbTracer \<Rightarrow> VeripbTracer" where
  "vp_close t = t\<lparr>vp_file := pfile_close (vp_file t)\<rparr>"

datatype vp_event =
    VBegin nat
  | VDerived nat bool "int list" "nat list"
  | VDelete nat bool
  | VReport int nat
  | VWeaken nat
  | VStrengthen nat

fun vp_step :: "vp_event \<Rightarrow> VeripbTracer \<Rightarrow> VeripbTracer result" where
  "vp_step (VBegin i) = vp_begin i"
| "vp_step (VDerived i r c ch) = vp_add_derived i r c ch"
| "vp_step (VDelete i r) = vp_delete i r"
| "vp_step (VReport st i) = vp_report st i"
| "vp_step (VWeaken i) = vp_weaken i"
| "vp_step (VStrengthen i) = vp_strengthen i"

section \<open>The reference\<close>

text \<open>The file as a function of the events, with the weakened clauses as a multiset.\<close>

definition vp_lit_text :: "int \<Rightarrow> string" where
  "vp_lit_text l = ''1 '' @ (if l < 0 then ''~x'' else ''x'') @ show_nat (nat \<bar>l\<bar>) @ '' ''"

definition vp_clause_text :: "int list \<Rightarrow> string" where
  "vp_clause_text c = concat (map vp_lit_text c) @ ''>= 1 ;\<newline>''"

definition vp_core_text :: "bool \<Rightarrow> nat \<Rightarrow> string" where
  "vp_core_text b i = (if b then ''core id '' @ show_nat i @ ''\<newline>'' else '''')"

fun vp_chain_text :: "nat list \<Rightarrow> string" where
  "vp_chain_text [] = ''''"
| "vp_chain_text (i # ids) = show_nat i @ concat (map (\<lambda>j. '' '' @ show_nat j @ '' + s'') ids)"

fun vp_event_text :: "bool \<Rightarrow> bool \<Rightarrow> nat multiset \<Rightarrow> vp_event \<Rightarrow> string" where
  "vp_event_text a b W (VBegin i) = ''pseudo-Boolean proof version 2.0\<newline>f '' @ show_nat i @ ''\<newline>''"
| "vp_event_text a b W (VDerived i r c ch) =
     (if a then ''pol '' @ vp_chain_text (rev ch) @ ''\<newline>e '' @ show_nat i @ '' : '' else ''rup '') @
     vp_clause_text c @ vp_core_text (\<not> r \<and> b) i"
| "vp_event_text a b W (VDelete i r) =
     (if \<not> r \<and> b \<and> i \<in># W then ''''
      else (if r \<or> \<not> b then ''del id '' else ''delc '') @ show_nat i @ ''\<newline>'')"
| "vp_event_text a b W (VReport st i) =
     ''output NONE\<newline>'' @ (if st = 20 then ''conclusion UNSAT : '' @ show_nat i @ '' \<newline>'' else ''conclusion NONE\<newline>'') @
     ''end pseudo-Boolean proof\<newline>''"
| "vp_event_text a b W (VWeaken i) = ''''"
| "vp_event_text a b W (VStrengthen i) = vp_core_text b i"

fun vp_weakened :: "bool \<Rightarrow> vp_event \<Rightarrow> nat multiset \<Rightarrow> nat multiset" where
  "vp_weakened b (VWeaken i) W = (if b then add_mset i W else W)"
| "vp_weakened b (VDelete i r) W = (if \<not> r \<and> b then W - {#i#} else W)"
| "vp_weakened b _ W = W"

fun vp_text :: "bool \<Rightarrow> bool \<Rightarrow> nat multiset \<Rightarrow> vp_event list \<Rightarrow> string" where
  "vp_text a b W [] = ''''"
| "vp_text a b W (e # es) = vp_event_text a b W e @ vp_text a b (vp_weakened b e W) es"

fun vp_event_ok :: "vp_event \<Rightarrow> bool" where
  "vp_event_ok (VBegin i) \<longleftrightarrow> i < 2 ^ 64"
| "vp_event_ok (VDerived i r c ch) \<longleftrightarrow> i < 2 ^ 64 \<and> list_all proof_lit c \<and> list_all (\<lambda>i. i < 2 ^ 64) ch"
| "vp_event_ok (VDelete i r) \<longleftrightarrow> i < 2 ^ 64"
| "vp_event_ok (VReport st i) \<longleftrightarrow> i < 2 ^ 64"
| "vp_event_ok (VWeaken i) \<longleftrightarrow> i < 2 ^ 64"
| "vp_event_ok (VStrengthen i) \<longleftrightarrow> i < 2 ^ 64"

lemma veripb_lit_ok: "proof_lit l \<Longrightarrow> veripb_lit l = Ok (vp_lit_text l)"
  using put_int_ok [of "\<bar>l\<bar>"]
  by (auto simp: veripb_lit_def vp_lit_text_def proof_lit_def INT_MIN_def INT_MAX_def show_int_def)

lemma veripb_lits_ok:
  "list_all proof_lit c \<Longrightarrow>
   rfold (\<lambda>l. put_text (veripb_lit l)) c f = Ok (put_str (concat (map vp_lit_text c)) f)"
  by (rule put_all) (simp add: list_all_iff veripb_lit_ok)

lemma put_id_ok: "i < 2 ^ 64 \<Longrightarrow> put_text (put_uint64 i) f = Ok (put_str (show_nat i) f)"
  by (simp add: put_text_def put_uint64_ok)

lemma put_core_ok: "i < 2 ^ 64 \<Longrightarrow> put_core i f = Ok (put_str (vp_core_text True i) f)"
  by (simp add: put_core_def put_id_ok vp_core_text_def put_str_append)

lemma put_chain_rest:
  "list_all (\<lambda>i. i < 2 ^ 64) ids \<Longrightarrow>
   put_chain False ids f = Ok (put_str (concat (map (\<lambda>j. '' '' @ show_nat j @ '' + s'') ids)) f)"
  by (induction ids arbitrary: f) (simp_all add: put_id_ok put_str_append)

lemma put_chain_ok:
  "list_all (\<lambda>i. i < 2 ^ 64) ids \<Longrightarrow> put_chain True ids f = Ok (put_str (vp_chain_text ids) f)"
  by (cases ids) (simp_all add: put_id_ok put_chain_rest put_str_append)

lemma derived_ok:
  assumes "vp_event_ok (VDerived i r c ch)"
  shows "veripb_add_chain b i r c ch f = Ok (put_str (vp_event_text True b W (VDerived i r c ch)) f)"
    and "veripb_add_rup b i r c f = Ok (put_str (vp_event_text False b W (VDerived i r c ch)) f)"
proof -
  have ch: "list_all (\<lambda>i. i < 2 ^ 64) (rev ch)" using assms by (simp add: list_all_iff)
  show "veripb_add_chain b i r c ch f = Ok (put_str (vp_event_text True b W (VDerived i r c ch)) f)"
    using assms by (simp add: veripb_add_chain_def put_chain_ok [OF ch] put_id_ok veripb_lits_ok put_core_ok
        vp_clause_text_def vp_core_text_def put_str_append Let_def)
  show "veripb_add_rup b i r c f = Ok (put_str (vp_event_text False b W (VDerived i r c ch)) f)"
    using assms by (simp add: veripb_add_rup_def veripb_lits_ok put_core_ok
        vp_clause_text_def vp_core_text_def put_str_append Let_def)
qed

text \<open>The table holds the weakened identifiers.\<close>

definition vp_ids :: "unit htable \<Rightarrow> nat multiset" where
  "vp_ids tab = image_mset e_id (ht_bag tab)"

lemma find_and_delete_ok:
  assumes "ht_ok tab"
  shows "\<exists>tab'. find_and_delete i tab = Ok (i \<in># vp_ids tab, tab') \<and> ht_ok tab' \<and>
    vp_ids tab' = vp_ids tab - {#i#}"
proof (cases "num_clauses tab = 0")
  case True
  then have "ht_bag tab = {#}" using assms by (simp add: ht_ok_def ht_bag_def)
  then show ?thesis using True assms by (simp add: find_and_delete_def vp_ids_def)
next
  case False
  then have ne: "ht_bag tab \<noteq> {#}" using assms by (auto simp: ht_ok_def ht_bag_def)
  obtain h where p: "find i tab = Ok (h, find_pos (compute_hash i) i (slots tab ! h))" "h < length (slots tab)"
    using find_ok [OF assms ne] by blast
  define p where "p = (h, find_pos (compute_hash i) i (slots tab ! h))"
  have look: "lookup i tab = Ok (deref tab p)" using p by (simp add: lookup_def p_def)
  show ?thesis
  proof (cases "deref tab p")
    case None
    then have "i \<notin># vp_ids tab" using lookup_ok [OF assms ne, of i] look by (auto simp: vp_ids_def)
    then show ?thesis using p(1) None False assms
      by (simp add: find_and_delete_def p_def [symmetric] diff_single_trivial)
  next
    case (Some e)
    then have e: "e \<in># ht_bag tab" "e_id e = i" using lookup_ok [OF assms ne, of i] look by auto
    have "ht_ok (unlink p tab)" "ht_bag (unlink p tab) = ht_bag tab - {#e#}"
      using unlink_ok [OF assms, of p e] p(2) Some by (simp_all add: p_def)
    moreover have "vp_ids (unlink p tab) = vp_ids tab - {#i#}"
      using calculation e by (simp add: vp_ids_def image_mset_Diff)
    moreover have "i \<in># vp_ids tab" using e by (auto simp: vp_ids_def)
    ultimately show ?thesis using p(1) Some False by (simp add: find_and_delete_def p_def [symmetric])
  qed
qed

definition vp_abs :: "VeripbTracer \<Rightarrow> string \<times> nat multiset" where
  "vp_abs t = (f_text (vp_file t), vp_ids (vp_clauses t))"

definition vp_ok :: "bool \<Rightarrow> bool \<Rightarrow> VeripbTracer \<Rightarrow> bool" where
  "vp_ok a b t \<longleftrightarrow> vp_antecedents t = a \<and> checked_deletions t = b \<and> f_opened (vp_file t) \<and> ht_ok (vp_clauses t)"

lemma vp_step_ok:
  assumes "vp_ok a b t" "vp_event_ok e"
  shows "\<exists>u. vp_step e t = Ok u \<and> vp_ok a b u \<and>
    vp_abs u = (f_text (vp_file t) @ vp_event_text a b (vp_ids (vp_clauses t)) e,
      vp_weakened b e (vp_ids (vp_clauses t)))"
proof -
  have t: "\<not> pfile_closed (vp_file t)" "vp_antecedents t = a" "checked_deletions t = b" "ht_ok (vp_clauses t)"
    "f_opened (vp_file t)" using assms(1) by (simp_all add: vp_ok_def pfile_closed_def)
  show ?thesis
  proof (cases e)
    case (VBegin i)
    then show ?thesis using assms t
      by (simp add: vp_begin_def with_file_def veripb_begin_proof_def put_id_ok vp_ok_def vp_abs_def put_str_eq)
  next
    case (VDerived i r c ch)
    then show ?thesis using assms t derived_ok [of i r c ch b "vp_file t"]
      by (cases a) (simp_all add: vp_add_derived_def with_file_def vp_ok_def vp_abs_def put_str_eq)
  next
    case (VDelete i r)
    show ?thesis
    proof (cases "\<not> r \<and> b")
      case True
      obtain tab where tab: "find_and_delete i (vp_clauses t) = Ok (i \<in># vp_ids (vp_clauses t), tab)" "ht_ok tab"
        "vp_ids tab = vp_ids (vp_clauses t) - {#i#}" using find_and_delete_ok [OF t(4)] by blast
      then show ?thesis using assms t VDelete True
        by (simp add: vp_delete_def veripb_delete_clause_def put_id_ok vp_ok_def vp_abs_def Let_def put_str_eq)
    next
      case False
      then show ?thesis using assms t VDelete
        by (auto simp: vp_delete_def veripb_delete_clause_def put_id_ok vp_ok_def vp_abs_def Let_def put_str_eq)
    qed
  next
    case (VReport st i)
    then show ?thesis using assms t
      by (simp add: vp_report_def with_file_def veripb_report_status_def put_id_ok vp_ok_def vp_abs_def Let_def put_str_eq)
  next
    case (VWeaken i)
    show ?thesis
    proof (cases b)
      case True
      obtain tab where "insert_clause i () (vp_clauses t) = Ok tab" "ht_ok tab"
        "ht_bag tab = add_mset (make_entry i ()) (ht_bag (vp_clauses t))"
        using ht.add_bag [OF t(4)] by blast
      then show ?thesis using VWeaken t True
        by (simp add: vp_weaken_def vp_ok_def vp_abs_def vp_ids_def ht.key_make)
    next
      case False
      then show ?thesis using VWeaken t by (simp add: vp_weaken_def vp_ok_def vp_abs_def)
    qed
  next
    case (VStrengthen i)
    then show ?thesis using assms t
      by (cases b) (simp_all add: vp_strengthen_def with_file_def put_core_ok vp_ok_def vp_abs_def vp_core_text_def put_str_eq)
  qed
qed

lemma vp_run_ok:
  assumes "vp_ok a b t" "list_all vp_event_ok es"
  shows "\<exists>u. rfold vp_step es t = Ok u \<and>
    vp_abs u = (f_text (vp_file t) @ vp_text a b (vp_ids (vp_clauses t)) es,
      fold (vp_weakened b) es (vp_ids (vp_clauses t)))"
  using assms
proof (induction es arbitrary: t)
  case (Cons e es)
  then obtain u where u: "vp_step e t = Ok u" "vp_ok a b u"
    "vp_abs u = (f_text (vp_file t) @ vp_event_text a b (vp_ids (vp_clauses t)) e,
      vp_weakened b e (vp_ids (vp_clauses t)))" using vp_step_ok [of a b t e] by auto
  then show ?case using Cons.IH [OF u(2)] Cons.prems(2) by (auto simp: vp_abs_def)
qed (simp add: vp_abs_def)

text \<open>
  The VeriPB tracer refines its description with a multiset: for all events with 31 bit literals
  and 64 bit identifiers it terminates without an error, writes exactly the described lines, and its
  hash table holds exactly the weakened clauses that are not deleted yet, so a checked deletion is
  left out iff the clause was weakened before.
\<close>

theorem veripb_refines:
  assumes "list_all vp_event_ok es"
  shows "\<exists>t. rfold vp_step es (new_VeripbTracer a b) = Ok t \<and>
    f_text (vp_file t) = vp_text a b {#} es \<and> vp_ids (vp_clauses t) = fold (vp_weakened b) es {#}"
proof -
  have "vp_ok a b (new_VeripbTracer a b)" "vp_ids (vp_clauses (new_VeripbTracer a b)) = {#}"
    "f_text (vp_file (new_VeripbTracer a b)) = ''''"
    by (simp_all add: vp_ok_def new_VeripbTracer_def ht.empty_bag vp_ids_def)
  then show ?thesis using vp_run_ok [OF _ assms, of a b "new_VeripbTracer a b"] by (auto simp: vp_abs_def)
qed

theorem veripb_refines_witness:
  "\<exists>t. rfold vp_step [VBegin 3, VDerived 4 False [1, - 2] [1, 2], VWeaken 1, VDelete 1 False, VDelete 2 False, VReport 20 4]
      (new_VeripbTracer True True) = Ok t \<and>
    f_text (vp_file t) = vp_text True True {#}
      [VBegin 3, VDerived 4 False [1, - 2] [1, 2], VWeaken 1, VDelete 1 False, VDelete 2 False, VReport 20 4] \<and>
    vp_ids (vp_clauses t) = fold (vp_weakened True)
      [VBegin 3, VDerived 4 False [1, - 2] [1, 2], VWeaken 1, VDelete 1 False, VDelete 2 False, VReport 20 4] {#}"
  by (rule veripb_refines) (simp_all add: proof_lit_def INT_MAX_def)

end
