(* ===== verification/Idrup_Tracer.thy ===== *)
theory Idrup_Tracer
  imports Proof_Tracers Hash_Table
begin

text \<open>
  The tracer that writes proofs of incremental solving (\<open>idruptracer.cpp\<close>, \<open>idruptracer.hpp\<close>): next to
  additions and deletions it records queries, models, conclusions and restored clauses. A hash table holds the weakened
  clauses, whose deletion is written as a weakening and whose early restoring is not written, and the assumption
  clauses, whose negation is the failed core of a conclusion. Flushing a pipe has no effect on what is written and
  is left out. The reference describes the lines with a finite map instead of the table.
\<close>

section \<open>State\<close>

record IdrupTracer =
  idr_file :: pfile
  idr_binary :: bool
  idr_clauses :: "int list htable"
  idr_imported :: "int list"
  idr_assumptions :: "int list"
  idr_last_id :: nat
  idr_added :: nat
  idr_deleted :: nat

definition new_IdrupTracer :: "bool \<Rightarrow> IdrupTracer" where
  "new_IdrupTracer b = \<lparr>idr_file = \<lparr>f_opened = True, f_text = '''', f_bytes = 0\<rparr>, idr_binary = b,
     idr_clauses = empty_htable, idr_imported = [], idr_assumptions = [], idr_last_id = 0, idr_added = 0, idr_deleted = 0\<rparr>"

text \<open>The literals of the clause that is found are appended to \<open>imported_clause\<close>.\<close>

definition idr_find_and_delete :: "nat \<Rightarrow> IdrupTracer \<Rightarrow> (bool \<times> IdrupTracer) result" where
  "idr_find_and_delete i t =
     (if num_clauses (idr_clauses t) = 0 then Ok (False, t)
      else rbind (Hash_Table.find i (idr_clauses t)) (\<lambda>p.
             case deref (idr_clauses t) p of
               None \<Rightarrow> Ok (False, t)
             | Some e \<Rightarrow> Ok (True, t\<lparr>idr_clauses := unlink p (idr_clauses t), idr_imported := idr_imported t @ e_data e\<rparr>)))"

definition idr_insert :: "IdrupTracer \<Rightarrow> IdrupTracer result" where
  "idr_insert t =
     rbind (insert_clause (idr_last_id t) (idr_imported t) (idr_clauses t)) (\<lambda>tab. Ok (t\<lparr>idr_clauses := tab\<rparr>))"

section \<open>Lines\<close>

definition idr_tag :: "bool \<Rightarrow> char \<Rightarrow> pfile \<Rightarrow> pfile" where
  "idr_tag b tag f = (if b then put_char tag f else put_str [tag, CHR '' ''] f)"

definition idr_lits :: "bool \<Rightarrow> int list \<Rightarrow> pfile \<Rightarrow> pfile result" where
  "idr_lits b c f = rbind (rfold (\<lambda>l. put_text (frat_lit b l)) c f) (\<lambda>f. Ok (put_str (drat_end b) f))"

definition idr_put :: "(pfile \<Rightarrow> pfile result) \<Rightarrow> IdrupTracer \<Rightarrow> IdrupTracer result" where
  "idr_put w t = rbind (w (idr_file t)) (\<lambda>f. Ok (t\<lparr>idr_file := f\<rparr>))"

definition idrup_add_restored_clause :: "int list \<Rightarrow> IdrupTracer \<Rightarrow> IdrupTracer result" where
  "idrup_add_restored_clause c t = idr_put (\<lambda>f. idr_lits (idr_binary t) c (idr_tag (idr_binary t) (CHR ''r'') f)) t"

definition idrup_add_derived_clause :: "int list \<Rightarrow> IdrupTracer \<Rightarrow> IdrupTracer result" where
  "idrup_add_derived_clause c t = idr_put (\<lambda>f. idr_lits (idr_binary t) c (idr_tag (idr_binary t) (CHR ''l'') f)) t"

definition idrup_add_original_clause :: "int list \<Rightarrow> IdrupTracer \<Rightarrow> IdrupTracer result" where
  "idrup_add_original_clause c t = idr_put (\<lambda>f. idr_lits (idr_binary t) c (idr_tag (idr_binary t) (CHR ''i'') f)) t"

definition idrup_delete_clause :: "nat \<Rightarrow> int list \<Rightarrow> IdrupTracer \<Rightarrow> IdrupTracer result" where
  "idrup_delete_clause i c t =
     rbind (idr_find_and_delete i t) (\<lambda>(found, t).
       idr_put (\<lambda>f. idr_lits (idr_binary t) c (idr_tag (idr_binary t) (if found then CHR ''w'' else CHR ''d'') f)) t)"

definition negate_lit :: "int \<Rightarrow> int result" where
  "negate_lit l = (if l = INT_MIN then Fault SignedOverflow else Ok (- l))"

definition idr_conclude_id :: "nat \<Rightarrow> IdrupTracer \<Rightarrow> IdrupTracer result" where
  "idr_conclude_id i t =
     rbind (idr_put (\<lambda>f. Ok (idr_tag (idr_binary t) (CHR ''u'') f)) t) (\<lambda>t.
     rbind (idr_find_and_delete i t) (\<lambda>(found, t).
     rbind (idr_put (rfold (\<lambda>l. put_text (rbind (negate_lit l) (frat_lit (idr_binary t)))) (idr_imported t)) t) (\<lambda>t.
     rbind (idr_put (\<lambda>f. Ok (put_str (drat_end (idr_binary t)) f)) t) (\<lambda>t. Ok (t\<lparr>idr_imported := []\<rparr>)))))"

definition idrup_conclude_and_delete :: "nat list \<Rightarrow> IdrupTracer \<Rightarrow> IdrupTracer result" where
  "idrup_conclude_and_delete conclusion t =
     (let n = length conclusion in
      rbind (if n > 1
             then idr_put (\<lambda>f. if idr_binary t then Ok (put_str (frat_binary_id n) (put_char (CHR ''U'') f))
                    else rbind (put_text (put_uint64 n) (put_str ''U '' f)) (\<lambda>f. Ok (put_str ''\<newline>'' f))) t
             else Ok t) (rfold idr_conclude_id conclusion))"

definition status_name :: "int \<Rightarrow> string" where
  "status_name st = (if st = 10 then ''SATISFIABLE'' else if st = 20 then ''UNSATISFIABLE'' else ''UNKNOWN'')"

definition idrup_report_status :: "int \<Rightarrow> IdrupTracer \<Rightarrow> IdrupTracer result" where
  "idrup_report_status st t =
     idr_put (\<lambda>f. Ok (put_str (status_name st @ (if idr_binary t then '''' else ''\<newline>'')) (idr_tag (idr_binary t) (CHR ''s'') f))) t"

definition idrup_conclude_sat :: "int list \<Rightarrow> IdrupTracer \<Rightarrow> IdrupTracer result" where
  "idrup_conclude_sat model t = idr_put (\<lambda>f. idr_lits (idr_binary t) model (idr_tag (idr_binary t) (CHR ''m'') f)) t"

definition idrup_solve_query :: "IdrupTracer \<Rightarrow> IdrupTracer result" where
  "idrup_solve_query t = idr_put (\<lambda>f. idr_lits (idr_binary t) (idr_assumptions t) (idr_tag (idr_binary t) (CHR ''q'') f)) t"

section \<open>Calls\<close>

definition idr_open :: "(IdrupTracer \<Rightarrow> IdrupTracer result) \<Rightarrow> IdrupTracer \<Rightarrow> IdrupTracer result" where
  "idr_open w t = (if pfile_closed (idr_file t) then Ok t else w t)"

definition idr_add_derived :: "int list \<Rightarrow> IdrupTracer \<Rightarrow> IdrupTracer result" where
  "idr_add_derived c = idr_open (\<lambda>t.
     rbind (idrup_add_derived_clause c t) (\<lambda>t. Ok (t\<lparr>idr_added := idr_added t + 1\<rparr>)))"

definition idr_add_assumption_clause :: "nat \<Rightarrow> int list \<Rightarrow> IdrupTracer \<Rightarrow> IdrupTracer result" where
  "idr_add_assumption_clause i c = idr_open (\<lambda>t.
     rbind (idr_insert (t\<lparr>idr_imported := idr_imported t @ c, idr_last_id := i\<rparr>)) (\<lambda>t. Ok (t\<lparr>idr_imported := []\<rparr>)))"

definition idr_delete :: "nat \<Rightarrow> int list \<Rightarrow> IdrupTracer \<Rightarrow> IdrupTracer result" where
  "idr_delete i c = idr_open (\<lambda>t.
     rbind (idrup_delete_clause i c t) (\<lambda>t. Ok (t\<lparr>idr_deleted := idr_deleted t + 1\<rparr>)))"

definition idr_weaken_minus :: "nat \<Rightarrow> IdrupTracer \<Rightarrow> IdrupTracer result" where
  "idr_weaken_minus i = idr_open (\<lambda>t. idr_insert (t\<lparr>idr_last_id := i\<rparr>))"

definition idr_conclude_unsat :: "nat list \<Rightarrow> IdrupTracer \<Rightarrow> IdrupTracer result" where
  "idr_conclude_unsat conclusion = idr_open (idrup_conclude_and_delete conclusion)"

definition idr_add_original :: "nat \<Rightarrow> int list \<Rightarrow> bool \<Rightarrow> IdrupTracer \<Rightarrow> IdrupTracer result" where
  "idr_add_original i c restored = idr_open (\<lambda>t.
     if \<not> restored then idrup_add_original_clause c t
     else rbind (idr_find_and_delete i t) (\<lambda>(found, t). if found then Ok t else idrup_add_restored_clause c t))"

definition idr_report_status :: "int \<Rightarrow> IdrupTracer \<Rightarrow> IdrupTracer result" where
  "idr_report_status st = idr_open (idrup_report_status st)"

definition idr_conclude_sat :: "int list \<Rightarrow> IdrupTracer \<Rightarrow> IdrupTracer result" where
  "idr_conclude_sat model = idr_open (idrup_conclude_sat model)"

definition idr_solve_query :: "IdrupTracer \<Rightarrow> IdrupTracer result" where
  "idr_solve_query = idr_open idrup_solve_query"

definition idr_add_assumption :: "int \<Rightarrow> IdrupTracer \<Rightarrow> IdrupTracer" where
  "idr_add_assumption l t = t\<lparr>idr_assumptions := idr_assumptions t @ [l]\<rparr>"

definition idr_reset_assumptions :: "IdrupTracer \<Rightarrow> IdrupTracer" where
  "idr_reset_assumptions t = t\<lparr>idr_assumptions := []\<rparr>"

definition idr_close :: "IdrupTracer \<Rightarrow> IdrupTracer" where
  "idr_close t = t\<lparr>idr_file := pfile_close (idr_file t)\<rparr>"

datatype idr_event =
    IOriginal nat "int list" bool
  | IDerived "int list"
  | IDelete nat "int list"
  | IWeaken nat
  | IAssumptionClause nat "int list"
  | IConcludeUnsat "nat list"
  | IConcludeSat "int list"
  | IStatus int
  | IQuery
  | IAssume int
  | IReset

fun idr_step :: "idr_event \<Rightarrow> IdrupTracer \<Rightarrow> IdrupTracer result" where
  "idr_step (IOriginal i c r) t = idr_add_original i c r t"
| "idr_step (IDerived c) t = idr_add_derived c t"
| "idr_step (IDelete i c) t = idr_delete i c t"
| "idr_step (IWeaken i) t = idr_weaken_minus i t"
| "idr_step (IAssumptionClause i c) t = idr_add_assumption_clause i c t"
| "idr_step (IConcludeUnsat ids) t = idr_conclude_unsat ids t"
| "idr_step (IConcludeSat model) t = idr_conclude_sat model t"
| "idr_step (IStatus st) t = idr_report_status st t"
| "idr_step IQuery t = idr_solve_query t"
| "idr_step (IAssume l) t = Ok (idr_add_assumption l t)"
| "idr_step IReset t = Ok (idr_reset_assumptions t)"


section \<open>The reference\<close>

text \<open>
  The lines of a proof, and the lines of each call as a function of the weakened and assumption clauses \<open>M\<close>, the
  literals \<open>imp\<close> left in \<open>imported_clause\<close>, and the assumptions.
\<close>

datatype idr_line = LClause char "int list" | LCores nat | LStatus string

fun idr_line_text :: "bool \<Rightarrow> idr_line \<Rightarrow> string" where
  "idr_line_text b (LClause tag c) = [tag] @ (if b then '''' else '' '') @ clause_text b c"
| "idr_line_text b (LCores n) = (if b then ''U'' @ leb n else ''U '' @ show_nat n @ ''\<newline>'')"
| "idr_line_text b (LStatus s) = (if b then ''s'' @ s else ''s '' @ s @ ''\<newline>'')"

type_synonym idr_view = "(nat \<rightharpoonup> int list) \<times> int list \<times> int list"

fun idr_cores :: "nat list \<Rightarrow> (nat \<rightharpoonup> int list) \<Rightarrow> int list \<Rightarrow> idr_line list" where
  "idr_cores [] M imp = []"
| "idr_cores (i # ids) M imp =
     LClause (CHR ''u'') (map uminus (imp @ (case M i of None \<Rightarrow> [] | Some c \<Rightarrow> c))) # idr_cores ids (M(i := None)) []"

fun idr_lines :: "idr_event \<Rightarrow> idr_view \<Rightarrow> idr_line list" where
  "idr_lines (IOriginal i c r) (M, imp, as) =
     (if \<not> r then [LClause (CHR ''i'') c] else if M i \<noteq> None then [] else [LClause (CHR ''r'') c])"
| "idr_lines (IDerived c) (M, imp, as) = [LClause (CHR ''l'') c]"
| "idr_lines (IDelete i c) (M, imp, as) = [LClause (if M i \<noteq> None then CHR ''w'' else CHR ''d'') c]"
| "idr_lines (IConcludeUnsat ids) (M, imp, as) =
     (if length ids > 1 then [LCores (length ids)] else []) @ idr_cores ids M imp"
| "idr_lines (IConcludeSat model) (M, imp, as) = [LClause (CHR ''m'') model]"
| "idr_lines (IStatus st) (M, imp, as) = [LStatus (status_name st)]"
| "idr_lines IQuery (M, imp, as) = [LClause (CHR ''q'') as]"
| "idr_lines _ (M, imp, as) = []"

definition idr_taken :: "nat \<Rightarrow> (nat \<rightharpoonup> int list) \<Rightarrow> int list \<Rightarrow> int list" where
  "idr_taken i M imp = imp @ (case M i of None \<Rightarrow> [] | Some c \<Rightarrow> c)"

fun idr_after :: "idr_event \<Rightarrow> idr_view \<Rightarrow> idr_view" where
  "idr_after (IOriginal i c r) (M, imp, as) = (if r then (M(i := None), idr_taken i M imp, as) else (M, imp, as))"
| "idr_after (IDelete i c) (M, imp, as) = (M(i := None), idr_taken i M imp, as)"
| "idr_after (IWeaken i) (M, imp, as) = (M(i \<mapsto> imp), imp, as)"
| "idr_after (IAssumptionClause i c) (M, imp, as) = (M(i \<mapsto> imp @ c), [], as)"
| "idr_after (IConcludeUnsat ids) (M, imp, as) = (M |` (- set ids), if ids = [] then imp else [], as)"
| "idr_after (IAssume l) (M, imp, as) = (M, imp, as @ [l])"
| "idr_after IReset (M, imp, as) = (M, imp, [])"
| "idr_after _ (M, imp, as) = (M, imp, as)"

text \<open>A call with literals of 31 bits (30 in the binary format) and, for an insertion, an identifier that is not in use.\<close>

definition idr_lits_ok :: "bool \<Rightarrow> int list \<Rightarrow> bool" where
  "idr_lits_ok b c \<longleftrightarrow> list_all (\<lambda>l. proof_lit l \<and> (b \<longrightarrow> \<bar>l\<bar> < 2 ^ 30)) c"

fun idr_event_ok :: "bool \<Rightarrow> idr_event \<Rightarrow> idr_view \<Rightarrow> bool" where
  "idr_event_ok b (IOriginal i c r) v \<longleftrightarrow> idr_lits_ok b c"
| "idr_event_ok b (IDerived c) v \<longleftrightarrow> idr_lits_ok b c"
| "idr_event_ok b (IDelete i c) v \<longleftrightarrow> idr_lits_ok b c"
| "idr_event_ok b (IWeaken i) v \<longleftrightarrow> fst v i = None"
| "idr_event_ok b (IAssumptionClause i c) v \<longleftrightarrow> idr_lits_ok b c \<and> fst v i = None"
| "idr_event_ok b (IConcludeUnsat ids) v \<longleftrightarrow> length ids < 2 ^ 64"
| "idr_event_ok b (IConcludeSat model) v \<longleftrightarrow> idr_lits_ok b model"
| "idr_event_ok b (IAssume l) v \<longleftrightarrow> idr_lits_ok b [l]"
| "idr_event_ok b _ v \<longleftrightarrow> True"

fun idr_all_lines :: "idr_event list \<Rightarrow> idr_view \<Rightarrow> idr_line list" where
  "idr_all_lines [] v = []"
| "idr_all_lines (e # es) v = idr_lines e v @ idr_all_lines es (idr_after e v)"

fun idr_events_ok :: "bool \<Rightarrow> idr_event list \<Rightarrow> idr_view \<Rightarrow> bool" where
  "idr_events_ok b [] v \<longleftrightarrow> True"
| "idr_events_ok b (e # es) v \<longleftrightarrow> idr_event_ok b e v \<and> idr_events_ok b es (idr_after e v)"

section \<open>The table as a map\<close>

definition holds_map :: "'a htable \<Rightarrow> (nat \<rightharpoonup> 'a) \<Rightarrow> bool" where
  "holds_map tab M \<longleftrightarrow> ht_ok tab \<and>
     (\<forall>i. {#e \<in># ht_bag tab. e_id e = i#} = (case M i of None \<Rightarrow> {#} | Some c \<Rightarrow> {#make_entry i c#}))"

lemma holds_map_empty: "holds_map empty_htable Map.empty"
  by (simp add: holds_map_def ht.empty_bag)

lemma holds_map_insert:
  assumes "holds_map tab M" "M i = None"
  shows "\<exists>u. insert_clause i c tab = Ok u \<and> holds_map u (M(i \<mapsto> c))"
proof -
  have "ht_ok tab" using assms(1) by (simp add: holds_map_def)
  from ht.add_bag [OF this] obtain u
    where u: "insert_clause i c tab = Ok u" "ht_ok u" "ht_bag u = add_mset (make_entry i c) (ht_bag tab)" by blast
  have "{#e \<in># ht_bag u. e_id e = j#} = (case (M(i \<mapsto> c)) j of None \<Rightarrow> {#} | Some d \<Rightarrow> {#make_entry j d#})" for j
  proof (cases "j = i")
    case True
    have "{#e \<in># ht_bag tab. e_id e = i#} = {#}" using assms by (simp add: holds_map_def)
    then show ?thesis using True unfolding u(3) by (simp add: ht.key_make)
  next
    case False
    then have "{#e \<in># ht_bag u. e_id e = j#} = {#e \<in># ht_bag tab. e_id e = j#}" unfolding u(3) by (simp add: ht.key_make)
    then show ?thesis using assms(1) False unfolding holds_map_def by simp
  qed
  then show ?thesis using u(1,2) unfolding holds_map_def by blast
qed

lemma holds_map_find:
  assumes "holds_map tab M" "num_clauses tab \<noteq> 0"
  shows "\<exists>p. find i tab = Ok p \<and> (case deref tab p of
      None \<Rightarrow> M i = None | Some e \<Rightarrow> M i = Some (e_data e) \<and> holds_map (unlink p tab) (M(i := None)))"
proof -
  have ok: "ht_ok tab" and bag: "{#e \<in># ht_bag tab. e_id e = j#} = (case M j of None \<Rightarrow> {#} | Some c \<Rightarrow> {#make_entry j c#})" for j
    using assms(1) by (simp_all add: holds_map_def)
  have ne: "ht_bag tab \<noteq> {#}" using ok assms(2) by (auto simp: ht_ok_def ht_bag_def)
  obtain h where p: "find i tab = Ok (h, find_pos (compute_hash i) i (slots tab ! h))" "h < length (slots tab)"
    using find_ok [OF ok ne] by blast
  define p where "p = (h, find_pos (compute_hash i) i (slots tab ! h))"
  have look: "lookup i tab = Ok (deref tab p)" using p(1) by (simp add: lookup_def p_def)
  have "case deref tab p of None \<Rightarrow> M i = None | Some e \<Rightarrow> M i = Some (e_data e) \<and> holds_map (unlink p tab) (M(i := None))"
  proof (cases "deref tab p")
    case None
    then have "\<forall>e \<in># ht_bag tab. e_id e \<noteq> i" using lookup_ok [OF ok ne, of i] look by auto
    then have "{#e \<in># ht_bag tab. e_id e = i#} = {#}" by (auto simp: multiset_eq_iff not_in_iff)
    then show ?thesis using bag [of i] None by (simp split: option.splits)
  next
    case (Some e)
    then have e: "e \<in># ht_bag tab" "e_id e = i" using lookup_ok [OF ok ne, of i] look by auto
    then have "e \<in># {#e \<in># ht_bag tab. e_id e = i#}" by simp
    then obtain c where c: "M i = Some c" "e = make_entry i c" unfolding bag [of i] by (cases "M i") auto
    have u: "ht_ok (unlink p tab)" "ht_bag (unlink p tab) = ht_bag tab - {#e#}"
      using unlink_ok [OF ok, of p e] p(2) Some by (simp_all add: p_def)
    have "{#x \<in># ht_bag (unlink p tab). e_id x = j#} = (case (M(i := None)) j of None \<Rightarrow> {#} | Some c \<Rightarrow> {#make_entry j c#})" for j
      using bag [of j] e(2) c by (cases "j = i") (auto simp: u(2) filter_diff_mset)
    then show ?thesis using Some c u(1) by (simp add: holds_map_def make_entry_def)
  qed
  then show ?thesis using p(1) p_def by blast
qed

lemma holds_map_none:
  assumes "holds_map tab M" "num_clauses tab = 0"
  shows "M i = None"
proof -
  have "ht_bag tab = {#}" using assms by (simp add: holds_map_def ht_ok_def ht_bag_def)
  then have "(case M i of None \<Rightarrow> {#} | Some c \<Rightarrow> {#make_entry i c#}) = {#}" using assms(1) by (simp add: holds_map_def)
  then show ?thesis by (cases "M i") simp_all
qed


section \<open>The tracer writes the lines\<close>

definition idr_rel :: "bool \<Rightarrow> IdrupTracer \<Rightarrow> idr_view \<Rightarrow> bool" where
  "idr_rel b t v \<longleftrightarrow> (case v of (M, imp, as) \<Rightarrow> idr_binary t = b \<and> f_opened (idr_file t) \<and> holds_map (idr_clauses t) M \<and>
     idr_imported t = imp \<and> idr_assumptions t = as \<and> idr_lits_ok b imp \<and> idr_lits_ok b as \<and>
     (\<forall>i c. M i = Some c \<longrightarrow> idr_lits_ok b c))"

lemma idr_lits_ok_simps [simp]:
  "idr_lits_ok b []" "idr_lits_ok b (c @ d) \<longleftrightarrow> idr_lits_ok b c \<and> idr_lits_ok b d"
  "idr_lits_ok b (map uminus c) \<longleftrightarrow> idr_lits_ok b c"
  by (auto simp: idr_lits_ok_def list_all_iff proof_lit_def)

lemma idr_lits_text: "idr_lits_ok b c \<Longrightarrow> idr_lits b c f = Ok (put_str (clause_text b c) f)"
proof -
  assume "idr_lits_ok b c"
  then have "rfold (\<lambda>l. put_text (frat_lit b l)) c f = Ok (put_str (concat (map (lit_text b) c)) f)"
    by (intro put_all) (auto simp: idr_lits_ok_def list_all_iff intro: frat_lit_ok)
  then show ?thesis by (simp add: idr_lits_def clause_text_def put_str_append)
qed

lemma idr_tag_text: "idr_tag b tag f = put_str ([tag] @ (if b then '''' else '' '')) f"
  by (simp add: idr_tag_def)

definition idr_written :: "idr_line list \<Rightarrow> IdrupTracer \<Rightarrow> IdrupTracer" where
  "idr_written ls t = t\<lparr>idr_file := put_str (concat (map (idr_line_text (idr_binary t)) ls)) (idr_file t)\<rparr>"

lemma idr_clause_line:
  "idr_lits_ok (idr_binary t) c \<Longrightarrow>
   idr_put (\<lambda>f. idr_lits (idr_binary t) c (idr_tag (idr_binary t) tag f)) t = Ok (idr_written [LClause tag c] t)"
  by (simp add: idr_put_def idr_lits_text idr_tag_text idr_written_def put_str_append)

lemma idr_written_simps [simp]:
  "idr_binary (idr_written ls t) = idr_binary t" "idr_clauses (idr_written ls t) = idr_clauses t"
  "idr_imported (idr_written ls t) = idr_imported t" "idr_assumptions (idr_written ls t) = idr_assumptions t"
  "f_opened (idr_file (idr_written ls t)) = f_opened (idr_file t)"
  "f_text (idr_file (idr_written ls t)) = f_text (idr_file t) @ concat (map (idr_line_text (idr_binary t)) ls)"
  by (simp_all add: idr_written_def put_str_eq)

lemma idr_written_append: "idr_written ls (idr_written ks t) = idr_written (ks @ ls) t"
  by (simp add: idr_written_def put_str_append)

lemma idr_rel_written [simp]: "idr_rel b (idr_written ls t) v = idr_rel b t v"
  by (simp add: idr_rel_def)

lemma idr_find_ok:
  assumes "idr_rel b t (M, imp, as)"
  shows "\<exists>tab. idr_find_and_delete i t = Ok (M i \<noteq> None, t\<lparr>idr_clauses := tab, idr_imported := idr_taken i M imp\<rparr>) \<and>
    idr_rel b (t\<lparr>idr_clauses := tab, idr_imported := idr_taken i M imp\<rparr>) (M(i := None), idr_taken i M imp, as)"
proof -
  have r: "idr_binary t = b" "f_opened (idr_file t)" "holds_map (idr_clauses t) M" "idr_imported t = imp" "idr_assumptions t = as"
    "idr_lits_ok b imp" "idr_lits_ok b as" "\<And>i c. M i = Some c \<Longrightarrow> idr_lits_ok b c"
    using assms unfolding idr_rel_def by auto
  have taken: "idr_lits_ok b (idr_taken i M imp)" using r(6,8) by (auto simp: idr_taken_def split: option.splits)
  have rel: "idr_rel b (t\<lparr>idr_clauses := tab, idr_imported := idr_taken i M imp\<rparr>) (M(i := None), idr_taken i M imp, as)"
    if "holds_map tab (M(i := None))" for tab
    using that r taken by (auto simp: idr_rel_def split: if_splits)
  show ?thesis
  proof (cases "M i")
    case None
    then have m: "M(i := None) = M" "idr_taken i M imp = imp" by (auto simp: idr_taken_def)
    have "idr_find_and_delete i t = Ok (False, t)"
    proof (cases "num_clauses (idr_clauses t) = 0")
      case False
      then show ?thesis using holds_map_find [OF r(3) False, of i] None by (auto simp: idr_find_and_delete_def split: option.splits)
    qed (simp add: idr_find_and_delete_def)
    then show ?thesis using None rel [of "idr_clauses t"] r(3,4) m by (intro exI [of _ "idr_clauses t"]) simp
  next
    case (Some c)
    then have n: "num_clauses (idr_clauses t) \<noteq> 0" using holds_map_none [OF r(3), of i] by auto
    obtain p where p: "find i (idr_clauses t) = Ok p" "case deref (idr_clauses t) p of
      None \<Rightarrow> M i = None | Some e \<Rightarrow> M i = Some (e_data e) \<and> holds_map (unlink p (idr_clauses t)) (M(i := None))"
      using holds_map_find [OF r(3) n] by blast
    then obtain e where "deref (idr_clauses t) p = Some e" "e_data e = c" "holds_map (unlink p (idr_clauses t)) (M(i := None))"
      using Some by (auto split: option.splits)
    then show ?thesis
      using n p(1) Some r(4) rel by (intro exI [of _ "unlink p (idr_clauses t)"]) (simp add: idr_find_and_delete_def idr_taken_def)
  qed
qed

lemma idr_core_lits:
  "idr_lits_ok b c \<Longrightarrow> rfold (\<lambda>l. put_text (rbind (negate_lit l) (frat_lit b))) c f = Ok (put_str (concat (map (lit_text b) (map uminus c))) f)"
proof -
  assume c: "idr_lits_ok b c"
  have "rfold (\<lambda>l. put_text (rbind (negate_lit l) (frat_lit b))) c f = Ok (put_str (concat (map (\<lambda>l. lit_text b (- l)) c)) f)"
  proof (rule put_all)
    fix l assume "l \<in> set c"
    then have "proof_lit (- l)" "b \<longrightarrow> \<bar>- l\<bar> < 2 ^ 30" "l \<noteq> INT_MIN"
      using c by (auto simp: idr_lits_ok_def list_all_iff proof_lit_def INT_MIN_def INT_MAX_def)
    then show "rbind (negate_lit l) (frat_lit b) = Ok (lit_text b (- l))" using frat_lit_ok by (simp add: negate_lit_def)
  qed
  then show ?thesis by (simp add: comp_def)
qed

lemma idr_cores_ok:
  assumes "idr_rel b t (M, imp, as)"
  shows "\<exists>u. rfold idr_conclude_id ids t = Ok u \<and> idr_rel b u (M |` (- set ids), if ids = [] then imp else [], as) \<and>
    f_text (idr_file u) = f_text (idr_file t) @ concat (map (idr_line_text b) (idr_cores ids M imp))"
  using assms
proof (induction ids arbitrary: t M imp)
  case Nil
  then show ?case by (simp add: restrict_map_def)
next
  case (Cons i ids)
  define t1 where "t1 = t\<lparr>idr_file := put_str ([CHR ''u''] @ (if b then '''' else '' '')) (idr_file t)\<rparr>"
  have b: "idr_binary t = b" using Cons.prems by (simp add: idr_rel_def)
  have "idr_rel b t1 (M, imp, as)" using Cons.prems by (simp add: idr_rel_def t1_def put_str_eq)
  then obtain tab where f: "idr_find_and_delete i t1 = Ok (M i \<noteq> None, t1\<lparr>idr_clauses := tab, idr_imported := idr_taken i M imp\<rparr>)"
    "idr_rel b (t1\<lparr>idr_clauses := tab, idr_imported := idr_taken i M imp\<rparr>) (M(i := None), idr_taken i M imp, as)"
    using idr_find_ok by blast
  define t2 where "t2 = t1\<lparr>idr_clauses := tab, idr_imported := idr_taken i M imp\<rparr>"
  have ok: "idr_lits_ok b (idr_taken i M imp)" using f(2) by (simp add: idr_rel_def)
  define t3 where "t3 = t2\<lparr>idr_file := put_str (drat_end b) (put_str (concat (map (lit_text b) (map uminus (idr_taken i M imp)))) (idr_file t2)),
    idr_imported := []\<rparr>"
  have "idr_put (\<lambda>f. Ok (idr_tag (idr_binary t) (CHR ''u'') f)) t = Ok t1"
    using b by (simp add: idr_put_def idr_tag_text t1_def)
  moreover have "idr_binary t2 = b" "idr_imported t2 = idr_taken i M imp" using b by (simp_all add: t1_def t2_def)
  ultimately have "idr_conclude_id i t = Ok t3"
    using f(1) idr_core_lits [OF ok]
    unfolding idr_conclude_id_def t2_def [symmetric] by (simp add: idr_put_def t3_def del: map_map)
  moreover have r3: "idr_rel b t3 (M(i := None), [], as)" using f(2) by (simp add: idr_rel_def t2_def [symmetric] t3_def put_str_eq)
  moreover have "f_text (idr_file t3) = f_text (idr_file t) @ idr_line_text b (LClause (CHR ''u'') (map uminus (idr_taken i M imp)))"
    by (simp add: t3_def t2_def t1_def put_str_eq clause_text_def)
  moreover have "(M(i := None)) |` (- set ids) = M |` (- set (i # ids))" by (auto simp: restrict_map_def)
  moreover obtain u where "rfold idr_conclude_id ids t3 = Ok u" "idr_rel b u (M(i := None) |` (- set ids), [], as)"
    "f_text (idr_file u) = f_text (idr_file t3) @ concat (map (idr_line_text b) (idr_cores ids (M(i := None)) []))"
    using Cons.IH [OF r3] unfolding if_cancel by blast
  ultimately show ?case by (intro exI [of _ u]) (simp add: idr_taken_def del: fun_upd_apply)
qed

lemma idr_step_ok:
  assumes "idr_rel b t v" "idr_event_ok b e v"
  shows "\<exists>u. idr_step e t = Ok u \<and> idr_rel b u (idr_after e v) \<and>
    f_text (idr_file u) = f_text (idr_file t) @ concat (map (idr_line_text b) (idr_lines e v))"
proof -
  obtain M imp as where v: "v = (M, imp, as)" by (cases v) auto
  have rel: "idr_rel b t (M, imp, as)" using assms(1) v by simp
  have r: "idr_binary t = b" "\<not> pfile_closed (idr_file t)" "holds_map (idr_clauses t) M" "idr_imported t = imp"
    "idr_assumptions t = as" "idr_lits_ok b imp" "idr_lits_ok b as" "\<And>i c. M i = Some c \<Longrightarrow> idr_lits_ok b c"
    using rel unfolding idr_rel_def by (auto simp: pfile_closed_def)
  note line = idr_clause_line [of t, unfolded r(1)]
  show ?thesis
  proof (cases e)
    case (IOriginal i c restored)
    obtain tab where f: "idr_find_and_delete i t = Ok (M i \<noteq> None, t\<lparr>idr_clauses := tab, idr_imported := idr_taken i M imp\<rparr>)"
      "idr_rel b (t\<lparr>idr_clauses := tab, idr_imported := idr_taken i M imp\<rparr>) (M(i := None), idr_taken i M imp, as)"
      using idr_find_ok [OF rel] by blast
    define t2 where "t2 = t\<lparr>idr_clauses := tab, idr_imported := idr_taken i M imp\<rparr>"
    have t2: "idr_binary t2 = b" "idr_file t2 = idr_file t" using r(1) by (simp_all add: t2_def)
    have c: "idr_lits_ok b c" using assms(2) IOriginal by simp
    have "idrup_add_restored_clause c t2 = Ok (idr_written [LClause (CHR ''r'') c] t2)"
      using idr_clause_line [of t2 c] c t2(1) by (simp add: idrup_add_restored_clause_def)
    moreover have "idrup_add_original_clause c t = Ok (idr_written [LClause (CHR ''i'') c] t)"
      using line c r(1) by (simp add: idrup_add_original_clause_def)
    ultimately show ?thesis
      using IOriginal v r(1,2) rel f [folded t2_def] t2
      by (cases restored; cases "M i") (simp_all add: idr_add_original_def idr_open_def del: fun_upd_apply)
  next
    case (IDerived c)
    then have "idrup_add_derived_clause c t = Ok (idr_written [LClause (CHR ''l'') c] t)"
      using line assms(2) r(1) by (simp add: idrup_add_derived_clause_def)
    moreover have "idr_rel b (u\<lparr>idr_added := n\<rparr>) w = idr_rel b u w" for u n w by (simp add: idr_rel_def)
    ultimately show ?thesis using IDerived v r(1,2) rel by (simp add: idr_add_derived_def idr_open_def)
  next
    case (IDelete i c)
    obtain tab where f: "idr_find_and_delete i t = Ok (M i \<noteq> None, t\<lparr>idr_clauses := tab, idr_imported := idr_taken i M imp\<rparr>)"
      "idr_rel b (t\<lparr>idr_clauses := tab, idr_imported := idr_taken i M imp\<rparr>) (M(i := None), idr_taken i M imp, as)"
      using idr_find_ok [OF rel] by blast
    define t2 where "t2 = t\<lparr>idr_clauses := tab, idr_imported := idr_taken i M imp\<rparr>"
    have t2: "idr_binary t2 = b" "idr_file t2 = idr_file t" using r(1) by (simp_all add: t2_def)
    have "idrup_delete_clause i c t = Ok (idr_written [LClause (if M i \<noteq> None then CHR ''w'' else CHR ''d'') c] t2)"
      using idr_clause_line [of t2 c] assms(2) IDelete t2(1) f(1) [folded t2_def] by (simp add: idrup_delete_clause_def)
    moreover have "idr_rel b (u\<lparr>idr_deleted := n\<rparr>) w = idr_rel b u w" for u n w by (simp add: idr_rel_def)
    ultimately show ?thesis
      using IDelete v r(1,2) f(2) [folded t2_def] t2 by (simp add: idr_delete_def idr_open_def del: fun_upd_apply)
  next
    case (IWeaken i)
    obtain tab where "insert_clause i imp (idr_clauses t) = Ok tab" "holds_map tab (M(i \<mapsto> imp))"
      using holds_map_insert [OF r(3)] assms(2) IWeaken v by auto
    then show ?thesis
      using IWeaken v r rel by (auto simp: idr_weaken_minus_def idr_open_def idr_insert_def idr_rel_def)
  next
    case (IAssumptionClause i c)
    obtain tab where "insert_clause i (imp @ c) (idr_clauses t) = Ok tab" "holds_map tab (M(i \<mapsto> imp @ c))"
      using holds_map_insert [OF r(3)] assms(2) IAssumptionClause v by auto
    then show ?thesis
      using IAssumptionClause v r rel assms(2) by (auto simp: idr_add_assumption_clause_def idr_open_def idr_insert_def idr_rel_def)
  next
    case (IConcludeUnsat ids)
    define t1 where "t1 = idr_written (if length ids > 1 then [LCores (length ids)] else []) t"
    have "idr_rel b t1 (M, imp, as)" using rel by (simp add: t1_def)
    from idr_cores_ok [OF this] obtain u where u: "rfold idr_conclude_id ids t1 = Ok u"
      "idr_rel b u (M |` (- set ids), if ids = [] then imp else [], as)"
      "f_text (idr_file u) = f_text (idr_file t1) @ concat (map (idr_line_text b) (idr_cores ids M imp))" by blast
    have n: "length ids < 2 ^ 64" using assms(2) IConcludeUnsat by simp
    have "idrup_conclude_and_delete ids t = Ok u"
      using u(1) n frat_binary_id_ok [OF n] put_uint64_ok [OF n] r(1)
      by (cases b; cases "length ids > 1") (simp_all add: idrup_conclude_and_delete_def Let_def idr_put_def t1_def idr_written_def put_text_def put_str_append)
    then show ?thesis using IConcludeUnsat v r(1,2) u by (simp add: idr_conclude_unsat_def idr_open_def t1_def)
  next
    case (IConcludeSat model)
    then have "idrup_conclude_sat model t = Ok (idr_written [LClause (CHR ''m'') model] t)"
      using line assms(2) r(1) by (simp add: idrup_conclude_sat_def)
    then show ?thesis using IConcludeSat v r(1,2) rel by (simp add: idr_conclude_sat_def idr_open_def)
  next
    case (IStatus st)
    have "idrup_report_status st t = Ok (idr_written [LStatus (status_name st)] t)"
      using r(1) by (simp add: idrup_report_status_def idr_put_def idr_tag_text idr_written_def put_str_append)
    then show ?thesis using IStatus v r(1,2) rel by (simp add: idr_report_status_def idr_open_def)
  next
    case IQuery
    have "idrup_solve_query t = Ok (idr_written [LClause (CHR ''q'') as] t)"
      using line r(1,5,7) by (simp add: idrup_solve_query_def)
    then show ?thesis using IQuery v r(1,2) rel by (simp add: idr_solve_query_def idr_open_def)
  next
    case (IAssume l)
    then show ?thesis using v rel assms(2) by (simp add: idr_add_assumption_def idr_rel_def)
  next
    case IReset
    then show ?thesis using v rel by (simp add: idr_reset_assumptions_def idr_rel_def)
  qed
qed

lemma idr_run_ok:
  assumes "idr_rel b t v" "idr_events_ok b es v"
  shows "\<exists>u. rfold idr_step es t = Ok u \<and> idr_rel b u (fold idr_after es v) \<and>
    f_text (idr_file u) = f_text (idr_file t) @ concat (map (idr_line_text b) (idr_all_lines es v))"
  using assms
proof (induction es arbitrary: t v)
  case (Cons e es)
  obtain u where u: "idr_step e t = Ok u" "idr_rel b u (idr_after e v)"
    "f_text (idr_file u) = f_text (idr_file t) @ concat (map (idr_line_text b) (idr_lines e v))"
    using idr_step_ok [of b t v e] Cons.prems by auto
  then show ?case using Cons.IH [OF u(2)] Cons.prems(2) by auto
qed simp

section \<open>Reading the lines back\<close>

fun idr_line_ok :: "bool \<Rightarrow> idr_line \<Rightarrow> bool" where
  "idr_line_ok b (LClause tag c) \<longleftrightarrow> tag \<in> set ''irlwdumq'' \<and> idr_lits_ok b c"
| "idr_line_ok b (LCores n) \<longleftrightarrow> True"
| "idr_line_ok b (LStatus s) \<longleftrightarrow> s \<in> set [''SATISFIABLE'', ''UNSATISFIABLE'', ''UNKNOWN'']"

lemma prefix_free_idr: "prefix_free (idr_line_text b) (idr_line_ok b)"
proof (rule prefix_freeI)
  fix x y s t
  assume ok: "idr_line_ok b x" "idr_line_ok b y" and eq: "idr_line_text b x @ s = idr_line_text b y @ t"
  have lits: "idr_lits_ok b c \<Longrightarrow> list_all proof_lit c" for c by (simp add: idr_lits_ok_def list_all_iff)
  have num: "m = n \<and> s = t" if "(if b then leb m else show_nat m @ ''\<newline>'') @ s = (if b then leb n else show_nat n @ ''\<newline>'') @ t" for m n
  proof (cases b)
    case True
    then have "leb m @ s = leb n @ t" using that by simp
    then show ?thesis by (rule prefix_freeD [OF prefix_free_leb TrueI TrueI])
  next
    case False
    have nl: "CHR ''\<newline>'' \<notin> set (show_nat k)" for k by (rule show_nat_not_in) (simp add: is_digit_def)
    then have "show_nat m = show_nat n \<and> s = t"
      using append_sep_inj [OF nl nl] that False by simp
    then show ?thesis using show_nat_inj by blast
  qed
  show "x = y \<and> s = t"
  proof (cases x; cases y)
    fix tag c tag' d assume xy: "x = LClause tag c" "y = LClause tag' d"
    then have "clause_text b c @ s = clause_text b d @ t" "tag = tag'" using eq by (auto split: if_splits)
    moreover have "list_all proof_lit c" "list_all proof_lit d" using ok xy lits by simp_all
    ultimately show ?thesis using prefix_freeD [OF prefix_free_clause] xy by blast
  next
    fix m n assume xy: "x = LCores m" "y = LCores n"
    then show ?thesis using eq num [of m n] by (auto split: if_splits)
  next
    fix p q assume xy: "x = LStatus p" "y = LStatus q"
    then show ?thesis using eq ok by (auto split: if_splits)
  qed (use eq ok in \<open>auto split: if_splits\<close>)
qed

lemma idr_cores_line_ok:
  "idr_lits_ok b imp \<Longrightarrow> (\<And>i c. M i = Some c \<Longrightarrow> idr_lits_ok b c) \<Longrightarrow> list_all (idr_line_ok b) (idr_cores ids M imp)"
proof (induction ids arbitrary: M imp)
  case (Cons i ids)
  have "list_all (idr_line_ok b) (idr_cores ids (M(i := None)) [])"
    by (rule Cons.IH) (use Cons.prems(2) in \<open>auto split: if_splits\<close>)
  then show ?case using Cons.prems by (cases "M i") simp_all
qed simp

definition view_ok :: "bool \<Rightarrow> idr_view \<Rightarrow> bool" where
  "view_ok b v \<longleftrightarrow> idr_lits_ok b (fst (snd v)) \<and> idr_lits_ok b (snd (snd v)) \<and> (\<forall>i c. fst v i = Some c \<longrightarrow> idr_lits_ok b c)"

lemma idr_lines_ok:
  assumes "view_ok b v" "idr_event_ok b e v"
  shows "list_all (idr_line_ok b) (idr_lines e v)" "view_ok b (idr_after e v)"
proof -
  obtain M imp as where v: "v = (M, imp, as)" by (cases v) auto
  have r: "idr_lits_ok b imp" "idr_lits_ok b as" "\<And>i c. M i = Some c \<Longrightarrow> idr_lits_ok b c"
    using assms(1) v by (simp_all add: view_ok_def)
  have taken: "idr_lits_ok b (idr_taken i M imp)" for i using r(1,3) by (auto simp: idr_taken_def split: option.splits)
  show "list_all (idr_line_ok b) (idr_lines e v)"
    using r assms(2) idr_cores_line_ok [OF r(1,3)] v by (cases e) (auto simp: status_name_def)
  show "view_ok b (idr_after e v)"
    using r assms(2) taken v by (cases e) (auto simp: view_ok_def restrict_map_def split: if_splits)
qed

lemma idr_all_lines_ok:
  "view_ok b v \<Longrightarrow> idr_events_ok b es v \<Longrightarrow> list_all (idr_line_ok b) (idr_all_lines es v)"
proof (induction es arbitrary: v)
  case (Cons e es)
  then show ?case using idr_lines_ok [of b v e] by simp
qed simp

section \<open>Properties\<close>

abbreviation idr_start :: idr_view where
  "idr_start \<equiv> (Map.empty, [], [])"

lemma idr_new: "idr_rel b (new_IdrupTracer b) idr_start" "f_text (idr_file (new_IdrupTracer b)) = ''''"
  by (simp_all add: idr_rel_def new_IdrupTracer_def holds_map_empty)

text \<open>
  C32. The IDRUP tracer refines its description with a finite map: for all calls with literals of 31 bits (30 in the
  binary format) whose inserted identifiers are not in use it terminates without an error and writes exactly the
  described lines, and its hash table holds exactly the weakened and assumption clauses that were not taken out. In
  particular a deletion is written as a weakening iff the clause is marked, a restored clause is left out iff it
  is still marked, and a conclusion writes the negations of its assumption clauses.
\<close>

theorem idrup_refines:
  assumes "idr_events_ok b es idr_start"
  shows "\<exists>t. rfold idr_step es (new_IdrupTracer b) = Ok t \<and>
    f_text (idr_file t) = concat (map (idr_line_text b) (idr_all_lines es idr_start)) \<and>
    holds_map (idr_clauses t) (fst (fold idr_after es idr_start))"
proof -
  obtain t where "rfold idr_step es (new_IdrupTracer b) = Ok t" "idr_rel b t (fold idr_after es idr_start)"
    "f_text (idr_file t) = concat (map (idr_line_text b) (idr_all_lines es idr_start))"
    using idr_run_ok [OF idr_new(1) assms] idr_new(2) [of b] by auto
  then show ?thesis by (intro exI [of _ t]) (simp add: idr_rel_def case_prod_beta)
qed

definition idr_example :: "idr_event list" where
  "idr_example = [IOriginal 1 [1, 2] False, IWeaken 1, IDelete 1 [1, 2], IAssume 3, IQuery, IAssumptionClause 4 [- 3],
     IStatus 20, IConcludeUnsat [4], IReset, IOriginal 1 [1, 2] True]"

lemma idr_example_ok: "idr_events_ok b idr_example idr_start"
  by (simp add: idr_example_def idr_lits_ok_def proof_lit_def INT_MAX_def idr_taken_def)

lemma idrup_refines_witness:
  "\<exists>t. rfold idr_step idr_example (new_IdrupTracer False) = Ok t \<and>
    f_text (idr_file t) = ''i 1 2 0\<newline>w 1 2 0\<newline>q 3 0\<newline>s UNSATISFIABLE\<newline>u 3 0\<newline>r 1 2 0\<newline>''"
proof -
  have "concat (map (idr_line_text False) (idr_all_lines idr_example idr_start)) =
      ''i 1 2 0\<newline>w 1 2 0\<newline>q 3 0\<newline>s UNSATISFIABLE\<newline>u 3 0\<newline>r 1 2 0\<newline>''"
    by code_simp
  then show ?thesis using idrup_refines [OF idr_example_ok, of False] by auto
qed

text \<open>
  An IDRUP proof can be read back, in both formats: two sequences of calls write the same file exactly if they have
  the same lines.
\<close>

theorem idrup_readable:
  assumes "idr_events_ok b es idr_start" "idr_events_ok b us idr_start"
  shows "\<exists>t u. rfold idr_step es (new_IdrupTracer b) = Ok t \<and> rfold idr_step us (new_IdrupTracer b) = Ok u \<and>
    (f_text (idr_file t) = f_text (idr_file u) \<longleftrightarrow> idr_all_lines es idr_start = idr_all_lines us idr_start)"
proof -
  have ne: "idr_line_text b l \<noteq> []" for l by (cases l) simp_all
  have v: "view_ok b idr_start" by (simp add: view_ok_def)
  have "concat (map (idr_line_text b) (idr_all_lines es idr_start)) = concat (map (idr_line_text b) (idr_all_lines us idr_start)) \<longleftrightarrow>
      idr_all_lines es idr_start = idr_all_lines us idr_start"
    using prefix_free_concat [OF prefix_free_idr ne idr_all_lines_ok [OF v assms(1)] idr_all_lines_ok [OF v assms(2)]] by auto
  then show ?thesis
    using idr_run_ok [OF idr_new(1) assms(1)] idr_run_ok [OF idr_new(1) assms(2)] idr_new(2) [of b] by auto
qed

lemma idrup_readable_witness:
  "\<exists>t u. rfold idr_step idr_example (new_IdrupTracer True) = Ok t \<and> rfold idr_step [IDerived [1]] (new_IdrupTracer True) = Ok u \<and>
    f_text (idr_file t) \<noteq> f_text (idr_file u)"
proof -
  have d: "idr_events_ok True [IDerived [1]] idr_start" by (simp add: idr_lits_ok_def proof_lit_def INT_MAX_def)
  have "idr_all_lines idr_example idr_start \<noteq> idr_all_lines [IDerived [1]] idr_start" by (simp add: idr_example_def)
  then show ?thesis using idrup_readable [OF idr_example_ok d] by auto
qed
end
