(* ===== verification/Proof_Dispatch.thy ===== *)
theory Proof_Dispatch
  imports Drup_Correct Veripb_Tracer Idrup_Tracer
begin

text \<open>
  The class \<open>Proof\<close> (\<open>proof.cpp\<close>, \<open>proof.hpp\<close>), which stands between the solver and the tracers: it maps the
  literals of a clause to the outside, collects them and the antecedents in its buffers and notifies every connected tracer
  and checker. The tracers are those of the other theories; a virtual function a class does not override does
  nothing (\<open>tracer.hpp\<close>). The functions of \<open>Internal\<close> that connect and disconnect tracers are in the same
  file.

  A tracer has an address, for the lists that refer to it. The state has the members of \<open>Internal\<close> the class reads:
  the map \<open>i2e\<close>, the root values, the identifiers of unit clauses and the counter of identifiers. The external
  builder of LRAT chains (\<open>lratbuilder\<close>, only with the option \<open>externallrat\<close>) is not connected. Closing a file prints
  statistics, which are left out, and flushing has no effect on what is written.
\<close>

section \<open>Tracers and events\<close>

datatype Tracer =
    TDrat DratTracer
  | TLrat LratTracer
  | TFrat FratTracer
  | TVeripb VeripbTracer
  | TIdrup IdrupTracer
  | TChecker Checker
  | TLratChecker LratChecker

datatype trace_event =
    EOriginal nat bool "int list" bool
  | EDerived nat bool "int list" "nat list"
  | EDelete nat bool "int list"
  | EWeakenMinus nat "int list"
  | EStrengthen nat
  | EFinalize nat "int list"
  | EAssumptionClause nat "int list" "nat list"
  | EAssumption int
  | EConstraint "int list"
  | EReset
  | EStatus int nat
  | EBegin nat
  | EQuery
  | EConcludeUnsat ConclusionType "nat list"
  | EConcludeSat "int list"

fun to_drat :: "trace_event \<Rightarrow> DratTracer \<Rightarrow> DratTracer result" where
  "to_drat (EDerived i r c ch) t = drat_add_derived_clause c t"
| "to_drat (EDelete i r c) t = drat_trace_deletion c t"
| "to_drat _ t = Ok t"

fun to_lrat :: "trace_event \<Rightarrow> LratTracer \<Rightarrow> LratTracer result" where
  "to_lrat (EDerived i r c ch) t = lrat_add_derived_clause i c ch t"
| "to_lrat (EDelete i r c) t = Ok (lrat_trace_deletion i t)"
| "to_lrat (EBegin i) t = Ok (lrat_begin_proof i t)"
| "to_lrat _ t = Ok t"

fun to_frat :: "trace_event \<Rightarrow> FratTracer \<Rightarrow> FratTracer result" where
  "to_frat (EOriginal i r c restored) t = frat_trace_original i c t"
| "to_frat (EDerived i r c ch) t = frat_trace_derived i c ch t"
| "to_frat (EDelete i r c) t = frat_trace_deletion i c t"
| "to_frat (EFinalize i c) t = frat_trace_finalize i c t"
| "to_frat _ t = Ok t"

fun to_veripb :: "trace_event \<Rightarrow> VeripbTracer \<Rightarrow> VeripbTracer result" where
  "to_veripb (EDerived i r c ch) t = vp_add_derived i r c ch t"
| "to_veripb (EDelete i r c) t = vp_delete i r t"
| "to_veripb (EWeakenMinus i c) t = vp_weaken i t"
| "to_veripb (EStrengthen i) t = vp_strengthen i t"
| "to_veripb (EStatus st i) t = vp_report st i t"
| "to_veripb (EBegin i) t = vp_begin i t"
| "to_veripb _ t = Ok t"

fun to_idrup :: "trace_event \<Rightarrow> IdrupTracer \<Rightarrow> IdrupTracer result" where
  "to_idrup (EOriginal i r c restored) t = idr_add_original i c restored t"
| "to_idrup (EDerived i r c ch) t = idr_add_derived c t"
| "to_idrup (EDelete i r c) t = idr_delete i c t"
| "to_idrup (EWeakenMinus i c) t = idr_weaken_minus i t"
| "to_idrup (EAssumptionClause i c ch) t = idr_add_assumption_clause i c t"
| "to_idrup (EConcludeUnsat k ids) t = idr_conclude_unsat ids t"
| "to_idrup (EConcludeSat model) t = idr_conclude_sat model t"
| "to_idrup (EStatus st i) t = idr_report_status st t"
| "to_idrup EQuery t = idr_solve_query t"
| "to_idrup (EAssumption l) t = Ok (idr_add_assumption l t)"
| "to_idrup EReset t = Ok (idr_reset_assumptions t)"
| "to_idrup _ t = Ok t"

fun to_checker :: "trace_event \<Rightarrow> Checker \<Rightarrow> Checker result" where
  "to_checker (EOriginal i r c restored) t = ck_add_original_clause i c t"
| "to_checker (EDerived i r c ch) t = ck_add_derived_clause i c t"
| "to_checker (EDelete i r c) t = ck_delete_clause i c t"
| "to_checker (EAssumptionClause i c ch) t = ck_add_assumption_clause i c t"
| "to_checker _ t = Ok t"

fun to_lratchecker :: "trace_event \<Rightarrow> LratChecker \<Rightarrow> LratChecker result" where
  "to_lratchecker (EOriginal i r c restored) t = lrat_add_original i c restored t"
| "to_lratchecker (EDerived i r c ch) t = lrat_add_derived i c ch t"
| "to_lratchecker (EDelete i r c) t = lrat_delete_clause i c t"
| "to_lratchecker (EWeakenMinus i c) t = lrat_weaken_minus i c t"
| "to_lratchecker (EFinalize i c) t = lrat_finalize_clause i c t"
| "to_lratchecker (EAssumptionClause i c ch) t = lrat_add_assumption_clause i c ch t"
| "to_lratchecker (EAssumption l) t = Ok (lrat_add_assumption l t)"
| "to_lratchecker (EConstraint c) t = Ok (lrat_add_constraint c t)"
| "to_lratchecker EReset t = Ok (lrat_reset_assumptions t)"
| "to_lratchecker (EStatus st i) t = lrat_report_status t"
| "to_lratchecker (EBegin i) t = Ok (lrat_begin i t)"
| "to_lratchecker (EConcludeUnsat k ids) t = lrat_conclude_unsat k ids t"
| "to_lratchecker _ t = Ok t"

fun deliver :: "trace_event \<Rightarrow> Tracer \<Rightarrow> Tracer result" where
  "deliver e (TDrat t) = rbind (to_drat e t) (\<lambda>t. Ok (TDrat t))"
| "deliver e (TLrat t) = rbind (to_lrat e t) (\<lambda>t. Ok (TLrat t))"
| "deliver e (TFrat t) = rbind (to_frat e t) (\<lambda>t. Ok (TFrat t))"
| "deliver e (TVeripb t) = rbind (to_veripb e t) (\<lambda>t. Ok (TVeripb t))"
| "deliver e (TIdrup t) = rbind (to_idrup e t) (\<lambda>t. Ok (TIdrup t))"
| "deliver e (TChecker t) = rbind (to_checker e t) (\<lambda>t. Ok (TChecker t))"
| "deliver e (TLratChecker t) = rbind (to_lratchecker e t) (\<lambda>t. Ok (TLratChecker t))"

section \<open>State\<close>

record PClause =
  pc_id :: nat
  pc_redundant :: bool
  pc_literals :: "int list"

record Proof =
  pf_clause :: "int list"
  pf_chain :: "nat list"
  pf_id :: nat
  pf_redundant :: bool
  pf_tracers :: "(nat \<times> Tracer) list"
  pf_file_tracers :: "nat list"
  pf_stat_tracers :: "nat list"
  pf_lrat :: bool
  pf_next :: nat
  pf_i2e :: "int list"
  pf_vals :: "int list"
  pf_levels :: "nat list"
  pf_units :: "nat list"
  pf_last_id :: nat

fun deliver_all :: "trace_event \<Rightarrow> (nat \<times> Tracer) list \<Rightarrow> (nat \<times> Tracer) list result" where
  "deliver_all e [] = Ok []"
| "deliver_all e ((a, t) # ts) = rbind (deliver e t) (\<lambda>t. rbind (deliver_all e ts) (\<lambda>ts. Ok ((a, t) # ts)))"

definition notify :: "trace_event \<Rightarrow> Proof \<Rightarrow> Proof result" where
  "notify e p = rbind (deliver_all e (pf_tracers p)) (\<lambda>ts. Ok (p\<lparr>pf_tracers := ts\<rparr>))"

section \<open>The buffers\<close>

definition pf_externalize :: "int \<Rightarrow> Proof \<Rightarrow> int result" where
  "pf_externalize lit p = rbind (vec_at (pf_i2e p) (nat \<bar>lit\<bar>)) (\<lambda>r. Ok (if lit < 0 then - r else r))"

definition add_literal :: "int \<Rightarrow> Proof \<Rightarrow> Proof result" where
  "add_literal lit p = rbind (pf_externalize lit p) (\<lambda>e. Ok (p\<lparr>pf_clause := pf_clause p @ [e]\<rparr>))"

definition add_literals :: "int list \<Rightarrow> Proof \<Rightarrow> Proof result" where
  "add_literals = rfold add_literal"

definition push_outside :: "int list \<Rightarrow> Proof \<Rightarrow> Proof" where
  "push_outside c p = p\<lparr>pf_clause := pf_clause p @ c\<rparr>"

definition push_chain_ids :: "nat list \<Rightarrow> Proof \<Rightarrow> Proof" where
  "push_chain_ids chain p = p\<lparr>pf_chain := pf_chain p @ chain\<rparr>"

definition set_id :: "nat \<Rightarrow> Proof \<Rightarrow> Proof" where
  "set_id i p = p\<lparr>pf_id := i\<rparr>"

definition set_redundant :: "bool \<Rightarrow> Proof \<Rightarrow> Proof" where
  "set_redundant r p = p\<lparr>pf_redundant := r\<rparr>"

definition clear_clause :: "Proof \<Rightarrow> Proof" where
  "clear_clause p = p\<lparr>pf_clause := [], pf_id := 0\<rparr>"

text \<open>The private functions that notify the tracers and clear the buffers.\<close>

definition send_original :: "bool \<Rightarrow> Proof \<Rightarrow> Proof result" where
  "send_original restore p =
     rbind (notify (EOriginal (pf_id p) False (pf_clause p) restore) p) (\<lambda>p. Ok (clear_clause p))"

definition send_derived :: "Proof \<Rightarrow> Proof result" where
  "send_derived p =
     rbind (notify (EDerived (pf_id p) (pf_redundant p) (pf_clause p) (pf_chain p)) p) (\<lambda>p.
       Ok (clear_clause (p\<lparr>pf_chain := []\<rparr>)))"

definition send_delete :: "Proof \<Rightarrow> Proof result" where
  "send_delete p = rbind (notify (EDelete (pf_id p) (pf_redundant p) (pf_clause p)) p) (\<lambda>p. Ok (clear_clause p))"

definition send_weaken_minus :: "Proof \<Rightarrow> Proof result" where
  "send_weaken_minus p = rbind (notify (EWeakenMinus (pf_id p) (pf_clause p)) p) (\<lambda>p. Ok (clear_clause p))"

definition send_strengthen :: "Proof \<Rightarrow> Proof result" where
  "send_strengthen p = rbind (notify (EStrengthen (pf_id p)) p) (\<lambda>p. Ok (set_id 0 p))"

definition send_finalize :: "Proof \<Rightarrow> Proof result" where
  "send_finalize p = rbind (notify (EFinalize (pf_id p) (pf_clause p)) p) (\<lambda>p. Ok (clear_clause p))"

definition send_assumption_clause :: "Proof \<Rightarrow> Proof result" where
  "send_assumption_clause p =
     rbind (notify (EAssumptionClause (pf_id p) (pf_clause p) (pf_chain p)) p) (\<lambda>p.
       Ok (clear_clause (p\<lparr>pf_chain := []\<rparr>)))"

definition send_assumption :: "Proof \<Rightarrow> Proof result" where
  "send_assumption p =
     (if pf_clause p = [] then Fault OutOfBounds
      else rbind (notify (EAssumption (last (pf_clause p))) p) (\<lambda>p. Ok (p\<lparr>pf_clause := []\<rparr>)))"

definition send_constraint :: "Proof \<Rightarrow> Proof result" where
  "send_constraint p = rbind (notify (EConstraint (pf_clause p)) p) (\<lambda>p. Ok (p\<lparr>pf_clause := []\<rparr>))"


section \<open>The operations\<close>

definition pf_add_original_clause :: "nat \<Rightarrow> bool \<Rightarrow> int list \<Rightarrow> Proof \<Rightarrow> Proof result" where
  "pf_add_original_clause i r c p =
     rbind (add_literals c p) (\<lambda>p. send_original False (set_redundant r (set_id i p)))"

definition pf_add_external_original_clause :: "nat \<Rightarrow> bool \<Rightarrow> int list \<Rightarrow> bool \<Rightarrow> Proof \<Rightarrow> Proof result" where
  "pf_add_external_original_clause i r c restore p = send_original restore (set_redundant r (set_id i (push_outside c p)))"

definition pf_delete_external_original_clause :: "nat \<Rightarrow> bool \<Rightarrow> int list \<Rightarrow> Proof \<Rightarrow> Proof result" where
  "pf_delete_external_original_clause i r c p = send_delete (set_redundant r (set_id i (push_outside c p)))"

definition pf_add_derived_empty_clause :: "nat \<Rightarrow> nat list \<Rightarrow> Proof \<Rightarrow> Proof result" where
  "pf_add_derived_empty_clause i chain p = send_derived (set_redundant False (set_id i (push_chain_ids chain p)))"

definition pf_add_derived_unit_clause :: "nat \<Rightarrow> int \<Rightarrow> nat list \<Rightarrow> Proof \<Rightarrow> Proof result" where
  "pf_add_derived_unit_clause i lit chain p =
     rbind (add_literal lit p) (\<lambda>p. send_derived (set_redundant False (set_id i (push_chain_ids chain p))))"

definition pf_add_derived_clause :: "nat \<Rightarrow> bool \<Rightarrow> int list \<Rightarrow> nat list \<Rightarrow> Proof \<Rightarrow> Proof result" where
  "pf_add_derived_clause i r c chain p =
     rbind (add_literals c p) (\<lambda>p. send_derived (set_redundant r (set_id i (push_chain_ids chain p))))"

definition pf_add_derived :: "PClause \<Rightarrow> nat list \<Rightarrow> Proof \<Rightarrow> Proof result" where
  "pf_add_derived c chain p =
     rbind (add_literals (pc_literals c) p) (\<lambda>p.
       send_derived (set_redundant (pc_redundant c) (set_id (pc_id c) (push_chain_ids chain p))))"

definition pf_add_assumption_clause :: "nat \<Rightarrow> int list \<Rightarrow> nat list \<Rightarrow> Proof \<Rightarrow> Proof result" where
  "pf_add_assumption_clause i c chain p = send_assumption_clause (set_id i (push_chain_ids chain (push_outside c p)))"

definition pf_add_assumption_unit :: "nat \<Rightarrow> int \<Rightarrow> nat list \<Rightarrow> Proof \<Rightarrow> Proof result" where
  "pf_add_assumption_unit i lit chain p = send_assumption_clause (set_id i (push_chain_ids chain (push_outside [lit] p)))"

definition pf_add_assumption :: "int \<Rightarrow> Proof \<Rightarrow> Proof result" where
  "pf_add_assumption a p = send_assumption (push_outside [a] p)"

definition pf_add_constraint :: "int list \<Rightarrow> Proof \<Rightarrow> Proof result" where
  "pf_add_constraint c p = send_constraint (push_outside c p)"

definition pf_delete_clause :: "nat \<Rightarrow> bool \<Rightarrow> int list \<Rightarrow> Proof \<Rightarrow> Proof result" where
  "pf_delete_clause i r c p = rbind (add_literals c p) (\<lambda>p. send_delete (set_redundant r (set_id i p)))"

definition pf_delete :: "PClause \<Rightarrow> Proof \<Rightarrow> Proof result" where
  "pf_delete c p =
     rbind (add_literals (pc_literals c) p) (\<lambda>p. send_delete (set_redundant (pc_redundant c) (set_id (pc_id c) p)))"

definition pf_weaken_minus :: "nat \<Rightarrow> int list \<Rightarrow> Proof \<Rightarrow> Proof result" where
  "pf_weaken_minus i c p = rbind (add_literals c p) (\<lambda>p. send_weaken_minus (set_id i p))"

definition pf_weaken_minus_of :: "PClause \<Rightarrow> Proof \<Rightarrow> Proof result" where
  "pf_weaken_minus_of c p = rbind (add_literals (pc_literals c) p) (\<lambda>p. send_weaken_minus (set_id (pc_id c) p))"

definition pf_weaken_plus :: "nat \<Rightarrow> int list \<Rightarrow> Proof \<Rightarrow> Proof result" where
  "pf_weaken_plus i c p = rbind (pf_weaken_minus i c p) (pf_delete_clause i False c)"

definition pf_weaken_plus_of :: "PClause \<Rightarrow> Proof \<Rightarrow> Proof result" where
  "pf_weaken_plus_of c p = rbind (pf_weaken_minus_of c p) (pf_delete c)"

definition pf_delete_unit_clause :: "nat \<Rightarrow> int \<Rightarrow> Proof \<Rightarrow> Proof result" where
  "pf_delete_unit_clause i lit p = rbind (add_literal lit p) (\<lambda>p. send_delete (set_redundant False (set_id i p)))"

definition pf_finalize_clause :: "nat \<Rightarrow> int list \<Rightarrow> Proof \<Rightarrow> Proof result" where
  "pf_finalize_clause i c p = rbind (add_literals c p) (\<lambda>p. send_finalize (set_id i p))"

definition pf_finalize_of :: "PClause \<Rightarrow> Proof \<Rightarrow> Proof result" where
  "pf_finalize_of c p = rbind (add_literals (pc_literals c) p) (\<lambda>p. send_finalize (set_id (pc_id c) p))"

definition pf_finalize_unit :: "nat \<Rightarrow> int \<Rightarrow> Proof \<Rightarrow> Proof result" where
  "pf_finalize_unit i lit p = rbind (add_literal lit p) (\<lambda>p. send_finalize (set_id i p))"

definition pf_finalize_external_unit :: "nat \<Rightarrow> int \<Rightarrow> Proof \<Rightarrow> Proof result" where
  "pf_finalize_external_unit i lit p = send_finalize (set_id i (push_outside [lit] p))"

text \<open>\<open>Internal::fixed\<close>.\<close>

definition fixed_val :: "int \<Rightarrow> Proof \<Rightarrow> int result" where
  "fixed_val lit p =
     rbind (vec_at (pf_vals p) (nat \<bar>lit\<bar>)) (\<lambda>res. rbind (vec_at (pf_levels p) (nat \<bar>lit\<bar>)) (\<lambda>level.
       let res = (if res \<noteq> 0 \<and> level \<noteq> 0 then 0 else res) in Ok (if lit < 0 then - res else res)))"

definition flush_literal :: "int \<Rightarrow> Proof \<Rightarrow> Proof result" where
  "flush_literal lit p =
     rbind (fixed_val lit p) (\<lambda>v.
       if v < 0 then rbind (vec_at (pf_units p) (vlit (- lit))) (\<lambda>i. Ok (push_chain_ids [i] p))
       else add_literal lit p)"

definition next_id :: "Proof \<Rightarrow> Proof" where
  "next_id p = p\<lparr>pf_last_id := pf_last_id p + 1\<rparr>"

text \<open>
  The operations that replace a clause: the new clause is derived with a fresh identifier, the old one deleted; the
  result is the clause with its new identifier.
\<close>

definition flush_clause :: "PClause \<Rightarrow> Proof \<Rightarrow> (PClause \<times> Proof) result" where
  "flush_clause c p =
     rbind (rfold flush_literal (pc_literals c) p) (\<lambda>p.
     let p = next_id (set_redundant (pc_redundant c) (push_chain_ids [pc_id c] p)); i = pf_last_id p in
     rbind (send_derived (set_id i p)) (\<lambda>p.
     rbind (pf_delete c p) (\<lambda>p. Ok (c\<lparr>pc_id := i\<rparr>, p))))"

definition strengthen_clause :: "PClause \<Rightarrow> int \<Rightarrow> nat list \<Rightarrow> Proof \<Rightarrow> (PClause \<times> Proof) result" where
  "strengthen_clause c removed chain p =
     rbind (rfold (\<lambda>lit p. if lit = removed then Ok p else add_literal lit p) (pc_literals c) p) (\<lambda>p.
     let p = next_id p; i = pf_last_id p in
     rbind (send_derived (push_chain_ids chain (set_redundant (pc_redundant c) (set_id i p)))) (\<lambda>p.
     rbind (pf_delete c p) (\<lambda>p. Ok (c\<lparr>pc_id := i\<rparr>, p))))"

definition otfs_strengthen_clause :: "PClause \<Rightarrow> int list \<Rightarrow> nat list \<Rightarrow> Proof \<Rightarrow> (PClause \<times> Proof) result" where
  "otfs_strengthen_clause c old chain p =
     rbind (rfold add_literal (pc_literals c) p) (\<lambda>p.
     let p = next_id p; i = pf_last_id p in
     rbind (send_derived (push_chain_ids chain (set_redundant (pc_redundant c) (set_id i p)))) (\<lambda>p.
     rbind (pf_delete_clause (pc_id c) (pc_redundant c) old p) (\<lambda>p. Ok (c\<lparr>pc_id := i\<rparr>, p))))"

definition pf_strengthen :: "nat \<Rightarrow> Proof \<Rightarrow> Proof result" where
  "pf_strengthen i p = send_strengthen (set_id i p)"

definition pf_reset_assumptions :: "Proof \<Rightarrow> Proof result" where
  "pf_reset_assumptions = notify EReset"

definition pf_report_status :: "int \<Rightarrow> nat \<Rightarrow> Proof \<Rightarrow> Proof result" where
  "pf_report_status st i = notify (EStatus st i)"

definition pf_begin_proof :: "nat \<Rightarrow> Proof \<Rightarrow> Proof result" where
  "pf_begin_proof i = notify (EBegin i)"

definition pf_solve_query :: "Proof \<Rightarrow> Proof result" where
  "pf_solve_query = notify EQuery"

definition pf_conclude_unsat :: "ConclusionType \<Rightarrow> nat list \<Rightarrow> Proof \<Rightarrow> Proof result" where
  "pf_conclude_unsat con conclusion = notify (EConcludeUnsat con conclusion)"

definition pf_conclude_sat :: "int list \<Rightarrow> Proof \<Rightarrow> Proof result" where
  "pf_conclude_sat model = notify (EConcludeSat model)"

section \<open>Connecting tracers\<close>

record trace_options =
  opt_veripb :: int
  opt_frat :: int
  opt_lrat :: bool
  opt_idrup :: bool
  opt_binary :: bool
  opt_checkproof :: int

definition force_lrat :: "Proof \<Rightarrow> Proof" where
  "force_lrat p = (if pf_lrat p then p else p\<lparr>pf_lrat := True\<rparr>)"

definition pf_connect :: "Tracer \<Rightarrow> Proof \<Rightarrow> nat \<times> Proof" where
  "pf_connect t p = (pf_next p, p\<lparr>pf_tracers := pf_tracers p @ [(pf_next p, t)], pf_next := pf_next p + 1\<rparr>)"

definition pf_disconnect :: "nat \<Rightarrow> Proof \<Rightarrow> Proof" where
  "pf_disconnect a p = p\<lparr>pf_tracers := filter (\<lambda>t. fst t \<noteq> a) (pf_tracers p)\<rparr>"

fun connect_internal :: "Proof \<Rightarrow> Tracer \<Rightarrow> Tracer" where
  "connect_internal p (TLratChecker t) = TLratChecker (t\<lparr>strict_lrat := pf_lrat p\<rparr>)"
| "connect_internal p t = t"

definition push_stat_tracer :: "nat \<times> Proof \<Rightarrow> Proof" where
  "push_stat_tracer = (\<lambda>(a, p). p\<lparr>pf_stat_tracers := pf_stat_tracers p @ [a]\<rparr>)"

definition push_file_tracer :: "nat \<times> Proof \<Rightarrow> Proof" where
  "push_file_tracer = (\<lambda>(a, p). p\<lparr>pf_file_tracers := pf_file_tracers p @ [a]\<rparr>)"

definition connect_stat_tracer :: "Tracer \<Rightarrow> bool \<Rightarrow> Proof \<Rightarrow> Proof" where
  "connect_stat_tracer t antecedents p =
     (let p = (if antecedents then force_lrat p else p) in push_stat_tracer (pf_connect (connect_internal p t) p))"

definition connect_file_tracer :: "Tracer \<Rightarrow> bool \<Rightarrow> Proof \<Rightarrow> Proof" where
  "connect_file_tracer t antecedents p =
     (let p = (if antecedents then force_lrat p else p) in push_file_tracer (pf_connect (connect_internal p t) p))"

definition disconnect_stat_tracer :: "nat \<Rightarrow> Proof \<Rightarrow> bool \<times> Proof" where
  "disconnect_stat_tracer a p =
     (if a \<in> set (pf_stat_tracers p)
      then (True, pf_disconnect a (p\<lparr>pf_stat_tracers := remove1 a (pf_stat_tracers p)\<rparr>))
      else (False, p))"

definition disconnect_file_tracer :: "nat \<Rightarrow> Proof \<Rightarrow> bool \<times> Proof" where
  "disconnect_file_tracer a p =
     (if a \<in> set (pf_file_tracers p)
      then (True, pf_disconnect a (p\<lparr>pf_file_tracers := remove1 a (pf_file_tracers p)\<rparr>))
      else (False, p))"

definition pf_trace :: "trace_options \<Rightarrow> Proof \<Rightarrow> Proof" where
  "pf_trace os =
     (if opt_veripb os \<noteq> 0
      then let antecedents = (opt_veripb os = 1 \<or> opt_veripb os = 2); deletions = (opt_veripb os = 2 \<or> opt_veripb os = 4)
        in connect_file_tracer (TVeripb (new_VeripbTracer antecedents deletions)) antecedents
      else if opt_frat os \<noteq> 0
      then connect_file_tracer (TFrat (new_FratTracer (opt_binary os) (opt_frat os = 1))) (opt_frat os = 1)
      else if opt_lrat os then connect_file_tracer (TLrat (new_LratTracer (opt_binary os))) True
      else if opt_idrup os then connect_file_tracer (TIdrup (new_IdrupTracer (opt_binary os))) True
      else connect_file_tracer (TDrat (new_DratTracer (opt_binary os))) False)"

definition pf_check :: "trace_options \<Rightarrow> Proof \<Rightarrow> Proof" where
  "pf_check os p =
     (let p = (if opt_checkproof os > 1
        then let t = TLratChecker (new_LratChecker (pf_lrat p)) in push_stat_tracer (pf_connect t (force_lrat p)) else p)
      in if opt_checkproof os = 1 \<or> opt_checkproof os = 3 then push_stat_tracer (pf_connect (TChecker new_Checker) p) else p)"

fun close_tracer :: "Tracer \<Rightarrow> Tracer" where
  "close_tracer (TDrat t) = TDrat (drat_close t)"
| "close_tracer (TLrat t) = TLrat (lrat_close t)"
| "close_tracer (TFrat t) = TFrat (frat_close t)"
| "close_tracer (TVeripb t) = TVeripb (vp_close t)"
| "close_tracer (TIdrup t) = TIdrup (idr_close t)"
| "close_tracer t = t"

definition close_trace :: "Proof \<Rightarrow> Proof" where
  "close_trace p = p\<lparr>pf_tracers := map (\<lambda>(a, t). (a, if a \<in> set (pf_file_tracers p) then close_tracer t else t)) (pf_tracers p)\<rparr>"

section \<open>The operations as one step function\<close>

datatype proof_op =
    OpOriginal nat bool "int list"
  | OpExternalOriginal nat bool "int list" bool
  | OpDeleteExternal nat bool "int list"
  | OpDerivedEmpty nat "nat list"
  | OpDerivedUnit nat int "nat list"
  | OpDerived nat bool "int list" "nat list"
  | OpDerivedOf PClause "nat list"
  | OpAssumptionClause nat "int list" "nat list"
  | OpAssumptionUnit nat int "nat list"
  | OpAssumption int
  | OpConstraint "int list"
  | OpDelete nat bool "int list"
  | OpDeleteOf PClause
  | OpWeakenMinus nat "int list"
  | OpWeakenMinusOf PClause
  | OpWeakenPlus nat "int list"
  | OpWeakenPlusOf PClause
  | OpDeleteUnit nat int
  | OpFinalize nat "int list"
  | OpFinalizeOf PClause
  | OpFinalizeUnit nat int
  | OpFinalizeExternalUnit nat int
  | OpFlush PClause
  | OpStrengthenClause PClause int "nat list"
  | OpOtfs PClause "int list" "nat list"
  | OpStrengthen nat
  | OpReset
  | OpStatus int nat
  | OpBegin nat
  | OpQuery
  | OpConcludeUnsat ConclusionType "nat list"
  | OpConcludeSat "int list"

fun op_step :: "proof_op \<Rightarrow> Proof \<Rightarrow> Proof result" where
  "op_step (OpOriginal i r c) = pf_add_original_clause i r c"
| "op_step (OpExternalOriginal i r c restore) = pf_add_external_original_clause i r c restore"
| "op_step (OpDeleteExternal i r c) = pf_delete_external_original_clause i r c"
| "op_step (OpDerivedEmpty i chain) = pf_add_derived_empty_clause i chain"
| "op_step (OpDerivedUnit i lit chain) = pf_add_derived_unit_clause i lit chain"
| "op_step (OpDerived i r c chain) = pf_add_derived_clause i r c chain"
| "op_step (OpDerivedOf c chain) = pf_add_derived c chain"
| "op_step (OpAssumptionClause i c chain) = pf_add_assumption_clause i c chain"
| "op_step (OpAssumptionUnit i lit chain) = pf_add_assumption_unit i lit chain"
| "op_step (OpAssumption a) = pf_add_assumption a"
| "op_step (OpConstraint c) = pf_add_constraint c"
| "op_step (OpDelete i r c) = pf_delete_clause i r c"
| "op_step (OpDeleteOf c) = pf_delete c"
| "op_step (OpWeakenMinus i c) = pf_weaken_minus i c"
| "op_step (OpWeakenMinusOf c) = pf_weaken_minus_of c"
| "op_step (OpWeakenPlus i c) = pf_weaken_plus i c"
| "op_step (OpWeakenPlusOf c) = pf_weaken_plus_of c"
| "op_step (OpDeleteUnit i lit) = pf_delete_unit_clause i lit"
| "op_step (OpFinalize i c) = pf_finalize_clause i c"
| "op_step (OpFinalizeOf c) = pf_finalize_of c"
| "op_step (OpFinalizeUnit i lit) = pf_finalize_unit i lit"
| "op_step (OpFinalizeExternalUnit i lit) = pf_finalize_external_unit i lit"
| "op_step (OpFlush c) = (\<lambda>p. rbind (flush_clause c p) (\<lambda>r. Ok (snd r)))"
| "op_step (OpStrengthenClause c lit chain) = (\<lambda>p. rbind (strengthen_clause c lit chain p) (\<lambda>r. Ok (snd r)))"
| "op_step (OpOtfs c old chain) = (\<lambda>p. rbind (otfs_strengthen_clause c old chain p) (\<lambda>r. Ok (snd r)))"
| "op_step (OpStrengthen i) = pf_strengthen i"
| "op_step OpReset = pf_reset_assumptions"
| "op_step (OpStatus st i) = pf_report_status st i"
| "op_step (OpBegin i) = pf_begin_proof i"
| "op_step OpQuery = pf_solve_query"
| "op_step (OpConcludeUnsat k ids) = pf_conclude_unsat k ids"
| "op_step (OpConcludeSat model) = pf_conclude_sat model"

definition pf_run :: "proof_op list \<Rightarrow> Proof \<Rightarrow> Proof result" where
  "pf_run = rfold op_step"

section \<open>The events of an operation\<close>

text \<open>
  The reference: what each operation announces, a list of events over external literals. \<open>outside\<close> maps a literal,
  \<open>falsified\<close> and \<open>unit_of\<close> read the root level.
\<close>

definition outside :: "Proof \<Rightarrow> int \<Rightarrow> int" where
  "outside p lit = (if lit < 0 then - pf_i2e p ! nat \<bar>lit\<bar> else pf_i2e p ! nat \<bar>lit\<bar>)"

definition falsified :: "Proof \<Rightarrow> int \<Rightarrow> bool" where
  "falsified p lit \<longleftrightarrow> pf_levels p ! nat \<bar>lit\<bar> = 0 \<and> (if lit < 0 then pf_vals p ! nat \<bar>lit\<bar> > 0 else pf_vals p ! nat \<bar>lit\<bar> < 0)"

definition unit_of :: "Proof \<Rightarrow> int \<Rightarrow> nat" where
  "unit_of p lit = pf_units p ! vlit (- lit)"

definition op_events :: "proof_op \<Rightarrow> Proof \<Rightarrow> trace_event list" where
  "op_events o1 p = (let out = map (outside p); new = pf_last_id p + 1;
     gone = (\<lambda>c. EDelete (pc_id c) (pc_redundant c) (out (pc_literals c))) in case o1 of
     OpOriginal i r c \<Rightarrow> [EOriginal i False (out c) False]
   | OpExternalOriginal i r c restore \<Rightarrow> [EOriginal i False c restore]
   | OpDeleteExternal i r c \<Rightarrow> [EDelete i r c]
   | OpDerivedEmpty i chain \<Rightarrow> [EDerived i False [] chain]
   | OpDerivedUnit i lit chain \<Rightarrow> [EDerived i False (out [lit]) chain]
   | OpDerived i r c chain \<Rightarrow> [EDerived i r (out c) chain]
   | OpDerivedOf c chain \<Rightarrow> [EDerived (pc_id c) (pc_redundant c) (out (pc_literals c)) chain]
   | OpAssumptionClause i c chain \<Rightarrow> [EAssumptionClause i c chain]
   | OpAssumptionUnit i lit chain \<Rightarrow> [EAssumptionClause i [lit] chain]
   | OpAssumption a \<Rightarrow> [EAssumption a]
   | OpConstraint c \<Rightarrow> [EConstraint c]
   | OpDelete i r c \<Rightarrow> [EDelete i r (out c)]
   | OpDeleteOf c \<Rightarrow> [gone c]
   | OpWeakenMinus i c \<Rightarrow> [EWeakenMinus i (out c)]
   | OpWeakenMinusOf c \<Rightarrow> [EWeakenMinus (pc_id c) (out (pc_literals c))]
   | OpWeakenPlus i c \<Rightarrow> [EWeakenMinus i (out c), EDelete i False (out c)]
   | OpWeakenPlusOf c \<Rightarrow> [EWeakenMinus (pc_id c) (out (pc_literals c)), gone c]
   | OpDeleteUnit i lit \<Rightarrow> [EDelete i False (out [lit])]
   | OpFinalize i c \<Rightarrow> [EFinalize i (out c)]
   | OpFinalizeOf c \<Rightarrow> [EFinalize (pc_id c) (out (pc_literals c))]
   | OpFinalizeUnit i lit \<Rightarrow> [EFinalize i (out [lit])]
   | OpFinalizeExternalUnit i lit \<Rightarrow> [EFinalize i [lit]]
   | OpFlush c \<Rightarrow> [EDerived new (pc_redundant c) (out (filter (\<lambda>l. \<not> falsified p l) (pc_literals c)))
                       (map (unit_of p) (filter (falsified p) (pc_literals c)) @ [pc_id c]), gone c]
   | OpStrengthenClause c lit chain \<Rightarrow> [EDerived new (pc_redundant c) (out (filter (\<lambda>l. l \<noteq> lit) (pc_literals c))) chain, gone c]
   | OpOtfs c old chain \<Rightarrow>
       [EDerived new (pc_redundant c) (out (pc_literals c)) chain, EDelete (pc_id c) (pc_redundant c) (out old)]
   | OpStrengthen i \<Rightarrow> [EStrengthen i]
   | OpReset \<Rightarrow> [EReset]
   | OpStatus st i \<Rightarrow> [EStatus st i]
   | OpBegin i \<Rightarrow> [EBegin i]
   | OpQuery \<Rightarrow> [EQuery]
   | OpConcludeUnsat k ids \<Rightarrow> [EConcludeUnsat k ids]
   | OpConcludeSat model \<Rightarrow> [EConcludeSat model])"

text \<open>The number of identifiers an operation takes and the internal literals it is given.\<close>

fun op_fresh :: "proof_op \<Rightarrow> nat" where
  "op_fresh (OpFlush c) = 1"
| "op_fresh (OpStrengthenClause c lit chain) = 1"
| "op_fresh (OpOtfs c old chain) = 1"
| "op_fresh _ = 0"

fun op_internal :: "proof_op \<Rightarrow> int list" where
  "op_internal (OpOriginal i r c) = c"
| "op_internal (OpDerivedUnit i lit chain) = [lit]"
| "op_internal (OpDerived i r c chain) = c"
| "op_internal (OpDerivedOf c chain) = pc_literals c"
| "op_internal (OpDelete i r c) = c"
| "op_internal (OpDeleteOf c) = pc_literals c"
| "op_internal (OpWeakenMinus i c) = c"
| "op_internal (OpWeakenMinusOf c) = pc_literals c"
| "op_internal (OpWeakenPlus i c) = c"
| "op_internal (OpWeakenPlusOf c) = pc_literals c"
| "op_internal (OpDeleteUnit i lit) = [lit]"
| "op_internal (OpFinalize i c) = c"
| "op_internal (OpFinalizeOf c) = pc_literals c"
| "op_internal (OpFinalizeUnit i lit) = [lit]"
| "op_internal (OpFlush c) = pc_literals c"
| "op_internal (OpStrengthenClause c lit chain) = pc_literals c"
| "op_internal (OpOtfs c old chain) = pc_literals c @ old"
| "op_internal _ = []"

text \<open>The tables cover the variables up to \<open>length (pf_i2e p) - 1\<close>.\<close>

definition tables_ok :: "Proof \<Rightarrow> bool" where
  "tables_ok p \<longleftrightarrow> length (pf_vals p) = length (pf_i2e p) \<and> length (pf_levels p) = length (pf_i2e p) \<and>
     length (pf_units p) = 2 * length (pf_i2e p)"

definition known :: "Proof \<Rightarrow> int \<Rightarrow> bool" where
  "known p lit \<longleftrightarrow> nat \<bar>lit\<bar> < length (pf_i2e p)"

definition idle :: "Proof \<Rightarrow> bool" where
  "idle p \<longleftrightarrow> pf_clause p = [] \<and> pf_chain p = [] \<and> pf_id p = 0"

section \<open>The operations announce their events\<close>

lemma tables_update [simp]:
  "outside (p\<lparr>pf_clause := c\<rparr>) = outside p" "outside (p\<lparr>pf_chain := ch\<rparr>) = outside p"
  "outside (p\<lparr>pf_tracers := ts\<rparr>) = outside p" "outside (p\<lparr>pf_last_id := n\<rparr>) = outside p"
  "outside (p\<lparr>pf_redundant := r\<rparr>) = outside p" "outside (p\<lparr>pf_id := i\<rparr>) = outside p"
  "known (p\<lparr>pf_clause := c\<rparr>) = known p" "known (p\<lparr>pf_chain := ch\<rparr>) = known p"
  "known (p\<lparr>pf_tracers := ts\<rparr>) = known p" "known (p\<lparr>pf_last_id := n\<rparr>) = known p"
  "known (p\<lparr>pf_redundant := r\<rparr>) = known p" "known (p\<lparr>pf_id := i\<rparr>) = known p"
  "falsified (p\<lparr>pf_clause := c\<rparr>) = falsified p" "falsified (p\<lparr>pf_chain := ch\<rparr>) = falsified p"
  "falsified (p\<lparr>pf_tracers := ts\<rparr>) = falsified p" "unit_of (p\<lparr>pf_tracers := ts\<rparr>) = unit_of p"
  "unit_of (p\<lparr>pf_clause := c\<rparr>) = unit_of p" "unit_of (p\<lparr>pf_chain := ch\<rparr>) = unit_of p"
  "tables_ok (p\<lparr>pf_clause := c\<rparr>) = tables_ok p" "tables_ok (p\<lparr>pf_chain := ch\<rparr>) = tables_ok p"
  by (simp_all add: outside_def known_def falsified_def unit_of_def tables_ok_def fun_eq_iff)

lemma add_literal_eq: "known p lit \<Longrightarrow> add_literal lit p = Ok (p\<lparr>pf_clause := pf_clause p @ [outside p lit]\<rparr>)"
  by (simp add: add_literal_def pf_externalize_def outside_def known_def)

lemma add_filtered:
  assumes "\<forall>l \<in> set c. known p l"
  shows "rfold (\<lambda>lit p. if P lit then Ok p else add_literal lit p) c p =
    Ok (p\<lparr>pf_clause := pf_clause p @ map (outside p) (filter (\<lambda>l. \<not> P l) c)\<rparr>)"
  using assms by (induction c arbitrary: p) (simp_all add: add_literal_eq)

lemma add_literals_eq:
  assumes "\<forall>l \<in> set c. known p l"
  shows "rfold add_literal c p = Ok (p\<lparr>pf_clause := pf_clause p @ map (outside p) c\<rparr>)"
  using add_filtered [OF assms, of "\<lambda>_. False"] by simp

lemma flush_literals_eq:
  assumes "\<forall>l \<in> set c. known p l" "tables_ok p"
  shows "rfold flush_literal c p =
    Ok (p\<lparr>pf_clause := pf_clause p @ map (outside p) (filter (\<lambda>l. \<not> falsified p l) c),
          pf_chain := pf_chain p @ map (unit_of p) (filter (falsified p) c)\<rparr>)"
  using assms
proof (induction c arbitrary: p)
  case (Cons l c)
  let ?v = "nat \<bar>l\<bar>"
  have k: "known p l" "?v < length (pf_vals p)" "?v < length (pf_levels p)" using Cons.prems by (simp_all add: known_def tables_ok_def)
  have "vlit (- l) < length (pf_units p)" using Cons.prems by (auto simp: known_def tables_ok_def vlit_def)
  then have "flush_literal l p = Ok (if falsified p l then p\<lparr>pf_chain := pf_chain p @ [unit_of p l]\<rparr>
      else p\<lparr>pf_clause := pf_clause p @ [outside p l]\<rparr>)"
    using k(2,3) add_literal_eq [OF k(1)]
    by (auto simp: flush_literal_def fixed_val_def falsified_def unit_of_def push_chain_ids_def Let_def)
  then show ?case using Cons.IH Cons.prems by simp
qed simp

lemmas pf_defs = pf_add_original_clause_def pf_add_external_original_clause_def pf_delete_external_original_clause_def
  pf_add_derived_empty_clause_def pf_add_derived_unit_clause_def pf_add_derived_clause_def pf_add_derived_def
  pf_add_assumption_clause_def pf_add_assumption_unit_def pf_add_assumption_def pf_add_constraint_def pf_delete_clause_def
  pf_delete_def pf_weaken_minus_def pf_weaken_minus_of_def pf_weaken_plus_def pf_weaken_plus_of_def
  pf_delete_unit_clause_def pf_finalize_clause_def pf_finalize_of_def pf_finalize_unit_def pf_finalize_external_unit_def
  flush_clause_def strengthen_clause_def otfs_strengthen_clause_def pf_strengthen_def pf_reset_assumptions_def
  pf_report_status_def pf_begin_proof_def pf_solve_query_def pf_conclude_unsat_def pf_conclude_sat_def

lemmas send_defs = send_original_def send_derived_def send_delete_def send_weaken_minus_def send_strengthen_def
  send_finalize_def send_assumption_clause_def send_assumption_def send_constraint_def

lemmas buffer_defs = push_outside_def push_chain_ids_def set_id_def set_redundant_def clear_clause_def next_id_def
  notify_def add_literals_def add_literals_eq add_literal_eq add_filtered flush_literals_eq

fun op_redundant :: "proof_op \<Rightarrow> bool \<Rightarrow> bool" where
  "op_redundant (OpOriginal i r c) _ = r"
| "op_redundant (OpExternalOriginal i r c restore) _ = r"
| "op_redundant (OpDeleteExternal i r c) _ = r"
| "op_redundant (OpDerivedEmpty i chain) _ = False"
| "op_redundant (OpDerivedUnit i lit chain) _ = False"
| "op_redundant (OpDerived i r c chain) _ = r"
| "op_redundant (OpDerivedOf c chain) _ = pc_redundant c"
| "op_redundant (OpDelete i r c) _ = r"
| "op_redundant (OpDeleteOf c) _ = pc_redundant c"
| "op_redundant (OpWeakenPlus i c) _ = False"
| "op_redundant (OpWeakenPlusOf c) _ = pc_redundant c"
| "op_redundant (OpDeleteUnit i lit) _ = False"
| "op_redundant (OpFlush c) _ = pc_redundant c"
| "op_redundant (OpStrengthenClause c lit chain) _ = pc_redundant c"
| "op_redundant (OpOtfs c old chain) _ = pc_redundant c"
| "op_redundant _ r = r"

definition settle :: "proof_op \<Rightarrow> Proof \<Rightarrow> Proof" where
  "settle o1 p = p\<lparr>pf_redundant := op_redundant o1 (pf_redundant p), pf_last_id := pf_last_id p + op_fresh o1\<rparr>"

lemma op_step_eq:
  assumes "idle p" "tables_ok p" "\<forall>l \<in> set (op_internal o1). known p l"
  shows "op_step o1 p =
    rbind (rfold deliver_all (op_events o1 p) (pf_tracers p)) (\<lambda>ts. Ok ((settle o1 p)\<lparr>pf_tracers := ts\<rparr>))"
proof -
  have e: "pf_clause p = []" "pf_chain p = []" "pf_id p = 0" using assms(1) by (simp_all add: idle_def)
  show ?thesis
    using assms(2,3) e
    by (cases o1) (simp_all add: pf_defs send_defs buffer_defs settle_def op_events_def rbind_assoc Let_def,
      (intro rbind_cong refl arg_cong [where f = Ok] Proof.equality; simp)+)
qed

section \<open>Sequences of operations\<close>

fun trace_of :: "proof_op list \<Rightarrow> Proof \<Rightarrow> trace_event list" where
  "trace_of [] p = []"
| "trace_of (o1 # os) p = op_events o1 p @ trace_of os (settle o1 p)"

definition dispatchable :: "Proof \<Rightarrow> proof_op list \<Rightarrow> bool" where
  "dispatchable p os \<longleftrightarrow> idle p \<and> tables_ok p \<and> (\<forall>o1 \<in> set os. \<forall>l \<in> set (op_internal o1). known p l)"

lemma settle_keeps [simp]:
  "pf_tracers (settle o1 p) = pf_tracers p" "settle o1 (p\<lparr>pf_tracers := ts\<rparr>) = (settle o1 p)\<lparr>pf_tracers := ts\<rparr>"
  "idle (settle o1 p) = idle p" "tables_ok (settle o1 p) = tables_ok p" "known (settle o1 p) = known p"
  "idle (p\<lparr>pf_tracers := ts\<rparr>) = idle p" "tables_ok (p\<lparr>pf_tracers := ts\<rparr>) = tables_ok p"
  by (simp_all add: settle_def idle_def tables_ok_def known_def fun_eq_iff)

lemma op_events_tracers [simp]: "op_events o1 (p\<lparr>pf_tracers := ts\<rparr>) = op_events o1 p"
  by (cases o1) (simp_all add: op_events_def)

lemma trace_of_tracers [simp]: "trace_of os (p\<lparr>pf_tracers := ts\<rparr>) = trace_of os p"
  by (induction os arbitrary: p) simp_all

lemma fold_settle_tracers: "fold settle os (p\<lparr>pf_tracers := ts\<rparr>) = (fold settle os p)\<lparr>pf_tracers := ts\<rparr>"
  by (induction os arbitrary: p) simp_all

lemma pf_run_eq:
  assumes "dispatchable p os"
  shows "pf_run os p = rbind (rfold deliver_all (trace_of os p) (pf_tracers p)) (\<lambda>ts. Ok ((fold settle os p)\<lparr>pf_tracers := ts\<rparr>))"
  using assms
proof (induction os arbitrary: p)
  case (Cons o1 os)
  have step: "op_step o1 p =
      rbind (rfold deliver_all (op_events o1 p) (pf_tracers p)) (\<lambda>ts. Ok ((settle o1 p)\<lparr>pf_tracers := ts\<rparr>))"
    using Cons.prems by (intro op_step_eq) (simp_all add: dispatchable_def)
  have "pf_run os ((settle o1 p)\<lparr>pf_tracers := ts\<rparr>) = rbind (rfold deliver_all (trace_of os (settle o1 p)) ts)
      (\<lambda>us. Ok ((fold settle (o1 # os) p)\<lparr>pf_tracers := us\<rparr>))" for ts
    using Cons.IH [of "(settle o1 p)\<lparr>pf_tracers := ts\<rparr>"] Cons.prems by (simp add: dispatchable_def fold_settle_tracers)
  then show ?case using step by (simp add: pf_run_def rbind_assoc rfold_append)
qed (simp add: pf_run_def)

text \<open>What one tracer sees.\<close>

definition seen :: "trace_event list \<Rightarrow> nat \<times> Tracer \<Rightarrow> nat \<times> Tracer \<Rightarrow> bool" where
  "seen es t u \<longleftrightarrow> fst u = fst t \<and> rfold deliver es (snd t) = Ok (snd u)"

lemma deliver_all_iff: "deliver_all e ts = Ok us \<longleftrightarrow> list_all2 (seen [e]) ts us"
proof (induction e ts arbitrary: us rule: deliver_all.induct)
  case (2 e a t ts)
  show ?case
  proof (cases us)
    case (Cons u us')
    then show ?thesis using 2 by (cases u) (auto simp: seen_def rbind_eq_Ok_iff)
  qed (auto simp: rbind_eq_Ok_iff)
qed (auto simp: seen_def)

lemma seen_append: "seen (es @ fs) t u \<longleftrightarrow> (\<exists>s. seen es t s \<and> seen fs s u)"
  by (cases t; cases u) (auto simp: seen_def rfold_append rbind_eq_Ok_iff)

lemma deliver_seq_iff: "rfold deliver_all es ts = Ok us \<longleftrightarrow> list_all2 (seen es) ts us"
proof (induction es arbitrary: ts)
  case Nil
  have "seen [] = (=)" by (auto simp: seen_def fun_eq_iff prod_eq_iff)
  then show ?case by (simp add: list.rel_eq)
next
  case (Cons e es)
  have "seen (e # es) = seen [e] OO seen es"
    using seen_append [of "[e]" es] by (auto simp: fun_eq_iff OO_def)
  then have "list_all2 (seen (e # es)) ts us \<longleftrightarrow> (\<exists>vs. list_all2 (seen [e]) ts vs \<and> list_all2 (seen es) vs us)"
    by (simp add: list.rel_compp relcompp_apply)
  then show ?case using Cons.IH by (simp add: rbind_eq_Ok_iff deliver_all_iff)
qed

lemma pf_run_iff:
  assumes "dispatchable p os"
  shows "pf_run os p = Ok q \<longleftrightarrow>
    list_all2 (seen (trace_of os p)) (pf_tracers p) (pf_tracers q) \<and> q = (fold settle os p)\<lparr>pf_tracers := pf_tracers q\<rparr>"
  using pf_run_eq [OF assms] by (auto simp: rbind_eq_Ok_iff deliver_seq_iff)

lemma rfold_single [simp]: "rfold f [] = Ok"
  by (simp add: fun_eq_iff)

section \<open>What the checker and the DRAT tracer see\<close>

fun ck_view :: "trace_event \<Rightarrow> ck_event list" where
  "ck_view (EOriginal i r c restored) = [CkOriginal i c]"
| "ck_view (EDerived i r c ch) = [CkDerived i c]"
| "ck_view (EDelete i r c) = [CkDelete i c]"
| "ck_view (EAssumptionClause i c ch) = [CkAssumption i c]"
| "ck_view _ = []"

fun drat_view :: "trace_event \<Rightarrow> drat_step list" where
  "drat_view (EDerived i r c ch) = [DratAdd c]"
| "drat_view (EDelete i r c) = [DratDelete c]"
| "drat_view _ = []"

fun event_lits :: "trace_event \<Rightarrow> int list" where
  "event_lits (EOriginal i r c restored) = c"
| "event_lits (EDerived i r c ch) = c"
| "event_lits (EDelete i r c) = c"
| "event_lits (EAssumptionClause i c ch) = c"
| "event_lits _ = []"

fun announced :: "trace_event \<Rightarrow> int list list" where
  "announced (EOriginal i r c restored) = [c]"
| "announced _ = []"

lemma announced_view: "concat (map ck_original (ck_view e)) = announced e" by (cases e) simp_all

lemma deliver_checker:
  "rfold deliver es (TChecker t) = rbind (rfold ck_call (concat (map ck_view es)) t) (\<lambda>t. Ok (TChecker t))"
proof (induction es arbitrary: t)
  case (Cons e es)
  have "deliver e (TChecker t) = rbind (rfold ck_call (ck_view e) t) (\<lambda>t. Ok (TChecker t))" by (cases e) (simp_all add: rbind_assoc)
  then show ?case using Cons.IH by (simp add: rbind_assoc rfold_append)
qed simp

lemma deliver_drat:
  "rfold deliver es (TDrat t) = rbind (rfold drat_trace (concat (map drat_view es)) t) (\<lambda>t. Ok (TDrat t))"
proof (induction es arbitrary: t)
  case (Cons e es)
  have "deliver e (TDrat t) = rbind (rfold drat_trace (drat_view e) t) (\<lambda>t. Ok (TDrat t))" by (cases e) (simp_all add: rbind_assoc)
  then show ?case using Cons.IH by (simp add: rbind_assoc rfold_append)
qed simp

lemma seen_in:
  assumes "list_all2 (seen es) ts us" "(a, t) \<in> set ts"
  obtains u where "(a, u) \<in> set us" "rfold deliver es t = Ok u"
proof -
  obtain i where i: "i < length ts" "ts ! i = (a, t)" using assms(2) by (auto simp: in_set_conv_nth)
  have "seen es (a, t) (us ! i)" using list_all2_nthD [OF assms(1) i(1)] i(2) by simp
  moreover have "us ! i \<in> set us" using i(1) list_all2_lengthD [OF assms(1)] by simp
  ultimately show ?thesis using that by (cases "us ! i") (auto simp: seen_def)
qed

lemma seen_fst: "list_all2 (seen es) ts us \<Longrightarrow> map fst us = map fst ts"
  by (induction ts us rule: list_all2_induct) (simp_all add: seen_def)

lemma checker_accepted:
  assumes "dispatchable p os" "pf_run os p = Ok q" "(a, TChecker new_Checker) \<in> set (pf_tracers p)"
  obtains t where "(a, TChecker t) \<in> set (pf_tracers q)" "ck_run (concat (map ck_view (trace_of os p))) = Ok t"
proof -
  have "list_all2 (seen (trace_of os p)) (pf_tracers p) (pf_tracers q)" using pf_run_iff [OF assms(1)] assms(2) by blast
  from seen_in [OF this assms(3)] show ?thesis
    using that by (auto simp: deliver_checker rbind_eq_Ok_iff ck_run_def)
qed

lemma lit_ok_proof: "lit_ok l \<Longrightarrow> proof_lit l"
  by (simp add: lit_ok_def proof_lit_def INT_MAX_def)

lemma drat_view_ok: "\<forall>l \<in> set (event_lits e). lit_ok l \<Longrightarrow> s \<in> set (drat_view e) \<Longrightarrow> drat_step_ok s"
  by (cases e) (auto simp: list_all_iff lit_ok_proof)

lemma drat_add_view: "DratAdd c \<in> set (drat_view e) \<Longrightarrow> \<exists>k \<in> set (ck_view e). c \<in> set (ck_derived k)"
  by (cases e) auto

lemma ck_view_lits: "k \<in> set (ck_view e) \<Longrightarrow> ck_lits k = event_lits e"
  by (cases e) auto

lemma drat_written:
  assumes "list_all drat_step_ok (concat (map drat_view es))" "rfold deliver es (TDrat (new_DratTracer bin)) = Ok (TDrat d)"
  shows "f_text (drat_file d) = concat (map (drat_text bin) (concat (map drat_view es)))"
  using assms(2) drat_run_ok [OF assms(1), of "new_DratTracer bin"]
  by (auto simp: deliver_drat new_DratTracer_def put_str_eq)

lemma drat_text_unique:
  assumes "concat (map (drat_text bin) ss) = concat (map (drat_text bin) us)" "list_all drat_step_ok ss" "list_all drat_step_ok us"
  shows "ss = us"
proof -
  have "drat_text bin s \<noteq> []" for s by (cases s) (auto simp: clause_text_def drat_end_def binary_zero_def)
  then show ?thesis using prefix_free_concat [OF prefix_free_drat _ assms(2,3,1)] by blast
qed

lemma flush_clause_id:
  assumes "\<forall>l \<in> set (pc_literals c). known p l" "tables_ok p" "flush_clause c p = Ok (d, q)"
  shows "d = c\<lparr>pc_id := pf_last_id p + 1\<rparr>"
proof -
  obtain p1 where p1: "rfold flush_literal (pc_literals c) p = Ok p1" "pf_last_id p1 = pf_last_id p"
    using flush_literals_eq [OF assms(1,2)] by simp
  let ?p2 = "next_id (set_redundant (pc_redundant c) (push_chain_ids [pc_id c] p1))"
  have "rbind (rbind (send_derived (set_id (pf_last_id ?p2) ?p2)) (pf_delete c)) (\<lambda>q. Ok (c\<lparr>pc_id := pf_last_id ?p2\<rparr>, q)) = Ok (d, q)"
    using assms(3) p1(1) by (simp add: flush_clause_def Let_def rbind_assoc)
  then have "d = c\<lparr>pc_id := pf_last_id ?p2\<rparr>" unfolding rbind_eq_Ok_iff by blast
  then show ?thesis using p1(2) by (simp add: next_id_def set_redundant_def push_chain_ids_def)
qed

section \<open>Properties\<close>

text \<open>
  C31. The class \<open>Proof\<close> refines a broadcast of events: on literals the tables know, a sequence of its operations
  returns exactly when every connected tracer takes the whole announced trace by itself, each call in order and once;
  the tracers then are in the states this gives, the identifiers have advanced by the clauses that got a new one, and
  the buffers are empty again, so that no clause leaks into the next one.
\<close>
theorem dispatch_refines:
  assumes "dispatchable p os"
  shows "(pf_run os p = Ok q \<longleftrightarrow>
      list_all2 (\<lambda>(a, t) (b, u). b = a \<and> rfold deliver (trace_of os p) t = Ok u) (pf_tracers p) (pf_tracers q) \<and>
      q = (fold settle os p)\<lparr>pf_tracers := pf_tracers q\<rparr>) \<and>
    (pf_run os p = Ok q \<longrightarrow> dispatchable q os \<and> pf_last_id q = pf_last_id p + sum_list (map op_fresh os))"
proof -
  have s: "seen es = (\<lambda>(a, t) (b, u). b = a \<and> rfold deliver es t = Ok u)" for es by (simp add: seen_def fun_eq_iff)
  have "dispatchable ((fold settle os p)\<lparr>pf_tracers := ts\<rparr>) us \<longleftrightarrow> dispatchable p us" for ts us
    by (induction os arbitrary: p) (simp_all add: dispatchable_def)
  moreover have "pf_last_id (fold settle os p) = pf_last_id p + sum_list (map op_fresh os)"
    by (induction os arbitrary: p) (simp_all add: settle_def)
  ultimately have "pf_run os p = Ok q \<longrightarrow> dispatchable q os \<and> pf_last_id q = pf_last_id p + sum_list (map op_fresh os)"
    using pf_run_iff [OF assms, of q] assms by (metis Proof.select_convs(14) Proof.surjective Proof.update_convs(5))
  then show ?thesis using pf_run_iff [OF assms, of q] unfolding s by blast
qed

definition example_proof :: Proof where
  "example_proof = \<lparr>pf_clause = [], pf_chain = [], pf_id = 0, pf_redundant = False,
     pf_tracers = [(1, TDrat (new_DratTracer False)), (2, TChecker new_Checker)], pf_file_tracers = [1], pf_stat_tracers = [2],
     pf_lrat = False, pf_next = 3, pf_i2e = [0, 5, 7], pf_vals = [0, - 1, 0], pf_levels = [0, 0, 0], pf_units = [0, 0, 0, 2, 0, 0],
     pf_last_id = 2\<rparr>"

definition example_ops :: "proof_op list" where
  "example_ops = [OpExternalOriginal 1 False [5, 7] False, OpExternalOriginal 2 False [- 5] False,
     OpFlush \<lparr>pc_id = 1, pc_redundant = False, pc_literals = [1, 2]\<rparr>]"

lemma example_allowed: "dispatchable example_proof example_ops"
  by (simp add: dispatchable_def idle_def tables_ok_def known_def example_proof_def example_ops_def)

lemma example_trace: "trace_of example_ops example_proof =
  [EOriginal 1 False [5, 7] False, EOriginal 2 False [- 5] False, EDerived 3 False [7] [2, 1], EDelete 1 False [5, 7]]"
  by code_simp

lemma example_ok: "list_all drat_step_ok (concat (map drat_view (trace_of example_ops example_proof)))"
  by (simp add: example_trace proof_lit_def INT_MAX_def)

lemma example_returns:
  obtains q d where "pf_run example_ops example_proof = Ok q" "(1, TDrat d) \<in> set (pf_tracers q)"
    "f_text (drat_file d) = concat (map (drat_text False) [DratAdd [7], DratDelete [5, 7]])"
proof -
  let ?es = "trace_of example_ops example_proof"
  have "(case ck_run [CkOriginal 1 [5, 7], CkOriginal 2 [- 5], CkDerived 3 [7], CkDelete 1 [5, 7]] of Ok t \<Rightarrow> True | Fault e \<Rightarrow> False)"
    by code_simp
  then obtain t where "ck_run (concat (map ck_view ?es)) = Ok t" by (auto simp: example_trace split: result.splits)
  then have t: "rfold deliver ?es (TChecker new_Checker) = Ok (TChecker t)" by (simp add: deliver_checker ck_run_def)
  obtain d where d: "rfold deliver ?es (TDrat (new_DratTracer False)) = Ok (TDrat d)"
    using drat_run_ok [OF example_ok, of "new_DratTracer False"] by (simp add: deliver_drat new_DratTracer_def)
  let ?ts = "[(1, TDrat d), (2, TChecker t)]"
  have "list_all2 (seen ?es) (pf_tracers example_proof) ?ts" using t d by (simp add: seen_def example_proof_def)
  then have "pf_run example_ops example_proof = Ok ((fold settle example_ops example_proof)\<lparr>pf_tracers := ?ts\<rparr>)"
    using pf_run_iff [OF example_allowed] by simp
  moreover have "f_text (drat_file d) = concat (map (drat_text False) [DratAdd [7], DratDelete [5, 7]])"
    using drat_written [OF example_ok d] by (simp add: example_trace)
  moreover have "(1, TDrat d) \<in> set (pf_tracers ((fold settle example_ops example_proof)\<lparr>pf_tracers := ?ts\<rparr>))" by simp
  ultimately show ?thesis by (intro that)
qed

lemma dispatch_refines_witness:
  "case pf_run example_ops example_proof of Ok q \<Rightarrow> pf_last_id q = 3 \<and> pf_clause q = [] | Fault e \<Rightarrow> False"
proof -
  obtain q where q: "pf_run example_ops example_proof = Ok q" using example_returns by blast
  then have "dispatchable q example_ops" "pf_last_id q = pf_last_id example_proof + sum_list (map op_fresh example_ops)"
    using dispatch_refines [OF example_allowed, of q] by blast+
  then show ?thesis using q by (simp add: dispatchable_def idle_def) (simp add: example_proof_def example_ops_def)
qed

text \<open>
  C30. What is written is right: with the DRUP checker and a DRAT tracer connected from the start, when a sequence of
  operations of the solver returns, every clause that a reader of the DRAT file finds as an addition follows from the
  announced original clauses; an empty clause among them means that those are unsatisfiable. The reader is any
  sequence of steps whose text is the file.
\<close>
theorem checked_trace_sound:
  assumes "dispatchable p os" "pf_run os p = Ok q" "distinct (map fst (pf_tracers p))"
    "(a, TChecker new_Checker) \<in> set (pf_tracers p)" "(b, TDrat (new_DratTracer bin)) \<in> set (pf_tracers p)"
    "(b, TDrat d) \<in> set (pf_tracers q)" "\<forall>e \<in> set (trace_of os p). \<forall>l \<in> set (event_lits e). lit_ok l"
    "list_all drat_step_ok us" "f_text (drat_file d) = concat (map (drat_text bin) us)" "DratAdd c \<in> set us"
  shows "entails (concat (map announced (trace_of os p))) c"
proof -
  let ?es = "trace_of os p"
  have col: "list_all2 (seen ?es) (pf_tracers p) (pf_tracers q)" using pf_run_iff [OF assms(1)] assms(2) by blast
  obtain u where u: "(b, u) \<in> set (pf_tracers q)" "rfold deliver ?es (TDrat (new_DratTracer bin)) = Ok u"
    using seen_in [OF col assms(5)] .
  have "u = TDrat d" using eq_key_imp_eq_value [OF _ u(1) assms(6)] assms(3) seen_fst [OF col] by simp
  have "drat_step_ok s" if "e \<in> set ?es" "s \<in> set (drat_view e)" for e s
    by (rule drat_view_ok [OF _ that(2)]) (use that(1) assms(7) in blast)
  then have ok: "list_all drat_step_ok (concat (map drat_view ?es))" by (auto simp: list_all_iff)
  have "concat (map drat_view ?es) = us"
    using drat_text_unique [OF _ ok assms(8)] drat_written [OF ok] u(2) \<open>u = TDrat d\<close> assms(9) by metis
  then obtain e where e: "e \<in> set ?es" "DratAdd c \<in> set (drat_view e)" using assms(10) by auto
  then have c: "c \<in> set (concat (map ck_derived (concat (map ck_view ?es))))" using e(1) drat_add_view [OF e(2)] by fastforce
  obtain t where t: "ck_run (concat (map ck_view ?es)) = Ok t" using checker_accepted [OF assms(1,2,4)] .
  have "\<forall>l \<in> set (ck_lits k). lit_ok l" if "e \<in> set ?es" "k \<in> set (ck_view e)" for e k
    using that assms(7) ck_view_lits by fastforce
  then have lits: "ck_lits_ok (concat (map ck_view ?es))" by (auto simp: ck_lits_ok_def)
  have "concat (map ck_original (concat (map ck_view es))) = concat (map announced es)" for es
    by (induction es) (simp_all add: announced_view)
  then show ?thesis using ck_run_ok(3) [OF t lits] c by (auto simp: entails_def list_all_iff)
qed

lemma checked_trace_sound_witness: "entails [[5, 7], [- 5]] [7]"
proof -
  obtain q d where q: "pf_run example_ops example_proof = Ok q" "(1, TDrat d) \<in> set (pf_tracers q)"
    "f_text (drat_file d) = concat (map (drat_text False) [DratAdd [7], DratDelete [5, 7]])" using example_returns .
  have "entails (concat (map announced (trace_of example_ops example_proof))) [7]"
    by (rule checked_trace_sound [OF example_allowed q(1) _ _ _ q(2) _ _ q(3)])
      (simp_all add: example_trace, simp_all add: example_proof_def lit_ok_def proof_lit_def INT_MAX_def)
  then show ?thesis by (simp add: example_trace)
qed

text \<open>
  Flushing a clause is never refused: when the clause and the root units of its falsified literals are live in the
  DRUP checker, the checker accepts the clause without the falsified literals that \<open>flush_clause\<close> announces. The
  operation gives the clause the next identifier and leaves its literals to the caller.
\<close>
theorem flush_accepted:
  assumes "dispatchable p [OpFlush c]" "ck_run es = Ok t" "ck_lits_ok es"
    "set (map (outside p) (pc_literals c)) \<in> live_clauses es" "\<forall>l \<in> set (pc_literals c). lit_ok (outside p l)"
    "\<forall>l \<in> set (pc_literals c). falsified p l \<longrightarrow> {- outside p l} \<in> live_clauses es"
  shows "(\<exists>u. deliver (hd (op_events (OpFlush c) p)) (TChecker t) = Ok u) \<and>
    (\<forall>d q. flush_clause c p = Ok (d, q) \<longrightarrow>
       d = c\<lparr>pc_id := pf_last_id p + 1\<rparr> \<and> q = (settle (OpFlush c) p)\<lparr>pf_tracers := pf_tracers q\<rparr>)"
proof -
  let ?F = "live_clauses es" and ?rest = "map (outside p) (filter (\<lambda>l. \<not> falsified p l) (pc_literals c))"
  have "implied ?F (uminus ` set ?rest) (- outside p l)" if "l \<in> set (pc_literals c)" for l
  proof (cases "falsified p l")
    case True
    then show ?thesis using assms(6) that by (auto intro!: implied.unit [of "{- outside p l}"])
  next
    case False
    then show ?thesis using that by (auto intro!: implied.assumption)
  qed
  then have "refuted ?F (uminus ` set ?rest)" unfolding refuted_def using assms(4) by (intro disjI2 bexI) auto
  then obtain u where "ck_add_derived_clause (pf_last_id p + 1) ?rest t = Ok u"
    using derived_accepted [OF assms(2,3), of ?rest] assms(5) by fastforce
  then have "\<exists>u. deliver (hd (op_events (OpFlush c) p)) (TChecker t) = Ok u" by (simp add: op_events_def Let_def)
  moreover have "d = c\<lparr>pc_id := pf_last_id p + 1\<rparr> \<and> q = (settle (OpFlush c) p)\<lparr>pf_tracers := pf_tracers q\<rparr>"
    if run: "flush_clause c p = Ok (d, q)" for d q
  proof
    have "pf_run [OpFlush c] p = Ok q" using run by (simp add: pf_run_def)
    then have "q = (fold settle [OpFlush c] p)\<lparr>pf_tracers := pf_tracers q\<rparr>" unfolding pf_run_iff [OF assms(1)] by blast
    then show "q = (settle (OpFlush c) p)\<lparr>pf_tracers := pf_tracers q\<rparr>" by (simp del: settle_keeps)
    show "d = c\<lparr>pc_id := pf_last_id p + 1\<rparr>" by (rule flush_clause_id [OF _ _ run]) (use assms(1) in \<open>simp_all add: dispatchable_def\<close>)
  qed
  ultimately show ?thesis by blast
qed

lemma flush_accepted_witness: "\<exists>u. rbind (ck_run [CkOriginal 1 [5, 7], CkOriginal 2 [- 5]]) (ck_add_derived_clause 3 [7]) = Ok u"
proof -
  let ?c = "\<lparr>pc_id = 1, pc_redundant = False, pc_literals = [1, 2]\<rparr>" and ?es = "[CkOriginal 1 [5, 7], CkOriginal 2 [- 5]]"
  have o: "outside example_proof 1 = 5" "outside example_proof 2 = 7" "falsified example_proof 1" "\<not> falsified example_proof 2"
    by (simp_all add: outside_def falsified_def example_proof_def)
  have "(case ck_run ?es of Ok t \<Rightarrow> True | Fault e \<Rightarrow> False)" by code_simp
  then obtain t where t: "ck_run ?es = Ok t" by (auto split: result.splits)
  have "\<exists>u. deliver (hd (op_events (OpFlush ?c) example_proof)) (TChecker t) = Ok u"
    by (rule flush_accepted [THEN conjunct1, OF _ t])
      (use example_allowed o in \<open>auto simp: dispatchable_def example_ops_def ck_lits_ok_def lit_ok_def live_clauses_def\<close>)
  then show ?thesis using t o by (auto simp: op_events_def rbind_eq_Ok_iff Let_def) (simp add: example_proof_def)
qed
end
