(* ===== verification/Extension.thy ===== *)
theory Extension
  imports Cadical_Api
begin

text \<open>
  The extension stack of CaDiCaL (\<open>extend.cpp\<close>, with the marks and maps of \<open>external.hpp\<close> and
  \<open>External::init\<close>): clauses that inprocessing removed are pushed with witness literals, and
  \<open>External::extend\<close> goes back over the stack and repairs the assignment of the internal solver.

  An iterator that moves backwards over the vector is the reversed list of the elements before it, one
  that moves forwards the list of the elements after it; reading past either end is
  \<open>OutOfBounds\<close>. The main theorem says that \<open>extend\<close> turns a model of the remaining clauses into a
  model of the removed ones if every pushed clause was redundant with its witness.
\<close>

section \<open>State\<close>

record Stack =
  base :: External
  e2i :: "int list"
  i2e :: "int list"
  extension :: "int list"
  witness :: "bool list"

definition upd_base :: "(External \<Rightarrow> External) \<Rightarrow> Stack \<Rightarrow> Stack" where
  "upd_base f x = x\<lparr>base := f (base x)\<rparr>"

definition new_Stack :: Stack where
  "new_Stack = \<lparr>base = \<lparr>max_var = 0, extended = False, assumptions = [], constraint = [], vals = []\<rparr>,
     e2i = [], i2e = [], extension = [], witness = []\<rparr>"

text \<open>
  \<open>External::init\<close>: the new variables get the next internal variables; the number of internal
  variables is the length of \<open>i2e\<close> without its entry 0.
\<close>

definition init_vars :: "int \<Rightarrow> Stack \<Rightarrow> Stack" where
  "init_vars new_max x =
     (if new_max \<le> max_var (base x) then x
      else let old = nat (max_var (base x)); fresh = map int [Suc old..<Suc (nat new_max)];
               i2e' = (if old = 0 then i2e x @ [0] else i2e x);
               e2i' = (if old = 0 then e2i x @ [0] else e2i x)
           in (upd_base (\<lambda>b. b\<lparr>max_var := new_max\<rparr>) x)
                \<lparr>e2i := e2i' @ map int [length i2e'..<length i2e' + length fresh], i2e := i2e' @ fresh\<rparr>)"

definition elit2ulit :: "int \<Rightarrow> nat" where
  "elit2ulit elit = u32 (2 * (\<bar>elit\<bar> - 1) + (if elit < 0 then 1 else 0))"

definition marked_lit :: "bool list \<Rightarrow> int \<Rightarrow> bool" where
  "marked_lit tab elit = (let u = elit2ulit elit in if u < length tab then tab ! u else False)"

definition mark_lit :: "int \<Rightarrow> bool list \<Rightarrow> bool list" where
  "mark_lit elit tab =
     (let u = elit2ulit elit; tab = (if u \<ge> length tab then vec_resize tab (u + 1) False else tab) in tab[u := True])"

definition unmark_lit :: "int \<Rightarrow> bool list \<Rightarrow> bool list" where
  "unmark_lit elit tab = (let u = elit2ulit elit in if u < length tab then tab[u := False] else tab)"

definition externalize :: "int \<Rightarrow> Stack \<Rightarrow> int result" where
  "externalize lit x = rbind (vec_at (i2e x) (nat \<bar>lit\<bar>)) (\<lambda>r. Ok (if lit < 0 then - r else r))"

section \<open>Pushing\<close>

definition push_int :: "int \<Rightarrow> Stack \<Rightarrow> Stack" where
  "push_int l x = x\<lparr>extension := extension x @ [l]\<rparr>"

definition push_zero :: "Stack \<Rightarrow> Stack" where
  "push_zero = push_int 0"

text \<open>
  \<open>higher_bits = static_cast<int> (id << 32)\<close> and \<open>lower_bits = id & 0xffffffff\<close>, both unsigned,
  pushed on a vector of \<open>int\<close>.
\<close>

definition higher_bits :: "nat \<Rightarrow> nat" where
  "higher_bits i = u32 (i32 ((int i * 2 ^ 32) mod 2 ^ 64))"

definition lower_bits :: "nat \<Rightarrow> nat" where
  "lower_bits i = u32 (int i)"

definition push_id :: "nat \<Rightarrow> Stack \<Rightarrow> Stack" where
  "push_id i x = push_int (i32 (int (lower_bits i))) (push_int (i32 (int (higher_bits i))) x)"

definition push_clause_literal :: "int \<Rightarrow> Stack \<Rightarrow> Stack result" where
  "push_clause_literal ilit x = rbind (externalize ilit x) (\<lambda>elit. Ok (push_int elit x))"

definition push_witness_literal :: "int \<Rightarrow> Stack \<Rightarrow> Stack result" where
  "push_witness_literal ilit x =
     rbind (externalize ilit x) (\<lambda>elit.
       let x = push_int elit x in
       if marked_lit (witness x) elit then Ok x else Ok (x\<lparr>witness := mark_lit elit (witness x)\<rparr>))"

definition push_clause :: "nat \<Rightarrow> int list \<Rightarrow> Stack \<Rightarrow> Stack result" where
  "push_clause i c x = rfold push_clause_literal c (push_zero (push_id i (push_zero x)))"

definition push_clause_with_pivot :: "nat \<Rightarrow> int list \<Rightarrow> int \<Rightarrow> Stack \<Rightarrow> Stack result" where
  "push_clause_with_pivot i c pivot x =
     rbind (push_witness_literal pivot (push_zero x)) (push_clause i c)"

definition push_binary_clause :: "nat \<Rightarrow> int \<Rightarrow> int \<Rightarrow> Stack \<Rightarrow> Stack result" where
  "push_binary_clause i pivot other x =
     rbind (push_witness_literal pivot (push_zero x)) (\<lambda>x.
     rbind (push_clause_literal pivot (push_zero (push_id i (push_zero x)))) (\<lambda>x.
       push_clause_literal other x))"

definition push_external :: "int list \<Rightarrow> int list \<Rightarrow> nat \<Rightarrow> Stack \<Rightarrow> Stack" where
  "push_external c w i x =
     (let x = fold (\<lambda>elit x. let x = push_int elit (init_vars \<bar>elit\<bar> x) in x\<lparr>witness := mark_lit elit (witness x)\<rparr>)
                w (push_int 0 x);
          x = push_int 0 (push_id i (push_int 0 x))
      in fold (\<lambda>elit x. push_int elit (init_vars \<bar>elit\<bar> x)) c x)"

section \<open>Extending an assignment\<close>

text \<open>The first loop: the values of the internal literals are copied; \<open>ival\<close> of the engine is \<open>engval\<close>.\<close>

definition copy_value :: "(int \<Rightarrow> int) \<Rightarrow> int list \<Rightarrow> nat \<Rightarrow> bool list \<Rightarrow> bool list result" where
  "copy_value engval tab i vs =
     rbind (vec_at tab i) (\<lambda>ilit.
       if ilit = 0 then Ok vs
       else let vs = (if i \<ge> length vs then vec_resize vs (i + 1) False else vs)
            in Ok (vs[i := engval ilit > 0]))"

definition copy_values :: "(int \<Rightarrow> int) \<Rightarrow> Stack \<Rightarrow> Stack result" where
  "copy_values engval x =
     rbind (rfold (copy_value engval (e2i x)) [1..<Suc (nat (max_var (base x)))] (vals (base x))) (\<lambda>vs.
       Ok (upd_base (\<lambda>b. b\<lparr>vals := vs\<rparr>) x))"

text \<open>The loop over a clause; the result is the rest and whether a literal is satisfied.\<close>

fun scan_clause :: "External \<Rightarrow> int list \<Rightarrow> bool \<Rightarrow> (int list \<times> bool) result" where
  "scan_clause b [] sat = Fault OutOfBounds"
| "scan_clause b (lit # rest) sat =
     (if lit = 0 then Ok (rest, sat) else scan_clause b rest (sat \<or> ival b lit > 0))"

fun skip_witness :: "int list \<Rightarrow> int list result" where
  "skip_witness [] = Fault OutOfBounds"
| "skip_witness (lit # rest) = (if lit = 0 then Ok rest else skip_witness rest)"

definition flip_lit :: "int \<Rightarrow> External \<Rightarrow> External" where
  "flip_lit lit b =
     (if ival b lit < 0
      then let i = nat \<bar>lit\<bar>; vs = (if i \<ge> length (vals b) then vec_resize (vals b) (i + 1) False else vals b)
           in b\<lparr>vals := vs[i := \<not> vs ! i]\<rparr>
      else b)"

fun flip_witness :: "External \<Rightarrow> int list \<Rightarrow> (int list \<times> External) result" where
  "flip_witness b [] = Fault OutOfBounds"
| "flip_witness b (lit # rest) = (if lit = 0 then Ok (rest, b) else flip_witness (flip_lit lit b) rest)"

text \<open>One round of the outer loop: a clause, the two halves of its identifier, a zero and the witness.\<close>

fun extend_round :: "int list \<times> External \<Rightarrow> (int list \<times> External) result" where
  "extend_round (stack, b) =
     rbind (scan_clause b stack False) (\<lambda>(rest, sat).
       case rest of
         lo # hi # z # rest \<Rightarrow>
           if sat then rbind (skip_witness rest) (\<lambda>rest. Ok (rest, b)) else flip_witness b rest
       | _ \<Rightarrow> Fault OutOfBounds)"

definition extend :: "(int \<Rightarrow> int) \<Rightarrow> Stack \<Rightarrow> Stack result" where
  "extend engval x =
     rbind (copy_values engval x) (\<lambda>x.
     rbind (rwhile (\<lambda>(stack, b). stack \<noteq> []) extend_round (rev (extension x), base x)) (\<lambda>(stack, b).
       Ok (x\<lparr>base := b\<lparr>extended := True\<rparr>\<rparr>)))"

definition model_of :: "Stack \<Rightarrow> int list" where
  "model_of x = map (\<lambda>i. if ival (base x) i < 0 then - i else i) (map int [1..<Suc (nat (max_var (base x)))])"

section \<open>Traversing the stack\<close>

text \<open>
  The identifier of a clause, put together from two entries of type \<open>int\<close>: the conversion
  to 64 bits extends the sign.
\<close>

definition read_id :: "int \<Rightarrow> int \<Rightarrow> nat" where
  "read_id hi lo = nat ((hi mod 2 ^ 64 * 2 ^ 32 + lo mod 2 ^ 64) mod 2 ^ 64)"

fun read_lits :: "int list \<Rightarrow> (int list \<times> int list) result" where
  "read_lits [] = Fault OutOfBounds"
| "read_lits (lit # rest) =
     (if lit = 0 then Ok ([], rest) else rbind (read_lits rest) (\<lambda>(ls, rest). Ok (lit # ls, rest)))"

type_synonym 's visitor = "int list \<Rightarrow> int list \<Rightarrow> nat \<Rightarrow> 's \<Rightarrow> bool \<times> 's"

fun backward_round :: "'s visitor \<Rightarrow> int list \<times> bool \<times> 's \<Rightarrow> (int list \<times> bool \<times> 's) result" where
  "backward_round it (stack, go, s) =
     rbind (read_lits stack) (\<lambda>(c, rest).
       case rest of
         lo # hi # z # rest \<Rightarrow>
           rbind (read_lits rest) (\<lambda>(w, rest). Ok (rest, it (rev c) (rev w) (read_id hi lo) s))
       | _ \<Rightarrow> Fault OutOfBounds)"

text \<open>Nothing is visited once the internal solver knows that the formula is unsatisfiable.\<close>

definition traverse_backward :: "bool \<Rightarrow> 's visitor \<Rightarrow> int list \<Rightarrow> 's \<Rightarrow> (bool \<times> 's) result" where
  "traverse_backward unsat it ext s =
     (if unsat then Ok (True, s) else rbind (rwhile (\<lambda>(stack, go, s). stack \<noteq> [] \<and> go) (backward_round it) (rev ext, True, s)) (\<lambda>(stack, r). Ok r))"

text \<open>The last clause ends with the vector, the others with the zero of the next witness.\<close>

fun read_clause :: "int list \<Rightarrow> int list \<times> int list" where
  "read_clause [] = ([], [])"
| "read_clause (lit # rest) = (if lit = 0 then ([], rest) else (let (ls, rest) = read_clause rest in (lit # ls, rest)))"

fun forward_round :: "'s visitor \<Rightarrow> int list \<times> bool \<times> 's \<Rightarrow> (int list \<times> bool \<times> 's) result" where
  "forward_round it (stack, go, s) =
     rbind (read_lits stack) (\<lambda>(w, rest).
       case rest of
         hi # lo # z # rest \<Rightarrow> (let (c, rest) = read_clause rest in Ok (rest, it c w (read_id hi lo) s))
       | _ \<Rightarrow> Fault OutOfBounds)"

definition traverse_forward :: "bool \<Rightarrow> 's visitor \<Rightarrow> int list \<Rightarrow> 's \<Rightarrow> (bool \<times> 's) result" where
  "traverse_forward unsat it ext s =
     (if unsat \<or> ext = [] then Ok (True, s)
      else rbind (forward_round it (tl ext, True, s)) (\<lambda>p.
           rbind (rwhile (\<lambda>(stack, go, s). stack \<noteq> [] \<and> go) (forward_round it) p) (\<lambda>(stack, r). Ok r)))"

section \<open>The stack as a list of entries\<close>

type_synonym stack_entry = "int list \<times> nat \<times> int list"

definition entry_enc :: "stack_entry \<Rightarrow> int list" where
  "entry_enc e = (case e of (w, i, c) \<Rightarrow>
     0 # w @ [0, i32 (int (higher_bits i)), i32 (int (lower_bits i)), 0] @ c)"

definition stack_enc :: "stack_entry list \<Rightarrow> int list" where
  "stack_enc es = concat (map entry_enc es)"

definition lits_in :: "int \<Rightarrow> int list \<Rightarrow> bool" where
  "lits_in n c \<longleftrightarrow> (\<forall>l \<in> set c. l \<noteq> 0 \<and> \<bar>l\<bar> \<le> n)"

definition entries_in :: "int \<Rightarrow> stack_entry list \<Rightarrow> bool" where
  "entries_in n es \<longleftrightarrow> (\<forall>(w, i, c) \<in> set es. lits_in n w \<and> lits_in n c)"

lemma lits_in_simps [simp]:
  "lits_in n []" "lits_in n (l # c) \<longleftrightarrow> l \<noteq> 0 \<and> \<bar>l\<bar> \<le> n \<and> lits_in n c" "lits_in n (rev c) \<longleftrightarrow> lits_in n c"
  "lits_in n (c @ d) \<longleftrightarrow> lits_in n c \<and> lits_in n d"
  by (auto simp: lits_in_def)

text \<open>The functions that push a clause with a pivot append one entry.\<close>

lemma push_literals:
  assumes "\<forall>l \<in> set c. nat \<bar>l\<bar> < length (i2e x)"
  shows "rfold push_clause_literal c x =
    Ok (x\<lparr>extension := extension x @ map (\<lambda>l. the_ok (externalize l x)) c\<rparr>)"
  using assms
proof (induction c arbitrary: x)
  case (Cons l c)
  let ?y = "push_int (the_ok (externalize l x)) x"
  have "push_clause_literal l x = Ok ?y"
    using Cons.prems by (simp add: push_clause_literal_def externalize_def)
  moreover have "externalize k ?y = externalize k x" for k
    by (simp add: externalize_def push_int_def)
  ultimately show ?case using Cons.IH [of ?y] Cons.prems by (simp add: push_int_def)
qed simp

lemma push_pivot_entry:
  assumes "nat \<bar>p\<bar> < length (i2e x)" "\<forall>l \<in> set c. nat \<bar>l\<bar> < length (i2e x)"
  shows "\<exists>y. push_clause_with_pivot i c p x = Ok y \<and> extension y = extension x @
    entry_enc ([the_ok (externalize p x)], i, map (\<lambda>l. the_ok (externalize l x)) c)"
proof -
  define e where "e = the_ok (externalize p x)"
  define tab where "tab = (if marked_lit (witness x) e then witness x else mark_lit e (witness x))"
  have ext: "externalize p (push_zero x) = Ok e"
    using assms(1) by (simp add: externalize_def push_zero_def push_int_def e_def)
  have y: "push_witness_literal p (push_zero x) = Ok (x\<lparr>extension := extension x @ [0, e], witness := tab\<rparr>)"
    unfolding push_witness_literal_def ext by (cases x) (simp add: push_zero_def push_int_def Let_def tab_def)
  define y where "y = x\<lparr>extension := extension x @ [0, e], witness := tab\<rparr>"
  define z where "z = push_zero (push_id i (push_zero y))"
  have z: "i2e z = i2e x" "extension z = extension x @
      [0, e, 0, i32 (int (higher_bits i)), i32 (int (lower_bits i)), 0]"
    by (simp_all add: z_def y_def push_zero_def push_id_def push_int_def)
  have "externalize l z = externalize l x" for l using z(1) by (simp add: externalize_def)
  then have "push_clause i c y = Ok (z\<lparr>extension := extension z @ map (\<lambda>l. the_ok (externalize l x)) c\<rparr>)"
    using push_literals [of c z] assms(2) z(1) by (simp add: push_clause_def z_def)
  then show ?thesis
    using y z(2) by (simp add: push_clause_with_pivot_def y_def entry_enc_def e_def)
qed

section \<open>The loops on an entry\<close>

lemma scan_clause_ok:
  "0 \<notin> set c \<Longrightarrow> scan_clause b (c @ 0 # rest) sat = Ok (rest, sat \<or> (\<exists>l \<in> set c. ival b l > 0))"
  by (induction c arbitrary: sat) auto

lemma skip_witness_ok: "0 \<notin> set w \<Longrightarrow> skip_witness (w @ 0 # rest) = Ok rest"
  by (induction w) auto

lemma flip_witness_ok: "0 \<notin> set w \<Longrightarrow> flip_witness b (w @ 0 # rest) = Ok (rest, fold flip_lit w b)"
  by (induction w arbitrary: b) auto

lemma read_lits_ok: "0 \<notin> set c \<Longrightarrow> read_lits (c @ 0 # rest) = Ok (c, rest)"
  by (induction c) auto

definition extend_entry :: "stack_entry \<Rightarrow> External \<Rightarrow> External" where
  "extend_entry e b = (case e of (w, i, c) \<Rightarrow>
     if \<exists>l \<in> set c. ival b l > 0 then b else fold flip_lit (rev w) b)"

lemma rev_stack_enc:
  "rev (stack_enc (es @ [(w, i, c)])) = rev c @ 0 # i32 (int (lower_bits i)) # i32 (int (higher_bits i)) # 0 #
     rev w @ 0 # rev (stack_enc es)"
  by (simp add: stack_enc_def entry_enc_def)

lemma extend_loop:
  "entries_in n es \<Longrightarrow> rwhile (\<lambda>(stack, b). stack \<noteq> []) extend_round (rev (stack_enc es), b) =
     Ok ([], fold extend_entry (rev es) b)"
proof (induction es arbitrary: b rule: rev_induct)
  case Nil
  show ?case by (subst rwhile_unfold) (simp add: stack_enc_def)
next
  case (snoc e es)
  obtain w i c where e: "e = (w, i, c)" by (cases e) auto
  have z: "0 \<notin> set (rev c)" "0 \<notin> set (rev w)" "entries_in n es"
    using snoc.prems e by (auto simp: entries_in_def lits_in_def)
  have "extend_round (rev (stack_enc (es @ [e])), b) = Ok (rev (stack_enc es), extend_entry e b)"
    using z by (simp add: e rev_stack_enc scan_clause_ok skip_witness_ok flip_witness_ok extend_entry_def)
  moreover have "rev (stack_enc (es @ [e])) \<noteq> []" by (simp add: e rev_stack_enc)
  ultimately show ?case using snoc.IH [OF z(3), of "extend_entry e b"] by (subst rwhile_unfold) simp
qed

section \<open>Assignments\<close>

definition set_lit :: "int \<Rightarrow> assignment \<Rightarrow> assignment" where
  "set_lit l \<sigma> = \<sigma>(nat \<bar>l\<bar> := 0 < l)"

lemma ival_holds:
  "l \<noteq> 0 \<Longrightarrow> \<bar>l\<bar> \<le> max_var b \<Longrightarrow>
   (ival b l > 0 \<longleftrightarrow> holds (assignment_of (vals b)) l) \<and> (ival b l < 0 \<longleftrightarrow> \<not> holds (assignment_of (vals b)) l)"
  by (auto simp: ival_def holds_def assignment_of_def Let_def)

lemma flip_lit_ok:
  assumes "l \<noteq> 0" "\<bar>l\<bar> \<le> max_var b"
  shows "max_var (flip_lit l b) = max_var b \<and>
    assignment_of (vals (flip_lit l b)) = set_lit l (assignment_of (vals b))"
proof -
  define i where "i = nat \<bar>l\<bar>"
  define vs where "vs = (if i \<ge> length (vals b) then vec_resize (vals b) (i + 1) False else vals b)"
  have vs: "i < length vs" "assignment_of vs = assignment_of (vals b)"
    by (auto simp: vs_def assignment_of_def fun_eq_iff nth_vec_resize split: if_splits)
  have at: "vs ! i \<longleftrightarrow> assignment_of (vals b) i" using vs by (metis assignment_of_def)
  have upd: "assignment_of (vs[i := v]) = (assignment_of (vals b))(i := v)" for v
    using vs by (auto simp: assignment_of_def fun_eq_iff nth_list_update)
  show ?thesis
  proof (cases "ival b l < 0")
    case True
    then have "\<not> holds (assignment_of (vals b)) l" using ival_holds [OF assms] by simp
    then have "(\<not> vs ! i) = (0 < l)"
      using at assms(1) by (auto simp: holds_def i_def split: if_splits)
    then show ?thesis using True upd [of "\<not> vs ! i"]
      by (simp add: flip_lit_def Let_def i_def [symmetric] vs_def [symmetric] set_lit_def)
  next
    case False
    then have "holds (assignment_of (vals b)) l" using ival_holds [OF assms] by simp
    then have "assignment_of (vals b) i = (0 < l)"
      using assms(1) by (auto simp: holds_def i_def split: if_splits)
    then have "set_lit l (assignment_of (vals b)) = assignment_of (vals b)"
      by (auto simp: set_lit_def i_def [symmetric] fun_eq_iff)
    then show ?thesis using False by (simp add: flip_lit_def)
  qed
qed

lemma flip_lits_ok:
  "lits_in (max_var b) w \<Longrightarrow> max_var (fold flip_lit w b) = max_var b \<and>
    assignment_of (vals (fold flip_lit w b)) = fold set_lit w (assignment_of (vals b))"
  by (induction w arbitrary: b) (simp_all add: flip_lit_ok)

text \<open>A clause is redundant with a witness if making the witness true repairs every model of the
  other clauses that falsifies it.\<close>

definition redundant :: "int list list \<Rightarrow> int list \<Rightarrow> int list \<Rightarrow> bool" where
  "redundant F w c \<longleftrightarrow> (\<forall>\<sigma>. list_all (sat_clause \<sigma>) F \<longrightarrow> \<not> sat_clause \<sigma> c \<longrightarrow>
     list_all (sat_clause (fold set_lit (rev w) \<sigma>)) (c # F))"

text \<open>The entries in the order in which they are undone, each redundant for the clauses that are there then.\<close>

fun justified :: "int list list \<Rightarrow> stack_entry list \<Rightarrow> bool" where
  "justified F [] \<longleftrightarrow> True"
| "justified F ((w, i, c) # es) \<longleftrightarrow> redundant F w c \<and> justified (c # F) es"

lemma extend_entry_ok:
  assumes "lits_in (max_var b) w" "lits_in (max_var b) c" "redundant F w c"
    "list_all (sat_clause (assignment_of (vals b))) F"
  shows "max_var (extend_entry (w, i, c) b) = max_var b \<and>
    list_all (sat_clause (assignment_of (vals (extend_entry (w, i, c) b)))) (c # F)"
proof -
  have sat: "(\<exists>l \<in> set c. ival b l > 0) \<longleftrightarrow> sat_clause (assignment_of (vals b)) c"
    using assms(2) ival_holds [of _ b] by (auto simp: sat_clause_def list_ex_iff lits_in_def)
  then show ?thesis
    using assms(3,4) flip_lits_ok [of b "rev w"] assms(1)
    by (cases "sat_clause (assignment_of (vals b)) c") (simp_all add: extend_entry_def redundant_def)
qed

lemma extend_entries_ok:
  assumes "entries_in (max_var b) es" "justified F es" "list_all (sat_clause (assignment_of (vals b))) F"
  shows "list_all (sat_clause (assignment_of (vals (fold extend_entry es b)))) (map (\<lambda>(w, i, c). c) es @ F)"
  using assms
proof (induction es arbitrary: F b)
  case (Cons e es)
  obtain w i c where e: "e = (w, i, c)" by (cases e) auto
  have "max_var (extend_entry e b) = max_var b"
    "list_all (sat_clause (assignment_of (vals (extend_entry e b)))) (c # F)"
    using extend_entry_ok [of b w c F i] Cons.prems e by (auto simp: entries_in_def)
  then show ?case
    using Cons.IH [of "extend_entry e b" "c # F"] Cons.prems e by (auto simp: entries_in_def)
qed simp

text \<open>The values the internal solver gives to the external variables.\<close>

definition copied :: "(int \<Rightarrow> int) \<Rightarrow> Stack \<Rightarrow> assignment" where
  "copied engval x i \<longleftrightarrow>
     (if 0 < i \<and> i \<le> nat (max_var (base x)) \<and> e2i x ! i \<noteq> 0 then engval (e2i x ! i) > 0
      else assignment_of (vals (base x)) i)"

lemma copy_value_ok:
  assumes "i < length tab"
  shows "\<exists>us. copy_value engval tab i vs = Ok us \<and>
    assignment_of us = (if tab ! i = 0 then assignment_of vs else (assignment_of vs)(i := engval (tab ! i) > 0))"
proof -
  define us where "us = (if i \<ge> length vs then vec_resize vs (i + 1) False else vs)"
  have us: "i < length us" "assignment_of us = assignment_of vs"
    by (auto simp: us_def assignment_of_def fun_eq_iff nth_vec_resize split: if_splits)
  have "assignment_of (us[i := v]) = (assignment_of vs)(i := v)" for v
    using us by (auto simp: assignment_of_def fun_eq_iff nth_list_update)
  then show ?thesis
    using assms by (cases "tab ! i = 0") (simp_all add: copy_value_def Let_def us_def [symmetric])
qed

lemma copy_loop:
  assumes "\<forall>i \<in> set ns. i < length tab" "distinct ns"
  shows "\<exists>us. rfold (copy_value engval tab) ns vs = Ok us \<and> (\<forall>i. assignment_of us i \<longleftrightarrow>
    (if i \<in> set ns \<and> tab ! i \<noteq> 0 then engval (tab ! i) > 0 else assignment_of vs i))"
  using assms
proof (induction ns arbitrary: vs)
  case (Cons i js)
  obtain us where us: "copy_value engval tab i vs = Ok us"
    "assignment_of us = (if tab ! i = 0 then assignment_of vs else (assignment_of vs)(i := engval (tab ! i) > 0))"
    using copy_value_ok [of i tab engval vs] Cons.prems by auto
  obtain ws where ws: "rfold (copy_value engval tab) js us = Ok ws" "\<forall>i. assignment_of ws i \<longleftrightarrow>
      (if i \<in> set js \<and> tab ! i \<noteq> 0 then engval (tab ! i) > 0 else assignment_of us i)"
    using Cons.IH [of us] Cons.prems by auto
  have "i \<notin> set js" using Cons.prems by simp
  then show ?case using us ws by auto
qed simp

lemma copy_values_ok:
  assumes "nat (max_var (base x)) < length (e2i x)"
  shows "\<exists>y. copy_values engval x = Ok y \<and> max_var (base y) = max_var (base x) \<and>
    extension y = extension x \<and> assignment_of (vals (base y)) = copied engval x"
proof -
  define ns where "ns = [1..<Suc (nat (max_var (base x)))]"
  have ns: "distinct ns" "set ns = {i. 0 < i \<and> i \<le> nat (max_var (base x))}" unfolding ns_def by auto
  have "\<forall>i \<in> set ns. i < length (e2i x)" using ns(2) assms by simp
  then obtain us where us: "rfold (copy_value engval (e2i x)) ns (vals (base x)) = Ok us"
    "\<forall>i. assignment_of us i \<longleftrightarrow> (if i \<in> set ns \<and> e2i x ! i \<noteq> 0
      then engval (e2i x ! i) > 0 else assignment_of (vals (base x)) i)"
    using copy_loop [OF _ ns(1)] by blast
  have "assignment_of us = copied engval x"
    using us(2) unfolding ns(2) by (auto simp: copied_def fun_eq_iff)
  then show ?thesis using us(1) unfolding copy_values_def ns_def [symmetric] by (simp add: upd_base_def)
qed

text \<open>
  C23. \<open>External::extend\<close> reconstructs models. If the stack holds the given entries, every entry
  was redundant with its witness for the clauses present when it was pushed, and the internal
  assignment satisfies the remaining clauses \<open>F\<close>, then \<open>extend\<close> returns without running over the stack, and its
  values satisfy \<open>F\<close> and all the removed clauses.
\<close>

theorem extend_reconstructs:
  assumes "extension x = stack_enc es" "entries_in (max_var (base x)) es"
    "nat (max_var (base x)) < length (e2i x)"
    "justified F (rev es)" "list_all (sat_clause (copied engval x)) F"
  shows "\<exists>y. extend engval x = Ok y \<and> extended (base y) \<and>
    list_all (sat_clause (assignment_of (vals (base y)))) (F @ map (\<lambda>(w, i, c). c) es)"
proof -
  obtain y where y: "copy_values engval x = Ok y" "max_var (base y) = max_var (base x)"
    "extension y = extension x" "assignment_of (vals (base y)) = copied engval x"
    using copy_values_ok [OF assms(3)] by blast
  have "extend engval x = Ok (y\<lparr>base := (fold extend_entry (rev es) (base y))\<lparr>extended := True\<rparr>\<rparr>)"
    using extend_loop [of "max_var (base x)" es "base y"] assms(1,2) y by (simp add: extend_def)
  moreover have "entries_in (max_var (base y)) (rev es)" using assms(2) y(2) by (simp add: entries_in_def)
  then have "list_all (sat_clause (assignment_of (vals (fold extend_entry (rev es) (base y)))))
      (map (\<lambda>(w, i, c). c) (rev es) @ F)"
    using extend_entries_ok assms(4,5) y(4) by simp
  then have "list_all (sat_clause (assignment_of (vals (fold extend_entry (rev es) (base y)))))
      (F @ map (\<lambda>(w, i, c). c) es)" unfolding list_all_append rev_map [symmetric] list_all_rev by simp
  ultimately show ?thesis by simp
qed

section \<open>Blocked clauses\<close>

text \<open>A clause is blocked on a literal if every resolution on that literal gives a tautology.\<close>

definition blocked_on :: "int list list \<Rightarrow> int \<Rightarrow> int list \<Rightarrow> bool" where
  "blocked_on F l c \<longleftrightarrow> l \<in> set c \<and> (\<forall>d \<in> set F. - l \<in> set d \<longrightarrow> (\<exists>k \<in> set c. k \<noteq> l \<and> - k \<in> set d))"

lemma holds_set_lit:
  "l \<noteq> 0 \<Longrightarrow> m \<noteq> 0 \<Longrightarrow> holds (set_lit l \<sigma>) m \<longleftrightarrow> m = l \<or> m \<noteq> - l \<and> holds \<sigma> m"
  by (auto simp: holds_def set_lit_def nat_eq_iff)

lemma holds_opposite: "m \<noteq> 0 \<Longrightarrow> holds \<sigma> (- m) \<longleftrightarrow> \<not> holds \<sigma> m"
  by (auto simp: holds_def)

lemma blocked_redundant:
  assumes "blocked_on F l c" "0 \<notin> set c" "\<forall>d \<in> set F. 0 \<notin> set d"
  shows "redundant F [l] c"
  unfolding redundant_def
proof (intro allI impI)
  fix \<sigma> assume F: "list_all (sat_clause \<sigma>) F" and c: "\<not> sat_clause \<sigma> c"
  have l: "l \<in> set c" "l \<noteq> 0" using assms(1,2) by (auto simp: blocked_on_def)
  have "holds (set_lit l \<sigma>) l" using l holds_set_lit by blast
  then have "sat_clause (set_lit l \<sigma>) c" using l by (auto simp: sat_clause_def list_ex_iff)
  moreover have "sat_clause (set_lit l \<sigma>) d" if d: "d \<in> set F" for d
  proof -
    obtain m where m: "m \<in> set d" "holds \<sigma> m" "m \<noteq> 0"
      using F d assms(3) by (fastforce simp: list_all_iff sat_clause_def list_ex_iff)
    show ?thesis
    proof (cases "- l \<in> set d")
      case False
      then have "m \<noteq> - l" using m(1) by auto
      then have "holds (set_lit l \<sigma>) m" using m l holds_set_lit by blast
      then show ?thesis using m(1) by (auto simp: sat_clause_def list_ex_iff)
    next
      case True
      then obtain k where k: "k \<in> set c" "k \<noteq> l" "- k \<in> set d" using assms(1) d by (auto simp: blocked_on_def)
      have "k \<noteq> 0" "\<not> holds \<sigma> k" using k(1) assms(2) c by (auto simp: sat_clause_def list_ex_iff)
      then have "holds \<sigma> (- k)" "- k \<noteq> - l" using k(2) holds_opposite by auto
      then have "holds (set_lit l \<sigma>) (- k)" using l(2) \<open>k \<noteq> 0\<close> holds_set_lit [of l "- k" \<sigma>] by simp
      then show ?thesis using k(3) by (auto simp: sat_clause_def list_ex_iff)
    qed
  qed
  ultimately show "list_all (sat_clause (fold set_lit (rev [l]) \<sigma>)) (c # F)" by (simp add: list_all_iff)
qed

section \<open>An example\<close>

text \<open>The clause \<open>1, 2\<close> is removed with the witness \<open>1\<close>, the clause \<open>2, 3\<close> remains.\<close>

definition ext_example :: Stack where
  "ext_example = push_external [1, 2] [1] 7 (init_vars 3 new_Stack)"

theorem extend_reconstructs_witness:
  "\<exists>y. extend (\<lambda>i. if i = 3 then 3 else - i) ext_example = Ok y \<and> extended (base y) \<and>
    list_all (sat_clause (assignment_of (vals (base y)))) ([[2, 3]] @ map (\<lambda>(w, i, c). c) ([([1], 7, [1, 2])] :: stack_entry list))"
proof (rule extend_reconstructs)
  show "extension ext_example = stack_enc [([1], 7, [1, 2])]" by code_simp
  show "entries_in (max_var (base ext_example)) [([1], 7, [1, 2])]" by code_simp
  show "nat (max_var (base ext_example)) < length (e2i ext_example)" by code_simp
  have "redundant [[2, 3]] [1] [1, 2]" by (rule blocked_redundant) (simp_all add: blocked_on_def)
  then show "justified [[2, 3]] (rev [([1], 7, [1, 2])])" by simp
  show "list_all (sat_clause (copied (\<lambda>i. if i = 3 then 3 else - i) ext_example)) [[2, 3]]" by code_simp
qed

section \<open>Traversals visit the entries\<close>

definition stored_id :: "nat \<Rightarrow> nat" where
  "stored_id i = read_id (i32 (int (higher_bits i))) (i32 (int (lower_bits i)))"

fun visit :: "'s visitor \<Rightarrow> stack_entry list \<Rightarrow> 's \<Rightarrow> bool \<times> 's" where
  "visit it [] s = (True, s)"
| "visit it ((w, i, c) # es) s =
     (let (go, s) = it c w (stored_id i) s in if go then visit it es s else (False, s))"

lemma stored_id_eq:
  "stored_id i = (if i mod 2 ^ 32 < 2 ^ 31 then i mod 2 ^ 32 else 2 ^ 64 - 2 ^ 32 + i mod 2 ^ 32)"
proof -
  have hi: "higher_bits i = 0"
  proof -
    have "(int i * 2 ^ 32) mod 2 ^ 64 mod 2 ^ 32 = 0" by (simp add: mod_mod_cancel)
    then have "i32 ((int i * 2 ^ 32) mod 2 ^ 64) mod 2 ^ 32 = 0"
      unfolding i32_def by (metis (no_types, opaque_lifting) add_diff_cancel_right' mod_diff_left_eq)
    then show ?thesis by (simp add: higher_bits_def u32_def)
  qed
  have lo: "int (lower_bits i) = int i mod 2 ^ 32" by (simp add: lower_bits_def u32_def)
  define m where "m = int i mod 2 ^ 32"
  have m: "0 \<le> m" "m < 2 ^ 32" "int (i mod 2 ^ 32) = m" by (simp_all add: m_def zmod_int)
  have "i32 m = (if m < 2 ^ 31 then m else m - 2 ^ 32)"
  proof (cases "m < 2 ^ 31")
    case True
    then show ?thesis using m by (simp add: i32_def)
  next
    case False
    have "m + 2 ^ 31 = m - 2 ^ 31 + 2 ^ 32" by simp
    then have "(m + 2 ^ 31) mod 2 ^ 32 = (m - 2 ^ 31) mod 2 ^ 32" by (metis mod_add_self2)
    also have "\<dots> = m - 2 ^ 31" using False m by simp
    finally show ?thesis using False by (simp add: i32_def)
  qed
  moreover have "i32 0 = 0" by (simp add: i32_def)
  ultimately have s: "stored_id i = nat ((if m < 2 ^ 31 then m else m - 2 ^ 32) mod 2 ^ 64 mod 2 ^ 64)"
    unfolding stored_id_def read_id_def hi lo m_def [symmetric] by simp
  have r: "i mod 2 ^ 32 = nat m" using m(3) by (metis nat_int)
  have "(m - 2 ^ 32) mod 2 ^ 64 = m - 2 ^ 32 + 2 ^ 64" if "\<not> m < 2 ^ 31"
  proof -
    have "(m - 2 ^ 32) mod 2 ^ 64 = (m - 2 ^ 32 + 2 ^ 64) mod 2 ^ 64" by (rule mod_add_self2 [symmetric])
    also have "\<dots> = m - 2 ^ 32 + 2 ^ 64" using m that by (intro mod_pos_pos_trivial) simp_all
    finally show ?thesis .
  qed
  moreover have "m mod 2 ^ 64 = m" using m by (intro mod_pos_pos_trivial) simp_all
  ultimately show ?thesis unfolding s r using m(1,2) by (auto simp: nat_less_iff nat_eq_iff)
qed

lemma read_clause_ok: "0 \<notin> set c \<Longrightarrow> read_clause (c @ 0 # rest) = (c, rest)" "0 \<notin> set c \<Longrightarrow> read_clause c = (c, [])"
  by (induction c) auto

lemma stack_enc_Nil [simp]: "stack_enc [] = []" and stack_enc_Cons: "stack_enc (e # es) = entry_enc e @ stack_enc es"
  by (simp_all add: stack_enc_def)

lemma tl_stack_enc: "es \<noteq> [] \<Longrightarrow> stack_enc es = 0 # tl (stack_enc es) \<and> tl (stack_enc es) \<noteq> []"
  by (cases es) (auto simp: stack_enc_Cons entry_enc_def split: prod.splits)

lemma forward_round_ok:
  assumes "0 \<notin> set w" "0 \<notin> set c"
  shows "forward_round it (tl (stack_enc ((w, i, c) # es)), go, s) =
    Ok (tl (stack_enc es), it c w (stored_id i) s)"
proof -
  have e: "tl (stack_enc ((w, i, c) # es)) =
      w @ 0 # i32 (int (higher_bits i)) # i32 (int (lower_bits i)) # 0 # c @ stack_enc es"
    by (simp add: stack_enc_Cons entry_enc_def)
  have "read_clause (c @ stack_enc es) = (c, tl (stack_enc es))"
  proof (cases "es = []")
    case False
    then show ?thesis using tl_stack_enc [OF False] read_clause_ok(1) [OF assms(2)] by metis
  qed (use assms in \<open>simp add: read_clause_ok\<close>)
  then show ?thesis using assms by (simp add: e read_lits_ok stored_id_def)
qed

lemma entries_nonzero: "entries_in n ((w, i, c) # es) \<Longrightarrow> 0 \<notin> set w \<and> 0 \<notin> set c \<and> entries_in n es"
  by (auto simp: entries_in_def lits_in_def)

lemma forward_loop:
  "entries_in n es \<Longrightarrow> rbind (rwhile (\<lambda>(stack, go, s). stack \<noteq> [] \<and> go) (forward_round it) (tl (stack_enc es), go, s))
     (\<lambda>(stack, r). Ok r) = Ok (if go then visit it es s else (False, s))"
proof (induction es arbitrary: go s)
  case Nil
  show ?case by (subst rwhile_unfold) simp
next
  case (Cons e es)
  obtain w i c where e: "e = (w, i, c)" by (cases e) auto
  have z: "0 \<notin> set w" "0 \<notin> set c" "entries_in n es" using entries_nonzero Cons.prems e by blast+
  obtain go' s' where it: "it c w (stored_id i) s = (go', s')" by (cases "it c w (stored_id i) s")
  have "tl (stack_enc (e # es)) \<noteq> []" using tl_stack_enc [of "e # es"] by blast
  then show ?case
    using forward_round_ok [OF z(1,2), of it i es go s] Cons.IH [OF z(3), of go' s'] it e
    by (subst rwhile_unfold) auto
qed

lemma backward_round_ok:
  assumes "0 \<notin> set w" "0 \<notin> set c"
  shows "backward_round it (rev (stack_enc (es @ [(w, i, c)])), go, s) =
    Ok (rev (stack_enc es), it c w (stored_id i) s)"
  using assms read_lits_ok [of "rev c"] read_lits_ok [of "rev w"] by (simp add: rev_stack_enc stored_id_def)

lemma backward_loop:
  "entries_in n es \<Longrightarrow> rbind (rwhile (\<lambda>(stack, go, s). stack \<noteq> [] \<and> go) (backward_round it) (rev (stack_enc es), go, s))
     (\<lambda>(stack, r). Ok r) = Ok (if go then visit it (rev es) s else (False, s))"
proof (induction es arbitrary: go s rule: rev_induct)
  case Nil
  show ?case by (subst rwhile_unfold) simp
next
  case (snoc e es)
  obtain w i c where e: "e = (w, i, c)" by (cases e) auto
  have z: "0 \<notin> set w" "0 \<notin> set c" "entries_in n es" using snoc.prems e by (auto simp: entries_in_def lits_in_def)
  obtain go' s' where it: "it c w (stored_id i) s = (go', s')" by (cases "it c w (stored_id i) s")
  have "rev (stack_enc (es @ [e])) \<noteq> []" by (simp add: e rev_stack_enc)
  then show ?case
    using backward_round_ok [OF z(1,2), of it es i go s] snoc.IH [OF z(3), of go' s'] it e
    by (subst rwhile_unfold) auto
qed

lemma stored_id_exact:
  assumes "i < 2 ^ 64"
  shows "stored_id i = i \<longleftrightarrow> i < 2 ^ 31 \<or> 2 ^ 64 - 2 ^ 31 \<le> i"
proof -
  define q r where "q = i div 4294967296" and "r = i mod 4294967296"
  have i: "i = 4294967296 * q + r" "r < 4294967296" by (simp_all add: q_def r_def)
  then have "q \<le> 4294967295" using assms by simp
  moreover have "stored_id i = (if r < 2147483648 then r else 18446744069414584320 + r)"
    by (simp add: stored_id_eq r_def)
  ultimately show ?thesis using i by (cases "r < 2147483648"; cases "q = 0"; cases "q = 4294967295") auto
qed

text \<open>
  The traversals of the extension stack call the visitor with exactly the pushed witnesses and clauses,
  forwards in the order of pushing and backwards in the opposite order, until it asks to stop. But the
  identifier they pass is the pushed one only up to 31 bits: the higher half is lost when it is
  pushed, and the lower half comes back with its sign.
\<close>

theorem traversals_visit:
  assumes "entries_in n es" "i < 2 ^ 64"
  shows "traverse_forward False it (stack_enc es) s = Ok (visit it es s) \<and>
    traverse_backward False it (stack_enc es) s = Ok (visit it (rev es) s) \<and>
    (stored_id i = i \<longleftrightarrow> i < 2 ^ 31 \<or> 2 ^ 64 - 2 ^ 31 \<le> i)"
proof (intro conjI)
  show "traverse_backward False it (stack_enc es) s = Ok (visit it (rev es) s)"
    using backward_loop [OF assms(1), of it True s] by (simp add: traverse_backward_def)
  show "traverse_forward False it (stack_enc es) s = Ok (visit it es s)"
  proof (cases es)
    case (Cons e es')
    obtain w i c where e: "e = (w, i, c)" by (cases e) auto
    have z: "0 \<notin> set w" "0 \<notin> set c" "entries_in n es'" using entries_nonzero assms(1) Cons e by blast+
    obtain go' s' where it: "it c w (stored_id i) s = (go', s')" by (cases "it c w (stored_id i) s")
    have "stack_enc es \<noteq> []" using tl_stack_enc [of es] Cons by auto
    then show ?thesis
      using forward_round_ok [OF z(1,2), of it i es' True s] forward_loop [OF z(3), of it go' s'] it e Cons
      by (simp add: traverse_forward_def)
  qed (simp add: traverse_forward_def)
  show "stored_id i = i \<longleftrightarrow> i < 2 ^ 31 \<or> 2 ^ 64 - 2 ^ 31 \<le> i"
    by (rule stored_id_exact [OF assms(2)])
qed

theorem traversals_visit_witness:
  "traverse_forward False (\<lambda>c w i s. (i \<noteq> 8, s @ [(w, i, c)])) (stack_enc [([1], 7, [1, 2]), ([2], 8, [2])]) [] =
     Ok (visit (\<lambda>c w i s. (i \<noteq> 8, s @ [(w, i, c)])) [([1], 7, [1, 2]), ([2], 8, [2])] []) \<and>
   traverse_backward False (\<lambda>c w i s. (i \<noteq> 8, s @ [(w, i, c)])) (stack_enc [([1], 7, [1, 2]), ([2], 8, [2])]) [] =
     Ok (visit (\<lambda>c w i s. (i \<noteq> 8, s @ [(w, i, c)])) (rev [([1], 7, [1, 2]), ([2], 8, [2])]) []) \<and>
   (stored_id 4294967296 = 4294967296 \<longleftrightarrow> (4294967296 :: nat) < 2 ^ 31 \<or> 2 ^ 64 - 2 ^ 31 \<le> (4294967296 :: nat))"
  by (rule traversals_visit [of 2]) (simp_all add: entries_in_def)

end
