(* ===== verification/Vmtf_Queue.thy ===== *)
theory Vmtf_Queue
  imports Prelude
begin

text \<open>
  The doubly linked decision queue of CaDiCaL (\<open>queue.hpp\<close>) and what it stands for: a list of
  different variables. Variables are numbered from 1; the number 0 stands for no variable.
\<close>

section \<open>Operations\<close>

record Link =
  l_prev :: nat
  l_next :: nat

record Queue =
  q_first :: nat
  q_last :: nat
  unassigned :: nat
  q_bumped :: int

definition new_Queue :: Queue where
  "new_Queue = \<lparr>q_first = 0, q_last = 0, unassigned = 0, q_bumped = 0\<rparr>"

definition link_prev :: "nat \<Rightarrow> nat \<Rightarrow> Link list \<Rightarrow> Link list result" where
  "link_prev i p ls = rbind (vec_at ls i) (\<lambda>l. Ok (ls[i := l\<lparr>l_prev := p\<rparr>]))"

definition link_next :: "nat \<Rightarrow> nat \<Rightarrow> Link list \<Rightarrow> Link list result" where
  "link_next i n ls = rbind (vec_at ls i) (\<lambda>l. Ok (ls[i := l\<lparr>l_next := n\<rparr>]))"

text \<open>The two branches of \<open>dequeue\<close>. The reference \<open>l\<close> is read again after the first one.\<close>

definition skip_next :: "Link \<Rightarrow> Link list \<times> Queue \<Rightarrow> (Link list \<times> Queue) result" where
  "skip_next l lq =
     (if l_prev l \<noteq> 0 then rbind (link_next (l_prev l) (l_next l) (fst lq)) (\<lambda>ls. Ok (ls, snd lq))
      else Ok (fst lq, (snd lq)\<lparr>q_first := l_next l\<rparr>))"

definition skip_prev :: "Link \<Rightarrow> Link list \<times> Queue \<Rightarrow> (Link list \<times> Queue) result" where
  "skip_prev l lq =
     (if l_next l \<noteq> 0 then rbind (link_prev (l_next l) (l_prev l) (fst lq)) (\<lambda>ls. Ok (ls, snd lq))
      else Ok (fst lq, (snd lq)\<lparr>q_last := l_prev l\<rparr>))"

definition dequeue :: "nat \<Rightarrow> Link list \<times> Queue \<Rightarrow> (Link list \<times> Queue) result" where
  "dequeue idx lq =
     rbind (vec_at (fst lq) idx) (\<lambda>l. rbind (skip_next l lq) (\<lambda>lq.
     rbind (vec_at (fst lq) idx) (\<lambda>l. skip_prev l lq)))"

definition enqueue :: "nat \<Rightarrow> Link list \<times> Queue \<Rightarrow> (Link list \<times> Queue) result" where
  "enqueue idx lq = (case lq of (ls, q) \<Rightarrow>
     rbind (link_prev idx (q_last q) ls) (\<lambda>ls.
     rbind (if q_last q \<noteq> 0 then rbind (link_next (q_last q) idx ls) (\<lambda>ls. Ok (ls, q))
            else Ok (ls, q\<lparr>q_first := idx\<rparr>)) (\<lambda>(ls, q).
     rbind (link_next idx 0 ls) (\<lambda>ls. Ok (ls, q\<lparr>q_last := idx\<rparr>)))))"

section \<open>Segments of a linked list\<close>

definition hd_or :: "nat \<Rightarrow> nat list \<Rightarrow> nat" where
  "hd_or s xs = (case xs of [] \<Rightarrow> s | x # _ \<Rightarrow> x)"

definition last_or :: "nat \<Rightarrow> nat list \<Rightarrow> nat" where
  "last_or p xs = (if xs = [] then p else last xs)"

fun seg :: "Link list \<Rightarrow> nat \<Rightarrow> nat list \<Rightarrow> nat \<Rightarrow> bool" where
  "seg ls p [] s \<longleftrightarrow> True"
| "seg ls p (x # xs) s \<longleftrightarrow>
     x \<noteq> 0 \<and> x < length ls \<and> l_prev (ls ! x) = p \<and> l_next (ls ! x) = hd_or s xs \<and> seg ls x xs s"

definition queue_ok :: "Link list \<times> Queue \<Rightarrow> nat list \<Rightarrow> bool" where
  "queue_ok lq xs \<longleftrightarrow> distinct xs \<and> seg (fst lq) 0 xs 0 \<and> q_first (snd lq) = hd_or 0 xs \<and>
     q_last (snd lq) = last_or 0 xs"

lemma hd_or_simps [simp]: "hd_or s [] = s" "hd_or s (x # xs) = x" "hd_or s (xs @ ys) = hd_or (hd_or s ys) xs"
  by (simp_all add: hd_or_def split: list.split)

lemma last_or_simps [simp]: "last_or p [] = p" "last_or p (x # xs) = last_or x xs" "last_or p (xs @ [x]) = x"
  by (simp_all add: last_or_def)

lemma last_or_append [simp]: "last_or p (xs @ ys) = last_or (last_or p xs) ys"
  by (simp add: last_or_def)

lemma seg_append [simp]: "seg ls p (xs @ ys) s \<longleftrightarrow> seg ls p xs (hd_or s ys) \<and> seg ls (last_or p xs) ys s"
  by (induction xs arbitrary: p) auto

lemma seg_frame: "seg ls p xs s \<Longrightarrow> i \<notin> set xs \<Longrightarrow> seg (ls[i := l]) p xs s"
  by (induction xs arbitrary: p) auto

lemma seg_bounds: "seg ls p xs s \<Longrightarrow> x \<in> set xs \<Longrightarrow> x \<noteq> 0 \<and> x < length ls"
  by (induction xs arbitrary: p) auto

text \<open>The neighbours of a segment may be relinked.\<close>

lemma seg_relink_prev: "seg ls p (x # xs) s \<Longrightarrow> x \<notin> set xs \<Longrightarrow> seg (ls[x := (ls ! x)\<lparr>l_prev := q\<rparr>]) q (x # xs) s"
  by (auto intro: seg_frame)

lemma seg_relink_next:
  "seg ls p (xs @ [x]) s \<Longrightarrow> x \<notin> set xs \<Longrightarrow> seg (ls[x := (ls ! x)\<lparr>l_next := n\<rparr>]) p (xs @ [x]) n"
  by (auto intro: seg_frame)

lemma dequeue_ok:
  assumes "queue_ok (ls, q) (xs @ x # ys)"
  shows "\<exists>ls' q'. dequeue x (ls, q) = Ok (ls', q') \<and> queue_ok (ls', q') (xs @ ys) \<and> length ls' = length ls \<and>
    unassigned q' = unassigned q \<and> q_bumped q' = q_bumped q"
proof -
  have d: "distinct (xs @ x # ys)" and sx: "seg ls 0 xs x" and x: "x \<noteq> 0" "x < length ls"
    "l_prev (ls ! x) = last_or 0 xs" "l_next (ls ! x) = hd_or 0 ys" and sy: "seg ls x ys 0"
    and q: "q_first q = hd_or x xs" "q_last q = last_or x ys"
    using assms by (auto simp: queue_ok_def)
  let ?l = "ls ! x"
  obtain ks r where k: "skip_next ?l (ls, q) = Ok (ks, r)"
    "seg ks 0 xs (hd_or 0 ys)" "seg ks x ys 0" "ks ! x = ?l" "length ks = length ls"
    "q_first r = hd_or (hd_or 0 ys) xs" "q_last r = q_last q" "unassigned r = unassigned q" "q_bumped r = q_bumped q"
  proof (cases xs rule: rev_cases)
    case Nil
    then show ?thesis
      using that [of ls "q\<lparr>q_first := hd_or 0 ys\<rparr>"] sy x by (simp add: skip_next_def)
  next
    case (snoc zs z)
    have z: "z \<noteq> 0" "z < length ls" using seg_bounds [OF sx] snoc by auto
    let ?ks = "ls[z := (ls ! z)\<lparr>l_next := hd_or 0 ys\<rparr>]"
    have "skip_next ?l (ls, q) = Ok (?ks, q)" using z x snoc by (simp add: skip_next_def link_next_def)
    moreover have "seg ?ks 0 xs (hd_or 0 ys)" using seg_relink_next [of ls 0 zs z x] sx d snoc by simp
    moreover have "seg ?ks x ys 0" by (rule seg_frame [OF sy]) (use d snoc in auto)
    moreover have "?ks ! x = ?l" using d snoc by auto
    moreover have "q_first q = hd_or (hd_or 0 ys) xs" using q(1) snoc by simp
    ultimately show ?thesis using that by simp
  qed
  obtain ls' q' where l: "skip_prev ?l (ks, r) = Ok (ls', q')"
    "seg ls' 0 xs (hd_or 0 ys)" "seg ls' (last_or 0 xs) ys 0" "length ls' = length ls"
    "q_first q' = hd_or (hd_or 0 ys) xs" "q_last q' = last_or (last_or 0 xs) ys" "unassigned q' = unassigned q"
    "q_bumped q' = q_bumped q"
  proof (cases ys)
    case Nil
    then show ?thesis using that [of ks "r\<lparr>q_last := last_or 0 xs\<rparr>"] k x by (simp add: skip_prev_def)
  next
    case (Cons z zs)
    have z: "z \<noteq> 0" "z < length ks" using k(3) Cons by auto
    let ?ms = "ks[z := (ks ! z)\<lparr>l_prev := last_or 0 xs\<rparr>]"
    have "skip_prev ?l (ks, r) = Ok (?ms, r)" using z x Cons by (simp add: skip_prev_def link_prev_def)
    moreover have "seg ?ms (last_or 0 xs) ys 0" using seg_relink_prev [of ks x z zs 0] k(3) d Cons by simp
    moreover have "seg ?ms 0 xs (hd_or 0 ys)" by (rule seg_frame [OF k(2)]) (use d Cons in auto)
    moreover have "q_last r = last_or (last_or 0 xs) ys" using k(7) q(2) Cons by simp
    ultimately show ?thesis using that k by simp
  qed
  have "dequeue x (ls, q) = Ok (ls', q')" using x k l(1) by (simp add: dequeue_def)
  then show ?thesis using l d by (auto simp: queue_ok_def)
qed

lemma enqueue_ok:
  assumes "queue_ok (ls, q) xs" "x \<notin> set xs" "x \<noteq> 0" "x < length ls"
  shows "\<exists>ls' q'. enqueue x (ls, q) = Ok (ls', q') \<and> queue_ok (ls', q') (xs @ [x]) \<and> length ls' = length ls \<and>
    unassigned q' = unassigned q \<and> q_bumped q' = q_bumped q"
proof -
  let ?ks = "ls[x := (ls ! x)\<lparr>l_prev := last_or 0 xs\<rparr>]"
  have s: "seg ?ks 0 xs 0" "distinct xs" and q: "q_first q = hd_or 0 xs" "q_last q = last_or 0 xs"
    using assms seg_frame by (auto simp: queue_ok_def)
  show ?thesis
  proof (cases xs rule: rev_cases)
    case Nil
    then show ?thesis
      using assms(3,4) q by (simp add: enqueue_def link_prev_def link_next_def queue_ok_def)
  next
    case (snoc zs z)
    have z: "z \<noteq> 0" "z < length ls" "z \<noteq> x" using seg_bounds [OF s(1)] snoc assms(2) by auto
    have "seg (?ks[z := (?ks ! z)\<lparr>l_next := x\<rparr>]) 0 (zs @ [z]) x"
      using seg_relink_next [of ?ks 0 zs z 0 x] s snoc by simp
    then have "seg ((?ks[z := (?ks ! z)\<lparr>l_next := x\<rparr>])[x := l]) 0 (zs @ [z]) x" for l
      using seg_frame [of _ 0 "zs @ [z]" x x l] assms(2) snoc by blast
    then show ?thesis
      using assms(2-4) q z s(2) snoc by (simp add: enqueue_def link_prev_def link_next_def queue_ok_def)
  qed
qed

section \<open>The interface of the queue\<close>

text \<open>
  What the decision heuristic relies on: the queue stands for a list of different variables, \<open>frame\<close> is
  the part of the state the operations leave alone, and \<open>room\<close> tells for which variables there is a link.
\<close>

locale var_list =
  fixes ok :: "'s \<Rightarrow> nat list \<Rightarrow> bool" and deq :: "nat \<Rightarrow> 's \<Rightarrow> 's result" and enq :: "nat \<Rightarrow> 's \<Rightarrow> 's result"
    and room :: "'f \<Rightarrow> nat \<Rightarrow> bool" and frame :: "'s \<Rightarrow> 'f"
  assumes different: "ok s xs \<Longrightarrow> distinct xs"
    and member: "ok s xs \<Longrightarrow> x \<in> set xs \<Longrightarrow> x \<noteq> 0 \<and> room (frame s) x"
    and deq_law: "ok s (xs @ x # ys) \<Longrightarrow> \<exists>t. deq x s = Ok t \<and> ok t (xs @ ys) \<and> frame t = frame s"
    and enq_law: "ok s xs \<Longrightarrow> x \<notin> set xs \<Longrightarrow> x \<noteq> 0 \<Longrightarrow> room (frame s) x \<Longrightarrow>
      \<exists>t. enq x s = Ok t \<and> ok t (xs @ [x]) \<and> frame t = frame s"
begin

lemma move_to_end:
  assumes "ok s (xs @ x # ys)"
  shows "\<exists>t. rbind (deq x s) (enq x) = Ok t \<and> ok t (xs @ ys @ [x]) \<and> frame t = frame s"
proof -
  obtain t where t: "deq x s = Ok t" "ok t (xs @ ys)" "frame t = frame s" using deq_law [OF assms] by blast
  have "x \<notin> set (xs @ ys)" "x \<noteq> 0" "room (frame t) x"
    using different [OF assms] member [OF assms, of x] t(3) by auto
  then show ?thesis using enq_law [OF t(2)] t(1,3) by auto
qed

lemma enq_all:
  assumes "ok s xs" "distinct (xs @ ys)" "\<forall>y \<in> set ys. y \<noteq> 0 \<and> room (frame s) y"
  shows "\<exists>t. rfold enq ys s = Ok t \<and> ok t (xs @ ys) \<and> frame t = frame s"
  using assms
proof (induction ys arbitrary: s xs)
  case (Cons y ys)
  obtain t where t: "enq y s = Ok t" "ok t (xs @ [y])" "frame t = frame s"
    using enq_law [OF Cons.prems(1), of y] Cons.prems(2,3) by auto
  then show ?case using Cons.IH [OF t(2)] Cons.prems(2,3) by simp
qed simp

end

definition queue_frame :: "Link list \<times> Queue \<Rightarrow> nat \<times> nat \<times> int" where
  "queue_frame lq = (length (fst lq), unassigned (snd lq), q_bumped (snd lq))"

interpretation vq: var_list queue_ok dequeue enqueue "\<lambda>f x. x < fst f" queue_frame
proof (unfold_locales, goal_cases)
  case (1 s xs)
  then show ?case by (simp add: queue_ok_def)
next
  case (2 s xs x)
  then show ?case using seg_bounds by (auto simp: queue_ok_def queue_frame_def)
next
  case (3 s xs x ys)
  then show ?case using dequeue_ok [of "fst s" "snd s"] by (auto simp: queue_frame_def)
next
  case (4 s xs x)
  then show ?case using enqueue_ok [of "fst s" "snd s"] by (auto simp: queue_frame_def)
qed

end
