(* ===== verification/Binary_Heap.thy ===== *)
theory Binary_Heap
  imports Prelude "HOL-Library.Multiset"
begin

text \<open>
  The priority queue with updates of CaDiCaL (\<open>heap.hpp\<close>) with the order of the decision scores
  (\<open>score.hpp\<close>): a binary heap of unsigned numbers with an array of their positions.

  The comparison \<open>less\<close> is a parameter, as in the template. An element that is not in
  the heap has the position \<open>invalid_heap_position\<close>. The proofs go through a heap with one hole: all
  edges of the tree are in order but those at one position.
\<close>

section \<open>Operations\<close>

definition invalid_heap_position :: nat where
  "invalid_heap_position = 4294967295"

record heap =
  array :: "nat list"
  pos :: "nat list"

type_synonym order = "nat \<Rightarrow> nat \<Rightarrow> bool"

definition empty_heap :: heap where
  "empty_heap = \<lparr>array = [], pos = []\<rparr>"

text \<open>\<open>index (e)\<close> enlarges the array of positions and returns a reference into it.\<close>

definition with_index :: "nat \<Rightarrow> heap \<Rightarrow> heap" where
  "with_index e h =
     (if e \<ge> length (pos h) then h\<lparr>pos := vec_resize (pos h) (1 + e) invalid_heap_position\<rparr> else h)"

definition index :: "nat \<Rightarrow> heap \<Rightarrow> nat" where
  "index e h = pos (with_index e h) ! e"

definition set_index :: "nat \<Rightarrow> nat \<Rightarrow> heap \<Rightarrow> heap" where
  "set_index e i h = (let h = with_index e h in h\<lparr>pos := (pos h)[e := i]\<rparr>)"

definition has_parent :: "nat \<Rightarrow> heap \<Rightarrow> bool" where
  "has_parent e h \<longleftrightarrow> index e h > 0"

definition has_left :: "nat \<Rightarrow> heap \<Rightarrow> bool" where
  "has_left e h \<longleftrightarrow> 2 * index e h + 1 < length (array h)"

definition has_right :: "nat \<Rightarrow> heap \<Rightarrow> bool" where
  "has_right e h \<longleftrightarrow> 2 * index e h + 2 < length (array h)"

definition heap_parent :: "nat \<Rightarrow> heap \<Rightarrow> nat result" where
  "heap_parent e h = vec_at (array h) ((index e h - 1) div 2)"

text \<open>The products of the two accesses are computed in 32 bits, those of the two tests in 64.\<close>

definition heap_left :: "nat \<Rightarrow> heap \<Rightarrow> nat result" where
  "heap_left e h = vec_at (array h) ((2 * index e h + 1) mod 2 ^ 32)"

definition heap_right :: "nat \<Rightarrow> heap \<Rightarrow> nat result" where
  "heap_right e h = vec_at (array h) ((2 * index e h + 2) mod 2 ^ 32)"

definition exchange :: "nat \<Rightarrow> nat \<Rightarrow> heap \<Rightarrow> heap result" where
  "exchange a b h =
     (let h = with_index b (with_index a h); i = index a h; j = index b h in
      rbind (vec_at (array h) i) (\<lambda>x. rbind (vec_at (array h) j) (\<lambda>y.
        Ok (h\<lparr>array := (array h)[i := y, j := x], pos := (pos h)[a := j, b := i]\<rparr>))))"

text \<open>The loops of \<open>up\<close> and \<open>down\<close>; the flag is false after \<open>break\<close> or when the condition fails.\<close>

definition up_round :: "order \<Rightarrow> nat \<Rightarrow> heap \<times> bool \<Rightarrow> (heap \<times> bool) result" where
  "up_round lt e hg =
     (let h = with_index e (fst hg) in
      if has_parent e h
      then rbind (heap_parent e h) (\<lambda>p.
             if lt p e then rbind (exchange p e h) (\<lambda>h. Ok (h, True)) else Ok (h, False))
      else Ok (h, False))"

definition up :: "order \<Rightarrow> nat \<Rightarrow> heap \<Rightarrow> heap result" where
  "up lt e h = rbind (rwhile snd (up_round lt e) (h, True)) (\<lambda>hg. Ok (fst hg))"

definition larger_child :: "order \<Rightarrow> nat \<Rightarrow> heap \<Rightarrow> nat result" where
  "larger_child lt e h =
     rbind (heap_left e h) (\<lambda>c.
       if has_right e h then rbind (heap_right e h) (\<lambda>r. Ok (if lt c r then r else c)) else Ok c)"

definition down_round :: "order \<Rightarrow> nat \<Rightarrow> heap \<times> bool \<Rightarrow> (heap \<times> bool) result" where
  "down_round lt e hg =
     (let h = with_index e (fst hg) in
      if has_left e h
      then rbind (larger_child lt e h) (\<lambda>c.
             if \<not> lt e c then Ok (h, False) else rbind (exchange e c h) (\<lambda>h. Ok (h, True)))
      else Ok (h, False))"

definition down :: "order \<Rightarrow> nat \<Rightarrow> heap \<Rightarrow> heap result" where
  "down lt e h = rbind (rwhile snd (down_round lt e) (h, True)) (\<lambda>hg. Ok (fst hg))"

definition contains :: "nat \<Rightarrow> heap \<Rightarrow> bool" where
  "contains e h \<longleftrightarrow> (if e \<ge> length (pos h) then False else pos h ! e \<noteq> invalid_heap_position)"

definition heap_push_back :: "order \<Rightarrow> nat \<Rightarrow> heap \<Rightarrow> heap result" where
  "heap_push_back lt e h =
     (let i = length (array h); h = set_index e i (h\<lparr>array := array h @ [e]\<rparr>) in
      rbind (up lt e h) (down lt e))"

definition heap_front :: "heap \<Rightarrow> nat result" where
  "heap_front h = vec_at (array h) 0"

definition heap_pop_front :: "order \<Rightarrow> heap \<Rightarrow> (nat \<times> heap) result" where
  "heap_pop_front lt h =
     rbind (vec_at (array h) 0) (\<lambda>res.
       let l = last (array h) in
       rbind (if length (array h) > 1 then exchange res l h else Ok h) (\<lambda>h.
         let h = set_index res invalid_heap_position h; h = h\<lparr>array := butlast (array h)\<rparr> in
         rbind (if length (array h) > 1 then down lt l h else Ok h) (\<lambda>h. Ok (res, h))))"

definition heap_update :: "order \<Rightarrow> nat \<Rightarrow> heap \<Rightarrow> heap result" where
  "heap_update lt e h = rbind (up lt e h) (down lt e)"

definition heap_clear :: "heap \<Rightarrow> heap" where
  "heap_clear h = h\<lparr>array := [], pos := []\<rparr>"

text \<open>\<open>score_smaller\<close>: the scores are compared, then the smaller index is the greater element.\<close>

definition score_smaller :: "(nat \<Rightarrow> 'a::linorder) \<Rightarrow> order" where
  "score_smaller stab a b =
     (if stab a < stab b then True else if stab a > stab b then False else a > b)"

section \<open>Heaps with a hole\<close>

definition strict_weak :: "order \<Rightarrow> bool" where
  "strict_weak lt \<longleftrightarrow> (\<forall>a b. lt a b \<longrightarrow> \<not> lt b a) \<and> (\<forall>a b c. \<not> lt a b \<longrightarrow> \<not> lt b c \<longrightarrow> \<not> lt a c)"

definition par :: "nat \<Rightarrow> nat" where
  "par i = (i - 1) div 2"

definition edge :: "order \<Rightarrow> nat list \<Rightarrow> nat \<Rightarrow> bool" where
  "edge lt xs i \<longleftrightarrow> \<not> lt (xs ! par i) (xs ! i)"

definition ordered :: "order \<Rightarrow> nat list \<Rightarrow> bool" where
  "ordered lt xs \<longleftrightarrow> (\<forall>i. 0 < i \<longrightarrow> i < length xs \<longrightarrow> edge lt xs i)"

definition hole :: "order \<Rightarrow> nat list \<Rightarrow> nat \<Rightarrow> bool" where
  "hole lt xs p \<longleftrightarrow>
     (\<forall>i. 0 < i \<longrightarrow> i < length xs \<longrightarrow> i \<noteq> p \<longrightarrow> par i \<noteq> p \<longrightarrow> edge lt xs i) \<and>
     (0 < p \<longrightarrow> (\<forall>i. 0 < i \<longrightarrow> i < length xs \<longrightarrow> par i = p \<longrightarrow> \<not> lt (xs ! par p) (xs ! i)))"

abbreviation swapped :: "nat list \<Rightarrow> nat \<Rightarrow> nat \<Rightarrow> nat list" where
  "swapped xs i j \<equiv> xs[i := xs ! j, j := xs ! i]"

lemma asym:
  assumes "strict_weak lt" "lt a b"
  shows "\<not> lt b a"
  by (rule assms(1) [unfolded strict_weak_def, THEN conjunct1, rule_format, OF assms(2)])

lemma ntrans:
  assumes "strict_weak lt" "\<not> lt a b" "\<not> lt b c"
  shows "\<not> lt a c"
  by (rule assms(1) [unfolded strict_weak_def, THEN conjunct2, rule_format, OF assms(2,3)])

lemma par_less: "0 < i \<Longrightarrow> par i < i"
  by (simp add: par_def)

lemma par_iff: "0 < i \<Longrightarrow> par i = p \<longleftrightarrow> i = 2 * p + 1 \<or> i = 2 * p + 2"
  unfolding par_def by presburger

lemma hole_edge:
  "hole lt xs p \<Longrightarrow> 0 < i \<Longrightarrow> i < length xs \<Longrightarrow> i \<noteq> p \<Longrightarrow> par i \<noteq> p \<Longrightarrow> \<not> lt (xs ! par i) (xs ! i)"
  by (simp add: hole_def edge_def)

lemma hole_grand:
  "hole lt xs p \<Longrightarrow> 0 < p \<Longrightarrow> 0 < i \<Longrightarrow> i < length xs \<Longrightarrow> par i = p \<Longrightarrow> \<not> lt (xs ! par p) (xs ! i)"
  by (simp add: hole_def)

lemma hole_up:
  assumes "strict_weak lt" "hole lt xs p" "0 < p" "p < length xs" "lt (xs ! par p) (xs ! p)"
  shows "hole lt (swapped xs (par p) p) (par p)"
proof -
  let ?q = "par p" and ?ys = "swapped xs (par p) p"
  have q: "?q < p" using par_less assms(3) by blast
  have nth: "?ys ! i = (if i = p then xs ! ?q else if i = ?q then xs ! p else xs ! i)" if "i < length xs" for i
    using that q assms(4) by (auto simp: nth_list_update)
  have "edge lt ?ys i" if i: "0 < i" "i < length xs" "i \<noteq> ?q" "par i \<noteq> ?q" for i
  proof -
    have pi: "par i < length xs" using par_less i by (meson order.strict_trans)
    have "i \<noteq> p" using i(4) by auto
    show ?thesis
    proof (cases "par i = p")
      case True
      then show ?thesis using assms(2,3) i \<open>i \<noteq> p\<close> pi nth [OF i(2)] nth [OF pi] by (simp add: hole_def edge_def)
    next
      case False
      then show ?thesis using assms(2) i \<open>i \<noteq> p\<close> nth [OF i(2)] nth [OF pi] by (simp add: hole_def edge_def)
    qed
  qed
  moreover have "\<not> lt (?ys ! par ?q) (?ys ! i)" if i: "0 < ?q" "0 < i" "i < length xs" "par i = ?q" for i
  proof -
    have g: "par ?q < ?q" "par ?q < length xs" using par_less i(1) q assms(4) by (auto intro: order.strict_trans)
    have eq: "\<not> lt (xs ! par ?q) (xs ! ?q)"
      using assms(2) i(1) q g assms(4) by (simp add: hole_def edge_def)
    show ?thesis
    proof (cases "i = p")
      case True
      then show ?thesis using nth [OF i(3)] nth [OF g(2)] g(1) q eq by simp
    next
      case False
      have "i \<noteq> ?q" using i(4) par_less [OF i(2)] by simp
      have "\<not> lt (xs ! ?q) (xs ! i)"
        using hole_edge [OF assms(2) i(2,3) False] i(4) q by simp
      then have "\<not> lt (xs ! par ?q) (xs ! i)" by (rule ntrans [OF assms(1) eq])
      then show ?thesis using nth [OF i(3)] nth [OF g(2)] g(1) q False \<open>i \<noteq> ?q\<close> by simp
    qed
  qed
  ultimately show ?thesis by (simp add: hole_def)
qed

lemma hole_down:
  assumes "strict_weak lt" "hole lt xs p" "0 < p \<Longrightarrow> edge lt xs p"
    "0 < k" "k < length xs" "par k = p" "lt (xs ! p) (xs ! k)"
    "\<And>i. 0 < i \<Longrightarrow> i < length xs \<Longrightarrow> par i = p \<Longrightarrow> \<not> lt (xs ! k) (xs ! i)"
  shows "hole lt (swapped xs p k) k \<and> edge lt (swapped xs p k) k"
proof -
  let ?ys = "swapped xs p k"
  have pk: "p < k" using par_less [OF assms(4)] assms(6) by simp
  have nth: "?ys ! i = (if i = k then xs ! p else if i = p then xs ! k else xs ! i)" if "i < length xs" for i
    using that pk assms(5) by (auto simp: nth_list_update)
  have p: "p < length xs" using pk assms(5) by simp
  have "edge lt ?ys k"
    using asym [OF assms(1,7)] nth [OF p] nth [OF assms(5)] pk assms(6) by (simp add: edge_def)
  moreover have "edge lt ?ys i" if i: "0 < i" "i < length xs" "i \<noteq> k" "par i \<noteq> k" for i
  proof -
    have pi: "par i < length xs" "par i < i" using par_less i by (auto intro: order.strict_trans)
    consider "i = p" | "i \<noteq> p" "par i = p" | "i \<noteq> p" "par i \<noteq> p" by blast
    then show ?thesis
    proof cases
      case 1
      then have "\<not> lt (xs ! par p) (xs ! k)" using assms(2,4,5,6) i(1) by (simp add: hole_def)
      moreover have "par i \<noteq> k" "par i \<noteq> p" using 1 pi pk by simp_all
      ultimately show ?thesis using 1 nth [OF i(2)] nth [OF pi(1)] pk by (simp add: edge_def)
    next
      case 2
      then show ?thesis using assms(8) [OF i(1,2)] nth [OF i(2)] nth [OF pi(1)] i(3) pk by (simp add: edge_def)
    next
      case 3
      then show ?thesis using assms(2) i nth [OF i(2)] nth [OF pi(1)] by (simp add: hole_def edge_def)
    qed
  qed
  moreover have "\<not> lt (?ys ! par k) (?ys ! i)" if i: "0 < i" "i < length xs" "par i = k" for i
  proof -
    have "k < i" using par_less [OF i(1)] i(3) by simp
    then have "i \<noteq> p" "i \<noteq> k" "par i \<noteq> p" using pk i(3) by auto
    then have "\<not> lt (xs ! k) (xs ! i)" using hole_edge [OF assms(2) i(1,2)] i(3) by simp
    then show ?thesis using nth [OF i(2)] nth [OF p] assms(6) pk \<open>i \<noteq> p\<close> \<open>i \<noteq> k\<close> by simp
  qed
  ultimately show ?thesis by (simp add: hole_def)
qed

lemma hole_closed:
  assumes "hole lt xs p" "0 < p \<Longrightarrow> edge lt xs p"
    "\<And>i. 0 < i \<Longrightarrow> i < length xs \<Longrightarrow> par i = p \<Longrightarrow> edge lt xs i"
  shows "ordered lt xs"
  unfolding ordered_def
proof (intro allI impI)
  fix i assume "0 < i" "i < length xs"
  then show "edge lt xs i" using assms by (cases "i = p"; cases "par i = p") (auto simp: hole_def)
qed

text \<open>The first element of an ordered heap is maximal.\<close>

lemma ordered_max:
  assumes "strict_weak lt" "ordered lt xs" "i < length xs"
  shows "\<not> lt (xs ! 0) (xs ! i)"
  using assms(3)
proof (induction i rule: less_induct)
  case (less i)
  show ?case
  proof (cases "i = 0")
    case True
    then show ?thesis using asym [OF assms(1)] by blast
  next
    case False
    then have "\<not> lt (xs ! 0) (xs ! par i)" using less.IH [of "par i"] par_less [of i] less.prems by simp
    moreover have "\<not> lt (xs ! par i) (xs ! i)"
      using assms(2) False less.prems by (simp add: ordered_def edge_def)
    ultimately show ?thesis by (rule ntrans [OF assms(1)])
  qed
qed

section \<open>Positions\<close>

definition heap_wf :: "heap \<Rightarrow> bool" where
  "heap_wf h \<longleftrightarrow> distinct (array h) \<and> length (array h) \<le> invalid_heap_position \<and>
     (\<forall>i < length (array h). array h ! i < length (pos h) \<and> pos h ! (array h ! i) = i) \<and>
     (\<forall>e < length (pos h). pos h ! e \<noteq> invalid_heap_position \<longrightarrow>
        pos h ! e < length (array h) \<and> array h ! (pos h ! e) = e)"

lemma wf_at:
  "heap_wf h \<Longrightarrow> i < length (array h) \<Longrightarrow> array h ! i < length (pos h) \<and> pos h ! (array h ! i) = i"
  by (simp add: heap_wf_def)

lemma wf_pos:
  "heap_wf h \<Longrightarrow> e \<in> set (array h) \<Longrightarrow> e < length (pos h) \<and> pos h ! e < length (array h) \<and> array h ! (pos h ! e) = e"
  using wf_at by (auto simp: in_set_conv_nth)

lemma contains_iff: "heap_wf h \<Longrightarrow> contains e h \<longleftrightarrow> e \<in> set (array h)"
proof -
  assume wf: "heap_wf h"
  show ?thesis
  proof
    assume "contains e h"
    then have "pos h ! e < length (array h) \<and> array h ! (pos h ! e) = e"
      using wf by (auto simp: contains_def heap_wf_def split: if_splits)
    then show "e \<in> set (array h)" by (metis nth_mem)
  next
    assume "e \<in> set (array h)"
    then show "contains e h" using wf wf_pos [OF wf, of e] by (auto simp: contains_def heap_wf_def)
  qed
qed

lemma with_index_in: "e < length (pos h) \<Longrightarrow> with_index e h = h"
  by (simp add: with_index_def)

lemma index_in: "e < length (pos h) \<Longrightarrow> index e h = pos h ! e"
  by (simp add: index_def with_index_in)

lemma exchange_ok:
  assumes "heap_wf h" "i < length (array h)" "j < length (array h)" "i \<noteq> j"
  shows "\<exists>k. exchange (array h ! i) (array h ! j) h = Ok k \<and> array k = swapped (array h) i j \<and> heap_wf k \<and>
    length (pos k) = length (pos h)"
proof -
  let ?a = "array h ! i" and ?b = "array h ! j"
  let ?k = "h\<lparr>array := swapped (array h) i j, pos := (pos h)[?a := j, ?b := i]\<rparr>"
  have a: "?a < length (pos h)" "pos h ! ?a = i" and b: "?b < length (pos h)" "pos h ! ?b = j"
    using wf_at [OF assms(1)] assms(2,3) by blast+
  have ab: "?a \<noteq> ?b" using a(2) b(2) assms(4) by metis
  have "exchange ?a ?b h = Ok ?k"
    using a b assms(2,3) by (simp add: exchange_def with_index_in index_in Let_def)
  moreover have "heap_wf ?k"
    unfolding heap_wf_def
  proof (intro conjI allI impI)
    show "distinct (array ?k)" "length (array ?k) \<le> invalid_heap_position"
      using assms by (auto simp: heap_wf_def distinct_swap)
    fix m assume m: "m < length (array ?k)"
    show "array ?k ! m < length (pos ?k)" "pos ?k ! (array ?k ! m) = m"
      using m a b ab assms(2-4) wf_at [OF assms(1), of m] by (auto simp: nth_list_update)
  next
    fix e assume e: "e < length (pos ?k)" "pos ?k ! e \<noteq> invalid_heap_position"
    show "pos ?k ! e < length (array ?k)" "array ?k ! (pos ?k ! e) = e"
      using e a b ab assms by (auto simp: nth_list_update heap_wf_def)
  qed
  ultimately show ?thesis by simp
qed

lemma mset_swapped: "i < length xs \<Longrightarrow> j < length xs \<Longrightarrow> mset (swapped xs i j) = mset xs"
  by (rule mset_swap)

section \<open>Moving an element\<close>

text \<open>The invariants of the two loops for the element \<open>e\<close>; \<open>M\<close> holds the elements.\<close>

definition at_hole :: "order \<Rightarrow> nat \<Rightarrow> nat multiset \<Rightarrow> heap \<Rightarrow> bool" where
  "at_hole lt e M h \<longleftrightarrow> heap_wf h \<and> mset (array h) = M \<and> e \<in># M \<and> hole lt (array h) (pos h ! e)"

definition edge_above :: "order \<Rightarrow> nat \<Rightarrow> heap \<Rightarrow> bool" where
  "edge_above lt e h \<longleftrightarrow> (0 < pos h ! e \<longrightarrow> edge lt (array h) (pos h ! e))"

lemma at_hole_pos:
  assumes "at_hole lt e M h"
  shows "e < length (pos h)" "pos h ! e < length (array h)" "array h ! (pos h ! e) = e"
    "with_index e h = h" "index e h = pos h ! e"
proof -
  have "e \<in> set (array h)" using assms by (auto simp: at_hole_def simp flip: set_mset_mset)
  then show "e < length (pos h)" "pos h ! e < length (array h)" "array h ! (pos h ! e) = e"
    using wf_pos assms by (auto simp: at_hole_def)
  then show "with_index e h = h" "index e h = pos h ! e" by (simp_all add: with_index_in index_in)
qed

lemma up_round_ok:
  assumes "strict_weak lt" "at_hole lt e M h"
  shows "\<exists>k go. up_round lt e (h, True) = Ok (k, go) \<and> at_hole lt e M k \<and>
    (if go then pos k ! e < pos h ! e else k = h \<and> edge_above lt e k)"
proof -
  note at = at_hole_pos [OF assms(2)]
  let ?p = "pos h ! e"
  have hp: "heap_parent e h = vec_at (array h) (par ?p)" using at by (simp add: heap_parent_def par_def)
  show ?thesis
  proof (cases "0 < ?p \<and> lt (array h ! par ?p) e")
    case True
    have q: "par ?p < ?p" "par ?p < length (array h)" using par_less [of ?p] True at(2) by simp_all
    obtain k where k: "exchange (array h ! par ?p) e h = Ok k" "array k = swapped (array h) (par ?p) ?p" "heap_wf k"
      "length (pos k) = length (pos h)"
      using exchange_ok [OF _ q(2) at(2)] assms(2) q(1) at(3) by (auto simp: at_hole_def)
    have "pos k ! e = par ?p"
      using wf_at [OF k(3), of "par ?p"] k(2) q at(2,3) by (simp add: nth_list_update)
    moreover have "hole lt (array k) (par ?p)"
      using hole_up [OF assms(1) _ _ at(2)] True assms(2) at(3) k(2) by (simp add: at_hole_def)
    ultimately have "at_hole lt e M k" "pos k ! e < ?p"
      using k(2,3) q mset_swapped [OF q(2) at(2)] assms(2) by (simp_all add: at_hole_def)
    moreover have "up_round lt e (h, True) = Ok (k, True)"
      using True at k(1) q(2) by (simp add: up_round_def Let_def has_parent_def hp)
    ultimately show ?thesis by auto
  next
    case False
    have "par ?p < length (array h)" if "0 < ?p" using par_less [OF that] at(2) by simp
    then have "up_round lt e (h, True) = Ok (h, False)"
      using False at by (auto simp: up_round_def Let_def has_parent_def hp)
    moreover have "edge_above lt e h" using False at(3) by (auto simp: edge_above_def edge_def)
    ultimately show ?thesis using assms(2) by auto
  qed
qed

lemma up_ok:
  assumes "strict_weak lt" "at_hole lt e M h"
  shows "\<exists>k. up lt e h = Ok k \<and> at_hole lt e M k \<and> edge_above lt e k"
proof -
  have "\<exists>p. rwhile snd (up_round lt e) (h, True) = Ok p \<and>
      (at_hole lt e M (fst p) \<and> (\<not> snd p \<longrightarrow> edge_above lt e (fst p))) \<and> \<not> snd p"
  proof (rule rwhile_rule)
    show "wf (measure (\<lambda>(h, go). 2 * (pos h ! e) + (if go then 1 else 0)))" by simp
    show "at_hole lt e M (fst (h, True)) \<and> (\<not> snd (h, True) \<longrightarrow> edge_above lt e (fst (h, True)))"
      using assms(2) by simp
  next
    fix p :: "heap \<times> bool"
    assume p: "at_hole lt e M (fst p) \<and> (\<not> snd p \<longrightarrow> edge_above lt e (fst p))" "snd p"
    obtain g where g: "p = (g, True)" using p(2) by (cases p) auto
    obtain k go where k: "up_round lt e (g, True) = Ok (k, go)" "at_hole lt e M k"
      "if go then pos k ! e < pos g ! e else k = g \<and> edge_above lt e k"
      using up_round_ok [OF assms(1), of e M g] p(1) g by auto
    then show "\<exists>v. up_round lt e p = Ok v \<and> (at_hole lt e M (fst v) \<and> (\<not> snd v \<longrightarrow> edge_above lt e (fst v))) \<and>
        (v, p) \<in> measure (\<lambda>(h, go). 2 * (pos h ! e) + (if go then 1 else 0))"
      using g by (cases go) auto
  qed
  then show ?thesis by (auto simp: up_def)
qed

lemma children:
  "0 < i \<Longrightarrow> par i = p \<Longrightarrow> i = 2 * p + 1 \<or> i = 2 * p + 2"
  by (simp add: par_iff)

lemma par_child [simp]: "par (2 * p + 1) = p" "par (2 * p + 2) = p" "par (Suc (2 * p)) = p" "par (Suc (Suc (2 * p))) = p"
  by (simp_all add: par_def)

lemma larger_child_ok:
  assumes "strict_weak lt" "at_hole lt e M h" "2 * (pos h ! e) + 1 < length (array h)"
  shows "\<exists>k. larger_child lt e h = Ok (array h ! k) \<and> 0 < k \<and> k < length (array h) \<and> par k = pos h ! e \<and>
    (\<forall>i. 0 < i \<longrightarrow> i < length (array h) \<longrightarrow> par i = pos h ! e \<longrightarrow> \<not> lt (array h ! k) (array h ! i))"
proof -
  note at = at_hole_pos [OF assms(2)]
  let ?l = "2 * (pos h ! e) + 1" and ?r = "2 * (pos h ! e) + 2"
  have "length (array h) < 2 ^ 32"
    using assms(2) by (simp add: at_hole_def heap_wf_def invalid_heap_position_def)
  then have small: "?l mod 2 ^ 32 = ?l" "?r < length (array h) \<Longrightarrow> ?r mod 2 ^ 32 = ?r"
    using assms(3) by (simp_all add: mod_less)
  have refl: "\<not> lt x x" for x using asym [OF assms(1)] by blast
  show ?thesis
  proof (cases "?r < length (array h) \<and> lt (array h ! ?l) (array h ! ?r)")
    case True
    then have "larger_child lt e h = Ok (array h ! ?r)"
      using assms(3) at small by (simp add: larger_child_def heap_left_def heap_right_def has_right_def del: power_numeral)
    moreover have "\<not> lt (array h ! ?r) (array h ! i)" if "0 < i" "par i = pos h ! e" for i
      using children [OF that] asym [OF assms(1)] True refl by auto
    ultimately show ?thesis using True by (intro exI [of _ ?r]) auto
  next
    case False
    then have "larger_child lt e h = Ok (array h ! ?l)"
      using assms(3) at small by (simp add: larger_child_def heap_left_def heap_right_def has_right_def del: power_numeral)
    moreover have "\<not> lt (array h ! ?l) (array h ! i)" if "0 < i" "i < length (array h)" "par i = pos h ! e" for i
      using children [OF that(1,3)] that(2) False refl by auto
    ultimately show ?thesis using assms(3) by (intro exI [of _ ?l]) auto
  qed
qed

lemma down_round_ok:
  assumes "strict_weak lt" "at_hole lt e M h" "edge_above lt e h"
  shows "\<exists>k go. down_round lt e (h, True) = Ok (k, go) \<and> at_hole lt e M k \<and> edge_above lt e k \<and>
    (if go then pos h ! e < pos k ! e else k = h \<and> ordered lt (array k))"
proof -
  note at = at_hole_pos [OF assms(2)]
  let ?p = "pos h ! e" and ?xs = "array h"
  have h: "hole lt ?xs ?p" "heap_wf h" "0 < ?p \<Longrightarrow> edge lt ?xs ?p"
    using assms(2,3) by (auto simp: at_hole_def edge_above_def)
  show ?thesis
  proof (cases "2 * ?p + 1 < length ?xs")
    case False
    then have "down_round lt e (h, True) = Ok (h, False)"
      using at by (simp add: down_round_def Let_def has_left_def)
    moreover have "ordered lt ?xs"
    proof (rule hole_closed [OF h(1,3)])
      show "edge lt ?xs i" if "0 < i" "i < length ?xs" "par i = ?p" for i
        using children [OF that(1,3)] that(2) False by linarith
    qed
    ultimately show ?thesis using assms(2,3) by auto
  next
    case True
    obtain c where c: "larger_child lt e h = Ok (?xs ! c)" "0 < c" "c < length ?xs" "par c = ?p"
      "\<And>i. 0 < i \<Longrightarrow> i < length ?xs \<Longrightarrow> par i = ?p \<Longrightarrow> \<not> lt (?xs ! c) (?xs ! i)"
      using larger_child_ok [OF assms(1,2) True] by blast
    have pc: "?p < c" using par_less [OF c(2)] c(4) by simp
    show ?thesis
    proof (cases "lt e (?xs ! c)")
      case lt: True
      obtain k where k: "exchange e (?xs ! c) h = Ok k" "array k = swapped ?xs ?p c" "heap_wf k"
        using exchange_ok [OF h(2) at(2) c(3)] pc at(3) by auto
      have "pos k ! e = c" using wf_at [OF k(3), of c] k(2) at(2,3) c(3) by simp
      moreover have "hole lt (array k) c \<and> edge lt (array k) c"
        using hole_down [OF assms(1) h(1,3) c(2,3,4)] c(5) lt at(3) k(2) by simp
      ultimately have "at_hole lt e M k" "edge_above lt e k" "?p < pos k ! e"
        using k(2,3) pc mset_swapped [OF at(2) c(3)] assms(2) by (simp_all add: at_hole_def edge_above_def)
      moreover have "down_round lt e (h, True) = Ok (k, True)"
        using True at c(1) lt k(1) by (simp add: down_round_def Let_def has_left_def)
      ultimately show ?thesis by auto
    next
      case False
      then have "down_round lt e (h, True) = Ok (h, False)"
        using True at c(1) by (simp add: down_round_def Let_def has_left_def)
      moreover have "ordered lt ?xs"
      proof (rule hole_closed [OF h(1)])
        show "edge lt ?xs i" if "0 < i" "i < length ?xs" "par i = ?p" for i
          using ntrans [OF assms(1) False c(5) [OF that]] that(3) at(3) by (simp add: edge_def)
      qed (rule h(3))
      ultimately show ?thesis using assms(2,3) by auto
    qed
  qed
qed

lemma down_ok:
  assumes "strict_weak lt" "at_hole lt e M h" "edge_above lt e h"
  shows "\<exists>k. down lt e h = Ok k \<and> at_hole lt e M k \<and> ordered lt (array k)"
proof -
  let ?I = "\<lambda>p. at_hole lt e M (fst p) \<and> edge_above lt e (fst p) \<and> (\<not> snd p \<longrightarrow> ordered lt (array (fst p)))"
  have "\<exists>p. rwhile snd (down_round lt e) (h, True) = Ok p \<and> ?I p \<and> \<not> snd p"
  proof (rule rwhile_rule)
    show "wf (measure (\<lambda>(h, go). 2 * (size M - pos h ! e) + (if go then 1 else 0)))" by simp
    show "?I (h, True)" using assms(2,3) by simp
  next
    fix p :: "heap \<times> bool"
    assume p: "?I p" "snd p"
    obtain g where g: "p = (g, True)" using p(2) by (cases p) auto
    obtain k go where k: "down_round lt e (g, True) = Ok (k, go)" "at_hole lt e M k" "edge_above lt e k"
      "if go then pos g ! e < pos k ! e else k = g \<and> ordered lt (array k)"
      using down_round_ok [OF assms(1), of e M g] p(1) g by auto
    have "pos k ! e < size M" using at_hole_pos(2) [OF k(2)] k(2) by (auto simp: at_hole_def)
    then show "\<exists>v. down_round lt e p = Ok v \<and> ?I v \<and>
        (v, p) \<in> measure (\<lambda>(h, go). 2 * (size M - pos h ! e) + (if go then 1 else 0))"
      using g k by (cases go) auto
  qed
  then show ?thesis by (auto simp: down_def)
qed

section \<open>The queue\<close>

definition heap_ok :: "order \<Rightarrow> heap \<Rightarrow> bool" where
  "heap_ok lt h \<longleftrightarrow> heap_wf h \<and> ordered lt (array h)"

definition elements :: "heap \<Rightarrow> nat multiset" where
  "elements h = mset (array h)"

lemma array_set_index [simp]: "array (set_index e i h) = array h"
  by (simp add: set_index_def with_index_def Let_def)

lemma push_wf:
  assumes "heap_wf h" "e \<notin> set (array h)" "length (array h) < invalid_heap_position"
    "k = set_index e (length (array h)) (h\<lparr>array := array h @ [e]\<rparr>)"
  shows "heap_wf k" "array k = array h @ [e]" "pos k ! e = length (array h)"
proof -
  let ?n = "length (array h)"
  define ps where "ps = (if e \<ge> length (pos h) then vec_resize (pos h) (1 + e) invalid_heap_position else pos h)"
  have k: "k = h\<lparr>array := array h @ [e], pos := ps[e := ?n]\<rparr>"
    by (simp add: assms(4) set_index_def with_index_def Let_def ps_def)
  have ps: "e < length ps" "length (pos h) \<le> length ps"
    "\<And>d. d < length ps \<Longrightarrow> ps ! d = (if d < length (pos h) then pos h ! d else invalid_heap_position)"
    by (auto simp: ps_def nth_vec_resize)
  have old: "array h ! i \<noteq> e" "array h ! i < length (pos h)" "pos h ! (array h ! i) = i" if "i < ?n" for i
    using that assms(2) wf_at [OF assms(1)] nth_mem [OF that] by auto
  show "array k = array h @ [e]" "pos k ! e = ?n" using k ps(1) by simp_all
  show "heap_wf k"
    unfolding heap_wf_def
  proof (intro conjI allI impI)
    show "distinct (array k)" "length (array k) \<le> invalid_heap_position"
      using assms(1-3) by (auto simp: k heap_wf_def)
    fix i assume i: "i < length (array k)"
    show "array k ! i < length (pos k)" "pos k ! (array k ! i) = i"
      using i old [of i] ps by (auto simp: k nth_append nth_list_update less_Suc_eq)
  next
    fix d assume d: "d < length (pos k)" "pos k ! d \<noteq> invalid_heap_position"
    show "pos k ! d < length (array k)" "array k ! (pos k ! d) = d"
      using d ps assms(1) by (auto simp: k nth_append nth_list_update heap_wf_def split: if_splits)
  qed
qed

lemma hole_at_end:
  assumes "ordered lt xs"
  shows "hole lt (xs @ [e]) (length xs)"
proof -
  have p: "par i < length xs" if "0 < i" "i \<le> length xs" for i using par_less [OF that(1)] that(2) by simp
  have "edge lt (xs @ [e]) i" if "0 < i" "i < length (xs @ [e])" "i \<noteq> length xs" for i
    using assms that p [of i] by (simp add: ordered_def edge_def nth_append)
  moreover have "par i \<noteq> length xs" if "0 < i" "i < length (xs @ [e])" for i
    using p [of i] that by simp
  ultimately show ?thesis unfolding hole_def by blast
qed

lemma push_ok:
  assumes "strict_weak lt" "heap_ok lt h" "e \<notin># elements h" "size (elements h) < invalid_heap_position"
  shows "\<exists>k. heap_push_back lt e h = Ok k \<and> heap_ok lt k \<and> elements k = add_mset e (elements h)"
proof -
  define g where "g = set_index e (length (array h)) (h\<lparr>array := array h @ [e]\<rparr>)"
  have g: "heap_wf g" "array g = array h @ [e]" "pos g ! e = length (array h)"
    using push_wf [OF _ _ _ g_def] assms(2-4) by (simp_all add: heap_ok_def elements_def)
  have "at_hole lt e (add_mset e (elements h)) g"
    using g hole_at_end assms(2) by (simp add: at_hole_def elements_def heap_ok_def)
  then obtain k where k: "up lt e g = Ok k" "at_hole lt e (add_mset e (elements h)) k" "edge_above lt e k"
    using up_ok [OF assms(1)] by blast
  then obtain l where "down lt e k = Ok l" "at_hole lt e (add_mset e (elements h)) l" "ordered lt (array l)"
    using down_ok [OF assms(1)] by blast
  then show ?thesis
    using k(1) by (simp add: heap_push_back_def Let_def g_def [symmetric] heap_ok_def at_hole_def elements_def)
qed

lemma front_ok:
  assumes "strict_weak lt" "heap_ok lt h" "elements h \<noteq> {#}"
  shows "\<exists>m. heap_front h = Ok m \<and> m \<in># elements h \<and> (\<forall>x \<in># elements h. \<not> lt m x)"
proof -
  have "0 < length (array h)" using assms(3) by (simp add: elements_def)
  moreover have "\<not> lt (array h ! 0) x" if "x \<in># elements h" for x
    using ordered_max [OF assms(1)] assms(2) that by (auto simp: heap_ok_def elements_def in_set_conv_nth)
  ultimately show ?thesis by (simp add: heap_front_def elements_def)
qed

text \<open>Taking the last element off.\<close>

lemma pop_wf:
  assumes "heap_wf h" "array h \<noteq> []" "e = last (array h)"
    "k = (set_index e invalid_heap_position h)\<lparr>array := butlast (array (set_index e invalid_heap_position h))\<rparr>"
  shows "heap_wf k" "array k = butlast (array h)"
proof -
  let ?n = "length (array h) - 1"
  have n: "?n < length (array h)" "array h ! ?n = e" using assms(2,3) by (simp_all add: last_conv_nth)
  have e: "e < length (pos h)" "pos h ! e = ?n" using wf_at [OF assms(1) n(1)] n(2) by auto
  have k: "k = h\<lparr>array := butlast (array h), pos := (pos h)[e := invalid_heap_position]\<rparr>"
    using e by (simp add: assms(4) set_index_def with_index_in)
  then show "array k = butlast (array h)" by simp
  have old: "array h ! i \<noteq> e" if "i < ?n" for i
  proof
    assume "array h ! i = e"
    moreover have "i < length (array h)" using that by simp
    ultimately have "i = ?n" using wf_at [OF assms(1), of i] e(2) by simp
    then show False using that by simp
  qed
  show "heap_wf k"
    unfolding heap_wf_def
  proof (intro conjI allI impI)
    show "distinct (array k)" "length (array k) \<le> invalid_heap_position"
      using assms(1) by (auto simp: k heap_wf_def distinct_butlast)
    fix i assume i: "i < length (array k)"
    show "array k ! i < length (pos k)" "pos k ! (array k ! i) = i"
      using i old [of i] wf_at [OF assms(1), of i] by (auto simp: k nth_butlast)
  next
    fix d assume d: "d < length (pos k)" "pos k ! d \<noteq> invalid_heap_position"
    then have "d \<noteq> e" using e(1) by (auto simp: k)
    then have "d \<noteq> e" "pos h ! d < length (array h)" "array h ! (pos h ! d) = d"
      using assms(1) d by (auto simp: k heap_wf_def)
    moreover then have "pos h ! d \<noteq> ?n" using n(2) by auto
    ultimately show "pos k ! d < length (array k)" "array k ! (pos k ! d) = d"
      by (auto simp: k nth_butlast nth_list_update)
  qed
qed

lemma hole_at_front: "ordered lt xs \<Longrightarrow> hole lt (butlast (xs[0 := y])) 0"
  unfolding hole_def ordered_def edge_def
proof (intro conjI allI impI)
  fix i assume o: "\<forall>i. 0 < i \<longrightarrow> i < length xs \<longrightarrow> \<not> lt (xs ! par i) (xs ! i)"
    and i: "0 < i" "i < length (butlast (xs[0 := y]))" "i \<noteq> 0" "par i \<noteq> 0"
  then have "par i < length (butlast (xs[0 := y]))" using par_less by (meson order.strict_trans)
  then show "\<not> lt (butlast (xs[0 := y]) ! par i) (butlast (xs[0 := y]) ! i)"
    using o i by (simp add: nth_butlast)
qed simp

lemma pop_ok:
  assumes "strict_weak lt" "heap_ok lt h" "elements h \<noteq> {#}"
  shows "\<exists>k. heap_pop_front lt h = Ok (the_ok (heap_front h), k) \<and> heap_ok lt k \<and>
    elements k = elements h - {#the_ok (heap_front h)#}"
proof -
  let ?xs = "array h" and ?n = "length (array h) - 1"
  define m where "m = ?xs ! 0"
  have wf: "heap_wf h" and o: "ordered lt ?xs" using assms(2) by (simp_all add: heap_ok_def)
  have ne: "?xs \<noteq> []" using assms(3) by (simp add: elements_def)
  have m: "heap_front h = Ok m" "vec_at ?xs 0 = Ok m" using ne by (simp_all add: heap_front_def m_def)
  show ?thesis
  proof (cases "?n = 0")
    case True
    then obtain a where a: "?xs = [a]" using ne by (cases ?xs) auto
    define k where "k = (set_index m invalid_heap_position h)
      \<lparr>array := butlast (array (set_index m invalid_heap_position h))\<rparr>"
    have k: "heap_wf k" "array k = []"
      using pop_wf [OF wf ne _ k_def] a by (simp_all add: m_def)
    then have "heap_pop_front lt h = Ok (m, k)"
      using m(2) a by (simp add: heap_pop_front_def Let_def k_def)
    then show ?thesis using m(1) k a by (simp add: heap_ok_def ordered_def elements_def m_def)
  next
    case False
    let ?l = "last ?xs"
    have l: "?n < length ?xs" "?xs ! ?n = ?l" using ne by (simp_all add: last_conv_nth)
    obtain g where g: "exchange m ?l h = Ok g" "array g = swapped ?xs 0 ?n" "heap_wf g"
      using exchange_ok [OF wf _ l(1), of 0] False l(2) ne by (auto simp: m_def)
    have last: "last (array g) = m"
      using g(2) ne False l by (simp add: last_conv_nth m_def)
    have gne: "array g \<noteq> []" using g(2) ne by simp
    define k where "k = (set_index m invalid_heap_position g)
      \<lparr>array := butlast (array (set_index m invalid_heap_position g))\<rparr>"
    have k: "heap_wf k" "array k = butlast (array g)"
      using pop_wf [OF g(3) gne last [symmetric] k_def] by simp_all
    have xs: "array k = butlast (?xs[0 := ?l])"
      using k(2) g(2) l False by (simp add: butlast_list_update last_conv_nth)
    have ms: "mset (array k) = elements h - {#m#}"
    proof -
      have "mset (array g) = elements h"
        using g(2) mset_swapped [of 0 ?xs ?n] ne l by (simp add: elements_def)
      moreover have "array g = array k @ [m]" using k(2) last gne by (metis append_butlast_last_id)
      ultimately have "elements h = add_mset m (mset (array k))" by simp
      then show ?thesis by simp
    qed
    have lk: "length (array k) = ?n" "array k ! 0 = ?l"
      using xs False ne by (auto simp: nth_butlast)
    have hole: "hole lt (array k) 0" using hole_at_front [OF o] xs by simp
    have pop: "heap_pop_front lt h = rbind (if length (array k) > 1 then down lt ?l k else Ok k) (\<lambda>h. Ok (m, h))"
      using m(2) g(1) False by (simp add: heap_pop_front_def Let_def k_def)
    show ?thesis
    proof (cases "length (array k) > 1")
      case True
      have "0 < length (array k)" using True by linarith
      then have "pos k ! ?l = 0" using wf_at [OF k(1), of 0] lk(2) by auto
      moreover have "?l \<in> set (array k)" using lk(2) nth_mem [OF \<open>0 < length (array k)\<close>] by simp
      ultimately have "at_hole lt ?l (mset (array k)) k" "edge_above lt ?l k"
        using k(1) hole by (simp_all add: at_hole_def edge_above_def)
      then obtain r where "down lt ?l k = Ok r" "at_hole lt ?l (mset (array k)) r" "ordered lt (array r)"
        using down_ok [OF assms(1)] by blast
      then show ?thesis
        using pop True m(1) ms by (simp add: heap_ok_def at_hole_def elements_def)
    next
      case short: False
      then have "ordered lt (array k)" by (simp add: ordered_def)
      then show ?thesis using pop short m(1) ms k(1) by (simp add: heap_ok_def elements_def)
    qed
  qed
qed

lemma elements_empty [simp]: "elements empty_heap = {#}"
  by (simp add: elements_def empty_heap_def)

lemma empty_heap_ok: "heap_ok lt empty_heap"
  by (simp add: heap_ok_def heap_wf_def ordered_def empty_heap_def)

lemma clear_ok: "heap_ok lt (heap_clear h) \<and> elements (heap_clear h) = {#}"
  by (simp add: heap_ok_def heap_wf_def ordered_def heap_clear_def elements_def)

lemma contains_elements: "heap_ok lt h \<Longrightarrow> contains e h \<longleftrightarrow> e \<in># elements h"
  by (simp add: heap_ok_def contains_iff elements_def)

lemma update_ok:
  assumes "strict_weak lt" "strict_weak ls" "heap_ok ls h" "e \<in># elements h"
    "\<And>a b. a \<noteq> e \<Longrightarrow> b \<noteq> e \<Longrightarrow> lt a b = ls a b"
  shows "\<exists>k. heap_update lt e h = Ok k \<and> heap_ok lt k \<and> elements k = elements h"
proof -
  let ?xs = "array h" and ?p = "pos h ! e"
  have wf: "heap_wf h" and o: "ordered ls ?xs" using assms(3) by (simp_all add: heap_ok_def)
  have p: "?p < length ?xs" "?xs ! ?p = e" using wf_pos [OF wf] assms(4) by (simp_all add: elements_def)
  have other: "?xs ! i \<noteq> e" if "i < length ?xs" "i \<noteq> ?p" for i
    using wf_at [OF wf that(1)] that(2) by auto
  have ls: "\<not> ls (?xs ! par i) (?xs ! i)" if "0 < i" "i < length ?xs" for i
    using o that by (simp add: ordered_def edge_def)
  have pl: "par i < length ?xs" if "0 < i" "i < length ?xs" for i
    using par_less [OF that(1)] that(2) by simp
  have "hole lt ?xs ?p"
    unfolding hole_def edge_def
  proof (intro conjI allI impI)
    fix i assume i: "0 < i" "i < length ?xs" "i \<noteq> ?p" "par i \<noteq> ?p"
    show "\<not> lt (?xs ! par i) (?xs ! i)"
      using ls [OF i(1,2)] assms(5) [OF other [OF pl [OF i(1,2)] i(4)] other [OF i(2,3)]] by simp
  next
    fix i assume i: "0 < ?p" "0 < i" "i < length ?xs" "par i = ?p"
    have "i \<noteq> ?p" "par ?p \<noteq> ?p" using par_less [OF i(1)] par_less [OF i(2)] i(4) by auto
    moreover have "\<not> ls (?xs ! par ?p) (?xs ! i)"
      using ntrans [OF assms(2) ls [OF i(1) p(1)]] ls [OF i(2,3)] i(4) by simp
    ultimately show "\<not> lt (?xs ! par ?p) (?xs ! i)"
      using assms(5) [OF other [OF pl [OF i(1) p(1)]] other [OF i(3)]] by simp
  qed
  then have "at_hole lt e (elements h) h"
    using wf assms(4) by (simp add: at_hole_def elements_def)
  then obtain k where k: "up lt e h = Ok k" "at_hole lt e (elements h) k" "edge_above lt e k"
    using up_ok [OF assms(1)] by blast
  then obtain l where "down lt e k = Ok l" "at_hole lt e (elements h) l" "ordered lt (array l)"
    using down_ok [OF assms(1)] by blast
  then show ?thesis using k(1) by (simp add: heap_update_def heap_ok_def at_hole_def elements_def)
qed

section \<open>The interface of the queue\<close>

text \<open>What the decision heuristic relies on: the first element is a maximum, and it is the one taken off.\<close>

locale max_queue =
  fixes lt :: "'e \<Rightarrow> 'e \<Rightarrow> bool" and ok :: "'h \<Rightarrow> bool" and els :: "'h \<Rightarrow> 'e multiset"
    and front :: "'h \<Rightarrow> 'e result" and pop :: "'h \<Rightarrow> ('e \<times> 'h) result"
  assumes front_max: "ok h \<Longrightarrow> els h \<noteq> {#} \<Longrightarrow>
      \<exists>m. front h = Ok m \<and> m \<in># els h \<and> (\<forall>x \<in># els h. \<not> lt m x)"
    and pop_front: "ok h \<Longrightarrow> els h \<noteq> {#} \<Longrightarrow> front h = Ok m \<Longrightarrow>
      \<exists>k. pop h = Ok (m, k) \<and> ok k \<and> els k = els h - {#m#}"
begin

definition skip_round :: "('e \<Rightarrow> bool result) \<Rightarrow> 'h \<times> 'e option \<Rightarrow> ('h \<times> 'e option) result" where
  "skip_round test s = rbind (front (fst s)) (\<lambda>m. rbind (test m) (\<lambda>b.
     if b then rbind (pop (fst s)) (\<lambda>(_, k). Ok (k, None)) else Ok (fst s, Some m)))"

text \<open>Taking elements off as long as they satisfy \<open>P\<close> ends at a maximum of the others.\<close>

lemma skip:
  assumes "ok h" "\<exists>x \<in># els h. \<not> P x" "\<And>x. x \<in># els h \<Longrightarrow> test x = Ok (P x)"
  shows "\<exists>k m. rwhile (\<lambda>s. snd s = None) (skip_round test) (h, None) = Ok (k, Some m) \<and> ok k \<and> els k \<subseteq># els h \<and>
    filter_mset (\<lambda>x. \<not> P x) (els k) = filter_mset (\<lambda>x. \<not> P x) (els h) \<and>
    m \<in># els k \<and> \<not> P m \<and> (\<forall>x \<in># els k. \<not> lt m x)"
proof -
  let ?N = "\<lambda>h. filter_mset (\<lambda>x. \<not> P x) (els h)"
  let ?I = "\<lambda>s. ok (fst s) \<and> els (fst s) \<subseteq># els h \<and> ?N (fst s) = ?N h \<and>
    (\<forall>m. snd s = Some m \<longrightarrow> m \<in># els (fst s) \<and> \<not> P m \<and> (\<forall>x \<in># els (fst s). \<not> lt m x))"
  have "\<exists>s. rwhile (\<lambda>s. snd s = None) (skip_round test) (h, None) = Ok s \<and> ?I s \<and> \<not> snd s = None"
  proof (rule rwhile_rule)
    show "wf (measure (\<lambda>s. 2 * size (els (fst s)) + (if snd s = None then 1 else 0)))" by simp
    show "?I (h, None)" using assms(1) by simp
  next
    fix s assume s: "?I s" "snd s = None"
    obtain k where k: "s = (k, None)" using s(2) by (cases s) auto
    have I: "ok k" "els k \<subseteq># els h" "?N k = ?N h" using s(1) k by auto
    obtain x where "x \<in># ?N h" using assms(2) by auto
    then have "?N h \<noteq> {#}" by auto
    then have ne: "els k \<noteq> {#}" using I(3) by auto
    obtain m where m: "front k = Ok m" "m \<in># els k" "\<forall>x \<in># els k. \<not> lt m x"
      using front_max [OF I(1) ne] by blast
    obtain l where l: "pop k = Ok (m, l)" "ok l" "els l = els k - {#m#}"
      using pop_front [OF I(1) ne m(1)] by blast
    have test: "test m = Ok (P m)" using assms(3) mset_subset_eqD [OF I(2) m(2)] by blast
    show "\<exists>v. skip_round test s = Ok v \<and> ?I v \<and>
        (v, s) \<in> measure (\<lambda>s. 2 * size (els (fst s)) + (if snd s = None then 1 else 0))"
    proof (cases "P m")
      case True
      have "els l \<subseteq># els h" using subset_mset.order_trans [OF diff_subset_eq_self I(2)] l(3) by simp
      moreover have "?N l = ?N h" using l(3) I(3) True by simp
      moreover have "size (els l) < size (els k)" using l(3) m(2) by (simp add: size_Diff1_less)
      ultimately show ?thesis using k m(1) l True test by (simp add: skip_round_def)
    next
      case False
      then show ?thesis using k m I test by (simp add: skip_round_def)
    qed
  qed
  then show ?thesis by auto
qed

end

lemma strict_weak_scores: "strict_weak (score_smaller stab)"
  by (auto simp: strict_weak_def score_smaller_def)

interpretation score_queue: max_queue "score_smaller stab" "heap_ok (score_smaller stab)" elements heap_front
  "heap_pop_front (score_smaller stab)" for stab :: "nat \<Rightarrow> 'a::linorder"
proof (unfold_locales, goal_cases)
  case (1 h)
  then show ?case by (rule front_ok [OF strict_weak_scores])
next
  case (2 h m)
  then show ?case using pop_ok [OF strict_weak_scores 2(1,2)] by simp
qed

text \<open>C24. The decision heap is a priority queue of the scores: under its invariant the push of a new element,
  the removal of the first and the update after the score of one element has changed all succeed and keep the
  invariant, for the new scores in the last case; the elements change by exactly the one pushed or removed; the one removed is the
  first and no element has a greater score; \<open>contains\<close> tells membership.\<close>

theorem score_heap_correct:
  assumes "heap_ok (score_smaller stab) h"
  shows "(contains e h \<longleftrightarrow> e \<in># elements h) \<and>
    (e \<notin># elements h \<longrightarrow> size (elements h) < invalid_heap_position \<longrightarrow>
      (\<exists>k. heap_push_back (score_smaller stab) e h = Ok k \<and> heap_ok (score_smaller stab) k \<and>
        elements k = add_mset e (elements h))) \<and>
    (elements h \<noteq> {#} \<longrightarrow>
      (\<exists>m k. heap_front h = Ok m \<and> heap_pop_front (score_smaller stab) h = Ok (m, k) \<and>
        heap_ok (score_smaller stab) k \<and> elements h = add_mset m (elements k) \<and>
        (\<forall>x \<in># elements h. stab x \<le> stab m))) \<and>
    (e \<in># elements h \<longrightarrow>
      (\<exists>k. heap_update (score_smaller (stab(e := s))) e h = Ok k \<and>
        heap_ok (score_smaller (stab(e := s))) k \<and> elements k = elements h))"
proof (intro conjI impI)
  show "contains e h \<longleftrightarrow> e \<in># elements h" by (rule contains_elements [OF assms])
next
  assume "e \<notin># elements h" "size (elements h) < invalid_heap_position"
  then show "\<exists>k. heap_push_back (score_smaller stab) e h = Ok k \<and> heap_ok (score_smaller stab) k \<and>
      elements k = add_mset e (elements h)"
    by (rule push_ok [OF strict_weak_scores assms])
next
  assume ne: "elements h \<noteq> {#}"
  obtain m where m: "heap_front h = Ok m" "m \<in># elements h" "\<forall>x \<in># elements h. \<not> score_smaller stab m x"
    using score_queue.front_max [OF assms ne] by blast
  obtain k where "heap_pop_front (score_smaller stab) h = Ok (m, k)" "heap_ok (score_smaller stab) k"
    "elements k = elements h - {#m#}"
    using score_queue.pop_front [OF assms ne m(1)] by blast
  moreover have "\<forall>x \<in># elements h. stab x \<le> stab m"
    using m(3) by (auto simp: score_smaller_def not_less [symmetric] split: if_splits)
  ultimately show "\<exists>m k. heap_front h = Ok m \<and> heap_pop_front (score_smaller stab) h = Ok (m, k) \<and>
      heap_ok (score_smaller stab) k \<and> elements h = add_mset m (elements k) \<and> (\<forall>x \<in># elements h. stab x \<le> stab m)"
    using m(1,2) by simp
next
  assume "e \<in># elements h"
  then show "\<exists>k. heap_update (score_smaller (stab(e := s))) e h = Ok k \<and>
      heap_ok (score_smaller (stab(e := s))) k \<and> elements k = elements h"
    by (rule update_ok [OF strict_weak_scores strict_weak_scores assms]) (simp add: score_smaller_def)
qed

definition sample_scores :: "nat \<Rightarrow> nat" where
  "sample_scores e = (if e = 2 then 7 else if e = 3 then 5 else e)"

definition sample_heap :: heap where
  "sample_heap = \<lparr>array = [2, 1, 3], pos = [invalid_heap_position, 1, 0, 2]\<rparr>"

lemma sample_heap_ok: "heap_ok (score_smaller sample_scores) sample_heap"
proof -
  have "distinct (array sample_heap)" by (simp add: sample_heap_def)
  moreover have "\<forall>i < length (array sample_heap).
      array sample_heap ! i < length (pos sample_heap) \<and> pos sample_heap ! (array sample_heap ! i) = i"
    by (auto simp: sample_heap_def less_Suc_eq numeral_3_eq_3)
  moreover have "\<forall>e < length (pos sample_heap). pos sample_heap ! e \<noteq> invalid_heap_position \<longrightarrow>
      pos sample_heap ! e < length (array sample_heap) \<and> array sample_heap ! (pos sample_heap ! e) = e"
    by (auto simp: sample_heap_def less_Suc_eq numeral_3_eq_3)
  moreover have "ordered (score_smaller sample_scores) (array sample_heap)"
    by (auto simp: sample_heap_def ordered_def edge_def par_def score_smaller_def sample_scores_def less_Suc_eq
        numeral_3_eq_3)
  ultimately show ?thesis
    by (simp add: heap_ok_def heap_wf_def sample_heap_def invalid_heap_position_def)
qed

theorem score_heap_correct_witness:
  "(\<exists>k. heap_push_back (score_smaller sample_scores) 5 sample_heap = Ok k \<and>
      heap_ok (score_smaller sample_scores) k \<and> elements k = {#1, 2, 3, 5#}) \<and>
   (\<exists>k. heap_update (score_smaller (sample_scores(3 := 9))) 3 sample_heap = Ok k \<and>
      heap_ok (score_smaller (sample_scores(3 := 9))) k \<and> elements k = {#1, 2, 3#})"
proof -
  have "elements sample_heap = {#1, 2, 3#}" by (simp add: elements_def sample_heap_def)
  moreover have "size (elements sample_heap) < invalid_heap_position"
    by (simp add: elements_def sample_heap_def invalid_heap_position_def)
  ultimately show ?thesis
    using score_heap_correct [OF sample_heap_ok, of 5 0] score_heap_correct [OF sample_heap_ok, of 3 9]
    by (simp add: add_mset_commute)
qed

end
