(* ===== verification/Decision.thy ===== *)
theory Decision
  imports Vmtf_Queue Binary_Heap
begin

text \<open>
  Decisions and backtracking of the search of CaDiCaL (\<open>decide.cpp\<close>, \<open>backtrack.cpp\<close>,
  \<open>queue.cpp\<close>, \<open>score.cpp\<close>, \<open>phases.cpp\<close> and the bumping of \<open>analyze.cpp\<close>).

  The state is the part of \<open>Internal\<close> these functions work on. The scores are elements of a linear order
  instead of floating point numbers (which are never NaN here); no propagator is connected.
\<close>

section \<open>State\<close>

record 'a solver =
  max_var :: nat
  level :: nat
  trail :: "int list"
  control :: "(int \<times> nat) list"
  vtab :: "(nat \<times> nat) list"
  vals :: "int list"
  num_assigned :: nat
  lq :: "Link list \<times> Queue"
  btab :: "int list"
  bumped_stat :: int
  scores :: heap
  stab :: "nat \<Rightarrow> 'a"
  saved :: "int list"
  forced :: "int list"
  target :: "int list"
  best :: "int list"
  propagated :: nat
  propagated2 :: nat
  no_conflict_until :: nat
  target_assigned :: nat
  best_assigned :: nat
  rephased :: nat
  conflicts :: nat
  rephase_conflicts :: nat
  tainted_literal :: int
  assumptions :: "int list"
  clause :: "int list"
  unsat_constraint :: bool
  marked_failed :: bool

text \<open>The options and flags the decisions depend on; \<open>clause\<close> above is the constraint.\<close>

record options =
  opt_phase :: bool
  opt_forcephase :: bool
  opt_reverse :: bool
  opt_score :: bool
  opt_target :: nat
  opt_shuffle :: bool
  opt_shufflequeue :: bool
  opt_shufflerandom :: bool
  stable :: bool
  force_saved_phase :: bool

abbreviation links :: "'a solver \<Rightarrow> Link list" where
  "links st \<equiv> fst (lq st)"

abbreviation queue :: "'a solver \<Rightarrow> Queue" where
  "queue st \<equiv> snd (lq st)"

definition vidx :: "int \<Rightarrow> nat" where
  "vidx lit = nat \<bar>lit\<bar>"

text \<open>Only the values of the variables are kept: \<open>set_val\<close> writes opposite values for opposite literals.\<close>

definition val :: "int \<Rightarrow> 'a solver \<Rightarrow> int result" where
  "val lit st = rbind (vec_at (vals st) (vidx lit)) (\<lambda>v. Ok (if lit < 0 then - v else v))"

definition set_val :: "int \<Rightarrow> int \<Rightarrow> 'a solver \<Rightarrow> 'a solver result" where
  "set_val lit v st =
     rbind (vec_set (vals st) (vidx lit) (if lit < 0 then - v else v)) (\<lambda>vs. Ok (st\<lparr>vals := vs\<rparr>))"

definition use_scores :: "options \<Rightarrow> bool" where
  "use_scores opts \<longleftrightarrow> opt_score opts \<and> stable opts"

section \<open>The queue and the heap of variables\<close>

definition update_queue_unassigned :: "nat \<Rightarrow> 'a solver \<Rightarrow> 'a solver result" where
  "update_queue_unassigned idx st =
     rbind (vec_at (btab st) idx) (\<lambda>b.
       Ok (st\<lparr>lq := (links st, (queue st)\<lparr>unassigned := idx, q_bumped := b\<rparr>)\<rparr>))"

text \<open>The two branches of \<open>init_enqueue\<close>, for the option \<open>reverse\<close> and without it.\<close>

definition init_enqueue_first :: "nat \<Rightarrow> 'a solver \<Rightarrow> 'a solver result" where
  "init_enqueue_first idx st =
     (let f = q_first (queue st) in
      rbind (link_prev idx 0 (links st)) (\<lambda>ls.
      rbind (if f \<noteq> 0
             then rbind (link_prev f idx ls) (\<lambda>ls. rbind (vec_at (btab st) f) (\<lambda>b.
                    rbind (vec_set (btab st) idx (b - 1)) (\<lambda>bs. Ok (st\<lparr>lq := (ls, queue st), btab := bs\<rparr>))))
             else rbind (vec_set (btab st) idx 0) (\<lambda>bs.
                    Ok (st\<lparr>lq := (ls, (queue st)\<lparr>q_last := idx\<rparr>), btab := bs\<rparr>))) (\<lambda>st.
      rbind (link_next idx (q_first (queue st)) (links st)) (\<lambda>ls.
      let st = st\<lparr>lq := (ls, (queue st)\<lparr>q_first := idx\<rparr>)\<rparr> in
      if unassigned (queue st) = 0 then update_queue_unassigned (q_last (queue st)) st else Ok st))))"

definition init_enqueue_last :: "nat \<Rightarrow> 'a solver \<Rightarrow> 'a solver result" where
  "init_enqueue_last idx st =
     (let l = q_last (queue st) in
      rbind (link_next idx 0 (links st)) (\<lambda>ls.
      rbind (if l \<noteq> 0 then rbind (link_next l idx ls) (\<lambda>ls. Ok (ls, queue st))
             else Ok (ls, (queue st)\<lparr>q_first := idx\<rparr>)) (\<lambda>(ls, q).
      rbind (vec_set (btab st) idx (bumped_stat st + 1)) (\<lambda>bs.
      rbind (link_prev idx (q_last q) ls) (\<lambda>ls.
        update_queue_unassigned idx
          (st\<lparr>lq := (ls, q\<lparr>q_last := idx\<rparr>), btab := bs, bumped_stat := bumped_stat st + 1\<rparr>))))))"

definition init_enqueue :: "options \<Rightarrow> nat \<Rightarrow> 'a solver \<Rightarrow> 'a solver result" where
  "init_enqueue opts idx st = (if opt_reverse opts then init_enqueue_first idx st else init_enqueue_last idx st)"

definition init_queue :: "options \<Rightarrow> nat \<Rightarrow> nat \<Rightarrow> 'a solver \<Rightarrow> 'a solver result" where
  "init_queue opts old_max_var new_max_var = rfold (\<lambda>i. init_enqueue opts (i + 1)) [old_max_var..<new_max_var]"

definition push_score :: "nat \<Rightarrow> 'a::linorder solver \<Rightarrow> 'a solver result" where
  "push_score idx st =
     rbind (heap_push_back (score_smaller (stab st)) idx (scores st)) (\<lambda>h. Ok (st\<lparr>scores := h\<rparr>))"

definition init_scores :: "nat \<Rightarrow> nat \<Rightarrow> 'a::linorder solver \<Rightarrow> 'a solver result" where
  "init_scores old_max_var new_max_var = rfold (\<lambda>i. push_score (i + 1)) [old_max_var..<new_max_var]"

text \<open>The size of the tables: doubled until the new variables fit.\<close>

function grow :: "nat \<Rightarrow> nat \<Rightarrow> nat" where
  "grow n m = (if n = 0 \<or> m < n then n else grow (2 * n) m)"
  by pat_completeness auto
termination by (relation "measure (\<lambda>(n, m). Suc m - n)") auto

declare grow.simps [simp del]

definition enlarge_init :: "nat \<Rightarrow> 'b \<Rightarrow> 'b list \<Rightarrow> 'b list" where
  "enlarge_init n d v = (if length v < n then vec_resize v n d else v)"

definition enlarge :: "options \<Rightarrow> nat \<Rightarrow> 'a solver \<Rightarrow> 'a solver" where
  "enlarge opts new_max_var st =
     (let vsize = length (vals st);
          n = grow (if vsize \<noteq> 0 then 2 * vsize else 1 + new_max_var) new_max_var
      in st\<lparr>vtab := enlarge_init n (0, 0) (vtab st),
            lq := (enlarge_init n \<lparr>l_prev = 0, l_next = 0\<rparr> (links st), queue st),
            btab := enlarge_init n 0 (btab st),
            vals := vec_resize (take (max_var st + 1) (vals st)) n 0,
            saved := enlarge_init n (if opt_phase opts then 1 else - 1) (saved st),
            forced := enlarge_init n 0 (forced st),
            target := enlarge_init n 0 (target st),
            best := enlarge_init n 0 (best st)\<rparr>)"

definition bump_queue :: "int \<Rightarrow> 'a solver \<Rightarrow> 'a solver result" where
  "bump_queue lit st =
     (let idx = vidx lit in
      rbind (vec_at (links st) idx) (\<lambda>l.
      if l_next l = 0 then Ok st
      else rbind (dequeue idx (lq st)) (\<lambda>x. rbind (enqueue idx x) (\<lambda>x.
           rbind (vec_set (btab st) idx (bumped_stat st + 1)) (\<lambda>bs.
           rbind (vec_at (vals st) idx) (\<lambda>v.
             let st = st\<lparr>lq := x, btab := bs, bumped_stat := bumped_stat st + 1\<rparr> in
             if v = 0 then update_queue_unassigned idx st else Ok st))))))"

text \<open>
  The new score \<open>s\<close> is the old one plus the increment, both of the order of the scores; the heap is updated
  when it holds the variable.
\<close>

definition bump_score :: "int \<Rightarrow> 'a::linorder \<Rightarrow> 'a solver \<Rightarrow> 'a solver result" where
  "bump_score lit s st =
     (let idx = vidx lit; st = st\<lparr>stab := (stab st)(idx := s)\<rparr> in
      if contains idx (scores st)
      then rbind (heap_update (score_smaller (stab st)) idx (scores st)) (\<lambda>h. Ok (st\<lparr>scores := h\<rparr>))
      else Ok st)"

text \<open>Renewing the queue in the order of a list, as at the end of \<open>shuffle_queue\<close>.\<close>

definition refill_queue :: "nat list \<Rightarrow> 'a solver \<Rightarrow> 'a solver result" where
  "refill_queue order st =
     rbind (rfold enqueue order (links st, (queue st)\<lparr>q_first := 0, q_last := 0\<rparr>)) (\<lambda>x. Ok (st\<lparr>lq := x\<rparr>))"

text \<open>The loops from the last variable to the first, with the variable and what they compute.\<close>

definition backward_links :: "('b \<Rightarrow> nat \<Rightarrow> 'b result) \<Rightarrow> Link list \<Rightarrow> nat \<Rightarrow> 'b \<Rightarrow> 'b result" where
  "backward_links f ls idx s =
     rbind (rwhile (\<lambda>(idx, s). idx \<noteq> 0)
       (\<lambda>(idx, s). rbind (f s idx) (\<lambda>s. rbind (vec_at ls idx) (\<lambda>l. Ok (l_prev l, s)))) (idx, s))
       (\<lambda>(idx, s). Ok s)"

definition collect_var :: "nat list \<Rightarrow> nat \<Rightarrow> nat list result" where
  "collect_var order idx = Ok (order @ [idx])"

definition stamp_var :: "int list \<times> int \<Rightarrow> nat \<Rightarrow> (int list \<times> int) result" where
  "stamp_var bt idx = rbind (vec_set (fst bt) idx (snd bt)) (\<lambda>bs. Ok (bs, snd bt - 1))"

text \<open>
  The two orders: all variables downward with the swaps of the random generator, whose \<open>pick_int (i, max_var - 1)\<close>
  is the parameter \<open>picks i\<close>, or the queue from its last variable.
\<close>

definition random_order :: "(nat \<Rightarrow> nat) \<Rightarrow> nat \<Rightarrow> nat list" where
  "random_order picks n =
     fold (\<lambda>i xs. xs[i := xs ! picks i, picks i := xs ! i]) [0..<n - 1] (rev [1..<Suc n])"

definition shuffle_order :: "options \<Rightarrow> (nat \<Rightarrow> nat) \<Rightarrow> 'a solver \<Rightarrow> nat list result" where
  "shuffle_order opts picks st =
     (if opt_shufflerandom opts then Ok (random_order picks (max_var st))
      else backward_links collect_var (links st) (q_last (queue st)) [])"

definition stamp_queue :: "'a solver \<Rightarrow> 'a solver result" where
  "stamp_queue st =
     rbind (backward_links stamp_var (links st) (q_last (queue st)) (btab st, q_bumped (queue st))) (\<lambda>(bs, b).
       Ok (st\<lparr>btab := bs, lq := (links st, (queue st)\<lparr>unassigned := q_last (queue st)\<rparr>)\<rparr>))"

definition shuffle_queue :: "options \<Rightarrow> (nat \<Rightarrow> nat) \<Rightarrow> 'a solver \<Rightarrow> 'a solver result" where
  "shuffle_queue opts picks st =
     (if \<not> opt_shuffle opts \<or> \<not> opt_shufflequeue opts then Ok st
      else rbind (shuffle_order opts picks st) (\<lambda>order. rbind (refill_queue order st) stamp_queue))"

section \<open>Picking a variable\<close>

text \<open>The loops of the two heuristics; a round looks at one variable and ends the loop when it has no value.\<close>

definition queue_round :: "'a solver \<Rightarrow> nat \<times> nat \<times> bool \<Rightarrow> (nat \<times> nat \<times> bool) result" where
  "queue_round st s = (case s of (res, searched, go) \<Rightarrow>
     rbind (vec_at (vals st) res) (\<lambda>v.
       if v = 0 then Ok (res, searched, False)
       else rbind (vec_at (links st) res) (\<lambda>l. Ok (l_prev l, searched + 1, True))))"

definition next_decision_variable_on_queue :: "'a solver \<Rightarrow> (nat \<times> 'a solver) result" where
  "next_decision_variable_on_queue st =
     rbind (rwhile (\<lambda>(res, searched, go). go) (queue_round st) (unassigned (queue st), 0, True)) (\<lambda>(res, searched, go).
       if searched \<noteq> 0 then rbind (update_queue_unassigned res st) (\<lambda>st. Ok (res, st)) else Ok (res, st))"

definition best_round :: "'a::linorder solver \<Rightarrow> heap \<times> nat option \<Rightarrow> (heap \<times> nat option) result" where
  "best_round st s =
     rbind (heap_front (fst s)) (\<lambda>res. rbind (vec_at (vals st) res) (\<lambda>v.
       if v = 0 then Ok (fst s, Some res)
       else rbind (heap_pop_front (score_smaller (stab st)) (fst s)) (\<lambda>(_, h). Ok (h, None))))"

definition next_decision_variable_with_best_score :: "'a::linorder solver \<Rightarrow> (nat \<times> 'a solver) result" where
  "next_decision_variable_with_best_score st =
     rbind (rwhile (\<lambda>s. snd s = None) (best_round st) (scores st, None)) (\<lambda>(h, res).
       Ok (the res, st\<lparr>scores := h\<rparr>))"

definition next_decision_variable :: "options \<Rightarrow> 'a::linorder solver \<Rightarrow> (nat \<times> 'a solver) result" where
  "next_decision_variable opts st =
     (if use_scores opts then next_decision_variable_with_best_score st else next_decision_variable_on_queue st)"

definition decide_phase :: "options \<Rightarrow> nat \<Rightarrow> bool \<Rightarrow> 'a solver \<Rightarrow> int" where
  "decide_phase opts idx to_target st =
     (let initial_phase = if opt_phase opts then 1 else - 1;
          phase = if force_saved_phase opts then saved st ! idx else 0;
          phase = if phase = 0 then forced st ! idx else phase;
          phase = if phase = 0 \<and> opt_forcephase opts then initial_phase else phase;
          phase = if phase = 0 \<and> to_target then target st ! idx else phase;
          phase = if phase = 0 then saved st ! idx else phase;
          phase = if phase = 0 then initial_phase else phase
      in phase * int idx)"

section \<open>Assigning, unassigning and backtracking\<close>

definition new_trail_level :: "int \<Rightarrow> 'a solver \<Rightarrow> 'a solver" where
  "new_trail_level lit st = st\<lparr>level := level st + 1, control := control st @ [(lit, length (trail st))]\<rparr>"

text \<open>
  \<open>search_assign\<close> with the level of the literal: the current one for a decision. The phase is always saved (the code does
  not while it tries lucky phases), and the call \<open>learn_unit_clause\<close> for a literal of the root level is left out.
\<close>

definition search_assign :: "int \<Rightarrow> nat \<Rightarrow> 'a solver \<Rightarrow> 'a solver result" where
  "search_assign lit lit_level st =
     (let idx = vidx lit; tmp = (if lit < 0 then - 1 else 1) in
      rbind (vec_set (vtab st) idx (lit_level, length (trail st))) (\<lambda>vt.
      rbind (set_val (int idx) tmp (st\<lparr>vtab := vt, num_assigned := num_assigned st + 1\<rparr>)) (\<lambda>st.
      rbind (vec_set (saved st) idx tmp) (\<lambda>sv.
        Ok (st\<lparr>saved := sv, trail := trail st @ [lit]\<rparr>)))))"

definition search_assume_decision :: "int \<Rightarrow> 'a solver \<Rightarrow> 'a solver result" where
  "search_assume_decision lit st =
     (let st = new_trail_level lit st in search_assign lit (level st) st)"

text \<open>The two heuristics learn that a variable has lost its value.\<close>

definition heap_unassign :: "nat \<Rightarrow> 'a::linorder solver \<Rightarrow> 'a solver result" where
  "heap_unassign idx st = (if \<not> contains idx (scores st) then push_score idx st else Ok st)"

definition queue_unassign :: "nat \<Rightarrow> 'a solver \<Rightarrow> 'a solver result" where
  "queue_unassign idx st =
     rbind (vec_at (btab st) idx) (\<lambda>b.
       if q_bumped (queue st) < b then update_queue_unassigned idx st else Ok st)"

definition unassign :: "int \<Rightarrow> 'a::linorder solver \<Rightarrow> 'a solver result" where
  "unassign lit st =
     rbind (set_val lit 0 st) (\<lambda>st.
     let idx = vidx lit; st = st\<lparr>num_assigned := num_assigned st - 1\<rparr> in
     rbind (heap_unassign idx st) (queue_unassign idx))"

definition copy_phases :: "'a solver \<Rightarrow> int list \<Rightarrow> int list" where
  "copy_phases st dst = fold (\<lambda>i dst. dst[i := saved st ! i]) [1..<Suc (max_var st)] dst"

text \<open>\<open>66\<close> is the character \<open>B\<close>; the three stages may reset, copy to \<open>target\<close> and copy to \<open>best\<close>.\<close>

definition must_reset :: "'a solver \<Rightarrow> bool" where
  "must_reset st \<longleftrightarrow> rephased st \<noteq> 0 \<and> conflicts st > rephase_conflicts st"

definition reset_assigned :: "'a solver \<Rightarrow> 'a solver" where
  "reset_assigned st =
     (if must_reset st
      then st\<lparr>target_assigned := 0, best_assigned := (if rephased st = 66 then 0 else best_assigned st)\<rparr> else st)"

definition update_target :: "'a solver \<Rightarrow> 'a solver" where
  "update_target st =
     (if no_conflict_until st > target_assigned st
      then st\<lparr>target := copy_phases st (target st), target_assigned := no_conflict_until st\<rparr> else st)"

definition update_best :: "'a solver \<Rightarrow> 'a solver" where
  "update_best st =
     (if no_conflict_until st > best_assigned st
      then st\<lparr>best := copy_phases st (best st), best_assigned := no_conflict_until st\<rparr> else st)"

definition update_target_and_best :: "'a solver \<Rightarrow> 'a solver" where
  "update_target_and_best st =
     (let u = update_best (update_target (reset_assigned st)) in if must_reset st then u\<lparr>rephased := 0\<rparr> else u)"

text \<open>The loop over the trail, with the positions \<open>i\<close> and \<open>j\<close>.\<close>

definition backtrack_round :: "nat \<Rightarrow> nat \<times> nat \<times> 'a::linorder solver \<Rightarrow> (nat \<times> nat \<times> 'a solver) result" where
  "backtrack_round new_level s = (case s of (i, j, st) \<Rightarrow>
     rbind (vec_at (trail st) i) (\<lambda>lit.
     rbind (vec_at (vtab st) (vidx lit)) (\<lambda>v.
       if fst v > new_level then rbind (unassign lit st) (\<lambda>st. Ok (i + 1, j, st))
       else Ok (i + 1, j + 1, st\<lparr>trail := (trail st)[j := lit], vtab := (vtab st)[vidx lit := (fst v, j)]\<rparr>))))"

definition shrink_trail :: "nat \<Rightarrow> nat \<Rightarrow> nat \<Rightarrow> 'a solver \<Rightarrow> 'a solver" where
  "shrink_trail new_level assigned j st =
     st\<lparr>trail := take j (trail st),
        propagated := min (propagated st) assigned, propagated2 := min (propagated2 st) assigned,
        no_conflict_until := min (no_conflict_until st) assigned,
        control := take (new_level + 1) (control st), level := new_level\<rparr>"

definition reset_tainted :: "'a solver \<Rightarrow> 'a solver result" where
  "reset_tainted st =
     (if tainted_literal st = 0 then Ok st
      else rbind (val (tainted_literal st) st) (\<lambda>v. Ok (if v = 0 then st\<lparr>tainted_literal := 0\<rparr> else st)))"

definition backtrack :: "nat \<Rightarrow> 'a::linorder solver \<Rightarrow> 'a solver result" where
  "backtrack new_level st =
     (if new_level = level st then Ok st
      else let st = update_target_and_best st in
        rbind (vec_at (control st) (new_level + 1)) (\<lambda>c.
        let assigned = snd c; end_of_trail = length (trail st) in
        rbind (rwhile (\<lambda>(i, j, st). i < end_of_trail) (backtrack_round new_level) (assigned, assigned, st))
          (\<lambda>(i, j, st). reset_tainted (shrink_trail new_level assigned j st))))"

definition internal_init_vars :: "options \<Rightarrow> nat \<Rightarrow> 'a::linorder solver \<Rightarrow> 'a solver result" where
  "internal_init_vars opts new_max_var st =
     (if new_max_var \<le> max_var st then Ok st
      else rbind (if level st \<noteq> 0 then backtrack 0 st else Ok st) (\<lambda>st.
        let st = (if new_max_var \<ge> length (vals st) then enlarge opts new_max_var st else st);
            old_max_var = max_var st; st = st\<lparr>max_var := new_max_var\<rparr> in
        rbind (init_queue opts old_max_var new_max_var st) (init_scores old_max_var new_max_var)))"

section \<open>Deciding\<close>

definition better_decision :: "options \<Rightarrow> int \<Rightarrow> int \<Rightarrow> 'a::linorder solver \<Rightarrow> bool" where
  "better_decision opts lit other st =
     (if stable opts then stab st (vidx lit) > stab st (vidx other)
      else btab st ! vidx lit > btab st ! vidx other)"

text \<open>The loop over the constraint: position, satisfied, unassigned and previous literal.\<close>

record scan =
  s_pos :: nat
  s_clause :: "int list"
  s_sat :: int
  s_unassigned :: int
  s_previous :: int

definition constraint_round :: "options \<Rightarrow> 'a::linorder solver \<Rightarrow> scan \<Rightarrow> scan result" where
  "constraint_round opts st s =
     rbind (vec_at (s_clause s) (s_pos s)) (\<lambda>lit.
     let s = s\<lparr>s_clause := (s_clause s)[s_pos s := s_previous s], s_previous := lit\<rparr> in
     rbind (val lit st) (\<lambda>tmp.
       Ok (if tmp < 0 then s\<lparr>s_pos := s_pos s + 1\<rparr>
           else if tmp > 0 then s\<lparr>s_sat := lit\<rparr>
           else s\<lparr>s_unassigned :=
                    (if s_unassigned s = 0 \<or> better_decision opts lit (s_unassigned s) st then lit else s_unassigned s),
                  s_pos := s_pos s + 1\<rparr>)))"

definition scan_constraint :: "options \<Rightarrow> 'a::linorder solver \<Rightarrow> scan result" where
  "scan_constraint opts st =
     rwhile (\<lambda>s. s_sat s = 0 \<and> s_pos s \<noteq> length (clause st)) (constraint_round opts st)
       \<lparr>s_pos = 0, s_clause = clause st, s_sat = 0, s_unassigned = 0, s_previous = 0\<rparr>"

text \<open>Moving the literals back by one position.\<close>

definition move_back :: "int \<Rightarrow> int list \<Rightarrow> int list" where
  "move_back previous c =
     (if c = [] then []
      else (fold (\<lambda>i c. c[i := c ! (i + 1)]) [0..<length c - 1] c)[length c - 1 := previous])"

definition decide_constraint :: "options \<Rightarrow> 'a::linorder solver \<Rightarrow> (int \<times> 'a solver) result" where
  "decide_constraint opts st =
     rbind (scan_constraint opts st) (\<lambda>s.
       if s_sat s \<noteq> 0
       then Ok (0, new_trail_level 0 (st\<lparr>clause := (s_clause s)[0 := s_sat s]\<rparr>))
       else let st = st\<lparr>clause := move_back (s_previous s) (s_clause s)\<rparr> in
         if s_unassigned s \<noteq> 0
         then rbind (search_assume_decision (s_unassigned s) st) (\<lambda>st. Ok (0, st))
         else Ok (20, st\<lparr>unsat_constraint := True\<rparr>))"

definition decide_assumption :: "'a solver \<Rightarrow> (int \<times> 'a solver) result" where
  "decide_assumption st =
     (let lit = assumptions st ! level st in
      rbind (val lit st) (\<lambda>tmp.
        if tmp < 0 then Ok (20, st)
        else if tmp > 0 then Ok (0, new_trail_level 0 st)
        else rbind (search_assume_decision lit st) (\<lambda>st. Ok (0, st))))"

definition decide_variable :: "options \<Rightarrow> 'a::linorder solver \<Rightarrow> (int \<times> 'a solver) result" where
  "decide_variable opts st =
     rbind (next_decision_variable opts st) (\<lambda>(idx, st).
       let to_target = opt_target opts > 1 \<or> (stable opts \<and> opt_target opts \<noteq> 0) in
       rbind (search_assume_decision (decide_phase opts idx to_target st) st) (\<lambda>st. Ok (0, st)))"

definition decide :: "options \<Rightarrow> 'a::linorder solver \<Rightarrow> (int \<times> 'a solver) result" where
  "decide opts st =
     rbind (if level st < length (assumptions st) then decide_assumption st
            else if level st = length (assumptions st) \<and> clause st \<noteq> [] then decide_constraint opts st
            else decide_variable opts st)
       (\<lambda>(res, st). Ok (res, if res \<noteq> 0 then st\<lparr>marked_failed := False\<rparr> else st))"


end
