(* ===== verification/Decision_Heuristics.thy ===== *)
theory Decision_Heuristics
  imports Decision
begin

text \<open>
  The invariants of the decision queue and of the decision heap (\<open>vmtf\<close> and \<open>scored\<close>), and that
  unassigning, bumping, shuffling and picking a variable keep them.
\<close>

section \<open>The invariants of the queue and the heap\<close>

text \<open>
  \<open>vmtf st xs\<close>: the queue holds the variables \<open>xs\<close> in the order of their time stamps, and no
  variable without a value has a stamp above that of the pointer \<open>unassigned\<close>.
\<close>

definition vmtf :: "'a solver \<Rightarrow> nat list \<Rightarrow> bool" where
  "vmtf st xs \<longleftrightarrow> queue_ok (lq st) xs \<and> (\<forall>x \<in> set xs. x < length (vals st)) \<and>
     length (links st) = length (vals st) \<and> length (btab st) = length (vals st) \<and>
     sorted_wrt (\<lambda>x y. btab st ! x < btab st ! y) xs \<and>
     (\<forall>x \<in> set xs. btab st ! x \<le> bumped_stat st) \<and> q_bumped (queue st) \<le> bumped_stat st \<and>
     (xs \<noteq> [] \<longrightarrow> unassigned (queue st) \<in> set xs \<and> q_bumped (queue st) \<le> btab st ! unassigned (queue st)) \<and>
     (\<forall>x \<in> set xs. vals st ! x = 0 \<longrightarrow> btab st ! x \<le> q_bumped (queue st))"

text \<open>\<open>scored st V\<close>: the heap is ordered by the scores and holds all variables of \<open>V\<close> that have no value.\<close>

definition scored :: "'a::linorder solver \<Rightarrow> nat set \<Rightarrow> bool" where
  "scored st V \<longleftrightarrow> heap_ok (score_smaller (stab st)) (scores st) \<and> set_mset (elements (scores st)) \<subseteq> V \<and>
     (\<forall>x \<in> V. vals st ! x = 0 \<longrightarrow> x \<in># elements (scores st))"

lemma vmtf_queue: "vmtf st xs \<Longrightarrow> queue_ok (lq st) xs"
  by (simp add: vmtf_def)

lemma vmtf_in:
  assumes "vmtf st xs" "x \<in> set xs"
  shows "x \<noteq> 0" "x < length (vals st)" "x < length (links st)" "x < length (btab st)" "btab st ! x \<le> bumped_stat st"
  using assms seg_bounds [of "links st" 0 xs 0 x] by (auto simp: vmtf_def queue_ok_def)

lemma update_unassigned_ok:
  assumes "x < length (btab st)"
  shows "update_queue_unassigned x st =
    Ok (st\<lparr>lq := (links st, (queue st)\<lparr>unassigned := x, q_bumped := btab st ! x\<rparr>)\<rparr>)"
  using assms by (simp add: update_queue_unassigned_def)

text \<open>The pointer may be moved to any variable whose stamp bounds those of all variables without a value.\<close>

lemma vmtf_pointer:
  assumes "vmtf st xs" "x \<in> set xs" "\<forall>y \<in> set xs. vals st ! y = 0 \<longrightarrow> btab st ! y \<le> btab st ! x"
  shows "vmtf (st\<lparr>lq := (links st, (queue st)\<lparr>unassigned := x, q_bumped := btab st ! x\<rparr>)\<rparr>) xs"
  using assms by (auto simp: vmtf_def queue_ok_def)

lemma queue_unassign_ok:
  assumes "vmtf st xs" "x \<in> set xs"
  shows "\<exists>u. queue_unassign x (st\<lparr>vals := (vals st)[x := 0]\<rparr>) = Ok u \<and> vmtf u xs \<and>
    u = st\<lparr>vals := (vals st)[x := 0], lq := (links st, queue u)\<rparr>"
proof (cases "q_bumped (queue st) < btab st ! x")
  case True
  have "vmtf (st\<lparr>lq := (links st, (queue st)\<lparr>unassigned := x, q_bumped := btab st ! x\<rparr>)\<rparr>) xs"
    by (rule vmtf_pointer [OF assms]) (use assms(1) True in \<open>auto simp: vmtf_def\<close>)
  then show ?thesis
    using True assms vmtf_in [OF assms]
    by (auto simp: queue_unassign_def update_unassigned_ok vmtf_def nth_list_update)
next
  case False
  then show ?thesis using assms vmtf_in [OF assms]
    by (intro exI [of _ "st\<lparr>vals := (vals st)[x := 0]\<rparr>"])
      (auto simp: queue_unassign_def vmtf_def nth_list_update)
qed

lemma scored_size: "scored st V \<Longrightarrow> finite V \<Longrightarrow> size (elements (scores st)) \<le> card V"
proof -
  assume s: "scored st V" "finite V"
  have "distinct (array (scores st))" using s(1) by (simp add: scored_def heap_ok_def heap_wf_def)
  then have "size (elements (scores st)) = card (set_mset (elements (scores st)))"
    by (simp add: elements_def distinct_card)
  also have "\<dots> \<le> card V" using s by (intro card_mono) (auto simp: scored_def)
  finally show ?thesis .
qed

lemma push_score_ok:
  assumes "heap_ok (score_smaller (stab st)) (scores st)" "x \<notin># elements (scores st)"
    "size (elements (scores st)) < invalid_heap_position"
  shows "\<exists>h. push_score x st = Ok (st\<lparr>scores := h\<rparr>) \<and> heap_ok (score_smaller (stab st)) h \<and>
    elements h = add_mset x (elements (scores st))"
  using push_ok [OF strict_weak_scores assms] by (auto simp: push_score_def)

lemma heap_unassign_ok:
  assumes "scored st V" "x \<in> V" "finite V" "card V < invalid_heap_position"
  shows "\<exists>h. heap_unassign x (st\<lparr>vals := (vals st)[x := 0], num_assigned := n\<rparr>) =
      Ok (st\<lparr>vals := (vals st)[x := 0], num_assigned := n, scores := h\<rparr>) \<and>
    scored (st\<lparr>vals := (vals st)[x := 0], num_assigned := n, scores := h\<rparr>) V"
proof -
  have h: "heap_ok (score_smaller (stab st)) (scores st)" using assms(1) by (simp add: scored_def)
  have new: "(vals st)[x := 0] ! y = 0 \<Longrightarrow> y = x \<or> vals st ! y = 0" for y
    by (metis nth_list_update_neq)
  show ?thesis
  proof (cases "contains x (scores st)")
    case True
    then have "x \<in># elements (scores st)" using contains_elements [OF h] by simp
    then show ?thesis using True assms(1,2) new
      by (intro exI [of _ "scores st"]) (auto simp: heap_unassign_def scored_def)
  next
    case False
    then have x: "x \<notin># elements (scores st)" using contains_elements [OF h] by simp
    have s: "size (elements (scores st)) < invalid_heap_position" using scored_size [OF assms(1,3)] assms(4) by simp
    obtain k where "push_score x (st\<lparr>vals := (vals st)[x := 0], num_assigned := n\<rparr>) =
        Ok (st\<lparr>vals := (vals st)[x := 0], num_assigned := n, scores := k\<rparr>)"
      "heap_ok (score_smaller (stab st)) k" "elements k = add_mset x (elements (scores st))"
      using push_score_ok [of "st\<lparr>vals := (vals st)[x := 0], num_assigned := n\<rparr>" x] h x s by auto
    then show ?thesis using False assms(1,2) new
      by (intro exI [of _ k]) (auto simp: heap_unassign_def scored_def)
  qed
qed

lemma unassign_ok:
  assumes "vmtf st xs" "scored st (set xs)" "vidx lit \<in> set xs" "length xs < invalid_heap_position"
  shows "\<exists>u. unassign lit st = Ok u \<and> vmtf u xs \<and> scored u (set xs) \<and>
    u = st\<lparr>num_assigned := num_assigned st - 1, scores := scores u, vals := (vals st)[vidx lit := 0],
           lq := (links st, queue u)\<rparr>"
proof -
  let ?x = "vidx lit" and ?n = "num_assigned st - 1"
  note x = vmtf_in [OF assms(1,3)]
  have c: "card (set xs) < invalid_heap_position" using card_length [of xs] assms(4) by simp
  have sv: "set_val lit 0 st = Ok (st\<lparr>vals := (vals st)[?x := 0]\<rparr>)" using x by (simp add: set_val_def)
  obtain h where h: "heap_unassign ?x (st\<lparr>vals := (vals st)[?x := 0], num_assigned := ?n\<rparr>) =
      Ok (st\<lparr>vals := (vals st)[?x := 0], num_assigned := ?n, scores := h\<rparr>)"
    "scored (st\<lparr>vals := (vals st)[?x := 0], num_assigned := ?n, scores := h\<rparr>) (set xs)"
    using heap_unassign_ok [OF assms(2,3) finite_set c] by blast
  let ?k = "st\<lparr>num_assigned := ?n, scores := h\<rparr>"
  have "vmtf ?k xs" using assms(1) by (simp add: vmtf_def)
  then obtain u where u: "queue_unassign ?x (?k\<lparr>vals := (vals ?k)[?x := 0]\<rparr>) = Ok u" "vmtf u xs"
    "u = ?k\<lparr>vals := (vals ?k)[?x := 0], lq := (links ?k, queue u)\<rparr>"
    using queue_unassign_ok assms(3) by blast
  have "scores u = h" by (subst u(3)) simp
  then have eq: "u = st\<lparr>num_assigned := ?n, scores := scores u, vals := (vals st)[?x := 0], lq := (links st, queue u)\<rparr>"
    using u(3) by simp
  have "st\<lparr>vals := (vals st)[?x := 0], num_assigned := ?n, scores := h\<rparr> = ?k\<lparr>vals := (vals ?k)[?x := 0]\<rparr>"
    by (rule solver.equality) simp_all
  then have "queue_unassign ?x (st\<lparr>vals := (vals st)[?x := 0], num_assigned := ?n, scores := h\<rparr>) = Ok u"
    by (rule ssubst) (rule u(1))
  then have "unassign lit st = Ok u" using sv h(1) by (simp add: unassign_def Let_def)
  moreover have "scored u (set xs)" using h(2) by (subst u(3)) (simp add: scored_def)
  ultimately show ?thesis using u(2) eq by blast
qed

text \<open>Assigning a variable.\<close>

lemma vmtf_assign: "vmtf st xs \<Longrightarrow> v \<noteq> 0 \<Longrightarrow> vmtf (st\<lparr>vals := (vals st)[x := v]\<rparr>) xs"
  by (cases "x < length (vals st)") (auto simp: vmtf_def nth_list_update)

lemma scored_assign: "scored st V \<Longrightarrow> v \<noteq> 0 \<Longrightarrow> scored (st\<lparr>vals := (vals st)[x := v]\<rparr>) V"
  by (cases "x < length (vals st)") (auto simp: scored_def nth_list_update list_update_beyond split: if_splits)

section \<open>Operations on the queue\<close>

lemma vmtf_split:
  assumes "vmtf st xs" "x \<in> set xs"
  obtains ys zs where "xs = ys @ x # zs"
  using assms by (meson split_list)

lemma bump_queue_ok:
  assumes "vmtf st (ys @ vidx lit # zs)"
  shows "\<exists>u. bump_queue lit st = Ok u \<and> vmtf u (ys @ zs @ [vidx lit]) \<and>
    u = st\<lparr>lq := lq u, btab := btab u, bumped_stat := bumped_stat u\<rparr>"
proof -
  let ?x = "vidx lit" and ?xs = "ys @ vidx lit # zs" and ?us = "ys @ zs @ [vidx lit]" and ?s = "bumped_stat st + 1"
  note x = vmtf_in [OF assms, of ?x, simplified]
  have q: "queue_ok (lq st) ?xs" using assms by (simp add: vmtf_def)
  have nx: "l_next (links st ! ?x) = hd_or 0 zs" using q by (simp add: queue_ok_def)
  show ?thesis
  proof (cases zs)
    case Nil
    then show ?thesis using assms x nx by (simp add: bump_queue_def Let_def)
  next
    case (Cons z _)
    have "z \<noteq> 0" using vmtf_in(1) [OF assms, of z] Cons by simp
    then have l: "l_next (links st ! ?x) \<noteq> 0" using nx Cons by simp
    obtain t where t: "rbind (dequeue ?x (lq st)) (enqueue ?x) = Ok t" "queue_ok t ?us"
      "queue_frame t = queue_frame (lq st)"
      using vq.move_to_end [OF q] by blast
    let ?u = "st\<lparr>lq := t, btab := (btab st)[?x := ?s], bumped_stat := ?s\<rparr>"
    have d: "distinct ?xs" using q by (simp add: queue_ok_def)
    have ne: "y \<noteq> ?x \<and> btab st ! y \<le> bumped_stat st" if "y \<in> set (ys @ zs)" for y
      using that d vmtf_in(5) [OF assms, of y] by auto
    have keep: "btab ?u ! y = btab st ! y" if "y \<in> set (ys @ zs)" for y
      using ne [OF that] by simp
    have s: "sorted_wrt (\<lambda>x y. btab ?u ! x < btab ?u ! y) ?us"
    proof -
      have "sorted_wrt (\<lambda>x y. btab st ! x < btab st ! y) (ys @ zs)"
        using assms by (simp add: vmtf_def sorted_wrt_append)
      then have "sorted_wrt (\<lambda>x y. btab ?u ! x < btab ?u ! y) (ys @ zs)"
        by (rule sorted_wrt_mono_rel [rotated]) (simp only: keep)
      moreover have "btab ?u ! y < btab ?u ! ?x" if "y \<in> set (ys @ zs)" for y
        using ne [OF that] keep [OF that] x(4) by simp
      ultimately show ?thesis by (simp add: sorted_wrt_append)
    qed
    have base: "length (fst t) = length (links st)" "unassigned (snd t) = unassigned (queue st)"
      "q_bumped (snd t) = q_bumped (queue st)"
      using t(3) by (simp_all add: queue_frame_def)
    have sets: "set ?us = set ?xs" by auto
    have stamp: "btab ?u ! y = (if y = ?x then ?s else btab st ! y)" if "y \<in> set ?xs" for y
      using x(4) by simp
    have le: "\<forall>y \<in> set ?xs. btab ?u ! y \<le> ?s" using stamp vmtf_in(5) [OF assms] by fastforce
    have wf: "\<forall>y \<in> set ?xs. y < length (vals st)" "length (links st) = length (vals st)"
      "length (btab st) = length (vals st)" "q_bumped (queue st) \<le> bumped_stat st"
      "unassigned (queue st) \<in> set ?xs" "q_bumped (queue st) \<le> btab st ! unassigned (queue st)"
      "\<forall>y \<in> set ?xs. vals st ! y = 0 \<longrightarrow> btab st ! y \<le> q_bumped (queue st)"
      using assms unfolding vmtf_def by auto
    show ?thesis
    proof (cases "vals st ! ?x = 0")
      case True
      let ?v = "?u\<lparr>lq := (fst t, (snd t)\<lparr>unassigned := ?x, q_bumped := ?s\<rparr>)\<rparr>"
      have "bump_queue lit st = Ok ?v"
        using x l t(1) True base
        by (simp add: bump_queue_def Let_def update_unassigned_ok rbind_assoc [symmetric])
      moreover have "vmtf ?v ?us"
        unfolding vmtf_def sets using t(2) base s le wf x(4) by (simp add: queue_ok_def)
      ultimately show ?thesis by (intro exI [of _ ?v]) simp
    next
      case False
      have "bump_queue lit st = Ok ?u"
        using x l t(1) False by (simp add: bump_queue_def Let_def rbind_assoc [symmetric])
      moreover have "q_bumped (queue st) \<le> btab ?u ! unassigned (queue st)"
        unfolding stamp [OF wf(5)] using wf(4,6) by simp
      moreover have "\<forall>y \<in> set ?xs. vals st ! y = 0 \<longrightarrow> btab ?u ! y \<le> q_bumped (queue st)"
      proof (intro ballI impI)
        fix y assume y: "y \<in> set ?xs" "vals st ! y = 0"
        then have "y \<noteq> ?x" using False by auto
        then show "btab ?u ! y \<le> q_bumped (queue st)" using wf(7) y by simp
      qed
      ultimately have "bump_queue lit st = Ok ?u" "vmtf ?u ?us"
        unfolding vmtf_def sets using t(2) base s le wf(1-5) by simp_all
      then show ?thesis by (intro exI [of _ ?u]) simp
    qed
  qed
qed

text \<open>New variables, without the option \<open>reverse\<close>.\<close>

lemma init_enqueue_last_ok:
  assumes "vmtf st xs" "x \<notin> set xs" "x \<noteq> 0" "x < length (vals st)"
  shows "\<exists>u. init_enqueue_last x st = Ok u \<and> vmtf u (xs @ [x]) \<and>
    u = st\<lparr>lq := lq u, btab := btab u, bumped_stat := bumped_stat u\<rparr>"
proof -
  let ?s = "bumped_stat st + 1"
  have q: "queue_ok (links st, queue st) xs" and len: "length (links st) = length (vals st)" "length (btab st) = length (vals st)"
    using assms(1) by (simp_all add: vmtf_def)
  let ?ls = "(links st)[x := (links st ! x)\<lparr>l_next := 0\<rparr>]"
  have s: "seg (links st) 0 xs 0" "distinct xs" "q_first (queue st) = hd_or 0 xs" "q_last (queue st) = last_or 0 xs"
    using q by (auto simp: queue_ok_def)
  obtain ks r where k: "(if last_or 0 xs \<noteq> 0 then rbind (link_next (last_or 0 xs) x ?ls) (\<lambda>ls. Ok (ls, queue st))
      else Ok (?ls, (queue st)\<lparr>q_first := x\<rparr>)) = Ok (ks, r)"
    "seg ks 0 xs x" "length ks = length (links st)" "l_next (ks ! x) = 0" "q_first r = hd_or x xs" "q_last r = last_or 0 xs"
  proof (cases xs rule: rev_cases)
    case Nil
    then show ?thesis using that [of ?ls "(queue st)\<lparr>q_first := x\<rparr>"] s assms(4) len by simp
  next
    case (snoc ys y)
    have y: "y \<noteq> 0" "y < length (links st)" "y \<noteq> x" using seg_bounds [OF s(1)] snoc assms(2) by auto
    have "seg ?ls 0 (ys @ [y]) 0" using seg_frame [OF s(1) assms(2)] snoc by simp
    then have "seg (?ls[y := (?ls ! y)\<lparr>l_next := x\<rparr>]) 0 (ys @ [y]) x"
      by (rule seg_relink_next) (use s(2) snoc in simp)
    then show ?thesis
      using that [of "?ls[y := (?ls ! y)\<lparr>l_next := x\<rparr>]" "queue st"] y snoc s assms(4) len
      by (simp add: link_next_def)
  qed
  let ?ms = "ks[x := (ks ! x)\<lparr>l_prev := last_or 0 xs\<rparr>]"
  let ?u = "st\<lparr>lq := (?ms, r\<lparr>q_last := x, unassigned := x, q_bumped := ?s\<rparr>), btab := (btab st)[x := ?s],
    bumped_stat := ?s\<rparr>"
  have "init_enqueue_last x st = Ok ?u"
    using k(1,3,6) s assms(4) len
    by (simp add: init_enqueue_last_def Let_def link_next_def [of x] link_prev_def update_unassigned_ok)
  moreover have "vmtf ?u (xs @ [x])"
  proof -
    have "queue_ok (lq ?u) (xs @ [x])"
      using k seg_frame [OF k(2) assms(2)] s assms(2-4) len by (simp add: queue_ok_def)
    moreover have keep: "btab ?u ! y = btab st ! y" if "y \<in> set xs" for y
    proof -
      have "y \<noteq> x" using that assms(2) by blast
      then show ?thesis by simp
    qed
    moreover have "sorted_wrt (\<lambda>x y. btab ?u ! x < btab ?u ! y) xs"
      by (rule sorted_wrt_mono_rel [of _ "\<lambda>x y. btab st ! x < btab st ! y"], simp only: keep)
        (use assms(1) in \<open>simp add: vmtf_def\<close>)
    moreover have "btab st ! y \<le> bumped_stat st" if "y \<in> set xs" for y using vmtf_in(5) [OF assms(1) that] .
    ultimately show ?thesis
      using assms len k(3) unfolding vmtf_def by (simp add: sorted_wrt_append) fastforce
  qed
  ultimately show ?thesis by (intro exI [of _ ?u]) simp
qed

section \<open>Picking a decision variable\<close>

text \<open>Walking back from the end of a list of variables stops at the last one without a value.\<close>

lemma queue_walk:
  assumes "seg (links st) 0 (ys @ [x]) s" "\<forall>y \<in> set (ys @ [x]). y < length (vals st)"
    "\<exists>y \<in> set (ys @ [x]). vals st ! y = 0"
  shows "\<exists>r m us vs. rwhile (\<lambda>(res, searched, go). go) (queue_round st) (x, n, True) = Ok (r, n + m, False) \<and>
    ys @ [x] = us @ r # vs \<and> vals st ! r = 0 \<and> (\<forall>y \<in> set vs. vals st ! y \<noteq> 0) \<and> m = length vs"
  using assms
proof (induction ys arbitrary: x n s rule: rev_induct)
  case Nil
  then have "vals st ! x = 0" by simp
  then have "rwhile (\<lambda>(res, searched, go). go) (queue_round st) (x, n, True) = Ok (x, n + 0, False)"
    using Nil.prems(2) by (subst rwhile_unfold) (simp add: queue_round_def, subst rwhile_unfold, simp)
  then show ?case using \<open>vals st ! x = 0\<close> by fastforce
next
  case (snoc y ys)
  show ?case
  proof (cases "vals st ! x = 0")
    case True
    then have "rwhile (\<lambda>(res, searched, go). go) (queue_round st) (x, n, True) = Ok (x, n + 0, False)"
      using snoc.prems(2) by (subst rwhile_unfold) (simp add: queue_round_def, subst rwhile_unfold, simp)
    then show ?thesis using True by fastforce
  next
    case False
    have x: "x < length (links st)" "l_prev (links st ! x) = y" using snoc.prems(1) by auto
    have "seg (links st) 0 (ys @ [y]) x" using snoc.prems(1) by simp
    then obtain r m us vs where r:
      "rwhile (\<lambda>(res, searched, go). go) (queue_round st) (y, n + 1, True) = Ok (r, n + 1 + m, False)"
      "ys @ [y] = us @ r # vs" "vals st ! r = 0" "\<forall>y \<in> set vs. vals st ! y \<noteq> 0" "m = length vs"
      using snoc.IH [of y x "n + 1"] snoc.prems(2,3) False by auto
    have "queue_round st (x, n, True) = Ok (y, n + 1, True)"
      using False x snoc.prems(2) by (simp add: queue_round_def)
    then have "rwhile (\<lambda>(res, searched, go). go) (queue_round st) (x, n, True) = Ok (r, n + (m + 1), False)"
      using r(1) by (subst rwhile_unfold) simp
    moreover have "(ys @ [y]) @ [x] = us @ r # (vs @ [x])" using r(2) by simp
    moreover have "\<forall>y \<in> set (vs @ [x]). vals st ! y \<noteq> 0" using r(4) False by simp
    ultimately show ?thesis using r(3,5) by (metis length_append_singleton Suc_eq_plus1)
  qed
qed

lemma sorted_stamps:
  assumes "vmtf st (ys @ x # zs)"
  shows "y \<in> set ys \<Longrightarrow> btab st ! y < btab st ! x" "z \<in> set zs \<Longrightarrow> btab st ! x < btab st ! z"
  using assms by (auto simp: vmtf_def sorted_wrt_append)

lemma next_on_queue_ok:
  assumes "vmtf st xs" "x \<in> set xs" "vals st ! x = 0"
  shows "\<exists>r u. next_decision_variable_on_queue st = Ok (r, u) \<and> vmtf u xs \<and> r \<in> set xs \<and> vals st ! r = 0 \<and>
    (\<forall>y \<in> set xs. vals st ! y = 0 \<longrightarrow> btab st ! y \<le> btab st ! r) \<and> u = st\<lparr>lq := (links st, queue u)\<rparr>"
proof -
  let ?p = "unassigned (queue st)"
  have "?p \<in> set xs" using assms(1,2) by (auto simp: vmtf_def)
  then obtain ys zs where xs: "xs = ys @ ?p # zs" using vmtf_split [OF assms(1)] by blast
  have after: "vals st ! z \<noteq> 0" if "z \<in> set zs" for z
    using sorted_stamps(2) [of st ys ?p zs z] assms(1) that xs by (auto simp: vmtf_def)
  then have "x \<in> set (ys @ [?p])" using assms(2,3) xs by (metis Un_iff append.assoc append_Cons append_Nil set_append)
  moreover have "seg (links st) 0 (ys @ [?p]) (hd_or 0 zs)" using assms(1) xs by (simp add: vmtf_def queue_ok_def)
  moreover have "\<forall>y \<in> set (ys @ [?p]). y < length (vals st)" using vmtf_in(2) [OF assms(1)] xs by auto
  ultimately obtain r m us vs where r:
    "rwhile (\<lambda>(res, searched, go). go) (queue_round st) (?p, 0, True) = Ok (r, 0 + m, False)"
    "ys @ [?p] = us @ r # vs" "vals st ! r = 0" "\<forall>y \<in> set vs. vals st ! y \<noteq> 0" "m = length vs"
    using queue_walk [of st ys ?p _ 0] assms(3) by blast
  have split: "xs = us @ r # (vs @ zs)" using xs r(2) by simp
  have rx: "r \<in> set xs" using split by simp
  have top: "\<forall>y \<in> set xs. vals st ! y = 0 \<longrightarrow> btab st ! y \<le> btab st ! r"
  proof (intro ballI impI)
    fix y assume y: "y \<in> set xs" "vals st ! y = 0"
    then have "y \<in> set us \<or> y = r" using split r(4) after by auto
    then show "btab st ! y \<le> btab st ! r" using sorted_stamps(1) [of st us r "vs @ zs" y] assms(1) split by auto
  qed
  let ?u = "st\<lparr>lq := (links st, (queue st)\<lparr>unassigned := r, q_bumped := btab st ! r\<rparr>)\<rparr>"
  show ?thesis
  proof (cases "m = 0")
    case True
    then have "next_decision_variable_on_queue st = Ok (r, st)"
      using r(1) by (simp add: next_decision_variable_on_queue_def)
    then show ?thesis using assms(1) rx r(3) top by (intro exI [of _ r] exI [of _ st]) simp
  next
    case False
    then have "next_decision_variable_on_queue st = Ok (r, ?u)"
      using r(1) vmtf_in [OF assms(1) rx]
      by (simp add: next_decision_variable_on_queue_def update_unassigned_ok)
    then show ?thesis using vmtf_pointer [OF assms(1) rx top] rx r(3) top
      by (intro exI [of _ r] exI [of _ ?u]) simp
  qed
qed

lemma if_not_swap: "(if \<not> b then x else y) = (if b then y else x)"
  by simp

lemma next_with_scores_ok:
  assumes "scored st V" "\<forall>y \<in> V. y < length (vals st)" "x \<in> V" "vals st ! x = 0"
  shows "\<exists>r u. next_decision_variable_with_best_score st = Ok (r, u) \<and> scored u V \<and> r \<in> V \<and> vals st ! r = 0 \<and>
    (\<forall>y \<in> V. vals st ! y = 0 \<longrightarrow> \<not> score_smaller (stab st) r y) \<and> u = st\<lparr>scores := scores u\<rparr>"
proof -
  let ?P = "\<lambda>y. vals st ! y \<noteq> 0" and ?ok = "heap_ok (score_smaller (stab st))"
  let ?test = "\<lambda>y. rbind (vec_at (vals st) y) (\<lambda>v. Ok (v \<noteq> 0))"
  have h: "?ok (scores st)" and sub: "set_mset (elements (scores st)) \<subseteq> V" using assms(1) by (simp_all add: scored_def)
  have test: "?test y = Ok (?P y)" if "y \<in># elements (scores st)" for y
    using that sub assms(2) by auto
  have "x \<in># elements (scores st)" using assms(1,3,4) by (simp add: scored_def)
  then obtain k m where k:
    "rwhile (\<lambda>s. snd s = None) (max_queue.skip_round heap_front (heap_pop_front (score_smaller (stab st))) ?test)
      (scores st, None) = Ok (k, Some m)"
    "?ok k" "elements k \<subseteq># elements (scores st)"
    "filter_mset (\<lambda>x. \<not> ?P x) (elements k) = filter_mset (\<lambda>x. \<not> ?P x) (elements (scores st))"
    "m \<in># elements k" "vals st ! m = 0" "\<forall>x \<in># elements k. \<not> score_smaller (stab st) m x"
    using score_queue.skip [OF h, of ?P ?test] assms(4) test by auto
  have in_k: "y \<in># elements k" if "y \<in> V" "vals st ! y = 0" for y
  proof -
    have "y \<in># filter_mset (\<lambda>x. \<not> ?P x) (elements (scores st))" using assms(1) that by (simp add: scored_def)
    then show ?thesis using k(4) by (metis filter_mset_eq_conv mset_subset_eqD multiset_filter_subset)
  qed
  have mV: "m \<in> V" using k(3,5) sub mset_subset_eqD by fastforce
  let ?u = "st\<lparr>scores := k\<rparr>"
  have "best_round st = max_queue.skip_round heap_front (heap_pop_front (score_smaller (stab st))) ?test"
    by (intro ext rbind_cong) (simp_all add: best_round_def score_queue.skip_round_def rbind_assoc if_not_swap)
  with k(1) have "next_decision_variable_with_best_score st = Ok (m, ?u)"
    by (simp add: next_decision_variable_with_best_score_def)
  moreover have "scored ?u V"
    using k(2,3) in_k sub by (auto simp: scored_def dest: mset_subset_eqD)
  ultimately show ?thesis using mV k(6,7) in_k by (intro exI [of _ m] exI [of _ ?u]) simp
qed

section \<open>Changing scores, shuffling and new variables\<close>

lemma bump_score_ok:
  assumes "scored st V"
  shows "\<exists>u. bump_score lit s st = Ok u \<and> scored u V \<and> u = st\<lparr>stab := (stab st)(vidx lit := s), scores := scores u\<rparr>"
proof -
  let ?x = "vidx lit" and ?t = "(stab st)(vidx lit := s)"
  have h: "heap_ok (score_smaller (stab st)) (scores st)" using assms by (simp add: scored_def)
  have same: "score_smaller ?t a b = score_smaller (stab st) a b" if "a \<noteq> ?x" "b \<noteq> ?x" for a b
    using that by (simp add: score_smaller_def)
  show ?thesis
  proof (cases "contains ?x (scores st)")
    case True
    then have "?x \<in># elements (scores st)" using contains_elements [OF h] by simp
    then obtain k where "heap_update (score_smaller ?t) ?x (scores st) = Ok k" "heap_ok (score_smaller ?t) k"
      "elements k = elements (scores st)"
      using update_ok [OF strict_weak_scores strict_weak_scores h _ same] by blast
    then show ?thesis
      using True assms by (intro exI [of _ "st\<lparr>stab := ?t, scores := k\<rparr>"]) (simp add: bump_score_def Let_def scored_def)
  next
    case False
    then have x: "?x \<notin> set (array (scores st))" using contains_elements [OF h] by (simp add: elements_def)
    have ne: "array (scores st) ! i \<noteq> ?x" if "i < length (array (scores st))" for i
      using nth_mem [OF that] x by metis
    have "heap_ok (score_smaller ?t) (scores st)"
      unfolding heap_ok_def ordered_def edge_def
    proof (intro conjI allI impI)
      show "heap_wf (scores st)" using h by (simp add: heap_ok_def)
      fix i assume i: "0 < i" "i < length (array (scores st))"
      then have "par i < length (array (scores st))" using par_less [OF i(1)] by simp
      then show "\<not> score_smaller ?t (array (scores st) ! par i) (array (scores st) ! i)"
        using h i same ne by (simp add: heap_ok_def ordered_def edge_def)
    qed
    then show ?thesis
      using False assms by (intro exI [of _ "st\<lparr>stab := ?t\<rparr>"]) (simp add: bump_score_def Let_def scored_def)
  qed
qed

lemma backward_links_rfold:
  "seg ls 0 xs s \<Longrightarrow> backward_links f ls (last_or 0 xs) b = rfold (\<lambda>x b. f b x) (rev xs) b"
proof (induction xs arbitrary: b s rule: rev_induct)
  case Nil
  show ?case by (simp add: backward_links_def, subst rwhile_unfold) simp
next
  case (snoc x xs)
  have x: "x \<noteq> 0" "x < length ls" "l_prev (ls ! x) = last_or 0 xs" and xs: "seg ls 0 xs x" using snoc.prems by auto
  show ?case
  proof (cases "f b x")
    case (Ok c)
    then have "backward_links f ls x b = backward_links f ls (last_or 0 xs) c"
      using x unfolding backward_links_def by (subst rwhile_unfold) simp
    then show ?thesis using snoc.IH [OF xs, of c] Ok by simp
  next
    case (Fault e)
    then show ?thesis using x unfolding backward_links_def by (subst rwhile_unfold) simp
  qed
qed

lemma collect_vars: "rfold (\<lambda>x b. collect_var b x) xs ys = Ok (ys @ xs)"
  by (induction xs arbitrary: ys) (simp_all add: collect_var_def)

text \<open>Stamping the variables from the last one downward.\<close>

lemma stamp_vars:
  assumes "distinct xs" "\<forall>x \<in> set xs. x < length bs"
  shows "\<exists>cs. rfold (\<lambda>x b. stamp_var b x) xs (bs, n) = Ok (cs, n - int (length xs)) \<and> length cs = length bs \<and>
    (\<forall>i < length xs. cs ! (xs ! i) = n - int i) \<and> (\<forall>y. y \<notin> set xs \<longrightarrow> cs ! y = bs ! y)"
  using assms
proof (induction xs arbitrary: bs n)
  case (Cons x xs)
  obtain cs where cs: "rfold (\<lambda>x b. stamp_var b x) xs (bs[x := n], n - 1) = Ok (cs, n - 1 - int (length xs))"
    "length cs = length (bs[x := n])" "\<forall>i < length xs. cs ! (xs ! i) = n - 1 - int i"
    "\<forall>y. y \<notin> set xs \<longrightarrow> cs ! y = bs[x := n] ! y"
    using Cons.IH [of "bs[x := n]" "n - 1"] Cons.prems by auto
  have "cs ! ((x # xs) ! i) = n - int i" if "i < length (x # xs)" for i
    using cs(3,4) that Cons.prems by (cases i) auto
  moreover have "cs ! y = bs ! y" if "y \<notin> set (x # xs)" for y using cs(4) that by simp
  ultimately show ?case using cs(1,2) Cons.prems by (simp add: stamp_var_def)
qed simp

text \<open>Renewing the queue in any order of its variables.\<close>

lemma renew_queue_ok:
  assumes "vmtf st xs" "xs \<noteq> []" "distinct ys" "set ys = set xs"
  shows "\<exists>u. rbind (refill_queue ys st) stamp_queue = Ok u \<and> vmtf u ys \<and> u = st\<lparr>lq := lq u, btab := btab u\<rparr>"
proof -
  let ?q = "(queue st)\<lparr>q_first := 0, q_last := 0\<rparr>"
  have "queue_ok (links st, ?q) []" by (simp add: queue_ok_def)
  then obtain t where t: "rfold enqueue ys (links st, ?q) = Ok t" "queue_ok t ([] @ ys)"
    "queue_frame t = queue_frame (links st, ?q)"
    using vq.enq_all [of "(links st, ?q)" "[]" ys] assms(3,4) vmtf_in [OF assms(1)]
    by (auto simp: queue_frame_def)
  have f: "length (fst t) = length (links st)" "q_bumped (snd t) = q_bumped (queue st)"
    using t(3) by (simp_all add: queue_frame_def)
  have ts: "seg (fst t) 0 ys 0" "q_last (snd t) = last_or 0 ys" using t(2) by (simp_all add: queue_ok_def)
  let ?b = "q_bumped (queue st)"
  have d: "distinct (rev ys)" "\<forall>x \<in> set (rev ys). x < length (btab st)" using assms(3,4) vmtf_in(4) [OF assms(1)] by auto
  obtain cs where cs: "rfold (\<lambda>x b. stamp_var b x) (rev ys) (btab st, ?b) = Ok (cs, ?b - int (length ys))"
    "length cs = length (btab st)" "\<forall>i < length ys. cs ! (rev ys ! i) = ?b - int i"
    using stamp_vars [OF d, of ?b] by auto
  have stamp: "backward_links stamp_var (fst t) (q_last (snd t)) (btab st, ?b) = Ok (cs, ?b - int (length ys))"
    using backward_links_rfold [OF ts(1), of stamp_var] ts(2) cs(1) by simp
  let ?h = "q_last (snd t)"
  let ?u = "st\<lparr>lq := (fst t, (snd t)\<lparr>unassigned := ?h\<rparr>), btab := cs\<rparr>"
  have "rbind (refill_queue ys st) stamp_queue = Ok ?u"
    using t(1) stamp f(2) by (simp add: refill_queue_def stamp_queue_def)
  moreover have "vmtf ?u ys"
  proof -
    have ne: "ys \<noteq> []" using assms(2,4) by auto
    have h: "?h \<in> set ys" "cs ! ?h = ?b"
    proof -
      have l: "?h = last ys" using ts(2) ne by (simp add: last_or_def)
      show "?h \<in> set ys" unfolding l by (rule last_in_set [OF ne])
      have r: "rev ys ! 0 = ?h" unfolding l using ne by (metis hd_conv_nth hd_rev rev_is_Nil_conv)
      have "cs ! (rev ys ! 0) = ?b - int 0" using cs(3) ne by blast
      then show "cs ! ?h = ?b" unfolding r by (simp only: of_nat_0 diff_0_right)
    qed
    have "\<forall>x \<in> set (rev ys). cs ! x \<le> ?b" using cs(3) unfolding all_set_conv_all_nth by simp
    then have le: "\<forall>x \<in> set ys. cs ! x \<le> ?b" by (simp only: set_rev)
    have "sorted_wrt (\<lambda>x y. cs ! y < cs ! x) (rev ys)"
      using cs(3) by (auto simp: sorted_wrt_iff_nth_less)
    then have sorted: "sorted_wrt (\<lambda>x y. cs ! x < cs ! y) ys" by (simp add: sorted_wrt_rev)
    have wf: "\<forall>x \<in> set ys. x < length (vals st)" "length (links st) = length (vals st)"
      "length (btab st) = length (vals st)" "?b \<le> bumped_stat st" using assms(1,4) by (simp_all add: vmtf_def)
    have "\<forall>x \<in> set ys. cs ! x \<le> bumped_stat st" using le wf(4) by force
    then show ?thesis
      unfolding vmtf_def using t(2) f wf sorted le h cs(2) ne by (simp add: queue_ok_def)
  qed
  ultimately show ?thesis by (intro exI [of _ ?u]) simp
qed

lemma random_order_perm:
  assumes "\<forall>i < n. picks i < n"
  shows "mset (random_order picks n) = mset [1..<Suc n]"
proof -
  let ?f = "\<lambda>i xs. xs[i := xs ! picks i, picks i := (xs ! i :: nat)]"
  have "mset (fold ?f js xs) = mset xs" if "\<forall>j \<in> set js. j < n" "length xs = n" for js xs
    using that
  proof (induction js arbitrary: xs)
    case (Cons j js)
    then have "mset (?f j xs) = mset xs" using assms by (intro mset_swap) simp_all
    then show ?case using Cons by simp
  qed simp
  moreover have "\<forall>j \<in> set [0..<n - 1]. j < n" "length (rev [1..<Suc n]) = n" by auto
  ultimately have "mset (random_order picks n) = mset (rev [1..<Suc n])" unfolding random_order_def by blast
  then show ?thesis by (simp only: mset_rev)
qed

lemma shuffle_queue_ok:
  assumes "vmtf st xs" "set xs = {1..max_var st}" "0 < max_var st" "\<forall>i < max_var st. picks i < max_var st"
  shows "\<exists>u ys. shuffle_queue opts picks st = Ok u \<and> vmtf u ys \<and> set ys = set xs \<and>
    u = st\<lparr>lq := lq u, btab := btab u\<rparr>"
proof (cases "opt_shuffle opts \<and> opt_shufflequeue opts")
  case False
  then show ?thesis using assms(1) by (intro exI [of _ st] exI [of _ xs]) (auto simp: shuffle_queue_def)
next
  case True
  have q: "distinct xs" "seg (links st) 0 xs 0" "q_last (queue st) = last_or 0 xs"
    using assms(1) by (auto simp: vmtf_def queue_ok_def)
  obtain ys where ys: "shuffle_order opts picks st = Ok ys" "distinct ys" "set ys = set xs"
  proof (cases "opt_shufflerandom opts")
    case True
    have "mset (random_order picks (max_var st)) = mset [1..<Suc (max_var st)]" by (rule random_order_perm [OF assms(4)])
    from mset_eq_setD [OF this] mset_eq_imp_distinct_iff [OF this]
    have "set (random_order picks (max_var st)) = {1..max_var st}" "distinct (random_order picks (max_var st))"
      by (simp_all add: atLeastLessThanSuc_atLeastAtMost del: upt_Suc)
    then show ?thesis using that [of "random_order picks (max_var st)"] True assms(2) by (simp add: shuffle_order_def)
  next
    case False
    have "backward_links collect_var (links st) (q_last (queue st)) [] = Ok (rev xs)"
      using backward_links_rfold [OF q(2), of collect_var "[]"] q(3) collect_vars [of "rev xs" "[]"] by simp
    then show ?thesis using that [of "rev xs"] False q(1) by (simp add: shuffle_order_def)
  qed
  have "xs \<noteq> []" using assms(2,3) by auto
  then obtain u where "rbind (refill_queue ys st) stamp_queue = Ok u" "vmtf u ys" "u = st\<lparr>lq := lq u, btab := btab u\<rparr>"
    using renew_queue_ok [OF assms(1) _ ys(2,3)] by blast
  then show ?thesis using True ys by (intro exI [of _ u] exI [of _ ys]) (simp add: shuffle_queue_def)
qed

end
