(* ===== verification/Search_Trail.thy ===== *)
theory Search_Trail
  imports Decision_Heuristics
begin

text \<open>
  The invariant of the trail (\<open>state_ok\<close> with both heuristics), and that backtracking, assigning and adding variables
  keep it.
\<close>

section \<open>Backtracking\<close>

text \<open>
  The trail holds the assigned variables, each once, with their positions and levels; every literal before
  the start of a level belongs to a lower one. Literals of lower levels may follow (chronological backtracking).
\<close>

definition lit_level :: "'a solver \<Rightarrow> int \<Rightarrow> nat" where
  "lit_level st l = fst (vtab st ! vidx l)"

definition sizes_ok :: "'a solver \<Rightarrow> bool" where
  "sizes_ok st \<longleftrightarrow> length (vtab st) = length (vals st) \<and> length (saved st) = length (vals st) \<and>
     length (forced st) = length (vals st) \<and> length (target st) = length (vals st) \<and> length (best st) = length (vals st) \<and>
     (tainted_literal st \<noteq> 0 \<longrightarrow> vidx (tainted_literal st) \<in> {1..max_var st}) \<and>
     (\<forall>x. max_var st < x \<longrightarrow> x < length (vals st) \<longrightarrow> vals st ! x = 0) \<and>
     (0 < max_var st \<longrightarrow> max_var st < length (vals st))"

text \<open>The stored phases are signs.\<close>

definition phases_ok :: "'a solver \<Rightarrow> bool" where
  "phases_ok st \<longleftrightarrow> (\<forall>v \<in> set (saved st) \<union> set (forced st) \<union> set (target st) \<union> set (best st). v \<in> {- 1, 0, 1})"

definition trail_ok :: "'a solver \<Rightarrow> bool" where
  "trail_ok st \<longleftrightarrow> distinct (map vidx (trail st)) \<and>
     (\<forall>l \<in> set (trail st). vidx l \<in> {1..max_var st} \<and> vals st ! vidx l = sgn l) \<and>
     (\<forall>x \<in> {1..max_var st}. vals st ! x \<noteq> 0 \<longrightarrow> x \<in> vidx ` set (trail st)) \<and>
     (\<forall>i < length (trail st). snd (vtab st ! vidx (trail st ! i)) = i \<and> lit_level st (trail st ! i) \<le> level st) \<and>
     num_assigned st = length (trail st) \<and> length (control st) = level st + 1 \<and>
     (\<forall>k. 0 < k \<longrightarrow> k \<le> level st \<longrightarrow> snd (control st ! k) \<le> length (trail st) \<and>
        (\<forall>i < snd (control st ! k). lit_level st (trail st ! i) < k))"

definition state_ok :: "'a::linorder solver \<Rightarrow> nat list \<Rightarrow> bool" where
  "state_ok st xs \<longleftrightarrow> vmtf st xs \<and> scored st (set xs) \<and> set xs = {1..max_var st} \<and>
     max_var st < invalid_heap_position \<and> sizes_ok st \<and> trail_ok st \<and> phases_ok st"

lemma state_ok_length: "state_ok st xs \<Longrightarrow> length xs = max_var st"
  by (metis state_ok_def vmtf_queue queue_ok_def distinct_card card_atLeastAtMost diff_Suc_1)

text \<open>What the copies of the phases leave alone.\<close>

definition no_phases :: "'a solver \<Rightarrow> 'a solver" where
  "no_phases st = st\<lparr>target := [], best := [], target_assigned := 0, best_assigned := 0, rephased := 0\<rparr>"

lemma length_copy_phases [simp]: "length (copy_phases st dst) = length dst"
proof -
  have "length (fold (\<lambda>i dst. dst[i := saved st ! i]) js dst) = length dst" for js
    by (induction js arbitrary: dst) simp_all
  then show ?thesis by (simp add: copy_phases_def)
qed

lemma update_stages:
  "no_phases (reset_assigned st) = no_phases st" "no_phases (update_target st) = no_phases st"
  "no_phases (update_best st) = no_phases st"
  "length (target (reset_assigned st)) = length (target st)" "length (best (reset_assigned st)) = length (best st)"
  "length (target (update_target st)) = length (target st)" "length (best (update_target st)) = length (best st)"
  "length (target (update_best st)) = length (target st)" "length (best (update_best st)) = length (best st)"
  by (simp_all add: no_phases_def reset_assigned_def update_target_def update_best_def)

lemma update_target_ok:
  "no_phases (update_target_and_best st) = no_phases st"
  "length (target (update_target_and_best st)) = length (target st)"
  "length (best (update_target_and_best st)) = length (best st)"
proof -
  have "no_phases (u\<lparr>rephased := 0\<rparr>) = no_phases u" for u :: "'a solver" by (simp add: no_phases_def)
  then show "no_phases (update_target_and_best st) = no_phases st"
    "length (target (update_target_and_best st)) = length (target st)"
    "length (best (update_target_and_best st)) = length (best st)"
    by (simp_all add: update_target_and_best_def Let_def update_stages)
qed

lemma set_copy_phases:
  assumes "0 < max_var st \<Longrightarrow> max_var st < length (saved st)"
  shows "set (copy_phases st dst) \<subseteq> set dst \<union> set (saved st)"
proof -
  have "set (fold (\<lambda>i dst. dst[i := saved st ! i]) js dst) \<subseteq> set dst \<union> set (saved st)"
    if "\<forall>i \<in> set js. i < length (saved st)" for js
    using that
  proof (induction js arbitrary: dst)
    case (Cons j js)
    have "set (dst[j := saved st ! j]) \<subseteq> set dst \<union> set (saved st)"
      using set_update_subset_insert [of dst j "saved st ! j"] Cons.prems by auto
    then show ?case using Cons.IH [of "dst[j := saved st ! j]"] Cons.prems by auto
  qed simp
  moreover have "\<forall>i \<in> set [1..<Suc (max_var st)]. i < length (saved st)"
    using assms by (auto simp del: upt_Suc)
  ultimately show ?thesis unfolding copy_phases_def by blast
qed

lemma update_phases_ok:
  assumes "phases_ok st" "0 < max_var st \<Longrightarrow> max_var st < length (saved st)"
  shows "phases_ok (update_target_and_best st)"
proof -
  have 1: "phases_ok (reset_assigned st)" using assms(1) by (simp add: phases_ok_def reset_assigned_def)
  have s: "0 < max_var (reset_assigned st) \<Longrightarrow> max_var (reset_assigned st) < length (saved (reset_assigned st))"
    using assms(2) by (simp add: reset_assigned_def split: if_splits)
  have 2: "phases_ok (update_target (reset_assigned st))"
    using 1 set_copy_phases [of "reset_assigned st" "target (reset_assigned st)", OF s]
    by (simp add: phases_ok_def update_target_def) blast
  let ?u = "update_target (reset_assigned st)"
  have t: "0 < max_var ?u \<Longrightarrow> max_var ?u < length (saved ?u)" using s by (simp add: update_target_def split: if_splits)
  have 3: "phases_ok (update_best ?u)"
    using 2 set_copy_phases [of ?u "best ?u", OF t] by (simp add: phases_ok_def update_best_def) blast
  then show ?thesis by (simp add: update_target_and_best_def Let_def phases_ok_def)
qed

lemma no_phasesD:
  assumes "no_phases u = no_phases st"
  shows "max_var u = max_var st" "level u = level st" "trail u = trail st" "control u = control st" "vtab u = vtab st"
    "vals u = vals st" "num_assigned u = num_assigned st" "lq u = lq st" "btab u = btab st"
    "bumped_stat u = bumped_stat st" "scores u = scores st" "stab u = stab st" "saved u = saved st" "forced u = forced st"
    "tainted_literal u = tainted_literal st" "assumptions u = assumptions st" "clause u = clause st"
proof -
  have "f (no_phases u) = f (no_phases st)" for f :: "'a solver \<Rightarrow> 'b" using assms by simp
  from this [of max_var] this [of level] this [of trail] this [of control] this [of vtab] this [of vals]
    this [of num_assigned] this [of lq] this [of btab] this [of bumped_stat] this [of scores] this [of stab]
    this [of saved] this [of forced] this [of tainted_literal] this [of assumptions] this [of clause]
  show "max_var u = max_var st" "level u = level st" "trail u = trail st" "control u = control st" "vtab u = vtab st"
    "vals u = vals st" "num_assigned u = num_assigned st" "lq u = lq st" "btab u = btab st"
    "bumped_stat u = bumped_stat st" "scores u = scores st" "stab u = stab st" "saved u = saved st" "forced u = forced st"
    "tainted_literal u = tainted_literal st" "assumptions u = assumptions st" "clause u = clause st"
    by (simp_all add: no_phases_def)
qed

text \<open>What the loop leaves alone.\<close>

definition no_trail :: "'a solver \<Rightarrow> 'a solver" where
  "no_trail st = st\<lparr>trail := [], vtab := [], vals := [], num_assigned := 0, lq := ([], new_Queue), scores := empty_heap\<rparr>"

definition kept :: "'a solver \<Rightarrow> nat \<Rightarrow> nat \<Rightarrow> int list" where
  "kept st n i = filter (\<lambda>l. lit_level st l \<le> n) (take i (trail st))"

definition dropped :: "'a solver \<Rightarrow> nat \<Rightarrow> nat \<Rightarrow> nat set" where
  "dropped st n i = vidx ` {l \<in> set (take i (trail st)). n < lit_level st l}"

definition bt_inv :: "'a::linorder solver \<Rightarrow> nat list \<Rightarrow> nat \<Rightarrow> nat \<times> nat \<times> 'a solver \<Rightarrow> bool" where
  "bt_inv st xs n s \<longleftrightarrow> (case s of (i, j, u) \<Rightarrow>
     i \<le> length (trail st) \<and> vmtf u xs \<and> scored u (set xs) \<and>
     no_trail u = no_trail st \<and>
     length (trail u) = length (trail st) \<and> j = length (kept st n i) \<and> take j (trail u) = kept st n i \<and>
     drop i (trail u) = drop i (trail st) \<and> length (vtab u) = length (vtab st) \<and>
     (\<forall>l. lit_level u l = lit_level st l) \<and> (\<forall>k < j. snd (vtab u ! vidx (trail u ! k)) = k) \<and>
     length (vals u) = length (vals st) \<and>
     (\<forall>x. vals u ! x = (if x \<in> dropped st n i then 0 else vals st ! x)) \<and>
     num_assigned u = length (trail st) - (i - j))"

lemma kept_Suc:
  "i < length (trail st) \<Longrightarrow> kept st n (Suc i) =
     (if lit_level st (trail st ! i) \<le> n then kept st n i @ [trail st ! i] else kept st n i)"
  by (simp add: kept_def take_Suc_conv_app_nth)

lemma dropped_Suc:
  "i < length (trail st) \<Longrightarrow> dropped st n (Suc i) =
     (if lit_level st (trail st ! i) \<le> n then dropped st n i else insert (vidx (trail st ! i)) (dropped st n i))"
  by (auto simp: dropped_def take_Suc_conv_app_nth)

lemma kept_le: "length (kept st n i) \<le> i"
  by (metis kept_def length_filter_le length_take min.bounded_iff order_trans order_refl)

lemma bt_step:
  assumes ok: "state_ok st xs" and inv: "bt_inv st xs n (i, j, u)" and i: "i < length (trail st)"
  shows "\<exists>v. backtrack_round n (i, j, u) = Ok v \<and> bt_inv st xs n v \<and> fst v = i + 1"
proof -
  let ?l = "trail st ! i"
  have u: "vmtf u xs" "scored u (set xs)"
    "no_trail u = no_trail st"
    "length (trail u) = length (trail st)" "j = length (kept st n i)" "take j (trail u) = kept st n i"
    "drop i (trail u) = drop i (trail st)" "length (vtab u) = length (vtab st)"
    "\<forall>l. lit_level u l = lit_level st l" "\<forall>k < j. snd (vtab u ! vidx (trail u ! k)) = k"
    "length (vals u) = length (vals st)" "\<forall>x. vals u ! x = (if x \<in> dropped st n i then 0 else vals st ! x)"
    "num_assigned u = length (trail st) - (i - j)"
    by (insert inv [unfolded bt_inv_def prod.case], (elim conjE, assumption)+)
  have ji: "j \<le> i" using u(5) kept_le by metis
  have l: "trail u ! i = ?l" using u(7) i u(4) by (metis drop_eq_nths hd_drop_conv_nth)
  have tail: "drop (i + 1) (trail u) = drop (i + 1) (trail st)"
    using arg_cong [OF u(7), of tl] by (simp add: drop_Suc tl_drop)
  have xs: "vidx ?l \<in> set xs" using ok i by (simp add: state_ok_def trail_ok_def)
  then have b: "vidx ?l < length (vtab u)" "vidx ?l < length (vals u)"
    using vmtf_in(2) [OF u(1)] u(8,11) ok by (auto simp: state_ok_def sizes_ok_def)
  have lv: "fst (vtab u ! vidx ?l) = lit_level st ?l" using u(9) by (simp add: lit_level_def)
  show ?thesis
  proof (cases "lit_level st ?l \<le> n")
    case True
    let ?v = "u\<lparr>trail := (trail u)[j := ?l], vtab := (vtab u)[vidx ?l := (fst (vtab u ! vidx ?l), j)]\<rparr>"
    have round: "backtrack_round n (i, j, u) = Ok (i + 1, j + 1, ?v)"
      using l i u(4) b lv True by (simp add: backtrack_round_def)
    have "take (j + 1) (trail ?v) = take j (trail u) @ [?l]"
      using ji i u(4) by (simp add: take_Suc_conv_app_nth)
    then have t: "take (j + 1) (trail ?v) = kept st n (i + 1)" using u(6) kept_Suc [OF i] True by simp
    have d: "drop (i + 1) (trail ?v) = drop (i + 1) (trail st)"
      using tail ji by (simp add: drop_update_cancel)
    have lev: "lit_level ?v m = lit_level st m" for m
      using u(9) b(1) by (cases "vidx m = vidx ?l") (auto simp: lit_level_def)
    have p: "snd (vtab ?v ! vidx (trail ?v ! k)) = k" if "k < j + 1" for k
    proof (cases "k = j")
      case True
      then show ?thesis using b(1) ji i u(4) by simp
    next
      case False
      then have k: "k < j" using that by simp
      have "trail u ! k = kept st n i ! k" using u(6) k by (metis nth_take)
      then have "trail u ! k \<in> set (take i (trail st))"
        using k u(5) by (metis (no_types, lifting) filter_is_subset kept_def nth_mem subsetD)
      then obtain m where m: "m < i" "trail u ! k = trail st ! m"
        using i by (auto simp: in_set_conv_nth)
      have "vidx (trail st ! m) \<noteq> vidx ?l"
        using ok m(1) i by (auto simp: state_ok_def trail_ok_def distinct_conv_nth)
      moreover have "snd (vtab u ! vidx (trail u ! k)) = k" using u(10) k by blast
      ultimately show ?thesis using k m(2) by simp
    qed
    have "bt_inv st xs n (i + 1, j + 1, ?v)"
      unfolding bt_inv_def prod.case
    proof (intro conjI)
      show "no_trail ?v = no_trail st" using u(3) by (simp add: no_trail_def)
      show "vmtf ?v xs" using u(1) by (simp add: vmtf_def)
      show "scored ?v (set xs)" using u(2) by (simp add: scored_def)
      show "j + 1 = length (kept st n (i + 1))" using u(5) kept_Suc [OF i] True by simp
      show "\<forall>x. vals ?v ! x = (if x \<in> dropped st n (i + 1) then 0 else vals st ! x)"
        using u(12) dropped_Suc [OF i] True by simp
      show "num_assigned ?v = length (trail st) - (i + 1 - (j + 1))" using u(13) by simp
    qed (use i t d lev p u(4,8,11) in simp_all)
    then show ?thesis using round by simp
  next
    case False
    have len: "length xs < invalid_heap_position" using state_ok_length [OF ok] ok by (simp add: state_ok_def)
    obtain v where v: "unassign ?l u = Ok v" "vmtf v xs" "scored v (set xs)"
      "v = u\<lparr>num_assigned := num_assigned u - 1, scores := scores v, vals := (vals u)[vidx ?l := 0],
             lq := (links u, queue v)\<rparr>"
      using unassign_ok [OF u(1,2) xs len] by blast
    have round: "backtrack_round n (i, j, u) = Ok (i + 1, j, v)"
      using l i u(4) b lv False v(1) by (simp add: backtrack_round_def)
    have f: "trail v = trail u" "vtab v = vtab u" "vals v = (vals u)[vidx ?l := 0]" "num_assigned v = num_assigned u - 1"
      by (subst v(4), simp)+
    have "bt_inv st xs n (i + 1, j, v)"
      unfolding bt_inv_def prod.case
    proof (intro conjI)
      have "no_trail v = no_trail u" by (subst v(4)) (simp add: no_trail_def)
      then show "no_trail v = no_trail st" using u(3) by simp
      show "drop (i + 1) (trail v) = drop (i + 1) (trail st)" using tail f(1) by simp
      show "\<forall>x. vals v ! x = (if x \<in> dropped st n (i + 1) then 0 else vals st ! x)"
        using u(12) dropped_Suc [OF i] False f(3) b(2) by (auto simp: nth_list_update)
      show "num_assigned v = length (trail st) - (i + 1 - j)" using u(13) f(4) ji i by simp
      show "\<forall>l. lit_level v l = lit_level st l" using u(9) f(2) by (simp add: lit_level_def)
    qed (use i u(4,5,6,8,10,11) v(2,3) f kept_Suc [OF i] False in simp_all)
    then show ?thesis using round by simp
  qed
qed

lemma bt_loop:
  assumes "state_ok st xs" "bt_inv st xs n (i, j, u)"
  shows "\<exists>k v. rwhile (\<lambda>(i, j, st'). i < length (trail st)) (backtrack_round n) (i, j, u) = Ok (length (trail st), k, v) \<and>
    bt_inv st xs n (length (trail st), k, v)"
proof -
  have "\<exists>s. rwhile (\<lambda>(i, j, st'). i < length (trail st)) (backtrack_round n) (i, j, u) = Ok s \<and>
      bt_inv st xs n s \<and> \<not> (\<lambda>(i, j, st'). i < length (trail st)) s"
  proof (rule rwhile_rule)
    show "wf (measure (\<lambda>s. length (trail st) - fst s))" by simp
    show "bt_inv st xs n (i, j, u)" by (rule assms(2))
  next
    fix s :: "nat \<times> nat \<times> 'a solver"
    assume s: "bt_inv st xs n s" "(\<lambda>(i, j, st'). i < length (trail st)) s"
    obtain i' j' u' where e: "s = (i', j', u')" by (cases s)
    then obtain v where "backtrack_round n s = Ok v" "bt_inv st xs n v" "fst v = i' + 1"
      using bt_step [OF assms(1), of n i' j' u'] s by auto
    then show "\<exists>v. backtrack_round n s = Ok v \<and> bt_inv st xs n v \<and> (v, s) \<in> measure (\<lambda>s. length (trail st) - fst s)"
      using e s(2) by auto
  qed
  then obtain s where s: "rwhile (\<lambda>(i, j, st'). i < length (trail st)) (backtrack_round n) (i, j, u) = Ok s"
    "bt_inv st xs n s" "\<not> (\<lambda>(i, j, st'). i < length (trail st)) s" by blast
  obtain i' j' u' where e: "s = (i', j', u')" by (cases s)
  then have "i' = length (trail st)" using s(2,3) by (simp add: bt_inv_def)
  then show ?thesis using s e by blast
qed

lemma no_trailD:
  assumes "no_trail u = no_trail st"
  shows "max_var u = max_var st" "level u = level st" "control u = control st" "btab u = btab st"
    "stab u = stab st" "saved u = saved st" "forced u = forced st" "target u = target st" "best u = best st"
    "tainted_literal u = tainted_literal st" "assumptions u = assumptions st" "clause u = clause st"
proof -
  have "f (no_trail u) = f (no_trail st)" for f :: "'a solver \<Rightarrow> 'b" using assms by simp
  from this [of max_var] this [of level] this [of control] this [of btab] this [of stab] this [of saved] this [of forced]
    this [of target] this [of best] this [of tainted_literal] this [of assumptions] this [of clause]
  show "max_var u = max_var st" "level u = level st" "control u = control st" "btab u = btab st"
    "stab u = stab st" "saved u = saved st" "forced u = forced st" "target u = target st" "best u = best st"
    "tainted_literal u = tainted_literal st" "assumptions u = assumptions st" "clause u = clause st"
    by (simp_all add: no_trail_def)
qed

text \<open>The state after the loop, up to the trail, has the invariant of the trail for the new level.\<close>

lemma backtracked_trail:
  assumes ok: "state_ok st xs" and n: "n < level st" and inv: "bt_inv st xs n (length (trail st), j, u)"
    and w: "trail w = take j (trail u)" "vtab w = vtab u" "vals w = vals u" "num_assigned w = num_assigned u"
      "max_var w = max_var st" "level w = n" "control w = take (n + 1) (control st)"
  shows "trail_ok w \<and> trail w = filter (\<lambda>l. lit_level st l \<le> n) (trail st) \<and>
    (\<forall>x \<in> {1..max_var st}. vals w ! x = (if x \<in> vidx ` set (trail w) then vals st ! x else 0))"
proof -
  let ?keep = "\<lambda>l. lit_level st l \<le> n" and ?tr = "trail st"
  have u: "take j (trail u) = kept st n (length ?tr)" "\<forall>l. lit_level u l = lit_level st l"
    "\<forall>k < j. snd (vtab u ! vidx (trail u ! k)) = k"
    "\<forall>x. vals u ! x = (if x \<in> dropped st n (length ?tr) then 0 else vals st ! x)"
    "num_assigned u = length ?tr - (length ?tr - j)" "j = length (kept st n (length ?tr))"
    by (insert inv [unfolded bt_inv_def prod.case], (elim conjE, assumption)+)
  have tr: "trail w = filter ?keep ?tr" using w(1) u(1) by (simp add: kept_def)
  have jl: "length (trail w) = j" using u(6) tr by (simp add: kept_def)
  have d: "distinct (map vidx ?tr)" and tv: "\<forall>l \<in> set ?tr. vidx l \<in> {1..max_var st} \<and> vals st ! vidx l = sgn l"
    and va: "\<forall>x \<in> {1..max_var st}. vals st ! x \<noteq> 0 \<longrightarrow> x \<in> vidx ` set ?tr"
    and co: "length (control st) = level st + 1"
    and st: "\<forall>k. 0 < k \<longrightarrow> k \<le> level st \<longrightarrow> snd (control st ! k) \<le> length ?tr \<and>
        (\<forall>i < snd (control st ! k). lit_level st (?tr ! i) < k)"
    using ok unfolding state_ok_def trail_ok_def by blast+
  have drop_iff: "vidx l \<in> dropped st n (length ?tr) \<longleftrightarrow> n < lit_level st l" if "l \<in> set ?tr" for l
    using d that by (auto simp: dropped_def distinct_map dest: inj_onD)
  have vw: "vals w ! x = (if x \<in> vidx ` set (trail w) then vals st ! x else 0)" if x: "x \<in> {1..max_var st}" for x
  proof (cases "vals st ! x = 0")
    case True
    then show ?thesis using u(4) w(3) by simp
  next
    case False
    then obtain l where l: "l \<in> set ?tr" "x = vidx l" using va x by blast
    then have "x \<in> vidx ` set (trail w) \<longleftrightarrow> ?keep l"
      using d tr by (auto simp: distinct_map dest: inj_onD)
    then show ?thesis using u(4) w(3) drop_iff [OF l(1)] l(2) by (auto simp: not_le)
  qed
  have start: "snd (control st ! k) \<le> length (trail w) \<and> (\<forall>i < snd (control st ! k). trail w ! i = ?tr ! i)"
    if k: "0 < k" "k \<le> n" for k
  proof -
    let ?c = "snd (control st ! k)"
    have c: "?c \<le> length ?tr" "\<forall>i < ?c. lit_level st (?tr ! i) < k" using st k n by auto
    have "filter ?keep (take ?c ?tr) = take ?c ?tr"
      using c k(2) by (intro filter_True) (fastforce simp: in_set_conv_nth)
    then have e: "trail w = take ?c ?tr @ filter ?keep (drop ?c ?tr)"
      using tr by (metis append_take_drop_id filter_append)
    then show ?thesis using c(1) by (auto simp: nth_append)
  qed
  have lw: "lit_level w l = lit_level st l" for l using u(2) w(2) by (simp add: lit_level_def)
  have "trail_ok w"
    unfolding trail_ok_def
  proof (intro conjI)
    show "distinct (map vidx (trail w))" using d tr by (simp add: distinct_map_filter)
    show "\<forall>l \<in> set (trail w). vidx l \<in> {1..max_var w} \<and> vals w ! vidx l = sgn l"
      using tv vw w(5) tr by auto
    show "\<forall>x \<in> {1..max_var w}. vals w ! x \<noteq> 0 \<longrightarrow> x \<in> vidx ` set (trail w)" using vw w(5) by auto
    show "\<forall>i < length (trail w). snd (vtab w ! vidx (trail w ! i)) = i \<and> lit_level w (trail w ! i) \<le> level w"
    proof (intro allI impI conjI)
      fix i assume i: "i < length (trail w)"
      show "snd (vtab w ! vidx (trail w ! i)) = i" using u(3) w(1,2) i jl by simp
      show "lit_level w (trail w ! i) \<le> level w" using nth_mem [OF i] tr lw w(6) by simp
    qed
    show "num_assigned w = length (trail w)" using u(5,6) w(4) jl kept_le [of st n "length ?tr"] by simp
    show "length (control w) = level w + 1" using w(6,7) co n by simp
    show "\<forall>k. 0 < k \<longrightarrow> k \<le> level w \<longrightarrow> snd (control w ! k) \<le> length (trail w) \<and>
        (\<forall>i < snd (control w ! k). lit_level w (trail w ! i) < k)"
    proof (intro allI impI)
      fix k assume k: "0 < k" "k \<le> level w"
      then have "control w ! k = control st ! k" using w(6,7) by simp
      moreover have "lit_level st (?tr ! i) < k" if "i < snd (control st ! k)" for i using st k w(6) n that by simp
      ultimately show "snd (control w ! k) \<le> length (trail w) \<and> (\<forall>i < snd (control w ! k). lit_level w (trail w ! i) < k)"
        using start [of k] k w(6) lw by simp
    qed
  qed
  then show ?thesis using tr vw by simp
qed

lemma state_ok_update:
  assumes "state_ok st xs" "no_phases u = no_phases st" "length (target u) = length (target st)"
    "length (best u) = length (best st)" "phases_ok u"
  shows "state_ok u xs"
proof -
  note f = no_phasesD [OF assms(2)]
  have "vmtf u xs = vmtf st xs" "scored u (set xs) = scored st (set xs)" by (simp_all add: vmtf_def scored_def f)
  moreover have "sizes_ok u = sizes_ok st" using assms(3,4) by (simp add: sizes_ok_def f)
  moreover have "lit_level u = lit_level st" by (rule ext) (simp add: lit_level_def f)
  then have "trail_ok u = trail_ok st" by (simp add: trail_ok_def f)
  ultimately show ?thesis using assms(1,5) unfolding state_ok_def f by blast
qed

text \<open>
  Backtracking keeps exactly the literals of the remaining levels, in their order, and takes the values
  of the others away.
\<close>

lemma backtrack_ok:
  assumes "state_ok st xs" "n < level st"
  shows "\<exists>v. backtrack n st = Ok v \<and> state_ok v xs \<and> level v = n \<and> max_var v = max_var st \<and>
    trail v = filter (\<lambda>l. lit_level st l \<le> n) (trail st) \<and>
    (\<forall>x \<in> {1..max_var st}. vals v ! x = (if x \<in> vidx ` set (trail v) then vals st ! x else 0)) \<and>
    assumptions v = assumptions st \<and> clause v = clause st \<and> saved v = saved st \<and> forced v = forced st \<and>
    stab v = stab st"
proof -
  define s where "s = update_target_and_best st"
  note up = update_target_ok [of st, folded s_def]
  note f = no_phasesD [OF up(1)]
  have "phases_ok s"
    using assms(1) update_phases_ok [of st] by (simp add: s_def state_ok_def sizes_ok_def)
  then have ok: "state_ok s xs" by (rule state_ok_update [OF assms(1) up])
  have lev: "lit_level s = lit_level st" by (rule ext) (simp add: lit_level_def f)
  let ?N = "length (trail s)"
  define a where "a = snd (control s ! (n + 1))"
  have c: "n + 1 < length (control s)" "a \<le> ?N" "\<forall>i < a. lit_level s (trail s ! i) < n + 1"
    using ok assms(2) f by (auto simp: state_ok_def trail_ok_def a_def)
  have ka: "kept s n a = take a (trail s)"
    unfolding kept_def using c by (intro filter_True) (fastforce simp: in_set_conv_nth)
  have "bt_inv s xs n (a, a, s)"
    using ok c ka by (auto simp: bt_inv_def state_ok_def dropped_def trail_ok_def in_set_conv_nth)
  then obtain j u where u:
    "rwhile (\<lambda>(i, j, st'). i < ?N) (backtrack_round n) (a, a, s) = Ok (?N, j, u)" "bt_inv s xs n (?N, j, u)"
    using bt_loop [OF ok] by blast
  have g: "no_trail u = no_trail s" "vmtf u xs" "scored u (set xs)" "length (vtab u) = length (vtab s)"
    "length (vals u) = length (vals s)" "\<forall>x. vals u ! x = (if x \<in> dropped s n ?N then 0 else vals s ! x)"
    by (insert u(2) [unfolded bt_inv_def prod.case], (elim conjE, assumption)+)
  note h = no_trailD [OF g(1)]
  define w where "w = shrink_trail n a j u"
  define v where "v = (if tainted_literal w \<noteq> 0 \<and> vals w ! vidx (tainted_literal w) = 0
    then w\<lparr>tainted_literal := 0\<rparr> else w)"
  have t: "trail_ok w \<and> trail w = filter (\<lambda>l. lit_level s l \<le> n) (trail s) \<and>
    (\<forall>x \<in> {1..max_var s}. vals w ! x = (if x \<in> vidx ` set (trail w) then vals s ! x else 0))"
    by (rule backtracked_trail [OF ok _ u(2)]) (use assms(2) f h in \<open>simp_all add: w_def shrink_trail_def\<close>)
  have z: "sizes_ok w" using ok g(4-6) h by (simp add: state_ok_def sizes_ok_def w_def shrink_trail_def)
  have i: "set xs = {1..max_var st}" "max_var st < invalid_heap_position" using assms(1) by (simp_all add: state_ok_def)
  have q: "vmtf w xs" "scored w (set xs)" using g(2,3) by (simp_all add: w_def shrink_trail_def vmtf_def scored_def)
  have vw: "trail v = trail w" "vtab v = vtab w" "vals v = vals w" "level v = n" "max_var v = max_var st"
    "control v = control w" "num_assigned v = num_assigned w" "assumptions v = assumptions st" "clause v = clause st"
    "saved v = saved st" "forced v = forced st" "stab v = stab st"
    using f h by (simp_all add: v_def w_def shrink_trail_def)
  have "vmtf v xs" "scored v (set xs)" using q by (simp_all add: v_def vmtf_def scored_def)
  moreover have "sizes_ok v" using z by (auto simp: v_def sizes_ok_def)
  moreover have "lit_level v = lit_level w" by (rule ext) (simp add: lit_level_def vw)
  then have "trail_ok v = trail_ok w" using f h by (simp add: trail_ok_def vw) (simp add: w_def shrink_trail_def)
  then have "trail_ok v" using t by simp
  moreover have "phases_ok v" using ok h by (simp add: state_ok_def phases_ok_def v_def w_def shrink_trail_def)
  ultimately have "state_ok v xs" using i unfolding state_ok_def vw by blast
  moreover have "backtrack n st = Ok v"
  proof -
    have "tainted_literal w \<noteq> 0 \<Longrightarrow> vidx (tainted_literal w) < length (vals w)"
      using z vmtf_in(2) [OF q(1)] i h f by (auto simp: sizes_ok_def w_def shrink_trail_def)
    then have "reset_tainted w = Ok v" by (auto simp: reset_tainted_def v_def val_def)
    then show ?thesis
      using assms(2) c(1) u(1) by (simp add: backtrack_def Let_def s_def [symmetric] a_def w_def)
  qed
  ultimately show ?thesis using t vw lev f by (intro exI [of _ v]) simp
qed

section \<open>Assignments and new variables\<close>

lemma state_okD:
  assumes "state_ok st xs"
  shows "vmtf st xs" "scored st (set xs)" "set xs = {1..max_var st}" "max_var st < invalid_heap_position"
    "sizes_ok st" "trail_ok st" "phases_ok st"
  using assms unfolding state_ok_def by blast+

lemma vidx_eq_iff: "vidx a = vidx b \<longleftrightarrow> a = b \<or> a = - b"
  by (auto simp: vidx_def)

lemma trail_unassigned:
  assumes "state_ok st xs" "x \<in> {1..max_var st}" "vals st ! x = 0"
  shows "x \<notin> vidx ` set (trail st)"
proof
  assume "x \<in> vidx ` set (trail st)"
  then obtain l where "l \<in> set (trail st)" "x = vidx l" by blast
  then have "sgn l = 0" "vidx l \<noteq> 0" using state_okD(6) [OF assms(1)] assms(2,3) by (auto simp: trail_ok_def)
  then show False by (simp add: vidx_def sgn_if split: if_splits)
qed

text \<open>An assignment on the current or a lower level, for a decision after the start of the new level.\<close>

lemma search_assign_ok:
  assumes "state_ok st xs" "vidx lit \<in> {1..max_var st}" "vals st ! vidx lit = 0" "lv \<le> level st"
  shows "\<exists>u. search_assign lit lv st = Ok u \<and> state_ok u xs \<and> trail u = trail st @ [lit] \<and> level u = level st \<and>
    vals u = (vals st)[vidx lit := sgn lit] \<and> lit_level u = (lit_level st)(lit := lv, - lit := lv) \<and>
    max_var u = max_var st \<and> clause u = clause st \<and> assumptions u = assumptions st"
proof -
  let ?x = "vidx lit" and ?v = "if lit < 0 then - 1 else 1 :: int"
  note ok = state_okD [OF assms(1)]
  have v: "?v = sgn lit" "?v \<noteq> 0" using assms(2) by (auto simp: vidx_def sgn_if)
  have b: "?x < length (vals st)" using ok(5) assms(2) by (auto simp: sizes_ok_def)
  then have b2: "?x < length (vtab st)" "?x < length (saved st)" using ok(5) by (simp_all add: sizes_ok_def)
  let ?u = "st\<lparr>vtab := (vtab st)[?x := (lv, length (trail st))], num_assigned := num_assigned st + 1,
    vals := (vals st)[?x := ?v], saved := (saved st)[?x := ?v], trail := trail st @ [lit]\<rparr>"
  have run: "search_assign lit lv st = Ok ?u"
    using b b2 by (simp add: search_assign_def Let_def set_val_def vidx_def)
  have new: "?x \<notin> vidx ` set (trail st)" by (rule trail_unassigned [OF assms(1-3)])
  have lev: "lit_level ?u = (lit_level st)(lit := lv, - lit := lv)"
  proof
    fix l
    show "lit_level ?u l = ((lit_level st)(lit := lv, - lit := lv)) l"
    proof (cases "vidx l = ?x")
      case True
      then have "l = lit \<or> l = - lit" unfolding vidx_eq_iff .
      then have "((lit_level st)(lit := lv, - lit := lv)) l = lv" by (elim disjE) simp_all
      moreover have "lit_level ?u l = lv" using True b2 by (simp add: lit_level_def)
      ultimately show ?thesis by simp
    next
      case False
      then have "l \<noteq> lit" "l \<noteq> - lit" unfolding vidx_eq_iff by blast+
      then show ?thesis using False by (simp add: lit_level_def)
    qed
  qed
  have keep: "lit_level ?u l = lit_level st l" "vtab ?u ! vidx l = vtab st ! vidx l" if "l \<in> set (trail st)" for l
  proof -
    have "vidx l \<noteq> ?x" using imageI [OF that, of vidx] new by metis
    then show "lit_level ?u l = lit_level st l" "vtab ?u ! vidx l = vtab st ! vidx l" by (simp_all add: lit_level_def)
  qed
  have "vmtf ?u xs" using vmtf_assign [OF ok(1) v(2), of ?x] by (simp add: vmtf_def)
  moreover have "scored ?u (set xs)" using scored_assign [OF ok(2) v(2), of ?x] by (simp add: scored_def)
  moreover have "sizes_ok ?u"
    using ok(5) assms(2) by (auto simp: sizes_ok_def)
  moreover have "phases_ok ?u"
    using ok(7) set_update_subset_insert [of "saved st" ?x ?v] by (auto simp: phases_ok_def)
  moreover have "trail_ok ?u"
    unfolding trail_ok_def
  proof (intro conjI)
    have t: "distinct (map vidx (trail st))" "\<forall>l \<in> set (trail st). vidx l \<in> {1..max_var st} \<and> vals st ! vidx l = sgn l"
      "\<forall>x \<in> {1..max_var st}. vals st ! x \<noteq> 0 \<longrightarrow> x \<in> vidx ` set (trail st)"
      "\<forall>i < length (trail st). snd (vtab st ! vidx (trail st ! i)) = i \<and> lit_level st (trail st ! i) \<le> level st"
      "num_assigned st = length (trail st)" "length (control st) = level st + 1"
      "\<forall>k. 0 < k \<longrightarrow> k \<le> level st \<longrightarrow> snd (control st ! k) \<le> length (trail st) \<and>
        (\<forall>i < snd (control st ! k). lit_level st (trail st ! i) < k)"
      using ok(6) unfolding trail_ok_def by blast+
    show "distinct (map vidx (trail ?u))" using t(1) new by simp
    show "\<forall>l \<in> set (trail ?u). vidx l \<in> {1..max_var ?u} \<and> vals ?u ! vidx l = sgn l"
    proof
      fix l assume "l \<in> set (trail ?u)"
      then have "l = lit \<or> l \<in> set (trail st)" by auto
      moreover have "vidx l \<noteq> ?x" if "l \<in> set (trail st)" using imageI [OF that, of vidx] new by metis
      ultimately consider "l = lit" | "l \<in> set (trail st)" "vidx l \<noteq> ?x" by blast
      then show "vidx l \<in> {1..max_var ?u} \<and> vals ?u ! vidx l = sgn l"
        by cases (use t(2) assms(2) b v(1) in auto)
    qed
    show "\<forall>x \<in> {1..max_var ?u}. vals ?u ! x \<noteq> 0 \<longrightarrow> x \<in> vidx ` set (trail ?u)"
    proof (intro ballI impI)
      fix x assume "x \<in> {1..max_var ?u}" "vals ?u ! x \<noteq> 0"
      then show "x \<in> vidx ` set (trail ?u)" using t(3) by (cases "x = ?x") auto
    qed
    show "\<forall>i < length (trail ?u). snd (vtab ?u ! vidx (trail ?u ! i)) = i \<and> lit_level ?u (trail ?u ! i) \<le> level ?u"
    proof (intro allI impI)
      fix i assume "i < length (trail ?u)"
      then consider "i = length (trail st)" | "i < length (trail st)" by fastforce
      then show "snd (vtab ?u ! vidx (trail ?u ! i)) = i \<and> lit_level ?u (trail ?u ! i) \<le> level ?u"
      proof cases
        case 1
        then show ?thesis using b2 assms(4) by (simp add: lit_level_def)
      next
        case 2
        then show ?thesis using keep [of "trail st ! i"] t(4) by (simp add: nth_append)
      qed
    qed
    show "\<forall>k. 0 < k \<longrightarrow> k \<le> level ?u \<longrightarrow> snd (control ?u ! k) \<le> length (trail ?u) \<and>
        (\<forall>i < snd (control ?u ! k). lit_level ?u (trail ?u ! i) < k)"
    proof (intro allI impI)
      fix k assume k: "0 < k" "k \<le> level ?u"
      then have c: "snd (control st ! k) \<le> length (trail st)" "\<forall>i < snd (control st ! k). lit_level st (trail st ! i) < k"
        using t(7) by auto
      have "lit_level ?u (trail ?u ! i) < k" if "i < snd (control st ! k)" for i
        using c that keep(1) [of "trail st ! i"] by (simp add: nth_append)
      then show "snd (control ?u ! k) \<le> length (trail ?u) \<and> (\<forall>i < snd (control ?u ! k). lit_level ?u (trail ?u ! i) < k)"
        using c(1) by simp
    qed
    show "num_assigned ?u = length (trail ?u)" "length (control ?u) = level ?u + 1" using t(5,6) by simp_all
  qed
  ultimately have "state_ok ?u xs" using ok(3,4) by (simp add: state_ok_def)
  then show ?thesis using run lev v(1) by (intro exI [of _ ?u]) simp
qed

lemma new_level_ok:
  assumes "state_ok st xs"
  shows "state_ok (new_trail_level lit st) xs"
proof -
  let ?u = "new_trail_level lit st"
  note ok = state_okD [OF assms]
  have lev: "lit_level ?u = lit_level st" by (rule ext) (simp add: lit_level_def new_trail_level_def)
  have "trail_ok ?u"
    using ok(6) unfolding trail_ok_def lev
    by (auto simp: new_trail_level_def nth_append le_Suc_eq less_Suc_eq_le)
  moreover have "vmtf ?u xs" "scored ?u (set xs)" "sizes_ok ?u" "phases_ok ?u"
    using ok by (simp_all add: new_trail_level_def vmtf_def scored_def sizes_ok_def phases_ok_def)
  ultimately show ?thesis using ok(3,4) by (simp add: state_ok_def new_trail_level_def)
qed

lemma assume_decision_ok:
  assumes "state_ok st xs" "vidx lit \<in> {1..max_var st}" "vals st ! vidx lit = 0"
  shows "\<exists>u. search_assume_decision lit st = Ok u \<and> state_ok u xs \<and> trail u = trail st @ [lit] \<and>
    level u = level st + 1 \<and> vals u = (vals st)[vidx lit := sgn lit] \<and> lit_level u lit = level st + 1 \<and>
    max_var u = max_var st \<and> clause u = clause st \<and> assumptions u = assumptions st"
proof -
  let ?s = "new_trail_level lit st"
  have "vidx lit \<in> {1..max_var ?s}" "vals ?s ! vidx lit = 0" using assms(2,3) by (simp_all add: new_trail_level_def)
  then show ?thesis
    using search_assign_ok [OF new_level_ok [OF assms(1), of lit], of lit "level ?s"]
    by (auto simp: search_assume_decision_def Let_def new_trail_level_def)
qed

section \<open>New variables\<close>

lemma grow_bounds: "0 < n \<Longrightarrow> m < grow n m \<and> n \<le> grow n m"
proof (induction n m rule: grow.induct)
  case (1 n m)
  show ?case
  proof (cases "m < n")
    case True
    then show ?thesis by (simp add: grow.simps)
  next
    case False
    then show ?thesis using 1 by (subst (1 2) grow.simps) auto
  qed
qed

lemma enlarge_init_facts:
  "length v \<le> n \<Longrightarrow> length (enlarge_init n d v) = n"
  "length v \<le> n \<Longrightarrow> i < length v \<Longrightarrow> enlarge_init n d v ! i = v ! i"
  "set (enlarge_init n d v) \<subseteq> insert d (set v)"
  by (auto simp: enlarge_init_def nth_vec_resize) (auto simp: vec_resize_def dest: in_set_takeD)

lemma seg_links:
  "seg ls p xs s \<Longrightarrow> length ls \<le> length ks \<Longrightarrow> (\<And>i. i < length ls \<Longrightarrow> ks ! i = ls ! i) \<Longrightarrow> seg ks p xs s"
  by (induction xs arbitrary: p) auto

lemma enlarge_tables_ok:
  assumes "state_ok st xs" "length (vals st) \<le> m"
  shows "state_ok (enlarge opts m st) xs \<and> m < length (vals (enlarge opts m st)) \<and>
    max_var (enlarge opts m st) = max_var st \<and> level (enlarge opts m st) = level st \<and>
    trail (enlarge opts m st) = trail st \<and> clause (enlarge opts m st) = clause st"
proof -
  let ?u = "enlarge opts m st"
  define n where "n = grow (if length (vals st) \<noteq> 0 then 2 * length (vals st) else 1 + m) m"
  have n: "m < n" "length (vals st) \<le> n"
    using grow_bounds [of "if length (vals st) \<noteq> 0 then 2 * length (vals st) else 1 + m" m]
    by (auto simp: n_def split: if_splits)
  note ok = state_okD [OF assms(1)]
  have u: "?u = st\<lparr>vtab := enlarge_init n (0, 0) (vtab st),
      lq := (enlarge_init n \<lparr>l_prev = 0, l_next = 0\<rparr> (links st), queue st), btab := enlarge_init n 0 (btab st),
      vals := vec_resize (take (max_var st + 1) (vals st)) n 0,
      saved := enlarge_init n (if opt_phase opts then 1 else - 1) (saved st), forced := enlarge_init n 0 (forced st),
      target := enlarge_init n 0 (target st), best := enlarge_init n 0 (best st)\<rparr>"
    by (simp add: enlarge_def Let_def n_def)
  have sz: "length (vtab st) = length (vals st)" "length (saved st) = length (vals st)"
    "length (forced st) = length (vals st)" "length (target st) = length (vals st)" "length (best st) = length (vals st)"
    "0 < max_var st \<Longrightarrow> max_var st < length (vals st)"
    using ok(5) by (simp_all add: sizes_ok_def)
  have sq: "length (links st) = length (vals st)" "length (btab st) = length (vals st)" using ok(1) by (simp_all add: vmtf_def)
  have vals: "vals ?u ! x = vals st ! x" if "x \<in> {1..max_var st}" for x
    using that sz(6) n by (simp add: u nth_vec_resize)
  have btab: "btab ?u ! x = btab st ! x" if "x \<in> {1..max_var st}" for x
    using that sz(6) sq n(2) enlarge_init_facts(2) [of "btab st" n x 0] by (simp add: u)
  have vtab: "vtab ?u ! x = vtab st ! x" if "x \<in> {1..max_var st}" for x
    using that sz(1,6) n(2) enlarge_init_facts(2) [of "vtab st" n x "(0, 0)"] by (simp add: u)
  have lev: "lit_level ?u l = lit_level st l" if "l \<in> set (trail st)" for l
    using vtab [of "vidx l"] ok(6) that by (simp add: lit_level_def trail_ok_def)
  have f: "max_var ?u = max_var st" "level ?u = level st" "trail ?u = trail st" "clause ?u = clause st"
    "control ?u = control st" "num_assigned ?u = num_assigned st" "queue ?u = queue st" "bumped_stat ?u = bumped_stat st"
    "scores ?u = scores st" "stab ?u = stab st" "length (vals ?u) = n" "length (btab ?u) = n" "length (links ?u) = n"
    using n(2) sq by (simp_all add: u enlarge_init_facts)
  have "vmtf ?u xs"
  proof -
    have "queue_ok (lq ?u) xs"
      using ok(1) seg_links [of "links st" 0 xs 0 "links ?u"] sq n(2)
      by (auto simp: vmtf_def queue_ok_def u enlarge_init_facts)
    moreover have "sorted_wrt (\<lambda>x y. btab ?u ! x < btab ?u ! y) xs"
      by (rule sorted_wrt_mono_rel [of _ "\<lambda>x y. btab st ! x < btab st ! y"])
        (use ok(1) btab ok(3) in \<open>simp_all add: vmtf_def\<close>)
    moreover have "xs \<noteq> [] \<longrightarrow> unassigned (queue st) \<in> set xs \<and> q_bumped (queue st) \<le> btab ?u ! unassigned (queue st)"
      using ok(1) btab [of "unassigned (queue st)"] ok(3) by (auto simp: vmtf_def)
    moreover have "\<forall>x \<in> set xs. x < n \<and> btab ?u ! x \<le> bumped_stat st \<and> (vals ?u ! x = 0 \<longrightarrow> btab ?u ! x \<le> q_bumped (queue st))"
    proof
      fix x assume x: "x \<in> set xs"
      then have "x \<in> {1..max_var st}" using ok(3) by simp
      then show "x < n \<and> btab ?u ! x \<le> bumped_stat st \<and> (vals ?u ! x = 0 \<longrightarrow> btab ?u ! x \<le> q_bumped (queue st))"
        using ok(1) x btab vals less_le_trans [OF vmtf_in(2) [OF ok(1) x] n(2)] by (simp add: vmtf_def)
    qed
    moreover have "q_bumped (queue st) \<le> bumped_stat st" using ok(1) by (simp add: vmtf_def)
    ultimately show ?thesis unfolding vmtf_def f by simp
  qed
  moreover have "scored ?u (set xs)" using ok(2,3) vals by (simp add: scored_def f)
  moreover have "sizes_ok ?u"
    using ok(5) n by (auto simp: sizes_ok_def u enlarge_init_facts nth_vec_resize)
  moreover have "phases_ok ?u"
    using ok(7) enlarge_init_facts(3) [of n "if opt_phase opts then 1 else - 1" "saved st"]
      enlarge_init_facts(3) [of n 0 "forced st"] enlarge_init_facts(3) [of n 0 "target st"]
      enlarge_init_facts(3) [of n 0 "best st"]
    by (auto simp: phases_ok_def u split: if_splits)
  moreover have "trail_ok ?u"
  proof -
    have t: "vidx l \<in> {1..max_var st}" if "l \<in> set (trail st)" for l using ok(6) that by (simp add: trail_ok_def)
    have "lit_level ?u (trail st ! i) < k" if "0 < k" "k \<le> level st" "i < snd (control st ! k)" for i k
    proof -
      have "snd (control st ! k) \<le> length (trail st) \<and> (\<forall>i < snd (control st ! k). lit_level st (trail st ! i) < k)"
        using ok(6) that(1,2) by (simp add: trail_ok_def)
      then show ?thesis using that(3) lev [of "trail st ! i"] by simp
    qed
    then show ?thesis
      using ok(6) unfolding trail_ok_def f by (simp add: vals vtab lev t [simplified])
  qed
  ultimately show ?thesis using ok(3,4) f n(1) by (simp add: state_ok_def)
qed

lemma init_queue_ok:
  assumes "vmtf st xs" "set xs = {1..a}" "a \<le> b" "b < length (vals st)" "\<not> opt_reverse opts"
  shows "\<exists>u ys. init_queue opts a b st = Ok u \<and> vmtf u ys \<and> set ys = {1..b} \<and>
    u = st\<lparr>lq := lq u, btab := btab u, bumped_stat := bumped_stat u\<rparr>"
  using assms
proof (induction b)
  case 0
  then show ?case by (intro exI [of _ st] exI [of _ xs]) (simp add: init_queue_def)
next
  case (Suc b)
  show ?case
  proof (cases "a = Suc b")
    case True
    then show ?thesis using Suc.prems by (intro exI [of _ st] exI [of _ xs]) (simp add: init_queue_def)
  next
    case False
    then obtain u ys where u: "init_queue opts a b st = Ok u" "vmtf u ys" "set ys = {1..b}"
      "u = st\<lparr>lq := lq u, btab := btab u, bumped_stat := bumped_stat u\<rparr>"
      using Suc.IH Suc.prems by auto
    have "vals u = vals st" by (subst u(4)) simp
    then obtain v where v: "init_enqueue_last (Suc b) u = Ok v" "vmtf v (ys @ [Suc b])"
      "v = u\<lparr>lq := lq v, btab := btab v, bumped_stat := bumped_stat v\<rparr>"
      using init_enqueue_last_ok [OF u(2), of "Suc b"] u(3) Suc.prems(4) by auto
    have "init_queue opts a (Suc b) st = Ok v"
      using u(1) v(1) False Suc.prems(3,5) by (simp add: init_queue_def rfold_append init_enqueue_def)
    moreover have "set (ys @ [Suc b]) = {1..Suc b}" using u(3) by auto
    moreover have "v = st\<lparr>lq := lq v, btab := btab v, bumped_stat := bumped_stat v\<rparr>"
    proof -
      have "u\<lparr>lq := l, btab := t, bumped_stat := m\<rparr> = st\<lparr>lq := l, btab := t, bumped_stat := m\<rparr>" for l t m
        by (subst u(4)) simp
      then show ?thesis using v(3) by simp
    qed
    ultimately show ?thesis using v(2) by (intro exI [of _ v] exI [of _ "ys @ [Suc b]"] conjI)
  qed
qed

lemma init_scores_ok:
  assumes "heap_ok (score_smaller (stab st)) (scores st)" "set_mset (elements (scores st)) \<subseteq> {1..a}" "a \<le> b"
    "b < invalid_heap_position"
  shows "\<exists>h. init_scores a b st = Ok (st\<lparr>scores := h\<rparr>) \<and> heap_ok (score_smaller (stab st)) h \<and>
    set_mset (elements h) = set_mset (elements (scores st)) \<union> {Suc a..b}"
  using assms
proof (induction b)
  case 0
  then show ?case by (intro exI [of _ "scores st"]) (simp add: init_scores_def)
next
  case (Suc b)
  show ?case
  proof (cases "a = Suc b")
    case True
    then show ?thesis using Suc.prems by (intro exI [of _ "scores st"]) (simp add: init_scores_def)
  next
    case False
    then obtain h where h: "init_scores a b st = Ok (st\<lparr>scores := h\<rparr>)" "heap_ok (score_smaller (stab st)) h"
      "set_mset (elements h) = set_mset (elements (scores st)) \<union> {Suc a..b}"
      using Suc.IH Suc.prems by auto
    let ?u = "st\<lparr>scores := h\<rparr>"
    have sub: "set_mset (elements h) \<subseteq> {1..b}" using h(3) Suc.prems(2,3) False by auto
    then have n: "Suc b \<notin># elements h" by auto
    have "distinct (array h)" using h(2) by (simp add: heap_ok_def heap_wf_def)
    then have "size (elements h) = card (set_mset (elements h))" by (simp add: elements_def distinct_card)
    also have "\<dots> \<le> card {1..b}" by (rule card_mono [OF _ sub]) simp
    finally have "size (elements (scores ?u)) < invalid_heap_position" using Suc.prems(4) by simp
    then obtain k where k: "push_score (Suc b) ?u = Ok (?u\<lparr>scores := k\<rparr>)" "heap_ok (score_smaller (stab st)) k"
      "elements k = add_mset (Suc b) (elements h)"
      using push_score_ok [of ?u "Suc b"] h(2) n by auto
    have "init_scores a (Suc b) st = Ok (st\<lparr>scores := k\<rparr>)"
      using h(1) k(1) False Suc.prems(3) by (simp add: init_scores_def rfold_append)
    moreover have "{Suc a..Suc b} = insert (Suc b) {Suc a..b}"
      by (rule atLeastAtMostSuc_conv) (use False Suc.prems(3) in simp)
    then have "set_mset (elements k) = set_mset (elements (scores st)) \<union> {Suc a..Suc b}"
      unfolding k(3) set_mset_add_mset_insert h(3) by simp
    ultimately show ?thesis using k(2) by blast
  qed
qed

lemma internal_init_vars_ok:
  assumes "state_ok st xs" "\<not> opt_reverse opts" "m < invalid_heap_position"
  shows "\<exists>u ys. internal_init_vars opts m st = Ok u \<and> state_ok u ys \<and> max_var u = max (max_var st) m"
proof (cases "m \<le> max_var st")
  case True
  then show ?thesis using assms(1) by (intro exI [of _ st] exI [of _ xs]) (simp add: internal_init_vars_def)
next
  case False
  obtain v where v: "(if level st \<noteq> 0 then backtrack 0 st else Ok st) = Ok v" "state_ok v xs" "max_var v = max_var st"
    using backtrack_ok [OF assms(1), of 0] assms(1) by (cases "level st = 0") auto
  define e where "e = (if m \<ge> length (vals v) then enlarge opts m v else v)"
  have e: "state_ok e xs" "m < length (vals e)" "max_var e = max_var st"
    using v(2,3) enlarge_tables_ok [OF v(2), of m opts] by (auto simp: e_def)
  note ok = state_okD [OF e(1)]
  let ?e = "e\<lparr>max_var := m\<rparr>" and ?o = "max_var st"
  have q: "vmtf ?e xs" using ok(1) by (simp add: vmtf_def)
  obtain u ys where u: "init_queue opts ?o m ?e = Ok u" "vmtf u ys" "set ys = {1..m}"
    "u = ?e\<lparr>lq := lq u, btab := btab u, bumped_stat := bumped_stat u\<rparr>"
    using init_queue_ok [OF q, of ?o m opts] ok(3) e(2,3) False assms(2) by auto
  have f: "stab u = stab e" "scores u = scores e" "vals u = vals e" "max_var u = m" "trail u = trail e" "vtab u = vtab e"
    "num_assigned u = num_assigned e" "control u = control e" "level u = level e"
    "saved u = saved e" "forced u = forced e" "target u = target e" "best u = best e"
    "tainted_literal u = tainted_literal e"
    by (subst u(4), simp)+
  obtain h where h: "init_scores ?o m u = Ok (u\<lparr>scores := h\<rparr>)" "heap_ok (score_smaller (stab u)) h"
    "set_mset (elements h) = set_mset (elements (scores u)) \<union> {Suc ?o..m}"
    using init_scores_ok [of u ?o m] ok(2,3) e(3) f False assms(3) by (auto simp: scored_def)
  let ?u = "u\<lparr>scores := h\<rparr>"
  have zero: "vals e ! x = 0" if "x \<in> {Suc ?o..m}" for x using ok(5) e(2,3) that by (simp add: sizes_ok_def)
  have "internal_init_vars opts m st = Ok ?u"
    using False v(1,3) u(1) h(1) e(3) by (simp add: internal_init_vars_def Let_def e_def [symmetric])
  moreover have "vmtf ?u ys" using u(2) by (simp add: vmtf_def)
  moreover have "scored ?u (set ys)"
  proof -
    have "set_mset (elements h) \<subseteq> set ys" using h(3) ok(2,3) e(3) f u(3) False by (auto simp: scored_def)
    moreover have "x \<in># elements h" if "x \<in> set ys" "vals e ! x = 0" for x
      using that h(3) ok(2,3) e(3) f u(3) by (cases "x \<le> ?o") (auto simp: scored_def)
    ultimately show ?thesis using h(2) f by (simp add: scored_def)
  qed
  moreover have "sizes_ok ?u" using ok(5) e(2,3) f False by (auto simp: sizes_ok_def)
  moreover have "phases_ok ?u" using ok(7) f by (simp add: phases_ok_def)
  moreover have "trail_ok ?u"
  proof -
    have lev: "lit_level ?u = lit_level e" by (rule ext) (simp add: lit_level_def f)
    have "x \<in> vidx ` set (trail e)" if "x \<in> {1..m}" "vals e ! x \<noteq> 0" for x
      using that zero [of x] ok(6) e(3) by (cases "x \<le> ?o") (auto simp: trail_ok_def)
    moreover have "\<forall>l \<in> set (trail e). vidx l \<in> {1..m} \<and> vals e ! vidx l = sgn l"
      using ok(6) e(3) False by (auto simp: trail_ok_def)
    ultimately show ?thesis using ok(6) unfolding trail_ok_def lev by (simp add: f)
  qed
  ultimately have "state_ok ?u ys" using u(3) f assms(3) by (simp add: state_ok_def)
  then show ?thesis
    using \<open>internal_init_vars opts m st = Ok ?u\<close> f False by (intro exI [of _ ?u] exI [of _ ys]) simp
qed


end
