(* ===== verification/Search_Correct.thy ===== *)
theory Search_Correct
  imports Search_Trail "HOL-Library.Code_Target_Nat"
begin

text \<open>
  What \<open>decide\<close> does in each of its cases, and the properties of all states the search can reach.
\<close>

section \<open>Deciding\<close>

definition lit_val :: "'a solver \<Rightarrow> int \<Rightarrow> int" where
  "lit_val st l = (if l < 0 then - (vals st ! vidx l) else vals st ! vidx l)"

definition lits_ok :: "'a solver \<Rightarrow> int list \<Rightarrow> bool" where
  "lits_ok st c \<longleftrightarrow> (\<forall>l \<in> set c. vidx l \<in> {1..max_var st})"

lemma val_ok: "sizes_ok st \<Longrightarrow> vidx l \<in> {1..max_var st} \<Longrightarrow> val l st = Ok (lit_val st l)"
  by (auto simp: val_def lit_val_def sizes_ok_def)

lemma lit_val_zero: "lit_val st l = 0 \<longleftrightarrow> vals st ! vidx l = 0"
  by (simp add: lit_val_def)

lemma decide_phase_ok:
  assumes "state_ok st xs" "x \<in> {1..max_var st}"
  shows "vidx (decide_phase opts x t st) = x"
proof -
  note ok = state_okD [OF assms(1)]
  have i: "x < length (saved st)" "x < length (forced st)" "x < length (target st)"
    using ok(5) assms(2) by (auto simp: sizes_ok_def)
  then have p: "saved st ! x \<in> {- 1, 0, 1}" "forced st ! x \<in> {- 1, 0, 1}" "target st ! x \<in> {- 1, 0, 1}"
    using ok(7) by (simp_all add: phases_ok_def)
  obtain a b c where "a = saved st ! x" "b = forced st ! x" "c = target st ! x" by blast
  then have "decide_phase opts x t st \<in> {- int x, int x}"
    using p unfolding decide_phase_def Let_def by auto
  then show ?thesis by (auto simp: vidx_def)
qed

text \<open>The loop over the constraint \<open>c\<close> at position \<open>i\<close>: the literals before are moved by one.\<close>

definition scan_inv :: "'a solver \<Rightarrow> int list \<Rightarrow> scan \<Rightarrow> bool" where
  "scan_inv st c s \<longleftrightarrow> (let i = s_pos s in
     if s_sat s = 0
     then i \<le> length c \<and> s_clause s = take i (0 # c) @ drop i c \<and> s_previous s = (0 # c) ! i \<and>
       (\<forall>k < i. lit_val st (c ! k) \<le> 0) \<and> (s_unassigned s = 0 \<longrightarrow> (\<forall>k < i. lit_val st (c ! k) < 0)) \<and>
       (s_unassigned s \<noteq> 0 \<longrightarrow> s_unassigned s \<in> set c \<and> lit_val st (s_unassigned s) = 0)
     else i < length c \<and> s_clause s = take (i + 1) (0 # c) @ drop (i + 1) c \<and> s_sat s = c ! i \<and> lit_val st (c ! i) > 0)"

lemma move_one:
  "i < length c \<Longrightarrow> (take i (0 # c) @ drop i c)[i := (0 # c) ! i] = take (i + 1) (0 # c) @ drop (i + 1) (c :: int list)"
proof -
  assume i: "i < length c"
  have "take (Suc i) (0 # c) = take i (0 # c) @ [(0 # c) ! i]" by (rule take_Suc_conv_app_nth) (use i in simp)
  then have "take (i + 1) (0 # c) = take i (0 # c) @ [(0 # c) ! i]" by simp
  moreover have "drop i c = c ! i # drop (i + 1) c" using i by (simp add: Cons_nth_drop_Suc)
  moreover have "length (take i (0 # c)) = i" using i by simp
  ultimately show ?thesis by (simp add: list_update_append)
qed

lemma scan_step:
  assumes "state_ok st xs" "lits_ok st (clause st)" "scan_inv st (clause st) s" "s_sat s = 0" "s_pos s \<noteq> length (clause st)"
  shows "\<exists>t. constraint_round opts st s = Ok t \<and> scan_inv st (clause st) t \<and>
    2 * (length (clause st) - s_pos t) + (if s_sat t = 0 then 1 else 0) < 2 * (length (clause st) - s_pos s) + 1"
proof -
  let ?c = "clause st" and ?i = "s_pos s"
  have I: "?i < length ?c" "s_clause s = take ?i (0 # ?c) @ drop ?i ?c" "s_previous s = (0 # ?c) ! ?i"
    "\<forall>k < ?i. lit_val st (?c ! k) \<le> 0" "s_unassigned s = 0 \<longrightarrow> (\<forall>k < ?i. lit_val st (?c ! k) < 0)"
    "s_unassigned s \<noteq> 0 \<longrightarrow> s_unassigned s \<in> set ?c \<and> lit_val st (s_unassigned s) = 0"
    using assms(3-5) by (auto simp: scan_inv_def Let_def)
  let ?l = "?c ! ?i"
  have l: "?l \<in> set ?c" using I(1) by simp
  then have v: "val ?l st = Ok (lit_val st ?l)" "?l \<noteq> 0"
    using assms(2) val_ok state_okD(5) [OF assms(1)] by (auto simp: lits_ok_def vidx_def)
  have at: "vec_at (s_clause s) ?i = Ok ?l"
    using I(1,2) by (simp add: vec_at_def nth_append)
  have moved: "(s_clause s)[?i := s_previous s] = take (?i + 1) (0 # ?c) @ drop (?i + 1) ?c"
    using move_one [OF I(1)] I(2,3) by simp
  have less: "\<forall>k < ?i + 1. P (?c ! k)" if "\<forall>k < ?i. P (?c ! k)" "P ?l" for P
    using that by (auto simp: less_Suc_eq)
  consider "lit_val st ?l < 0" | "lit_val st ?l > 0" | "lit_val st ?l = 0" by linarith
  then show ?thesis
  proof cases
    case 1
    let ?t = "s\<lparr>s_clause := (s_clause s)[?i := s_previous s], s_previous := ?l, s_pos := ?i + 1\<rparr>"
    have "constraint_round opts st s = Ok ?t" using at v 1 by (simp add: constraint_round_def Let_def)
    moreover have "scan_inv st ?c ?t"
      using I moved assms(4) 1 less [of "\<lambda>l. lit_val st l \<le> 0"] less [of "\<lambda>l. lit_val st l < 0"]
      by (simp add: scan_inv_def Let_def)
    ultimately show ?thesis using assms(4) I(1) by (intro exI [of _ ?t]) simp
  next
    case 2
    let ?t = "s\<lparr>s_clause := (s_clause s)[?i := s_previous s], s_previous := ?l, s_sat := ?l\<rparr>"
    have "constraint_round opts st s = Ok ?t" using at v 2 by (simp add: constraint_round_def Let_def)
    moreover have "scan_inv st ?c ?t" using I moved v(2) 2 by (simp add: scan_inv_def Let_def)
    ultimately show ?thesis using v(2) I(1) by (intro exI [of _ ?t]) simp
  next
    case 3
    let ?n = "if s_unassigned s = 0 \<or> better_decision opts ?l (s_unassigned s) st then ?l else s_unassigned s"
    let ?t = "s\<lparr>s_clause := (s_clause s)[?i := s_previous s], s_previous := ?l, s_unassigned := ?n, s_pos := ?i + 1\<rparr>"
    have "constraint_round opts st s = Ok ?t" using at v 3 by (simp add: constraint_round_def Let_def)
    moreover have "?n \<noteq> 0 \<and> ?n \<in> set ?c \<and> lit_val st ?n = 0" using v(2) l 3 I(6) by auto
    then have "scan_inv st ?c ?t"
      using I moved assms(4) 3 less [of "\<lambda>l. lit_val st l \<le> 0"] by (simp add: scan_inv_def Let_def)
    ultimately show ?thesis using assms(4) I(1) by (intro exI [of _ ?t]) simp
  qed
qed

lemma scan_constraint_ok:
  assumes "state_ok st xs" "lits_ok st (clause st)"
  shows "\<exists>s. scan_constraint opts st = Ok s \<and> scan_inv st (clause st) s \<and>
    (s_sat s = 0 \<longrightarrow> s_pos s = length (clause st))"
proof -
  let ?s = "\<lparr>s_pos = 0, s_clause = clause st, s_sat = 0, s_unassigned = 0, s_previous = 0\<rparr>"
  let ?m = "\<lambda>s. 2 * (length (clause st) - s_pos s) + (if s_sat s = 0 then 1 else 0)"
  have "\<exists>s. rwhile (\<lambda>s. s_sat s = 0 \<and> s_pos s \<noteq> length (clause st)) (constraint_round opts st) ?s = Ok s \<and>
      scan_inv st (clause st) s \<and> \<not> (s_sat s = 0 \<and> s_pos s \<noteq> length (clause st))"
  proof (rule rwhile_rule)
    show "wf (measure ?m)" by simp
    show "scan_inv st (clause st) ?s" by (simp add: scan_inv_def)
  next
    fix s assume s: "scan_inv st (clause st) s" "s_sat s = 0 \<and> s_pos s \<noteq> length (clause st)"
    then show "\<exists>v. constraint_round opts st s = Ok v \<and> scan_inv st (clause st) v \<and> (v, s) \<in> measure ?m"
      using scan_step [OF assms s(1)] by auto
  qed
  then show ?thesis unfolding scan_constraint_def by blast
qed

lemma move_back_Cons: "move_back p (x # ys) = ys @ [p]"
proof -
  have "fold (\<lambda>i c. c[i := c ! (i + 1)]) [0..<k] (x # ys) = take k ys @ drop k (x # ys)" if "k \<le> length ys" for k
    using that
  proof (induction k)
    case (Suc k)
    have "drop k (x # ys) = (x # ys) ! k # ys ! k # drop (Suc k) ys"
      using Suc.prems by (metis Cons_nth_drop_Suc Suc_le_lessD drop_Suc_Cons length_Cons less_Suc_eq nth_Cons_Suc)
    then show ?case
      using Suc by (simp add: list_update_append nth_append take_Suc_conv_app_nth drop_Suc_Cons [symmetric] del: drop_Suc_Cons)
        (simp add: Cons_nth_drop_Suc Suc_le_lessD)
  qed simp
  moreover obtain z where "drop (length ys) (x # ys) = [z]"
    by (cases "drop (length ys) (x # ys)") (auto dest: arg_cong [of _ _ length])
  ultimately have "fold (\<lambda>i c. c[i := c ! (i + 1)]) [0..<length ys] (x # ys) = ys @ [z]" by simp
  then show ?thesis by (simp add: move_back_def)
qed

text \<open>\<open>before\<close> is the order of the heuristic in use: no candidate comes before the variable picked.\<close>

definition before :: "options \<Rightarrow> 'a::linorder solver \<Rightarrow> nat \<Rightarrow> nat \<Rightarrow> bool" where
  "before opts st y x \<longleftrightarrow>
     (if use_scores opts then stab st x < stab st y \<or> (stab st x = stab st y \<and> y < x) else btab st ! x < btab st ! y)"

lemma next_decision_ok:
  assumes "state_ok st xs" "x \<in> {1..max_var st}" "vals st ! x = 0"
  shows "\<exists>r u. next_decision_variable opts st = Ok (r, u) \<and> state_ok u xs \<and> r \<in> {1..max_var st} \<and> vals st ! r = 0 \<and>
    (\<forall>y \<in> {1..max_var st}. vals st ! y = 0 \<longrightarrow> \<not> before opts st y r) \<and>
    u = st\<lparr>lq := (links st, queue u), scores := scores u\<rparr>"
proof -
  note ok = state_okD [OF assms(1)]
  have x: "x \<in> set xs" using assms(2) ok(3) by simp
  have step: "state_ok u xs" if "u = st\<lparr>lq := (links st, queue u), scores := scores u\<rparr>" "vmtf u xs" "scored u (set xs)" for u
  proof -
    have f: "max_var u = max_var st" "vtab u = vtab st" "trail u = trail st" "level u = level st" "vals u = vals st"
      "control u = control st" "num_assigned u = num_assigned st" "saved u = saved st" "forced u = forced st"
      "target u = target st" "best u = best st" "tainted_literal u = tainted_literal st"
      by (subst that(1), simp)+
    have "lit_level u = lit_level st" by (rule ext) (simp add: lit_level_def f)
    then have "trail_ok u = trail_ok st" by (simp add: trail_ok_def f)
    moreover have "sizes_ok u = sizes_ok st" "phases_ok u = phases_ok st" by (simp_all add: sizes_ok_def phases_ok_def f)
    ultimately show ?thesis using ok(3-7) that(2,3) unfolding state_ok_def f by simp
  qed
  show ?thesis
  proof (cases "use_scores opts")
    case True
    have "\<forall>y \<in> set xs. y < length (vals st)" using vmtf_in(2) [OF ok(1)] by blast
    then obtain r u where r: "next_decision_variable_with_best_score st = Ok (r, u)" "scored u (set xs)" "r \<in> set xs"
      "vals st ! r = 0" "\<forall>y \<in> set xs. vals st ! y = 0 \<longrightarrow> \<not> score_smaller (stab st) r y" "u = st\<lparr>scores := scores u\<rparr>"
      using next_with_scores_ok [OF ok(2) _ x assms(3)] by blast
    have lq: "lq u = lq st" by (subst r(6)) simp
    have e: "u = st\<lparr>lq := (links st, queue u), scores := scores u\<rparr>" using r(6) lq by simp
    have "vmtf u xs" using ok(1) by (subst r(6)) (simp add: vmtf_def)
    then have "state_ok u xs" using step [OF e _ r(2)] by blast
    moreover have "\<not> before opts st y r" if "y \<in> {1..max_var st}" "vals st ! y = 0" for y
      using r(5) that ok(3) True by (auto simp: before_def score_smaller_def split: if_splits)
    ultimately show ?thesis using r(1,3,4) e True ok(3)
      by (intro exI [of _ r] exI [of _ u]) (simp add: next_decision_variable_def)
  next
    case False
    obtain r u where r: "next_decision_variable_on_queue st = Ok (r, u)" "vmtf u xs" "r \<in> set xs" "vals st ! r = 0"
      "\<forall>y \<in> set xs. vals st ! y = 0 \<longrightarrow> btab st ! y \<le> btab st ! r" "u = st\<lparr>lq := (links st, queue u)\<rparr>"
      using next_on_queue_ok [OF ok(1) x assms(3)] by blast
    have sc: "scores u = scores st" by (subst r(6)) simp
    have e: "u = st\<lparr>lq := (links st, queue u), scores := scores u\<rparr>" using r(6) sc by simp
    have "scored u (set xs)" using ok(2) by (subst r(6)) (simp add: scored_def)
    then have "state_ok u xs" using step [OF e r(2)] by blast
    then show ?thesis using r(1,3-5) e False ok(3)
      by (intro exI [of _ r] exI [of _ u]) (simp add: next_decision_variable_def before_def not_less)
  qed
qed

lemma state_ok_clause:
  assumes "state_ok st xs"
  shows "state_ok (st\<lparr>clause := c, unsat_constraint := b, marked_failed := m, assumptions := a\<rparr>) xs"
proof -
  let ?u = "st\<lparr>clause := c, unsat_constraint := b, marked_failed := m, assumptions := a\<rparr>"
  note ok = state_okD [OF assms]
  have "lit_level ?u = lit_level st" by (rule ext) (simp add: lit_level_def)
  then have "trail_ok ?u" using ok(6) by (simp add: trail_ok_def)
  moreover have "vmtf ?u xs" "scored ?u (set xs)" "sizes_ok ?u" "phases_ok ?u"
    using ok by (simp_all add: vmtf_def scored_def sizes_ok_def phases_ok_def)
  ultimately show ?thesis using ok(3,4) by (simp add: state_ok_def)
qed

text \<open>What one call of \<open>decide\<close> may do to the trail, besides opening a level.\<close>

definition decided :: "'a solver \<Rightarrow> 'a solver \<Rightarrow> int list \<Rightarrow> bool" where
  "decided st u c \<longleftrightarrow> level u = level st + 1 \<and> max_var u = max_var st \<and>
     ((trail u = trail st \<and> vals u = vals st \<and> (\<exists>l \<in> set c. lit_val st l > 0)) \<or>
      (\<exists>l \<in> set c. lit_val st l = 0 \<and> trail u = trail st @ [l] \<and> vals u = (vals st)[vidx l := sgn l] \<and>
         lit_level u l = level u))"

lemma decide_constraint_ok:
  assumes "state_ok st xs" "lits_ok st (clause st)" "clause st \<noteq> []"
  shows "\<exists>r u. decide_constraint opts st = Ok (r, u) \<and> state_ok u xs \<and> mset (clause u) = mset (clause st) \<and>
    (if \<forall>l \<in> set (clause st). lit_val st l < 0
     then r = 20 \<and> unsat_constraint u \<and> trail u = trail st \<and> level u = level st
     else r = 0 \<and> decided st u (clause st))"
proof -
  let ?c = "clause st"
  obtain s where s: "scan_constraint opts st = Ok s" "scan_inv st ?c s" "s_sat s = 0 \<longrightarrow> s_pos s = length ?c"
    using scan_constraint_ok [OF assms(1,2)] by blast
  show ?thesis
  proof (cases "s_sat s = 0")
    case False
    let ?i = "s_pos s"
    have I: "?i < length ?c" "s_clause s = take (?i + 1) (0 # ?c) @ drop (?i + 1) ?c" "s_sat s = ?c ! ?i"
      "lit_val st (?c ! ?i) > 0" using s(2) False by (auto simp: scan_inv_def Let_def)
    let ?u = "new_trail_level 0 (st\<lparr>clause := (s_clause s)[0 := s_sat s]\<rparr>)"
    have e: "(s_clause s)[0 := s_sat s] = ?c ! ?i # take ?i ?c @ drop (?i + 1) ?c" using I by simp
    have "mset (take ?i ?c @ ?c ! ?i # drop (?i + 1) ?c) = mset ?c" using id_take_nth_drop [OF I(1)] by simp
    then have m: "mset ((s_clause s)[0 := s_sat s]) = mset ?c" unfolding e by simp
    have "state_ok ?u xs" using state_ok_clause [OF assms(1), where b = "unsat_constraint st" and m = "marked_failed st" and a = "assumptions st"]
      by (intro new_level_ok) simp
    moreover have "?c ! ?i \<in> set ?c" using I(1) by simp
    then have "decided st ?u ?c" "\<not> (\<forall>l \<in> set ?c. lit_val st l < 0)"
      using I(4) by (auto simp: decided_def new_trail_level_def intro: bexI [of _ "?c ! ?i"])
    moreover have "decide_constraint opts st = Ok (0, ?u)" using s(1) False by (simp add: decide_constraint_def)
    ultimately show ?thesis using m by (intro exI [of _ 0] exI [of _ ?u]) (simp add: new_trail_level_def)
  next
    case True
    have I: "s_clause s = take (length ?c) (0 # ?c)" "s_previous s = (0 # ?c) ! length ?c"
      "\<forall>k < length ?c. lit_val st (?c ! k) \<le> 0" "s_unassigned s = 0 \<longrightarrow> (\<forall>k < length ?c. lit_val st (?c ! k) < 0)"
      "s_unassigned s \<noteq> 0 \<longrightarrow> s_unassigned s \<in> set ?c \<and> lit_val st (s_unassigned s) = 0"
      using s(2,3) True by (auto simp: scan_inv_def Let_def)
    have moved: "move_back (s_previous s) (s_clause s) = ?c"
    proof -
      have "s_clause s = 0 # butlast ?c" using I(1) assms(3) by (cases ?c) (simp_all add: butlast_conv_take)
      moreover have "s_previous s = last ?c" using I(2) assms(3) by (cases ?c rule: rev_cases) (simp_all add: nth_append)
      ultimately show ?thesis using move_back_Cons [of "last ?c" 0 "butlast ?c"] assms(3) by simp
    qed
    have st: "st\<lparr>clause := ?c\<rparr> = st" by simp
    show ?thesis
    proof (cases "s_unassigned s = 0")
      case none: True
      let ?u = "st\<lparr>unsat_constraint := True\<rparr>"
      have all: "\<forall>l \<in> set ?c. lit_val st l < 0" using I(4) none by (auto simp: in_set_conv_nth)
      have "decide_constraint opts st = Ok (20, ?u)" using s(1) True none moved by (simp add: decide_constraint_def)
      moreover have "state_ok ?u xs"
        using state_ok_clause [OF assms(1), where b = True and m = "marked_failed st" and a = "assumptions st" and c = "clause st"]
        by simp
      ultimately show ?thesis using all by (intro exI [of _ 20] exI [of _ ?u]) simp
    next
      case False
      let ?l = "s_unassigned s"
      have l: "?l \<in> set ?c" "lit_val st ?l = 0" using I(5) False by simp_all
      then have "vidx ?l \<in> {1..max_var st}" "vals st ! vidx ?l = 0" using assms(2) by (auto simp: lits_ok_def lit_val_zero)
      then obtain u where u: "search_assume_decision ?l st = Ok u" "state_ok u xs" "trail u = trail st @ [?l]"
        "level u = level st + 1" "vals u = (vals st)[vidx ?l := sgn ?l]" "lit_level u ?l = level st + 1"
        "max_var u = max_var st" "clause u = clause st"
        using assume_decision_ok [OF assms(1)] by blast
      have "decide_constraint opts st = Ok (0, u)" using s(1) True False moved u(1) by (simp add: decide_constraint_def)
      moreover have "decided st u ?c" using u l by (auto simp: decided_def intro: bexI [of _ ?l])
      moreover have "\<not> (\<forall>l \<in> set ?c. lit_val st l < 0)" using l by force
      ultimately show ?thesis using u(2,8) by (intro exI [of _ 0] exI [of _ u]) simp
    qed
  qed
qed

lemma decide_assumption_ok:
  assumes "state_ok st xs" "lits_ok st (assumptions st)" "level st < length (assumptions st)"
  shows "\<exists>r u. decide_assumption st = Ok (r, u) \<and> state_ok u xs \<and> clause u = clause st \<and>
    (if lit_val st (assumptions st ! level st) < 0 then r = 20 \<and> trail u = trail st \<and> level u = level st
     else r = 0 \<and> decided st u [assumptions st ! level st])"
proof -
  let ?l = "assumptions st ! level st"
  have x: "vidx ?l \<in> {1..max_var st}" using assms(2,3) by (simp add: lits_ok_def)
  have v: "val ?l st = Ok (lit_val st ?l)" by (rule val_ok [OF state_okD(5) [OF assms(1)] x])
  consider "lit_val st ?l < 0" | "lit_val st ?l > 0" | "lit_val st ?l = 0" by linarith
  then show ?thesis
  proof cases
    case 1
    then show ?thesis using v assms(1) by (intro exI [of _ 20] exI [of _ st]) (simp add: decide_assumption_def Let_def)
  next
    case 2
    then show ?thesis using v new_level_ok [OF assms(1), of 0]
      by (intro exI [of _ 0] exI [of _ "new_trail_level 0 st"])
        (simp add: decide_assumption_def Let_def decided_def new_trail_level_def)
  next
    case 3
    then have "vals st ! vidx ?l = 0" by (simp add: lit_val_zero)
    then obtain u where u: "search_assume_decision ?l st = Ok u" "state_ok u xs" "trail u = trail st @ [?l]"
      "level u = level st + 1" "vals u = (vals st)[vidx ?l := sgn ?l]" "lit_level u ?l = level st + 1"
      "max_var u = max_var st" "clause u = clause st"
      using assume_decision_ok [OF assms(1) x] by blast
    then show ?thesis using v 3
      by (intro exI [of _ 0] exI [of _ u]) (simp add: decide_assumption_def Let_def decided_def)
  qed
qed

lemma decide_variable_ok:
  assumes "state_ok st xs" "x \<in> {1..max_var st}" "vals st ! x = 0"
  shows "\<exists>u l. decide_variable opts st = Ok (0, u) \<and> state_ok u xs \<and> clause u = clause st \<and> decided st u [l] \<and>
    lit_val st l = 0 \<and> vidx l \<in> {1..max_var st} \<and>
    (\<forall>y \<in> {1..max_var st}. vals st ! y = 0 \<longrightarrow> \<not> before opts st y (vidx l))"
proof -
  obtain r s where r: "next_decision_variable opts st = Ok (r, s)" "state_ok s xs" "r \<in> {1..max_var st}" "vals st ! r = 0"
    "\<forall>y \<in> {1..max_var st}. vals st ! y = 0 \<longrightarrow> \<not> before opts st y r" "s = st\<lparr>lq := (links st, queue s), scores := scores s\<rparr>"
    using next_decision_ok [OF assms] by blast
  have f: "max_var s = max_var st" "vals s = vals st" "trail s = trail st" "level s = level st" "clause s = clause st"
    by (subst r(6), simp)+
  let ?l = "decide_phase opts r (opt_target opts > 1 \<or> (stable opts \<and> opt_target opts \<noteq> 0)) s"
  have l: "vidx ?l = r" using decide_phase_ok [OF r(2)] r(3) f(1) by simp
  then obtain u where u: "search_assume_decision ?l s = Ok u" "state_ok u xs" "trail u = trail s @ [?l]"
    "level u = level s + 1" "vals u = (vals s)[vidx ?l := sgn ?l]" "lit_level u ?l = level s + 1" "max_var u = max_var s"
    "clause u = clause s"
    using assume_decision_ok [OF r(2), of ?l] r(3,4) f by auto
  have "lit_val st ?l = 0" using l r(4) by (simp add: lit_val_zero)
  moreover have "decided st u [?l]" using u f \<open>lit_val st ?l = 0\<close> by (simp add: decided_def)
  moreover have "decide_variable opts st = Ok (0, u)" using r(1) u(1) by (simp add: decide_variable_def Let_def)
  ultimately show ?thesis using u(2,8) f r(3,5) l by (intro exI [of _ u] exI [of _ ?l]) simp
qed

section \<open>Reachable states\<close>

text \<open>\<open>Internal::Internal\<close>: no variables, the root level and the options of the constructor.\<close>

definition new_solver :: "'a::zero solver" where
  "new_solver = \<lparr>max_var = 0, level = 0, trail = [], control = [(0, 0)], vtab = [], vals = [], num_assigned = 0,
     lq = ([], new_Queue), btab = [], bumped_stat = 0, scores = empty_heap, stab = (\<lambda>_. 0), saved = [], forced = [],
     target = [], best = [], propagated = 0, propagated2 = 0, no_conflict_until = 0, target_assigned = 0,
     best_assigned = 0, rephased = 0, conflicts = 0, rephase_conflicts = 0, tainted_literal = 0, assumptions = [],
     clause = [], unsat_constraint = False, marked_failed = True\<rparr>"

lemma new_solver_ok: "state_ok new_solver []"
  by (simp add: state_ok_def vmtf_def queue_ok_def scored_def sizes_ok_def phases_ok_def trail_ok_def new_solver_def
      new_Queue_def empty_heap_ok invalid_heap_position_def)

text \<open>
  The calls of the search: new variables, decisions, assignments by propagation, backtracking, the
  bumping of variables after a conflict, shuffling and new assumptions and constraints.
\<close>

definition can_decide :: "'a solver \<Rightarrow> bool" where
  "can_decide st \<longleftrightarrow> lits_ok st (assumptions st) \<and> lits_ok st (clause st) \<and>
     (level st < length (assumptions st) \<or> (level st = length (assumptions st) \<and> clause st \<noteq> []) \<or>
      (\<exists>x \<in> {1..max_var st}. vals st ! x = 0))"

datatype 'a call =
    InitVars nat
  | Decide
  | Assign int nat
  | Backtrack nat
  | BumpQueue int
  | BumpScore int 'a
  | Shuffle "nat \<Rightarrow> nat"
  | Query "int list" "int list"

fun allowed :: "'a call \<Rightarrow> 'a solver \<Rightarrow> bool" where
  "allowed (InitVars m) st \<longleftrightarrow> m < invalid_heap_position"
| "allowed Decide st \<longleftrightarrow> can_decide st"
| "allowed (Assign l n) st \<longleftrightarrow> vidx l \<in> {1..max_var st} \<and> vals st ! vidx l = 0 \<and> n \<le> level st"
| "allowed (Backtrack n) st \<longleftrightarrow> n \<le> level st"
| "allowed (BumpQueue l) st \<longleftrightarrow> vidx l \<in> {1..max_var st}"
| "allowed (BumpScore l s) st \<longleftrightarrow> vidx l \<in> {1..max_var st}"
| "allowed (Shuffle picks) st \<longleftrightarrow> 0 < max_var st \<and> (\<forall>i < max_var st. picks i < max_var st)"
| "allowed (Query a c) st \<longleftrightarrow> lits_ok st a \<and> lits_ok st c"

fun perform :: "options \<Rightarrow> 'a::linorder call \<Rightarrow> 'a solver \<Rightarrow> 'a solver result" where
  "perform opts (InitVars m) st = internal_init_vars opts m st"
| "perform opts Decide st = rbind (decide opts st) (\<lambda>(r, st). Ok st)"
| "perform opts (Assign l n) st = search_assign l n st"
| "perform opts (Backtrack n) st = backtrack n st"
| "perform opts (BumpQueue l) st = bump_queue l st"
| "perform opts (BumpScore l s) st = bump_score l s st"
| "perform opts (Shuffle picks) st = shuffle_queue opts picks st"
| "perform opts (Query a c) st = Ok (st\<lparr>assumptions := a, clause := c\<rparr>)"

text \<open>The options are the same in all calls; the theorems exclude the option \<open>reverse\<close>.\<close>

inductive reach :: "options \<Rightarrow> 'a::{linorder,zero} solver \<Rightarrow> bool" for opts where
  reach_new: "reach opts new_solver"
| reach_call: "reach opts st \<Longrightarrow> allowed e st \<Longrightarrow> perform opts e st = Ok u \<Longrightarrow> reach opts u"

lemma decide_ok:
  assumes "state_ok st xs" "can_decide st"
  shows "\<exists>r u. decide opts st = Ok (r, u) \<and> state_ok u xs \<and> mset (clause u) = mset (clause st) \<and>
    (if level st < length (assumptions st)
     then (if lit_val st (assumptions st ! level st) < 0 then r = 20 \<and> trail u = trail st \<and> level u = level st
           else r = 0 \<and> decided st u [assumptions st ! level st])
     else if level st = length (assumptions st) \<and> clause st \<noteq> []
     then (if \<forall>l \<in> set (clause st). lit_val st l < 0 then r = 20 \<and> trail u = trail st \<and> level u = level st
           else r = 0 \<and> decided st u (clause st))
     else r = 0 \<and> (\<exists>l. decided st u [l] \<and> lit_val st l = 0 \<and> vidx l \<in> {1..max_var st} \<and>
       (\<forall>y \<in> {1..max_var st}. vals st ! y = 0 \<longrightarrow> \<not> before opts st y (vidx l))))"
proof -
  let ?f = "\<lambda>r u. if r \<noteq> 0 then u\<lparr>marked_failed := False\<rparr> else u"
  have keep: "state_ok (?f r u) xs" if "state_ok u xs" for r :: int and u
    using state_ok_clause [OF that, where b = "unsat_constraint u" and m = False and a = "assumptions u" and c = "clause u"] that
    by simp
  have dec: "decided st (?f r u) c = decided st u c" for r :: int and u c
    by (simp add: decided_def lit_level_def)
  consider (assumption) "level st < length (assumptions st)"
    | (constraint) "\<not> level st < length (assumptions st)" "level st = length (assumptions st) \<and> clause st \<noteq> []"
    | (variable) "\<not> level st < length (assumptions st)" "\<not> (level st = length (assumptions st) \<and> clause st \<noteq> [])"
    by blast
  then show ?thesis
  proof cases
    case assumption
    then obtain r u where "decide_assumption st = Ok (r, u)" "state_ok u xs" "clause u = clause st"
      "if lit_val st (assumptions st ! level st) < 0 then r = 20 \<and> trail u = trail st \<and> level u = level st
       else r = 0 \<and> decided st u [assumptions st ! level st]"
      using decide_assumption_ok [OF assms(1)] assms(2) unfolding can_decide_def by blast
    then show ?thesis using assumption keep [of u r] dec
      by (intro exI [of _ r] exI [of _ "?f r u"]) (auto simp: decide_def split: if_splits)
  next
    case constraint
    then obtain r u where "decide_constraint opts st = Ok (r, u)" "state_ok u xs" "mset (clause u) = mset (clause st)"
      "if \<forall>l \<in> set (clause st). lit_val st l < 0
       then r = 20 \<and> unsat_constraint u \<and> trail u = trail st \<and> level u = level st else r = 0 \<and> decided st u (clause st)"
      using decide_constraint_ok [OF assms(1)] assms(2) unfolding can_decide_def by blast
    then show ?thesis using constraint keep [of u r] dec
      by (intro exI [of _ r] exI [of _ "?f r u"]) (simp add: decide_def split: if_splits)
  next
    case variable
    then obtain x where x: "x \<in> {1..max_var st}" "vals st ! x = 0" using assms(2) unfolding can_decide_def by blast
    obtain u l where "decide_variable opts st = Ok (0, u)" "state_ok u xs" "clause u = clause st" "decided st u [l]"
      "lit_val st l = 0" "vidx l \<in> {1..max_var st}"
      "\<forall>y \<in> {1..max_var st}. vals st ! y = 0 \<longrightarrow> \<not> before opts st y (vidx l)"
      using decide_variable_ok [OF assms(1) x] by blast
    then show ?thesis using variable by (intro exI [of _ 0] exI [of _ u]) (auto simp: decide_def)
  qed
qed

lemma heuristics_frame:
  assumes "state_ok st xs" "vmtf u ys" "scored u (set ys)" "set ys = set xs"
    "u = st\<lparr>lq := lq u, btab := btab u, bumped_stat := bumped_stat u, stab := stab u, scores := scores u\<rparr>"
  shows "state_ok u ys"
proof -
  note ok = state_okD [OF assms(1)]
  have f: "max_var u = max_var st" "vtab u = vtab st" "trail u = trail st" "level u = level st" "vals u = vals st"
    "control u = control st" "num_assigned u = num_assigned st" "saved u = saved st" "forced u = forced st"
    "target u = target st" "best u = best st" "tainted_literal u = tainted_literal st"
    by (subst assms(5), simp)+
  have "lit_level u = lit_level st" by (rule ext) (simp add: lit_level_def f)
  then have "trail_ok u = trail_ok st" by (simp add: trail_ok_def f)
  moreover have "sizes_ok u = sizes_ok st" "phases_ok u = phases_ok st" by (simp_all add: sizes_ok_def phases_ok_def f)
  ultimately show ?thesis using ok(3-7) assms(2-4) unfolding state_ok_def f by simp
qed

lemma perform_ok:
  assumes "state_ok st xs" "allowed e st" "\<not> opt_reverse opts"
  shows "\<exists>u ys. perform opts e st = Ok u \<and> state_ok u ys"
proof (cases e)
  case (InitVars m)
  then show ?thesis using internal_init_vars_ok [OF assms(1,3), of m] assms(2) by auto
next
  case Decide
  then show ?thesis using decide_ok [OF assms(1), of opts] assms(2) by auto
next
  case (Assign l n)
  then show ?thesis using search_assign_ok [OF assms(1), of l n] assms(2) by auto
next
  case (Backtrack n)
  show ?thesis
  proof (cases "n = level st")
    case True
    then show ?thesis using Backtrack assms(1) by (auto simp: backtrack_def)
  next
    case False
    then show ?thesis using backtrack_ok [OF assms(1), of n] Backtrack assms(2) by auto
  qed
next
  case (BumpQueue l)
  note ok = state_okD [OF assms(1)]
  have "vidx l \<in> set xs" using BumpQueue assms(2) ok(3) by simp
  then obtain ys zs where xs: "xs = ys @ vidx l # zs" using vmtf_split [OF ok(1)] by blast
  obtain u where u: "bump_queue l st = Ok u" "vmtf u (ys @ zs @ [vidx l])"
    "u = st\<lparr>lq := lq u, btab := btab u, bumped_stat := bumped_stat u\<rparr>"
    using bump_queue_ok [of st ys l zs] ok(1) xs by auto
  have s: "set (ys @ zs @ [vidx l]) = set xs" using xs by auto
  have f: "stab u = stab st" "scores u = scores st" "vals u = vals st" by (subst u(3), simp)+
  have "scored u (set (ys @ zs @ [vidx l]))" unfolding s using ok(2) by (simp add: scored_def f)
  then have "state_ok u (ys @ zs @ [vidx l])"
    by (rule heuristics_frame [OF assms(1) u(2) _ s]) (use u(3) f in simp)
  then show ?thesis using u(1) BumpQueue by auto
next
  case (BumpScore l s)
  note ok = state_okD [OF assms(1)]
  obtain u where u: "bump_score l s st = Ok u" "scored u (set xs)"
    "u = st\<lparr>stab := (stab st)(vidx l := s), scores := scores u\<rparr>"
    using bump_score_ok [OF ok(2)] by blast
  have f: "lq u = lq st" "btab u = btab st" "bumped_stat u = bumped_stat st" "vals u = vals st"
    "stab u = (stab st)(vidx l := s)" by (subst u(3), simp)+
  have "vmtf u xs" using ok(1) by (simp add: vmtf_def f)
  then have "state_ok u xs"
    by (rule heuristics_frame [OF assms(1) _ u(2) refl]) (use u(3) f in simp)
  then show ?thesis using u(1) BumpScore by auto
next
  case (Shuffle picks)
  note ok = state_okD [OF assms(1)]
  obtain u ys where u: "shuffle_queue opts picks st = Ok u" "vmtf u ys" "set ys = set xs" "u = st\<lparr>lq := lq u, btab := btab u\<rparr>"
  proof -
    have p: "0 < max_var st" "\<forall>i < max_var st. picks i < max_var st" using Shuffle assms(2) by simp_all
    show ?thesis by (rule exE [OF shuffle_queue_ok [OF ok(1,3) p]], elim exE conjE) (rule that)
  qed
  have f: "stab u = stab st" "scores u = scores st" "vals u = vals st" "bumped_stat u = bumped_stat st"
    by (subst u(4), simp)+
  have "scored u (set ys)" using ok(2) by (simp add: scored_def f u(3))
  then have "state_ok u ys"
    by (rule heuristics_frame [OF assms(1) u(2) _ u(3)]) (use u(4) f in simp)
  then show ?thesis using u(1) Shuffle by auto
next
  case (Query a c)
  have "state_ok (st\<lparr>assumptions := a, clause := c\<rparr>) xs"
  proof -
    have "state_ok (st\<lparr>clause := c, unsat_constraint := unsat_constraint st, marked_failed := marked_failed st, assumptions := a\<rparr>) xs"
      by (rule state_ok_clause [OF assms(1)])
    moreover have "st\<lparr>clause := c, unsat_constraint := unsat_constraint st, marked_failed := marked_failed st, assumptions := a\<rparr> =
        st\<lparr>assumptions := a, clause := c\<rparr>" by (rule solver.equality) simp_all
    ultimately show ?thesis by (simp only:)
  qed
  then show ?thesis using Query by auto
qed

lemma reach_ok: "reach opts st \<Longrightarrow> \<not> opt_reverse opts \<Longrightarrow> \<exists>xs. state_ok st xs"
proof (induction rule: reach.induct)
  case reach_new
  then show ?case using new_solver_ok by blast
next
  case (reach_call st e u)
  then show ?case using perform_ok by fastforce
qed

text \<open>
  C26. In every state the search can reach (new variables, decisions, assignments on any level, backtracking,
  bumping in either heuristic, shuffling, new assumptions and constraints, in any order), the linked queue
  holds each variable once in the order of the time stamps and no variable behind its pointer is without a value,
  the heap is ordered by the scores and holds every variable without a value, and the trail holds the assigned variables with their
  positions and levels; and every call that is allowed succeeds.
\<close>

theorem search_invariant:
  assumes "reach opts st" "\<not> opt_reverse opts"
  shows "(\<exists>xs. state_ok st xs \<and> (\<forall>e. allowed e st \<longrightarrow> (\<exists>u. perform opts e st = Ok u)))"
  using reach_ok [OF assms] perform_ok [OF _ _ assms(2)] by blast

text \<open>
  C27. A decision never misses a variable: while a variable has no value, the search for the next decision
  variable comes back with one that has none, and no candidate comes before it in the order of the heuristic in
  use (the scores and then the index in stable mode, the time stamps otherwise).
\<close>

theorem next_decision_found:
  assumes "reach opts st" "\<not> opt_reverse opts" "x \<in> {1..max_var st}" "vals st ! x = 0"
  shows "\<exists>r u. next_decision_variable opts st = Ok (r, u) \<and> r \<in> {1..max_var st} \<and> vals st ! r = 0 \<and>
    (\<forall>y \<in> {1..max_var st}. vals st ! y = 0 \<longrightarrow> \<not> before opts st y r) \<and> vals u = vals st \<and> trail u = trail st"
proof -
  obtain xs where "state_ok st xs" using reach_ok [OF assms(1,2)] by blast
  then obtain r u where r: "next_decision_variable opts st = Ok (r, u)" "r \<in> {1..max_var st}" "vals st ! r = 0"
    "\<forall>y \<in> {1..max_var st}. vals st ! y = 0 \<longrightarrow> \<not> before opts st y r"
    "u = st\<lparr>lq := (links st, queue u), scores := scores u\<rparr>"
    using next_decision_ok [OF _ assms(3,4)] by blast
  have "vals u = vals st" "trail u = trail st" by (subst r(5), simp)+
  then show ?thesis using r(1-4) by blast
qed

text \<open>
  C28. Backtracking to a lower level keeps exactly the literals assigned on the remaining levels (also those that were
  assigned out of order), in their order on the trail and with their values, takes the values of all others away, and keeps the
  invariants, so the variables that lost their value can be decided again.
\<close>

theorem backtrack_correct:
  assumes "reach opts st" "\<not> opt_reverse opts" "n < level st"
  shows "\<exists>u xs. backtrack n st = Ok u \<and> state_ok u xs \<and> level u = n \<and>
    trail u = filter (\<lambda>l. lit_level st l \<le> n) (trail st) \<and>
    (\<forall>x \<in> {1..max_var st}. vals u ! x = (if x \<in> vidx ` set (trail u) then vals st ! x else 0))"
  using reach_ok [OF assms(1,2)] backtrack_ok [OF _ assms(3)] by blast

text \<open>
  C29. A call of \<open>decide\<close> handles the assumptions first, one on each level, then the constraint, then the other
  variables. It answers 20 exactly if the next assumption or all literals of the constraint are false; otherwise
  it opens one level, empty if the assumption or a literal of the constraint is already true, and else with
  the assumption, an unassigned literal of the constraint or the best variable as its decision. The literals of the constraint are
  only reordered (as the checksum assertion of the code demands).
\<close>

theorem decide_correct:
  assumes "reach opts st" "\<not> opt_reverse opts" "can_decide st"
  shows "\<exists>r u. decide opts st = Ok (r, u) \<and> mset (clause u) = mset (clause st) \<and>
    (if level st < length (assumptions st)
     then (if lit_val st (assumptions st ! level st) < 0 then r = 20 \<and> trail u = trail st \<and> level u = level st
           else r = 0 \<and> decided st u [assumptions st ! level st])
     else if level st = length (assumptions st) \<and> clause st \<noteq> []
     then (if \<forall>l \<in> set (clause st). lit_val st l < 0 then r = 20 \<and> trail u = trail st \<and> level u = level st
           else r = 0 \<and> decided st u (clause st))
     else r = 0 \<and> (\<exists>l. decided st u [l] \<and> lit_val st l = 0 \<and> vidx l \<in> {1..max_var st} \<and>
       (\<forall>y \<in> {1..max_var st}. vals st ! y = 0 \<longrightarrow> \<not> before opts st y (vidx l))))"
proof -
  obtain xs where "state_ok st xs" using reach_ok [OF assms(1,2)] by blast
  from decide_ok [OF this assms(3), of opts] show ?thesis by blast
qed

section \<open>Examples\<close>

definition perform_allowed :: "options \<Rightarrow> 'a::linorder call \<Rightarrow> 'a solver \<Rightarrow> 'a solver result" where
  "perform_allowed opts e st = (if allowed e st then perform opts e st else Fault Aborted)"

lemma reach_run:
  assumes "rfold (perform_allowed opts) es st = Ok u" "reach opts st"
  shows "reach opts u"
  using assms
proof (induction es arbitrary: st)
  case (Cons e es)
  then show ?case by (auto simp: rbind_eq_Ok_iff perform_allowed_def split: if_splits intro: reach_call)
qed simp

definition focused :: options where
  "focused = \<lparr>opt_phase = True, opt_forcephase = False, opt_reverse = False, opt_score = True, opt_target = 1,
     opt_shuffle = True, opt_shufflequeue = True, opt_shufflerandom = False,
     stable = False, force_saved_phase = False\<rparr>"

definition sample :: "nat call list \<Rightarrow> nat solver" where
  "sample es = the_ok (rfold (perform_allowed focused) es new_solver)"

text \<open>Four variables, an assumption, a constraint, two levels and a literal assigned out of order.\<close>

definition sample_calls :: "nat call list" where
  "sample_calls = [InitVars 4, Query [- 2] [1, 3], Decide, Assign 4 0, BumpQueue 1, BumpScore 3 5, Decide, Shuffle (\<lambda>i. i)]"

lemma sample_reached:
  "is_ok (rfold (perform_allowed focused) es new_solver) \<Longrightarrow> reach focused (sample es)"
  using reach_run [OF is_okD reach_new] by (simp add: sample_def)

lemma sample_calls_reached: "reach focused (sample sample_calls)"
  by (rule sample_reached) code_simp

lemma focused_last: "\<not> opt_reverse focused"
  by (simp add: focused_def)

theorem search_invariant_witness: "\<exists>xs. state_ok (sample sample_calls) xs"
  using search_invariant [OF sample_calls_reached focused_last] by blast

theorem next_decision_found_witness:
  "\<exists>r u. next_decision_variable focused (sample sample_calls) = Ok (r, u) \<and> vals (sample sample_calls) ! r = 0"
proof -
  have "3 \<in> {1..max_var (sample sample_calls)}" "vals (sample sample_calls) ! 3 = 0" by code_simp+
  then show ?thesis using next_decision_found [OF sample_calls_reached focused_last] by blast
qed

theorem backtrack_correct_witness:
  "trail (sample sample_calls) = [- 2, 4, 1] \<and>
   (\<exists>u. backtrack 0 (sample sample_calls) = Ok u \<and> level u = 0 \<and> trail u = [4])"
proof -
  have "0 < level (sample sample_calls)" "trail (sample sample_calls) = [- 2, 4, 1]"
    "filter (\<lambda>l. lit_level (sample sample_calls) l \<le> 0) (trail (sample sample_calls)) = [4]" by code_simp+
  then show ?thesis using backtrack_correct [OF sample_calls_reached focused_last, of 0] by auto
qed

theorem decide_correct_witness:
  "\<exists>r u. decide focused (sample sample_calls) = Ok (r, u) \<and> mset (clause u) = mset (clause (sample sample_calls))"
proof -
  have "can_decide (sample sample_calls)" by code_simp
  then show ?thesis using decide_correct [OF sample_calls_reached focused_last] by blast
qed

end
