(* ===== verification/Conflict_Analysis.thy ===== *)
theory Conflict_Analysis
  imports Prelude "HOL-Library.Word"
begin

text \<open>
  Conflict analysis of CaDiCaL: deriving the first unique implication point (\<open>analyze.cpp\<close>), minimizing the
  learned clause (\<open>minimize.cpp\<close>), building the chain of antecedents of an LRAT proof, and the assignment level and
  the chains of units (\<open>propagate.cpp\<close>).

  The state is the part of \<open>Internal\<close> these functions work on. Clauses have an address; a reason is an address
  (no propagator is connected, so there is no external reason). The options \<open>otfs\<close> and \<open>shrink\<close> are off.
  Watch lists, statistics and the bumping of variables, which do not take part in the analysis, are left out. Sorting
  (\<open>MSORT\<close>) is sorting by the rank: the ranks of the literals of a clause differ.
\<close>

unbundle bit_operations_syntax

section \<open>State\<close>

record Var =
  v_level :: nat
  v_trail :: nat
  v_reason :: "nat option"

record Flags =
  f_seen :: bool
  f_keep :: bool
  f_poison :: bool
  f_removable :: bool
  f_added :: bool

record Level =
  l_decision :: int
  l_trail :: nat
  l_seen_count :: nat
  l_seen_trail :: nat

record Clause =
  cl_id :: nat
  cl_literals :: "int list"
  cl_redundant :: bool
  cl_keep :: bool
  cl_hyper :: bool
  cl_glue :: nat
  cl_used :: nat

record analysis =
  an_vtab :: "Var list"
  an_ftab :: "Flags list"
  an_control :: "Level list"
  an_trail :: "int list"
  an_level :: nat
  an_lrat :: bool
  an_units :: "nat list"
  an_store :: "nat \<rightharpoonup> Clause"
  an_clause :: "int list"
  an_analyzed :: "int list"
  an_unit_analyzed :: "int list"
  an_levels :: "nat list"
  an_minimized :: "int list"
  an_lrat_chain :: "nat list"
  an_unit_chain :: "nat list"
  an_mini_chain :: "nat list"
  an_minimize_chain :: "nat list"
  an_gtab :: "nat list"
  an_recomputed :: nat

record analyze_options =
  opt_chrono :: nat
  opt_chronoalways :: bool
  opt_chronolevelim :: nat
  opt_chronoreusetrail :: bool
  opt_minimize :: bool
  opt_minimizedepth :: nat
  opt_tier1 :: nat
  opt_tier2 :: nat

definition var :: "int \<Rightarrow> analysis \<Rightarrow> Var result" where
  "var lit st = vec_at (an_vtab st) (nat \<bar>lit\<bar>)"

definition flags :: "int \<Rightarrow> analysis \<Rightarrow> Flags result" where
  "flags lit st = vec_at (an_ftab st) (nat \<bar>lit\<bar>)"

definition put_flags :: "int \<Rightarrow> (Flags \<Rightarrow> Flags) \<Rightarrow> analysis \<Rightarrow> analysis result" where
  "put_flags lit g st =
     rbind (flags lit st) (\<lambda>f. rbind (vec_set (an_ftab st) (nat \<bar>lit\<bar>) (g f)) (\<lambda>fs. Ok (st\<lparr>an_ftab := fs\<rparr>)))"

definition clause_ref :: "nat \<Rightarrow> analysis \<Rightarrow> Clause result" where
  "clause_ref a st = (case an_store st a of None \<Rightarrow> Fault OutOfBounds | Some c \<Rightarrow> Ok c)"

definition reason_of :: "Var \<Rightarrow> analysis \<Rightarrow> Clause result" where
  "reason_of v st = (case v_reason v of None \<Rightarrow> Fault OutOfBounds | Some a \<Rightarrow> clause_ref a st)"

definition reset_level :: "Level \<Rightarrow> Level" where
  "reset_level l = l\<lparr>l_seen_count := 0, l_seen_trail := nat INT_MAX\<rparr>"

section \<open>Levels and chains of units\<close>

definition assignment_level :: "int \<Rightarrow> nat option \<Rightarrow> analysis \<Rightarrow> nat result" where
  "assignment_level lit reason st =
     (case reason of None \<Rightarrow> Ok (an_level st)
      | Some a \<Rightarrow> rbind (clause_ref a st) (\<lambda>c.
          rfold (\<lambda>other res. if other = lit then Ok res
            else rbind (var other st) (\<lambda>v. Ok (if v_level v > res then v_level v else res))) (cl_literals c) 0))"

text \<open>
  The values of the literals are those of the trail: \<open>trail_val\<close> is 1, -1 or 0.
\<close>

definition trail_val :: "int \<Rightarrow> analysis \<Rightarrow> int" where
  "trail_val lit st = (if lit \<in> set (an_trail st) then 1 else if - lit \<in> set (an_trail st) then - 1 else 0)"

definition build_chain_for_units :: "analyze_options \<Rightarrow> int \<Rightarrow> nat \<Rightarrow> bool \<Rightarrow> analysis \<Rightarrow> analysis result" where
  "build_chain_for_units os lit reason forced st =
     (if \<not> an_lrat st then Ok st
      else rbind (if opt_chrono os \<noteq> 0 then assignment_level lit (Some reason) st else Ok (an_level st)) (\<lambda>l.
        if l \<noteq> 0 \<and> \<not> forced then Ok st
        else rbind (clause_ref reason st) (\<lambda>c.
          rbind (rfold (\<lambda>reason_lit chain.
              if lit = reason_lit then Ok chain
              else if trail_val reason_lit st = 0 then Ok chain
              else rbind (vec_at (an_units st) (vlit (trail_val reason_lit st * reason_lit))) (\<lambda>i. Ok (chain @ [i])))
            (cl_literals c) (an_lrat_chain st)) (\<lambda>chain. Ok (st\<lparr>an_lrat_chain := chain @ [cl_id c]\<rparr>)))))"

definition build_chain_for_empty :: "nat \<Rightarrow> analysis \<Rightarrow> analysis result" where
  "build_chain_for_empty conflict st =
     (if \<not> an_lrat st \<or> an_lrat_chain st \<noteq> [] then Ok st
      else rbind (clause_ref conflict st) (\<lambda>c.
        rbind (rfold (\<lambda>lit chain. rbind (vec_at (an_units st) (vlit (- lit))) (\<lambda>i. Ok (chain @ [i])))
          (cl_literals c) (an_lrat_chain st)) (\<lambda>chain. Ok (st\<lparr>an_lrat_chain := chain @ [cl_id c]\<rparr>))))"

section \<open>The glue of a clause\<close>

definition stamp_level :: "nat \<Rightarrow> int \<Rightarrow> nat \<times> analysis \<Rightarrow> (nat \<times> analysis) result" where
  "stamp_level stamp lit = (\<lambda>(res, st).
     rbind (var lit st) (\<lambda>v. rbind (vec_at (an_gtab st) (v_level v)) (\<lambda>g.
       if g = stamp then Ok (res, st)
       else rbind (vec_set (an_gtab st) (v_level v) stamp) (\<lambda>gs. Ok (res + 1, st\<lparr>an_gtab := gs\<rparr>)))))"

definition recompute_glue :: "Clause \<Rightarrow> analysis \<Rightarrow> (nat \<times> analysis) result" where
  "recompute_glue c st =
     (let stamp = an_recomputed st + 1
      in rfold (stamp_level stamp) (cl_literals c) (0, st\<lparr>an_recomputed := stamp\<rparr>))"

definition promote_clause :: "analyze_options \<Rightarrow> nat \<Rightarrow> Clause \<Rightarrow> Clause" where
  "promote_clause os new_glue c =
     (if cl_keep c then c else if cl_hyper c then c
      else let old_glue = cl_glue c in if new_glue \<ge> old_glue then c
      else let c = (if \<not> cl_keep c \<and> new_glue \<le> opt_tier1 os then c\<lparr>cl_keep := True\<rparr>
          else if old_glue > opt_tier2 os \<and> new_glue \<le> opt_tier2 os then c\<lparr>cl_used := 2\<rparr> else c)
        in c\<lparr>cl_glue := new_glue\<rparr>)"

definition bump_clause :: "analyze_options \<Rightarrow> nat \<Rightarrow> analysis \<Rightarrow> analysis result" where
  "bump_clause os a st =
     rbind (clause_ref a st) (\<lambda>c.
       let used = cl_used c; c = c\<lparr>cl_used := 1\<rparr>; done = (\<lambda>c st. Ok (st\<lparr>an_store := (an_store st)(a \<mapsto> c)\<rparr>)) in
       if cl_keep c then done c st
       else if cl_hyper c then done c st
       else if \<not> cl_redundant c then done c st
       else rbind (recompute_glue c st) (\<lambda>(new_glue, st).
         if new_glue < cl_glue c then done (promote_clause os new_glue c) st
         else if used \<noteq> 0 \<and> cl_glue c \<le> opt_tier2 os then done (c\<lparr>cl_used := 2\<rparr>) st
         else done c st))"

section \<open>The level of the conflict\<close>

text \<open>
  With chronological backtracking the literals of the conflict need not be of the current level. \<open>scan_levels\<close> is the
  first loop of \<open>find_conflict_level\<close>, \<open>highest_from\<close> its inner loop over the positions from \<open>j\<close>, and
  \<open>to_front\<close> a round of the loop over the first two positions.
\<close>

fun scan_levels :: "int list \<Rightarrow> nat \<times> int \<times> nat \<Rightarrow> analysis \<Rightarrow> (nat \<times> int \<times> nat) result" where
  "scan_levels [] (res, forced, count) st = Ok (res, forced, count)"
| "scan_levels (lit # lits) (res, forced, count) st =
     rbind (var lit st) (\<lambda>v.
       if v_level v > res then scan_levels lits (v_level v, lit, 1) st
       else if v_level v = res
       then (if res = an_level st \<and> count + 1 > 1 then Ok (res, forced, count + 1) else scan_levels lits (res, forced, count + 1) st)
       else scan_levels lits (res, forced, count) st)"

fun highest_from :: "int list \<Rightarrow> nat \<Rightarrow> nat \<times> int \<times> nat \<Rightarrow> nat \<Rightarrow> analysis \<Rightarrow> (nat \<times> int) result" where
  "highest_from [] j (position, literal, level) res st = Ok (position, literal)"
| "highest_from (other # others) j (position, literal, level) res st =
     rbind (var other st) (\<lambda>v.
       if level \<ge> v_level v then highest_from others (j + 1) (position, literal, level) res st
       else if v_level v = res then Ok (j, other)
       else highest_from others (j + 1) (j, other, v_level v) res st)"

definition to_front :: "nat \<Rightarrow> nat \<Rightarrow> analysis \<Rightarrow> int list \<Rightarrow> int list result" where
  "to_front i res st lits =
     rbind (vec_at lits i) (\<lambda>lit. rbind (var lit st) (\<lambda>v.
     rbind (highest_from (drop (i + 1) lits) (i + 1) (i, lit, v_level v) res st) (\<lambda>(position, literal).
       Ok (if position = i then lits else lits[position := lit, i := literal]))))"

definition find_conflict_level :: "nat \<Rightarrow> analysis \<Rightarrow> (nat \<times> int \<times> analysis) result" where
  "find_conflict_level conflict st =
     rbind (clause_ref conflict st) (\<lambda>c.
     rbind (scan_levels (cl_literals c) (0, 0, 0) st) (\<lambda>(res, forced, count).
     rbind (rbind (to_front 0 res st (cl_literals c)) (to_front 1 res st)) (\<lambda>lits.
       Ok (res, if count \<noteq> 1 then 0 else forced, st\<lparr>an_store := (an_store st)(conflict \<mapsto> c\<lparr>cl_literals := lits\<rparr>)\<rparr>))))"

section \<open>The first unique implication point\<close>

definition analyze_unit :: "int \<Rightarrow> analysis \<Rightarrow> analysis result" where
  "analyze_unit lit st =
     rbind (flags lit st) (\<lambda>f.
       if f_seen f \<or> \<not> an_lrat st then Ok st
       else rbind (put_flags lit (f_seen_update (\<lambda>_. True)) st) (\<lambda>st.
         rbind (vec_at (an_units st) (vlit (- lit))) (\<lambda>i.
           Ok (st\<lparr>an_unit_analyzed := an_unit_analyzed st @ [lit], an_unit_chain := an_unit_chain st @ [i]\<rparr>))))"

definition record_literal :: "int \<Rightarrow> Var \<Rightarrow> analysis \<Rightarrow> analysis" where
  "record_literal lit v st =
     st\<lparr>an_analyzed := an_analyzed st @ [lit], an_clause := if v_level v < an_level st then an_clause st @ [lit] else an_clause st\<rparr>"

definition see_level :: "Var \<Rightarrow> analysis \<Rightarrow> analysis result" where
  "see_level v st =
     rbind (vec_at (an_control st) (v_level v)) (\<lambda>l.
       let ls = (if l_seen_count l = 0 then an_levels st @ [v_level v] else an_levels st);
           l = l\<lparr>l_seen_count := l_seen_count l + 1\<rparr>;
           l = (if v_trail v < l_seen_trail l then l\<lparr>l_seen_trail := v_trail v\<rparr> else l)
       in rbind (vec_set (an_control st) (v_level v) l) (\<lambda>cs. Ok (st\<lparr>an_control := cs, an_levels := ls\<rparr>)))"

text \<open>\<open>open\<close> is the number of literals of the current level that are seen but not resolved yet.\<close>

definition analyze_literal :: "int \<Rightarrow> int \<times> analysis \<Rightarrow> (int \<times> analysis) result" where
  "analyze_literal lit = (\<lambda>(opened, st).
     rbind (var lit st) (\<lambda>v.
       if v_level v = 0 then rbind (analyze_unit lit st) (\<lambda>st. Ok (opened, st))
       else rbind (flags lit st) (\<lambda>f.
         if f_seen f then Ok (opened, st)
         else rbind (put_flags lit (f_seen_update (\<lambda>_. True)) st) (\<lambda>st.
         rbind (see_level v (record_literal lit v st)) (\<lambda>st.
           Ok (if v_level v = an_level st then opened + 1 else opened, st))))))"

definition analyze_reason :: "analyze_options \<Rightarrow> int \<Rightarrow> nat \<Rightarrow> int \<times> analysis \<Rightarrow> (int \<times> analysis) result" where
  "analyze_reason os lit reason = (\<lambda>(opened, st).
     rbind (bump_clause os reason st) (\<lambda>st. rbind (clause_ref reason st) (\<lambda>c.
       let st = (if an_lrat st then st\<lparr>an_lrat_chain := an_lrat_chain st @ [cl_id c]\<rparr> else st)
       in rfold (\<lambda>other s. if other \<noteq> lit then analyze_literal other s else Ok s) (cl_literals c) (opened, st))))"

text \<open>
  The two nested loops of \<open>analyze\<close> go down the trail together: the list is the part of the trail below \<open>i\<close>,
  from its end. A literal that is not seen or of another level is skipped by the inner loop.
\<close>

fun derive_uip :: "analyze_options \<Rightarrow> int list \<Rightarrow> int \<times> analysis \<Rightarrow> (int \<times> analysis) result" where
  "derive_uip os [] (opened, st) = Fault OutOfBounds"
| "derive_uip os (lit # below) (opened, st) =
     rbind (flags lit st) (\<lambda>f. rbind (var lit st) (\<lambda>v.
       if \<not> f_seen f \<or> v_level v \<noteq> an_level st then derive_uip os below (opened, st)
       else if opened - 1 = 0 then Ok (lit, st)
       else case v_reason v of None \<Rightarrow> Fault OutOfBounds
         | Some reason \<Rightarrow> rbind (analyze_reason os lit reason (opened - 1, st)) (derive_uip os below)))"

definition first_uip :: "analyze_options \<Rightarrow> nat \<Rightarrow> analysis \<Rightarrow> (int \<times> analysis) result" where
  "first_uip os conflict st =
     rbind (analyze_reason os 0 conflict (0, st)) (\<lambda>(opened, st).
     rbind (derive_uip os (rev (an_trail st)) (opened, st)) (\<lambda>(uip, st).
       Ok (uip, st\<lparr>an_clause := an_clause st @ [- uip]\<rparr>)))"

section \<open>Minimizing\<close>

text \<open>
  \<open>minimize_literal\<close> recurses at most \<open>opt_minimizedepth\<close> deep: \<open>k\<close> is \<open>opt_minimizedepth + 1 - depth\<close>, so that
  \<open>depth > opt_minimizedepth\<close> is \<open>k = 0\<close>. \<open>minimize_loop\<close> is the loop over the literals of the reason.
\<close>

definition settle_minimize :: "int \<Rightarrow> bool \<times> analysis \<Rightarrow> (bool \<times> analysis) result" where
  "settle_minimize lit = (\<lambda>(res, st).
     rbind (put_flags lit (if res then f_removable_update (\<lambda>_. True) else f_poison_update (\<lambda>_. True)) st) (\<lambda>st.
       Ok (res, st\<lparr>an_minimized := an_minimized st @ [lit]\<rparr>)))"

fun minimize_literal :: "nat \<Rightarrow> nat \<Rightarrow> int \<Rightarrow> analysis \<Rightarrow> (bool \<times> analysis) result"
  and minimize_loop :: "nat \<Rightarrow> nat \<Rightarrow> int \<Rightarrow> int list \<Rightarrow> analysis \<Rightarrow> (bool \<times> analysis) result" where
  "minimize_literal k depth lit st =
     rbind (flags lit st) (\<lambda>f. rbind (var lit st) (\<lambda>v.
       if v_level v = 0 \<or> f_removable f \<or> f_keep f then Ok (True, st)
       else case v_reason v of None \<Rightarrow> Ok (False, st) | Some reason \<Rightarrow>
         if f_poison f \<or> v_level v = an_level st then Ok (False, st)
         else rbind (vec_at (an_control st) (v_level v)) (\<lambda>l.
           if depth = 0 \<and> l_seen_count l < 2 then Ok (False, st)
           else if v_trail v \<le> l_seen_trail l then Ok (False, st)
           else case k of 0 \<Rightarrow> Ok (False, st) | Suc k \<Rightarrow>
             rbind (clause_ref reason st) (\<lambda>c.
               rbind (minimize_loop k (Suc depth) lit (cl_literals c) st) (settle_minimize lit)))))"
| "minimize_loop k depth lit [] st = Ok (True, st)"
| "minimize_loop k depth lit (other # others) st =
     (if other = lit then minimize_loop k depth lit others st
      else rbind (minimize_literal k depth (- other) st) (\<lambda>(res, st).
        if res then minimize_loop k depth lit others st else Ok (False, st)))"

text \<open>
  The recursion of \<open>calculate_minimize_chain\<close> goes along reasons, down the trail; \<open>fuel\<close> bounds its depth, and the
  length of the trail is enough.
\<close>

definition added_unit :: "int \<Rightarrow> analysis \<Rightarrow> analysis result" where
  "added_unit lit st =
     rbind (flags lit st) (\<lambda>f.
       if f_seen f then Ok st
       else rbind (put_flags lit (f_seen_update (\<lambda>_. True)) st) (\<lambda>st.
         rbind (vec_at (an_units st) (vlit lit)) (\<lambda>i.
           Ok (st\<lparr>an_analyzed := an_analyzed st @ [lit], an_unit_chain := an_unit_chain st @ [i]\<rparr>))))"

primrec calculate_minimize_chain :: "nat \<Rightarrow> int \<Rightarrow> analysis \<Rightarrow> analysis result" where
  "calculate_minimize_chain 0 lit st = Fault Diverges"
| "calculate_minimize_chain (Suc fuel) lit st =
     rbind (flags lit st) (\<lambda>f. rbind (var lit st) (\<lambda>v.
       if f_keep f \<or> f_added f then Ok st
       else if v_level v = 0 then added_unit lit st
       else rbind (put_flags lit (f_added_update (\<lambda>_. True)) st) (\<lambda>st.
         rbind (reason_of v st) (\<lambda>c.
         rbind (rfold (\<lambda>other st. if other = lit then Ok st else calculate_minimize_chain fuel (- other) st) (cl_literals c) st) (\<lambda>st.
           Ok (st\<lparr>an_mini_chain := an_mini_chain st @ [cl_id c]\<rparr>))))))"

definition var_key :: "(Var \<Rightarrow> 'k) \<Rightarrow> 'k \<Rightarrow> analysis \<Rightarrow> int \<Rightarrow> 'k" where
  "var_key key d st lit = (case var lit st of Ok v \<Rightarrow> key v | Fault e \<Rightarrow> d)"

definition minimize_sort_clause :: "analysis \<Rightarrow> analysis" where
  "minimize_sort_clause st = st\<lparr>an_clause := sort_key (var_key v_trail 0 st) (an_clause st)\<rparr>"

definition clear_minimized_literals :: "analysis \<Rightarrow> analysis result" where
  "clear_minimized_literals st =
     rbind (rfold (\<lambda>lit. put_flags lit (\<lambda>f. f\<lparr>f_poison := False, f_removable := False, f_added := False\<rparr>)) (an_minimized st) st) (\<lambda>st.
     rbind (rfold (\<lambda>lit. put_flags lit (\<lambda>f. f\<lparr>f_keep := False, f_added := False\<rparr>)) (an_clause st) st) (\<lambda>st.
       Ok (st\<lparr>an_minimized := []\<rparr>)))"

definition move_mini_chain :: "analysis \<Rightarrow> analysis" where
  "move_mini_chain st = st\<lparr>an_minimize_chain := an_minimize_chain st @ an_mini_chain st, an_mini_chain := []\<rparr>"

text \<open>One literal of the clause; the first component holds the literals that are kept.\<close>

definition minimize_round :: "analyze_options \<Rightarrow> int \<Rightarrow> int list \<times> analysis \<Rightarrow> (int list \<times> analysis) result" where
  "minimize_round os lit = (\<lambda>(kept, st).
     rbind (minimize_literal (opt_minimizedepth os + 1) 0 (- lit) st) (\<lambda>(res, st).
       if res
       then (if an_lrat st
             then rbind (calculate_minimize_chain (Suc (length (an_trail st))) (- lit) st) (\<lambda>st. Ok (kept, move_mini_chain st))
             else Ok (kept, st))
       else rbind (put_flags lit (f_keep_update (\<lambda>_. True)) st) (\<lambda>st. Ok (kept @ [lit], st))))"

definition minimize_clause :: "analyze_options \<Rightarrow> analysis \<Rightarrow> analysis result" where
  "minimize_clause os st =
     (let st = minimize_sort_clause st in
      rbind (rfold (minimize_round os) (an_clause st) ([], st)) (\<lambda>(kept, st).
      rbind (clear_minimized_literals (st\<lparr>an_clause := kept\<rparr>)) (\<lambda>st.
        Ok (st\<lparr>an_lrat_chain := an_lrat_chain st @ rev (an_minimize_chain st), an_minimize_chain := []\<rparr>))))"

section \<open>The driving clause and the level to jump to\<close>

definition analyze_trail_rank :: "Var \<Rightarrow> 64 word" where
  "analyze_trail_rank v = NOT (push_bit 32 (word_of_nat (v_level v)) OR word_of_nat (v_trail v))"

definition new_driving_clause :: "analysis \<Rightarrow> (nat \<times> analysis) result" where
  "new_driving_clause st =
     (if length (an_clause st) \<le> 1 then Ok (0, st)
      else let st = st\<lparr>an_clause := sort_key (var_key analyze_trail_rank 0 st) (an_clause st)\<rparr>
        in rbind (var (an_clause st ! 1) st) (\<lambda>v. Ok (v_level v, st)))"

text \<open>
  \<open>passes best idx\<close> is the comparison of the best variable with the next one, by scores or by time stamps (\<open>score_smaller\<close>,
  \<open>bumped\<close>).
\<close>

definition best_on_trail :: "(nat \<Rightarrow> nat \<Rightarrow> bool) \<Rightarrow> nat \<Rightarrow> analysis \<Rightarrow> nat \<times> nat" where
  "best_on_trail passes from st =
     fold (\<lambda>i (best_idx, best_pos). let idx = nat \<bar>an_trail st ! i\<bar>
       in if best_idx \<noteq> 0 \<and> passes best_idx idx then (best_idx, best_pos) else (idx, i)) [from..<length (an_trail st)] (0, 0)"

fun reuse_level :: "nat \<Rightarrow> nat \<Rightarrow> nat \<Rightarrow> analysis \<Rightarrow> nat result" where
  "reuse_level 0 res best_pos st = Ok res"
| "reuse_level (Suc n) res best_pos st =
     rbind (vec_at (an_control st) (res + 1)) (\<lambda>l.
       if l_trail l \<le> best_pos then reuse_level n (res + 1) best_pos st else Ok res)"

definition determine_actual_backtrack_level ::
  "analyze_options \<Rightarrow> (nat \<Rightarrow> nat \<Rightarrow> bool) \<Rightarrow> int list \<Rightarrow> nat \<Rightarrow> analysis \<Rightarrow> nat result" where
  "determine_actual_backtrack_level os passes assumptions jump st =
     (if opt_chrono os = 0 then Ok jump
      else if opt_chronoalways os then Ok (an_level st - 1)
      else if jump \<ge> an_level st - 1 then Ok jump
      else if jump < length assumptions then Ok jump
      else if an_level st - jump > opt_chronolevelim os then Ok (an_level st - 1)
      else if opt_chronoreusetrail os
      then rbind (vec_at (an_control st) (jump + 1)) (\<lambda>l.
        let (best_idx, best_pos) = best_on_trail passes (l_trail l) st
        in reuse_level (an_level st - 1 - jump) jump best_pos st)
      else Ok jump)"

section \<open>Cleaning up and the whole analysis\<close>

definition clear_unit_analyzed_literals :: "analysis \<Rightarrow> analysis result" where
  "clear_unit_analyzed_literals st =
     rbind (rfold (\<lambda>lit. put_flags lit (f_seen_update (\<lambda>_. False))) (an_unit_analyzed st) st) (\<lambda>st.
       Ok (st\<lparr>an_unit_analyzed := []\<rparr>))"

definition clear_analyzed_literals :: "analysis \<Rightarrow> analysis result" where
  "clear_analyzed_literals st =
     rbind (rfold (\<lambda>lit. put_flags lit (f_seen_update (\<lambda>_. False))) (an_analyzed st) st) (\<lambda>st.
       Ok (st\<lparr>an_analyzed := []\<rparr>))"

definition reset_at :: "nat \<Rightarrow> Level list \<Rightarrow> Level list" where
  "reset_at l cs = (if l < length cs then cs[l := reset_level (cs ! l)] else cs)"

definition clear_analyzed_levels :: "analysis \<Rightarrow> analysis" where
  "clear_analyzed_levels st =
     st\<lparr>an_control := fold reset_at (an_levels st) (an_control st), an_levels := []\<rparr>"

definition finish_chain :: "analysis \<Rightarrow> analysis" where
  "finish_chain st =
     (if an_lrat st then st\<lparr>an_lrat_chain := rev (an_lrat_chain st @ an_unit_chain st), an_unit_chain := []\<rparr> else st)"

text \<open>From a conflict to the learned clause with its chain, and the level to jump to.\<close>

definition learn_clause :: "analyze_options \<Rightarrow> nat \<Rightarrow> analysis \<Rightarrow> (int \<times> nat \<times> nat \<times> analysis) result" where
  "learn_clause os conflict st =
     rbind (first_uip os conflict st) (\<lambda>(uip, st).
       let glue = length (an_levels st) - 1 in
       rbind (if length (an_clause st) > 1 \<and> opt_minimize os then minimize_clause os st else Ok st) (\<lambda>st.
       rbind (new_driving_clause (finish_chain st)) (\<lambda>(jump, st). Ok (uip, glue, jump, st))))"

definition clean_up :: "analysis \<Rightarrow> analysis result" where
  "clean_up st =
     rbind (clear_analyzed_literals st) (\<lambda>st.
     rbind (clear_unit_analyzed_literals st) (\<lambda>st.
       Ok ((clear_analyzed_levels st)\<lparr>an_clause := [], an_lrat_chain := []\<rparr>)))"
end
