(* ===== verification/Conflict_Uip.thy ===== *)
theory Conflict_Uip
  imports Conflict_Analysis Lrat_Rup
begin

text \<open>
  The first unique implication point: the clause that is derived follows from the clauses, it is falsified and asserting, and
  the identifiers collected on the way are an LRAT chain of it.
\<close>

section \<open>The implication graph\<close>

definition clause_data :: "analysis \<Rightarrow> nat \<Rightarrow> (nat \<times> int list) option" where
  "clause_data st a = map_option (\<lambda>c. (cl_id c, cl_literals c)) (an_store st a)"

abbreviation lev :: "analysis \<Rightarrow> int \<Rightarrow> nat" where
  "lev st l \<equiv> v_level (an_vtab st ! nat \<bar>l\<bar>)"

abbreviation pos :: "analysis \<Rightarrow> int \<Rightarrow> nat" where
  "pos st l \<equiv> v_trail (an_vtab st ! nat \<bar>l\<bar>)"

abbreviation rsn :: "analysis \<Rightarrow> int \<Rightarrow> nat option" where
  "rsn st l \<equiv> v_reason (an_vtab st ! nat \<bar>l\<bar>)"

abbreviation flg :: "analysis \<Rightarrow> int \<Rightarrow> Flags" where
  "flg st l \<equiv> an_ftab st ! nat \<bar>l\<bar>"

text \<open>What the analysis never changes.\<close>

definition same :: "analysis \<Rightarrow> analysis \<Rightarrow> bool" where
  "same st u \<longleftrightarrow> an_vtab u = an_vtab st \<and> an_trail u = an_trail st \<and> an_level u = an_level st \<and> an_lrat u = an_lrat st \<and>
     an_units u = an_units st \<and> length (an_ftab u) = length (an_ftab st) \<and> length (an_control u) = length (an_control st) \<and>
     length (an_gtab u) = length (an_gtab st) \<and> clause_data u = clause_data st"

lemma same_refl [simp]: "same st st"
  by (simp add: same_def)

lemma same_trans [trans]: "same st u \<Longrightarrow> same u v \<Longrightarrow> same st v"
  by (simp add: same_def)

lemma sameD:
  "same st u \<Longrightarrow> an_vtab u = an_vtab st" "same st u \<Longrightarrow> an_trail u = an_trail st" "same st u \<Longrightarrow> an_level u = an_level st"
  "same st u \<Longrightarrow> an_lrat u = an_lrat st" "same st u \<Longrightarrow> an_units u = an_units st"
  "same st u \<Longrightarrow> length (an_ftab u) = length (an_ftab st)" "same st u \<Longrightarrow> length (an_control u) = length (an_control st)"
  "same st u \<Longrightarrow> length (an_gtab u) = length (an_gtab st)" "same st u \<Longrightarrow> clause_data u = clause_data st"
  by (simp_all add: same_def)

text \<open>
  The trail and the implication graph: positions and levels, the clause that is the reason of a literal has its other literals
  false before it and not above its level, and the decision is the first literal of the current level.
\<close>

definition false_lit :: "analysis \<Rightarrow> int \<Rightarrow> bool" where
  "false_lit st l \<longleftrightarrow> - l \<in> set (an_trail st)"

definition reason_ok :: "analysis \<Rightarrow> int \<Rightarrow> int list \<Rightarrow> bool" where
  "reason_ok st l c \<longleftrightarrow> l \<in> set c \<and>
     (\<forall>m \<in> set c. m \<noteq> l \<longrightarrow> false_lit st m \<and> pos st m < pos st l \<and> lev st m \<le> lev st l) \<and>
     (\<exists>m \<in> set c. m \<noteq> l \<and> 0 < lev st m)"

definition trail_ok :: "analysis \<Rightarrow> bool" where
  "trail_ok st \<longleftrightarrow> an_level st < length (an_control st) \<and> an_level st < length (an_gtab st) \<and>
     (\<forall>i < length (an_trail st). let l = an_trail st ! i in l \<noteq> 0 \<and> nat \<bar>l\<bar> < length (an_vtab st) \<and>
        nat \<bar>l\<bar> < length (an_ftab st) \<and> vlit l < length (an_units st) \<and> pos st l = i \<and> lev st l \<le> an_level st) \<and>
     (\<forall>l \<in> set (an_trail st). 0 < lev st l \<longrightarrow> (\<forall>a. rsn st l = Some a \<longrightarrow>
        (\<exists>i c. clause_data st a = Some (i, c) \<and> reason_ok st l c))) \<and>
     (\<forall>l \<in> set (an_trail st). lev st l = an_level st \<longrightarrow> rsn st l = None \<longrightarrow>
        (\<forall>m \<in> set (an_trail st). lev st m = an_level st \<longrightarrow> pos st l \<le> pos st m))"

lemma false_lit_same: "same st u \<Longrightarrow> false_lit u = false_lit st"
  by (simp add: false_lit_def sameD fun_eq_iff)

lemma trail_ok_same: "same st u \<Longrightarrow> trail_ok u = trail_ok st"
  by (simp add: trail_ok_def reason_ok_def sameD false_lit_same)

lemma trail_nth:
  assumes "trail_ok st" "i < length (an_trail st)"
  shows "an_trail st ! i \<noteq> 0" "nat \<bar>an_trail st ! i\<bar> < length (an_vtab st)" "nat \<bar>an_trail st ! i\<bar> < length (an_ftab st)"
    "vlit (an_trail st ! i) < length (an_units st)" "pos st (an_trail st ! i) = i" "lev st (an_trail st ! i) \<le> an_level st"
  using assms by (auto simp: trail_ok_def Let_def)

lemma false_litD:
  assumes "trail_ok st" "false_lit st l"
  shows "l \<noteq> 0" "nat \<bar>l\<bar> < length (an_vtab st)" "nat \<bar>l\<bar> < length (an_ftab st)" "vlit (- l) < length (an_units st)"
    "pos st l < length (an_trail st)" "an_trail st ! pos st l = - l" "lev st l \<le> an_level st"
proof -
  obtain i where i: "i < length (an_trail st)" "an_trail st ! i = - l" using assms(2) by (auto simp: false_lit_def in_set_conv_nth)
  note N = trail_nth [OF assms(1) i(1)]
  have p: "pos st l = i" using N(5) i(2) by simp
  show "l \<noteq> 0" "nat \<bar>l\<bar> < length (an_vtab st)" "nat \<bar>l\<bar> < length (an_ftab st)" "vlit (- l) < length (an_units st)"
    "lev st l \<le> an_level st" using N i(2) by simp_all
  show "pos st l < length (an_trail st)" "an_trail st ! pos st l = - l" using i p by simp_all
qed

lemma false_unique:
  assumes "trail_ok st" "false_lit st l" "false_lit st m" "nat \<bar>l\<bar> = nat \<bar>m\<bar>"
  shows "l = m"
proof -
  have "pos st l = pos st m" by (simp only: assms(4))
  then have "- l = - m" using false_litD(6) [OF assms(1,2)] false_litD(6) [OF assms(1,3)] by (simp only:)
  then show ?thesis by simp
qed

lemma true_not_false:
  assumes "trail_ok st" "l \<in> set (an_trail st)"
  shows "\<not> false_lit st l"
proof
  assume f: "false_lit st l"
  have "false_lit st (- l)" using assms(2) by (simp add: false_lit_def)
  then have "l = - l" using false_unique [OF assms(1) f, of "- l"] by simp
  then show False using false_litD(1) [OF assms(1) f] by simp
qed

lemma trail_reason:
  assumes "trail_ok st" "l \<in> set (an_trail st)" "0 < lev st l" "rsn st l = Some a"
  shows "\<exists>i c. clause_data st a = Some (i, c) \<and> reason_ok st l c"
  using assms unfolding trail_ok_def by blast

lemma clause_dataE:
  assumes "clause_data st a = Some (i, c)"
  obtains d where "an_store st a = Some d" "cl_id d = i" "cl_literals d = c"
  using assms by (auto simp: clause_data_def)

lemma trail_decision:
  assumes "trail_ok st" "l \<in> set (an_trail st)" "lev st l = an_level st" "rsn st l = None" "m \<in> set (an_trail st)" "lev st m = an_level st"
  shows "pos st l \<le> pos st m"
  using assms unfolding trail_ok_def by blast

section \<open>Bumping a clause changes its glue and its flags only\<close>

definition level_known :: "analysis \<Rightarrow> int \<Rightarrow> bool" where
  "level_known st l \<longleftrightarrow> nat \<bar>l\<bar> < length (an_vtab st) \<and> lev st l < length (an_gtab st)"

lemma stamp_levels:
  assumes "\<forall>l \<in> set c. level_known st l"
  shows "\<exists>n gs. rfold (stamp_level s) c (r, st) = Ok (n, st\<lparr>an_gtab := gs\<rparr>) \<and> length gs = length (an_gtab st)"
  using assms
proof (induction c arbitrary: r st)
  case Nil
  have "st = st\<lparr>an_gtab := an_gtab st\<rparr>" by simp
  then show ?case by (metis rfold.simps(1))
next
  case (Cons l c)
  have l: "nat \<bar>l\<bar> < length (an_vtab st)" "lev st l < length (an_gtab st)" using Cons.prems by (simp_all add: level_known_def)
  show ?case
  proof (cases "an_gtab st ! lev st l = s")
    case True
    then have "stamp_level s l (r, st) = Ok (r, st)" using l by (simp add: stamp_level_def var_def)
    then show ?thesis using Cons.IH [of st r] Cons.prems by simp
  next
    case False
    let ?u = "st\<lparr>an_gtab := (an_gtab st)[lev st l := s]\<rparr>"
    have "stamp_level s l (r, st) = Ok (r + 1, ?u)" using l False by (simp add: stamp_level_def var_def)
    then show ?thesis using Cons.IH [of ?u "r + 1"] Cons.prems by (auto simp: level_known_def)
  qed
qed

text \<open>The fields that belong to the learned clause.\<close>

definition same_clause :: "analysis \<Rightarrow> analysis \<Rightarrow> bool" where
  "same_clause st u \<longleftrightarrow> an_ftab u = an_ftab st \<and> an_control u = an_control st \<and> an_clause u = an_clause st \<and>
     an_analyzed u = an_analyzed st \<and> an_unit_analyzed u = an_unit_analyzed st \<and> an_levels u = an_levels st \<and>
     an_unit_chain u = an_unit_chain st"

definition same_chains :: "analysis \<Rightarrow> analysis \<Rightarrow> bool" where
  "same_chains st u \<longleftrightarrow> an_lrat_chain u = an_lrat_chain st \<and> an_minimized u = an_minimized st \<and>
     an_mini_chain u = an_mini_chain st \<and> an_minimize_chain u = an_minimize_chain st"

lemma promote_data: "cl_id (promote_clause os g c) = cl_id c" "cl_literals (promote_clause os g c) = cl_literals c"
  by (simp_all add: promote_clause_def Let_def)

lemma bump_store:
  assumes "an_store st a = Some c" "cl_id d = cl_id c" "cl_literals d = cl_literals c" "length gs = length (an_gtab st)"
    "u = st\<lparr>an_recomputed := n, an_gtab := gs, an_store := (an_store st)(a \<mapsto> d)\<rparr>"
  shows "same st u" "same_clause st u" "same_chains st u"
  using assms by (auto simp: same_def same_clause_def same_chains_def clause_data_def fun_eq_iff)

lemma bump_clause_ok:
  assumes "an_store st a = Some c" "\<forall>l \<in> set (cl_literals c). level_known st l"
  shows "\<exists>u. bump_clause os a st = Ok u \<and> same st u \<and> same_clause st u \<and> same_chains st u"
proof -
  let ?c = "c\<lparr>cl_used := 1\<rparr>"
  have at: "clause_ref a st = Ok c" using assms(1) by (simp add: clause_ref_def)
  obtain g gs where g: "recompute_glue ?c st = Ok (g, st\<lparr>an_recomputed := an_recomputed st + 1, an_gtab := gs\<rparr>)"
    "length gs = length (an_gtab st)"
    using stamp_levels [of "cl_literals c" "st\<lparr>an_recomputed := an_recomputed st + 1\<rparr>" "an_recomputed st + 1" 0] assms(2)
    by (auto simp: recompute_glue_def Let_def level_known_def)
  have plain: "\<exists>u. Ok (st\<lparr>an_store := (an_store st)(a \<mapsto> ?c)\<rparr>) = Ok u \<and> same st u \<and> same_clause st u \<and> same_chains st u"
    using bump_store [OF assms(1) _ _ refl, of ?c _ "an_recomputed st"] by simp
  show ?thesis
  proof (cases "cl_keep c \<or> cl_hyper c \<or> \<not> cl_redundant c")
    case True
    then show ?thesis using plain at by (auto simp: bump_clause_def Let_def)
  next
    case False
    define d where "d = (if g < cl_glue c then promote_clause os g ?c
      else if cl_used c \<noteq> 0 \<and> cl_glue c \<le> opt_tier2 os then ?c\<lparr>cl_used := 2\<rparr> else ?c)"
    have d: "cl_id d = cl_id c" "cl_literals d = cl_literals c" by (simp_all add: d_def promote_data)
    have "bump_clause os a st = Ok (st\<lparr>an_recomputed := an_recomputed st + 1, an_gtab := gs, an_store := (an_store st)(a \<mapsto> d)\<rparr>)"
      using False at g(1) by (simp add: bump_clause_def Let_def d_def)
    then show ?thesis using bump_store [OF assms(1) d g(2) refl] by blast
  qed
qed

section \<open>The state of the analysis\<close>

definition clean_flags :: "Flags \<Rightarrow> bool" where
  "clean_flags f \<longleftrightarrow> \<not> f_keep f \<and> \<not> f_poison f \<and> \<not> f_removable f \<and> \<not> f_added f"

definition opened_below :: "analysis \<Rightarrow> nat \<Rightarrow> int set" where
  "opened_below st i = {l \<in> set (an_analyzed st). lev st l = an_level st \<and> pos st l < i}"

definition units_ok :: "analysis \<Rightarrow> bool" where
  "units_ok st \<longleftrightarrow> (\<forall>l \<in> set (an_unit_analyzed st). false_lit st l \<and> lev st l = 0) \<and>
     an_unit_chain st = map (\<lambda>l. an_units st ! vlit (- l)) (an_unit_analyzed st) \<and> (\<not> an_lrat st \<longrightarrow> an_unit_analyzed st = [])"

definition levels_ok :: "analysis \<Rightarrow> bool" where
  "levels_ok st \<longleftrightarrow> (\<forall>k < length (an_control st). l_seen_count (an_control st ! k) = card {l \<in> set (an_analyzed st). lev st l = k}) \<and>
     distinct (an_levels st) \<and> set (an_levels st) = lev st ` set (an_analyzed st)"

definition seen_ok :: "analysis \<Rightarrow> bool" where
  "seen_ok st \<longleftrightarrow> distinct (an_analyzed st @ an_unit_analyzed st) \<and>
     (\<forall>l \<in> set (an_analyzed st). false_lit st l \<and> 0 < lev st l) \<and> an_clause st = filter (\<lambda>l. lev st l < an_level st) (an_analyzed st) \<and>
     (\<forall>v < length (an_ftab st). f_seen (an_ftab st ! v) \<longleftrightarrow> (\<exists>l \<in> set (an_analyzed st @ an_unit_analyzed st). nat \<bar>l\<bar> = v)) \<and>
     (\<forall>v < length (an_ftab st). clean_flags (an_ftab st ! v))"

definition analysis_ok :: "analysis \<Rightarrow> bool" where
  "analysis_ok st \<longleftrightarrow> seen_ok st \<and> units_ok st \<and> levels_ok st"

lemma analysis_ok_same:
  assumes "same st u" "same_clause st u"
  shows "analysis_ok u = analysis_ok st" "opened_below u = opened_below st"
  using assms by (simp_all add: analysis_ok_def seen_ok_def units_ok_def levels_ok_def opened_below_def sameD false_lit_same same_clause_def fun_eq_iff)

lemma put_flags_ok:
  "nat \<bar>l\<bar> < length (an_ftab st) \<Longrightarrow> put_flags l g st = Ok (st\<lparr>an_ftab := (an_ftab st)[nat \<bar>l\<bar> := g (flg st l)]\<rparr>)"
  by (simp add: put_flags_def flags_def)

lemma seen_iff:
  assumes "trail_ok st" "analysis_ok st" "false_lit st l"
  shows "f_seen (flg st l) \<longleftrightarrow> l \<in> set (an_analyzed st @ an_unit_analyzed st)"
proof -
  have f: "\<forall>m \<in> set (an_analyzed st @ an_unit_analyzed st). false_lit st m"
    using assms(2) by (auto simp: analysis_ok_def seen_ok_def units_ok_def)
  have "f_seen (flg st l) \<longleftrightarrow> (\<exists>m \<in> set (an_analyzed st @ an_unit_analyzed st). nat \<bar>m\<bar> = nat \<bar>l\<bar>)"
    using assms(2) false_litD(3) [OF assms(1,3)] unfolding analysis_ok_def seen_ok_def by blast
  then show ?thesis using f false_unique [OF assms(1) _ assms(3)] by blast
qed

lemma seen_update:
  assumes "nat \<bar>l\<bar> < length fs" "\<forall>v < length fs. f_seen (fs ! v) \<longleftrightarrow> (\<exists>m \<in> A. nat \<bar>m\<bar> = v)" "\<forall>v < length fs. clean_flags (fs ! v)"
  defines "gs \<equiv> fs[nat \<bar>l\<bar> := (fs ! nat \<bar>l\<bar>)\<lparr>f_seen := True\<rparr>]"
  shows "\<forall>v < length gs. f_seen (gs ! v) \<longleftrightarrow> (\<exists>m \<in> insert l A. nat \<bar>m\<bar> = v)" "\<forall>v < length gs. clean_flags (gs ! v)"
  using assms(1-3) unfolding gs_def by (auto simp: nth_list_update clean_flags_def)

lemma analyze_unit_ok:
  assumes "trail_ok st" "analysis_ok st" "false_lit st l" "lev st l = 0"
  shows "\<exists>u. analyze_unit l st = Ok u \<and> same st u \<and> same_chains st u \<and> analysis_ok u \<and> an_analyzed u = an_analyzed st \<and>
    set (an_unit_analyzed st) \<subseteq> set (an_unit_analyzed u) \<and> (an_lrat st \<longrightarrow> l \<in> set (an_unit_analyzed u))"
proof (cases "f_seen (flg st l) \<or> \<not> an_lrat st")
  case True
  have "l \<notin> set (an_analyzed st)" using assms(2,4) by (auto simp: analysis_ok_def seen_ok_def)
  then have "an_lrat st \<longrightarrow> l \<in> set (an_unit_analyzed st)" using True seen_iff [OF assms(1-3)] by auto
  moreover have "analyze_unit l st = Ok st" using True false_litD(3) [OF assms(1,3)] by (simp add: analyze_unit_def flags_def)
  ultimately show ?thesis using assms(2) by (simp add: same_chains_def)
next
  case False
  have l: "nat \<bar>l\<bar> < length (an_ftab st)" "vlit (- l) < length (an_units st)" using false_litD [OF assms(1,3)] by simp_all
  define fs where "fs = (an_ftab st)[nat \<bar>l\<bar> := (flg st l)\<lparr>f_seen := True\<rparr>]"
  define u where "u = st\<lparr>an_ftab := fs, an_unit_analyzed := an_unit_analyzed st @ [l], an_unit_chain := an_unit_chain st @ [an_units st ! vlit (- l)]\<rparr>"
  have run: "analyze_unit l st = Ok u"
    using False l by (simp add: analyze_unit_def put_flags_ok u_def fs_def flags_def)
  have len: "length fs = length (an_ftab st)" by (simp add: fs_def)
  have new: "l \<notin> set (an_analyzed st @ an_unit_analyzed st)" using False seen_iff [OF assms(1-3)] by simp
  have s: "same st u" "same_chains st u" by (simp_all add: same_def u_def len clause_data_def same_chains_def fun_eq_iff)
  have S: "seen_ok st" "units_ok st" "levels_ok st" using assms(2) by (simp_all add: analysis_ok_def)
  have f: "\<forall>v < length fs. f_seen (fs ! v) \<longleftrightarrow> (\<exists>m \<in> insert l (set (an_analyzed st @ an_unit_analyzed st)). nat \<bar>m\<bar> = v)"
    "\<forall>v < length fs. clean_flags (fs ! v)"
    using seen_update [OF l(1)] S(1) unfolding fs_def seen_ok_def by blast+
  have "seen_ok u" using S(1) new f unfolding seen_ok_def by (simp add: u_def false_lit_def)
  moreover have "units_ok u" using S(2) False assms(3,4) by (auto simp: units_ok_def u_def false_lit_def)
  moreover have "levels_ok u" using S(3) by (simp add: levels_ok_def u_def)
  ultimately show ?thesis using run s by (auto simp: analysis_ok_def) (auto simp: u_def)
qed

lemma see_level_ok:
  assumes "v_level v < length (an_control st)"
  shows "\<exists>cs. see_level v st = Ok (st\<lparr>an_control := cs,
        an_levels := if l_seen_count (an_control st ! v_level v) = 0 then an_levels st @ [v_level v] else an_levels st\<rparr>) \<and>
    length cs = length (an_control st) \<and>
    (\<forall>k < length cs. l_seen_count (cs ! k) = l_seen_count (an_control st ! k) + (if k = v_level v then 1 else 0))"
  using assms by (auto simp: see_level_def Let_def nth_list_update)

lemma levels_ok_add:
  assumes "levels_ok st" "l \<notin> set (an_analyzed st)" "lev st l < length (an_control st)" "length cs = length (an_control st)"
    "\<forall>k < length cs. l_seen_count (cs ! k) = l_seen_count (an_control st ! k) + (if k = lev st l then 1 else 0)"
    "an_vtab u = an_vtab st" "an_analyzed u = an_analyzed st @ [l]" "an_control u = cs"
    "an_levels u = (if l_seen_count (an_control st ! lev st l) = 0 then an_levels st @ [lev st l] else an_levels st)"
  shows "levels_ok u"
proof -
  have count: "l_seen_count (an_control st ! k) = card {m \<in> set (an_analyzed st). lev st m = k}" if "k < length cs" for k
    using assms(1,4) that by (simp add: levels_ok_def)
  have "{m \<in> set (an_analyzed st @ [l]). lev st m = k} =
      (if k = lev st l then insert l {m \<in> set (an_analyzed st). lev st m = k} else {m \<in> set (an_analyzed st). lev st m = k})" for k by auto
  then have c: "\<forall>k < length cs. l_seen_count (cs ! k) = card {m \<in> set (an_analyzed st @ [l]). lev st m = k}"
    using assms(2,5) count by simp
  have "l_seen_count (an_control st ! lev st l) = 0 \<longleftrightarrow> lev st l \<notin> set (an_levels st)"
    using assms(1,3,4) count [of "lev st l"] by (simp add: levels_ok_def image_iff) metis
  then have "distinct (an_levels u) \<and> set (an_levels u) = lev st ` set (an_analyzed st @ [l])"
    using assms(1,9) by (auto simp: levels_ok_def)
  then show ?thesis using c assms(6-8) by (simp add: levels_ok_def)
qed

definition analyzed_more :: "analysis \<Rightarrow> int set \<Rightarrow> analysis \<Rightarrow> bool" where
  "analyzed_more st A u \<longleftrightarrow> same st u \<and> same_chains st u \<and> analysis_ok u \<and>
     set (an_analyzed u) = set (an_analyzed st) \<union> {l \<in> A. 0 < lev st l} \<and> set (an_unit_analyzed st) \<subseteq> set (an_unit_analyzed u) \<and>
     (an_lrat st \<longrightarrow> {l \<in> A. lev st l = 0} \<subseteq> set (an_unit_analyzed u))"

lemma analyze_new:
  assumes "trail_ok st" "analysis_ok st" "false_lit st l" "0 < lev st l" "l \<notin> set (an_analyzed st)"
  shows "\<exists>u. analyze_literal l (opened, st) = Ok (if lev st l = an_level st then opened + 1 else opened, u) \<and> analyzed_more st {l} u"
proof -
  note L = false_litD [OF assms(1,3)]
  have c: "lev st l < length (an_control st)" using L(7) assms(1) by (simp add: trail_ok_def)
  have S: "seen_ok st" "units_ok st" "levels_ok st" using assms(2) by (simp_all add: analysis_ok_def)
  have new: "l \<notin> set (an_analyzed st @ an_unit_analyzed st)" using assms(4,5) S(2) by (auto simp: units_ok_def)
  then have ns: "\<not> f_seen (flg st l)" using seen_iff [OF assms(1-3)] by simp
  define fs where "fs = (an_ftab st)[nat \<bar>l\<bar> := (flg st l)\<lparr>f_seen := True\<rparr>]"
  define w where "w = st\<lparr>an_ftab := fs, an_analyzed := an_analyzed st @ [l],
    an_clause := if lev st l < an_level st then an_clause st @ [l] else an_clause st\<rparr>"
  have w: "an_control w = an_control st" "an_levels w = an_levels st" by (simp_all add: w_def)
  obtain cs where cs: "see_level (an_vtab st ! nat \<bar>l\<bar>) w = Ok (w\<lparr>an_control := cs,
        an_levels := if l_seen_count (an_control st ! lev st l) = 0 then an_levels st @ [lev st l] else an_levels st\<rparr>)"
    "length cs = length (an_control st)"
    "\<forall>k < length cs. l_seen_count (cs ! k) = l_seen_count (an_control st ! k) + (if k = lev st l then 1 else 0)"
    using see_level_ok [of "an_vtab st ! nat \<bar>l\<bar>" w] c unfolding w by blast
  define u where "u = w\<lparr>an_control := cs,
    an_levels := if l_seen_count (an_control st ! lev st l) = 0 then an_levels st @ [lev st l] else an_levels st\<rparr>"
  have run: "analyze_literal l (opened, st) = Ok (if lev st l = an_level st then opened + 1 else opened, u)"
  proof -
    have p: "put_flags l (f_seen_update (\<lambda>_. True)) st = Ok (st\<lparr>an_ftab := fs\<rparr>)" using L(3) by (simp add: put_flags_ok fs_def)
    have r: "record_literal l (an_vtab st ! nat \<bar>l\<bar>) (st\<lparr>an_ftab := fs\<rparr>) = w" by (simp add: w_def record_literal_def)
    have "an_level u = an_level st" by (simp add: u_def w_def)
    then show ?thesis
      using L(2,3) assms(4) ns p r cs(1) unfolding u_def [symmetric] by (simp add: analyze_literal_def var_def flags_def)
  qed
  have s: "same st u" "same_chains st u"
    by (simp_all add: same_def u_def w_def fs_def cs(2) clause_data_def same_chains_def fun_eq_iff)
  have f: "\<forall>v < length fs. f_seen (fs ! v) \<longleftrightarrow> (\<exists>m \<in> insert l (set (an_analyzed st @ an_unit_analyzed st)). nat \<bar>m\<bar> = v)"
    "\<forall>v < length fs. clean_flags (fs ! v)"
    using seen_update [OF L(3)] S(1) unfolding fs_def seen_ok_def by blast+
  have "seen_ok u" using S(1) new f assms(3,4) unfolding seen_ok_def by (auto simp: u_def w_def false_lit_def)
  moreover have "units_ok u" using S(2) by (simp add: units_ok_def u_def w_def false_lit_def)
  moreover have "levels_ok u"
    by (rule levels_ok_add [OF S(3) assms(5) c cs(2,3)]) (simp_all add: u_def w_def)
  ultimately have "analyzed_more st {l} u" using s assms(4) by (auto simp: analyzed_more_def analysis_ok_def u_def w_def)
  then show ?thesis using run by blast
qed

lemma opened_below_more:
  assumes "analyzed_more st {l} u" "l \<notin> set (an_analyzed st)" "0 < lev st l" "lev st l = an_level st \<longrightarrow> pos st l < i"
  shows "card (opened_below u i) = card (opened_below st i) + (if lev st l = an_level st then 1 else 0)"
proof -
  have "set (an_analyzed u) = insert l (set (an_analyzed st))" "same st u" using assms(1,3) by (auto simp: analyzed_more_def)
  then have "opened_below u i = (if lev st l = an_level st then insert l (opened_below st i) else opened_below st i)"
    using assms(4) by (auto simp: opened_below_def sameD)
  moreover have "finite (opened_below st i)" "l \<notin> opened_below st i" using assms(2) by (simp_all add: opened_below_def)
  ultimately show ?thesis by simp
qed

lemma analyze_literal_ok:
  assumes "trail_ok st" "analysis_ok st" "false_lit st l" "lev st l = an_level st \<longrightarrow> pos st l < i"
  shows "\<exists>u. analyze_literal l (int (card (opened_below st i)), st) = Ok (int (card (opened_below u i)), u) \<and> analyzed_more st {l} u"
proof (cases "lev st l = 0")
  case True
  obtain u where u: "analyze_unit l st = Ok u" "same st u" "same_chains st u" "analysis_ok u" "an_analyzed u = an_analyzed st"
      "set (an_unit_analyzed st) \<subseteq> set (an_unit_analyzed u)" "an_lrat st \<longrightarrow> l \<in> set (an_unit_analyzed u)"
    using analyze_unit_ok [OF assms(1-3) True] by blast
  have "opened_below u i = opened_below st i" using u(2,5) by (simp add: opened_below_def sameD)
  then show ?thesis using u True false_litD(2) [OF assms(1,3)] by (auto simp: analyze_literal_def var_def analyzed_more_def)
next
  case False
  note L = false_litD [OF assms(1,3)]
  show ?thesis
  proof (cases "l \<in> set (an_analyzed st)")
    case True
    then have "f_seen (flg st l)" using seen_iff [OF assms(1-3)] by simp
    then have "analyze_literal l (int (card (opened_below st i)), st) = Ok (int (card (opened_below st i)), st)"
      using False L by (simp add: analyze_literal_def var_def flags_def)
    then show ?thesis using assms(2) True False by (auto simp: analyzed_more_def same_chains_def)
  next
    case new: False
    obtain u where u: "analyze_literal l (int (card (opened_below st i)), st) =
        Ok (if lev st l = an_level st then int (card (opened_below st i)) + 1 else int (card (opened_below st i)), u)" "analyzed_more st {l} u"
      using analyze_new [OF assms(1-3) _ new] False by blast
    then show ?thesis using opened_below_more [OF u(2) new _ assms(4)] False by auto
  qed
qed

lemma analyzed_more_trans:
  assumes "analyzed_more st A u" "analyzed_more u B v"
  shows "analyzed_more st (A \<union> B) v"
proof -
  note S = sameD [of st u]
  have s: "same st u" using assms(1) by (simp add: analyzed_more_def)
  then show ?thesis
    using assms same_trans [of st u v] by (auto simp: analyzed_more_def same_chains_def S)
qed

lemma analyzed_more_refl: "analysis_ok st \<Longrightarrow> analyzed_more st {} st"
  by (simp add: analyzed_more_def same_chains_def)

lemma analyze_lits_ok:
  assumes "trail_ok st" "analysis_ok st" "\<forall>m \<in> set c. m \<noteq> l \<longrightarrow> false_lit st m \<and> (lev st m = an_level st \<longrightarrow> pos st m < i)"
  shows "\<exists>u. rfold (\<lambda>other s. if other \<noteq> l then analyze_literal other s else Ok s) c (int (card (opened_below st i)), st) =
      Ok (int (card (opened_below u i)), u) \<and> analyzed_more st {m \<in> set c. m \<noteq> l} u"
  using assms
proof (induction c arbitrary: st)
  case Nil
  then show ?case using analyzed_more_refl by simp
next
  case (Cons m c)
  show ?case
  proof (cases "m = l")
    case True
    have "{x \<in> set (m # c). x \<noteq> l} = {x \<in> set c. x \<noteq> l}" using True by auto
    then show ?thesis using Cons True by simp
  next
    case False
    have m: "false_lit st m" "lev st m = an_level st \<longrightarrow> pos st m < i" using Cons.prems(3) False by simp_all
    obtain u where u: "analyze_literal m (int (card (opened_below st i)), st) = Ok (int (card (opened_below u i)), u)" "analyzed_more st {m} u"
      using analyze_literal_ok [OF Cons.prems(1,2) m] by blast
    then have s: "same st u" "analysis_ok u" by (simp_all add: analyzed_more_def)
    have "\<forall>m \<in> set c. m \<noteq> l \<longrightarrow> false_lit u m \<and> (lev u m = an_level u \<longrightarrow> pos u m < i)"
      using Cons.prems(3) false_lit_same [OF s(1)] sameD [OF s(1)] by simp
    then obtain v where v: "rfold (\<lambda>other s. if other \<noteq> l then analyze_literal other s else Ok s) c (int (card (opened_below u i)), u) =
        Ok (int (card (opened_below v i)), v)" "analyzed_more u {m \<in> set c. m \<noteq> l} v"
      using Cons.IH [of u] trail_ok_same [OF s(1)] Cons.prems(1) s(2) by blast
    have "{m} \<union> {x \<in> set c. x \<noteq> l} = {x \<in> set (m # c). x \<noteq> l}" using False by auto
    then have "analyzed_more st {x \<in> set (m # c). x \<noteq> l} v" using analyzed_more_trans [OF u(2) v(2)] by simp
    then show ?thesis using u(1) v(1) False by auto
  qed
qed

definition chained :: "nat \<Rightarrow> analysis \<Rightarrow> analysis" where
  "chained i st = (if an_lrat st then st\<lparr>an_lrat_chain := an_lrat_chain st @ [i]\<rparr> else st)"

lemma chained_same: "same st (chained i st)" "same_clause st (chained i st)"
  "an_minimized (chained i st) = an_minimized st" "an_mini_chain (chained i st) = an_mini_chain st"
  "an_minimize_chain (chained i st) = an_minimize_chain st"
  by (simp_all add: chained_def same_def same_clause_def clause_data_def fun_eq_iff)

lemma analyzed_more_bump:
  assumes "same st w" "same_clause st w" "same_chains st w" "analyzed_more (chained j w) A u"
  shows "analyzed_more (chained j st) A u"
proof -
  have "same (chained j st) (chained j w)" using assms(1) by (simp add: chained_def same_def clause_data_def fun_eq_iff)
  moreover have "same_chains (chained j st) (chained j w)" using assms(1,3) by (simp add: chained_def same_chains_def sameD)
  moreover have "an_analyzed (chained j w) = an_analyzed (chained j st)" "an_unit_analyzed (chained j w) = an_unit_analyzed (chained j st)"
    using assms(2) by (simp_all add: chained_def same_clause_def)
  ultimately show ?thesis
    using assms(4) same_trans by (auto simp: analyzed_more_def same_chains_def sameD)
qed

lemma analyze_reason_ok:
  assumes "trail_ok st" "analysis_ok st" "clause_data st a = Some (j, c)"
    "\<forall>m \<in> set c. m \<noteq> l \<longrightarrow> false_lit st m \<and> (lev st m = an_level st \<longrightarrow> pos st m < i)" "\<forall>m \<in> set c. level_known st m"
  shows "\<exists>u. analyze_reason os l a (int (card (opened_below st i)), st) = Ok (int (card (opened_below u i)), u) \<and>
    analyzed_more (chained j st) {m \<in> set c. m \<noteq> l} u"
proof -
  obtain d where d: "an_store st a = Some d" "cl_id d = j" "cl_literals d = c" by (rule clause_dataE [OF assms(3)])
  obtain w where w: "bump_clause os a st = Ok w" "same st w" "same_clause st w" "same_chains st w"
    using bump_clause_ok [OF d(1), of os] assms(5) d(3) by blast
  have "clause_data w a = Some (j, c)" using assms(3) sameD(9) [OF w(2)] by simp
  then obtain e where e: "clause_ref a w = Ok e" "cl_id e = j" "cl_literals e = c"
    by (auto simp: clause_ref_def clause_data_def)
  let ?w = "chained j w"
  have s: "same st ?w" using w(2) chained_same(1) same_trans by blast
  have "opened_below w = opened_below st" "analysis_ok w" using analysis_ok_same [OF w(2,3)] assms(2) by simp_all
  then have o: "opened_below ?w = opened_below st" "analysis_ok ?w"
    using analysis_ok_same [OF chained_same(1,2), of j w] by simp_all
  have "\<forall>m \<in> set c. m \<noteq> l \<longrightarrow> false_lit ?w m \<and> (lev ?w m = an_level ?w \<longrightarrow> pos ?w m < i)"
    using assms(4) false_lit_same [OF s] sameD [OF s] by simp
  then obtain u where u: "rfold (\<lambda>other s. if other \<noteq> l then analyze_literal other s else Ok s) c (int (card (opened_below ?w i)), ?w) =
      Ok (int (card (opened_below u i)), u)" "analyzed_more ?w {m \<in> set c. m \<noteq> l} u"
    using analyze_lits_ok [of ?w c l i] trail_ok_same [OF s] assms(1) o(2) by blast
  have "analyze_reason os l a (int (card (opened_below st i)), st) = Ok (int (card (opened_below u i)), u)"
    using w(1) e u(1) o(1) by (cases "an_lrat w") (simp_all add: analyze_reason_def chained_def)
  then show ?thesis using analyzed_more_bump [OF w(2-4) u(2)] by blast
qed

section \<open>Resolution down the trail\<close>

text \<open>
  The current resolvent: the literals of lower levels and those of the current level that are not resolved yet.
  \<open>consistent_with\<close> are the assignments of the clauses and of the root literals, \<open>knows\<close> a proof data base that has
  the clauses and the root units under their identifiers.
\<close>

definition resolvent :: "analysis \<Rightarrow> nat \<Rightarrow> int set" where
  "resolvent st i = {l \<in> set (an_analyzed st). lev st l < an_level st \<or> pos st l < i}"

definition consistent_with :: "analysis \<Rightarrow> assignment \<Rightarrow> bool" where
  "consistent_with st \<sigma> \<longleftrightarrow> (\<forall>a j c. clause_data st a = Some (j, c) \<longrightarrow> sat_clause \<sigma> c) \<and>
     (\<forall>l \<in> set (an_trail st). lev st l = 0 \<longrightarrow> holds \<sigma> l)"

definition knows :: "(nat \<Rightarrow> lrat_clause option) \<Rightarrow> analysis \<Rightarrow> bool" where
  "knows db st \<longleftrightarrow>
     (\<forall>a j c. clause_data st a = Some (j, c) \<longrightarrow> (\<exists>d. db j = Some d \<and> set (literals d) = set c \<and> \<not> tautological d)) \<and>
     (\<forall>l \<in> set (an_trail st). lev st l = 0 \<longrightarrow>
        (\<exists>d. db (an_units st ! vlit l) = Some d \<and> set (literals d) = {l} \<and> \<not> tautological d))"

definition resolved :: "analysis \<Rightarrow> nat \<Rightarrow> bool" where
  "resolved st i \<longleftrightarrow> (\<forall>\<sigma>. consistent_with st \<sigma> \<longrightarrow> (\<exists>l \<in> resolvent st i. holds \<sigma> l))"

definition chain_ok :: "(nat \<Rightarrow> lrat_clause option) \<Rightarrow> analysis \<Rightarrow> nat \<Rightarrow> bool" where
  "chain_ok db st i \<longleftrightarrow>
     (\<forall>used T. set (an_lrat_chain st) \<inter> used = {} \<longrightarrow> uminus ` (resolvent st i \<union> set (an_unit_analyzed st)) \<subseteq> T \<longrightarrow>
        T \<subseteq> set (an_trail st) \<longrightarrow> rup db (rev (an_lrat_chain st)) used T) \<and>
     (\<forall>j \<in> set (an_lrat_chain st). \<exists>d. db j = Some d \<and>
        (\<forall>m \<in> set (literals d). m \<in> set (an_trail st) \<longrightarrow> i \<le> pos st m \<and> lev st m = an_level st) \<and> \<not> set (literals d) \<subseteq> set (an_trail st))"

lemma chain_ok_rup:
  "chain_ok db st i \<Longrightarrow> set (an_lrat_chain st) \<inter> used = {} \<Longrightarrow> uminus ` (resolvent st i \<union> set (an_unit_analyzed st)) \<subseteq> T \<Longrightarrow>
   T \<subseteq> set (an_trail st) \<Longrightarrow> rup db (rev (an_lrat_chain st)) used T"
  by (simp add: chain_ok_def)

lemma chain_ok_ids:
  "chain_ok db st i \<Longrightarrow> j \<in> set (an_lrat_chain st) \<Longrightarrow> \<exists>d. db j = Some d \<and>
     (\<forall>m \<in> set (literals d). m \<in> set (an_trail st) \<longrightarrow> i \<le> pos st m \<and> lev st m = an_level st) \<and> \<not> set (literals d) \<subseteq> set (an_trail st)"
  by (simp add: chain_ok_def)

lemma chain_ok_down:
  assumes "chain_ok db st k" "resolvent st k = resolvent st i" "i \<le> k"
  shows "chain_ok db st i"
proof -
  have "\<exists>d. db j = Some d \<and> (\<forall>m \<in> set (literals d). m \<in> set (an_trail st) \<longrightarrow> i \<le> pos st m \<and> lev st m = an_level st) \<and>
     \<not> set (literals d) \<subseteq> set (an_trail st)" if j: "j \<in> set (an_lrat_chain st)" for j
  proof -
    obtain d where d: "db j = Some d" "\<forall>m \<in> set (literals d). m \<in> set (an_trail st) \<longrightarrow> k \<le> pos st m \<and> lev st m = an_level st"
      "\<not> set (literals d) \<subseteq> set (an_trail st)" using chain_ok_ids [OF assms(1) j] by blast
    then show ?thesis using assms(3) by (intro exI [of _ d]) auto
  qed
  then show ?thesis using chain_ok_rup [OF assms(1)] assms(2) unfolding chain_ok_def by simp
qed

lemma same_resolved:
  assumes "same st u"
  shows "consistent_with u = consistent_with st" "knows db u = knows db st"
  using assms by (simp_all add: consistent_with_def knows_def sameD fun_eq_iff)

lemma resolve_lits:
  assumes "trail_ok st" "same st u" "set (an_analyzed u) = set (an_analyzed st) \<union> {m \<in> set c. m \<noteq> l \<and> 0 < lev st m}"
    "\<forall>m \<in> set c. m \<noteq> l \<longrightarrow> false_lit st m \<and> (lev st m = an_level st \<longrightarrow> pos st m < i)"
  shows "resolvent u i = resolvent st i \<union> {m \<in> set c. m \<noteq> l \<and> 0 < lev st m}"
proof -
  have "lev st m < an_level st \<or> pos st m < i" if "m \<in> set c" "m \<noteq> l" for m
    using assms(4) that false_litD(7) [OF assms(1), of m] by (meson le_neq_implies_less)
  then show ?thesis using assms(2,3) by (auto simp: resolvent_def sameD)
qed

lemma resolve_sem:
  assumes "trail_ok st" "same st u"
    "clause_data st a = Some (j, c)" "\<forall>m \<in> set c. m \<noteq> l \<longrightarrow> false_lit st m"
    "resolvent u i = resolvent st i \<union> {m \<in> set c. m \<noteq> l \<and> 0 < lev st m}" "l \<noteq> 0 \<longrightarrow> (\<forall>\<sigma>. consistent_with st \<sigma> \<longrightarrow> (holds \<sigma> (- l) \<or> (\<exists>x \<in> resolvent st i. holds \<sigma> x)))"
    "l = 0 \<longrightarrow> 0 \<notin> set c"
  shows "resolved u i"
  unfolding resolved_def same_resolved(1) [OF assms(2)]
proof (intro allI impI)
  fix \<sigma> assume C: "consistent_with st \<sigma>"
  then have "sat_clause \<sigma> c" using assms(3) unfolding consistent_with_def by blast
  then obtain m where m: "m \<in> set c" "holds \<sigma> m" by (auto simp: sat_clause_def list_ex_iff)
  show "\<exists>x \<in> resolvent u i. holds \<sigma> x"
  proof (cases "m = l")
    case True
    then have "l \<noteq> 0" using m(1) assms(7) by auto
    then show ?thesis using assms(5,6) C m(2) True holds_neg [of l \<sigma>] by blast
  next
    case False
    then have f: "false_lit st m" using assms(4) m(1) by blast
    have "lev st m \<noteq> 0"
    proof
      assume "lev st m = 0"
      then have "holds \<sigma> (- m)" using C f by (auto simp: consistent_with_def false_lit_def)
      then show False using m(2) holds_neg [of m \<sigma>] false_litD(1) [OF assms(1) f] by blast
    qed
    then show ?thesis using assms(5) m False by auto
  qed
qed

lemma rup_step:
  assumes "db j = Some d" "\<not> tautological d" "j \<notin> used" "\<forall>m \<in> set (literals d). m \<noteq> l \<longrightarrow> - m \<in> T"
    "rup db ids (insert j used) (T \<union> {l})"
  shows "rup db (j # ids) used T"
proof -
  let ?opens = "{m \<in> set (literals d). - m \<notin> T}"
  have "?opens = {} \<or> ?opens = {l}" using assms(4) by auto
  then show ?thesis
  proof
    assume "?opens = {l}"
    then show ?thesis using assms(1-3,5) by (simp add: Let_def)
  qed (use assms(1-3) in \<open>simp add: Let_def\<close>)
qed

lemma false_in: "trail_ok st \<Longrightarrow> false_lit st m \<Longrightarrow> m \<notin> set (an_trail st)"
  using true_not_false by blast

text \<open>The literals of the clause that are resolved in are among the assumptions.\<close>

lemma more_false:
  assumes "analyzed_more (chained j st) {m \<in> set c. m \<noteq> l} u" "an_lrat st"
    "resolvent u i = resolvent st i \<union> {m \<in> set c. m \<noteq> l \<and> 0 < lev st m}" "m \<in> set c" "m \<noteq> l"
  shows "m \<in> resolvent u i \<union> set (an_unit_analyzed u)"
proof (cases "lev st m = 0")
  case True
  moreover have "an_lrat (chained j st)" "lev (chained j st) m = lev st m" using assms(2) by (simp_all add: chained_def)
  ultimately show ?thesis using assms(1,4,5) by (auto simp: analyzed_more_def)
next
  case False
  then show ?thesis using assms(3-5) by auto
qed

lemma resolve_chain:
  assumes "trail_ok st" "knows db st" "an_lrat st" "chain_ok db st (Suc i)" "l \<in> set (an_trail st)" "pos st l = i"
    "lev st l = an_level st" "clause_data st a = Some (j, c)" "reason_ok st l c"
    "analyzed_more (chained j st) {m \<in> set c. m \<noteq> l} u" "resolvent u i = resolvent st i \<union> {m \<in> set c. m \<noteq> l \<and> 0 < lev st m}"
    "resolvent st (Suc i) \<subseteq> insert (- l) (resolvent st i)"
  shows "chain_ok db u i"
proof -
  have s: "same st u" "an_lrat_chain u = an_lrat_chain st @ [j]" "set (an_unit_analyzed st) \<subseteq> set (an_unit_analyzed u)"
    using assms(3,10) same_trans [OF chained_same(1)] by (auto simp: analyzed_more_def same_chains_def chained_def)
  obtain d where d: "db j = Some d" "set (literals d) = set c" "\<not> tautological d" using assms(2,8) unfolding knows_def by blast
  have l: "l \<in> set c" "\<forall>m \<in> set c. m \<noteq> l \<longrightarrow> false_lit st m" "\<exists>m \<in> set c. m \<noteq> l" using assms(9) by (auto simp: reason_ok_def)
  have fresh: "j \<notin> set (an_lrat_chain st)"
  proof
    assume "j \<in> set (an_lrat_chain st)"
    from chain_ok_ids [OF assms(4) this] have "Suc i \<le> pos st l" using d(1,2) l(1) assms(5) by auto
    then show False using assms(6) by simp
  qed
  have "rup db (rev (an_lrat_chain u)) used T"
    if T: "set (an_lrat_chain u) \<inter> used = {}" "uminus ` (resolvent u i \<union> set (an_unit_analyzed u)) \<subseteq> T" "T \<subseteq> set (an_trail u)" for used T
  proof -
    have "\<forall>m \<in> set (literals d). m \<noteq> l \<longrightarrow> - m \<in> T" using more_false [OF assms(10,3,11)] T(2) d(2) by blast
    moreover have "rup db (rev (an_lrat_chain st)) (insert j used) (T \<union> {l})"
    proof -
      have "uminus ` (resolvent st (Suc i) \<union> set (an_unit_analyzed st)) \<subseteq> T \<union> {l}"
      proof -
        have "resolvent st (Suc i) \<union> set (an_unit_analyzed st) \<subseteq> insert (- l) (resolvent u i \<union> set (an_unit_analyzed u))"
          using assms(11,12) s(3) by blast
        from image_mono [OF this, of uminus] show ?thesis using T(2) by auto
      qed
      moreover have "T \<union> {l} \<subseteq> set (an_trail st)" using T(3) assms(5) sameD(2) [OF s(1)] by simp
      moreover have "set (an_lrat_chain st) \<inter> insert j used = {}" using T(1) fresh s(2) by auto
      ultimately show ?thesis by (intro chain_ok_rup [OF assms(4)])
    qed
    ultimately have "rup db (j # rev (an_lrat_chain st)) used T"
      using T(1) s(2) d by (intro rup_step [where l = l]) auto
    then show ?thesis using s(2) by simp
  qed
  moreover have "\<forall>k \<in> set (an_lrat_chain u). \<exists>d. db k = Some d \<and>
     (\<forall>m \<in> set (literals d). m \<in> set (an_trail u) \<longrightarrow> i \<le> pos u m \<and> lev u m = an_level u) \<and> \<not> set (literals d) \<subseteq> set (an_trail u)"
  proof
    fix k assume "k \<in> set (an_lrat_chain u)"
    then consider "k = j" | "k \<in> set (an_lrat_chain st)" using s(2) by auto
    then show "\<exists>d. db k = Some d \<and> (\<forall>m \<in> set (literals d). m \<in> set (an_trail u) \<longrightarrow> i \<le> pos u m \<and> lev u m = an_level u) \<and>
      \<not> set (literals d) \<subseteq> set (an_trail u)"
    proof cases
      case 1
      have "\<not> set c \<subseteq> set (an_trail st)" using l(2,3) false_in [OF assms(1)] by blast
      then show ?thesis
        using 1 d l(2) false_in [OF assms(1)] assms(6,7) by (intro exI [of _ d]) (auto simp: sameD [OF s(1)])
    next
      case 2
      from chain_ok_ids [OF assms(4) this] obtain e where e: "db k = Some e"
        "\<forall>m \<in> set (literals e). m \<in> set (an_trail st) \<longrightarrow> Suc i \<le> pos st m \<and> lev st m = an_level st"
        "\<not> set (literals e) \<subseteq> set (an_trail st)" by blast
      then show ?thesis by (intro exI [of _ e]) (auto simp: sameD [OF s(1)])
    qed
  qed
  ultimately show ?thesis unfolding chain_ok_def by blast
qed

definition same_mini :: "analysis \<Rightarrow> analysis \<Rightarrow> bool" where
  "same_mini st u \<longleftrightarrow> an_minimized u = an_minimized st \<and> an_mini_chain u = an_mini_chain st \<and> an_minimize_chain u = an_minimize_chain st"

definition uip_inv :: "(nat \<Rightarrow> lrat_clause option) \<Rightarrow> analysis \<Rightarrow> nat \<Rightarrow> bool" where
  "uip_inv db st i \<longleftrightarrow> trail_ok st \<and> analysis_ok st \<and> resolved st i \<and> (an_lrat st \<longrightarrow> knows db st \<and> chain_ok db st i)"

lemma finite_opened [simp]: "finite (opened_below st i)"
  by (simp add: opened_below_def)

lemma pos_eq:
  assumes "trail_ok st" "i < length (an_trail st)" "false_lit st m"
  shows "pos st m = i \<longleftrightarrow> m = - an_trail st ! i"
  using false_litD(6) [OF assms(1,3)] trail_nth(5) [OF assms(1,2)] by auto

lemma below_Suc:
  assumes "trail_ok st" "analysis_ok st" "i < length (an_trail st)"
  shows "opened_below st (Suc i) = (if - an_trail st ! i \<in> set (an_analyzed st) \<and> lev st (an_trail st ! i) = an_level st
      then insert (- an_trail st ! i) (opened_below st i) else opened_below st i)"
    "resolvent st (Suc i) = (if - an_trail st ! i \<in> set (an_analyzed st) then insert (- an_trail st ! i) (resolvent st i) else resolvent st i)"
proof -
  have f: "\<forall>m \<in> set (an_analyzed st). pos st m < Suc i \<longleftrightarrow> pos st m < i \<or> m = - an_trail st ! i"
    using pos_eq [OF assms(1,3)] assms(2) by (auto simp: analysis_ok_def seen_ok_def less_Suc_eq)
  define n where "n = - an_trail st ! i"
  have n: "lev st (an_trail st ! i) = lev st n" by (simp add: n_def)
  have "opened_below st (Suc i) = {m \<in> set (an_analyzed st). lev st m = an_level st \<and> (pos st m < i \<or> m = n)}"
    unfolding opened_below_def n_def using f by (intro Collect_cong) blast
  then show "opened_below st (Suc i) = (if - an_trail st ! i \<in> set (an_analyzed st) \<and> lev st (an_trail st ! i) = an_level st
      then insert (- an_trail st ! i) (opened_below st i) else opened_below st i)"
    unfolding n n_def [symmetric] by (auto simp: opened_below_def)
  have "resolvent st (Suc i) = {m \<in> set (an_analyzed st). lev st m < an_level st \<or> pos st m < i \<or> m = n}"
    unfolding resolvent_def n_def using f by (intro Collect_cong) blast
  then show "resolvent st (Suc i) = (if - an_trail st ! i \<in> set (an_analyzed st) then insert (- an_trail st ! i) (resolvent st i) else resolvent st i)"
    unfolding n_def [symmetric] by (auto simp: resolvent_def)
qed

lemma reason_known:
  assumes "trail_ok st" "reason_ok st l c" "l \<in> set (an_trail st)"
  shows "\<forall>m \<in> set c. level_known st m"
proof
  fix m assume "m \<in> set c"
  moreover have "false_lit st (- l)" using assms(3) by (simp add: false_lit_def)
  ultimately have "false_lit st m \<or> false_lit st (- m)" using assms(2) unfolding reason_ok_def by metis
  then show "level_known st m"
    using false_litD(2,7) [OF assms(1), of m] false_litD(2,7) [OF assms(1), of "- m"] assms(1)
    by (auto simp: level_known_def trail_ok_def)
qed

text \<open>One round of the loop: the reason of a seen literal of the current level is resolved in.\<close>

lemma resolve_round:
  assumes "uip_inv db st (Suc i)" "i < length (an_trail st)" "0 < an_level st"
  defines "l \<equiv> an_trail st ! i"
  assumes "lev st l = an_level st" "- l \<in> set (an_analyzed st)" "opened_below st i \<noteq> {}"
  shows "\<exists>a u. rsn st l = Some a \<and>
    analyze_reason os l a (int (card (opened_below st i)), st) = Ok (int (card (opened_below u i)), u) \<and>
    uip_inv db u i \<and> opened_below u i \<noteq> {} \<and> same st u \<and> same_mini st u"
proof -
  have ok: "trail_ok st" "analysis_ok st" "resolved st (Suc i)" using assms(1) by (simp_all add: uip_inv_def)
  have l: "l \<in> set (an_trail st)" "pos st l = i" "l \<noteq> 0" using assms(2) trail_nth [OF ok(1) assms(2)] by (simp_all add: l_def)
  obtain m where m: "m \<in> opened_below st i" using assms(7) by blast
  have "rsn st l \<noteq> None"
  proof
    assume none: "rsn st l = None"
    have "false_lit st m" using m ok(2) by (auto simp: opened_below_def analysis_ok_def seen_ok_def)
    then have "pos st l \<le> pos st (- m)"
      using m by (intro trail_decision [OF ok(1) l(1) assms(5) none]) (simp_all add: false_lit_def opened_below_def)
    then show False using m l(2) by (simp add: opened_below_def)
  qed
  then obtain a where a: "rsn st l = Some a" by blast
  obtain j c where c: "clause_data st a = Some (j, c)" "reason_ok st l c"
    using trail_reason [OF ok(1) l(1) _ a] assms(3,5) by auto
  have others: "\<forall>m \<in> set c. m \<noteq> l \<longrightarrow> false_lit st m \<and> (lev st m = an_level st \<longrightarrow> pos st m < i)"
    using c(2) l(2) by (simp add: reason_ok_def)
  obtain u where u: "analyze_reason os l a (int (card (opened_below st i)), st) = Ok (int (card (opened_below u i)), u)"
    "analyzed_more (chained j st) {m \<in> set c. m \<noteq> l} u"
    using analyze_reason_ok [OF ok(1,2) c(1) others reason_known [OF ok(1) c(2) l(1)]] by blast
  have s: "same st u" using u(2) same_trans [OF chained_same(1)] by (auto simp: analyzed_more_def)
  have an: "an_analyzed (chained j st) = an_analyzed st" "an_vtab (chained j st) = an_vtab st" by (simp_all add: chained_def)
  have A: "set (an_analyzed u) = set (an_analyzed st) \<union> {m \<in> set c. m \<noteq> l \<and> 0 < lev st m}"
    using u(2) an by (auto simp: analyzed_more_def)
  have R: "resolvent u i = resolvent st i \<union> {m \<in> set c. m \<noteq> l \<and> 0 < lev st m}" by (rule resolve_lits [OF ok(1) s A others])
  have S: "resolvent st (Suc i) = insert (- l) (resolvent st i)" using below_Suc(2) [OF ok(1,2) assms(2)] assms(6) by (simp add: l_def)
  have "resolved u i"
    by (rule resolve_sem [OF ok(1) s c(1) _ R]) (use others ok(3) S l(3) in \<open>auto simp: resolved_def\<close>)
  moreover have "chain_ok db u i" if "an_lrat st"
    by (rule resolve_chain [OF ok(1) _ that _ l(1,2) assms(5) c u(2) R]) (use assms(1) that S in \<open>auto simp: uip_inv_def\<close>)
  moreover have "trail_ok u" "analysis_ok u" "knows db u = knows db st" "an_lrat u = an_lrat st"
    using ok(1) trail_ok_same [OF s] u(2) same_resolved(2) [OF s] sameD(4) [OF s] by (simp_all add: analyzed_more_def)
  moreover have "m \<in> opened_below u i" using m A by (simp add: opened_below_def sameD [OF s])
  moreover have "same_mini st u" using u(2) by (auto simp: same_mini_def analyzed_more_def same_chains_def chained_same)
  ultimately show ?thesis using a u(1) s assms(1) by (auto simp: uip_inv_def)
qed

text \<open>The loop ends at the first unique implication point, with the resolvent as clause.\<close>

definition uip_found :: "(nat \<Rightarrow> lrat_clause option) \<Rightarrow> analysis \<Rightarrow> int \<Rightarrow> analysis \<Rightarrow> bool" where
  "uip_found db st uip u \<longleftrightarrow> same st u \<and> same_mini st u \<and> uip \<in> set (an_trail st) \<and> lev st uip = an_level st \<and>
     uip_inv db u (Suc (pos st uip)) \<and> resolvent u (Suc (pos st uip)) = insert (- uip) (set (an_clause u))"

lemma same_mini_trans: "same_mini st u \<Longrightarrow> same_mini u v \<Longrightarrow> same_mini st v"
  by (simp add: same_mini_def)

lemma uip_found_trans: "same st u \<Longrightarrow> same_mini st u \<Longrightarrow> uip_found db u l v \<Longrightarrow> uip_found db st l v"
  using same_trans same_mini_trans by (auto simp: uip_found_def sameD)

lemma uip_stop:
  assumes "uip_inv db st (Suc i)" "i < length (an_trail st)"
  defines "l \<equiv> an_trail st ! i"
  assumes "lev st l = an_level st" "- l \<in> set (an_analyzed st)" "opened_below st i = {}"
  shows "uip_found db st l st"
proof -
  have ok: "trail_ok st" "analysis_ok st" using assms(1) by (simp_all add: uip_inv_def)
  have l: "l \<in> set (an_trail st)" "pos st l = i" using assms(2) trail_nth [OF ok(1) assms(2)] by (simp_all add: l_def)
  have "lev st m \<le> an_level st" if "m \<in> set (an_analyzed st)" for m
    using that ok false_litD(7) [OF ok(1), of m] by (auto simp: analysis_ok_def seen_ok_def)
  then have "resolvent st i = set (an_clause st)"
    using assms(6) ok(2) by (fastforce simp: resolvent_def opened_below_def analysis_ok_def seen_ok_def)
  then have "resolvent st (Suc i) = insert (- l) (set (an_clause st))"
    using below_Suc(2) [OF ok assms(2)] assms(5) by (simp add: l_def)
  then show ?thesis using l assms(1,4) by (simp add: uip_found_def same_mini_def)
qed

lemma derive_uip_ok:
  assumes "uip_inv db st i" "i \<le> length (an_trail st)" "opened_below st i \<noteq> {}" "0 < an_level st"
  shows "\<exists>uip u. derive_uip os (rev (take i (an_trail st))) (int (card (opened_below st i)), st) = Ok (uip, u) \<and> uip_found db st uip u"
  using assms
proof (induction i arbitrary: st)
  case 0
  then show ?case by (simp add: opened_below_def)
next
  case (Suc i)
  have i: "i < length (an_trail st)" using Suc.prems(2) by simp
  have ok: "trail_ok st" "analysis_ok st" using Suc.prems(1) by (simp_all add: uip_inv_def)
  let ?l = "an_trail st ! i"
  have rev: "rev (take (Suc i) (an_trail st)) = ?l # rev (take i (an_trail st))" using i by (simp add: take_Suc_conv_app_nth)
  have f: "false_lit st (- ?l)" using i by (simp add: false_lit_def)
  have at: "flags ?l st = Ok (flg st ?l)" "var ?l st = Ok (an_vtab st ! nat \<bar>?l\<bar>)"
    using trail_nth [OF ok(1) i] by (simp_all add: flags_def var_def)
  have seen: "f_seen (flg st ?l) \<longleftrightarrow> - ?l \<in> set (an_analyzed st @ an_unit_analyzed st)" using seen_iff [OF ok f] by simp
  show ?case
  proof (cases "- ?l \<in> set (an_analyzed st) \<and> lev st ?l = an_level st")
    case False
    have "\<not> f_seen (flg st ?l) \<or> lev st ?l \<noteq> an_level st"
      using False seen ok(2) Suc.prems(4) by (auto simp: analysis_ok_def units_ok_def)
    then have run: "derive_uip os (rev (take (Suc i) (an_trail st))) (n, st) = derive_uip os (rev (take i (an_trail st))) (n, st)" for n
      unfolding rev by (simp add: at)
    have b: "opened_below st (Suc i) = opened_below st i" using below_Suc(1) [OF ok i] False by simp
    have "lev st (- ?l) < an_level st" if "- ?l \<in> set (an_analyzed st)"
      using that False trail_nth(6) [OF ok(1) i] by auto
    then have "resolvent st (Suc i) = resolvent st i"
      unfolding below_Suc(2) [OF ok i] by (auto simp: resolvent_def)
    then have "uip_inv db st i" using Suc.prems(1) chain_ok_down [of db st "Suc i" i] by (simp add: uip_inv_def resolved_def)
    then show ?thesis using Suc.IH [of st] Suc.prems(2-4) run b by simp
  next
    case True
    have b: "opened_below st (Suc i) = insert (- ?l) (opened_below st i)" using below_Suc(1) [OF ok i] True by simp
    have "pos st (- ?l) = i" using trail_nth(5) [OF ok(1) i] by simp
    then have card: "int (card (opened_below st (Suc i))) - 1 = int (card (opened_below st i))"
      unfolding b by (simp add: opened_below_def)
    have s: "f_seen (flg st ?l)" using seen True by simp
    show ?thesis
    proof (cases "opened_below st i = {}")
      case stop: True
      have "derive_uip os (rev (take (Suc i) (an_trail st))) (int (card (opened_below st (Suc i))), st) = Ok (?l, st)"
        unfolding rev using card stop s True by (simp add: at)
      then show ?thesis using uip_stop [OF Suc.prems(1) i] True stop by blast
    next
      case go: False
      obtain a u where u: "rsn st ?l = Some a"
        "analyze_reason os ?l a (int (card (opened_below st i)), st) = Ok (int (card (opened_below u i)), u)"
        "uip_inv db u i" "opened_below u i \<noteq> {}" "same st u" "same_mini st u"
        using resolve_round [OF Suc.prems(1) i Suc.prems(4)] True go by blast
      have "card (opened_below st i) \<noteq> 0" using go by simp
      then have "derive_uip os (rev (take (Suc i) (an_trail st))) (int (card (opened_below st (Suc i))), st) =
          derive_uip os (rev (take i (an_trail u))) (int (card (opened_below u i)), u)"
        unfolding rev using card s True u(1,2) by (simp add: at sameD [OF u(5)])
      moreover have "i \<le> length (an_trail u)" "0 < an_level u" using i Suc.prems(4) by (simp_all add: sameD [OF u(5)])
      then obtain uip v where "derive_uip os (rev (take i (an_trail u))) (int (card (opened_below u i)), u) = Ok (uip, v)"
        "uip_found db u uip v" using Suc.IH [OF u(3) _ u(4)] by blast
      ultimately show ?thesis using uip_found_trans [OF u(5,6)] by auto
    qed
  qed
qed

section \<open>From the conflict to the first unique implication point\<close>

definition fresh_state :: "analysis \<Rightarrow> bool" where
  "fresh_state st \<longleftrightarrow> an_clause st = [] \<and> an_analyzed st = [] \<and> an_unit_analyzed st = [] \<and> an_levels st = [] \<and> an_minimized st = [] \<and>
     an_lrat_chain st = [] \<and> an_unit_chain st = [] \<and> an_mini_chain st = [] \<and> an_minimize_chain st = [] \<and>
     (\<forall>f \<in> set (an_ftab st). \<not> f_seen f \<and> clean_flags f) \<and> (\<forall>l \<in> set (an_control st). l_seen_count l = 0)"

definition conflict_ok :: "analysis \<Rightarrow> nat \<Rightarrow> bool" where
  "conflict_ok st a \<longleftrightarrow> 0 < an_level st \<and>
     (\<exists>j c. clause_data st a = Some (j, c) \<and> (\<forall>m \<in> set c. false_lit st m) \<and> (\<exists>m \<in> set c. lev st m = an_level st))"

lemma fresh_ok: "fresh_state st \<Longrightarrow> analysis_ok st" "fresh_state st \<Longrightarrow> opened_below st i = {}" "fresh_state st \<Longrightarrow> resolvent st i = {}"
  by (auto simp: fresh_state_def analysis_ok_def seen_ok_def units_ok_def levels_ok_def opened_below_def resolvent_def)

lemma conflict_chain:
  assumes "trail_ok st" "knows db st" "an_lrat st" "an_lrat_chain st = []" "clause_data st a = Some (j, c)"
    "\<forall>m \<in> set c. false_lit st m" "c \<noteq> []" "analyzed_more (chained j st) {m \<in> set c. m \<noteq> 0} u"
    "resolvent u i = resolvent st i \<union> {m \<in> set c. m \<noteq> 0 \<and> 0 < lev st m}"
  shows "chain_ok db u i"
proof -
  have u: "same st u" "an_lrat_chain u = [j]"
    using assms(3,4,8) same_trans [OF chained_same(1)] by (auto simp: analyzed_more_def same_chains_def chained_def)
  obtain d where d: "db j = Some d" "set (literals d) = set c" "\<not> tautological d" using assms(2,5) unfolding knows_def by blast
  have nz: "m \<noteq> 0" if "m \<in> set c" for m using assms(6) that false_litD(1) [OF assms(1)] by blast
  have "rup db [j] used T" if "j \<notin> used" "uminus ` (resolvent u i \<union> set (an_unit_analyzed u)) \<subseteq> T" for used T
  proof -
    have "- m \<in> T" if "m \<in> set c" for m
      using more_false [OF assms(8,3,9) that nz [OF that]] \<open>uminus ` _ \<subseteq> T\<close> by blast
    then have "{m \<in> set (literals d). - m \<notin> T} = {}" using d(2) by blast
    then show ?thesis using d \<open>j \<notin> used\<close> by (simp add: Let_def)
  qed
  moreover have "\<exists>d. db j = Some d \<and> (\<forall>m \<in> set (literals d). m \<in> set (an_trail u) \<longrightarrow> i \<le> pos u m \<and> lev u m = an_level u) \<and>
      \<not> set (literals d) \<subseteq> set (an_trail u)"
  proof (intro exI conjI)
    show "db j = Some d" by (rule d(1))
    have no: "m \<notin> set (an_trail u)" if "m \<in> set (literals d)" for m
      using that d(2) assms(6) false_in [OF assms(1)] sameD(2) [OF u(1)] by auto
    then show "\<forall>m \<in> set (literals d). m \<in> set (an_trail u) \<longrightarrow> i \<le> pos u m \<and> lev u m = an_level u" by blast
    have "set (literals d) \<noteq> {}" using d(2) assms(7) by simp
    then obtain m where "m \<in> set (literals d)" by fastforce
    then show "\<not> set (literals d) \<subseteq> set (an_trail u)" using no by blast
  qed
  ultimately show ?thesis by (simp add: chain_ok_def u(2))
qed

lemma analyze_conflict:
  assumes "trail_ok st" "fresh_state st" "conflict_ok st a" "an_lrat st \<longrightarrow> knows db st"
  shows "\<exists>u. analyze_reason os 0 a (0, st) = Ok (int (card (opened_below u (length (an_trail st)))), u) \<and>
    uip_inv db u (length (an_trail st)) \<and> opened_below u (length (an_trail st)) \<noteq> {} \<and> same st u \<and> same_mini st u"
proof -
  let ?i = "length (an_trail st)"
  obtain j c m where c: "clause_data st a = Some (j, c)" "\<forall>m \<in> set c. false_lit st m" "m \<in> set c" "lev st m = an_level st" "0 < an_level st"
    using assms(3) by (auto simp: conflict_ok_def)
  have nz: "m \<noteq> 0" if "m \<in> set c" for m using c(2) that false_litD(1) [OF assms(1)] by blast
  have others: "\<forall>m \<in> set c. m \<noteq> 0 \<longrightarrow> false_lit st m \<and> (lev st m = an_level st \<longrightarrow> pos st m < ?i)"
    using c(2) false_litD(5) [OF assms(1)] by blast
  have known: "\<forall>m \<in> set c. level_known st m"
  proof
    fix m assume "m \<in> set c"
    then have "nat \<bar>m\<bar> < length (an_vtab st)" "lev st m \<le> an_level st" using c(2) false_litD(2,7) [OF assms(1), of m] by blast+
    then show "level_known st m" using assms(1) by (simp add: level_known_def trail_ok_def)
  qed
  obtain u where u: "analyze_reason os 0 a (0, st) = Ok (int (card (opened_below u ?i)), u)" "analyzed_more (chained j st) {m \<in> set c. m \<noteq> 0} u"
    using analyze_reason_ok [OF assms(1) fresh_ok(1) [OF assms(2)] c(1) others known, of os] fresh_ok(2) [OF assms(2)] by auto
  have s: "same st u" using u(2) same_trans [OF chained_same(1)] by (auto simp: analyzed_more_def)
  have an: "an_analyzed (chained j st) = an_analyzed st" "an_vtab (chained j st) = an_vtab st" by (simp_all add: chained_def)
  have A: "set (an_analyzed u) = set (an_analyzed st) \<union> {m \<in> set c. m \<noteq> 0 \<and> 0 < lev st m}"
    using u(2) an by (auto simp: analyzed_more_def)
  have R: "resolvent u ?i = resolvent st ?i \<union> {m \<in> set c. m \<noteq> 0 \<and> 0 < lev st m}" by (rule resolve_lits [OF assms(1) s A others])
  have "resolved u ?i"
    by (rule resolve_sem [OF assms(1) s c(1) _ R]) (use c(2) nz in blast)+
  moreover have "chain_ok db u ?i" if "an_lrat st"
    by (rule conflict_chain [OF assms(1) _ that _ c(1,2) _ u(2) R]) (use assms(2,4) that c(3) in \<open>auto simp: fresh_state_def\<close>)
  moreover have "trail_ok u" "analysis_ok u" "knows db u = knows db st" "an_lrat u = an_lrat st"
    using assms(1) trail_ok_same [OF s] u(2) same_resolved(2) [OF s] sameD(4) [OF s] by (simp_all add: analyzed_more_def)
  moreover have "m \<in> opened_below u ?i"
    using c(3-5) A nz [OF c(3)] others by (simp add: opened_below_def sameD [OF s])
  moreover have "same_mini st u" using u(2) by (auto simp: same_mini_def analyzed_more_def same_chains_def chained_same)
  ultimately show ?thesis using u(1) s assms(4) by (auto simp: uip_inv_def)
qed

lemma first_uip_ok:
  assumes "trail_ok st" "fresh_state st" "conflict_ok st a" "an_lrat st \<longrightarrow> knows db st"
  shows "\<exists>uip u. first_uip os a st = Ok (uip, u\<lparr>an_clause := an_clause u @ [- uip]\<rparr>) \<and> uip_found db st uip u"
proof -
  let ?i = "length (an_trail st)"
  obtain u where u: "analyze_reason os 0 a (0, st) = Ok (int (card (opened_below u ?i)), u)" "uip_inv db u ?i" "opened_below u ?i \<noteq> {}"
    "same st u" "same_mini st u" using analyze_conflict [OF assms] by blast
  have t: "rev (an_trail u) = rev (take ?i (an_trail u))" "?i \<le> length (an_trail u)" by (simp_all add: sameD [OF u(4)])
  have "0 < an_level u" using assms(3) by (simp add: conflict_ok_def sameD [OF u(4)])
  then obtain uip v where v: "derive_uip os (rev (an_trail u)) (int (card (opened_below u ?i)), u) = Ok (uip, v)" "uip_found db u uip v"
    using derive_uip_ok [OF u(2) t(2) u(3)] unfolding t(1) by blast
  then show ?thesis using u(1) uip_found_trans [OF u(4,5)] by (auto simp: first_uip_def)
qed
end
