(* ===== verification/Conflict_Minimize.thy ===== *)
theory Conflict_Minimize
  imports Conflict_Uip
begin

text \<open>
  Minimizing the learned clause: a literal is removed only if it follows from the negation of those that are kept, and the
  identifiers \<open>calculate_minimize_chain\<close> collects derive it by unit propagation.
\<close>

section \<open>Removable literals\<close>

text \<open>A literal that is implied, for the flags: of the root level, removable or kept.\<close>

definition justified :: "analysis \<Rightarrow> int \<Rightarrow> bool" where
  "justified s m \<longleftrightarrow> lev s m = 0 \<or> f_removable (flg s m) \<or> f_keep (flg s m)"

definition removable_ok :: "analysis \<Rightarrow> int \<Rightarrow> bool" where
  "removable_ok s p \<longleftrightarrow> 0 < lev s p \<and> lev s p < an_level s \<and>
     (\<exists>a j c. rsn s p = Some a \<and> clause_data s a = Some (j, c) \<and> (\<forall>m \<in> set c. m \<noteq> p \<longrightarrow> justified s m))"

definition mini_ok :: "analysis \<Rightarrow> bool" where
  "mini_ok s \<longleftrightarrow> trail_ok s \<and> (\<forall>p \<in> set (an_trail s). f_removable (flg s p) \<longrightarrow> removable_ok s p) \<and>
     set (an_minimized s) \<subseteq> set (an_trail s) \<and>
     (\<forall>v < length (an_ftab s). f_removable (an_ftab s ! v) \<or> f_poison (an_ftab s ! v) \<longrightarrow> (\<exists>l \<in> set (an_minimized s). nat \<bar>l\<bar> = v))"

text \<open>\<open>minimize_literal\<close> changes these flags and the list of the literals it has settled only.\<close>

definition mgrow :: "analysis \<Rightarrow> analysis \<Rightarrow> bool" where
  "mgrow s u \<longleftrightarrow> (\<exists>fs ms. u = s\<lparr>an_ftab := fs, an_minimized := ms\<rparr> \<and> length fs = length (an_ftab s) \<and>
     (\<forall>v < length fs. f_seen (fs ! v) = f_seen (an_ftab s ! v) \<and> f_keep (fs ! v) = f_keep (an_ftab s ! v) \<and>
        f_added (fs ! v) = f_added (an_ftab s ! v) \<and> (f_removable (an_ftab s ! v) \<longrightarrow> f_removable (fs ! v))))"

lemma mgrow_refl [simp]: "mgrow s s"
proof -
  have "s = s\<lparr>an_ftab := an_ftab s, an_minimized := an_minimized s\<rparr>" by simp
  then show ?thesis unfolding mgrow_def by blast
qed

lemma mgrow_trans:
  assumes "mgrow s u" "mgrow u w"
  shows "mgrow s w"
proof -
  obtain fs ms where u: "u = s\<lparr>an_ftab := fs, an_minimized := ms\<rparr>" "length fs = length (an_ftab s)"
    "\<forall>v < length fs. f_seen (fs ! v) = f_seen (an_ftab s ! v) \<and> f_keep (fs ! v) = f_keep (an_ftab s ! v) \<and>
        f_added (fs ! v) = f_added (an_ftab s ! v) \<and> (f_removable (an_ftab s ! v) \<longrightarrow> f_removable (fs ! v))"
    using assms(1) unfolding mgrow_def by blast
  obtain gs ns where w: "w = u\<lparr>an_ftab := gs, an_minimized := ns\<rparr>" "length gs = length (an_ftab u)"
    "\<forall>v < length gs. f_seen (gs ! v) = f_seen (an_ftab u ! v) \<and> f_keep (gs ! v) = f_keep (an_ftab u ! v) \<and>
        f_added (gs ! v) = f_added (an_ftab u ! v) \<and> (f_removable (an_ftab u ! v) \<longrightarrow> f_removable (gs ! v))"
    using assms(2) unfolding mgrow_def by blast
  show ?thesis unfolding mgrow_def
    by (rule exI [of _ gs], rule exI [of _ ns]) (use u w in simp)
qed

lemma mgrow_same: "mgrow s u \<Longrightarrow> same s u"
  by (auto simp: mgrow_def same_def clause_data_def fun_eq_iff)

lemma mgrow_justified:
  assumes "mgrow s u" "justified s m" "nat \<bar>m\<bar> < length (an_ftab s)"
  shows "justified u m"
  using assms by (auto simp: mgrow_def justified_def)

lemma true_known:
  assumes "trail_ok s" "p \<in> set (an_trail s)"
  shows "nat \<bar>p\<bar> < length (an_ftab s)" "nat \<bar>p\<bar> < length (an_vtab s)" "lev s p < length (an_control s)" "p \<noteq> 0"
    "vlit p < length (an_units s)" "lev s p \<le> an_level s"
proof -
  have f: "false_lit s (- p)" using assms(2) by (simp add: false_lit_def)
  show "nat \<bar>p\<bar> < length (an_ftab s)" "nat \<bar>p\<bar> < length (an_vtab s)" "p \<noteq> 0" "vlit p < length (an_units s)" "lev s p \<le> an_level s"
    using false_litD [OF assms(1) f] by simp_all
  then show "lev s p < length (an_control s)" using assms(1) by (simp add: trail_ok_def)
qed

lemma settle_ok:
  assumes "mini_ok s" "p \<in> set (an_trail s)" "r \<longrightarrow> removable_ok s p"
  shows "\<exists>u. settle_minimize p (r, s) = Ok (r, u) \<and> mgrow s u \<and> mini_ok u \<and> (r \<longrightarrow> justified u p)"
proof -
  have t: "trail_ok s" using assms(1) by (simp add: mini_ok_def)
  note P = true_known [OF t assms(2)]
  define g :: "Flags \<Rightarrow> Flags" where "g = (if r then f_removable_update (\<lambda>_. True) else f_poison_update (\<lambda>_. True))"
  define fs where "fs = (an_ftab s)[nat \<bar>p\<bar> := g (flg s p)]"
  define u where "u = s\<lparr>an_ftab := fs, an_minimized := an_minimized s @ [p]\<rparr>"
  have run: "settle_minimize p (r, s) = Ok (r, u)"
    using P(1) by (simp add: settle_minimize_def put_flags_ok u_def fs_def g_def)
  have fs: "length fs = length (an_ftab s)"
    "\<forall>v < length fs. f_seen (fs ! v) = f_seen (an_ftab s ! v) \<and> f_keep (fs ! v) = f_keep (an_ftab s ! v) \<and>
       f_added (fs ! v) = f_added (an_ftab s ! v) \<and> (f_removable (an_ftab s ! v) \<longrightarrow> f_removable (fs ! v))"
    using P(1) by (auto simp: fs_def g_def nth_list_update)
  have m: "mgrow s u" unfolding mgrow_def u_def using fs by blast
  have s: "same s u" by (rule mgrow_same [OF m])
  have rm: "f_removable (flg u q) \<longrightarrow> f_removable (flg s q) \<or> r \<and> q = p" if "q \<in> set (an_trail s)" for q
  proof -
    have "nat \<bar>q\<bar> = nat \<bar>p\<bar> \<Longrightarrow> q = p"
      using false_unique [OF t, of "- q" "- p"] that assms(2) by (simp add: false_lit_def)
    then show ?thesis using P(1) by (auto simp: u_def fs_def g_def nth_list_update)
  qed
  have "removable_ok u q" if q: "q \<in> set (an_trail u)" "f_removable (flg u q)" for q
  proof -
    have q': "q \<in> set (an_trail s)" using q(1) by (simp add: u_def)
    have r: "removable_ok s q" using rm [OF q'] q(2) assms(1,3) q' by (auto simp: mini_ok_def)
    then obtain a j c where c: "rsn s q = Some a" "clause_data s a = Some (j, c)" "\<forall>m \<in> set c. m \<noteq> q \<longrightarrow> justified s m" "0 < lev s q"
      by (auto simp: removable_ok_def)
    have "reason_ok s q c" using trail_reason [OF t q' c(4,1)] c(2) by auto
    then have "\<forall>m \<in> set c. m \<noteq> q \<longrightarrow> nat \<bar>m\<bar> < length (an_ftab s)" using false_litD(3) [OF t] by (auto simp: reason_ok_def)
    then have "\<forall>m \<in> set c. m \<noteq> q \<longrightarrow> justified u m" using c(3) mgrow_justified [OF m] by blast
    then show ?thesis using r c(1,2) by (auto simp: removable_ok_def sameD [OF s])
  qed
  moreover have "\<forall>v < length (an_ftab u). f_removable (an_ftab u ! v) \<or> f_poison (an_ftab u ! v) \<longrightarrow> (\<exists>l \<in> set (an_minimized u). nat \<bar>l\<bar> = v)"
    using assms(1) P(1) by (auto simp: mini_ok_def u_def fs_def nth_list_update)
  ultimately have "mini_ok u" using assms(1,2) trail_ok_same [OF s] by (simp add: mini_ok_def) (simp add: u_def)
  then show ?thesis using run m P(1) by (auto simp: justified_def u_def fs_def g_def)
qed

lemma justified_neg [simp]: "justified s (- m) = justified s m"
  by (simp add: justified_def)

declare minimize_literal.simps [simp del]

lemma minimize_literal_stop:
  assumes "mini_ok s" "p \<in> set (an_trail s)"
  shows "minimize_literal k depth p s = Ok (justified s p, s) \<or>
    minimize_literal k depth p s = Ok (False, s) \<or>
    (\<exists>n a i c. k = Suc n \<and> rsn s p = Some a \<and> clause_data s a = Some (i, c) \<and> reason_ok s p c \<and> 0 < lev s p \<and> lev s p < an_level s \<and>
       minimize_literal k depth p s = rbind (minimize_loop n (Suc depth) p c s) (settle_minimize p))"
proof -
  have t: "trail_ok s" using assms(1) by (simp add: mini_ok_def)
  note P = true_known [OF t assms(2)]
  have at: "flags p s = Ok (flg s p)" "var p s = Ok (an_vtab s ! nat \<bar>p\<bar>)" "vec_at (an_control s) (lev s p) = Ok (an_control s ! lev s p)"
    using P by (simp_all add: flags_def var_def)
  show ?thesis
  proof (cases "justified s p \<or> rsn s p = None \<or> f_poison (flg s p) \<or> lev s p = an_level s \<or>
      depth = 0 \<and> l_seen_count (an_control s ! lev s p) < 2 \<or> pos s p \<le> l_seen_trail (an_control s ! lev s p) \<or> k = 0")
    case True
    then show ?thesis
      using assms(1) by (auto simp: minimize_literal.simps at justified_def split: option.splits nat.splits)
  next
    case False
    then obtain n a where n: "k = Suc n" "rsn s p = Some a" by (cases k) auto
    have l: "0 < lev s p" "lev s p < an_level s" using False P(6) by (auto simp: justified_def)
    obtain i c where c: "clause_data s a = Some (i, c)" "reason_ok s p c" using trail_reason [OF t assms(2) l(1) n(2)] by blast
    then obtain d where "clause_ref a s = Ok d" "cl_literals d = c" by (auto simp: clause_ref_def clause_data_def)
    then have "minimize_literal k depth p s = rbind (minimize_loop n (Suc depth) p c s) (settle_minimize p)"
      using False n by (auto simp: minimize_literal.simps at justified_def)
    then show ?thesis using n l c by blast
  qed
qed

lemma minimize_loop_ok:
  assumes "\<And>q s. mini_ok s \<Longrightarrow> q \<in> set (an_trail s) \<Longrightarrow>
      \<exists>r u. minimize_literal k depth q s = Ok (r, u) \<and> mgrow s u \<and> mini_ok u \<and> (r \<longrightarrow> justified u q)"
    "mini_ok s" "\<forall>m \<in> set ms. m \<noteq> p \<longrightarrow> false_lit s m"
  shows "\<exists>r u. minimize_loop k depth p ms s = Ok (r, u) \<and> mgrow s u \<and> mini_ok u \<and> (r \<longrightarrow> (\<forall>m \<in> set ms. m \<noteq> p \<longrightarrow> justified u m))"
  using assms(2,3)
proof (induction ms arbitrary: s)
  case Nil
  then show ?case by auto
next
  case (Cons m ms)
  show ?case
  proof (cases "m = p")
    case True
    then show ?thesis using Cons by simp
  next
    case False
    then have f: "false_lit s m" using Cons.prems(2) by simp
    then obtain r u where u: "minimize_literal k depth (- m) s = Ok (r, u)" "mgrow s u" "mini_ok u" "r \<longrightarrow> justified u m"
      using assms(1) [OF Cons.prems(1), of "- m"] by (auto simp: false_lit_def)
    show ?thesis
    proof (cases r)
      case True
      have "\<forall>m \<in> set ms. m \<noteq> p \<longrightarrow> false_lit u m"
        using Cons.prems(2) false_lit_same [OF mgrow_same [OF u(2)]] by simp
      then obtain r' w where w: "minimize_loop k depth p ms u = Ok (r', w)" "mgrow u w" "mini_ok w"
        "r' \<longrightarrow> (\<forall>m \<in> set ms. m \<noteq> p \<longrightarrow> justified w m)" using Cons.IH [OF u(3)] by blast
      have "trail_ok u" "false_lit u m" using u(2,3) f false_lit_same [OF mgrow_same [OF u(2)]] by (simp_all add: mini_ok_def)
      then have "justified w m" using mgrow_justified [OF w(2)] u(4) True false_litD(3) by blast
      then show ?thesis using False u(1) w True mgrow_trans [OF u(2) w(2)] by auto
    qed (use False u in auto)
  qed
qed

lemma minimize_literal_ok:
  assumes "mini_ok s" "p \<in> set (an_trail s)"
  shows "\<exists>r u. minimize_literal k depth p s = Ok (r, u) \<and> mgrow s u \<and> mini_ok u \<and> (r \<longrightarrow> justified u p)"
  using assms
proof (induction k arbitrary: depth p s)
  case 0
  then show ?case using minimize_literal_stop [OF 0, of 0 depth] by auto
next
  case (Suc n)
  consider "minimize_literal (Suc n) depth p s = Ok (justified s p, s)" | "minimize_literal (Suc n) depth p s = Ok (False, s)" |
    a i c where "rsn s p = Some a" "clause_data s a = Some (i, c)" "reason_ok s p c" "0 < lev s p" "lev s p < an_level s"
       "minimize_literal (Suc n) depth p s = rbind (minimize_loop n (Suc depth) p c s) (settle_minimize p)"
    using minimize_literal_stop [OF Suc.prems, of "Suc n" depth] by blast
  then show ?case
  proof cases
    case 3
    have "\<forall>m \<in> set c. m \<noteq> p \<longrightarrow> false_lit s m" using 3(3) by (simp add: reason_ok_def)
    then obtain r u where u: "minimize_loop n (Suc depth) p c s = Ok (r, u)" "mgrow s u" "mini_ok u"
        "r \<longrightarrow> (\<forall>m \<in> set c. m \<noteq> p \<longrightarrow> justified u m)"
      using minimize_loop_ok [OF Suc.IH Suc.prems(1)] by blast
    have s: "same s u" by (rule mgrow_same [OF u(2)])
    have "r \<longrightarrow> removable_ok u p" using 3(1,2,4,5) u(4) by (auto simp: removable_ok_def sameD [OF s])
    then obtain w where "settle_minimize p (r, u) = Ok (r, w)" "mgrow u w" "mini_ok w" "r \<longrightarrow> justified w p"
      using settle_ok [OF u(3), of p r] Suc.prems(2) by (auto simp: sameD [OF s])
    then show ?thesis using 3(6) u(1) mgrow_trans [OF u(2)] by auto
  qed (use Suc.prems in auto)
qed

section \<open>The chain of a removed literal\<close>

text \<open>
  \<open>us\<close> are the root literals whose units are in the chain, \<open>P\<close> the literals whose reasons are being visited: they are
  marked as added, but their reasons are not in the chain yet.
\<close>

definition roots_ok :: "analysis \<Rightarrow> int list \<Rightarrow> bool" where
  "roots_ok s us \<longleftrightarrow> distinct us \<and> (\<forall>l \<in> set us. l \<in> set (an_trail s) \<and> lev s l = 0) \<and>
     an_unit_chain s = map (\<lambda>l. an_units s ! vlit l) us \<and> (\<forall>l \<in> set (an_trail s). lev s l = 0 \<longrightarrow> (f_seen (flg s l) \<longleftrightarrow> l \<in> set us))"

definition kept_true :: "analysis \<Rightarrow> int set" where
  "kept_true s = {p \<in> set (an_trail s). f_keep (flg s p)}"

definition added_done :: "analysis \<Rightarrow> int set \<Rightarrow> int set" where
  "added_done s P = {p \<in> set (an_trail s). f_added (flg s p)} - P"

definition derives :: "(nat \<Rightarrow> lrat_clause option) \<Rightarrow> nat list \<Rightarrow> nat set \<Rightarrow> int set \<Rightarrow> int set \<Rightarrow> bool" where
  "derives db ids used T S \<longleftrightarrow> (\<forall>rest. rup db rest (used \<union> set ids) (T \<union> S) \<longrightarrow> rup db (ids @ rest) used T)"

definition ids_ok :: "(nat \<Rightarrow> lrat_clause option) \<Rightarrow> analysis \<Rightarrow> nat list \<Rightarrow> int set \<Rightarrow> bool" where
  "ids_ok db s ids D \<longleftrightarrow> (\<forall>j \<in> set ids. \<exists>d. db j = Some d \<and> (\<forall>m \<in> set (literals d). m \<in> set (an_trail s) \<longrightarrow> m \<in> D) \<and>
     (\<exists>m \<in> set (literals d). m \<in> set (an_trail s)) \<and> \<not> set (literals d) \<subseteq> set (an_trail s))"

definition mini_ids :: "analysis \<Rightarrow> nat list" where
  "mini_ids s = an_minimize_chain s @ an_mini_chain s"

definition mini_chain_ok :: "(nat \<Rightarrow> lrat_clause option) \<Rightarrow> analysis \<Rightarrow> int list \<Rightarrow> int set \<Rightarrow> bool" where
  "mini_chain_ok db s us P \<longleftrightarrow> ids_ok db s (mini_ids s) (added_done s P) \<and>
     (\<forall>used T. kept_true s \<union> set us \<subseteq> T \<longrightarrow> T \<subseteq> set (an_trail s) \<longrightarrow> used \<inter> set (mini_ids s) = {} \<longrightarrow>
        derives db (mini_ids s) used T (added_done s P)) \<and>
     (\<forall>p \<in> set (an_trail s). f_added (flg s p) \<longrightarrow> f_removable (flg s p))"

lemma mini_chain_derives:
  "mini_chain_ok db s us P \<Longrightarrow> kept_true s \<union> set us \<subseteq> T \<Longrightarrow> T \<subseteq> set (an_trail s) \<Longrightarrow> used \<inter> set (mini_ids s) = {} \<Longrightarrow>
   derives db (mini_ids s) used T (added_done s P)"
  by (simp add: mini_chain_ok_def)

definition calc_inv :: "(nat \<Rightarrow> lrat_clause option) \<Rightarrow> analysis \<Rightarrow> int list \<Rightarrow> int set \<Rightarrow> bool" where
  "calc_inv db s us P \<longleftrightarrow> mini_ok s \<and> roots_ok s us \<and> mini_chain_ok db s us P \<and> knows db s"

text \<open>What \<open>calculate_minimize_chain\<close> changes.\<close>

definition cgrow :: "analysis \<Rightarrow> analysis \<Rightarrow> bool" where
  "cgrow s u \<longleftrightarrow> (\<exists>fs as us ms. u = s\<lparr>an_ftab := fs, an_analyzed := an_analyzed s @ as, an_unit_chain := us, an_mini_chain := ms\<rparr> \<and>
     set as \<subseteq> set (an_trail s) \<and> length fs = length (an_ftab s) \<and>
     (\<forall>v < length fs. f_keep (fs ! v) = f_keep (an_ftab s ! v) \<and> f_poison (fs ! v) = f_poison (an_ftab s ! v) \<and>
        f_removable (fs ! v) = f_removable (an_ftab s ! v) \<and> (f_added (an_ftab s ! v) \<longrightarrow> f_added (fs ! v)) \<and> (f_added (fs ! v) \<longrightarrow> f_added (an_ftab s ! v) \<or> f_removable (an_ftab s ! v)) \<and>
        (f_seen (fs ! v) \<longleftrightarrow> f_seen (an_ftab s ! v) \<or> (\<exists>l \<in> set as. nat \<bar>l\<bar> = v))))"

definition reached :: "analysis \<Rightarrow> int list \<Rightarrow> int set \<Rightarrow> int \<Rightarrow> bool" where
  "reached s us P p \<longleftrightarrow> lev s p = 0 \<and> p \<in> set us \<or> f_keep (flg s p) \<or> f_added (flg s p) \<and> p \<notin> P"

lemma cgrow_intro:
  assumes "u = s\<lparr>an_ftab := fs, an_analyzed := an_analyzed s @ as, an_unit_chain := us, an_mini_chain := ms\<rparr>"
    "set as \<subseteq> set (an_trail s)" "length fs = length (an_ftab s)"
    "\<And>v. v < length fs \<Longrightarrow> f_keep (fs ! v) = f_keep (an_ftab s ! v) \<and> f_poison (fs ! v) = f_poison (an_ftab s ! v) \<and>
        f_removable (fs ! v) = f_removable (an_ftab s ! v) \<and> (f_added (an_ftab s ! v) \<longrightarrow> f_added (fs ! v)) \<and> (f_added (fs ! v) \<longrightarrow> f_added (an_ftab s ! v) \<or> f_removable (an_ftab s ! v)) \<and>
        (f_seen (fs ! v) \<longleftrightarrow> f_seen (an_ftab s ! v) \<or> (\<exists>l \<in> set as. nat \<bar>l\<bar> = v))"
  shows "cgrow s u"
  unfolding cgrow_def using assms by blast

lemma cgrow_refl [simp]: "cgrow s s"
proof (rule cgrow_intro)
  show "s = s\<lparr>an_ftab := an_ftab s, an_analyzed := an_analyzed s @ [], an_unit_chain := an_unit_chain s, an_mini_chain := an_mini_chain s\<rparr>" by simp
qed simp_all

lemma cgrow_trans:
  assumes "cgrow s u" "cgrow u w"
  shows "cgrow s w"
proof -
  obtain fs as us ms where u: "u = s\<lparr>an_ftab := fs, an_analyzed := an_analyzed s @ as, an_unit_chain := us, an_mini_chain := ms\<rparr>"
    "set as \<subseteq> set (an_trail s)" "length fs = length (an_ftab s)"
    "\<And>v. v < length fs \<Longrightarrow> f_keep (fs ! v) = f_keep (an_ftab s ! v) \<and> f_poison (fs ! v) = f_poison (an_ftab s ! v) \<and>
        f_removable (fs ! v) = f_removable (an_ftab s ! v) \<and> (f_added (an_ftab s ! v) \<longrightarrow> f_added (fs ! v)) \<and> (f_added (fs ! v) \<longrightarrow> f_added (an_ftab s ! v) \<or> f_removable (an_ftab s ! v)) \<and>
        (f_seen (fs ! v) \<longleftrightarrow> f_seen (an_ftab s ! v) \<or> (\<exists>l \<in> set as. nat \<bar>l\<bar> = v))"
    using assms(1) unfolding cgrow_def by blast
  obtain gs bs vs ns where w: "w = u\<lparr>an_ftab := gs, an_analyzed := an_analyzed u @ bs, an_unit_chain := vs, an_mini_chain := ns\<rparr>"
    "set bs \<subseteq> set (an_trail u)" "length gs = length (an_ftab u)"
    "\<And>v. v < length gs \<Longrightarrow> f_keep (gs ! v) = f_keep (an_ftab u ! v) \<and> f_poison (gs ! v) = f_poison (an_ftab u ! v) \<and>
        f_removable (gs ! v) = f_removable (an_ftab u ! v) \<and> (f_added (an_ftab u ! v) \<longrightarrow> f_added (gs ! v)) \<and> (f_added (gs ! v) \<longrightarrow> f_added (an_ftab u ! v) \<or> f_removable (an_ftab u ! v)) \<and>
        (f_seen (gs ! v) \<longleftrightarrow> f_seen (an_ftab u ! v) \<or> (\<exists>l \<in> set bs. nat \<bar>l\<bar> = v))"
    using assms(2) unfolding cgrow_def by blast
  show ?thesis
  proof (rule cgrow_intro)
    show "w = s\<lparr>an_ftab := gs, an_analyzed := an_analyzed s @ (as @ bs), an_unit_chain := vs, an_mini_chain := ns\<rparr>"
      using u(1) w(1) by simp
    show "set (as @ bs) \<subseteq> set (an_trail s)" "length gs = length (an_ftab s)" using u w by auto
    fix v assume v: "v < length gs"
    have e: "an_ftab u = fs" "length gs = length fs" using u(1) w(3) by simp_all
    show "f_keep (gs ! v) = f_keep (an_ftab s ! v) \<and> f_poison (gs ! v) = f_poison (an_ftab s ! v) \<and>
        f_removable (gs ! v) = f_removable (an_ftab s ! v) \<and> (f_added (an_ftab s ! v) \<longrightarrow> f_added (gs ! v)) \<and> (f_added (gs ! v) \<longrightarrow> f_added (an_ftab s ! v) \<or> f_removable (an_ftab s ! v)) \<and>
        (f_seen (gs ! v) \<longleftrightarrow> f_seen (an_ftab s ! v) \<or> (\<exists>l \<in> set (as @ bs). nat \<bar>l\<bar> = v))"
      using u(4) [of v] w(4) [OF v] v unfolding e set_append bex_Un by blast
  qed
qed

lemma cgrow_same: "cgrow s u \<Longrightarrow> same s u"
  by (auto simp: cgrow_def same_def clause_data_def fun_eq_iff)

lemma cgrow_flags:
  assumes "cgrow s u" "nat \<bar>m\<bar> < length (an_ftab s)"
  shows "f_keep (flg u m) = f_keep (flg s m)" "f_removable (flg u m) = f_removable (flg s m)" "f_added (flg s m) \<Longrightarrow> f_added (flg u m)"
  using assms by (auto simp: cgrow_def)

lemma cgrow_mini_ok:
  assumes "mini_ok s" "cgrow s u"
  shows "mini_ok u"
proof -
  have s: "same s u" by (rule cgrow_same [OF assms(2)])
  have t: "trail_ok s" using assms(1) by (simp add: mini_ok_def)
  have j: "justified u m = justified s m" if "nat \<bar>m\<bar> < length (an_ftab s)" for m
    using cgrow_flags [OF assms(2) that] by (simp add: justified_def sameD [OF s])
  have "removable_ok u p" if p: "p \<in> set (an_trail s)" "f_removable (flg u p)" for p
  proof -
    have "removable_ok s p" using p assms(1) cgrow_flags(2) [OF assms(2) true_known(1) [OF t p(1)]] by (auto simp: mini_ok_def)
    then obtain a i c where c: "0 < lev s p" "lev s p < an_level s" "rsn s p = Some a" "clause_data s a = Some (i, c)"
      "\<forall>m \<in> set c. m \<noteq> p \<longrightarrow> justified s m" by (auto simp: removable_ok_def)
    have "reason_ok s p c" using trail_reason [OF t p(1) c(1,3)] c(4) by auto
    then have "\<forall>m \<in> set c. m \<noteq> p \<longrightarrow> justified u m" using c(5) j false_litD(3) [OF t] by (auto simp: reason_ok_def)
    then show ?thesis using c(1-4) by (auto simp: removable_ok_def sameD [OF s])
  qed
  moreover have "an_minimized u = an_minimized s" using assms(2) by (auto simp: cgrow_def)
  moreover have "\<exists>l \<in> set (an_minimized s). nat \<bar>l\<bar> = v"
    if "v < length (an_ftab s)" "f_removable (an_ftab u ! v) \<or> f_poison (an_ftab u ! v)" for v
  proof -
    have "f_removable (an_ftab s ! v) \<or> f_poison (an_ftab s ! v)" using assms(2) that by (auto simp: cgrow_def)
    then show ?thesis using assms(1) that(1) unfolding mini_ok_def by blast
  qed
  ultimately show ?thesis
    using assms(1) t trail_ok_same [OF s] by (simp add: mini_ok_def sameD [OF s])
qed

lemma mini_chain_more:
  assumes "mini_chain_ok db s us P" "set us \<subseteq> set vs" "an_vtab u = an_vtab s" "an_trail u = an_trail s" "mini_ids u = mini_ids s"
    "\<forall>p \<in> set (an_trail s). f_added (flg u p) = f_added (flg s p) \<and> f_removable (flg s p) \<le> f_removable (flg u p) \<and> f_keep (flg s p) \<le> f_keep (flg u p)"
  shows "mini_chain_ok db u vs P"
proof -
  have d: "added_done u P = added_done s P" using assms(4,6) by (auto simp: added_done_def)
  have k: "kept_true s \<subseteq> kept_true u" using assms(4,6) by (auto simp: kept_true_def)
  then have "kept_true s \<union> set us \<subseteq> T" if "kept_true u \<union> set vs \<subseteq> T" for T using assms(2) that by blast
  then show ?thesis
    using assms(1,4-6) d unfolding mini_chain_ok_def ids_ok_def by simp
qed

lemma added_unit_ok:
  assumes "calc_inv db s us P" "l \<in> set (an_trail s)" "lev s l = 0"
  shows "\<exists>u vs. added_unit l s = Ok u \<and> cgrow s u \<and> calc_inv db u vs P \<and> set us \<subseteq> set vs \<and> l \<in> set vs"
proof -
  have t: "trail_ok s" and I: "mini_ok s" "roots_ok s us" "mini_chain_ok db s us P" "knows db s"
    using assms(1) by (simp_all add: calc_inv_def mini_ok_def)
  note P = true_known [OF t assms(2)]
  show ?thesis
  proof (cases "f_seen (flg s l)")
    case True
    then have "l \<in> set us" using I(2) assms(2,3) by (simp add: roots_ok_def)
    then show ?thesis using True P(1) assms(1) by (auto simp: added_unit_def flags_def)
  next
    case False
    define fs where "fs = (an_ftab s)[nat \<bar>l\<bar> := (flg s l)\<lparr>f_seen := True\<rparr>]"
    define u where "u = s\<lparr>an_ftab := fs, an_analyzed := an_analyzed s @ [l], an_unit_chain := an_unit_chain s @ [an_units s ! vlit l]\<rparr>"
    have run: "added_unit l s = Ok u" using False P(1,5) by (simp add: added_unit_def flags_def put_flags_ok u_def fs_def)
    have g: "cgrow s u"
      by (rule cgrow_intro [where fs = fs and as = "[l]" and us = "an_unit_chain s @ [an_units s ! vlit l]" and ms = "an_mini_chain s"])
        (use P(1) assms(2) in \<open>auto simp: u_def fs_def nth_list_update\<close>)
    have s: "same s u" by (rule cgrow_same [OF g])
    have fl: "f_added (flg u p) = f_added (flg s p)" "f_removable (flg u p) = f_removable (flg s p)" "f_keep (flg u p) = f_keep (flg s p)"
      "f_seen (flg u p) \<longleftrightarrow> f_seen (flg s p) \<or> p = l" if "p \<in> set (an_trail s)" for p
    proof -
      have "nat \<bar>p\<bar> = nat \<bar>l\<bar> \<longleftrightarrow> p = l"
        using false_unique [OF t, of "- p" "- l"] that assms(2) by (auto simp: false_lit_def)
      then show "f_added (flg u p) = f_added (flg s p)" "f_removable (flg u p) = f_removable (flg s p)" "f_keep (flg u p) = f_keep (flg s p)"
        "f_seen (flg u p) \<longleftrightarrow> f_seen (flg s p) \<or> p = l"
        using P(1) by (auto simp: u_def fs_def nth_list_update)
    qed
    have "l \<notin> set us" using I(2) False assms(2,3) by (simp add: roots_ok_def)
    then have "roots_ok u (us @ [l])"
      using I(2) assms(2,3) fl(4) unfolding roots_ok_def sameD [OF s] by (auto simp: u_def)
    moreover have "mini_chain_ok db u (us @ [l]) P"
      by (rule mini_chain_more [OF I(3)]) (use fl sameD [OF s] in \<open>auto simp: mini_ids_def u_def\<close>)
    ultimately have "calc_inv db u (us @ [l]) P"
      using cgrow_mini_ok [OF I(1) g] I(4) same_resolved(2) [OF s] by (simp add: calc_inv_def)
    then show ?thesis using run g by (intro exI [of _ u] exI [of _ "us @ [l]"]) auto
  qed
qed

lemma reached_grow:
  assumes "cgrow s u" "set us \<subseteq> set vs" "reached s us P p" "nat \<bar>p\<bar> < length (an_ftab s)"
  shows "reached u vs P p"
  using assms(2,3) cgrow_flags [OF assms(1,4)] sameD(1) [OF cgrow_same [OF assms(1)]] by (auto simp: reached_def)

text \<open>Marking a literal before its reason is visited, and adding the identifier of the reason afterwards.\<close>

lemma mark_added_ok:
  assumes "calc_inv db s us P" "p \<in> set (an_trail s)" "\<not> f_added (flg s p)" "f_removable (flg s p)"
  defines "u \<equiv> s\<lparr>an_ftab := (an_ftab s)[nat \<bar>p\<bar> := (flg s p)\<lparr>f_added := True\<rparr>]\<rparr>"
  shows "cgrow s u" "calc_inv db u us (insert p P)" "f_added (flg u p)"
proof -
  have t: "trail_ok s" and I: "mini_ok s" "roots_ok s us" "mini_chain_ok db s us P" "knows db s"
    using assms(1) by (simp_all add: calc_inv_def mini_ok_def)
  note N = true_known [OF t assms(2)]
  show g: "cgrow s u"
    by (rule cgrow_intro [where fs = "(an_ftab s)[nat \<bar>p\<bar> := (flg s p)\<lparr>f_added := True\<rparr>]" and as = "[]" and us = "an_unit_chain s" and ms = "an_mini_chain s"])
      (use N(1) assms(4) in \<open>auto simp: u_def nth_list_update\<close>)
  have s: "same s u" by (rule cgrow_same [OF g])
  have fl: "f_added (flg u q) \<longleftrightarrow> f_added (flg s q) \<or> q = p" "f_removable (flg u q) = f_removable (flg s q)" "f_keep (flg u q) = f_keep (flg s q)"
    "f_seen (flg u q) = f_seen (flg s q)" if "q \<in> set (an_trail s)" for q
  proof -
    have "nat \<bar>q\<bar> = nat \<bar>p\<bar> \<longleftrightarrow> q = p"
      using false_unique [OF t, of "- q" "- p"] that assms(2) by (auto simp: false_lit_def)
    then show "f_added (flg u q) \<longleftrightarrow> f_added (flg s q) \<or> q = p" "f_removable (flg u q) = f_removable (flg s q)"
      "f_keep (flg u q) = f_keep (flg s q)" "f_seen (flg u q) = f_seen (flg s q)"
      using N(1) by (auto simp: u_def nth_list_update)
  qed
  show "f_added (flg u p)" using fl(1) [OF assms(2)] by simp
  have d: "added_done u (insert p P) = added_done s P" "kept_true u = kept_true s"
    using fl sameD(2) [OF s] assms(3) by (auto simp: added_done_def kept_true_def)
  have ids: "mini_ids u = mini_ids s" by (simp add: mini_ids_def u_def)
  have "mini_chain_ok db u us (insert p P)"
    using I(3) fl assms(4) unfolding mini_chain_ok_def d ids ids_ok_def sameD [OF s] by auto
  moreover have "roots_ok u us" using I(2) fl unfolding roots_ok_def sameD [OF s] by (auto simp: u_def)
  ultimately show "calc_inv db u us (insert p P)"
    using cgrow_mini_ok [OF I(1) g] I(4) same_resolved(2) [OF s] by (simp add: calc_inv_def)
qed

lemma derives_step:
  assumes "derives db ids used T S" "db j = Some d" "\<not> tautological d" "j \<notin> used \<union> set ids"
    "\<forall>m \<in> set (literals d). m \<noteq> p \<longrightarrow> - m \<in> T \<union> S"
  shows "derives db (ids @ [j]) used T (insert p S)"
  unfolding derives_def
proof (intro allI impI)
  fix rest assume r: "rup db rest (used \<union> set (ids @ [j])) (T \<union> insert p S)"
  have "rup db (j # rest) (used \<union> set ids) (T \<union> S)"
    by (rule rup_step [where l = p]) (use assms(2-5) r in simp_all)
  then show "rup db ((ids @ [j]) @ rest) used T" using assms(1) by (simp add: derives_def)
qed

lemma push_reason_ok:
  assumes "calc_inv db s us (insert p P)" "p \<in> set (an_trail s)" "p \<notin> P" "f_added (flg s p)" "clause_data s a = Some (j, c)"
    "reason_ok s p c" "\<forall>m \<in> set c. m \<noteq> p \<longrightarrow> reached s us (insert p P) (- m)"
  defines "u \<equiv> s\<lparr>an_mini_chain := an_mini_chain s @ [j]\<rparr>"
  shows "cgrow s u" "calc_inv db u us P"
proof -
  have t: "trail_ok s" and I: "mini_ok s" "roots_ok s us" "mini_chain_ok db s us (insert p P)" "knows db s"
    using assms(1) by (simp_all add: calc_inv_def mini_ok_def)
  show g: "cgrow s u"
    by (rule cgrow_intro [where fs = "an_ftab s" and as = "[]" and us = "an_unit_chain s" and ms = "an_mini_chain s @ [j]"]) (simp_all add: u_def)
  have s: "same s u" by (rule cgrow_same [OF g])
  obtain d where d: "db j = Some d" "set (literals d) = set c" "\<not> tautological d" using I(4) assms(5) unfolding knows_def by blast
  have c: "p \<in> set c" "\<forall>m \<in> set c. m \<noteq> p \<longrightarrow> false_lit s m" "\<exists>m \<in> set c. m \<noteq> p" using assms(6) by (auto simp: reason_ok_def)
  define D where "D = added_done s (insert p P)"
  have D: "added_done u P = insert p D" "kept_true u = kept_true s" "mini_ids u = mini_ids s @ [j]"
    using assms(2-4) by (auto simp: D_def added_done_def kept_true_def mini_ids_def u_def)
  have old: "ids_ok db s (mini_ids s) D" using I(3) by (simp add: mini_chain_ok_def D_def)
  have new: "j \<notin> set (mini_ids s)"
  proof
    assume "j \<in> set (mini_ids s)"
    from bspec [OF old [unfolded ids_ok_def] this] obtain e where e: "db j = Some e"
      "\<forall>m \<in> set (literals e). m \<in> set (an_trail s) \<longrightarrow> m \<in> D" by (elim exE conjE)
    then have "p \<in> D" using d(1,2) c(1) assms(2) by simp
    then show False by (simp add: D_def added_done_def)
  qed
  have true: "m = p" if "m \<in> set c" "m \<in> set (an_trail s)" for m using that c(2) false_in [OF t] by blast
  have "ids_ok db u (mini_ids u) (added_done u P)"
    unfolding ids_ok_def D
  proof
    fix k assume "k \<in> set (mini_ids s @ [j])"
    then consider "k = j" | "k \<in> set (mini_ids s)" by auto
    then show "\<exists>d. db k = Some d \<and> (\<forall>m \<in> set (literals d). m \<in> set (an_trail u) \<longrightarrow> m \<in> insert p D) \<and>
        (\<exists>m \<in> set (literals d). m \<in> set (an_trail u)) \<and> \<not> set (literals d) \<subseteq> set (an_trail u)"
    proof cases
      case 1
      have "\<not> set c \<subseteq> set (an_trail s)" using true c(3) by blast
      moreover have "\<forall>m \<in> set c. m \<in> set (an_trail s) \<longrightarrow> m \<in> insert p D" using true by blast
      moreover have "\<exists>m \<in> set c. m \<in> set (an_trail s)" using c(1) assms(2) by blast
      ultimately show ?thesis using 1 d(1,2) sameD(2) [OF s] by (intro exI [of _ d]) simp
    next
      case 2
      from bspec [OF old [unfolded ids_ok_def] this] obtain e where "db k = Some e" "\<forall>m \<in> set (literals e). m \<in> set (an_trail s) \<longrightarrow> m \<in> D"
        "\<exists>m \<in> set (literals e). m \<in> set (an_trail s)" "\<not> set (literals e) \<subseteq> set (an_trail s)" by (elim exE conjE) 
      then show ?thesis using sameD(2) [OF s] by (intro exI [of _ e]) simp
    qed
  qed
  moreover have "derives db (mini_ids u) used T (added_done u P)"
    if T: "kept_true u \<union> set us \<subseteq> T" "T \<subseteq> set (an_trail u)" "used \<inter> set (mini_ids u) = {}" for used T
    unfolding D
  proof (rule derives_step [where d = d and p = p])
    show "db j = Some d" "\<not> tautological d" by (rule d)+
    have "set (mini_ids s) \<subseteq> set (mini_ids u)" unfolding D(3) by auto
    then have "used \<inter> set (mini_ids s) = {}" using T(3) by blast
    moreover have "T \<subseteq> set (an_trail s)" using T(2) sameD(2) [OF s] by simp
    ultimately show "derives db (mini_ids s) used T D"
      unfolding D_def by (intro mini_chain_derives [OF I(3)]) (use T(1) D(2) in simp_all)
    show "j \<notin> used \<union> set (mini_ids s)" using new T(3) D(3) by auto
    show "\<forall>m \<in> set (literals d). m \<noteq> p \<longrightarrow> - m \<in> T \<union> D"
    proof (intro ballI impI)
      fix m assume m: "m \<in> set (literals d)" "m \<noteq> p"
      then have "reached s us (insert p P) (- m)" "- m \<in> set (an_trail s)" using assms(7) c(2) d(2) by (auto simp: false_lit_def)
      then have "- m \<in> set us \<union> kept_true s \<union> D" by (auto simp: reached_def kept_true_def D_def added_done_def)
      then show "- m \<in> T \<union> D" using T(1) D(2) by blast
    qed
  qed
  moreover have "\<forall>p \<in> set (an_trail u). f_added (flg u p) \<longrightarrow> f_removable (flg u p)" using I(3) by (simp add: mini_chain_ok_def u_def)
  moreover have "roots_ok u us" using I(2) by (simp add: roots_ok_def u_def)
  ultimately show "calc_inv db u us P"
    using cgrow_mini_ok [OF I(1) g] I(4) same_resolved(2) [OF s] by (simp add: calc_inv_def mini_chain_ok_def)
qed

lemma calc_lits_ok:
  assumes "\<And>q s us. calc_inv db s us P \<Longrightarrow> q \<in> set (an_trail s) \<Longrightarrow> justified s q \<Longrightarrow> \<forall>r \<in> P. pos s q < pos s r \<Longrightarrow> pos s q < n \<Longrightarrow>
      \<exists>u vs. calculate_minimize_chain n q s = Ok u \<and> cgrow s u \<and> calc_inv db u vs P \<and> set us \<subseteq> set vs \<and> reached u vs P q"
    "calc_inv db s us P" "\<forall>m \<in> set c. m \<noteq> p \<longrightarrow> false_lit s m \<and> justified s m \<and> (\<forall>r \<in> P. pos s m < pos s r) \<and> pos s m < n"
  shows "\<exists>u vs. rfold (\<lambda>other st. if other = p then Ok st else calculate_minimize_chain n (- other) st) c s = Ok u \<and> cgrow s u \<and>
    calc_inv db u vs P \<and> set us \<subseteq> set vs \<and> (\<forall>m \<in> set c. m \<noteq> p \<longrightarrow> reached u vs P (- m))"
  using assms(2,3)
proof (induction c arbitrary: s us)
  case Nil
  then show ?case by auto
next
  case (Cons m c)
  show ?case
  proof (cases "m = p")
    case True
    then show ?thesis using Cons by simp
  next
    case False
    then have m: "- m \<in> set (an_trail s)" "justified s (- m)" "\<forall>r \<in> P. pos s (- m) < pos s r" "pos s (- m) < n"
      using Cons.prems(2) by (simp_all add: false_lit_def)
    obtain u vs where u: "calculate_minimize_chain n (- m) s = Ok u" "cgrow s u" "calc_inv db u vs P" "set us \<subseteq> set vs" "reached u vs P (- m)"
      using assms(1) [OF Cons.prems(1) m] by blast
    have s: "same s u" by (rule cgrow_same [OF u(2)])
    have t: "trail_ok s" using Cons.prems(1) by (simp add: calc_inv_def mini_ok_def)
    have "\<forall>m \<in> set c. m \<noteq> p \<longrightarrow> false_lit u m \<and> justified u m \<and> (\<forall>r \<in> P. pos u m < pos u r) \<and> pos u m < n"
    proof (intro ballI impI)
      fix k assume k: "k \<in> set c" "k \<noteq> p"
      then have "false_lit s k" "justified s k" using Cons.prems(2) by simp_all
      then show "false_lit u k \<and> justified u k \<and> (\<forall>r \<in> P. pos u k < pos u r) \<and> pos u k < n"
        using k Cons.prems(2) cgrow_flags [OF u(2)] false_litD(3) [OF t] false_lit_same [OF s] by (simp add: justified_def sameD [OF s])
    qed
    then obtain w ws where w: "rfold (\<lambda>other st. if other = p then Ok st else calculate_minimize_chain n (- other) st) c u = Ok w"
      "cgrow u w" "calc_inv db w ws P" "set vs \<subseteq> set ws" "\<forall>m \<in> set c. m \<noteq> p \<longrightarrow> reached w ws P (- m)"
      using Cons.IH [OF u(3)] by blast
    have "nat \<bar>- m\<bar> < length (an_ftab u)" using true_known(1) [OF t m(1)] sameD(6) [OF s] by simp
    then have "reached w ws P (- m)" using reached_grow [OF w(2,4) u(5)] by blast
    then have "\<forall>k \<in> set (m # c). k \<noteq> p \<longrightarrow> reached w ws P (- k)" using w(5) by simp
    moreover have "rfold (\<lambda>other st. if other = p then Ok st else calculate_minimize_chain n (- other) st) (m # c) s = Ok w"
      using False u(1) w(1) by simp
    ultimately show ?thesis using cgrow_trans [OF u(2) w(2)] w(3) subset_trans [OF u(4) w(4)] by blast
  qed
qed

text \<open>The recursion never runs out of fuel: the other literals of a reason are before the literal on the trail.\<close>

lemma calculate_ok:
  assumes "calc_inv db s us P" "p \<in> set (an_trail s)" "justified s p" "\<forall>r \<in> P. pos s p < pos s r" "pos s p < n"
  shows "\<exists>u vs. calculate_minimize_chain n p s = Ok u \<and> cgrow s u \<and> calc_inv db u vs P \<and> set us \<subseteq> set vs \<and> reached u vs P p"
  using assms
proof (induction n arbitrary: p s us P)
  case 0
  then show ?case by simp
next
  case (Suc n)
  have t: "trail_ok s" and I: "mini_ok s" "mini_chain_ok db s us P" using Suc.prems(1) by (simp_all add: calc_inv_def mini_ok_def)
  note N = true_known [OF t Suc.prems(2)]
  have at: "flags p s = Ok (flg s p)" "var p s = Ok (an_vtab s ! nat \<bar>p\<bar>)" using N by (simp_all add: flags_def var_def)
  have notP: "p \<notin> P" using Suc.prems(4) by blast
  consider "f_keep (flg s p) \<or> f_added (flg s p)" | "\<not> f_keep (flg s p)" "\<not> f_added (flg s p)" "lev s p = 0" |
    "\<not> f_keep (flg s p)" "\<not> f_added (flg s p)" "lev s p \<noteq> 0" by blast
  then show ?case
  proof cases
    case 1
    then have "calculate_minimize_chain (Suc n) p s = Ok s" "reached s us P p" using notP by (auto simp: at reached_def)
    then show ?thesis using Suc.prems(1) cgrow_refl by blast
  next
    case 2
    obtain u vs where u: "added_unit p s = Ok u" "cgrow s u" "calc_inv db u vs P" "set us \<subseteq> set vs" "p \<in> set vs"
      using added_unit_ok [OF Suc.prems(1,2) 2(3)] by blast
    have "calculate_minimize_chain (Suc n) p s = Ok u" using 2 u(1) by (simp add: at)
    moreover have "reached u vs P p" using u(5) 2(3) sameD(1) [OF cgrow_same [OF u(2)]] by (simp add: reached_def)
    ultimately show ?thesis using u by blast
  next
    case 3
    have rm: "f_removable (flg s p)" using 3 Suc.prems(3) by (simp add: justified_def)
    then have "removable_ok s p" using I(1) Suc.prems(2) by (simp add: mini_ok_def)
    then obtain a j c where c: "rsn s p = Some a" "clause_data s a = Some (j, c)" "\<forall>m \<in> set c. m \<noteq> p \<longrightarrow> justified s m" "0 < lev s p"
      by (auto simp: removable_ok_def)
    have ro: "reason_ok s p c" using trail_reason [OF t Suc.prems(2) c(4,1)] c(2) by auto
    define s1 where "s1 = s\<lparr>an_ftab := (an_ftab s)[nat \<bar>p\<bar> := (flg s p)\<lparr>f_added := True\<rparr>]\<rparr>"
    note M = mark_added_ok [OF Suc.prems(1,2) 3(2) rm, folded s1_def]
    have s1: "same s s1" by (rule cgrow_same [OF M(1)])
    have lits: "\<forall>m \<in> set c. m \<noteq> p \<longrightarrow> false_lit s1 m \<and> justified s1 m \<and> (\<forall>r \<in> insert p P. pos s1 m < pos s1 r) \<and> pos s1 m < n"
    proof (intro ballI impI)
      fix m assume m: "m \<in> set c" "m \<noteq> p"
      then have f: "false_lit s m" "pos s m < pos s p" "justified s m" using ro c(3) by (auto simp: reason_ok_def)
      have "justified s1 m"
        using f(3) cgrow_flags [OF M(1) false_litD(3) [OF t f(1)]] by (simp add: justified_def sameD [OF s1])
      then show "false_lit s1 m \<and> justified s1 m \<and> (\<forall>r \<in> insert p P. pos s1 m < pos s1 r) \<and> pos s1 m < n"
        using f(1,2) Suc.prems(4,5) false_lit_same [OF s1] less_trans [OF f(2)] by (auto simp: sameD [OF s1])
    qed
    obtain s2 vs where s2: "rfold (\<lambda>other st. if other = p then Ok st else calculate_minimize_chain n (- other) st) c s1 = Ok s2"
      "cgrow s1 s2" "calc_inv db s2 vs (insert p P)" "set us \<subseteq> set vs" "\<forall>m \<in> set c. m \<noteq> p \<longrightarrow> reached s2 vs (insert p P) (- m)"
      using calc_lits_ok [OF Suc.IH M(2) lits] by blast
    have g: "cgrow s s2" by (rule cgrow_trans [OF M(1) s2(2)])
    have s02: "same s s2" by (rule cgrow_same [OF g])
    have "nat \<bar>p\<bar> < length (an_ftab s1)" using N(1) sameD(6) [OF s1] by simp
    then have ad: "f_added (flg s2 p)" using cgrow_flags(3) [OF s2(2)] M(3) by blast
    have p2: "p \<in> set (an_trail s2)" "clause_data s2 a = Some (j, c)" "reason_ok s2 p c"
      using Suc.prems(2) c(2) ro by (simp_all add: sameD [OF s02] reason_ok_def false_lit_same [OF s02])
    define u where "u = s2\<lparr>an_mini_chain := an_mini_chain s2 @ [j]\<rparr>"
    note U = push_reason_ok [OF s2(3) p2(1) notP ad p2(2,3) s2(5), folded u_def]
    have "put_flags p (f_added_update (\<lambda>_. True)) s = Ok s1" using N(1) by (simp add: put_flags_ok s1_def)
    moreover have "an_store s1 = an_store s" by (simp add: s1_def)
    then obtain d where "reason_of (an_vtab s ! nat \<bar>p\<bar>) s1 = Ok d" "cl_literals d = c" "cl_id d = j"
      using c(1,2) by (auto simp: reason_of_def clause_ref_def clause_data_def)
    ultimately have "calculate_minimize_chain (Suc n) p s = Ok u"
      using 3 s2(1) by (simp add: at u_def)
    moreover have "reached u vs P p" using ad notP by (simp add: reached_def u_def)
    ultimately show ?thesis using U(2) cgrow_trans [OF g U(1)] s2(4) by blast
  qed
qed

section \<open>The rounds over the clause\<close>

text \<open>\<open>kept\<close> are the literals kept so far, \<open>vs\<close> those already visited, \<open>b\<close> is the state before.\<close>

definition kept_flags :: "analysis \<Rightarrow> int list \<Rightarrow> bool" where
  "kept_flags s kept \<longleftrightarrow> (\<forall>q \<in> set (an_trail s). f_keep (flg s q) \<longleftrightarrow> - q \<in> set kept) \<and>
     (\<forall>v < length (an_ftab s). (f_keep (an_ftab s ! v) \<longrightarrow> (\<exists>l \<in> set kept. nat \<bar>l\<bar> = v)) \<and> (f_added (an_ftab s ! v) \<longrightarrow> f_removable (an_ftab s ! v)))"

definition same_rest :: "analysis \<Rightarrow> analysis \<Rightarrow> bool" where
  "same_rest b s \<longleftrightarrow> same b s \<and> an_clause s = an_clause b \<and> an_unit_analyzed s = an_unit_analyzed b \<and> an_levels s = an_levels b \<and>
     an_control s = an_control b \<and> an_lrat_chain s = an_lrat_chain b \<and>
     (\<exists>as. an_analyzed s = an_analyzed b @ as \<and> set as \<subseteq> set (an_trail b) \<and>
        (\<forall>v < length (an_ftab s). f_seen (an_ftab s ! v) \<longleftrightarrow> f_seen (an_ftab b ! v) \<or> (\<exists>l \<in> set as. nat \<bar>l\<bar> = v)))"

definition round_inv :: "(nat \<Rightarrow> lrat_clause option) \<Rightarrow> analysis \<Rightarrow> int list \<Rightarrow> int list \<Rightarrow> int list \<Rightarrow> analysis \<Rightarrow> bool" where
  "round_inv db b us kept vs s \<longleftrightarrow> same_rest b s \<and> mini_ok s \<and> kept_flags s kept \<and> set kept \<subseteq> set vs \<and>
     (an_lrat s \<longrightarrow> calc_inv db s us {} \<and> an_mini_chain s = []) \<and>
     (\<not> an_lrat s \<longrightarrow> an_unit_chain s = an_unit_chain b \<and> an_mini_chain s = an_mini_chain b) \<and>
     (\<forall>x \<in> set vs. false_lit s x \<and> (x \<in> set kept \<or> justified s x \<and> (an_lrat s \<longrightarrow> reached s us {} (- x))))"

lemma same_rest_mgrow:
  assumes "same_rest b s" "mgrow s u"
  shows "same_rest b u"
  using assms same_trans [OF _ mgrow_same [OF assms(2)], of b] unfolding same_rest_def by (auto simp: mgrow_def)

lemma same_rest_cgrow:
  assumes "same_rest b s" "cgrow s u"
  shows "same_rest b u"
proof -
  obtain as where as: "an_analyzed s = an_analyzed b @ as" "set as \<subseteq> set (an_trail b)"
    "\<forall>v < length (an_ftab s). f_seen (an_ftab s ! v) \<longleftrightarrow> f_seen (an_ftab b ! v) \<or> (\<exists>l \<in> set as. nat \<bar>l\<bar> = v)"
    using assms(1) unfolding same_rest_def by blast
  obtain bs where bs: "an_analyzed u = an_analyzed s @ bs" "set bs \<subseteq> set (an_trail s)" "length (an_ftab u) = length (an_ftab s)"
    "\<forall>v < length (an_ftab u). f_seen (an_ftab u ! v) \<longleftrightarrow> f_seen (an_ftab s ! v) \<or> (\<exists>l \<in> set bs. nat \<bar>l\<bar> = v)"
    using assms(2) unfolding cgrow_def by auto
  have "\<exists>cs. an_analyzed u = an_analyzed b @ cs \<and> set cs \<subseteq> set (an_trail b) \<and>
        (\<forall>v < length (an_ftab u). f_seen (an_ftab u ! v) \<longleftrightarrow> f_seen (an_ftab b ! v) \<or> (\<exists>l \<in> set cs. nat \<bar>l\<bar> = v))"
    using as bs assms(1) by (intro exI [of _ "as @ bs"]) (auto simp: same_rest_def sameD(2))
  then show ?thesis
    using assms same_trans [OF _ cgrow_same [OF assms(2)], of b] unfolding same_rest_def by (auto simp: cgrow_def)
qed

lemma mgrow_flags:
  assumes "mgrow s u" "nat \<bar>m\<bar> < length (an_ftab s)"
  shows "f_keep (flg u m) = f_keep (flg s m)" "f_added (flg u m) = f_added (flg s m)" "f_seen (flg u m) = f_seen (flg s m)"
    "f_removable (flg s m) \<Longrightarrow> f_removable (flg u m)"
  using assms by (auto simp: mgrow_def)

lemma reached_mgrow:
  assumes "mgrow s u" "reached s us P p" "nat \<bar>p\<bar> < length (an_ftab s)"
  shows "reached u us P p"
  using assms(2) mgrow_flags [OF assms(1,3)] sameD(1) [OF mgrow_same [OF assms(1)]] by (auto simp: reached_def)

lemma calc_inv_mgrow:
  assumes "calc_inv db s us P" "mgrow s u" "mini_ok u"
  shows "calc_inv db u us P"
proof -
  have t: "trail_ok s" and I: "roots_ok s us" "mini_chain_ok db s us P" "knows db s" using assms(1) by (simp_all add: calc_inv_def mini_ok_def)
  have s: "same s u" by (rule mgrow_same [OF assms(2)])
  note F = mgrow_flags [OF assms(2) true_known(1) [OF t]]
  have o: "an_unit_chain u = an_unit_chain s" "mini_ids u = mini_ids s" using assms(2) by (auto simp: mgrow_def mini_ids_def)
  have "roots_ok u us" using I(1) F(3) o(1) by (simp add: roots_ok_def sameD [OF s])
  moreover have "mini_chain_ok db u us P"
    by (rule mini_chain_more [OF I(2) subset_refl]) (use F o(2) sameD [OF s] in auto)
  ultimately show ?thesis using assms(3) I(3) same_resolved(2) [OF s] by (simp add: calc_inv_def)
qed

lemma kept_flags_mgrow:
  assumes "kept_flags s kept" "mgrow s u" "mini_ok s"
  shows "kept_flags u kept"
proof -
  have t: "trail_ok s" using assms(3) by (simp add: mini_ok_def)
  have s: "same s u" by (rule mgrow_same [OF assms(2)])
  have "f_keep (flg u q) = f_keep (flg s q)" if "q \<in> set (an_trail s)" for q using mgrow_flags(1) [OF assms(2)] true_known(1) [OF t that] by blast
  moreover have "\<forall>v < length (an_ftab s). f_keep (an_ftab u ! v) = f_keep (an_ftab s ! v) \<and> f_added (an_ftab u ! v) = f_added (an_ftab s ! v) \<and>
      (f_removable (an_ftab s ! v) \<longrightarrow> f_removable (an_ftab u ! v))"
    using assms(2) by (auto simp: mgrow_def)
  ultimately show ?thesis using assms(1) unfolding kept_flags_def sameD [OF s] by blast
qed

lemma kept_flags_cgrow:
  assumes "kept_flags s kept" "cgrow s u" "mini_ok s"
  shows "kept_flags u kept"
proof -
  have t: "trail_ok s" using assms(3) by (simp add: mini_ok_def)
  have s: "same s u" by (rule cgrow_same [OF assms(2)])
  have "f_keep (flg u q) = f_keep (flg s q)" if "q \<in> set (an_trail s)" for q using cgrow_flags(1) [OF assms(2)] true_known(1) [OF t that] by blast
  moreover have "\<forall>v < length (an_ftab s). f_keep (an_ftab u ! v) = f_keep (an_ftab s ! v) \<and> f_removable (an_ftab u ! v) = f_removable (an_ftab s ! v) \<and>
      (f_added (an_ftab u ! v) \<longrightarrow> f_added (an_ftab s ! v) \<or> f_removable (an_ftab s ! v))"
    using assms(2) by (auto simp: cgrow_def)
  ultimately show ?thesis using assms(1) unfolding kept_flags_def sameD [OF s] by blast
qed

lemma removable_ok_mono:
  assumes "trail_ok s" "removable_ok s p" "p \<in> set (an_trail s)" "same s u" "\<And>m. nat \<bar>m\<bar> < length (an_ftab s) \<Longrightarrow> justified s m \<Longrightarrow> justified u m"
  shows "removable_ok u p"
proof -
  obtain a j c where c: "0 < lev s p" "lev s p < an_level s" "rsn s p = Some a" "clause_data s a = Some (j, c)"
    "\<forall>m \<in> set c. m \<noteq> p \<longrightarrow> justified s m" using assms(2) by (auto simp: removable_ok_def)
  have "reason_ok s p c" using trail_reason [OF assms(1,3) c(1,3)] c(4) by auto
  then have "\<forall>m \<in> set c. m \<noteq> p \<longrightarrow> justified u m" using c(5) assms(5) false_litD(3) [OF assms(1)] by (auto simp: reason_ok_def)
  then show ?thesis using c(1-4) by (auto simp: removable_ok_def sameD [OF assms(4)])
qed

lemma keep_ok:
  assumes "round_inv db b us kept vs s" "false_lit s x"
  shows "\<exists>u. put_flags x (f_keep_update (\<lambda>_. True)) s = Ok u \<and> round_inv db b us (kept @ [x]) (vs @ [x]) u"
proof -
  have I: "same_rest b s" "mini_ok s" "kept_flags s kept" "set kept \<subseteq> set vs" "an_lrat s \<longrightarrow> calc_inv db s us {} \<and> an_mini_chain s = []"
    "\<forall>x \<in> set vs. false_lit s x \<and> (x \<in> set kept \<or> justified s x \<and> (an_lrat s \<longrightarrow> reached s us {} (- x)))"
    "\<not> an_lrat s \<longrightarrow> an_unit_chain s = an_unit_chain b \<and> an_mini_chain s = an_mini_chain b" using assms(1) by (simp_all add: round_inv_def)
  have t: "trail_ok s" using I(2) by (simp add: mini_ok_def)
  have n: "nat \<bar>x\<bar> < length (an_ftab s)" using false_litD(3) [OF t assms(2)] .
  define fs where "fs = (an_ftab s)[nat \<bar>x\<bar> := (flg s x)\<lparr>f_keep := True\<rparr>]"
  define u where "u = s\<lparr>an_ftab := fs\<rparr>"
  have run: "put_flags x (f_keep_update (\<lambda>_. True)) s = Ok u" using n by (simp add: put_flags_ok u_def fs_def)
  have s: "same s u" by (simp add: same_def u_def fs_def clause_data_def fun_eq_iff)
  have v: "f_keep (fs ! k) \<longleftrightarrow> f_keep (an_ftab s ! k) \<or> k = nat \<bar>x\<bar>" "f_added (fs ! k) = f_added (an_ftab s ! k)"
    "f_removable (fs ! k) = f_removable (an_ftab s ! k)" "f_poison (fs ! k) = f_poison (an_ftab s ! k)" "f_seen (fs ! k) = f_seen (an_ftab s ! k)"
    if "k < length (an_ftab s)" for k
    using n that by (auto simp: fs_def nth_list_update)
  have fl: "f_added (flg u m) = f_added (flg s m)" "f_removable (flg u m) = f_removable (flg s m)" "f_seen (flg u m) = f_seen (flg s m)"
    "f_keep (flg s m) \<Longrightarrow> f_keep (flg u m)" if "nat \<bar>m\<bar> < length (an_ftab s)" for m
    using v [OF that] by (simp_all add: u_def)
  have j: "justified u m" if "justified s m" "nat \<bar>m\<bar> < length (an_ftab s)" for m
    using that fl [OF that(2)] by (auto simp: justified_def sameD [OF s])
  have cov: "\<exists>l \<in> set (an_minimized s). nat \<bar>l\<bar> = k" if "k < length (an_ftab s)" "f_removable (fs ! k) \<or> f_poison (fs ! k)" for k
    using I(2) that v [OF that(1)] by (auto simp: mini_ok_def)
  have "removable_ok u p" if "p \<in> set (an_trail s)" "f_removable (flg u p)" for p
  proof -
    have "removable_ok s p" using I(2) that fl(2) [OF true_known(1) [OF t that(1)]] by (simp add: mini_ok_def)
    then show ?thesis using removable_ok_mono [OF t _ that(1) s j] by blast
  qed
  moreover have "set (an_minimized s) \<subseteq> set (an_trail s)" using I(2) by (simp add: mini_ok_def)
  ultimately have mini: "mini_ok u"
    using t trail_ok_same [OF s] cov by (simp add: mini_ok_def sameD [OF s]) (simp add: u_def fs_def)
  have q: "nat \<bar>q\<bar> = nat \<bar>x\<bar> \<longleftrightarrow> - q = x" if "q \<in> set (an_trail s)" for q
    using false_unique [OF t, of "- q" x] that assms(2) by (auto simp: false_lit_def)
  have "f_keep (flg u q) \<longleftrightarrow> - q \<in> set (kept @ [x])" if "q \<in> set (an_trail s)" for q
    using v(1) [OF true_known(1) [OF t that]] q [OF that] I(3) that by (auto simp: u_def kept_flags_def)
  then have k: "kept_flags u (kept @ [x])"
    using I(3) v unfolding kept_flags_def sameD [OF s] by (auto simp: u_def)
  have "roots_ok u us" if "roots_ok s us" using that fl(3) [OF true_known(1) [OF t]] unfolding roots_ok_def sameD [OF s] by (auto simp: u_def)
  moreover have "mini_chain_ok db u us {}" if "mini_chain_ok db s us {}"
    by (rule mini_chain_more [OF that subset_refl]) (use fl true_known(1) [OF t] sameD [OF s] in \<open>auto simp: mini_ids_def u_def\<close>)
  ultimately have c: "an_lrat u \<longrightarrow> calc_inv db u us {} \<and> an_mini_chain u = []"
    using I(5) mini same_resolved(2) [OF s] by (simp add: calc_inv_def sameD [OF s]) (simp add: u_def)
  have r: "reached u us {} (- y)" if "reached s us {} (- y)" "nat \<bar>y\<bar> < length (an_ftab s)" for y
    using that fl [OF that(2)] by (auto simp: reached_def sameD [OF s])
  have "same_rest b u" using I(1) same_trans [OF _ s, of b] v(5) unfolding same_rest_def by (auto simp: u_def fs_def)
  moreover have "false_lit u y \<and> (y \<in> set (kept @ [x]) \<or> justified u y \<and> (an_lrat u \<longrightarrow> reached u us {} (- y)))" if y: "y \<in> set (vs @ [x])" for y
  proof (cases "y = x")
    case False
    then have y': "false_lit s y" "y \<in> set kept \<or> justified s y \<and> (an_lrat s \<longrightarrow> reached s us {} (- y))" using y I(6) by auto
    note n = false_litD(3) [OF t y'(1)]
    show ?thesis using y' j [OF _ n] r [OF _ n] false_lit_same [OF s] sameD(4) [OF s] by auto
  qed (use assms(2) false_lit_same [OF s] in simp)
  moreover have "\<not> an_lrat u \<longrightarrow> an_unit_chain u = an_unit_chain b \<and> an_mini_chain u = an_mini_chain b" using I(7) by (simp add: u_def)
  ultimately show ?thesis using run mini k c I(4) by (auto simp: round_inv_def)
qed

lemma round_ok:
  assumes "round_inv db b us kept vs s" "false_lit s x"
  shows "\<exists>kept' us' u. minimize_round os x (kept, s) = Ok (kept', u) \<and> round_inv db b us' kept' (vs @ [x]) u \<and> same s u \<and>
    set us \<subseteq> set us' \<and> (kept' = kept \<or> kept' = kept @ [x])"
proof -
  have I: "same_rest b s" "mini_ok s" "kept_flags s kept" "set kept \<subseteq> set vs" "an_lrat s \<longrightarrow> calc_inv db s us {} \<and> an_mini_chain s = []"
    "\<forall>x \<in> set vs. false_lit s x \<and> (x \<in> set kept \<or> justified s x \<and> (an_lrat s \<longrightarrow> reached s us {} (- x)))"
    "\<not> an_lrat s \<longrightarrow> an_unit_chain s = an_unit_chain b \<and> an_mini_chain s = an_mini_chain b" using assms(1) by (simp_all add: round_inv_def)
  have t: "trail_ok s" using I(2) by (simp add: mini_ok_def)
  have x: "- x \<in> set (an_trail s)" using assms(2) by (simp add: false_lit_def)
  obtain r u where u: "minimize_literal (opt_minimizedepth os + 1) 0 (- x) s = Ok (r, u)" "mgrow s u" "mini_ok u" "r \<longrightarrow> justified u (- x)"
    using minimize_literal_ok [OF I(2) x] by blast
  have s: "same s u" by (rule mgrow_same [OF u(2)])
  have tu: "trail_ok u" using u(3) by (simp add: mini_ok_def)
  have lu: "an_lrat u \<longrightarrow> calc_inv db u us {} \<and> an_mini_chain u = []"
    using I(5) calc_inv_mgrow [OF _ u(2,3)] u(2) sameD(4) [OF s] by (auto simp: mgrow_def)
  have olds: "false_lit u y \<and> (y \<in> set kept \<or> justified u y \<and> (an_lrat u \<longrightarrow> reached u us {} (- y)))" if y: "y \<in> set vs" for y
  proof -
    have f: "false_lit s y" using I(6) y by blast
    have n: "nat \<bar>y\<bar> < length (an_ftab s)" "nat \<bar>- y\<bar> < length (an_ftab s)" using false_litD(3) [OF t f] by simp_all
    show ?thesis
      using I(6) y mgrow_justified [OF u(2) _ n(1)] reached_mgrow [OF u(2) _ n(2)] false_lit_same [OF s] sameD(4) [OF s] by auto
  qed
  have plain: "\<not> an_lrat u \<longrightarrow> an_unit_chain u = an_unit_chain b \<and> an_mini_chain u = an_mini_chain b"
    using I(7) u(2) by (auto simp: mgrow_def)
  have inv: "round_inv db b us kept vs u"
    using plain same_rest_mgrow [OF I(1) u(2)] u(3) kept_flags_mgrow [OF I(3) u(2) I(2)] I(4) lu olds by (simp add: round_inv_def)
  have fx: "false_lit u x" using assms(2) false_lit_same [OF s] by simp
  show ?thesis
  proof (cases r)
    case False
    obtain w where w: "put_flags x (f_keep_update (\<lambda>_. True)) u = Ok w" "round_inv db b us (kept @ [x]) (vs @ [x]) w"
      using keep_ok [OF inv fx] by blast
    have "same s w"
    proof -
      have "same b w" "same b s" using w(2) I(1) by (simp_all add: round_inv_def same_rest_def)
      then show ?thesis by (simp add: same_def)
    qed
    then show ?thesis using u(1) False w by (auto simp: minimize_round_def)
  next
    case True
    then have jx: "justified u (- x)" using u(4) by simp
    show ?thesis
    proof (cases "an_lrat s")
      case False
      then have "\<not> an_lrat u" using sameD(4) [OF s] by simp
      then have "round_inv db b us kept (vs @ [x]) u" using inv fx jx by (auto simp: round_inv_def)
      then show ?thesis using u(1) True False s \<open>\<not> an_lrat u\<close> by (auto simp: minimize_round_def)
    next
      case lrat: True
      have L: "calc_inv db u us {}" "an_mini_chain u = []" "an_lrat u" using lu lrat sameD(4) [OF s] by simp_all
      have xu: "- x \<in> set (an_trail u)" using x sameD(2) [OF s] by simp
      have "pos u (- x) < Suc (length (an_trail u))" using false_litD(5) [OF tu fx] by simp
      then obtain w vs' where w: "calculate_minimize_chain (Suc (length (an_trail u))) (- x) u = Ok w" "cgrow u w" "calc_inv db w vs' {}"
        "set us \<subseteq> set vs'" "reached w vs' {} (- x)"
        using calculate_ok [OF L(1) xu jx] by blast
      define z where "z = move_mini_chain w"
      have z: "same w z" "an_ftab z = an_ftab w" "mini_ids z = mini_ids w" "an_mini_chain z = []" "an_unit_chain z = an_unit_chain w"
        "an_minimized z = an_minimized w" "an_vtab z = an_vtab w" "an_trail z = an_trail w"
        by (simp_all add: z_def move_mini_chain_def same_def clause_data_def fun_eq_iff mini_ids_def)
      have sz: "same u z" by (rule same_trans [OF cgrow_same [OF w(2)] z(1)])
      have rest: "same_rest b z"
      proof -
        have "same_rest b w" using same_rest_cgrow [OF _ w(2)] inv by (simp add: round_inv_def)
        then show ?thesis using same_trans [OF _ z(1), of b] unfolding same_rest_def by (simp add: z_def move_mini_chain_def)
      qed
      have rm: "removable_ok z = removable_ok w" by (simp add: removable_ok_def justified_def sameD [OF z(1)] z fun_eq_iff)
      have W: "mini_ok w" "roots_ok w vs'" "mini_chain_ok db w vs' {}" "knows db w" using w(3) by (simp_all add: calc_inv_def)
      have "mini_ok z" using W(1) trail_ok_same [OF z(1)] by (simp add: mini_ok_def z rm)
      moreover have "calc_inv db z vs' {}"
      proof -
        have "roots_ok z vs'" using W(2) unfolding roots_ok_def sameD [OF z(1)] z .
        moreover have "mini_chain_ok db z vs' {}" by (rule mini_chain_more [OF W(3) subset_refl]) (simp_all add: z)
        ultimately show ?thesis using \<open>mini_ok z\<close> W(4) same_resolved(2) [OF z(1)] by (simp add: calc_inv_def)
      qed
      moreover have "kept_flags z kept"
      proof -
        have "kept_flags w kept" using kept_flags_cgrow [OF _ w(2) u(3)] inv by (simp add: round_inv_def)
        then show ?thesis unfolding kept_flags_def sameD [OF z(1)] z .
      qed
      moreover have "false_lit z y \<and> (y \<in> set kept \<or> justified z y \<and> (an_lrat z \<longrightarrow> reached z vs' {} (- y)))" if "y \<in> set (vs @ [x])" for y
      proof -
        have fy: "false_lit u y" using that olds fx by auto
        have n: "nat \<bar>y\<bar> < length (an_ftab u)" "nat \<bar>- y\<bar> < length (an_ftab u)" using false_litD(3) [OF tu fy] by simp_all
        have j: "justified z y" if "justified u y"
          using that cgrow_flags [OF w(2) n(1)] by (simp add: justified_def sameD [OF sz] z(2))
        have r: "reached z vs' {} (- y)" if "reached w vs' {} (- y)" using that by (simp add: reached_def z(2,7))
        show ?thesis
        proof (cases "y = x")
          case True
          then show ?thesis using fy false_lit_same [OF sz] j jx r w(5) by simp
        next
          case False
          then have "y \<in> set vs" using that by simp
          then have o: "y \<in> set kept \<or> justified u y \<and> reached u us {} (- y)" using olds L(3) by simp
          have "reached u us {} (- y) \<Longrightarrow> reached z vs' {} (- y)" using r reached_grow [OF w(2,4) _ n(2)] by blast
          moreover have "false_lit z y" using fy false_lit_same [OF sz] by simp
          ultimately show ?thesis using o j by blast
        qed
      qed
      ultimately have "round_inv db b vs' kept (vs @ [x]) z" using rest I(4) z(4) L(3) sameD(4) [OF sz] unfolding round_inv_def by auto
      moreover have "minimize_round os x (kept, s) = Ok (kept, z)"
        using u(1) True L(3) w(1) by (simp add: minimize_round_def z_def)
      ultimately show ?thesis using w(4) same_trans [OF s sz] by blast
    qed
  qed
qed
end
