(* ===== verification/Conflict_Correct.thy ===== *)
theory Conflict_Correct
  imports Conflict_Minimize
begin

unbundle bit_operations_syntax

text \<open>
  The correctness of conflict analysis: the learned clause follows from the clauses, is falsified and has one literal of the
  conflict level; the chain of antecedents passes the check by unit propagation; the flags and counters are clean afterwards.
\<close>

section \<open>All literals of the clause\<close>

lemma rounds_ok:
  assumes "round_inv db b us kept vs s" "\<forall>x \<in> set xs. false_lit s x"
  shows "\<exists>ks us' u. rfold (minimize_round os) xs (kept, s) = Ok (kept @ ks, u) \<and> round_inv db b us' (kept @ ks) (vs @ xs) u \<and>
    set us \<subseteq> set us' \<and> set ks \<subseteq> set xs \<and> (distinct xs \<longrightarrow> distinct ks)"
  using assms
proof (induction xs arbitrary: us kept vs s)
  case Nil
  then show ?case by (intro exI [of _ "[]"] exI [of _ us]) simp
next
  case (Cons x xs)
  obtain kept' us' w where w: "minimize_round os x (kept, s) = Ok (kept', w)" "round_inv db b us' kept' (vs @ [x]) w" "same s w"
    "set us \<subseteq> set us'" "kept' = kept \<or> kept' = kept @ [x]" using round_ok [OF Cons.prems(1), of x os] Cons.prems(2) by auto
  have "\<forall>y \<in> set xs. false_lit w y" using Cons.prems(2) false_lit_same [OF w(3)] by simp
  then obtain ks us'' u where u: "rfold (minimize_round os) xs (kept', w) = Ok (kept' @ ks, u)" "round_inv db b us'' (kept' @ ks) (vs @ x # xs) u"
    "set us' \<subseteq> set us''" "set ks \<subseteq> set xs" "distinct xs \<longrightarrow> distinct ks" using Cons.IH [OF w(2)] by auto
  show ?case
  proof (cases "kept' = kept")
    case True
    then show ?thesis using w(1,4) u by (intro exI [of _ ks] exI [of _ us''] exI [of _ u]) auto
  next
    case False
    then have "kept' = kept @ [x]" using w(5) by simp
    then show ?thesis using w(1,4) u by (intro exI [of _ "x # ks"] exI [of _ us''] exI [of _ u]) auto
  qed
qed

section \<open>The learned clause follows\<close>

lemma kept_implies:
  assumes "mini_ok s" "kept_flags s kept" "consistent_with s \<sigma>" "\<forall>x \<in> set kept. \<not> holds \<sigma> x" "p \<in> set (an_trail s)" "justified s p"
  shows "holds \<sigma> p"
  using assms(5,6)
proof (induction "pos s p" arbitrary: p rule: less_induct)
  case less
  have t: "trail_ok s" using assms(1) by (simp add: mini_ok_def)
  consider "lev s p = 0" | "f_keep (flg s p)" | "f_removable (flg s p)" using less.prems(2) by (auto simp: justified_def)
  then show ?case
  proof cases
    case 1
    then show ?thesis using assms(3) less.prems(1) by (simp add: consistent_with_def)
  next
    case 2
    then have "- p \<in> set kept" using assms(2) less.prems(1) by (simp add: kept_flags_def)
    then show ?thesis using assms(4) holds_neg [of p \<sigma>] true_known(4) [OF t less.prems(1)] by blast
  next
    case 3
    then have "removable_ok s p" using assms(1) less.prems(1) by (simp add: mini_ok_def)
    then obtain a j c where c: "0 < lev s p" "rsn s p = Some a" "clause_data s a = Some (j, c)" "\<forall>m \<in> set c. m \<noteq> p \<longrightarrow> justified s m"
      by (auto simp: removable_ok_def)
    have ro: "reason_ok s p c" using trail_reason [OF t less.prems(1) c(1,2)] c(3) by auto
    have "sat_clause \<sigma> c" using assms(3) c(3) unfolding consistent_with_def by blast
    then obtain m where m: "m \<in> set c" "holds \<sigma> m" by (auto simp: sat_clause_def list_ex_iff)
    show ?thesis
    proof (cases "m = p")
      case False
      then have f: "false_lit s m" "pos s m < pos s p" using ro m(1) by (auto simp: reason_ok_def)
      have "holds \<sigma> (- m)" using less.hyps [of "- m"] f c(4) m(1) False by (auto simp: false_lit_def)
      then show ?thesis using m(2) holds_neg [OF false_litD(1) [OF t f(1)]] by blast
    qed (use m in simp)
  qed
qed

lemma round_flags:
  assumes "round_inv db b us kept vs s" "x \<in> set vs" "0 < lev s x"
  shows "x \<in> set kept \<or> f_removable (flg s x) \<and> lev s x < an_level s"
proof -
  have I: "mini_ok s" "kept_flags s kept" "false_lit s x" "x \<in> set kept \<or> justified s x"
    using assms(1,2) by (auto simp: round_inv_def)
  have x: "- x \<in> set (an_trail s)" using I(3) by (simp add: false_lit_def)
  have "f_keep (flg s (- x)) \<longrightarrow> x \<in> set kept" using I(2) x unfolding kept_flags_def by fastforce
  moreover have "f_removable (flg s (- x)) \<longrightarrow> removable_ok s (- x)" using I(1) x by (simp add: mini_ok_def)
  ultimately show ?thesis using I(4) assms(3) by (auto simp: justified_def removable_ok_def)
qed

lemma rounds_follow:
  assumes "round_inv db b us kept vs s" "consistent_with s \<sigma>" "\<exists>x \<in> set vs. holds \<sigma> x"
  shows "\<exists>x \<in> set kept. holds \<sigma> x"
proof (rule ccontr)
  assume none: "\<not> ?thesis"
  have I: "mini_ok s" "kept_flags s kept" using assms(1) by (simp_all add: round_inv_def)
  have t: "trail_ok s" using I(1) by (simp add: mini_ok_def)
  obtain x where x: "x \<in> set vs" "holds \<sigma> x" using assms(3) by blast
  then have "false_lit s x" "justified s x" using assms(1) none by (auto simp: round_inv_def)
  then have "holds \<sigma> (- x)" using kept_implies [OF I assms(2), of "- x"] none by (auto simp: false_lit_def)
  then show False using x(2) holds_neg [OF false_litD(1) [OF t \<open>false_lit s x\<close>]] by blast
qed

section \<open>The chain of antecedents\<close>

lemma knows_unit:
  "knows db s \<Longrightarrow> l \<in> set (an_trail s) \<Longrightarrow> lev s l = 0 \<Longrightarrow>
   \<exists>d. db (an_units s ! vlit l) = Some d \<and> set (literals d) = {l} \<and> \<not> tautological d"
  by (simp add: knows_def)

lemma rup_units:
  assumes "knows db s" "\<forall>l \<in> set us. l \<in> set (an_trail s) \<and> lev s l = 0" "distinct us"
    "used \<inter> (\<lambda>l. an_units s ! vlit l) ` set us = {}"
    "rup db rest (used \<union> (\<lambda>l. an_units s ! vlit l) ` set us) (T \<union> set us)"
  shows "rup db (map (\<lambda>l. an_units s ! vlit l) us @ rest) used T"
  using assms(2-5)
proof (induction us arbitrary: used T)
  case Nil
  then show ?case by simp
next
  case (Cons l us)
  let ?i = "\<lambda>l. an_units s ! vlit l"
  obtain d where d: "db (?i l) = Some d" "set (literals d) = {l}" "\<not> tautological d"
    using knows_unit [OF assms(1), of l] Cons.prems(1) by auto
  have "?i l \<noteq> ?i m" if "m \<in> set us" for m
  proof
    assume e: "?i l = ?i m"
    obtain e where "db (?i m) = Some e" "set (literals e) = {m}" using knows_unit [OF assms(1), of m] Cons.prems(1) \<open>m \<in> set us\<close> by auto
    then have "l = m" using d(1,2) e by simp
    then show False using Cons.prems(2) \<open>m \<in> set us\<close> by simp
  qed
  then have disj: "insert (?i l) used \<inter> ?i ` set us = {}" using Cons.prems(3) by auto
  have sets: "insert (?i l) used \<union> ?i ` set us = used \<union> ?i ` set (l # us)" "(T \<union> {l}) \<union> set us = T \<union> set (l # us)" by auto
  have "rup db (map ?i us @ rest) (insert (?i l) used) (T \<union> {l})"
    by (rule Cons.IH) (use Cons.prems(1,2) disj Cons.prems(4) sets in simp_all)
  moreover have "\<forall>m \<in> set (literals d). m \<noteq> l \<longrightarrow> - m \<in> T" using d(2) by simp
  moreover have "?i l \<notin> used" using Cons.prems(3) by simp
  ultimately have "rup db (?i l # (map ?i us @ rest)) used T" by (intro rup_step [where l = l and d = d]) (use d(1,3) in simp_all)
  then show ?case by simp
qed

lemma final_chain:
  assumes "chain_ok db s0 i" "same s0 s" "an_lrat_chain s = an_lrat_chain s0" "an_lrat s" "round_inv db b us kept vs s"
    "resolvent s0 i = set vs" "\<forall>x \<in> set vs. 0 < lev s x" "uminus ` set (an_unit_analyzed s0) \<subseteq> set us"
  shows "rup db (rev (map (\<lambda>l. an_units s ! vlit l) us) @ mini_ids s @ rev (an_lrat_chain s)) {} (uminus ` set kept)"
proof -
  let ?i = "\<lambda>l. an_units s ! vlit l"
  have I: "mini_ok s" "kept_flags s kept" "set kept \<subseteq> set vs" "calc_inv db s us {}" "\<forall>x \<in> set vs. false_lit s x"
    using assms(4,5) by (auto simp: round_inv_def)
  have C: "roots_ok s us" "mini_chain_ok db s us {}" "knows db s" using I(4) by (simp_all add: calc_inv_def)
  have ids: "ids_ok db s (mini_ids s) (added_done s {})" using C(2) by (simp add: mini_chain_ok_def)
  have us: "\<forall>l \<in> set us. l \<in> set (an_trail s) \<and> lev s l = 0" "distinct us" using C(1) by (simp_all add: roots_ok_def)
  define T where "T = uminus ` set kept"
  have T: "T \<subseteq> set (an_trail s)" using I(3,5) by (auto simp: T_def false_lit_def)
  have unit: "\<exists>d. db (?i l) = Some d \<and> set (literals d) \<subseteq> set (an_trail s)" if l: "l \<in> set us" for l
  proof -
    have r: "l \<in> set (an_trail s)" "lev s l = 0" using us(1) l by simp_all
    obtain d where "db (?i l) = Some d" "set (literals d) = {l}" using knows_unit [OF C(3) r] by (elim exE conjE)
    then show ?thesis using us(1) l by auto
  qed
  have chain: "\<exists>d. db j = Some d \<and> (\<forall>m \<in> set (literals d). m \<in> set (an_trail s) \<longrightarrow> lev s m = an_level s) \<and> \<not> set (literals d) \<subseteq> set (an_trail s)"
    if "j \<in> set (an_lrat_chain s)" for j
    using chain_ok_ids [OF assms(1)] that assms(3) by (fastforce simp: sameD [OF assms(2)])
  have low: "lev s m < an_level s" if "m \<in> added_done s {}" for m
  proof -
    have "m \<in> set (an_trail s)" "f_removable (flg s m)" using that C(2) by (auto simp: added_done_def mini_chain_ok_def)
    then show ?thesis using I(1) by (auto simp: mini_ok_def removable_ok_def)
  qed
  have d1: "?i ` set us \<inter> set (mini_ids s) = {}"
  proof (rule ccontr)
    assume "?i ` set us \<inter> set (mini_ids s) \<noteq> {}"
    then obtain l where l: "l \<in> set us" "?i l \<in> set (mini_ids s)" by blast
    from bspec [OF ids [unfolded ids_ok_def] l(2)] obtain d where "db (?i l) = Some d" "\<not> set (literals d) \<subseteq> set (an_trail s)" by (elim exE conjE)
    then show False using unit [OF l(1)] by auto
  qed
  have "j \<notin> ?i ` set us \<union> set (mini_ids s)" if j: "j \<in> set (an_lrat_chain s)" for j
  proof
    assume "j \<in> ?i ` set us \<union> set (mini_ids s)"
    then consider l where "l \<in> set us" "j = ?i l" | "j \<in> set (mini_ids s)" by blast
    then show False
    proof cases
      case 1
      then show ?thesis using unit [of l] chain [OF j] by auto
    next
      case 2
      from bspec [OF ids [unfolded ids_ok_def] this] obtain d where d: "db j = Some d"
        "\<forall>m \<in> set (literals d). m \<in> set (an_trail s) \<longrightarrow> m \<in> added_done s {}" "\<exists>m \<in> set (literals d). m \<in> set (an_trail s)" by (elim exE conjE)
      then obtain m where "m \<in> set (literals d)" "m \<in> set (an_trail s)" "lev s m < an_level s" using low by blast
      then show ?thesis using chain [OF j] d(1) by auto
    qed
  qed
  then have d2: "set (an_lrat_chain s0) \<inter> (?i ` set us \<union> set (mini_ids s)) = {}" using assms(3) by auto
  have "- x \<in> (T \<union> set us) \<union> added_done s {}" if "x \<in> resolvent s0 i \<union> set (an_unit_analyzed s0)" for x
  proof (cases "x \<in> resolvent s0 i")
    case True
    then have x: "x \<in> set vs" "0 < lev s x" "false_lit s x" using assms(6,7) I(5) by auto
    have "x \<in> set kept \<or> reached s us {} (- x)" using assms(4,5) x(1) by (auto simp: round_inv_def)
    moreover have "f_keep (flg s (- x)) \<longrightarrow> x \<in> set kept" using I(2) x(3) unfolding kept_flags_def false_lit_def by fastforce
    ultimately show ?thesis using x(2,3) by (auto simp: reached_def T_def added_done_def false_lit_def)
  next
    case False
    then show ?thesis using that assms(8) by auto
  qed
  moreover have "added_done s {} \<subseteq> set (an_trail s)" by (auto simp: added_done_def)
  ultimately have "rup db (rev (an_lrat_chain s0)) (?i ` set us \<union> set (mini_ids s)) ((T \<union> set us) \<union> added_done s {})"
    using T us(1) sameD(2) [OF assms(2)] by (intro chain_ok_rup [OF assms(1) d2]) auto
  moreover have "kept_true s \<subseteq> T" using I(2) by (force simp: kept_true_def kept_flags_def T_def)
  then have "derives db (mini_ids s) (?i ` set us) (T \<union> set us) (added_done s {})"
    using T us(1) d1 by (intro mini_chain_derives [OF C(2)]) auto
  ultimately have "rup db (mini_ids s @ rev (an_lrat_chain s)) (?i ` set us) (T \<union> set us)" using assms(3) by (simp add: derives_def)
  then show ?thesis unfolding T_def [symmetric] rev_map by (intro rup_units [OF C(3)]) (use us in simp_all)
qed

lemma plain_chain:
  assumes "chain_ok db s i" "knows db s" "\<forall>l \<in> set us. l \<in> set (an_trail s) \<and> lev s l = 0" "distinct us"
    "resolvent s i = set c" "\<forall>x \<in> set c. false_lit s x" "uminus ` set (an_unit_analyzed s) \<subseteq> set us"
  shows "rup db (rev (map (\<lambda>l. an_units s ! vlit l) us) @ rev (an_lrat_chain s)) {} (uminus ` set c)"
proof -
  let ?i = "\<lambda>l. an_units s ! vlit l"
  have "?i l \<notin> set (an_lrat_chain s)" if l: "l \<in> set us" for l
  proof
    assume j: "?i l \<in> set (an_lrat_chain s)"
    have r: "l \<in> set (an_trail s)" "lev s l = 0" using assms(3) l by simp_all
    obtain d where d: "db (?i l) = Some d" "set (literals d) = {l}" using knows_unit [OF assms(2) r] by (elim exE conjE)
    then show False using chain_ok_ids [OF assms(1) j] r(1) by auto
  qed
  then have "set (an_lrat_chain s) \<inter> ?i ` set us = {}" by blast
  moreover have "uminus ` set c \<union> set us \<subseteq> set (an_trail s)" using assms(3,6) by (auto simp: false_lit_def)
  ultimately have "rup db (rev (an_lrat_chain s)) (?i ` set us) (uminus ` set c \<union> set us)"
    using assms(5,7) by (intro chain_ok_rup [OF assms(1)]) auto
  then show ?thesis unfolding rev_map by (intro rup_units [OF assms(2)]) (use assms(3,4) in simp_all)
qed

section \<open>Clearing the flags\<close>

lemma put_flags_all:
  assumes "\<forall>l \<in> set ls. nat \<bar>l\<bar> < length (an_ftab s)" "\<And>f. g (g f) = g f"
  shows "\<exists>fs. rfold (\<lambda>l. put_flags l g) ls s = Ok (s\<lparr>an_ftab := fs\<rparr>) \<and> length fs = length (an_ftab s) \<and>
    (\<forall>v < length fs. fs ! v = (if \<exists>l \<in> set ls. nat \<bar>l\<bar> = v then g (an_ftab s ! v) else an_ftab s ! v))"
  using assms(1)
proof (induction ls arbitrary: s)
  case Nil
  have "s = s\<lparr>an_ftab := an_ftab s\<rparr>" by simp
  then show ?case by (intro exI [of _ "an_ftab s"]) simp
next
  case (Cons l ls)
  define hs where "hs = (an_ftab s)[nat \<bar>l\<bar> := g (flg s l)]"
  have "\<forall>l \<in> set ls. nat \<bar>l\<bar> < length (an_ftab (s\<lparr>an_ftab := hs\<rparr>))" using Cons.prems by (simp add: hs_def)
  from Cons.IH [OF this] obtain fs where fs: "rfold (\<lambda>l. put_flags l g) ls (s\<lparr>an_ftab := hs\<rparr>) = Ok (s\<lparr>an_ftab := fs\<rparr>)" "length fs = length hs"
    "\<forall>v < length fs. fs ! v = (if \<exists>l \<in> set ls. nat \<bar>l\<bar> = v then g (hs ! v) else hs ! v)" by auto
  have "hs ! v = (if nat \<bar>l\<bar> = v then g (an_ftab s ! v) else an_ftab s ! v)" if "v < length fs" for v
    using that fs(2) by (auto simp: hs_def nth_list_update)
  then have "\<forall>v < length fs. fs ! v = (if \<exists>k \<in> set (l # ls). nat \<bar>k\<bar> = v then g (an_ftab s ! v) else an_ftab s ! v)"
    using fs(3) assms(2) by simp
  moreover have "rfold (\<lambda>l. put_flags l g) (l # ls) s = Ok (s\<lparr>an_ftab := fs\<rparr>)"
    using fs(1) Cons.prems by (simp add: put_flags_ok hs_def)
  ultimately show ?case using fs(2) by (intro exI [of _ fs]) (simp add: hs_def)
qed

lemma clear_minimized_ok:
  assumes "\<forall>l \<in> set (an_minimized s @ an_clause s). nat \<bar>l\<bar> < length (an_ftab s)"
    "\<forall>v < length (an_ftab s). f_removable (an_ftab s ! v) \<or> f_poison (an_ftab s ! v) \<longrightarrow> (\<exists>l \<in> set (an_minimized s). nat \<bar>l\<bar> = v)"
    "\<forall>v < length (an_ftab s). f_keep (an_ftab s ! v) \<longrightarrow> (\<exists>l \<in> set (an_clause s). nat \<bar>l\<bar> = v)"
    "\<forall>v < length (an_ftab s). f_added (an_ftab s ! v) \<longrightarrow> f_removable (an_ftab s ! v)"
  shows "\<exists>fs. clear_minimized_literals s = Ok (s\<lparr>an_ftab := fs, an_minimized := []\<rparr>) \<and> length fs = length (an_ftab s) \<and>
    (\<forall>v < length fs. clean_flags (fs ! v) \<and> f_seen (fs ! v) = f_seen (an_ftab s ! v))"
proof -
  obtain gs where gs: "rfold (\<lambda>lit. put_flags lit (\<lambda>f. f\<lparr>f_poison := False, f_removable := False, f_added := False\<rparr>)) (an_minimized s) s =
      Ok (s\<lparr>an_ftab := gs\<rparr>)" "length gs = length (an_ftab s)"
    "\<forall>v < length gs. gs ! v = (if \<exists>l \<in> set (an_minimized s). nat \<bar>l\<bar> = v
       then (an_ftab s ! v)\<lparr>f_poison := False, f_removable := False, f_added := False\<rparr> else an_ftab s ! v)"
    using put_flags_all [of "an_minimized s" s "\<lambda>f. f\<lparr>f_poison := False, f_removable := False, f_added := False\<rparr>"] assms(1) by auto
  obtain fs where fs: "rfold (\<lambda>lit. put_flags lit (\<lambda>f. f\<lparr>f_keep := False, f_added := False\<rparr>)) (an_clause s) (s\<lparr>an_ftab := gs\<rparr>) =
      Ok (s\<lparr>an_ftab := fs\<rparr>)" "length fs = length gs"
    "\<forall>v < length fs. fs ! v = (if \<exists>l \<in> set (an_clause s). nat \<bar>l\<bar> = v then (gs ! v)\<lparr>f_keep := False, f_added := False\<rparr> else gs ! v)"
    using put_flags_all [of "an_clause s" "s\<lparr>an_ftab := gs\<rparr>" "\<lambda>f. f\<lparr>f_keep := False, f_added := False\<rparr>"] assms(1) gs(2) by auto
  have "clean_flags (fs ! v) \<and> f_seen (fs ! v) = f_seen (an_ftab s ! v)" if v: "v < length fs" for v
  proof (cases "\<exists>l \<in> set (an_minimized s). nat \<bar>l\<bar> = v")
    case True
    then show ?thesis using fs(2,3) gs(2,3) assms(3) v by (auto simp: clean_flags_def)
  next
    case False
    have n: "v < length (an_ftab s)" using v fs(2) gs(2) by simp
    then have "\<not> f_removable (an_ftab s ! v)" "\<not> f_poison (an_ftab s ! v)" "\<not> f_added (an_ftab s ! v)"
      using False assms(2,4) by blast+
    moreover have "gs ! v = an_ftab s ! v" using False gs(2,3) n by simp
    ultimately show ?thesis using fs(2,3) gs(2) assms(3) v n by (auto simp: clean_flags_def)
  qed
  then show ?thesis using gs(1,2) fs(1,2) by (intro exI [of _ fs]) (simp add: clear_minimized_literals_def)
qed
section \<open>The learned clause\<close>

definition flags_listed :: "analysis \<Rightarrow> bool" where
  "flags_listed s \<longleftrightarrow> (\<forall>l \<in> set (an_analyzed s @ an_unit_analyzed s). nat \<bar>l\<bar> < length (an_ftab s)) \<and>
     (\<forall>v < length (an_ftab s). clean_flags (an_ftab s ! v) \<and>
        (f_seen (an_ftab s ! v) \<longrightarrow> (\<exists>l \<in> set (an_analyzed s @ an_unit_analyzed s). nat \<bar>l\<bar> = v))) \<and>
     (\<forall>k < length (an_control s). l_seen_count (an_control s ! k) \<noteq> 0 \<longrightarrow> k \<in> set (an_levels s))"

definition driving :: "analysis \<Rightarrow> int \<Rightarrow> int list \<Rightarrow> bool" where
  "driving st uip c \<longleftrightarrow> - uip \<in> set c \<and> distinct c \<and> (\<forall>l \<in> set c. false_lit st l \<and> 0 < lev st l \<and> (lev st l = an_level st \<longleftrightarrow> l = - uip))"

definition learned_ok :: "(nat \<Rightarrow> lrat_clause option) \<Rightarrow> analysis \<Rightarrow> int \<Rightarrow> analysis \<Rightarrow> bool" where
  "learned_ok db st uip s \<longleftrightarrow> same st s \<and> flags_listed s \<and> driving st uip (an_clause s) \<and>
     (\<forall>\<sigma>. consistent_with st \<sigma> \<longrightarrow> (\<exists>l \<in> set (an_clause s). holds \<sigma> l)) \<and>
     (an_lrat st \<longrightarrow> rup db (rev (an_lrat_chain s @ an_unit_chain s)) {} (uminus ` set (an_clause s))) \<and>
     (\<not> an_lrat st \<longrightarrow> an_unit_chain s = []) \<and> an_minimized s = [] \<and> an_mini_chain s = [] \<and> an_minimize_chain s = []"

lemma sort_var_key [simp]: "set (sort_key f xs) = set xs" "distinct (sort_key f xs) = distinct xs"
  by simp_all

lemma set_clause_same [simp]: "same st (st\<lparr>an_clause := c\<rparr>)"
  by (simp add: same_def clause_data_def fun_eq_iff)

lemma uip_driving:
  assumes "uip_found db st uip u" "0 < an_level st"
  shows "driving st uip (an_clause u @ [- uip])"
proof -
  have u: "same st u" "uip \<in> set (an_trail st)" "lev st uip = an_level st" "seen_ok u"
    using assms(1) by (simp_all add: uip_found_def uip_inv_def analysis_ok_def)
  have "\<forall>l \<in> set (an_clause u). false_lit st l \<and> 0 < lev st l \<and> lev st l < an_level st" "distinct (an_clause u)"
    using u(4) sameD [OF u(1)] false_lit_same [OF u(1)] by (auto simp: seen_ok_def)
  moreover have "- uip \<notin> set (an_clause u)" using calculation(1) u(3) by force
  moreover have "false_lit st (- uip)" using u(2) by (simp add: false_lit_def)
  ultimately show ?thesis using u(3) assms(2) by (auto simp: driving_def)
qed

lemma round_init:
  assumes "trail_ok u" "analysis_ok u" "an_lrat u \<longrightarrow> knows db u" "an_minimized u = []" "an_mini_chain u = []" "an_minimize_chain u = []"
    "b = u\<lparr>an_clause := c\<rparr>"
  shows "round_inv db b (map uminus (an_unit_analyzed u)) [] [] b"
proof -
  have b: "same u b" by (simp add: assms(7))
  have e: "an_ftab b = an_ftab u" "an_unit_chain b = an_unit_chain u" by (simp_all add: assms(7))
  have cl: "\<not> f_keep (an_ftab u ! v)" "\<not> f_poison (an_ftab u ! v)" "\<not> f_removable (an_ftab u ! v)" "\<not> f_added (an_ftab u ! v)"
    if "v < length (an_ftab u)" for v using assms(2) that by (simp_all add: analysis_ok_def seen_ok_def clean_flags_def)
  note tk = true_known(1) [OF assms(1)]
  have mini: "mini_ok b" using assms(1) trail_ok_same [OF b] cl tk assms(4) by (simp add: mini_ok_def assms(7))
  have rest: "same_rest b b" by (simp add: same_rest_def)
  have kept: "kept_flags b []" using cl tk by (simp add: kept_flags_def assms(7))
  have ua: "\<forall>l \<in> set (an_unit_analyzed u). false_lit u l \<and> lev u l = 0" "distinct (an_unit_analyzed u)"
    "an_unit_chain u = map (\<lambda>l. an_units u ! vlit (- l)) (an_unit_analyzed u)"
    using assms(2) by (simp_all add: analysis_ok_def units_ok_def seen_ok_def)
  have seen: "f_seen (flg u l) \<longleftrightarrow> l \<in> uminus ` set (an_unit_analyzed u)" if l: "l \<in> set (an_trail u)" "lev u l = 0" for l
  proof -
    have "false_lit u (- l)" using l(1) by (simp add: false_lit_def)
    then have "f_seen (flg u (- l)) \<longleftrightarrow> - l \<in> set (an_analyzed u @ an_unit_analyzed u)" by (rule seen_iff [OF assms(1,2)])
    moreover have "- l \<notin> set (an_analyzed u)" using l(2) assms(2) unfolding analysis_ok_def seen_ok_def by fastforce
    moreover have "- l \<in> set (an_unit_analyzed u) \<longleftrightarrow> l \<in> uminus ` set (an_unit_analyzed u)" by force
    ultimately show ?thesis by simp
  qed
  have "roots_ok b (map uminus (an_unit_analyzed u))"
    using ua seen unfolding roots_ok_def sameD [OF b] e by (auto simp: false_lit_def distinct_map inj_on_def)
  moreover have "added_done b {} = {}" "\<forall>p \<in> set (an_trail b). \<not> f_added (flg b p)" "mini_ids b = []"
    using cl tk assms(5,6) by (auto simp: added_done_def mini_ids_def assms(7))
  then have "mini_chain_ok db b us {}" for us by (simp add: mini_chain_ok_def ids_ok_def derives_def)
  ultimately show ?thesis
    using mini rest kept assms(3) same_resolved(2) [OF b] assms(5) by (simp add: round_inv_def calc_inv_def) (simp add: assms(7))
qed
lemma driving_sub:
  assumes "driving st uip c" "set ks \<subseteq> set c" "distinct ks" "- uip \<in> set ks"
  shows "driving st uip ks"
  using assms by (auto simp: driving_def)

lemma driving_set:
  assumes "driving st uip c" "set ks = set c" "distinct ks"
  shows "driving st uip ks"
  using assms by (auto simp: driving_def)

text \<open>The state at the unique implication point, as far as the chain and the flags are concerned.\<close>

lemma found_facts:
  assumes "uip_found db st uip u"
  shows "trail_ok u" "analysis_ok u" "an_lrat u \<longrightarrow> knows db u" "same st u" "an_lrat u \<longrightarrow> chain_ok db u (Suc (pos st uip))"
    "resolvent u (Suc (pos st uip)) = set (an_clause u @ [- uip])"
    "consistent_with u \<sigma> \<longrightarrow> (\<exists>l \<in> set (an_clause u @ [- uip]). holds \<sigma> l)"
    "\<not> an_lrat u \<longrightarrow> an_unit_chain u = []"
proof -
  have u: "trail_ok u" "analysis_ok u" "resolved u (Suc (pos st uip))" "an_lrat u \<longrightarrow> knows db u \<and> chain_ok db u (Suc (pos st uip))" "same st u"
    "resolvent u (Suc (pos st uip)) = insert (- uip) (set (an_clause u))"
    using assms by (simp_all add: uip_found_def uip_inv_def)
  show "trail_ok u" "analysis_ok u" "same st u" by (rule u)+
  show "an_lrat u \<longrightarrow> knows db u" "an_lrat u \<longrightarrow> chain_ok db u (Suc (pos st uip))" using u(4) by simp_all
  show r: "resolvent u (Suc (pos st uip)) = set (an_clause u @ [- uip])" using u(6) by simp
  show "consistent_with u \<sigma> \<longrightarrow> (\<exists>l \<in> set (an_clause u @ [- uip]). holds \<sigma> l)" using u(3) unfolding resolved_def r by blast
  show "\<not> an_lrat u \<longrightarrow> an_unit_chain u = []" using u(2) by (auto simp: analysis_ok_def units_ok_def)
qed

lemma found_listed:
  assumes "trail_ok u" "analysis_ok u"
  shows "flags_listed u"
proof -
  have f: "\<forall>l \<in> set (an_analyzed u @ an_unit_analyzed u). false_lit u l"
    using assms(2) by (auto simp: analysis_ok_def seen_ok_def units_ok_def)
  have "k \<in> set (an_levels u)" if k: "k < length (an_control u)" "l_seen_count (an_control u ! k) \<noteq> 0" for k
  proof -
    have "{l \<in> set (an_analyzed u). lev u l = k} \<noteq> {}" using assms(2) k by (auto simp: analysis_ok_def levels_ok_def)
    moreover have "set (an_levels u) = lev u ` set (an_analyzed u)" using assms(2) by (simp add: analysis_ok_def levels_ok_def)
    ultimately show ?thesis by blast
  qed
  moreover have "\<forall>v < length (an_ftab u). clean_flags (an_ftab u ! v) \<and>
      (f_seen (an_ftab u ! v) \<longrightarrow> (\<exists>l \<in> set (an_analyzed u @ an_unit_analyzed u). nat \<bar>l\<bar> = v))"
    using assms(2) by (simp add: analysis_ok_def seen_ok_def)
  ultimately show ?thesis using false_litD(3) [OF assms(1)] f unfolding flags_listed_def by blast
qed

lemma learned_minimized:
  assumes "uip_found db st uip u" "0 < an_level st" "an_minimized u = []" "an_mini_chain u = []" "an_minimize_chain u = []"
  shows "\<exists>s. minimize_clause os (u\<lparr>an_clause := an_clause u @ [- uip]\<rparr>) = Ok s \<and> learned_ok db st uip s"
proof -
  note F = found_facts [OF assms(1)]
  define c where "c = an_clause (minimize_sort_clause (u\<lparr>an_clause := an_clause u @ [- uip]\<rparr>))"
  define b where "b = u\<lparr>an_clause := c\<rparr>"
  let ?us = "map uminus (an_unit_analyzed u)"
  have b: "minimize_sort_clause (u\<lparr>an_clause := an_clause u @ [- uip]\<rparr>) = b" "an_clause b = c" "same u b"
    by (simp_all add: b_def c_def minimize_sort_clause_def)
  have c: "set c = set (an_clause u @ [- uip])" "distinct c = distinct (an_clause u @ [- uip])"
    by (simp_all add: c_def minimize_sort_clause_def)
  have dr: "driving st uip c"
    by (rule driving_set [OF uip_driving [OF assms(1,2)] c(1)]) (use c(2) uip_driving [OF assms(1,2)] in \<open>simp add: driving_def\<close>)
  have sb: "same st b" by (rule same_trans [OF F(4) b(3)])
  have inv: "round_inv db b ?us [] [] b" by (rule round_init [OF F(1-3) assms(3-5) b_def])
  have fc: "\<forall>x \<in> set c. false_lit b x" using dr false_lit_same [OF sb] by (simp add: driving_def)
  obtain ks us s1 where s1: "rfold (minimize_round os) c ([], b) = Ok (ks, s1)" "round_inv db b us ks c s1" "set ?us \<subseteq> set us"
    "set ks \<subseteq> set c" "distinct ks" using rounds_ok [OF inv fc, of os] dr by (auto simp: driving_def)
  have R: "same_rest b s1" "mini_ok s1" "kept_flags s1 ks" "an_lrat s1 \<longrightarrow> calc_inv db s1 us {} \<and> an_mini_chain s1 = []"
    "\<not> an_lrat s1 \<longrightarrow> an_unit_chain s1 = an_unit_chain b \<and> an_mini_chain s1 = an_mini_chain b"
    using s1(2) by (simp_all add: round_inv_def)
  have bs: "same b s1" using R(1) by (simp add: same_rest_def)
  have ss: "same st s1" by (rule same_trans [OF sb bs])
  have t1: "trail_ok s1" using R(2) by (simp add: mini_ok_def)
  define s2 where "s2 = s1\<lparr>an_clause := ks\<rparr>"
  have rng: "\<forall>l \<in> set (an_minimized s2 @ an_clause s2). nat \<bar>l\<bar> < length (an_ftab s2)"
    using R(2) true_known(1) [OF t1] false_litD(3) [OF t1] s1(4) fc false_lit_same [OF bs] by (auto simp: s2_def mini_ok_def)
  have "\<exists>fs. clear_minimized_literals s2 = Ok (s2\<lparr>an_ftab := fs, an_minimized := []\<rparr>) \<and> length fs = length (an_ftab s2) \<and>
    (\<forall>v < length fs. clean_flags (fs ! v) \<and> f_seen (fs ! v) = f_seen (an_ftab s2 ! v))"
    by (rule clear_minimized_ok [OF rng]) (use R(2,3) in \<open>simp_all add: s2_def mini_ok_def kept_flags_def\<close>)
  then obtain fs where fs: "clear_minimized_literals s2 = Ok (s2\<lparr>an_ftab := fs, an_minimized := []\<rparr>)" "length fs = length (an_ftab s1)"
    "\<forall>v < length fs. clean_flags (fs ! v) \<and> f_seen (fs ! v) = f_seen (an_ftab s1 ! v)" by (auto simp: s2_def)
  define s where "s = s2\<lparr>an_ftab := fs, an_minimized := [], an_lrat_chain := an_lrat_chain s1 @ rev (an_minimize_chain s1), an_minimize_chain := []\<rparr>"
  have run: "minimize_clause os (u\<lparr>an_clause := an_clause u @ [- uip]\<rparr>) = Ok s"
    using s1(1) fs(1) b(1,2) by (simp add: minimize_clause_def Let_def s_def s2_def)
  have "same s1 s" by (simp add: s_def s2_def same_def fs(2) clause_data_def fun_eq_iff)
  then have st: "same st s" by (rule same_trans [OF ss])
  have "- uip \<in> set c" "0 < lev s1 (- uip)" "lev s1 (- uip) = an_level s1" using dr assms(2) by (auto simp: driving_def sameD [OF ss])
  then have "- uip \<in> set ks" using round_flags [OF s1(2)] by fastforce
  then have drk: "driving st uip ks" by (rule driving_sub [OF dr s1(4,5)])
  have sem: "\<exists>l \<in> set ks. holds \<sigma> l" if C: "consistent_with st \<sigma>" for \<sigma>
    by (rule rounds_follow [OF s1(2)]) (use C F(7) c(1) in \<open>simp_all add: same_resolved(1) [OF ss] same_resolved(1) [OF F(4)]\<close>)
  have us: "same u s1" by (rule same_trans [OF b(3) bs])
  have "rup db (rev (an_lrat_chain s @ an_unit_chain s)) {} (uminus ` set ks)" if L: "an_lrat st"
  proof -
    have Ls: "an_lrat s1" "an_lrat u" using L sameD(4) [OF ss] sameD(4) [OF F(4)] by simp_all
    have "rup db (rev (map (\<lambda>l. an_units s1 ! vlit l) us) @ mini_ids s1 @ rev (an_lrat_chain s1)) {} (uminus ` set ks)"
    proof (rule final_chain [OF _ us])
      show "chain_ok db u (Suc (pos st uip))" using F(5) Ls by simp
      show "an_lrat_chain s1 = an_lrat_chain u" using R(1) by (simp add: same_rest_def b_def)
      show "an_lrat s1" "round_inv db b us ks c s1" by (rule Ls s1)+
      show "resolvent u (Suc (pos st uip)) = set c" using F(6) c(1) by simp
      show "\<forall>x \<in> set c. 0 < lev s1 x" using dr by (simp add: driving_def sameD [OF ss])
      show "uminus ` set (an_unit_analyzed u) \<subseteq> set us" using s1(3) by simp
    qed
    moreover have "an_unit_chain s1 = map (\<lambda>l. an_units s1 ! vlit l) us" using R(4) Ls by (simp add: calc_inv_def roots_ok_def)
    ultimately show ?thesis using R(4) Ls by (simp add: s_def s2_def mini_ids_def)
  qed
  moreover have "flags_listed s"
  proof -
    obtain as where as: "an_analyzed s1 = an_analyzed b @ as" "set as \<subseteq> set (an_trail b)"
        "\<forall>v < length (an_ftab s1). f_seen (an_ftab s1 ! v) \<longleftrightarrow> f_seen (an_ftab b ! v) \<or> (\<exists>l \<in> set as. nat \<bar>l\<bar> = v)"
      using R(1) by (auto simp: same_rest_def)
    have l: "flags_listed u" by (rule found_listed [OF F(1,2)])
    have "an_unit_analyzed s1 = an_unit_analyzed u" "an_levels s1 = an_levels u" "an_control s1 = an_control u" "an_analyzed s1 = an_analyzed u @ as"
      "length (an_ftab s1) = length (an_ftab u)" using R(1) as(1) sameD(6) [OF us] by (simp_all add: same_rest_def b_def)
    then show ?thesis
      using l fs(2,3) as(2,3) true_known(1) [OF F(1)] by (auto simp: flags_listed_def s_def s2_def b_def)
  qed
  ultimately show ?thesis
    using run st drk sem R(4,5) F(8) assms(4) sameD(4) [OF ss] sameD(4) [OF F(4)]
    by (intro exI [of _ s]) (auto simp: learned_ok_def s_def s2_def b_def)
qed
section \<open>The order of the driving clause\<close>

definition fits32 :: "analysis \<Rightarrow> bool" where
  "fits32 st \<longleftrightarrow> an_level st < 2 ^ 32 \<and> length (an_trail st) \<le> 2 ^ 32"

lemma unat_not: "unat (NOT (x :: 64 word)) = 2 ^ 64 - 1 - unat x"
proof -
  have "NOT x = - 1 - x" by (simp add: not_eq_complement)
  moreover have "unat (- 1 - x) = unat (- 1 :: 64 word) - unat x" by (rule unat_sub) simp
  moreover have "unat (- 1 :: 64 word) = 2 ^ 64 - 1" by (simp add: unsigned_minus_1_eq_mask mask_eq_exp_minus_1)
  ultimately show ?thesis by simp
qed
lemma unat_key:
  assumes "l < 2 ^ 32" "t < 2 ^ 32"
  shows "unat (push_bit 32 (word_of_nat l) OR word_of_nat t :: 64 word) = l * 2 ^ 32 + t"
proof -
  have "uint (push_bit 32 (word_of_nat l) OR word_of_nat t :: 64 word) = concat_bit 32 (int t) (int l)"
  proof -
    have l: "int l * 2 ^ 32 < 2 ^ 64" "int l < 2 ^ 64" using assms(1) by simp_all
    have "uint (push_bit 32 (word_of_nat l) :: 64 word) = take_bit 64 (push_bit 32 (uint (word_of_nat l :: 64 word)))"
      by (simp only: unsigned_push_bit_eq len_num0 len_num1 len_bit0 len_bit1) simp
    also have "uint (word_of_nat l :: 64 word) = int l" using l(2) by (simp add: unsigned_of_nat take_bit_nat_eq_self_iff)
    also have "take_bit 64 (push_bit 32 (int l)) = push_bit 32 (int l)" using l(1) by (simp add: push_bit_eq_mult take_bit_int_eq_self)
    finally have "uint (push_bit 32 (word_of_nat l) :: 64 word) = push_bit 32 (int l)" .
    moreover have "uint (word_of_nat t :: 64 word) = take_bit 32 (int t)"
      using assms(2) by (simp add: unsigned_of_nat take_bit_int_eq_self take_bit_nat_eq_self_iff)
    ultimately show ?thesis by (simp add: concat_bit_def uint_or or.commute)
  qed
  also have "\<dots> = int (l * 2 ^ 32 + t)" using assms(2) by (simp add: concat_bit_eq push_bit_eq_mult take_bit_int_eq_self)
  finally show ?thesis by (simp only: uint_nat of_nat_eq_iff)
qed
lemma key_less:
  assumes "(t :: nat) < 2 ^ 32" "l < m"
  shows "l * 2 ^ 32 + t < m * 2 ^ 32 + k"
proof -
  have "Suc l * 2 ^ 32 \<le> m * 2 ^ 32" using assms(2) by (intro mult_right_mono) simp_all
  then show ?thesis using assms(1) by simp
qed

lemma rank_level:
  assumes "v_level v < 2 ^ 32" "v_trail v < 2 ^ 32" "v_level w < 2 ^ 32" "v_trail w < 2 ^ 32" "analyze_trail_rank v \<le> analyze_trail_rank w"
  shows "v_level w \<le> v_level v"
proof (rule ccontr)
  assume "\<not> v_level w \<le> v_level v"
  then have "v_level v * 2 ^ 32 + v_trail v < v_level w * 2 ^ 32 + v_trail w" by (intro key_less [OF assms(2)]) simp
  moreover have "v_level w * 2 ^ 32 + v_trail w < 2 ^ 64" using assms(3,4) by simp
  moreover have "(2 :: nat) ^ 64 - 1 - (v_level v * 2 ^ 32 + v_trail v) \<le> 2 ^ 64 - 1 - (v_level w * 2 ^ 32 + v_trail w)"
    using assms(5) unfolding analyze_trail_rank_def word_le_nat_alt unat_not unat_key [OF assms(1,2)] unat_key [OF assms(3,4)] .
  ultimately show False by simp
qed
lemma Max_levels:
  assumes "\<forall>x \<in> A. f x \<le> (n :: nat)" "n = 0 \<or> (\<exists>x \<in> A. f x = n)" "finite A"
  shows "Max (insert 0 (f ` A)) = n"
  using assms by (intro Max_eqI) auto

lemma driving_sorted:
  assumes "trail_ok st" "fits32 st" "driving st uip c" "sorted (map (var_key analyze_trail_rank 0 st) c)"
  shows "c ! 0 = - uip" "length c > 1 \<Longrightarrow> Max (insert 0 (lev st ` (set c - {- uip}))) = lev st (c ! 1)"
proof -
  have D: "- uip \<in> set c" "distinct c" "\<forall>l \<in> set c. false_lit st l \<and> (lev st l = an_level st \<longleftrightarrow> l = - uip)" using assms(3) by (simp_all add: driving_def)
  have le: "lev st m \<le> lev st l" if lm: "l \<in> set c" "m \<in> set c" "var_key analyze_trail_rank 0 st l \<le> var_key analyze_trail_rank 0 st m" for l m
  proof -
    have k: "nat \<bar>x\<bar> < length (an_vtab st)" "lev st x < 2 ^ 32" "pos st x < 2 ^ 32" if "x \<in> set c" for x
    proof -
      have f: "false_lit st x" using D(3) that by blast
      show "nat \<bar>x\<bar> < length (an_vtab st)" by (rule false_litD(2) [OF assms(1) f])
      show "lev st x < 2 ^ 32" "pos st x < 2 ^ 32" using false_litD(5,7) [OF assms(1) f] assms(2) by (simp_all add: fits32_def)
    qed
    have "analyze_trail_rank (an_vtab st ! nat \<bar>l\<bar>) \<le> analyze_trail_rank (an_vtab st ! nat \<bar>m\<bar>)"
      using lm(3) k(1) [OF lm(1)] k(1) [OF lm(2)] by (simp add: var_key_def var_def)
    then show ?thesis by (rule rank_level [OF k(2,3) [OF lm(1)] k(2,3) [OF lm(2)]])
  qed
  obtain x xs where c: "c = x # xs" using D(1) by (cases c) auto
  have "lev st (- uip) \<le> lev st x" using D(1) assms(4) c by (intro le) auto
  moreover have "lev st (- uip) = an_level st" using D(1,3) by blast
  moreover have "lev st x \<le> an_level st" using D(3) c false_litD(7) [OF assms(1), of x] by simp
  ultimately have x: "x = - uip" using D(3) c by simp
  then show "c ! 0 = - uip" using c by simp
  assume "length c > 1"
  then obtain y ys where ys: "xs = y # ys" using c by (cases xs) auto
  have "lev st z \<le> lev st y" if "z \<in> set (y # ys)" for z using that assms(4) c ys by (intro le) auto
  then have "Max (insert 0 (lev st ` set (y # ys))) = lev st y" by (intro Max_levels) auto
  moreover have "set c - {- uip} = set (y # ys)" using D(2) c ys x by auto
  ultimately show "Max (insert 0 (lev st ` (set c - {- uip}))) = lev st (c ! 1)" using c ys by simp
qed

lemma new_driving_ok:
  assumes "trail_ok st" "same st s" "driving st uip (an_clause s)"
  shows "\<exists>jump c. new_driving_clause s = Ok (jump, s\<lparr>an_clause := c\<rparr>) \<and> driving st uip c \<and> set c = set (an_clause s) \<and>
    (fits32 st \<longrightarrow> c ! 0 = - uip \<and> jump = Max (insert 0 (lev st ` (set c - {- uip}))))"
proof (cases "length (an_clause s) \<le> 1")
  case True
  have "- uip \<in> set (an_clause s)" using assms(3) by (simp add: driving_def)
  then have c: "an_clause s = [- uip]" using True by (cases "an_clause s") auto
  have s: "s\<lparr>an_clause := [- uip]\<rparr> = s" using c by simp
  show ?thesis using c assms(3) s by (intro exI [of _ 0] exI [of _ "[- uip]"]) (simp add: new_driving_clause_def)
next
  case False
  define c where "c = sort_key (var_key analyze_trail_rank 0 s) (an_clause s)"
  have k: "var_key analyze_trail_rank 0 s = var_key analyze_trail_rank 0 st" by (simp add: var_key_def var_def sameD [OF assms(2)] fun_eq_iff)
  have set: "set c = set (an_clause s)" "length c > 1" using False by (simp_all add: c_def)
  have d: "driving st uip c" by (rule driving_set [OF assms(3) set(1)]) (use assms(3) in \<open>simp add: c_def driving_def\<close>)
  have so: "sorted (map (var_key analyze_trail_rank 0 st) c)" by (simp add: c_def k)
  have "c ! 1 \<in> set c" using set(2) by (intro nth_mem) simp
  then have "false_lit st (c ! 1)" using d by (simp add: driving_def)
  then have "nat \<bar>c ! 1\<bar> < length (an_vtab st)" by (rule false_litD(2) [OF assms(1)])
  then have run: "new_driving_clause s = Ok (lev st (c ! 1), s\<lparr>an_clause := c\<rparr>)"
    using False by (simp add: new_driving_clause_def c_def Let_def var_def sameD [OF assms(2)])
  show ?thesis
    by (rule exI [of _ "lev st (c ! 1)"], rule exI [of _ c])
      (use run d set driving_sorted [OF assms(1) _ d so] in simp)
qed
section \<open>Cleaning up\<close>

lemma length_reset_at [simp]: "length (reset_at l cs) = length cs"
  by (simp add: reset_at_def)

lemma length_reset_levels: "length (fold reset_at ls cs) = length cs"
  by (induction ls arbitrary: cs) simp_all

lemma reset_levels: "k < length cs \<Longrightarrow> l_seen_count (fold reset_at ls cs ! k) = (if k \<in> set ls then 0 else l_seen_count (cs ! k))"
proof (induction ls arbitrary: cs)
  case (Cons l ls)
  have "k < length (reset_at l cs)" using Cons.prems by simp
  from Cons.IH [OF this] show ?case using Cons.prems by (auto simp: reset_at_def nth_list_update reset_level_def)
qed simp

lemma clean_up_ok:
  assumes "flags_listed s" "an_unit_chain s = []" "an_minimized s = []" "an_mini_chain s = []" "an_minimize_chain s = []"
  shows "\<exists>w. clean_up s = Ok w \<and> same s w \<and> fresh_state w"
proof -
  have L: "\<forall>l \<in> set (an_analyzed s @ an_unit_analyzed s). nat \<bar>l\<bar> < length (an_ftab s)"
    "\<forall>v < length (an_ftab s). clean_flags (an_ftab s ! v)"
    "\<forall>v < length (an_ftab s). f_seen (an_ftab s ! v) \<longrightarrow> (\<exists>l \<in> set (an_analyzed s @ an_unit_analyzed s). nat \<bar>l\<bar> = v)"
    "\<forall>k < length (an_control s). l_seen_count (an_control s ! k) \<noteq> 0 \<longrightarrow> k \<in> set (an_levels s)"
    using assms(1) by (simp_all add: flags_listed_def)
  obtain fs where fs: "rfold (\<lambda>l. put_flags l (f_seen_update (\<lambda>_. False))) (an_analyzed s) s = Ok (s\<lparr>an_ftab := fs\<rparr>)" "length fs = length (an_ftab s)"
    "\<forall>v < length fs. fs ! v = (if \<exists>l \<in> set (an_analyzed s). nat \<bar>l\<bar> = v then (an_ftab s ! v)\<lparr>f_seen := False\<rparr> else an_ftab s ! v)"
    using put_flags_all [of "an_analyzed s" s "f_seen_update (\<lambda>_. False)"] L(1) by auto
  define s1 where "s1 = s\<lparr>an_ftab := fs, an_analyzed := []\<rparr>"
  obtain gs where gs: "rfold (\<lambda>l. put_flags l (f_seen_update (\<lambda>_. False))) (an_unit_analyzed s) s1 = Ok (s1\<lparr>an_ftab := gs\<rparr>)" "length gs = length fs"
    "\<forall>v < length gs. gs ! v = (if \<exists>l \<in> set (an_unit_analyzed s). nat \<bar>l\<bar> = v then (fs ! v)\<lparr>f_seen := False\<rparr> else fs ! v)"
    using put_flags_all [of "an_unit_analyzed s" s1 "f_seen_update (\<lambda>_. False)"] L(1) fs(2) by (auto simp: s1_def)
  define cs where "cs = fold reset_at (an_levels s) (an_control s)"
  define w where "w = s1\<lparr>an_ftab := gs, an_unit_analyzed := [], an_control := cs, an_levels := [], an_clause := [], an_lrat_chain := []\<rparr>"
  have "clear_analyzed_literals s = Ok s1" using fs(1) by (simp add: clear_analyzed_literals_def s1_def)
  moreover have "clear_unit_analyzed_literals s1 = Ok (s1\<lparr>an_ftab := gs, an_unit_analyzed := []\<rparr>)"
    using gs(1) by (simp add: clear_unit_analyzed_literals_def s1_def)
  ultimately have run: "clean_up s = Ok w" by (simp add: clean_up_def clear_analyzed_levels_def w_def cs_def s1_def)
  have cs: "length cs = length (an_control s)" "\<forall>k < length cs. l_seen_count (cs ! k) = 0"
    using reset_levels [of _ "an_control s" "an_levels s"] L(4) by (auto simp: cs_def length_reset_levels)
  have "\<not> f_seen (gs ! v) \<and> clean_flags (gs ! v)" if v: "v < length gs" for v
  proof -
    have n: "v < length fs" "v < length (an_ftab s)" using v gs(2) fs(2) by simp_all
    have "clean_flags (an_ftab s ! v)" "f_seen (an_ftab s ! v) \<longrightarrow> (\<exists>l \<in> set (an_analyzed s @ an_unit_analyzed s). nat \<bar>l\<bar> = v)"
      using L(2,3) n(2) by blast+
    moreover have "gs ! v = (if \<exists>l \<in> set (an_unit_analyzed s). nat \<bar>l\<bar> = v then (fs ! v)\<lparr>f_seen := False\<rparr> else fs ! v)" using gs(3) v by blast
    moreover have "fs ! v = (if \<exists>l \<in> set (an_analyzed s). nat \<bar>l\<bar> = v then (an_ftab s ! v)\<lparr>f_seen := False\<rparr> else an_ftab s ! v)" using fs(3) n(1) by blast
    ultimately show ?thesis by (auto simp: clean_flags_def)
  qed
  then have "\<forall>f \<in> set gs. \<not> f_seen f \<and> clean_flags f" by (auto simp: in_set_conv_nth)
  moreover have "\<forall>l \<in> set cs. l_seen_count l = 0" using cs(2) by (auto simp: in_set_conv_nth)
  ultimately have "fresh_state w" using assms(2-5) by (simp add: fresh_state_def w_def s1_def)
  moreover have "same s w" using gs(2) fs(2) cs(1) by (simp add: w_def s1_def same_def clause_data_def fun_eq_iff)
  ultimately show ?thesis using run by blast
qed

section \<open>From a conflict to the learned clause\<close>

lemma learned_plain:
  assumes "uip_found db st uip u" "0 < an_level st" "an_minimized u = []" "an_mini_chain u = []" "an_minimize_chain u = []"
  shows "learned_ok db st uip (u\<lparr>an_clause := an_clause u @ [- uip]\<rparr>)"
proof -
  note F = found_facts [OF assms(1)]
  let ?c = "an_clause u @ [- uip]"
  have dr: "driving st uip ?c" by (rule uip_driving [OF assms(1,2)])
  have "rup db (rev (an_lrat_chain u @ an_unit_chain u)) {} (uminus ` set ?c)" if "an_lrat u"
  proof -
    have ua: "\<forall>l \<in> set (an_unit_analyzed u). false_lit u l \<and> lev u l = 0" "distinct (an_unit_analyzed u)"
      "an_unit_chain u = map (\<lambda>l. an_units u ! vlit (- l)) (an_unit_analyzed u)"
      using F(2) by (simp_all add: analysis_ok_def units_ok_def seen_ok_def)
    have "rup db (rev (map (\<lambda>l. an_units u ! vlit l) (map uminus (an_unit_analyzed u))) @ rev (an_lrat_chain u)) {} (uminus ` set ?c)"
    proof (rule plain_chain)
      show "chain_ok db u (Suc (pos st uip))" "knows db u" using F(3,5) that by simp_all
      show "\<forall>l \<in> set (map uminus (an_unit_analyzed u)). l \<in> set (an_trail u) \<and> lev u l = 0" using ua(1) by (auto simp: false_lit_def)
      show "distinct (map uminus (an_unit_analyzed u))" using ua(2) by (simp add: distinct_map inj_on_def)
      show "resolvent u (Suc (pos st uip)) = set ?c" by (rule F(6))
      show "\<forall>x \<in> set ?c. false_lit u x" using dr false_lit_same [OF F(4)] by (simp add: driving_def)
    qed simp
    then show ?thesis by (simp add: ua(3) comp_def)
  qed
  moreover have "flags_listed (u\<lparr>an_clause := ?c\<rparr>)" using found_listed [OF F(1,2)] by (simp add: flags_listed_def)
  moreover have "same st (u\<lparr>an_clause := ?c\<rparr>)" by (rule same_trans [OF F(4) set_clause_same])
  ultimately show ?thesis
    using dr F(7,8) assms(3-5) same_resolved(1) [OF F(4)] sameD(4) [OF F(4)] by (simp add: learned_ok_def)
qed

lemma learn_ok:
  assumes "trail_ok st" "fresh_state st" "conflict_ok st a" "an_lrat st \<longrightarrow> knows db st"
  shows "\<exists>uip glue jump s c. learn_clause os a st = Ok (uip, glue, jump, (finish_chain s)\<lparr>an_clause := c\<rparr>) \<and> learned_ok db st uip s \<and>
    driving st uip c \<and> set c = set (an_clause s) \<and> (fits32 st \<longrightarrow> c ! 0 = - uip \<and> jump = Max (insert 0 (lev st ` (set c - {- uip}))))"
proof -
  obtain uip u where u: "first_uip os a st = Ok (uip, u\<lparr>an_clause := an_clause u @ [- uip]\<rparr>)" "uip_found db st uip u"
    using first_uip_ok [OF assms] by blast
  let ?b = "u\<lparr>an_clause := an_clause u @ [- uip]\<rparr>"
  have m: "an_minimized u = []" "an_mini_chain u = []" "an_minimize_chain u = []" "0 < an_level st"
    using u(2) assms(2,3) by (simp_all add: uip_found_def same_mini_def fresh_state_def conflict_ok_def)
  have "\<exists>s. (if length (an_clause ?b) > 1 \<and> opt_minimize os then minimize_clause os ?b else Ok ?b) = Ok s \<and> learned_ok db st uip s"
    using learned_minimized [OF u(2) m(4,1-3), of os] learned_plain [OF u(2) m(4,1-3)] by (cases "length (an_clause ?b) > 1 \<and> opt_minimize os") auto
  then obtain s where s: "(if length (an_clause ?b) > 1 \<and> opt_minimize os then minimize_clause os ?b else Ok ?b) = Ok s" "learned_ok db st uip s"
    by blast
  have f: "same s (finish_chain s)" "an_clause (finish_chain s) = an_clause s"
    by (simp_all add: finish_chain_def same_def clause_data_def fun_eq_iff)
  have "same st s" "driving st uip (an_clause s)" using s(2) by (simp_all add: learned_ok_def)
  then obtain jump c where c: "new_driving_clause (finish_chain s) = Ok (jump, (finish_chain s)\<lparr>an_clause := c\<rparr>)" "driving st uip c" "set c = set (an_clause s)"
    "fits32 st \<longrightarrow> c ! 0 = - uip \<and> jump = Max (insert 0 (lev st ` (set c - {- uip})))"
    using new_driving_ok [OF assms(1) same_trans [OF _ f(1)], of uip] f(2) by auto
  have "learn_clause os a st = Ok (uip, length (an_levels ?b) - 1, jump, (finish_chain s)\<lparr>an_clause := c\<rparr>)"
    using u(1) s(1) c(1) by (simp add: learn_clause_def Let_def)
  then show ?thesis using s(2) c(2-4) by blast
qed
lemma rup_final:
  assumes "an_lrat st" "learned_ok db st uip s"
  shows "rup db (an_lrat_chain (finish_chain s)) {} (uminus ` set (an_clause s))"
proof -
  have "an_lrat s" using assms sameD(4) [of st s] by (simp add: learned_ok_def)
  then show ?thesis using assms by (simp add: finish_chain_def learned_ok_def)
qed

lemma learned_clean:
  assumes "learned_ok db st uip s"
  shows "\<exists>w. clean_up ((finish_chain s)\<lparr>an_clause := c\<rparr>) = Ok w \<and> same st w \<and> fresh_state w"
proof -
  let ?u = "(finish_chain s)\<lparr>an_clause := c\<rparr>"
  have l: "same st s" "flags_listed s" "an_lrat s \<or> an_unit_chain s = []" "an_minimized s = []" "an_mini_chain s = []" "an_minimize_chain s = []"
    using assms sameD(4) [of st s] by (auto simp: learned_ok_def)
  have u: "flags_listed ?u" "an_unit_chain ?u = []" "an_minimized ?u = []" "an_mini_chain ?u = []" "an_minimize_chain ?u = []" "same s ?u"
    using l(2-6) by (auto simp: flags_listed_def finish_chain_def same_def clause_data_def fun_eq_iff)
  obtain w where "clean_up ?u = Ok w" "same ?u w" "fresh_state w" using clean_up_ok [OF u(1-5)] by blast
  then show ?thesis using same_trans [OF same_trans [OF l(1) u(6)]] by blast
qed

section \<open>An example\<close>

text \<open>
  1 holds at the root, 2 implies 3 and 4 implies 5, which implies 6 together with 3; 2, 5 and 6 exclude each other. The first
  unique implication point is 5; the literal of 3 is removed, with the unit 1 in its chain. Every position is below 10, which
  stands for \<open>INT_MAX\<close> in the levels.
\<close>

definition ex_opts :: analyze_options where
  "ex_opts = \<lparr>opt_chrono = 1, opt_chronoalways = False, opt_chronolevelim = 100, opt_chronoreusetrail = False, opt_minimize = True,
     opt_minimizedepth = 1000, opt_tier1 = 2, opt_tier2 = 6\<rparr>"

definition ex_clause :: "nat \<Rightarrow> int list \<Rightarrow> Clause" where
  "ex_clause i c = \<lparr>cl_id = i, cl_literals = c, cl_redundant = False, cl_keep = True, cl_hyper = False, cl_glue = 0, cl_used = 0\<rparr>"

definition ex_level :: "int \<Rightarrow> nat \<Rightarrow> Level" where
  "ex_level d t = \<lparr>l_decision = d, l_trail = t, l_seen_count = 0, l_seen_trail = 10\<rparr>"

definition ex_state :: analysis where
  "ex_state =
     \<lparr>an_vtab = [\<lparr>v_level = 0, v_trail = 0, v_reason = None\<rparr>, \<lparr>v_level = 0, v_trail = 0, v_reason = None\<rparr>,
        \<lparr>v_level = 1, v_trail = 1, v_reason = None\<rparr>, \<lparr>v_level = 1, v_trail = 2, v_reason = Some 0\<rparr>,
        \<lparr>v_level = 2, v_trail = 3, v_reason = None\<rparr>, \<lparr>v_level = 2, v_trail = 4, v_reason = Some 1\<rparr>, \<lparr>v_level = 2, v_trail = 5, v_reason = Some 2\<rparr>],
      an_ftab = replicate 7 \<lparr>f_seen = False, f_keep = False, f_poison = False, f_removable = False, f_added = False\<rparr>,
      an_control = [ex_level 0 0, ex_level 2 1, ex_level 4 3], an_trail = [1, 2, 3, 4, 5, 6], an_level = 2, an_lrat = True,
      an_units = [0, 0, 1, 0, 0, 0, 0, 0, 0, 0, 0, 0, 0, 0],
      an_store = [0 \<mapsto> ex_clause 10 [3, -2, -1], 1 \<mapsto> ex_clause 11 [5, -4], 2 \<mapsto> ex_clause 12 [6, -5, -3], 3 \<mapsto> ex_clause 13 [-6, -5, -2]],
      an_clause = [], an_analyzed = [], an_unit_analyzed = [], an_levels = [], an_minimized = [], an_lrat_chain = [], an_unit_chain = [],
      an_mini_chain = [], an_minimize_chain = [], an_gtab = [0, 0, 0], an_recomputed = 0\<rparr>"

definition ex_db :: "nat \<Rightarrow> lrat_clause option" where
  "ex_db = [1 \<mapsto> \<lparr>literals = [1], tautological = False\<rparr>, 10 \<mapsto> \<lparr>literals = [3, -2, -1], tautological = False\<rparr>,
     11 \<mapsto> \<lparr>literals = [5, -4], tautological = False\<rparr>, 12 \<mapsto> \<lparr>literals = [6, -5, -3], tautological = False\<rparr>,
     13 \<mapsto> \<lparr>literals = [-6, -5, -2], tautological = False\<rparr>]"

lemma ex_learned:
  "(case learn_clause ex_opts 3 ex_state of Ok (uip, glue, jump, u) \<Rightarrow> (uip, glue, jump, an_clause u, an_lrat_chain u) = (5, 1, 1, [-5, -2], [1, 10, 12, 13])
    | Fault e \<Rightarrow> False)"
  by code_simp

lemma ex_fresh: "fresh_state ex_state"
  by (simp add: fresh_state_def ex_state_def clean_flags_def ex_level_def)

lemma ex_data: "clause_data ex_state a = Some (j, c) \<Longrightarrow>
  (a = 0 \<and> j = 10 \<and> c = [3, -2, -1]) \<or> (a = 1 \<and> j = 11 \<and> c = [5, -4]) \<or> (a = 2 \<and> j = 12 \<and> c = [6, -5, -3]) \<or> (a = 3 \<and> j = 13 \<and> c = [-6, -5, -2])"
  by (auto simp: clause_data_def ex_state_def ex_clause_def split: if_splits)

lemma ex_conflict: "conflict_ok ex_state 3"
  by (simp add: conflict_ok_def ex_state_def ex_clause_def clause_data_def false_lit_def)

lemma ex_knows: "knows ex_db ex_state"
  unfolding knows_def
proof (intro conjI allI impI)
  fix a j c assume "clause_data ex_state a = Some (j, c)"
  from ex_data [OF this] show "\<exists>d. ex_db j = Some d \<and> set (literals d) = set c \<and> \<not> tautological d" by (auto simp: ex_db_def)
next
  show "\<forall>l \<in> set (an_trail ex_state). lev ex_state l = 0 \<longrightarrow>
      (\<exists>d. ex_db (an_units ex_state ! vlit l) = Some d \<and> set (literals d) = {l} \<and> \<not> tautological d)"
    by (simp add: ex_state_def ex_db_def vlit_def)
qed

lemma ex_trail_nth:
  "\<forall>i < length (an_trail ex_state). let l = an_trail ex_state ! i in l \<noteq> 0 \<and> nat \<bar>l\<bar> < length (an_vtab ex_state) \<and>
     nat \<bar>l\<bar> < length (an_ftab ex_state) \<and> vlit l < length (an_units ex_state) \<and> pos ex_state l = i \<and> lev ex_state l \<le> an_level ex_state"
  by code_simp

lemma ex_trail: "trail_ok ex_state"
  unfolding trail_ok_def
proof (intro conjI ex_trail_nth)
  show "\<forall>l \<in> set (an_trail ex_state). 0 < lev ex_state l \<longrightarrow> (\<forall>a. rsn ex_state l = Some a \<longrightarrow>
        (\<exists>i c. clause_data ex_state a = Some (i, c) \<and> reason_ok ex_state l c))"
    by (simp add: ex_state_def clause_data_def ex_clause_def reason_ok_def false_lit_def)
qed (simp_all add: ex_state_def)
section \<open>Properties\<close>

definition follows_from :: "analysis \<Rightarrow> int list \<Rightarrow> bool" where
  "follows_from st c \<longleftrightarrow> (\<forall>\<sigma>. consistent_with st \<sigma> \<longrightarrow> sat_clause \<sigma> c)"

text \<open>
  C36. Conflict analysis always returns a learned clause, minimized or not: it follows from the clauses and the root literals, all
  its literals are false on a level above the root, and the negation of the first unique implication point is its only literal on
  the conflict level.
\<close>

theorem learned_clause_follows:
  assumes "trail_ok st" "fresh_state st" "conflict_ok st a" "an_lrat st \<longrightarrow> knows db st"
  shows "\<exists>uip glue jump u. learn_clause os a st = Ok (uip, glue, jump, u) \<and> follows_from st (an_clause u) \<and> driving st uip (an_clause u)"
proof -
  obtain uip glue jump s c where l: "learn_clause os a st = Ok (uip, glue, jump, (finish_chain s)\<lparr>an_clause := c\<rparr>)" "learned_ok db st uip s"
    "driving st uip c" "set c = set (an_clause s)" using learn_ok [OF assms] by blast
  have "follows_from st c" using l(2,4) by (simp add: follows_from_def learned_ok_def sat_clause_def list_ex_iff)
  then show ?thesis using l(1,3) by auto
qed

theorem learned_clause_follows_witness:
  "\<exists>uip glue jump u. learn_clause ex_opts 3 ex_state = Ok (uip, glue, jump, u) \<and> follows_from ex_state (an_clause u) \<and> driving ex_state uip (an_clause u)"
  by (rule learned_clause_follows [OF ex_trail ex_fresh ex_conflict, where db = ex_db]) (simp add: ex_knows)

text \<open>
  C38. After jumping back, the learned clause drives: its first literal is the negated unique implication point, the level to jump
  to is below the conflict level, and the other literals are exactly those that stay false there.
\<close>

theorem learned_clause_drives:
  assumes "trail_ok st" "fresh_state st" "conflict_ok st a" "an_lrat st \<longrightarrow> knows db st" "fits32 st"
  shows "\<exists>uip glue jump u. learn_clause os a st = Ok (uip, glue, jump, u) \<and> an_clause u ! 0 = - uip \<and> jump < an_level st \<and>
    {l \<in> set (an_clause u). lev st l \<le> jump} = set (an_clause u) - {- uip}"
proof -
  obtain uip glue jump s c where l: "learn_clause os a st = Ok (uip, glue, jump, (finish_chain s)\<lparr>an_clause := c\<rparr>)"
    "driving st uip c" "fits32 st \<longrightarrow> c ! 0 = - uip \<and> jump = Max (insert 0 (lev st ` (set c - {- uip})))" using learn_ok [OF assms(1-4)] by blast
  have d: "\<forall>l \<in> set c. false_lit st l \<and> (lev st l = an_level st \<longleftrightarrow> l = - uip)" using l(2) by (simp add: driving_def)
  have lt: "lev st x < an_level st" if "x \<in> set c - {- uip}" for x
    using that d false_litD(7) [OF assms(1), of x] by (auto simp: le_less)
  have j: "jump = Max (insert 0 (lev st ` (set c - {- uip})))" "c ! 0 = - uip" using l(3) assms(5) by simp_all
  have pos: "0 < an_level st" using assms(3) by (simp add: conflict_ok_def)
  have "\<forall>k \<in> insert 0 (lev st ` (set c - {- uip})). k < an_level st" using lt pos by auto
  then have jl: "jump < an_level st" using Max_in [of "insert 0 (lev st ` (set c - {- uip}))"] j(1) by simp
  have "lev st x \<le> jump" if "x \<in> set c - {- uip}" for x using that unfolding j(1) by (intro Max_ge) auto
  then have "{l \<in> set c. lev st l \<le> jump} = set c - {- uip}" using d jl by force
  then show ?thesis using l(1) j(2) jl by auto
qed

theorem learned_clause_drives_witness:
  "\<exists>uip glue jump u. learn_clause ex_opts 3 ex_state = Ok (uip, glue, jump, u) \<and> an_clause u ! 0 = - uip \<and> jump < an_level ex_state \<and>
    {l \<in> set (an_clause u). lev ex_state l \<le> jump} = set (an_clause u) - {- uip}"
  by (rule learned_clause_drives [OF ex_trail ex_fresh ex_conflict, where db = ex_db]) (simp_all add: ex_knows, simp add: fits32_def ex_state_def)

text \<open>
  C37. With LRAT proofs, the chain of antecedents that analysis and minimization build derives the learned clause: starting from
  the negated clause, unit propagation along the chain, in its order and each clause once, ends in a conflict.
\<close>

theorem learned_chain_checks:
  assumes "trail_ok st" "fresh_state st" "conflict_ok st a" "an_lrat st" "knows db st"
  shows "\<exists>uip glue jump u. learn_clause os a st = Ok (uip, glue, jump, u) \<and> rup db (an_lrat_chain u) {} (uminus ` set (an_clause u))"
proof -
  obtain uip glue jump s c where l: "learn_clause os a st = Ok (uip, glue, jump, (finish_chain s)\<lparr>an_clause := c\<rparr>)" "learned_ok db st uip s"
    "set c = set (an_clause s)" using learn_ok [OF assms(1-3), of db os] assms(5) by blast
  then show ?thesis using rup_final [OF assms(4) l(2)] by auto
qed

theorem learned_chain_checks_witness:
  "\<exists>uip glue jump u. learn_clause ex_opts 3 ex_state = Ok (uip, glue, jump, u) \<and> rup ex_db (an_lrat_chain u) {} (uminus ` set (an_clause u))"
  by (rule learned_chain_checks [OF ex_trail ex_fresh ex_conflict _ ex_knows]) (simp add: ex_state_def)

text \<open>
  C39. Cleaning up after the analysis leaves nothing behind: every flag of every variable and every count of a level is reset, and
  the trail, the levels of the variables and the clauses are those of before.
\<close>

theorem analysis_leaves_fresh:
  assumes "trail_ok st" "fresh_state st" "conflict_ok st a" "an_lrat st \<longrightarrow> knows db st"
  shows "\<exists>w. rbind (learn_clause os a st) (\<lambda>(uip, glue, jump, u). clean_up u) = Ok w \<and> fresh_state w \<and> same st w"
proof -
  obtain uip glue jump s c where l: "learn_clause os a st = Ok (uip, glue, jump, (finish_chain s)\<lparr>an_clause := c\<rparr>)" "learned_ok db st uip s"
    using learn_ok [OF assms] by blast
  then show ?thesis using learned_clean [OF l(2), of c] by auto
qed

theorem analysis_leaves_fresh_witness:
  "\<exists>w. rbind (learn_clause ex_opts 3 ex_state) (\<lambda>(uip, glue, jump, u). clean_up u) = Ok w \<and> fresh_state w \<and> same ex_state w"
  by (rule analysis_leaves_fresh [OF ex_trail ex_fresh ex_conflict, where db = ex_db]) (simp add: ex_knows)
end
