(* ===== verification/Conflict_Level.thy ===== *)
theory Conflict_Level
  imports Conflict_Correct "HOL-Library.Multiset"
begin

text \<open>
  The level of a conflict: \<open>find_conflict_level\<close> returns the highest level of a literal of the conflict, the only literal of
  that level if there is just one, and moves literals of the two highest levels to the front.
\<close>

definition count_at :: "analysis \<Rightarrow> nat \<Rightarrow> int list \<Rightarrow> nat" where
  "count_at st k c = length (filter (\<lambda>l. lev st l = k) c)"

lemma var_false: "trail_ok st \<Longrightarrow> false_lit st l \<Longrightarrow> var l st = Ok (an_vtab st ! nat \<bar>l\<bar>)"
  by (simp add: var_def false_litD(2))

text \<open>The state of the first loop after the literals \<open>ds\<close>.\<close>

definition scanned :: "analysis \<Rightarrow> int list \<Rightarrow> nat \<times> int \<times> nat \<Rightarrow> bool" where
  "scanned st ds = (\<lambda>(res, forced, n). (\<forall>l \<in> set ds. lev st l \<le> res) \<and> n = count_at st res ds \<and>
     (if res = 0 then forced = 0 else forced \<in> set ds \<and> lev st forced = res))"

definition highest :: "analysis \<Rightarrow> int list \<Rightarrow> nat \<Rightarrow> int \<Rightarrow> nat \<Rightarrow> bool" where
  "highest st c res forced n \<longleftrightarrow> (\<forall>l \<in> set c. lev st l \<le> res) \<and> (if res = 0 then forced = 0 else forced \<in> set c \<and> lev st forced = res) \<and>
     (n = 1 \<longleftrightarrow> count_at st res c = 1) \<and> (c \<noteq> [] \<longrightarrow> (\<exists>l \<in> set c. lev st l = res))"

lemma scan_levels_ok:
  assumes "trail_ok st" "\<forall>l \<in> set (ds @ c). false_lit st l" "scanned st ds (res, forced, n)"
  shows "\<exists>res' forced' n'. scan_levels c (res, forced, n) st = Ok (res', forced', n') \<and>
    highest st (ds @ c) res' forced' n'"
  using assms(2,3)
proof (induction c arbitrary: ds res forced n)
  case Nil
  have "\<exists>l \<in> set ds. lev st l = res" if "ds \<noteq> []"
    using Nil(2) that by (cases "res = 0") (auto simp: scanned_def neq_Nil_conv)
  then show ?case using Nil by (auto simp: scanned_def highest_def)
next
  case (Cons l c)
  have v: "var l st = Ok (an_vtab st ! nat \<bar>l\<bar>)" and f: "false_lit st l" using Cons.prems(1) var_false [OF assms(1)] by simp_all
  have S: "\<forall>l \<in> set ds. lev st l \<le> res" "n = count_at st res ds" "if res = 0 then forced = 0 else forced \<in> set ds \<and> lev st forced = res"
    using Cons.prems(2) by (simp_all add: scanned_def)
  have p: "\<forall>l \<in> set ((ds @ [l]) @ c). false_lit st l" using Cons.prems(1) by simp
  have app: "count_at st k (ds @ [l]) = count_at st k ds + (if lev st l = k then 1 else 0)" for k by (simp add: count_at_def)
  consider "lev st l > res" | "lev st l = res" "res = an_level st" "n \<noteq> 0" | "lev st l = res" "\<not> (res = an_level st \<and> n \<noteq> 0)" | "lev st l < res"
    by linarith
  then show ?case
  proof cases
    case 1
    have "count_at st (lev st l) ds = 0" using S(1) 1 by (auto simp: count_at_def filter_empty_conv)
    then have "scanned st (ds @ [l]) (lev st l, l, 1)" using 1 S(1) app by (auto simp: scanned_def)
    from Cons.IH [OF p this] show ?thesis using 1 v by simp
  next
    case 2
    have le: "\<forall>m \<in> set (ds @ l # c). lev st m \<le> res" using Cons.prems(1) false_litD(7) [OF assms(1)] 2(2) by blast
    have "count_at st res (ds @ l # c) \<ge> n + 1" using S(2) 2(1) by (simp add: count_at_def)
    moreover have "highest st (ds @ l # c) res forced (n + 1)"
      using 2 le S(2,3) calculation by (auto simp: highest_def)
    ultimately show ?thesis using 2 v by simp
  next
    case 3
    have "scanned st (ds @ [l]) (res, forced, n + 1)" using 3 S app by (auto simp: scanned_def)
    from Cons.IH [OF p this] show ?thesis using 3 v by (cases "res = an_level st") simp_all
  next
    case 4
    have "scanned st (ds @ [l]) (res, forced, n)" using 4 S app by (auto simp: scanned_def)
    from Cons.IH [OF p this] show ?thesis using 4 v by simp
  qed
qed
lemma highest_from_ok:
  assumes "trail_ok st" "\<forall>x \<in> set xs. false_lit st x \<and> lev st x \<le> res"
  shows "\<exists>q m. highest_from xs j (p, l, lev st l) res st = Ok (q, m) \<and> (q = p \<and> m = l \<or> (\<exists>k < length xs. q = j + k \<and> xs ! k = m)) \<and>
    lev st l \<le> lev st m \<and> (\<forall>x \<in> set xs. lev st x \<le> lev st m)"
  using assms(2)
proof (induction xs arbitrary: j p l)
  case Nil
  then show ?case by auto
next
  case (Cons x xs)
  have v: "var x st = Ok (an_vtab st ! nat \<bar>x\<bar>)" using Cons.prems var_false [OF assms(1)] by simp
  have xs: "\<forall>x \<in> set xs. false_lit st x \<and> lev st x \<le> res" using Cons.prems by simp
  have up: "(\<exists>k < length xs. q = j + 1 + k \<and> xs ! k = m) \<Longrightarrow> \<exists>k < length (x # xs). q = j + k \<and> (x # xs) ! k = m" for q m
    by (metis Suc_less_eq add.assoc add.commute length_Cons nth_Cons_Suc plus_1_eq_Suc)
  consider "lev st l \<ge> lev st x" | "lev st l < lev st x" "lev st x = res" | "lev st l < lev st x" "lev st x \<noteq> res" by linarith
  then show ?case
  proof cases
    case 1
    obtain q m where q: "highest_from xs (j + 1) (p, l, lev st l) res st = Ok (q, m)"
      "q = p \<and> m = l \<or> (\<exists>k < length xs. q = j + 1 + k \<and> xs ! k = m)" "lev st l \<le> lev st m" "\<forall>x \<in> set xs. lev st x \<le> lev st m"
      using Cons.IH [OF xs, of "j + 1" p l] by blast
    have "q = p \<and> m = l \<or> (\<exists>k < length (x # xs). q = j + k \<and> (x # xs) ! k = m)" using q(2) up by blast
    moreover have "\<forall>y \<in> set (x # xs). lev st y \<le> lev st m" using q(3,4) 1 by auto
    moreover have "highest_from (x # xs) j (p, l, lev st l) res st = Ok (q, m)" using 1 v q(1) by simp
    ultimately show ?thesis using q(3) by blast
  next
    case 2
    then have "highest_from (x # xs) j (p, l, lev st l) res st = Ok (j, x)" using v by simp
    moreover have "\<forall>y \<in> set (x # xs). lev st y \<le> lev st x" using xs 2(2) by auto
    moreover have "\<exists>k < length (x # xs). j = j + k \<and> (x # xs) ! k = x" by (rule exI [of _ 0]) simp
    ultimately show ?thesis using 2(1) less_imp_le by blast
  next
    case 3
    obtain q m where q: "highest_from xs (j + 1) (j, x, lev st x) res st = Ok (q, m)"
      "q = j \<and> m = x \<or> (\<exists>k < length xs. q = j + 1 + k \<and> xs ! k = m)" "lev st x \<le> lev st m" "\<forall>x \<in> set xs. lev st x \<le> lev st m"
      using Cons.IH [OF xs, of "j + 1" j x] by blast
    have "q = j \<and> m = x \<Longrightarrow> \<exists>k < length (x # xs). q = j + k \<and> (x # xs) ! k = m" by (rule exI [of _ 0]) simp
    then have "\<exists>k < length (x # xs). q = j + k \<and> (x # xs) ! k = m" using q(2) up by blast
    moreover have "\<forall>y \<in> set (x # xs). lev st y \<le> lev st m" "lev st l \<le> lev st m" using q(3,4) 3(1) by auto
    moreover have "highest_from (x # xs) j (p, l, lev st l) res st = Ok (q, m)" using 3 v q(1) by simp
    ultimately show ?thesis by blast
  qed
qed

lemma to_front_ok:
  assumes "trail_ok st" "\<forall>x \<in> set c. false_lit st x \<and> lev st x \<le> res" "i < length c"
  shows "\<exists>d. to_front i res st c = Ok d \<and> mset d = mset c \<and> take i d = take i c \<and> (\<forall>x \<in> set (drop i d). lev st x \<le> lev st (d ! i))"
proof -
  have v: "var (c ! i) st = Ok (an_vtab st ! nat \<bar>c ! i\<bar>)" using assms(2,3) by (intro var_false [OF assms(1)]) simp
  have dr: "drop i c = c ! i # drop (i + 1) c" using assms(3) by (simp add: Cons_nth_drop_Suc)
  have xs: "\<forall>x \<in> set (drop (i + 1) c). false_lit st x \<and> lev st x \<le> res" using assms(2) by (meson in_set_dropD)
  obtain q m where q: "highest_from (drop (i + 1) c) (i + 1) (i, c ! i, lev st (c ! i)) res st = Ok (q, m)"
    "q = i \<and> m = c ! i \<or> (\<exists>k < length (drop (i + 1) c). q = i + 1 + k \<and> drop (i + 1) c ! k = m)"
    "lev st (c ! i) \<le> lev st m" "\<forall>x \<in> set (drop (i + 1) c). lev st x \<le> lev st m"
    using highest_from_ok [OF assms(1) xs, of "i + 1" i "c ! i"] by blast
  have all: "\<forall>x \<in> set (drop i c). lev st x \<le> lev st m" using q(3,4) unfolding dr by simp
  define d where "d = (if q = i then c else c[q := c ! i, i := m])"
  have run: "to_front i res st c = Ok d" using assms(3) v q(1) by (simp add: to_front_def d_def)
  show ?thesis
  proof (cases "q = i")
    case True
    then have "m = c ! i" using q(2) by auto
    then show ?thesis using run all True by (simp add: d_def)
  next
    case False
    then obtain k where k: "k < length (drop (i + 1) c)" "q = i + 1 + k" "drop (i + 1) c ! k = m" using q(2) by blast
    then have n: "q < length c" "c ! q = m" "i < q" by (auto simp: nth_drop)
    have d: "d = c[q := c ! i, i := c ! q]" using False n(2) by (simp add: d_def)
    have ms: "mset d = mset c" unfolding d by (rule mset_swap) (use assms(3) n(1) in simp_all)
    have tk: "take i d = take i c" using n(3) by (simp add: d)
    have "mset (take i d @ drop i d) = mset (take i c @ drop i c)" using ms by simp
    then have "mset (drop i d) = mset (drop i c)" unfolding mset_append tk by simp
    then have "set (drop i d) = set (drop i c)" by (metis set_mset_mset)
    moreover have "d ! i = m" using assms(3) n by (simp add: d)
    ultimately show ?thesis using run ms tk all by simp
  qed
qed

section \<open>The conflict level\<close>

definition two_highest_first :: "analysis \<Rightarrow> int list \<Rightarrow> bool" where
  "two_highest_first st d \<longleftrightarrow> (\<forall>x \<in> set d. lev st x \<le> lev st (d ! 0)) \<and> (\<forall>x \<in> set (drop 1 d). lev st x \<le> lev st (d ! 1))"

text \<open>
  C40. \<open>find_conflict_level\<close> returns the highest level of the conflict, and the literal to force exactly if it is the only one of
  that level; it permutes the conflict so that its two highest literals come first.
\<close>

theorem conflict_level_found:
  assumes "trail_ok st" "clause_data st a = Some (j, c)" "1 < length c" "\<forall>m \<in> set c. false_lit st m"
  shows "\<exists>forced d u. find_conflict_level a st = Ok (Max (lev st ` set c), forced, u) \<and> clause_data u = (clause_data st)(a \<mapsto> (j, d)) \<and>
    mset d = mset c \<and> two_highest_first st d \<and>
    (if 0 < Max (lev st ` set c) \<and> count_at st (Max (lev st ` set c)) c = 1
     then {l \<in> set c. lev st l = Max (lev st ` set c)} = {forced} else forced = 0)"
proof -
  obtain e where e: "an_store st a = Some e" "cl_id e = j" "cl_literals e = c" using assms(2) by (rule clause_dataE)
  have "scanned st [] (0, 0, 0)" by (simp add: scanned_def count_at_def)
  then obtain res forced n where r: "scan_levels c (0, 0, 0) st = Ok (res, forced, n)" "highest st c res forced n"
    using scan_levels_ok [OF assms(1), of "[]" c 0 0 0] assms(4) by auto
  have H: "\<forall>l \<in> set c. lev st l \<le> res" "if res = 0 then forced = 0 else forced \<in> set c \<and> lev st forced = res" "n = 1 \<longleftrightarrow> count_at st res c = 1"
    "\<exists>l \<in> set c. lev st l = res" using r(2) assms(3) by (auto simp: highest_def)
  have M: "Max (lev st ` set c) = res" using H(1,4) by (intro Max_eqI) auto
  have c: "\<forall>x \<in> set c. false_lit st x \<and> lev st x \<le> res" using assms(4) H(1) by simp
  obtain b where b: "to_front 0 res st c = Ok b" "mset b = mset c" "\<forall>x \<in> set (drop 0 b). lev st x \<le> lev st (b ! 0)"
    using to_front_ok [OF assms(1) c less_trans [OF zero_less_one assms(3)]] by auto
  have sb: "set b = set c" "length b = length c" using b(2) by (metis set_mset_mset, metis size_mset)
  obtain d where d: "to_front 1 res st b = Ok d" "mset d = mset b" "take 1 d = take 1 b" "\<forall>x \<in> set (drop 1 d). lev st x \<le> lev st (d ! 1)"
    using to_front_ok [OF assms(1), of b res 1] c sb assms(3) by auto
  have sd: "set d = set c" "length d = length c" using d(2) b(2) by (metis set_mset_mset, metis size_mset)
  have "d ! 0 = b ! 0" using arg_cong [OF d(3), of "\<lambda>xs. xs ! 0"] by (simp only: nth_take [OF zero_less_one])
  then have two: "two_highest_first st d" using b(3) d(4) sb sd by (simp add: two_highest_first_def)
  define u where "u = st\<lparr>an_store := (an_store st)(a \<mapsto> e\<lparr>cl_literals := d\<rparr>)\<rparr>"
  have run: "find_conflict_level a st = Ok (res, if n \<noteq> 1 then 0 else forced, u)"
    using e r(1) b(1) d(1) by (simp add: find_conflict_level_def clause_ref_def u_def)
  have "{l \<in> set c. lev st l = res} = {forced}" if pos: "0 < res" and one: "count_at st res c = 1"
  proof -
    obtain x where "filter (\<lambda>l. lev st l = res) c = [x]" using one by (auto simp: count_at_def length_Suc_conv)
    then have "{l \<in> set c. lev st l = res} = {x}" by (metis list.simps(15) list.set(1) set_filter)
    then show ?thesis using H(2) pos by auto
  qed
  moreover have "clause_data u = (clause_data st)(a \<mapsto> (j, d))" using e(2) by (simp add: u_def clause_data_def fun_eq_iff)
  ultimately show ?thesis unfolding M using run d(2) b(2) two H(2,3)
    by (intro exI [of _ "if n \<noteq> 1 then 0 else forced"] exI [of _ d] exI [of _ u]) auto
qed
lemma ex_conflict_clause: "clause_data ex_state 3 = Some (13, [-6, -5, -2])" "\<forall>m \<in> set [-6, -5, -2]. false_lit ex_state m"
  by (simp_all add: clause_data_def ex_state_def ex_clause_def false_lit_def)

theorem conflict_level_found_witness:
  "\<exists>forced d u. find_conflict_level 3 ex_state = Ok (Max (lev ex_state ` set [-6, -5, -2]), forced, u) \<and>
    clause_data u = (clause_data ex_state)(3 \<mapsto> (13, d)) \<and> mset d = mset [-6, -5, -2] \<and> two_highest_first ex_state d \<and>
    (if 0 < Max (lev ex_state ` set [-6, -5, -2]) \<and> count_at ex_state (Max (lev ex_state ` set [-6, -5, -2])) [-6, -5, -2] = 1
     then {l \<in> set [-6, -5, -2]. lev ex_state l = Max (lev ex_state ` set [-6, -5, -2])} = {forced} else forced = 0)"
  by (rule conflict_level_found [OF ex_trail ex_conflict_clause(1) _ ex_conflict_clause(2)]) simp
end
