(* ===== verification/Spec2Isabelle.thy ===== *)
theory Spec2Isabelle
  imports Main_Program Lrat_Reader Lrat_Rup Proof_Dispatch Extension Search_Correct Conflict_Level
begin

text \<open>
  Verification of the serialisation solver.

  \<^bold>\<open>The program.\<close> The solver reads an abstract argumentation framework in the i23 format and prints its
  initial sets or the serialisation sequences of its extensions. \<open>src/Main.cpp\<close> reads the options, parses
  the file (\<open>src/Parse.cpp\<close>) into the class \<open>AF\<close> (\<open>include/AF.h\<close>, \<open>src/AF.cpp\<close>) and calls the enumerator
  of the task. The enumerators of sequences (\<open>src/ES-*.cpp\<close>, \<open>src/AS-AD.cpp\<close>) recurse over the initial sets of
  the current arguments (\<open>src/EE-IT.cpp\<close>) and over the reduct by the chosen set (\<open>include/Algorithms.h\<close>), with
  the active arguments in a bit set (\<open>include/IterableBitSet.h\<close>). Initial sets are minimal models of a
  propositional encoding (\<open>src/Encodings.cpp\<close>), found by a SAT solver behind a wrapper
  (\<open>src/CadicalSatSolver.cpp\<close>). The SAT solver is CaDiCaL (\<open>lib/cadical-1.9.5\<close>), built with the program.

  \<^bold>\<open>Results of C++ code.\<close> Every operation that can fail returns \<open>'a result\<close> (theory \<open>Prelude\<close>): a value or the
  fault that ends it, such as an access out of range, an overflow of a signed integer, a violated contract of the
  interface, an exit of the process, or a loop that does not return. Loops are \<open>rfold\<close> (over a range) and
  \<open>rwhile\<close> (a partial function, where not returning is a value of its own), so a theorem with \<open>= Ok x\<close> says that the code
  terminates without a fault. Fixed width integers wrap or overflow as in the source (\<open>u32\<close>, \<open>i32\<close>, \<open>neg_int\<close>, words).

  \<^bold>\<open>Theories, by part of the program.\<close>

  \<^item> \<open>Argumentation\<close>: the mathematics, independent of the code: admissible, complete, preferred, stable, grounded
    and strongly admissible sets, reducts, initial sets and serialisation sequences (\<open>ser\<close>, \<open>gser\<close>).

  \<^item> \<open>AF_Core\<close> (\<open>AF.h\<close>, \<open>AF.cpp\<close>, \<open>IterableBitSet.h\<close>): the record \<open>AF\<close> with the two adjacency vectors, \<open>set_arguments\<close>,
    \<open>add_attack\<close>, \<open>accepted_var\<close>, \<open>rejected_var\<close>; \<open>wf_af\<close> and \<open>wf_active\<close> are the well-formedness conditions all
    other theories rest on. \<open>Printing\<close>: the output of \<open>print_extension\<close> and \<open>print_sequence\<close> is unambiguous.

  \<^item> \<open>Reduct\<close> (\<open>Algorithms.h\<close>): \<open>get_reduct\<close> and \<open>get_cone\<close> with exact results.

  \<^item> \<open>Cadical_Api\<close> (\<open>solver.cpp\<close>, \<open>external.cpp\<close>, \<open>contract.hpp\<close>): the state machine of the interface with its
    contracts (\<open>REQUIRE\<close>), over a parameter \<open>eng\<close>, the engine. \<open>engine_ok\<close> and \<open>engine_decides\<close> are what
    \<open>cadical.hpp\<close> documents of it: 10 comes with a model, 20 only if there is none, and nothing interrupts it.
    \<open>ref_engine\<close> is an instance, used by the witnesses. \<open>api_reach\<close> are the reachable states.

  \<^item> \<open>Sat_Solver\<close> (\<open>CadicalSatSolver.cpp\<close>): the wrapper, as an interpretation of the interface \<open>incremental_sat\<close>;
    \<open>Encoding\<close> (\<open>Encodings.cpp\<close>): the clauses and which sets are their models; \<open>Initial_Sets\<close> (\<open>EE-IT.cpp\<close>): the two
    loops, whose invariants give that each initial set is listed once.

  \<^item> \<open>Serial_Search\<close>, \<open>Sequences\<close>, \<open>Sequence_Correct\<close> (\<open>ES-*.cpp\<close>, \<open>AS-AD.cpp\<close>): the locale \<open>serial_search\<close> is the
    scheme of the recursive enumerators and \<open>set_search\<close> its refinement to sets; each enumerator is an
    interpretation. The recursion takes fuel: the bound \<open>Suc (length active arguments)\<close> of the wrappers is enough, since
    each step removes an argument (\<open>enumerators_return\<close> proves that no run uses it up).

  \<^item> \<open>I23_Parser\<close> (\<open>Parse.cpp\<close>), \<open>Main_Program\<close> (\<open>Main.cpp\<close>): from the text of the file to the output and the exit
    code. \<open>getopt_long_only\<close> is a parameter: the parsed options are an argument of \<open>main\<close>.

  \<^item> \<open>Proof_File\<close> (\<open>file.hpp\<close>), \<open>Proof_Tracers\<close> (\<open>drattracer.cpp\<close>, \<open>lrattracer.cpp\<close>, \<open>frattracer.cpp\<close>): what the
    tracers write, in text and binary form, and that different DRAT and FRAT proofs give different files. \<open>Lrat_Reader\<close>
    has a reader of the LRAT format, independent of the tracer, and the round trip (\<open>lrat_reads_back\<close>); the fuel of the
    reader is the length of the file. \<open>Veripb_Tracer\<close> (\<open>veripbtracer.cpp\<close>) with
    the hash table of \<open>Hash_Table\<close>, shared with the LRAT checker: the locale \<open>entry_store\<close> is its interface.

    \<open>Idrup_Tracer\<close> (\<open>idruptracer.cpp\<close>): incremental proofs, whose assumption clauses wait in a hash table for the
    conclusion that deletes them.

  \<^item> \<open>Lrat_Checker\<close>, \<open>Lrat_Rup\<close> (\<open>lratchecker.cpp\<close>): all operations of the checker, soundness of whatever it accepts
    (stored clauses, clauses derived for failed assumptions, conclusions), and the equivalence of its propagation with
    reverse unit propagation. Conclusions after a constraint are not sound (\<open>lrat_constraint_gap\<close>).

  \<^item> \<open>Drup_Checker\<close> (\<open>checker.cpp\<close>, \<open>checker.hpp\<close>): the operations of the DRUP checker over an explicit store of
    clauses, which the hash table, the watch lists and the garbage list share. \<open>Drup_Watches\<close>: the invariants of the two
    watched literals (\<open>winv\<close>, \<open>blocked\<close>) and propagation; \<open>Drup_Store\<close>: importing, checking and storing clauses
    (\<open>store_ok\<close>: who owns a clause); \<open>Drup_Delete\<close>: finding, deleting and garbage collection; \<open>Drup_Correct\<close>:
    sequences of calls, soundness, completeness for unit propagation (\<open>refuted\<close>) and the ways a call can end.

  \<^item> \<open>Proof_Dispatch\<close> (\<open>proof.cpp\<close>, \<open>proof.hpp\<close>, \<open>tracer.hpp\<close>): the class \<open>Proof\<close> between the solver and all tracers and
    checkers. Its operations refine a broadcast of events (\<open>op_events\<close>, \<open>dispatch_refines\<close>), and through it the
    results on checkers and files compose: what the DRAT file says is what the DRUP checker has accepted
    (\<open>checked_trace_sound\<close>).

  \<^item> \<open>Extension\<close> (\<open>extend.cpp\<close>, \<open>external.hpp\<close>): the stack of removed clauses and the reconstruction of models.

  \<^item> \<open>Binary_Heap\<close> (\<open>heap.hpp\<close>), \<open>Vmtf_Queue\<close> (\<open>queue.hpp\<close>), \<open>Decision\<close> (\<open>decide.cpp\<close>, \<open>backtrack.cpp\<close>,
    \<open>queue.cpp\<close>, \<open>score.cpp\<close> and parts of \<open>phases.cpp\<close>, \<open>analyze.cpp\<close>, \<open>internal.cpp\<close>, \<open>propagate.cpp\<close>): decisions and
    backtracking of the search, on the part of \<open>Internal\<close> they use. \<open>Decision_Heuristics\<close> has the invariants of the
    queue (\<open>vmtf\<close>) and of the heap (\<open>scored\<close>), \<open>Search_Trail\<close> that of the trail, together \<open>state_ok\<close>, and
    \<open>Search_Correct\<close> the reachable states (\<open>reach\<close>) and the properties.

  \<^item> \<open>Conflict_Analysis\<close> (\<open>analyze.cpp\<close>, \<open>minimize.cpp\<close>, parts of \<open>propagate.cpp\<close>, \<open>clause.cpp\<close>): from a conflict to the
    learned clause, on the part of \<open>Internal\<close> it uses (\<open>analysis\<close>). \<open>Conflict_Uip\<close> has the implication graph
    (\<open>trail_ok\<close>, \<open>reason_ok\<close>), the invariant of the resolution down the trail (\<open>uip_inv\<close>) and the first unique
    implication point; \<open>Conflict_Minimize\<close> the invariants of minimization (\<open>mini_ok\<close>) and of the chains of removed
    literals (\<open>calc_inv\<close>), with the fuel of \<open>calculate_minimize_chain\<close>: the length of the trail is enough;
    \<open>Conflict_Correct\<close> composes them (\<open>learn_clause\<close>, \<open>clean_up\<close>) with the properties; \<open>Conflict_Level\<close> is
    the level of a conflict for chronological backtracking. That the trail and the reasons are as \<open>trail_ok\<close> says is
    the contract of propagation and a hypothesis of these properties. The chains are checked by the reference unit
    propagation (\<open>rup\<close>) that \<open>check_is_rup\<close> shows to be that of the LRAT checker.

  \<^bold>\<open>The main results.\<close> The enumerators terminate and their output is exactly the mathematical one, each sequence
  once, provided that no two arguments that could be in one admissible set attack the same argument
  (\<open>no_shared_target\<close>). Without this condition the bit set of \<open>get_reduct\<close> marks arguments that were removed before
  (\<open>get_reduct_exact\<close>), the exact output is that of \<open>admissible_any\<close>, a search over active arguments and phantoms,
  and \<open>grounded_shared_target\<close> and \<open>admissible_shared_target\<close> are the frameworks on which it is wrong.
  \<open>main_initial\<close>, \<open>main_sequences\<close> and \<open>main_argument\<close> compose parser, enumerator, solver and printer.

  \<^bold>\<open>Abstractions.\<close>

  \<^item> Decision scores are elements of a linear order and the bumped score is an argument: floating point rounding and
    the rescaling of the scores are not modelled. The invariants of the search are stated without the option
    \<open>reverse\<close>, and for a search without external propagator. The level that \<open>search_assign\<close> gives
    a literal is an argument, since the reasons of propagated literals are not modelled, its phase is always saved and a
    unit is not announced to the proof. The options are fixed for a run.

  \<^item> The random order of \<open>shuffle_queue\<close> is given by the picks of the generator, any function within its range.

  \<^item> The text of messages, statistics and log output is left out; output to proof files is the list of
    characters written.

  \<^item> The LRAT checker and the VeriPB tracer keep their clauses by value in the buckets of the hash table instead of
    linked nodes. The DRUP checker reorders the literals of clauses that several lists point to, so its clauses live in a map
    from addresses; a freed clause is gone from it and an access to it is a fault. Its theorems are for literals up to
    \<open>2 ^ 29\<close> (\<open>lit_ok\<close>), so that the index of a literal fits an int.

  \<^item> Conflict analysis is that of the options \<open>otfs = 0\<close> and \<open>shrink = 0\<close>, without watch lists, statistics and the
    bumping of variables. The clauses live in a map from addresses; the values of the literals are those of the trail.

  \<^bold>\<open>Not modelled.\<close> The engine of CaDiCaL as a whole is behind the parameter \<open>eng\<close>: the claims about the program need
  only its documented behaviour. Of its parts, propagation, restarts, the clause data base and inprocessing are not
  modelled, and of conflict analysis on-the-fly strengthening, shrinking, the bumping of reason side literals and eager
  subsumption. The builder of LRAT chains (option
  \<open>externallrat\<close>) and tracers written by users are left out. The stand-alone programs and the DIMACS reader of CaDiCaL are not part of the program; options,
  statistics, messages and signals do not change results.
\<close>

end
